(* ===== verification/Prelude.thy ===== *)
theory Prelude
  imports Main "HOL-Library.Word"
begin

text \<open>
  Shared vocabulary of the development: the machine integers of the ESP8266 (a 32-bit
  little-endian Xtensa core, \<open>int\<close> and \<open>size_t\<close> are 32 bits wide), byte-addressed memory with
  16-bit and 32-bit loads and stores, the memory functions of the C library the code calls
  (\<open>memset\<close>, \<open>memcpy\<close>, \<open>memmove\<close>), and pointers into a region.  The collection
  \<open>mem_laws\<close> gathers the read-over-write laws the component theories hand to the simplifier.
\<close>

unbundle bit_operations_syntax

named_theorems mem_laws \<open>read-over-write laws of memory and of the structures laid out in it\<close>

section \<open>Machine integers and memory\<close>

type_synonym u8 = "8 word"
type_synonym u16 = "16 word"
type_synonym u32 = "32 word"

type_synonym memory = "nat \<Rightarrow> u8"

text \<open>Little-endian loads and stores; an address is a byte offset into the region.\<close>

definition load16 :: "memory \<Rightarrow> nat \<Rightarrow> u16" where
  "load16 m a = ucast (m a) OR push_bit 8 (ucast (m (Suc a)))"

definition store16 :: "memory \<Rightarrow> nat \<Rightarrow> u16 \<Rightarrow> memory" where
  "store16 m a v = m(a := ucast v, Suc a := ucast (drop_bit 8 v))"

definition load32 :: "memory \<Rightarrow> nat \<Rightarrow> u32" where
  "load32 m a = ucast (load16 m a) OR push_bit 16 (ucast (load16 m (a + 2)))"

definition store32 :: "memory \<Rightarrow> nat \<Rightarrow> u32 \<Rightarrow> memory" where
  "store32 m a v = store16 (store16 m a (ucast v)) (a + 2) (ucast (drop_bit 16 v))"

text \<open>The C library's block operations, as functions on the whole region.\<close>

definition memset :: "memory \<Rightarrow> nat \<Rightarrow> u8 \<Rightarrow> nat \<Rightarrow> memory" where
  "memset m a v n = (\<lambda>x. if a \<le> x \<and> x < a + n then v else m x)"

definition memmove :: "memory \<Rightarrow> nat \<Rightarrow> nat \<Rightarrow> nat \<Rightarrow> memory" where
  "memmove m dst src n = (\<lambda>x. if dst \<le> x \<and> x < dst + n then m (src + (x - dst)) else m x)"

text \<open>
  Pointers into a region: the null pointer, or a byte offset from the start of the region.
\<close>

datatype vptr = NULL | Ptr nat

section \<open>Laws of loads and stores\<close>

lemma bytes_of_u16: "ucast (ucast v :: u8) OR push_bit 8 (ucast (ucast (drop_bit 8 v) :: u8)) = (v :: u16)"
  by (rule bit_word_eqI) (auto simp: bit_simps)

lemma load16_store16 [simp]: "load16 (store16 m a v) a = v"
  by (simp add: load16_def store16_def bytes_of_u16)

lemma load16_store16_disjoint:
  "a + 1 < b \<or> b + 1 < a \<Longrightarrow> load16 (store16 m a v) b = load16 m b"
  by (auto simp: load16_def store16_def)

lemma store16_outside: "x \<noteq> a \<Longrightarrow> x \<noteq> Suc a \<Longrightarrow> store16 m a v x = m x"
  by (simp add: store16_def)

lemma halves_of_u32: "ucast (ucast v :: u16) OR push_bit 16 (ucast (ucast (drop_bit 16 v) :: u16)) = (v :: u32)"
  by (rule bit_word_eqI) (auto simp: bit_simps)

lemma load32_store32 [simp]: "load32 (store32 m a v) a = v"
  by (simp add: load32_def store32_def load16_store16_disjoint halves_of_u32)

lemma load32_store32_disjoint:
  "a + 3 < b \<or> b + 3 < a \<Longrightarrow> load32 (store32 m a v) b = load32 m b"
  by (auto simp: load32_def store32_def load16_store16_disjoint)

lemma load16_cong: "m a = m' a \<Longrightarrow> m (Suc a) = m' (Suc a) \<Longrightarrow> load16 m a = load16 m' a"
  by (simp add: load16_def)

lemma memset_outside: "x < a \<or> a + n \<le> x \<Longrightarrow> memset m a v n x = m x"
  by (auto simp: memset_def)

lemma memset_inside: "a \<le> x \<Longrightarrow> x < a + n \<Longrightarrow> memset m a v n x = v"
  by (simp add: memset_def)

lemma memmove_outside: "x < dst \<or> dst + n \<le> x \<Longrightarrow> memmove m dst src n x = m x"
  by (auto simp: memmove_def)

lemma memmove_inside: "i < n \<Longrightarrow> memmove m dst src n (dst + i) = m (src + i)"
  by (simp add: memmove_def)

section \<open>Words as natural numbers\<close>

lemma unat_of_nat_u16 [simp]: "n < 65536 \<Longrightarrow> unat (of_nat n :: u16) = n"
  by (simp add: unat_of_nat take_bit_nat_eq_self)

lemma unat_ucast_u16 [simp]: "unat (ucast (w :: u16) :: u32) = unat w"
proof -
  have "unat w < 2 ^ 32" using unsigned_less [of w, where ?'a = nat] by (auto intro: less_trans)
  then show ?thesis by (simp add: unsigned_ucast_eq take_bit_nat_eq_self del: power_numeral)
qed

lemma unat_u16_bound [simp]: "unat (w :: u16) < 65536"
  using unsigned_less [where 'b = 16 and w = w and 'a = nat] by simp

lemma unat_u16_le [simp]: "unat (w :: u16) \<le> 65535"
  using unat_u16_bound [of w] by linarith

lemma unat_diff_u16: "unat b \<le> unat (a :: u16) \<Longrightarrow> unat (a - b) = unat a - unat b"
  by (simp add: unat_sub word_le_nat_alt)

text \<open>Bytes are equal when their eight bits are: the goals left are about single bits of literals.\<close>

lemma u8_eqI:
  fixes a b :: u8
  assumes "bit a 0 = bit b 0" "bit a 1 = bit b 1" "bit a 2 = bit b 2" "bit a 3 = bit b 3"
    and "bit a 4 = bit b 4" "bit a 5 = bit b 5" "bit a 6 = bit b 6" "bit a 7 = bit b 7"
  shows "a = b"
proof (rule bit_word_eqI)
  fix n :: nat assume "n < LENGTH(8)"
  then have "n \<in> set [0..<8]" by simp
  then have "n \<in> {0, 1, 2, 3, 4, 5, 6, 7}" by (simp add: upt_conv_Cons) (simp add: eval_nat_numeral)
  then show "bit a n = bit b n" using assms by auto
qed

lemma u32_bound: "unat (w :: u32) < 4294967296"
  using unsigned_less [where 'b = 32 and w = w and 'a = nat] by simp

section \<open>Computations that return\<close>

text \<open>
  \<open>runs m P\<close>: the computation returns, and what it returns satisfies \<open>P\<close>.  The rules follow the
  program; \<open>runs_bindI\<close> is the rule of sequence.
\<close>

definition runs :: "'a option \<Rightarrow> ('a \<Rightarrow> bool) \<Rightarrow> bool" where
  "runs m P \<longleftrightarrow> (\<exists>x. m = Some x \<and> P x)"

lemma runs_Some [simp]: "runs (Some x) P \<longleftrightarrow> P x"
  by (simp add: runs_def)

lemma runs_bindI: "runs m P \<Longrightarrow> (\<And>x. P x \<Longrightarrow> runs (f x) Q) \<Longrightarrow> runs (Option.bind m f) Q"
  by (auto simp: runs_def)

lemma runs_map [simp]: "runs (map_option f m) P \<longleftrightarrow> runs m (\<lambda>x. P (f x))"
  by (auto simp: runs_def)

lemma runs_mono: "runs m P \<Longrightarrow> (\<And>x. P x \<Longrightarrow> Q x) \<Longrightarrow> runs m Q"
  by (auto simp: runs_def)

lemma runsE: "runs m P \<Longrightarrow> (\<And>x. m = Some x \<Longrightarrow> P x \<Longrightarrow> thesis) \<Longrightarrow> thesis"
  by (auto simp: runs_def)

end
