(* ===== verification/UmmBlocks.thy ===== *)
theory UmmBlocks
  imports Prelude
begin

text \<open>
  The heap of cores/esp8266/umm_malloc/umm_malloc.c as it lies in memory: an array of 8-byte
  blocks.  A block starts with two 16-bit links to its physical neighbours (the top bit of
  the forward link marks a free block); the next four bytes are the free-list links of a free
  block or the first data bytes of a used one (the C union \<open>body\<close>).  The heap is modelled as
  bytes, so the union, the blocks swallowed by a long allocation and the data copied by
  \<open>realloc\<close> all alias exactly as they do in the code.  The block primitives
  (\<open>umm_blocks\<close> to \<open>umm_assimilate_down\<close> and \<open>umm_init\<close>) are here, the allocator on top
  of them is in UmmMalloc.
\<close>

section \<open>Blocks and their fields\<close>

text \<open>
  The fields of \<open>struct umm_block_t\<close>: \<open>FNext\<close>, \<open>FPrev\<close> are \<open>header.used.next\<close>,
  \<open>header.used.prev\<close>; \<open>FNFree\<close>, \<open>FPFree\<close> are \<open>body.free.next\<close>, \<open>body.free.prev\<close>.
\<close>

datatype umm_field = FNext | FPrev | FNFree | FPFree

fun umm_field_offset :: "umm_field \<Rightarrow> nat" where
  "umm_field_offset FNext = 0"
| "umm_field_offset FPrev = 2"
| "umm_field_offset FNFree = 4"
| "umm_field_offset FPFree = 6"

definition umm_block_size :: nat where "umm_block_size = 8"
definition umm_header_size :: nat where "umm_header_size = 4"
definition umm_body_size :: nat where "umm_body_size = 4"

definition UMM_FREELIST_MASK :: u16 where "UMM_FREELIST_MASK = 0x8000"
definition UMM_BLOCKNO_MASK :: u16 where "UMM_BLOCKNO_MASK = 0x7FFF"

definition umm_get :: "umm_field \<Rightarrow> memory \<Rightarrow> nat \<Rightarrow> u16" where
  "umm_get f m b = load16 m (umm_block_size * b + umm_field_offset f)"

definition umm_put :: "umm_field \<Rightarrow> memory \<Rightarrow> nat \<Rightarrow> u16 \<Rightarrow> memory" where
  "umm_put f m b v = store16 m (umm_block_size * b + umm_field_offset f) v"

text \<open>The accessor macros, under the names the code gives them; \<open>SET_\<close> is the macro as an lvalue.\<close>

abbreviation UMM_NBLOCK :: "memory \<Rightarrow> nat \<Rightarrow> u16" where "UMM_NBLOCK \<equiv> umm_get FNext"
abbreviation UMM_PBLOCK :: "memory \<Rightarrow> nat \<Rightarrow> u16" where "UMM_PBLOCK \<equiv> umm_get FPrev"
abbreviation UMM_NFREE :: "memory \<Rightarrow> nat \<Rightarrow> u16" where "UMM_NFREE \<equiv> umm_get FNFree"
abbreviation UMM_PFREE :: "memory \<Rightarrow> nat \<Rightarrow> u16" where "UMM_PFREE \<equiv> umm_get FPFree"
abbreviation SET_NBLOCK :: "memory \<Rightarrow> nat \<Rightarrow> u16 \<Rightarrow> memory" where "SET_NBLOCK \<equiv> umm_put FNext"
abbreviation SET_PBLOCK :: "memory \<Rightarrow> nat \<Rightarrow> u16 \<Rightarrow> memory" where "SET_PBLOCK \<equiv> umm_put FPrev"
abbreviation SET_NFREE :: "memory \<Rightarrow> nat \<Rightarrow> u16 \<Rightarrow> memory" where "SET_NFREE \<equiv> umm_put FNFree"
abbreviation SET_PFREE :: "memory \<Rightarrow> nat \<Rightarrow> u16 \<Rightarrow> memory" where "SET_PFREE \<equiv> umm_put FPFree"

text \<open>\<open>&UMM_DATA(b)\<close>, and the block a data pointer lies in (the truncated division of the code).\<close>

definition UMM_DATA :: "nat \<Rightarrow> vptr" where
  "UMM_DATA b = Ptr (umm_block_size * b + umm_header_size)"

definition umm_block_of :: "nat \<Rightarrow> u16" where
  "umm_block_of off = of_nat (off div umm_block_size)"

section \<open>The block primitives\<close>

definition umm_blocks :: "u32 \<Rightarrow> u16" where
  "umm_blocks sz =
     (if sz \<le> of_nat umm_body_size then 1
      else let sz = sz - (1 + of_nat umm_body_size)
           in ucast (2 + sz div of_nat umm_block_size))"

definition umm_make_new_block :: "memory \<Rightarrow> u16 \<Rightarrow> u16 \<Rightarrow> u16 \<Rightarrow> u16 \<Rightarrow> memory" where
  "umm_make_new_block m c blocks cur_freemask new_freemask =
     (let d = unat c + unat blocks;
          m = SET_NBLOCK m d ((UMM_NBLOCK m (unat c) AND UMM_BLOCKNO_MASK) OR new_freemask);
          m = SET_PBLOCK m d c;
          m = SET_PBLOCK m (unat (UMM_NBLOCK m (unat c) AND UMM_BLOCKNO_MASK)) (of_nat d)
      in SET_NBLOCK m (unat c) (of_nat d OR cur_freemask))"

definition umm_disconnect_from_free_list :: "memory \<Rightarrow> u16 \<Rightarrow> memory" where
  "umm_disconnect_from_free_list m c =
     (let m = SET_NFREE m (unat (UMM_PFREE m (unat c))) (UMM_NFREE m (unat c));
          m = SET_PFREE m (unat (UMM_NFREE m (unat c))) (UMM_PFREE m (unat c))
      in SET_NBLOCK m (unat c) (UMM_NBLOCK m (unat c) AND NOT UMM_FREELIST_MASK))"

definition umm_assimilate_up :: "memory \<Rightarrow> u16 \<Rightarrow> memory" where
  "umm_assimilate_up m c =
     (if UMM_NBLOCK m (unat (UMM_NBLOCK m (unat c))) AND UMM_FREELIST_MASK \<noteq> 0 then
        let m = umm_disconnect_from_free_list m (UMM_NBLOCK m (unat c));
            m = SET_PBLOCK m (unat (UMM_NBLOCK m (unat (UMM_NBLOCK m (unat c))) AND UMM_BLOCKNO_MASK)) c
        in SET_NBLOCK m (unat c) (UMM_NBLOCK m (unat (UMM_NBLOCK m (unat c))) AND UMM_BLOCKNO_MASK)
      else m)"

definition umm_assimilate_down :: "memory \<Rightarrow> u16 \<Rightarrow> u16 \<Rightarrow> memory \<times> u16" where
  "umm_assimilate_down m c freemask =
     (let m = SET_NBLOCK m (unat (UMM_PBLOCK m (unat c))) (UMM_NBLOCK m (unat c) OR freemask);
          m = SET_PBLOCK m (unat (UMM_NBLOCK m (unat c))) (UMM_PBLOCK m (unat c))
      in (m, UMM_PBLOCK m (unat c)))"

text \<open>
  \<open>umm_init\<close> clears the \<open>heap_size\<close> bytes of the region and lays out the head block 0, one
  free block that spans the heap, and the closing block.  The region's size is a linker
  constant (\<open>UMM_MALLOC_CFG__HEAP_SIZE\<close>), so it is an argument.
\<close>

definition umm_num_blocks :: "nat \<Rightarrow> u16" where
  "umm_num_blocks heap_size = of_nat (heap_size div umm_block_size)"

definition umm_init_mem :: "nat \<Rightarrow> memory \<Rightarrow> memory" where
  "umm_init_mem heap_size m =
     (let block_last = umm_num_blocks heap_size - 1;
          m = memset m 0 0 heap_size;
          m = SET_NBLOCK m 0 1;
          m = SET_NFREE m 0 1;
          m = SET_NBLOCK m 1 (block_last OR UMM_FREELIST_MASK);
          m = SET_NFREE m 1 0;
          m = SET_PBLOCK m 1 0;
          m = SET_PFREE m 1 0;
          m = SET_NBLOCK m (unat block_last) 0
      in SET_PBLOCK m (unat block_last) 1)"

section \<open>Laws of the fields\<close>

text \<open>
  A field is a slot of its own: a write changes that field of that block and nothing else.
  This is the interface the proofs about the allocator use in place of byte arithmetic.
\<close>

locale field_store =
  fixes fget :: "'f \<Rightarrow> 'm \<Rightarrow> nat \<Rightarrow> 'v"
    and fput :: "'f \<Rightarrow> 'm \<Rightarrow> nat \<Rightarrow> 'v \<Rightarrow> 'm"
  assumes fget_fput: "fget f (fput g m i v) j = (if f = g \<and> i = j then v else fget f m j)"
begin

lemma fget_fput_field: "fget f (fput f m i v) = (fget f m)(i := v)"
  by (auto simp: fget_fput)

lemma fget_fput_other: "f \<noteq> g \<Longrightarrow> fget f (fput g m i v) = fget f m"
  by (auto simp: fget_fput)

lemma fput_idle: "fget f m i = v \<Longrightarrow> fget g (fput f m i v) = fget g m"
  by (auto simp: fget_fput)

end

lemma umm_get_put:
  "umm_get f (umm_put g m i v) j = (if f = g \<and> i = j then v else umm_get f m j)"
proof (cases "f = g \<and> i = j")
  case True
  then show ?thesis by (simp add: umm_get_def umm_put_def)
next
  case False
  have "8 * i + umm_field_offset g + 1 < 8 * j + umm_field_offset f \<or>
        8 * j + umm_field_offset f + 1 < 8 * i + umm_field_offset g"
    using False by (cases f; cases g) (simp_all, arith+)
  with False show ?thesis
    by (auto simp: umm_get_def umm_put_def umm_block_size_def load16_store16_disjoint)
qed

interpretation umm: field_store umm_get umm_put
  by unfold_locales (rule umm_get_put)

lemmas umm_field_laws [mem_laws] = umm.fget_fput_field umm.fget_fput_other

end
