(* ===== verification/UmmMalloc.thy ===== *)
theory UmmMalloc
  imports UmmBlocks
begin

text \<open>
  The allocator of cores/esp8266/umm_malloc/umm_malloc.c: \<open>_umm_malloc\<close>, \<open>_umm_free\<close>,
  \<open>_umm_realloc\<close> and the public entry points in the configuration the repository builds
  (best fit, integrity check off; poisoning, the debug build, is in UmmChecks).  The scan of
  the free list is a \<open>partial_function\<close>: on a corrupt list the C loop may never end, which
  is the value \<open>None\<close>; on a well-formed heap it always ends (UmmRefine).
\<close>

section \<open>State\<close>

text \<open>
  \<open>umm_mem\<close> is the region at \<open>umm_heap\<close>, \<open>umm_ready\<close> is \<open>umm_heap != NULL\<close>,
  \<open>umm_region\<close> the linker's \<open>UMM_MALLOC_CFG__HEAP_SIZE\<close>, and \<open>umm_locks\<close> counts the
  interrupt locks taken and not released (\<open>UMM_CRITICAL_ENTRY\<close>, \<open>UMM_CRITICAL_EXIT\<close>).
\<close>

record umm_state =
  umm_mem :: memory
  umm_numblocks :: u16
  umm_ready :: bool
  umm_region :: nat
  umm_locks :: int

definition umm_init :: "umm_state \<Rightarrow> umm_state" where
  "umm_init s = s\<lparr>umm_mem := umm_init_mem (umm_region s) (umm_mem s),
                 umm_numblocks := umm_num_blocks (umm_region s), umm_ready := True\<rparr>"

definition umm_ensure_init :: "umm_state \<Rightarrow> umm_state" where
  "umm_ensure_init s = (if umm_ready s then s else umm_init s)"

definition umm_critical_entry :: "umm_state \<Rightarrow> umm_state" where
  "umm_critical_entry s = s\<lparr>umm_locks := umm_locks s + 1\<rparr>"

definition umm_critical_exit :: "umm_state \<Rightarrow> umm_state" where
  "umm_critical_exit s = s\<lparr>umm_locks := umm_locks s - 1\<rparr>"

section \<open>Free\<close>

definition umm_push_free :: "memory \<Rightarrow> u16 \<Rightarrow> memory" where
  "umm_push_free m c =
     (let m = SET_PFREE m (unat (UMM_NFREE m 0)) c;
          m = SET_NFREE m (unat c) (UMM_NFREE m 0);
          m = SET_PFREE m (unat c) 0;
          m = SET_NFREE m 0 c
      in SET_NBLOCK m (unat c) (UMM_NBLOCK m (unat c) OR UMM_FREELIST_MASK))"

definition umm_free_block :: "memory \<Rightarrow> u16 \<Rightarrow> memory" where
  "umm_free_block m c =
     (let m = umm_assimilate_up m c
      in if UMM_NBLOCK m (unat (UMM_PBLOCK m (unat c))) AND UMM_FREELIST_MASK \<noteq> 0
         then fst (umm_assimilate_down m c UMM_FREELIST_MASK)
         else umm_push_free m c)"

definition do_umm_free :: "umm_state \<Rightarrow> vptr \<Rightarrow> umm_state" where
  "do_umm_free s ptr =
     (case ptr of NULL \<Rightarrow> s
      | Ptr off \<Rightarrow>
          let s = umm_critical_entry s;
              s = s\<lparr>umm_mem := umm_free_block (umm_mem s) (umm_block_of off)\<rparr>
          in umm_critical_exit s)"

section \<open>Malloc\<close>

text \<open>
  The best-fit scan: from free block \<open>cf\<close>, with the size last looked at and the best
  candidate so far; it returns the four variables of the C loop when it leaves it.
\<close>

partial_function (option) umm_scan ::
  "memory \<Rightarrow> u16 \<Rightarrow> u16 \<Rightarrow> u16 \<Rightarrow> u16 \<Rightarrow> u16 \<Rightarrow> (u16 \<times> u16 \<times> u16 \<times> u16) option" where
  "umm_scan m blocks cf blockSize bestBlock bestSize =
     (if cf = 0 then Some (cf, blockSize, bestBlock, bestSize)
      else let blockSize = (UMM_NBLOCK m (unat cf) AND UMM_BLOCKNO_MASK) - cf;
               better = (blocks \<le> blockSize \<and> blockSize < bestSize)
           in umm_scan m blocks (UMM_NFREE m (unat cf)) blockSize
                (if better then cf else bestBlock) (if better then blockSize else bestSize))"

text \<open>Taking \<open>blocks\<close> blocks out of the free block \<open>cf\<close> of \<open>blockSize\<close> blocks.\<close>

definition umm_take :: "memory \<Rightarrow> u16 \<Rightarrow> u16 \<Rightarrow> u16 \<Rightarrow> memory" where
  "umm_take m cf blockSize blocks =
     (if blockSize = blocks then umm_disconnect_from_free_list m cf
      else let m = umm_make_new_block m cf blocks 0 UMM_FREELIST_MASK;
               d = unat cf + unat blocks;
               m = SET_NFREE m (unat (UMM_PFREE m (unat cf))) (of_nat d);
               m = SET_PFREE m d (UMM_PFREE m (unat cf));
               m = SET_PFREE m (unat (UMM_NFREE m (unat cf))) (of_nat d)
           in SET_NFREE m d (UMM_NFREE m (unat cf)))"

definition umm_malloc_blocks :: "memory \<Rightarrow> u16 \<Rightarrow> (memory \<times> vptr) option" where
  "umm_malloc_blocks m blocks =
     (case umm_scan m blocks (UMM_NFREE m 0) 0 (UMM_NFREE m 0) 0x7FFF of
        None \<Rightarrow> None
      | Some (cf, blockSize, bestBlock, bestSize) \<Rightarrow>
          let cf = (if bestSize \<noteq> 0x7FFF then bestBlock else cf);
              blockSize = (if bestSize \<noteq> 0x7FFF then bestSize else blockSize)
          in if UMM_NBLOCK m (unat cf) AND UMM_BLOCKNO_MASK \<noteq> 0 \<and> blocks \<le> blockSize
             then Some (umm_take m cf blockSize blocks, UMM_DATA (unat cf))
             else Some (m, NULL))"

definition do_umm_malloc :: "umm_state \<Rightarrow> u32 \<Rightarrow> (umm_state \<times> vptr) option" where
  "do_umm_malloc s sz =
     (let s = umm_ensure_init s
      in if sz = 0 then Some (s, NULL)
         else let s = umm_critical_entry s
              in case umm_malloc_blocks (umm_mem s) (umm_blocks sz) of
                   None \<Rightarrow> None
                 | Some (m, p) \<Rightarrow> Some (umm_critical_exit (s\<lparr>umm_mem := m\<rparr>), p))"

section \<open>Realloc\<close>

text \<open>
  The three stages of \<open>_umm_realloc\<close> on a block that must change its size: assimilate the
  free neighbours (moving the data when the block below is taken in), then keep, split or
  move the block.  Data pointers have the form \<open>&UMM_DATA(c)\<close>, so their offsets are
  \<open>8 c + 4\<close>; sizes in bytes are as the code computes them.
\<close>

definition umm_data_off :: "u16 \<Rightarrow> nat" where
  "umm_data_off c = umm_block_size * unat c + umm_header_size"

definition umm_realloc_join :: "memory \<Rightarrow> u16 \<Rightarrow> u16 \<Rightarrow> nat \<Rightarrow> nat \<Rightarrow> memory \<times> u16 \<times> nat" where
  "umm_realloc_join m c blocks off curSize =
     (let m = umm_assimilate_up m c
      in if UMM_NBLOCK m (unat (UMM_PBLOCK m (unat c))) AND UMM_FREELIST_MASK \<noteq> 0 \<and>
            int (unat blocks) \<le> int (unat (UMM_NBLOCK m (unat c))) - int (unat (UMM_PBLOCK m (unat c)))
         then let m = umm_disconnect_from_free_list m (UMM_PBLOCK m (unat c));
                  (m, c) = umm_assimilate_down m c 0;
                  m = memmove m (umm_data_off c) off curSize
              in (m, c, umm_data_off c)
         else (m, c, off))"

definition umm_realloc_fit ::
  "umm_state \<Rightarrow> u16 \<Rightarrow> nat \<Rightarrow> u16 \<Rightarrow> u32 \<Rightarrow> nat \<Rightarrow> (umm_state \<times> vptr) option" where
  "umm_realloc_fit s c off blocks sz curSize =
     (let blockSize = UMM_NBLOCK (umm_mem s) (unat c) - c
      in if blockSize = blocks then Some (umm_critical_exit s, Ptr off)
         else if blocks < blockSize then
           let s = s\<lparr>umm_mem := umm_make_new_block (umm_mem s) c blocks 0 0\<rparr>;
               s = do_umm_free s (UMM_DATA (unat c + unat blocks))
           in Some (umm_critical_exit s, Ptr off)
         else
           (case do_umm_malloc s sz of
              None \<Rightarrow> None
            | Some (s, q) \<Rightarrow>
                let s = (case q of NULL \<Rightarrow> s
                         | Ptr new \<Rightarrow> s\<lparr>umm_mem := memmove (umm_mem s) new off curSize\<rparr>);
                    s = do_umm_free s (Ptr off)
                in Some (umm_critical_exit s, q)))"

definition do_umm_realloc :: "umm_state \<Rightarrow> vptr \<Rightarrow> u32 \<Rightarrow> (umm_state \<times> vptr) option" where
  "do_umm_realloc s ptr sz =
     (let s = umm_ensure_init s
      in case ptr of
           NULL \<Rightarrow> do_umm_malloc s sz
         | Ptr off \<Rightarrow>
             if sz = 0 then Some (do_umm_free s ptr, NULL)
             else
               let s = umm_critical_entry s;
                   blocks = umm_blocks sz;
                   c = umm_block_of off;
                   blockSize = UMM_NBLOCK (umm_mem s) (unat c) - c;
                   curSize = unat (ucast blockSize * of_nat umm_block_size - of_nat umm_header_size :: u32)
               in if blockSize = blocks then Some (umm_critical_exit s, ptr)
                  else let (m, c, off) = umm_realloc_join (umm_mem s) c blocks off curSize
                       in umm_realloc_fit (s\<lparr>umm_mem := m\<rparr>) c off blocks sz curSize)"

section \<open>The entry points\<close>

text \<open>
  With the integrity check off and poisoning off the checks are the constant 1 and
  \<open>POISON_SIZE\<close> is 0.  \<open>calloc\<close> multiplies in \<open>size_t\<close> and clears the block it got; on
  \<open>NULL\<close> the code still calls \<open>memset\<close> with the null pointer, which the model makes a
  separate outcome: writing through \<open>NULL\<close>.
\<close>

datatype umm_outcome = Returns umm_state vptr | Writes_null | Loops

definition umm_result :: "(umm_state \<times> vptr) option \<Rightarrow> umm_outcome" where
  "umm_result r = (case r of None \<Rightarrow> Loops | Some (s, p) \<Rightarrow> Returns s p)"

definition umm_malloc :: "umm_state \<Rightarrow> u32 \<Rightarrow> umm_outcome" where
  "umm_malloc s sz = umm_result (do_umm_malloc s sz)"

definition umm_calloc :: "umm_state \<Rightarrow> u32 \<Rightarrow> u32 \<Rightarrow> umm_outcome" where
  "umm_calloc s num item_size =
     (let sz = item_size * num
      in case do_umm_malloc s sz of
           None \<Rightarrow> Loops
         | Some (s, NULL) \<Rightarrow> (if sz = 0 then Returns s NULL else Writes_null)
         | Some (s, Ptr p) \<Rightarrow> Returns (s\<lparr>umm_mem := memset (umm_mem s) p 0 (unat sz)\<rparr>) (Ptr p))"

definition umm_realloc :: "umm_state \<Rightarrow> vptr \<Rightarrow> u32 \<Rightarrow> umm_outcome" where
  "umm_realloc s ptr sz = umm_result (do_umm_realloc s ptr sz)"

definition umm_free :: "umm_state \<Rightarrow> vptr \<Rightarrow> umm_state" where
  "umm_free s ptr = do_umm_free s ptr"

end
