(* ===== verification/UmmLinks.thy ===== *)
theory UmmLinks
  imports UmmMalloc
begin

text \<open>
  The links of the heap read as numbers, the well-formedness of the two chains they form, and
  the effect of every block primitive on them.  This is the middle layer of the refinement:
  \<open>umm_links_of\<close> maps the bytes to it (UmmRefine), and \<open>umm_alloc\<close> maps it to the set
  of allocations the client sees (UmmSpec).
\<close>

section \<open>Doubly linked lists\<close>

text \<open>
  \<open>dll nf pf p xs\<close>: from \<open>p\<close>, forward links visit \<open>xs\<close> and end in 0, and each element's
  back link names the one before it.  \<open>dseg\<close> is a segment that need not end.
\<close>

primrec dseg :: "(nat \<Rightarrow> nat) \<Rightarrow> (nat \<Rightarrow> nat) \<Rightarrow> nat \<Rightarrow> nat list \<Rightarrow> bool" where
  "dseg nf pf p [] = True"
| "dseg nf pf p (x # xs) = (nf p = x \<and> pf x = p \<and> dseg nf pf x xs)"

definition dll :: "(nat \<Rightarrow> nat) \<Rightarrow> (nat \<Rightarrow> nat) \<Rightarrow> nat \<Rightarrow> nat list \<Rightarrow> bool" where
  "dll nf pf p xs \<longleftrightarrow> dseg nf pf p xs \<and> nf (last (p # xs)) = 0"

lemma dll_Nil [simp]: "dll nf pf p [] \<longleftrightarrow> nf p = 0"
  by (simp add: dll_def)

lemma dll_Cons [simp]: "dll nf pf p (x # xs) \<longleftrightarrow> nf p = x \<and> pf x = p \<and> dll nf pf x xs"
  by (auto simp: dll_def)

lemma dseg_append: "dseg nf pf p (xs @ ys) \<longleftrightarrow> dseg nf pf p xs \<and> dseg nf pf (last (p # xs)) ys"
  by (induction xs arbitrary: p) auto

lemma dll_append: "dll nf pf p (xs @ ys) \<longleftrightarrow> dseg nf pf p xs \<and> dll nf pf (last (p # xs)) ys"
  by (auto simp: dll_def dseg_append)

lemma dseg_cong:
  "(\<And>x. x \<in> set (butlast (p # xs)) \<Longrightarrow> nf x = nf' x) \<Longrightarrow> (\<And>x. x \<in> set xs \<Longrightarrow> pf x = pf' x) \<Longrightarrow>
   dseg nf pf p xs = dseg nf' pf' p xs"
  by (induction xs arbitrary: p) auto

lemma dll_cong:
  "(\<And>x. x \<in> insert p (set xs) \<Longrightarrow> nf x = nf' x) \<Longrightarrow> (\<And>x. x \<in> set xs \<Longrightarrow> pf x = pf' x) \<Longrightarrow>
   dll nf pf p xs = dll nf' pf' p xs"
  by (induction xs arbitrary: p) auto

lemma last_fresh:
  assumes "distinct (p # xs @ ys)"
  shows "last (p # xs) \<notin> set ys" and "last (p # xs) \<notin> set (butlast (p # xs))"
    and "last (p # xs) \<in> insert p (set xs)"
  using assms by (cases xs rule: rev_cases; auto)+

text \<open>The neighbours of an element in the middle of a list.\<close>

lemma dll_neighbours:
  assumes "dll nf pf p (xs @ c # ys)"
  shows "pf c = last (p # xs)" and "nf c = (case ys of [] \<Rightarrow> 0 | y # _ \<Rightarrow> y)"
  using assms by (auto simp: dll_append split: list.splits)

lemma dll_replace:
  assumes d: "dll nf pf p (xs @ c # ys)" and dist: "distinct (p # xs @ c # ys)"
    and new: "e \<notin> set (p # xs @ ys)" and "0 \<notin> set (xs @ c # ys)" "e \<noteq> 0"
  shows "dll (nf(last (p # xs) := e, e := nf c)) (pf(e := last (p # xs), nf c := e)) p (xs @ e # ys)"
proof -
  let ?q = "last (p # xs)"
  note q = last_fresh [OF dist]
  have nc: "nf c \<notin> set xs" "nf c \<notin> set (tl ys)" "nf c = (case ys of [] \<Rightarrow> 0 | y # _ \<Rightarrow> y)"
    using dll_neighbours [OF d] dist assms(4) by (auto split: list.splits)
  have 1: "dseg (nf(?q := e, e := nf c)) (pf(e := ?q, nf c := e)) p xs = dseg nf pf p xs"
    using new q nc in_set_butlastD [of _ "p # xs"] by (intro dseg_cong) auto
  have 2: "dll (nf(?q := e, e := nf c)) (pf(e := ?q, nf c := e)) e ys"
  proof (cases ys)
    case Nil
    then show ?thesis using nc by simp
  next
    case (Cons y zs)
    have "dll nf pf y zs" using d Cons by (simp add: dll_append)
    moreover have "dll (nf(?q := e, e := nf c)) (pf(e := ?q, nf c := e)) y zs = dll nf pf y zs"
      using new q nc Cons dist by (intro dll_cong) auto
    ultimately show ?thesis using Cons nc new by auto
  qed
  have "nf c \<noteq> e" using nc new assms(5) by (auto split: list.splits)
  with 1 2 d q new show ?thesis by (auto simp: dll_append)
qed

lemma dll_remove:
  assumes d: "dll nf pf p (xs @ c # ys)" and dist: "distinct (p # xs @ c # ys)"
    and z: "0 \<notin> set (xs @ c # ys)"
  shows "dll (nf(pf c := nf c)) (pf(nf c := pf c)) p (xs @ ys)"
proof -
  let ?q = "last (p # xs)"
  note q = last_fresh [OF dist]
  have c: "pf c = ?q" "nf c = (case ys of [] \<Rightarrow> 0 | y # _ \<Rightarrow> y)"
    using dll_neighbours [OF d] by auto
  have "nf c \<notin> set xs" "nf c \<notin> set (tl ys)"
    using c(2) dist z by (auto split: list.splits)
  then have 1: "dseg (nf(?q := nf c)) (pf(nf c := ?q)) p xs = dseg nf pf p xs"
    using q by (intro dseg_cong) auto
  have 2: "dll (nf(?q := nf c)) (pf(nf c := ?q)) ?q ys"
  proof (cases ys)
    case Nil
    then show ?thesis using c by simp
  next
    case (Cons y zs)
    have "dll nf pf y zs" using d Cons by (simp add: dll_append)
    moreover have "dll (nf(?q := nf c)) (pf(nf c := ?q)) y zs = dll nf pf y zs"
      using q c \<open>nf c \<notin> set (tl ys)\<close> Cons dist by (intro dll_cong) auto
    ultimately show ?thesis using Cons c by auto
  qed
  from 1 2 d c show ?thesis by (simp add: dll_append)
qed

lemma dll_push:
  assumes "dll nf pf 0 xs" "c \<notin> set xs" "c \<noteq> 0" "distinct xs" "0 \<notin> set xs"
  shows "dll (nf(c := nf 0, 0 := c)) (pf(nf 0 := c, c := 0)) 0 (c # xs)"
proof (cases xs)
  case Nil
  with assms show ?thesis by simp
next
  case (Cons y zs)
  have "dll (nf(c := nf 0, 0 := c)) (pf(nf 0 := c, c := 0)) y zs = dll nf pf y zs"
    using assms Cons by (intro dll_cong) (auto intro!: gr0I)
  with assms Cons show ?thesis by auto
qed

section \<open>The chain of physical blocks\<close>

text \<open>
  \<open>phys L B nb pb\<close>: \<open>B\<close> is the set of block starts, from the head block 0 to the closing block
  \<open>L\<close>; \<open>nb\<close> leads from each to the next, \<open>pb\<close> back, and the closing block ends the chain.
\<close>

definition phys :: "nat \<Rightarrow> nat set \<Rightarrow> (nat \<Rightarrow> nat) \<Rightarrow> (nat \<Rightarrow> nat) \<Rightarrow> bool" where
  "phys L B nb pb \<longleftrightarrow>
     0 < L \<and> 0 \<in> B \<and> L \<in> B \<and> (\<forall>b\<in>B. b \<le> L) \<and> nb L = 0 \<and>
     (\<forall>b\<in>B. b < L \<longrightarrow> b < nb b \<and> nb b \<in> B \<and> (\<forall>x\<in>B. x \<le> b \<or> nb b \<le> x) \<and> pb (nb b) = b)"

lemma physI:
  assumes "0 < L" "0 \<in> B" "L \<in> B" "nb L = 0" "\<And>b. b \<in> B \<Longrightarrow> b \<le> L"
    and "\<And>b. b \<in> B \<Longrightarrow> b < L \<Longrightarrow> b < nb b \<and> nb b \<in> B \<and> pb (nb b) = b"
    and "\<And>b x. b \<in> B \<Longrightarrow> b < L \<Longrightarrow> x \<in> B \<Longrightarrow> x \<le> b \<or> nb b \<le> x"
  shows "phys L B nb pb"
  using assms unfolding phys_def by blast

lemma phys_bounds: "phys L B nb pb \<Longrightarrow> b \<in> B \<Longrightarrow> b \<le> L"
  by (simp add: phys_def)

lemma phys_ends: "phys L B nb pb \<Longrightarrow> 0 \<in> B \<and> L \<in> B \<and> 0 < L \<and> nb L = 0"
  by (simp add: phys_def)

lemma phys_finite: "phys L B nb pb \<Longrightarrow> finite B"
  by (rule finite_subset [of _ "{..L}"]) (auto simp: phys_def)

lemma phys_next:
  assumes "phys L B nb pb" "b \<in> B" "b < L"
  shows "b < nb b" and "nb b \<in> B" and "nb b \<le> L" and "pb (nb b) = b"
    and "x \<in> B \<Longrightarrow> x \<le> b \<or> nb b \<le> x"
  using assms by (auto simp: phys_def)

lemma phys_prev:
  assumes P: "phys L B nb pb" and c: "c \<in> B" "0 < c"
  shows "pb c \<in> B" and "pb c < c" and "nb (pb c) = c"
proof -
  let ?S = "{x \<in> B. x < c}"
  have S: "finite ?S" "0 \<in> ?S"
    using phys_finite [OF P] phys_ends [OF P] c by auto
  define q where "q = Max ?S"
  have q: "q \<in> B" "q < c"
    using Max_in [OF S(1)] S(2) unfolding q_def by blast+
  have max: "x \<in> B \<Longrightarrow> x < c \<Longrightarrow> x \<le> q" for x
    using S(1) by (simp add: q_def)
  have "q < L" using q(2) phys_bounds [OF P c(1)] by simp
  note n = phys_next [OF P q(1) this]
  have "\<not> nb q < c" using max [of "nb q"] n(1,2) by auto
  then have "nb q = c" using n(5) [OF c(1)] q(2) by auto
  with n(4) q show "pb c \<in> B" and "pb c < c" and "nb (pb c) = c" by auto
qed

lemma phys_next_inj:
  "phys L B nb pb \<Longrightarrow> a \<in> B \<Longrightarrow> b \<in> B \<Longrightarrow> a < L \<Longrightarrow> b < L \<Longrightarrow> nb a = nb b \<Longrightarrow> a = b"
  by (metis phys_next(4))

text \<open>Splitting a block and merging a block into the one before it.\<close>

lemma phys_split:
  assumes P: "phys L B nb pb" and c: "c \<in> B" "c < L" and n: "0 < n" "c + n < nb c"
  shows "phys L (insert (c + n) B) (nb(c + n := nb c, c := c + n)) (pb(c + n := c, nb c := c + n))"
proof -
  note nc = phys_next [OF P c]
  have d: "c + n \<notin> B" using nc(5) [of "c + n"] n by auto
  have L: "c + n < L" using nc(3) n by simp
  have other: "nb b \<noteq> nb c \<and> nb b \<noteq> c + n \<and> b < nb b \<and> nb b \<in> B \<and> pb (nb b) = b"
    and far: "c + n \<le> b \<or> nb b \<le> c + n" if "b \<in> B" "b < L" "b \<noteq> c" for b
    using phys_next_inj [OF P that(1) c(1) that(2) c(2)] phys_next [OF P that(1,2)] d that
      phys_next(5) [OF P that(1,2) c(1)] nc(5) [OF that(1)] n by auto
  show ?thesis
  proof (rule physI)
    fix b assume "b \<in> insert (c + n) B" "b < L"
    then consider "b = c + n" | "b = c" | "b \<in> B" "b \<noteq> c" "b \<noteq> c + n" by blast
    then show "b < (nb(c + n := nb c, c := c + n)) b \<and>
      (nb(c + n := nb c, c := c + n)) b \<in> insert (c + n) B \<and>
      (pb(c + n := c, nb c := c + n)) ((nb(c + n := nb c, c := c + n)) b) = b"
      using n nc other [of b] \<open>b < L\<close> by cases auto
  next
    fix b x assume "b \<in> insert (c + n) B" "b < L" and x: "x \<in> insert (c + n) B"
    then consider "b = c + n" | "b = c" | "b \<in> B" "b \<noteq> c" "b \<noteq> c + n" by blast
    then show "x \<le> b \<or> (nb(c + n := nb c, c := c + n)) b \<le> x"
      using n nc(5) [of x] x far [of b] phys_next(5) [OF P, of b x] \<open>b < L\<close> by cases auto
  qed (use P c L d phys_ends [OF P] phys_bounds [OF P] in auto)
qed

lemma phys_merge:
  assumes P: "phys L B nb pb" and c: "c \<in> B" "0 < c" "c < L"
  shows "phys L (B - {c}) (nb(pb c := nb c)) (pb(nb c := pb c))"
proof -
  note nc = phys_next [OF P c(1,3)] and pc = phys_prev [OF P c(1,2)]
  have other: "nb b \<noteq> nb c \<and> nb b \<noteq> c \<and> b < nb b \<and> nb b \<in> B \<and> pb (nb b) = b"
    if "b \<in> B" "b < L" "b \<noteq> pb c" "b \<noteq> c" for b
    using phys_next_inj [OF P that(1) c(1) that(2) c(3)] phys_next [OF P that(1,2)] that by auto
  show ?thesis
  proof (rule physI)
    fix b assume "b \<in> B - {c}" "b < L"
    then consider "b = pb c" | "b \<in> B" "b \<noteq> c" "b \<noteq> pb c" by blast
    then show "b < (nb(pb c := nb c)) b \<and> (nb(pb c := nb c)) b \<in> B - {c} \<and>
      (pb(nb c := pb c)) ((nb(pb c := nb c)) b) = b"
      using nc pc other [of b] \<open>b < L\<close> by cases auto
  next
    fix b x assume "b \<in> B - {c}" "b < L" and x: "x \<in> B - {c}"
    then consider "b = pb c" | "b \<in> B" "b \<noteq> c" "b \<noteq> pb c" by blast
    then show "x \<le> b \<or> (nb(pb c := nb c)) b \<le> x"
      using x nc(5) [of x] phys_next(5) [OF P, of b x] phys_next(5) [OF P pc(1), of x] pc c \<open>b < L\<close>
      by cases auto
  qed (use c pc phys_ends [OF P] phys_bounds [OF P] in auto)
qed

section \<open>The links and the invariant\<close>

text \<open>
  Forward link without its mark, free mark, back link, and the two free-list links of every
  block.
\<close>

record umm_links =
  vnb :: "nat \<Rightarrow> nat"
  vfr :: "nat \<Rightarrow> bool"
  vpb :: "nat \<Rightarrow> nat"
  vnf :: "nat \<Rightarrow> nat"
  vpf :: "nat \<Rightarrow> nat"

text \<open>
  The heap invariant: the physical chain is well formed; the head block is one block long and
  the ends are never free; the free
  list, anchored at block 0, is a doubly linked list of exactly the blocks with the free mark;
  and no two neighbours are both free (the property the head comment of umm_malloc.c calls
  the one very important characteristic of the blocks).
\<close>

definition umm_inv :: "nat \<Rightarrow> nat set \<Rightarrow> nat list \<Rightarrow> umm_links \<Rightarrow> bool" where
  "umm_inv L B fl h \<longleftrightarrow>
     phys L B (vnb h) (vpb h) \<and> vnb h 0 = 1 \<and> \<not> vfr h 0 \<and> \<not> vfr h L \<and>
     set fl = {b \<in> B. vfr h b} \<and> distinct fl \<and> dll (vnf h) (vpf h) 0 fl \<and>
     (\<forall>b\<in>B. b < L \<longrightarrow> vfr h b \<longrightarrow> \<not> vfr h (vnb h b))"

lemma umm_invI:
  assumes "phys L B (vnb h) (vpb h)" "\<not> vfr h 0" "\<not> vfr h L" "vnb h 0 = 1"
    and "\<And>b. b \<in> set fl \<longleftrightarrow> b \<in> B \<and> vfr h b" "distinct fl" "dll (vnf h) (vpf h) 0 fl"
    and "\<And>b. b \<in> B \<Longrightarrow> b < L \<Longrightarrow> vfr h b \<Longrightarrow> \<not> vfr h (vnb h b)"
  shows "umm_inv L B fl h"
  using assms unfolding umm_inv_def by blast

lemma umm_inv_phys: "umm_inv L B fl h \<Longrightarrow> phys L B (vnb h) (vpb h)"
  by (simp add: umm_inv_def)

lemma umm_inv_free:
  assumes "umm_inv L B fl h"
  shows "b \<in> set fl \<longleftrightarrow> b \<in> B \<and> vfr h b" and "distinct fl" and "0 \<notin> set fl"
    and "dll (vnf h) (vpf h) 0 fl" and "\<not> vfr h 0" and "\<not> vfr h L" and "vnb h 0 = 1"
  using assms by (auto simp: umm_inv_def)

lemma umm_inv_coalesced:
  "umm_inv L B fl h \<Longrightarrow> b \<in> B \<Longrightarrow> b < L \<Longrightarrow> vfr h b \<Longrightarrow> \<not> vfr h (vnb h b)"
  by (simp add: umm_inv_def)

lemma umm_inv_free_bounds:
  assumes "umm_inv L B fl h" "b \<in> B" "vfr h b"
  shows "0 < b" and "b < L"
  using assms phys_bounds [OF umm_inv_phys [OF assms(1)] assms(2)] umm_inv_free(5,6) [OF assms(1)]
  by (metis gr0I, metis le_neq_implies_less)

section \<open>The primitives on the links\<close>

definition v_make_new :: "umm_links \<Rightarrow> nat \<Rightarrow> nat \<Rightarrow> bool \<Rightarrow> bool \<Rightarrow> umm_links" where
  "v_make_new h c n cur new =
     h\<lparr>vnb := (vnb h)(c + n := vnb h c, c := c + n), vfr := (vfr h)(c + n := new, c := cur),
       vpb := (vpb h)(c + n := c, vnb h c := c + n)\<rparr>"

definition v_disconnect :: "umm_links \<Rightarrow> nat \<Rightarrow> umm_links" where
  "v_disconnect h c =
     h\<lparr>vnf := (vnf h)(vpf h c := vnf h c), vpf := (vpf h)(vnf h c := vpf h c),
       vfr := (vfr h)(c := False)\<rparr>"

definition v_merge :: "umm_links \<Rightarrow> nat \<Rightarrow> bool \<Rightarrow> umm_links" where
  "v_merge h c mark =
     h\<lparr>vnb := (vnb h)(vpb h c := vnb h c), vfr := (vfr h)(vpb h c := mark),
       vpb := (vpb h)(vnb h c := vpb h c)\<rparr>"

definition v_assimilate_up :: "umm_links \<Rightarrow> nat \<Rightarrow> umm_links" where
  "v_assimilate_up h c =
     (if vfr h (vnb h c) then
        let d = vnb h c; h = v_disconnect h d
        in h\<lparr>vpb := (vpb h)(vnb h d := c), vnb := (vnb h)(c := vnb h d), vfr := (vfr h)(c := False)\<rparr>
      else h)"

definition v_push_free :: "umm_links \<Rightarrow> nat \<Rightarrow> umm_links" where
  "v_push_free h c =
     h\<lparr>vpf := (vpf h)(vnf h 0 := c, c := 0), vnf := (vnf h)(c := vnf h 0, 0 := c),
       vfr := (vfr h)(c := True)\<rparr>"

definition v_free :: "umm_links \<Rightarrow> nat \<Rightarrow> umm_links" where
  "v_free h c =
     (let h = v_assimilate_up h c
      in if vfr h (vpb h c) then v_merge h c True else v_push_free h c)"

definition v_take :: "umm_links \<Rightarrow> nat \<Rightarrow> nat \<Rightarrow> umm_links" where
  "v_take h c n =
     (if vnb h c - c = n then v_disconnect h c
      else let h = v_make_new h c n False True
           in h\<lparr>vnf := (vnf h)(vpf h c := c + n, c + n := vnf h c),
                vpf := (vpf h)(c + n := vpf h c, vnf h c := c + n)\<rparr>)"

section \<open>The primitives keep the invariant\<close>

lemma inv_disconnect:
  assumes I: "umm_inv L B fl h" and c: "c \<in> set fl"
  shows "umm_inv L B (remove1 c fl) (v_disconnect h c)"
proof -
  obtain xs ys where fl: "fl = xs @ c # ys" using split_list [OF c] by blast
  note F = umm_inv_free [OF I]
  have "remove1 c fl = xs @ ys" using F(2) fl by (simp add: remove1_append)
  moreover have "dll ((vnf h)(vpf h c := vnf h c)) ((vpf h)(vnf h c := vpf h c)) 0 (xs @ ys)"
    using F fl by (intro dll_remove) auto
  ultimately show ?thesis
    using I F(1) [of c] c unfolding v_disconnect_def umm_inv_def by (auto simp: fl)
qed

lemma inv_merge:
  assumes I: "umm_inv L B fl h" and c: "c \<in> B" "0 < c" "c < L" "\<not> vfr h c"
    and p: "0 < vpb h c" and mark: "mark = vfr h (vpb h c)" and next_used: "mark \<Longrightarrow> \<not> vfr h (vnb h c)"
  shows "umm_inv L (B - {c}) fl (v_merge h c mark)"
proof -
  note P = umm_inv_phys [OF I] and F = umm_inv_free [OF I]
  note pc = phys_prev [OF P c(1,2)] and nc = phys_next [OF P c(1,3)]
  have fr: "(vfr h)(vpb h c := mark) = vfr h" using mark by auto
  show ?thesis unfolding v_merge_def
  proof (rule umm_invI, goal_cases)
    case 1
    show ?case using phys_merge [OF P c(1-3)] by simp
  next
    case (8 b)
    then show ?case
      using fr mark next_used umm_inv_coalesced [OF I, of b] by (auto simp: fr)
  qed (use F c fr p in auto)
qed

lemma assimilate_up_is_merge:
  assumes P: "phys L B (vnb h) (vpb h)" and c: "c \<in> B" "c < L" "\<not> vfr h c"
    and up: "vfr h (vnb h c)"
  shows "v_assimilate_up h c = v_merge (v_disconnect h (vnb h c)) (vnb h c) False"
  using phys_next [OF P c(1,2)] c up
  by (simp add: v_assimilate_up_def v_merge_def v_disconnect_def Let_def)

lemma inv_assimilate_up:
  assumes I: "umm_inv L B fl h" and c: "c \<in> B" "0 < c" "c < L" "\<not> vfr h c" and up: "vfr h (vnb h c)"
  shows "umm_inv L (B - {vnb h c}) (remove1 (vnb h c) fl) (v_assimilate_up h c)"
proof -
  note P = umm_inv_phys [OF I]
  note nc = phys_next [OF P c(1,3)]
  have d: "vnb h c \<in> set fl" using umm_inv_free(1) [OF I] nc(2) up by blast
  have dL: "vnb h c < L" using umm_inv_free_bounds [OF I nc(2) up] by simp
  have "vpb (v_disconnect h (vnb h c)) (vnb h c) = c"
    using nc(4) by (simp add: v_disconnect_def)
  then have "umm_inv L (B - {vnb h c}) (remove1 (vnb h c) fl)
      (v_merge (v_disconnect h (vnb h c)) (vnb h c) False)"
    using inv_disconnect [OF I d] nc dL c
    by (intro inv_merge) (auto simp: v_disconnect_def)
  then show ?thesis by (simp add: assimilate_up_is_merge [OF P c(1,3,4) up])
qed

lemma inv_push_free:
  assumes I: "umm_inv L B fl h" and c: "c \<in> B" "0 < c" "c < L" "\<not> vfr h c"
    and up: "\<not> vfr h (vnb h c)" and down: "\<not> vfr h (vpb h c)"
  shows "umm_inv L B (c # fl) (v_push_free h c)"
proof -
  note P = umm_inv_phys [OF I] and F = umm_inv_free [OF I]
  have fresh: "c \<notin> set fl" using F(1) c by blast
  show ?thesis unfolding v_push_free_def
  proof (rule umm_invI, goal_cases)
    case 7
    show ?case using dll_push [OF F(4) fresh _ F(2,3)] c(2) by simp
  next
    case (8 b)
    then show ?case
      using up down umm_inv_coalesced [OF I, of b] phys_next(1,4) [OF P, of b]
      by (auto split: if_splits)
  qed (use P F c fresh in auto)
qed

lemma inv_make_new:
  assumes I: "umm_inv L B fl h" and c: "c \<in> B" "0 < c" "c < L" "\<not> vfr h c"
    and n: "0 < n" "c + n < vnb h c"
  shows "umm_inv L (insert (c + n) B) fl (v_make_new h c n False False)"
proof -
  note P = umm_inv_phys [OF I] and F = umm_inv_free [OF I]
  note nc = phys_next [OF P c(1,3)]
  have d: "c + n \<notin> B" using nc(5) [of "c + n"] n by auto
  show ?thesis unfolding v_make_new_def
  proof (rule umm_invI, goal_cases)
    case 1
    show ?case using phys_split [OF P c(1,3) n] by simp
  next
    case (8 b)
    then show ?case
      using umm_inv_coalesced [OF I, of b] c by (auto split: if_splits)
  qed (use F c d nc n in auto)
qed

lemma inv_take:
  assumes I: "umm_inv L B fl h" and c: "c \<in> set fl" and n: "0 < n" "c + n \<le> vnb h c"
  shows "\<exists>fl'. umm_inv L (if c + n = vnb h c then B else insert (c + n) B) fl' (v_take h c n)"
proof (cases "c + n = vnb h c")
  case True
  then show ?thesis using inv_disconnect [OF I c] by (auto simp: v_take_def)
next
  case False
  note P = umm_inv_phys [OF I] and F = umm_inv_free [OF I]
  have cB: "c \<in> B" "vfr h c" using F(1) c by auto
  note bd = umm_inv_free_bounds [OF I cB]
  note nc = phys_next [OF P cB(1) bd(2)]
  have n': "c + n < vnb h c" using False n by simp
  have d: "c + n \<notin> B" using nc(5) [of "c + n"] n n' by auto
  obtain xs ys where fl: "fl = xs @ c # ys" using split_list [OF c] by blast
  have q: "vpf h c = last (0 # xs)" using dll_neighbours(1) [of _ _ 0 xs c ys] F(4) fl by simp
  have "umm_inv L (insert (c + n) B) (xs @ (c + n) # ys) (v_take h c n)"
    unfolding v_take_def v_make_new_def Let_def
  proof (subst if_not_P, goal_cases)
    case 1
    show ?case using n' by simp
  next
    case 2
    show ?case
    proof (rule umm_invI, goal_cases)
      case 1
      show ?case using phys_split [OF P cB(1) bd(2) n(1) n'] by simp
    next
      case (5 b)
      show ?case using F(1) [of b] F(2) cB d n fl by auto
    next
      case 6
      show ?case using F(1,2) d fl by auto
    next
      case 7
      have "c + n \<notin> set (0 # xs @ ys)" using d F(1) fl n by auto
      then show ?case
        using dll_replace [of "vnf h" "vpf h" 0 xs c ys "c + n"] F(2,3,4) fl n q by auto
    next
      case (8 b)
      then show ?case
        using umm_inv_coalesced [OF I, of b] umm_inv_coalesced [OF I cB(1) bd(2) cB(2)] nc(4)
          phys_next(4) [OF P, of b] phys_next(2) [OF P, of b] d n' by (auto split: if_splits)
    qed (use F nc n' bd in auto)
  qed
  then show ?thesis using False by auto
qed

end
