(* ===== verification/UmmAlloc.thy ===== *)
theory UmmAlloc
  imports UmmLinks
begin

text \<open>
  What the client sees of the heap: which blocks are allocated and how long they are.  Each
  operation on the links has one effect on this map; the lemmas of this theory pair it with
  the invariant.  The interface \<open>allocator\<close> states the contract of a heap once and derives
  from it what a sequence of calls may rely on.
\<close>

section \<open>The allocation map\<close>

definition umm_alloc :: "nat \<Rightarrow> nat set \<Rightarrow> umm_links \<Rightarrow> nat \<rightharpoonup> nat" where
  "umm_alloc L B h b = (if b \<in> B \<and> 0 < b \<and> b < L \<and> \<not> vfr h b then Some (vnb h b - b) else None)"

text \<open>Blocks of the map are apart from each other and inside the heap.\<close>

definition separated :: "nat \<Rightarrow> (nat \<rightharpoonup> nat) \<Rightarrow> bool" where
  "separated L A \<longleftrightarrow>
     (\<forall>b n. A b = Some n \<longrightarrow> 0 < b \<and> 0 < n \<and> b + n \<le> L) \<and>
     (\<forall>b n b' n'. A b = Some n \<longrightarrow> A b' = Some n' \<longrightarrow> b \<noteq> b' \<longrightarrow> b + n \<le> b' \<or> b' + n' \<le> b)"

lemma separatedD:
  "separated L A \<Longrightarrow> A b = Some n \<Longrightarrow> A b' = Some n' \<Longrightarrow> b \<noteq> b' \<Longrightarrow> b + n \<le> b' \<or> b' + n' \<le> b"
  "separated L A \<Longrightarrow> A b = Some n \<Longrightarrow> 0 < b \<and> 0 < n \<and> b + n \<le> L"
  unfolding separated_def by blast+

lemma umm_alloc_Some:
  "umm_alloc L B h b = Some n \<longleftrightarrow> b \<in> B \<and> 0 < b \<and> b < L \<and> \<not> vfr h b \<and> n = vnb h b - b"
  by (auto simp: umm_alloc_def)

lemma alloc_separated:
  assumes "phys L B (vnb h) (vpb h)"
  shows "separated L (umm_alloc L B h)"
  unfolding separated_def
proof (intro conjI allI impI, goal_cases)
  case (1 b n)
  then show ?case using phys_next(1) [OF assms] by (auto simp: umm_alloc_Some)
next
  case (2 b n)
  then show ?case using phys_next(1) [OF assms, of b] by (auto simp: umm_alloc_Some)
next
  case (3 b n)
  then show ?case using phys_next(1,3) [OF assms, of b] by (auto simp: umm_alloc_Some)
next
  case (4 b n b' n')
  then show ?case
    using phys_next(1) [OF assms, of b] phys_next(1) [OF assms, of b']
      phys_next(5) [OF assms, of b b'] phys_next(5) [OF assms, of b' b]
    by (auto simp: umm_alloc_Some)
qed

section \<open>The effect of the primitives on the map\<close>

lemma alloc_disconnect:
  assumes "umm_inv L B fl h" "c \<in> set fl"
  shows "umm_alloc L B (v_disconnect h c) = (umm_alloc L B h)(c \<mapsto> vnb h c - c)"
  using umm_inv_free(1) [OF assms(1)] umm_inv_free_bounds [OF assms(1)] assms(2)
  by (auto simp: umm_alloc_def v_disconnect_def)

lemma alloc_merge_free:
  assumes I: "umm_inv L B fl h" and c: "c \<in> B" "0 < c" "c < L" and "vfr h (vpb h c)"
  shows "umm_alloc L (B - {c}) (v_merge h c True) = (umm_alloc L B h)(c := None)"
  using assms(5) phys_prev [OF umm_inv_phys [OF I] c(1,2)]
  by (auto simp: umm_alloc_def v_merge_def)

lemma alloc_merge_used:
  assumes I: "umm_inv L B fl h" and c: "c \<in> B" "0 < c" "c < L" and p: "0 < vpb h c"
  shows "umm_alloc L (B - {c}) (v_merge h c False) =
    (umm_alloc L B h)(c := None, vpb h c \<mapsto> vnb h c - vpb h c)"
  using p phys_prev [OF umm_inv_phys [OF I] c(1,2)] c
  by (auto simp: umm_alloc_def v_merge_def)

lemma alloc_push_free: "umm_alloc L B (v_push_free h c) = (umm_alloc L B h)(c := None)"
  by (auto simp: umm_alloc_def v_push_free_def)

lemma alloc_make_new:
  assumes "umm_inv L B fl h" "c \<in> B" "0 < c" "c < L" "0 < n" "c + n < vnb h c"
  shows "umm_alloc L (insert (c + n) B) (v_make_new h c n False False) =
    (umm_alloc L B h)(c \<mapsto> n, c + n \<mapsto> vnb h c - (c + n))"
  using phys_next(3) [OF umm_inv_phys [OF assms(1)] assms(2,4)] assms
  by (auto simp: umm_alloc_def v_make_new_def)

lemma alloc_take:
  assumes I: "umm_inv L B fl h" and c: "c \<in> set fl" and n: "0 < n" "c + n \<le> vnb h c"
  shows "umm_alloc L (if c + n = vnb h c then B else insert (c + n) B) (v_take h c n) =
    (umm_alloc L B h)(c \<mapsto> n)"
proof -
  have cB: "c \<in> B" "vfr h c" using umm_inv_free(1) [OF I] c by auto
  note bd = umm_inv_free_bounds [OF I cB]
  note nc = phys_next [OF umm_inv_phys [OF I] cB(1) bd(2)]
  show ?thesis
  proof (cases "c + n = vnb h c")
    case True
    then have "vnb h c - c = n" by simp
    then show ?thesis using alloc_disconnect [OF I c] True by (simp add: v_take_def)
  next
    case False
    then have "c + n < vnb h c" "c + n \<notin> B" using n nc(5) [of "c + n"] by auto
    then show ?thesis using False bd cB nc n
      by (auto simp: umm_alloc_def v_take_def v_make_new_def Let_def)
  qed
qed

lemma alloc_assimilate_up:
  assumes I: "umm_inv L B fl h" and c: "c \<in> B" "0 < c" "c < L" "\<not> vfr h c" and up: "vfr h (vnb h c)"
  shows "umm_alloc L (B - {vnb h c}) (v_assimilate_up h c) =
    (umm_alloc L B h)(c \<mapsto> vnb h (vnb h c) - c)"
proof -
  note P = umm_inv_phys [OF I]
  note nc = phys_next [OF P c(1,3)]
  show ?thesis
    using nc c up phys_next(1) [OF P, of "vnb h c"] umm_inv_free_bounds [OF I nc(2) up]
    by (auto simp: umm_alloc_def v_assimilate_up_def v_disconnect_def Let_def)
qed

section \<open>Freeing a block\<close>

text \<open>
  After \<open>umm_assimilate_up\<close> the block is still allocated, at least as long as before, and the
  block above it is in use.
\<close>

lemma assimilate_up_step:
  assumes I: "umm_inv L B fl h" and c: "umm_alloc L B h c = Some n"
  obtains B' fl' n' where "umm_inv L B' fl' (v_assimilate_up h c)"
    and "umm_alloc L B' (v_assimilate_up h c) = (umm_alloc L B h)(c \<mapsto> n')" and "n \<le> n'"
    and "\<not> vfr (v_assimilate_up h c) (vnb (v_assimilate_up h c) c)"
    and "vpb (v_assimilate_up h c) c = vpb h c"
    and "B' = B \<or> (vfr h (vnb h c) \<and> B' = B - {vnb h c})"
    and "\<And>b. b \<noteq> vnb h c \<Longrightarrow> vfr (v_assimilate_up h c) b = vfr h b"
proof (cases "vfr h (vnb h c)")
  case False
  then have "v_assimilate_up h c = h" by (simp add: v_assimilate_up_def)
  then show ?thesis using that [of B fl n] I c False by (simp add: fun_upd_idem)
next
  case True
  have cB: "c \<in> B" "0 < c" "c < L" "\<not> vfr h c" "n = vnb h c - c"
    using c by (auto simp: umm_alloc_Some)
  note P = umm_inv_phys [OF I]
  note nc = phys_next [OF P cB(1,3)]
  note bd = umm_inv_free_bounds [OF I nc(2) True]
  note nd = phys_next [OF P nc(2) bd(2)]
  have 1: "\<not> vfr h (vnb h (vnb h c))" using umm_inv_coalesced [OF I nc(2) bd(2) True] .
  show ?thesis
  proof (rule that [of "B - {vnb h c}" "remove1 (vnb h c) fl" "vnb h (vnb h c) - c"])
    show "\<not> vfr (v_assimilate_up h c) (vnb (v_assimilate_up h c) c)"
      using True 1 nd nc by (simp add: v_assimilate_up_def v_disconnect_def Let_def)
    show "vpb (v_assimilate_up h c) c = vpb h c"
      using True nd nc by (simp add: v_assimilate_up_def v_disconnect_def Let_def)
    show "vfr (v_assimilate_up h c) b = vfr h b" if "b \<noteq> vnb h c" for b
      using that True cB by (simp add: v_assimilate_up_def v_disconnect_def Let_def)
  qed (use inv_assimilate_up [OF I cB(1-4) True] alloc_assimilate_up [OF I cB(1-4) True]
        True nd nc cB(5) in auto)
qed

lemma free_step:
  assumes I: "umm_inv L B fl h" and c: "umm_alloc L B h c = Some n"
  obtains B' fl' where "umm_inv L B' fl' (v_free h c)"
    and "umm_alloc L B' (v_free h c) = (umm_alloc L B h)(c := None)"
proof -
  let ?h = "v_assimilate_up h c"
  obtain B1 fl1 n1 where 1: "umm_inv L B1 fl1 ?h"
    "umm_alloc L B1 ?h = (umm_alloc L B h)(c \<mapsto> n1)" "\<not> vfr ?h (vnb ?h c)"
    by (rule assimilate_up_step [OF I c])
  have "umm_alloc L B1 ?h c = Some n1" using 1(2) by simp
  then have cB: "c \<in> B1" "0 < c" "c < L" "\<not> vfr ?h c" by (auto simp: umm_alloc_Some)
  show ?thesis
  proof (cases "vfr ?h (vpb ?h c)")
    case True
    then have "umm_inv L (B1 - {c}) fl1 (v_free h c)"
      using inv_merge [OF 1(1) cB, of True] 1(3)
        umm_inv_free_bounds(1) [OF 1(1) phys_prev(1) [OF umm_inv_phys [OF 1(1)] cB(1,2)] True] by (simp add: v_free_def Let_def)
    then show ?thesis
      using that alloc_merge_free [OF 1(1) cB(1-3) True] True 1(2) by (simp add: v_free_def Let_def)
  next
    case False
    then have "umm_inv L B1 (c # fl1) (v_free h c)"
      using inv_push_free [OF 1(1) cB 1(3)] by (simp add: v_free_def Let_def)
    then show ?thesis
      using that alloc_push_free False 1(2) by (simp add: v_free_def Let_def)
  qed
qed

end
