(* ===== verification/UmmRefine.thy ===== *)
theory UmmRefine
  imports UmmAlloc
begin

text \<open>
  The operations on bytes compute the operations on links: for every primitive of UmmBlocks
  and every step of UmmMalloc, \<open>umm_links_of (op m) = v_op (umm_links_of m)\<close> on a heap that
  satisfies the invariant.  The free-list scan ends on such a heap and finds a best fit.
\<close>

definition umm_links_of :: "memory \<Rightarrow> umm_links" where
  "umm_links_of m =
     \<lparr>vnb = (\<lambda>b. unat (UMM_NBLOCK m b AND UMM_BLOCKNO_MASK)),
      vfr = (\<lambda>b. UMM_NBLOCK m b AND UMM_FREELIST_MASK \<noteq> 0),
      vpb = (\<lambda>b. unat (UMM_PBLOCK m b)),
      vnf = (\<lambda>b. unat (UMM_NFREE m b)),
      vpf = (\<lambda>b. unat (UMM_PFREE m b))\<rparr>"

section \<open>The free mark\<close>

lemmas umm_masks = UMM_FREELIST_MASK_def UMM_BLOCKNO_MASK_def

lemma bit_freelist_mask: "bit UMM_FREELIST_MASK n \<longleftrightarrow> n = 15"
proof -
  have eq: "UMM_FREELIST_MASK = push_bit 15 1" by (simp add: umm_masks)
  show ?thesis unfolding eq bit_push_bit_iff bit_1_iff by auto
qed

lemma bit_blockno_mask: "bit UMM_BLOCKNO_MASK n \<longleftrightarrow> n < 15"
proof -
  have eq: "UMM_BLOCKNO_MASK = mask 15" by (simp add: umm_masks mask_eq_exp_minus_1)
  show ?thesis unfolding eq by (auto simp: bit_simps)
qed

lemma marked_bit: "w AND UMM_FREELIST_MASK \<noteq> 0 \<longleftrightarrow> bit w 15"
proof
  assume "w AND UMM_FREELIST_MASK \<noteq> 0"
  then obtain n where "bit (w AND UMM_FREELIST_MASK) n" using bit_eqI [of "w AND UMM_FREELIST_MASK" 0] by auto
  then show "bit w 15" by (auto simp: bit_and_iff bit_freelist_mask)
next
  assume "bit w 15"
  then have "bit (w AND UMM_FREELIST_MASK) 15" by (simp add: bit_and_iff bit_freelist_mask)
  then show "w AND UMM_FREELIST_MASK \<noteq> 0" by auto
qed

lemma blockno_take_bit: "w AND UMM_BLOCKNO_MASK = take_bit 15 w"
  by (rule bit_word_eqI) (auto simp: bit_simps bit_blockno_mask)

lemma blockno_laws [mem_laws]:
  "(w OR UMM_FREELIST_MASK) AND UMM_BLOCKNO_MASK = w AND UMM_BLOCKNO_MASK"
  "(w AND NOT UMM_FREELIST_MASK) AND UMM_BLOCKNO_MASK = w AND UMM_BLOCKNO_MASK"
  "(w AND UMM_BLOCKNO_MASK) AND UMM_BLOCKNO_MASK = w AND UMM_BLOCKNO_MASK"
  by (rule bit_word_eqI; auto simp: bit_simps bit_freelist_mask bit_blockno_mask)+

lemma marked_laws [mem_laws]:
  "(w OR UMM_FREELIST_MASK) AND UMM_FREELIST_MASK \<noteq> 0"
  "(w AND NOT UMM_FREELIST_MASK) AND UMM_FREELIST_MASK = 0"
  "(w AND UMM_BLOCKNO_MASK) AND UMM_FREELIST_MASK = 0"
  "UMM_FREELIST_MASK \<noteq> 0"
  using marked_bit [of "w OR UMM_FREELIST_MASK"] marked_bit [of "w AND NOT UMM_FREELIST_MASK"]
    marked_bit [of "w AND UMM_BLOCKNO_MASK"]
  by (auto simp: bit_or_iff bit_and_iff bit_not_iff bit_freelist_mask bit_blockno_mask umm_masks)

lemma unmarked_blockno:
  assumes "w AND UMM_FREELIST_MASK = 0"
  shows "w AND UMM_BLOCKNO_MASK = w"
proof (rule bit_word_eqI)
  fix n assume n: "n < LENGTH(16)"
  have "\<not> bit w 15" using assms marked_bit by blast
  then have "bit w n \<Longrightarrow> n < 15" using n less_antisym [of n 15] by (cases "n = 15") auto
  then show "bit (w AND UMM_BLOCKNO_MASK) n = bit w n"
    by (auto simp: bit_and_iff bit_blockno_mask)
qed

lemma small_block:
  assumes "n < 32768"
  shows "(of_nat n :: u16) AND UMM_FREELIST_MASK = 0" and "(of_nat n :: u16) AND UMM_BLOCKNO_MASK = of_nat n"
proof -
  have "take_bit 15 n = n" using assms by (simp add: take_bit_nat_eq_self)
  then have "take_bit 15 (of_nat n :: u16) = of_nat n" by (metis take_bit_of_nat)
  then have eq: "(of_nat n :: u16) AND UMM_BLOCKNO_MASK = of_nat n" by (simp add: blockno_take_bit)
  then have "(of_nat n :: u16) AND UMM_FREELIST_MASK = 0"
    using marked_laws(3) [of "of_nat n :: u16"] by simp
  with eq show "(of_nat n :: u16) AND UMM_FREELIST_MASK = 0"
    and "(of_nat n :: u16) AND UMM_BLOCKNO_MASK = of_nat n" by auto
qed

lemma unat_blockno_bound: "unat (w AND UMM_BLOCKNO_MASK) < 32768"
  unfolding blockno_take_bit unsigned_take_bit_eq using take_bit_nat_less_exp [of 15 "unat w"] by simp

section \<open>The links of an updated heap\<close>

lemma links_put [mem_laws]:
  "umm_links_of (SET_NBLOCK m b v) =
     (umm_links_of m)\<lparr>vnb := (vnb (umm_links_of m))(b := unat (v AND UMM_BLOCKNO_MASK)),
                      vfr := (vfr (umm_links_of m))(b := v AND UMM_FREELIST_MASK \<noteq> 0)\<rparr>"
  "umm_links_of (SET_PBLOCK m b v) = (umm_links_of m)\<lparr>vpb := (vpb (umm_links_of m))(b := unat v)\<rparr>"
  "umm_links_of (SET_NFREE m b v) = (umm_links_of m)\<lparr>vnf := (vnf (umm_links_of m))(b := unat v)\<rparr>"
  "umm_links_of (SET_PFREE m b v) = (umm_links_of m)\<lparr>vpf := (vpf (umm_links_of m))(b := unat v)\<rparr>"
  by (auto simp: umm_links_of_def umm_get_put fun_eq_iff)

lemma links_sel:
  "vnb (umm_links_of m) b = unat (UMM_NBLOCK m b AND UMM_BLOCKNO_MASK)"
  "vfr (umm_links_of m) b \<longleftrightarrow> UMM_NBLOCK m b AND UMM_FREELIST_MASK \<noteq> 0"
  "vpb (umm_links_of m) b = unat (UMM_PBLOCK m b)"
  "vnf (umm_links_of m) b = unat (UMM_NFREE m b)"
  "vpf (umm_links_of m) b = unat (UMM_PFREE m b)"
  by (simp_all add: umm_links_of_def)

lemma used_next: "\<not> vfr (umm_links_of m) b \<Longrightarrow> UMM_NBLOCK m b AND UMM_BLOCKNO_MASK = UMM_NBLOCK m b"
  by (simp add: links_sel unmarked_blockno)

lemma refine_disconnect:
  "umm_links_of (umm_disconnect_from_free_list m c) = v_disconnect (umm_links_of m) (unat c)"
  by (simp add: umm_disconnect_from_free_list_def v_disconnect_def mem_laws Let_def)
     (auto simp: umm_links_of_def fun_eq_iff)

lemma refine_make_new:
  assumes "unat c + unat n < 32768" "n \<noteq> 0" "cur = 0 \<or> cur = UMM_FREELIST_MASK" "new = 0 \<or> new = UMM_FREELIST_MASK"
  shows "umm_links_of (umm_make_new_block m c n cur new) =
    v_make_new (umm_links_of m) (unat c) (unat n) (cur \<noteq> 0) (new \<noteq> 0)"
proof -
  have n0: "0 < unat n" using assms(2) by (simp add: unat_gt_0)
  have c: "(of_nat (unat c + unat n) :: u16) AND UMM_FREELIST_MASK = 0"
    "(of_nat (unat c + unat n) :: u16) AND UMM_BLOCKNO_MASK = of_nat (unat c + unat n)"
    "unat (of_nat (unat c + unat n) :: u16) = unat c + unat n"
    using small_block [OF assms(1)] assms(1) by (simp_all only: unat_of_nat_u16)
  show ?thesis
    using assms(3,4) n0 c
    unfolding umm_make_new_block_def v_make_new_def Let_def
    by (elim disjE) (simp_all add: mem_laws links_sel del: of_nat_add)
qed

lemma refine_merge:
  assumes "\<not> vfr (umm_links_of m) (unat c)" "vpb (umm_links_of m) (unat c) \<noteq> unat c"
    "vnb (umm_links_of m) (unat c) \<noteq> unat c" "mark = 0 \<or> mark = UMM_FREELIST_MASK"
  shows "umm_links_of (fst (umm_assimilate_down m c mark)) =
      v_merge (umm_links_of m) (unat c) (mark \<noteq> 0)"
    and "unat (snd (umm_assimilate_down m c mark)) = vpb (umm_links_of m) (unat c)"
  using assms used_next [OF assms(1)]
  unfolding umm_assimilate_down_def v_merge_def Let_def
  by (auto simp: mem_laws links_sel)

lemma refine_assimilate_up:
  assumes "\<not> vfr (umm_links_of m) (unat c)" "vnb (umm_links_of m) (unat c) \<noteq> unat c"
  shows "umm_links_of (umm_assimilate_up m c) = v_assimilate_up (umm_links_of m) (unat c)"
proof -
  let ?d = "UMM_NBLOCK m (unat c)"
  have d: "unat ?d = vnb (umm_links_of m) (unat c)" using used_next [OF assms(1)] by (simp add: links_sel)
  have keep: "UMM_NBLOCK (umm_disconnect_from_free_list m ?d) (unat c) = ?d"
    using assms(2) d by (simp add: umm_disconnect_from_free_list_def Let_def mem_laws)
  show ?thesis
    using d unfolding umm_assimilate_up_def v_assimilate_up_def Let_def
    by (simp add: mem_laws keep refine_disconnect links_sel)
       (auto simp: links_sel [symmetric] refine_disconnect v_disconnect_def)
qed

lemma refine_push_free:
  assumes "c \<noteq> 0"
  shows "umm_links_of (umm_push_free m c) = v_push_free (umm_links_of m) (unat c)"
proof -
  have "0 < unat c" using assms by (simp add: unat_gt_0)
  then show ?thesis
    unfolding umm_push_free_def v_push_free_def Let_def
    by (simp add: mem_laws) (auto simp: umm_links_of_def fun_eq_iff)
qed

section \<open>Free and take on a well-formed heap\<close>

lemma refine_free:
  assumes I: "umm_inv L B fl (umm_links_of m)" and c: "umm_alloc L B (umm_links_of m) (unat c) = Some n"
  shows "umm_links_of (umm_free_block m c) = v_free (umm_links_of m) (unat c)"
proof -
  let ?h = "umm_links_of m" and ?m = "umm_assimilate_up m c"
  have cB: "unat c \<in> B" "0 < unat c" "unat c < L" "\<not> vfr ?h (unat c)"
    using c by (auto simp: umm_alloc_Some)
  have up: "umm_links_of ?m = v_assimilate_up ?h (unat c)"
    using phys_next(1) [OF umm_inv_phys [OF I] cB(1,3)] cB(4) by (intro refine_assimilate_up) auto
  obtain B1 fl1 n1 where 1: "umm_inv L B1 fl1 (umm_links_of ?m)"
    "umm_alloc L B1 (umm_links_of ?m) = (umm_alloc L B ?h)(unat c \<mapsto> n1)"
    using assimilate_up_step [OF I c] unfolding up [symmetric] by metis
  have "umm_alloc L B1 (umm_links_of ?m) (unat c) = Some n1" using 1(2) by simp
  then have c1: "unat c \<in> B1" "\<not> vfr (umm_links_of ?m) (unat c)" by (auto simp: umm_alloc_Some)
  have mark: "(UMM_NBLOCK ?m (unat (UMM_PBLOCK ?m (unat c))) AND UMM_FREELIST_MASK \<noteq> 0) =
      vfr (umm_links_of ?m) (vpb (umm_links_of ?m) (unat c))"
    by (simp add: links_sel)
  have "vpb (umm_links_of ?m) (unat c) \<noteq> unat c" "vnb (umm_links_of ?m) (unat c) \<noteq> unat c"
    using phys_prev(2) [OF umm_inv_phys [OF 1(1)] c1(1) cB(2)]
      phys_next(1) [OF umm_inv_phys [OF 1(1)] c1(1) cB(3)] by auto
  then have "umm_links_of (fst (umm_assimilate_down ?m c UMM_FREELIST_MASK)) =
      v_merge (umm_links_of ?m) (unat c) True"
    using refine_merge(1) [OF c1(2), of UMM_FREELIST_MASK] marked_laws(4) by simp
  moreover have "umm_links_of (umm_push_free ?m c) = v_push_free (umm_links_of ?m) (unat c)"
    using cB(2) by (intro refine_push_free) auto
  ultimately show ?thesis
    by (simp add: umm_free_block_def v_free_def Let_def mark up)
qed

lemma free_list_links:
  assumes I: "umm_inv L B fl h" and c: "c \<in> set fl"
  shows "vpf h c \<noteq> c" and "vpf h c \<in> insert 0 (set fl)" and "vnf h c \<in> insert 0 (set fl)" and "vnf h c \<noteq> c"
proof -
  note F = umm_inv_free [OF I]
  obtain xs ys where fl: "fl = xs @ c # ys" using split_list [OF c] by blast
  note n = dll_neighbours [of "vnf h" "vpf h" 0 xs c ys] last_fresh [of 0 xs "c # ys"]
  show "vpf h c \<noteq> c" "vpf h c \<in> insert 0 (set fl)" "vnf h c \<in> insert 0 (set fl)" "vnf h c \<noteq> c"
    using n F(2,3,4) fl by (auto split: list.splits if_splits)
qed

lemma refine_take:
  assumes I: "umm_inv L B fl (umm_links_of m)" and L: "L < 32768" and c: "unat c \<in> set fl"
    and sz: "unat sz = vnb (umm_links_of m) (unat c) - unat c"
    and n: "0 < unat n" "unat c + unat n \<le> vnb (umm_links_of m) (unat c)"
  shows "umm_links_of (umm_take m c sz n) = v_take (umm_links_of m) (unat c) (unat n)"
proof (cases "sz = n")
  case True
  then show ?thesis using sz by (simp add: umm_take_def v_take_def refine_disconnect)
next
  case False
  let ?h = "umm_links_of m" and ?m = "umm_make_new_block m c n 0 UMM_FREELIST_MASK"
  let ?d = "unat c + unat n"
  have cB: "unat c \<in> B" "vfr ?h (unat c)" using umm_inv_free(1) [OF I] c by auto
  have "vnb ?h (unat c) \<le> L"
    using phys_next(3) [OF umm_inv_phys [OF I] cB(1)] umm_inv_free_bounds(2) [OF I cB] by blast
  then have d: "?d < 32768" using n(2) L by linarith
  have new: "umm_links_of ?m = v_make_new ?h (unat c) (unat n) False True"
    using refine_make_new [OF d, of 0 UMM_FREELIST_MASK m] n(1) marked_laws(4) by (auto simp: unat_gt_0)
  have same: "UMM_NFREE ?m = UMM_NFREE m" "UMM_PFREE ?m = UMM_PFREE m"
    by (auto simp: umm_make_new_block_def Let_def mem_laws)
  have p: "unat (UMM_PFREE m (unat c)) \<noteq> unat c"
    using free_list_links(1) [OF I c] by (simp add: links_sel)
  have "unat sz \<noteq> unat n" using False by (simp add: word_unat_eq_iff)
  then have "vnb ?h (unat c) - unat c \<noteq> unat n" using sz by simp
  moreover have "unat (of_nat ?d :: u16) = ?d" using d by (simp only: unat_of_nat_u16)
  ultimately show ?thesis
    using False p n(1) unfolding umm_take_def v_take_def Let_def
    by (simp add: mem_laws same new del: of_nat_add) (simp add: v_make_new_def links_sel)
qed

section \<open>The best-fit scan\<close>

definition first_of :: "nat list \<Rightarrow> nat" where
  "first_of xs = (case xs of [] \<Rightarrow> 0 | x # _ \<Rightarrow> x)"

text \<open>
  \<open>best_fit sz n xs c\<close>: \<open>c\<close> is a block of \<open>xs\<close> with at least \<open>n\<close> blocks, and no smaller one fits.
\<close>

definition best_fit :: "(nat \<Rightarrow> nat) \<Rightarrow> nat \<Rightarrow> nat list \<Rightarrow> nat \<Rightarrow> bool" where
  "best_fit sz n xs c \<longleftrightarrow> c \<in> set xs \<and> n \<le> sz c \<and> (\<forall>x\<in>set xs. n \<le> sz x \<longrightarrow> sz c \<le> sz x)"

lemma scan_finds:
  assumes "dll (vnf (umm_links_of m)) (vpf (umm_links_of m)) p xs" "0 \<notin> set xs"
    and "\<forall>x\<in>set xs. x < vnb (umm_links_of m) x"
    and "unat cf = first_of xs" and sz: "sz = (\<lambda>x. vnb (umm_links_of m) x - x)"
  shows "\<exists>last' best size'.
      umm_scan m blocks cf lst bb bs = Some (0, last', best, size') \<and>
      unat last' = (if xs = [] then unat lst else sz (last xs)) \<and>
      (if \<exists>x\<in>set xs. unat blocks \<le> sz x \<and> sz x < unat bs
       then best_fit sz (unat blocks) xs (unat best) \<and> unat size' = sz (unat best) \<and> size' < bs
       else best = bb \<and> size' = bs)"
  using assms(1-4)
proof (induction xs arbitrary: p cf lst bb bs)
  case Nil
  then have "cf = 0" by (simp add: first_of_def unat_eq_0)
  then show ?case by (simp add: umm_scan.simps)
next
  case (Cons x xs)
  have cf: "unat cf = x" "cf \<noteq> 0" using Cons.prems(2,4) by (auto simp: first_of_def)
  let ?s = "(UMM_NBLOCK m (unat cf) AND UMM_BLOCKNO_MASK) - cf"
  have s: "unat ?s = sz x"
    using Cons.prems(3) cf by (simp add: sz links_sel unat_diff_u16)
  let ?better = "blocks \<le> ?s \<and> ?s < bs"
  have better: "?better \<longleftrightarrow> unat blocks \<le> sz x \<and> sz x < unat bs"
    using s by (simp add: word_le_nat_alt word_less_nat_alt)
  let ?bb = "if ?better then cf else bb" and ?bs = "if ?better then ?s else bs"
  have nx: "unat (UMM_NFREE m (unat cf)) = first_of xs"
    using Cons.prems(1) cf by (cases xs) (auto simp: first_of_def links_sel)
  obtain last' best size' where r:
    "umm_scan m blocks (UMM_NFREE m (unat cf)) ?s ?bb ?bs = Some (0, last', best, size')"
    "unat last' = (if xs = [] then unat ?s else sz (last xs))"
    "if \<exists>x\<in>set xs. unat blocks \<le> sz x \<and> sz x < unat ?bs
       then best_fit sz (unat blocks) xs (unat best) \<and> unat size' = sz (unat best) \<and> size' < ?bs
       else best = ?bb \<and> size' = ?bs"
    using Cons.IH [of x "UMM_NFREE m (unat cf)" ?s ?bb ?bs] Cons.prems nx by auto
  have "umm_scan m blocks cf lst bb bs = Some (0, last', best, size')"
    using r(1) cf(2) by (subst umm_scan.simps) (simp add: Let_def)
  moreover have "unat last' = sz (last (x # xs))" using r(2) s by simp
  moreover have "if \<exists>y\<in>set (x # xs). unat blocks \<le> sz y \<and> sz y < unat bs
       then best_fit sz (unat blocks) (x # xs) (unat best) \<and> unat size' = sz (unat best) \<and> size' < bs
       else best = bb \<and> size' = bs"
  proof (cases "unat blocks \<le> sz x \<and> sz x < unat bs")
    case True
    then have bt: "?better" using better by simp
    show ?thesis
    proof (cases "\<exists>y\<in>set xs. unat blocks \<le> sz y \<and> sz y < sz x")
      case yes: True
      then have 1: "best_fit sz (unat blocks) xs (unat best)" "unat size' = sz (unat best)" "size' < ?s"
        using r(3) bt s by auto
      then have "sz (unat best) \<le> sz x" using s by (simp add: word_less_nat_alt)
      moreover have "size' < bs" using 1(3) bt less_trans by blast
      ultimately show ?thesis using True 1(1,2) by (auto simp: best_fit_def)
    next
      case no: False
      then have "best = cf" "size' = ?s" using r(3) bt s by auto
      then show ?thesis using True no bt cf s by (auto simp: best_fit_def not_less)
    qed
  next
    case False
    then have bt: "\<not> ?better" using better by simp
    show ?thesis
    proof (cases "\<exists>y\<in>set xs. unat blocks \<le> sz y \<and> sz y < unat bs")
      case yes: True
      then have 1: "best_fit sz (unat blocks) xs (unat best)" "unat size' = sz (unat best)" "size' < bs"
        using r(3) bt by auto
      then have "unat blocks \<le> sz x \<Longrightarrow> sz (unat best) \<le> sz x"
        using False by (simp add: word_less_nat_alt)
      then show ?thesis using yes 1 by (auto simp: best_fit_def)
    next
      case no: False
      then show ?thesis using r(3) bt False by auto
    qed
  qed
  ultimately show ?case by auto
qed

text \<open>
  Under the invariant \<open>umm_malloc_blocks\<close> always returns: a best-fitting free block cut to
  size, or \<open>NULL\<close> when no free block is long enough.
\<close>

lemma free_block_sizes:
  assumes I: "umm_inv L B fl (umm_links_of m)" and "x \<in> set fl"
  shows "x < vnb (umm_links_of m) x \<and> vnb (umm_links_of m) x \<le> L \<and> 0 < x"
  using assms(2) umm_inv_free(1) [OF I] umm_inv_free_bounds [OF I] phys_next(1,3) [OF umm_inv_phys [OF I]]
  by blast

lemma scan_malloc:
  assumes I: "umm_inv L B fl (umm_links_of m)" and L: "L < 32768"
    and sz: "sz = (\<lambda>x. vnb (umm_links_of m) x - x)"
  obtains last' best size' where
    "umm_scan m blocks (UMM_NFREE m 0) 0 (UMM_NFREE m 0) 0x7FFF = Some (0, last', best, size')"
    "unat last' = (if fl = [] then 0 else sz (last fl))"
    "if \<exists>x\<in>set fl. unat blocks \<le> sz x
       then best_fit sz (unat blocks) fl (unat best) \<and> unat size' = sz (unat best) \<and> size' < 0x7FFF
       else best = UMM_NFREE m 0 \<and> size' = 0x7FFF"
proof -
  note F = umm_inv_free [OF I]
  have nx: "\<forall>x\<in>set fl. x < vnb (umm_links_of m) x" using free_block_sizes [OF I] by blast
  have small: "\<forall>x\<in>set fl. sz x < 32767"
    using free_block_sizes [OF I] L unfolding sz by fastforce
  have first: "unat (UMM_NFREE m 0) = first_of fl"
    using F(4) by (cases fl) (auto simp: first_of_def links_sel)
  have "(\<exists>x\<in>set fl. unat blocks \<le> sz x \<and> sz x < 32767) = (\<exists>x\<in>set fl. unat blocks \<le> sz x)"
    using small by blast
  then show thesis
    using that scan_finds [OF F(4,3) nx first sz, of blocks 0 "UMM_NFREE m 0" "0x7FFF"] by auto
qed

lemma malloc_blocks_cases:
  assumes I: "umm_inv L B fl (umm_links_of m)" and L: "L < 32768" and n: "blocks \<noteq> 0"
    and sz: "sz = (\<lambda>x. vnb (umm_links_of m) x - x)"
  shows "(\<exists>c. best_fit sz (unat blocks) fl (unat c) \<and>
            umm_malloc_blocks m blocks =
              Some (umm_take m c (of_nat (sz (unat c))) blocks, UMM_DATA (unat c))) \<or>
         ((\<forall>x\<in>set fl. sz x < unat blocks) \<and> umm_malloc_blocks m blocks = Some (m, NULL))"
proof -
  let ?h = "umm_links_of m"
  obtain last' best size' where r:
    "umm_scan m blocks (UMM_NFREE m 0) 0 (UMM_NFREE m 0) 0x7FFF = Some (0, last', best, size')"
    "unat last' = (if fl = [] then 0 else sz (last fl))"
    "if \<exists>x\<in>set fl. unat blocks \<le> sz x
       then best_fit sz (unat blocks) fl (unat best) \<and> unat size' = sz (unat best) \<and> size' < 0x7FFF
       else best = UMM_NFREE m 0 \<and> size' = 0x7FFF"
    using scan_malloc [OF I L sz, of blocks] by blast
  have nx: "\<forall>x\<in>set fl. x < vnb ?h x" using free_block_sizes [OF I] by blast
  show ?thesis
  proof (cases "\<exists>x\<in>set fl. unat blocks \<le> sz x")
    case True
    then have b: "best_fit sz (unat blocks) fl (unat best)" "unat size' = sz (unat best)" "size' < 0x7FFF"
      using r(3) by auto
    have "size' = of_nat (sz (unat best))" unfolding b(2) [symmetric] by simp
    moreover have "0 < vnb ?h (unat best)" using nx b(1) by (auto simp: best_fit_def)
    moreover have "blocks \<le> size'" using b(1,2) by (simp add: best_fit_def word_le_nat_alt)
    ultimately have "umm_malloc_blocks m blocks =
        Some (umm_take m best (of_nat (sz (unat best))) blocks, UMM_DATA (unat best))"
      using r(1) b(3) unfolding umm_malloc_blocks_def
      by (auto simp: links_sel unat_gt_0)
    then show ?thesis using b(1) by blast
  next
    case False
    then have b: "size' = 0x7FFF" using r(3) by auto
    have "unat last' < unat blocks"
      using r(2) False n last_in_set [of fl] by (auto simp: unat_gt_0 not_le)
    then have "umm_malloc_blocks m blocks = Some (m, NULL)"
      using r(1) b by (simp add: umm_malloc_blocks_def word_le_nat_alt)
    then show ?thesis using False by (auto simp: not_le)
  qed
qed

text \<open>
  A block count of 0 (what \<open>umm_blocks\<close> makes of a request beyond 16 bits) fits every free
  block, and with an empty free list it fits the bottom block: something is always returned.
\<close>

lemma malloc_zero_blocks:
  assumes I: "umm_inv L B fl (umm_links_of m)" and L: "L < 32768"
  obtains m' c where "umm_malloc_blocks m 0 = Some (m', UMM_DATA c)"
proof -
  define sz where "sz = (\<lambda>x. vnb (umm_links_of m) x - x)"
  obtain last' best size' where r:
    "umm_scan m 0 (UMM_NFREE m 0) 0 (UMM_NFREE m 0) 0x7FFF = Some (0, last', best, size')"
    "if \<exists>x\<in>set fl. unat (0::u16) \<le> sz x
       then best_fit sz (unat (0::u16)) fl (unat best) \<and> unat size' = sz (unat best) \<and> size' < 0x7FFF
       else best = UMM_NFREE m 0 \<and> size' = 0x7FFF"
    using scan_malloc [OF I L sz_def, of 0] by blast
  show thesis
  proof (cases "fl = []")
    case True
    have "vnb (umm_links_of m) 0 = 1" using I by (simp add: umm_inv_def)
    then show ?thesis
      using that r True by (auto simp: umm_malloc_blocks_def links_sel unat_eq_0 [symmetric] Let_def)
  next
    case False
    have e: "\<exists>x\<in>set fl. unat (0::u16) \<le> sz x" using hd_in_set [OF False] by auto
    have b: "unat best \<in> set fl" "size' < 0x7FFF" using r(2) [unfolded if_P [OF e]] by (auto simp: best_fit_def)
    then have "UMM_NBLOCK m (unat best) AND UMM_BLOCKNO_MASK \<noteq> 0"
      using free_block_sizes [OF I b(1)] by (auto simp: links_sel)
    moreover have "size' \<noteq> 0x7FFF" using b(2) by auto
    ultimately show ?thesis using that r(1) by (auto simp: umm_malloc_blocks_def Let_def)
  qed
qed

end
