(* ===== verification/UmmFrame.thy ===== *)
theory UmmFrame
  imports UmmRefine
begin

text \<open>
  Which bytes the operations leave alone.  \<open>data_byte b n x\<close> says that byte \<open>x\<close> is data of an
  allocation of \<open>n\<close> blocks at block \<open>b\<close>: everything after its header up to its end.  The
  primitives write headers of blocks and bodies of free blocks only, so they never change a
  data byte of a block that stays in use; and, the other way round, a client that writes its
  own data bytes never disturbs the heap.
\<close>

definition data_byte :: "nat \<Rightarrow> nat \<Rightarrow> nat \<Rightarrow> bool" where
  "data_byte b n x \<longleftrightarrow> 8 * b + 4 \<le> x \<and> x < 8 * (b + n)"

section \<open>Single writes\<close>

lemma umm_put_outside:
  assumes "x < 8 * i + umm_field_offset f \<or> 8 * i + umm_field_offset f + 1 < x"
  shows "umm_put f m i v x = m x"
  using assms by (auto simp: umm_put_def umm_block_size_def intro!: store16_outside)

lemma put_header_frame:
  assumes "data_byte b n x" "i \<le> b \<or> b + n \<le> i"
  shows "SET_NBLOCK m i v x = m x" and "SET_PBLOCK m i v x = m x"
  using assms by (auto simp: data_byte_def intro!: umm_put_outside)

lemma put_body_frame:
  assumes "data_byte b n x" "i < b \<or> b + n \<le> i"
  shows "SET_NFREE m i v x = m x" and "SET_PFREE m i v x = m x"
  using assms by (auto simp: data_byte_def intro!: umm_put_outside)

lemma umm_get_frame:
  assumes "\<And>x. 8 * i + umm_field_offset f \<le> x \<Longrightarrow> x \<le> 8 * i + umm_field_offset f + 1 \<Longrightarrow> m' x = m x"
  shows "umm_get f m' i = umm_get f m i"
  using assms by (auto simp: umm_get_def umm_block_size_def intro!: load16_cong)

section \<open>The primitives\<close>

text \<open>For a block in use, every other block start lies outside it, and a free one is not its own.\<close>

lemma used_apart:
  assumes I: "umm_inv L B fl h" and b: "umm_alloc L B h b = Some n" and i: "i \<in> B"
  shows "i \<le> b \<or> b + n \<le> i"
  using phys_next(1,5) [OF umm_inv_phys [OF I], of b] b i by (auto simp: umm_alloc_Some)

lemma free_apart:
  assumes I: "umm_inv L B fl h" and b: "umm_alloc L B h b = Some n" and i: "i \<in> insert 0 (set fl)"
  shows "i < b \<or> b + n \<le> i"
proof -
  have "i \<in> B" "i \<noteq> b"
    using i b umm_inv_free(1,3) [OF I] phys_ends [OF umm_inv_phys [OF I]] by (auto simp: umm_alloc_Some)
  then show ?thesis using used_apart [OF I b] by (meson le_neq_implies_less)
qed

lemma frame_disconnect:
  assumes I: "umm_inv L B fl (umm_links_of m)" and c: "unat c \<in> set fl"
    and b: "umm_alloc L B (umm_links_of m) b = Some n" "data_byte b n x"
  shows "umm_disconnect_from_free_list m c x = m x"
proof -
  note free = free_apart [OF I b(1)] and l = free_list_links [OF I c]
  have "unat c \<in> B" using umm_inv_free(1) [OF I] c by blast
  then have 1: "unat c \<le> b \<or> b + n \<le> unat c" by (rule used_apart [OF I b(1)])
  have p: "unat (UMM_PFREE m (unat c)) < b \<or> b + n \<le> unat (UMM_PFREE m (unat c))"
    using free l(2) by (simp add: links_sel)
  have q: "unat (UMM_NFREE m (unat c)) < b \<or> b + n \<le> unat (UMM_NFREE m (unat c))"
    using free l(3) by (simp add: links_sel)
  have keep: "unat (UMM_NFREE (SET_NFREE m (unat (UMM_PFREE m (unat c))) v) (unat c)) =
      unat (UMM_NFREE m (unat c))" for v
    using l(1) by (simp add: mem_laws links_sel)
  show ?thesis
    unfolding umm_disconnect_from_free_list_def Let_def keep
    by (simp only: put_header_frame [OF b(2) 1] put_body_frame [OF b(2) p] put_body_frame [OF b(2) q])
qed

lemma frame_merge:
  assumes I: "umm_inv L B fl (umm_links_of m)" and c: "unat c \<in> B" "0 < unat c" "unat c < L"
    "\<not> vfr (umm_links_of m) (unat c)"
    and b: "umm_alloc L B (umm_links_of m) b = Some n" "data_byte b n x"
  shows "fst (umm_assimilate_down m c mark) x = m x"
proof -
  note P = umm_inv_phys [OF I]
  note nc = phys_next [OF P c(1,3)] and pc = phys_prev [OF P c(1,2)]
  have p: "unat (UMM_PBLOCK m (unat c)) \<le> b \<or> b + n \<le> unat (UMM_PBLOCK m (unat c))"
    using used_apart [OF I b(1) pc(1)] by (simp add: links_sel)
  have q: "unat (UMM_NBLOCK m (unat c)) \<le> b \<or> b + n \<le> unat (UMM_NBLOCK m (unat c))"
    using used_apart [OF I b(1) nc(2)] used_next [OF c(4)] by (simp add: links_sel)
  have keep: "UMM_NBLOCK (SET_NBLOCK m (unat (UMM_PBLOCK m (unat c))) v) (unat c) = UMM_NBLOCK m (unat c)" for v
    using pc(2) by (simp add: mem_laws links_sel)
  show ?thesis
    by (simp add: umm_assimilate_down_def Let_def keep put_header_frame [OF b(2) p] put_header_frame [OF b(2) q])
qed

lemma frame_make_new:
  assumes I: "umm_inv L B fl (umm_links_of m)" and c: "unat c \<in> B" "unat c < L"
    and n: "n \<noteq> 0" "unat c + unat n < vnb (umm_links_of m) (unat c)"
    and b: "umm_alloc L B (umm_links_of m) b = Some k"
    and x: "if b = unat c then data_byte b (unat n) x else data_byte b k x"
  shows "umm_make_new_block m c n cur new x = m x"
proof -
  let ?k = "if b = unat c then unat n else k"
  note nc = phys_next [OF umm_inv_phys [OF I] c]
  have n0: "0 < unat n" using n(1) by (simp add: unat_gt_0)
  have x': "data_byte b ?k x" using x by (cases "b = unat c") auto
  have bk: "b \<in> B" "k = vnb (umm_links_of m) b - b" "b < L" using b by (auto simp: umm_alloc_Some)
  have 1: "unat c \<le> b \<or> b + ?k \<le> unat c" using used_apart [OF I b c(1)] by auto
  have 2: "unat c + unat n \<le> b \<or> b + ?k \<le> unat c + unat n"
    using used_apart [OF I b c(1)] used_apart [OF I b nc(2)] nc(5) [OF bk(1)] n(2) by auto
  have 3: "vnb (umm_links_of m) (unat c) \<le> b \<or> b + ?k \<le> vnb (umm_links_of m) (unat c)"
    using used_apart [OF I b nc(2)] n(2) by auto
  have keep: "unat (UMM_NBLOCK (SET_PBLOCK (SET_NBLOCK m (unat c + unat n) v) (unat c + unat n) c) (unat c)
      AND UMM_BLOCKNO_MASK) = vnb (umm_links_of m) (unat c)" for v
    using n0 by (simp add: mem_laws links_sel)
  show ?thesis
    unfolding umm_make_new_block_def Let_def keep
    by (simp only: put_header_frame [OF x' 1] put_header_frame [OF x' 2] put_header_frame [OF x' 3])
qed

lemma frame_assimilate_up:
  assumes I: "umm_inv L B fl (umm_links_of m)" and c: "unat c \<in> B" "0 < unat c" "unat c < L"
    "\<not> vfr (umm_links_of m) (unat c)"
    and b: "umm_alloc L B (umm_links_of m) b = Some n" "data_byte b n x"
  shows "umm_assimilate_up m c x = m x"
proof (cases "vfr (umm_links_of m) (vnb (umm_links_of m) (unat c))")
  case False
  then show ?thesis using used_next [OF c(4)] by (simp add: umm_assimilate_up_def links_sel)
next
  case True
  let ?h = "umm_links_of m" and ?d = "UMM_NBLOCK m (unat c)"
  let ?m = "umm_disconnect_from_free_list m ?d"
  note P = umm_inv_phys [OF I]
  note nc = phys_next [OF P c(1,3)]
  have d: "unat ?d = vnb ?h (unat c)" using used_next [OF c(4)] by (simp add: links_sel)
  have fl: "unat ?d \<in> set fl" using umm_inv_free(1) [OF I] nc(2) True d by simp
  note nd = phys_next [OF P nc(2) umm_inv_free_bounds(2) [OF I nc(2) True]]
  have 1: "unat c \<le> b \<or> b + n \<le> unat c" by (rule used_apart [OF I b(1) c(1)])
  have 2: "vnb ?h (unat ?d) \<le> b \<or> b + n \<le> vnb ?h (unat ?d)"
    using used_apart [OF I b(1) nd(2)] d by simp
  have keep: "UMM_NBLOCK ?m (unat c) = ?d"
    using nc(1) d by (simp add: umm_disconnect_from_free_list_def Let_def mem_laws)
  have nd': "unat (UMM_NBLOCK ?m (unat ?d) AND UMM_BLOCKNO_MASK) = vnb ?h (unat ?d)"
    using refine_disconnect [of m ?d] links_sel(1) [of ?m "unat ?d"] by (simp add: v_disconnect_def)
  show ?thesis
    using frame_disconnect [OF I fl b]
    by (simp add: umm_assimilate_up_def Let_def keep nd' put_header_frame [OF b(2) 1] put_header_frame [OF b(2) 2])
qed

lemma frame_push_free:
  assumes I: "umm_inv L B fl (umm_links_of m)" and c: "unat c \<in> B" "unat c \<noteq> 0" "unat c \<noteq> b"
    and b: "umm_alloc L B (umm_links_of m) b = Some n" "data_byte b n x"
  shows "umm_push_free m c x = m x"
proof -
  have c1: "unat c < b \<or> b + n \<le> unat c" using used_apart [OF I b(1) c(1)] c(3) by auto
  then have c2: "unat c \<le> b \<or> b + n \<le> unat c" by auto
  have z: "0 < b \<or> b + n \<le> 0" using b(1) by (auto simp: umm_alloc_Some)
  have "vnf (umm_links_of m) 0 \<in> insert 0 (set fl)"
    using umm_inv_free(4) [OF I] by (cases fl) auto
  then have f: "unat (UMM_NFREE m 0) < b \<or> b + n \<le> unat (UMM_NFREE m 0)"
    using free_apart [OF I b(1)] by (simp add: links_sel)
  show ?thesis
    by (simp add: umm_push_free_def Let_def put_header_frame [OF b(2) c2] put_body_frame [OF b(2) c1]
        put_body_frame [OF b(2) z] put_body_frame [OF b(2) f])
qed

section \<open>Free and take\<close>

lemma frame_free:
  assumes I: "umm_inv L B fl (umm_links_of m)" and c: "umm_alloc L B (umm_links_of m) (unat c) = Some k"
    and b: "umm_alloc L B (umm_links_of m) b = Some n" "data_byte b n x" "b \<noteq> unat c"
  shows "umm_free_block m c x = m x"
proof -
  let ?h = "umm_links_of m" and ?m = "umm_assimilate_up m c"
  have cB: "unat c \<in> B" "0 < unat c" "unat c < L" "\<not> vfr ?h (unat c)"
    using c by (auto simp: umm_alloc_Some)
  have up: "umm_links_of ?m = v_assimilate_up ?h (unat c)"
    using phys_next(1) [OF umm_inv_phys [OF I] cB(1,3)] cB(4) by (intro refine_assimilate_up) auto
  obtain B1 fl1 n1 where 1: "umm_inv L B1 fl1 (umm_links_of ?m)"
    "umm_alloc L B1 (umm_links_of ?m) = (umm_alloc L B ?h)(unat c \<mapsto> n1)"
    using assimilate_up_step [OF I c] unfolding up [symmetric] by metis
  have "umm_alloc L B1 (umm_links_of ?m) (unat c) = Some n1" using 1(2) by simp
  then have c1: "unat c \<in> B1" "\<not> vfr (umm_links_of ?m) (unat c)" by (auto simp: umm_alloc_Some)
  have b1: "umm_alloc L B1 (umm_links_of ?m) b = Some n" using 1(2) b by simp
  have "?m x = m x" by (rule frame_assimilate_up [OF I cB b(1,2)])
  moreover have "fst (umm_assimilate_down ?m c UMM_FREELIST_MASK) x = ?m x"
    by (rule frame_merge [OF 1(1) c1(1) cB(2,3) c1(2) b1 b(2)])
  moreover have "umm_push_free ?m c x = ?m x"
    using frame_push_free [OF 1(1) c1(1) _ _ b1 b(2)] cB(2) b(3) by simp
  ultimately show ?thesis by (simp add: umm_free_block_def Let_def)
qed

lemma frame_take:
  assumes I: "umm_inv L B fl (umm_links_of m)" and c: "unat c \<in> set fl"
    and sz: "unat sz = vnb (umm_links_of m) (unat c) - unat c"
    and n: "n \<noteq> 0" "unat c + unat n \<le> vnb (umm_links_of m) (unat c)"
    and b: "umm_alloc L B (umm_links_of m) b = Some k" "data_byte b k x"
  shows "umm_take m c sz n x = m x"
proof (cases "sz = n")
  case True
  then show ?thesis by (simp add: umm_take_def frame_disconnect [OF I c b])
next
  case False
  let ?m = "umm_make_new_block m c n 0 UMM_FREELIST_MASK"
  have cB: "unat c \<in> B" "vfr (umm_links_of m) (unat c)" using umm_inv_free(1) [OF I] c by auto
  note nc = phys_next [OF umm_inv_phys [OF I] cB(1) umm_inv_free_bounds(2) [OF I cB]]
  have "unat sz \<noteq> unat n" using False by (simp add: word_unat_eq_iff)
  then have d: "unat c + unat n < vnb (umm_links_of m) (unat c)" using sz n(2) by linarith
  have bc: "b \<noteq> unat c" using b(1) cB(2) by (auto simp: umm_alloc_Some)
  have m: "?m x = m x"
    using frame_make_new [OF I cB(1) umm_inv_free_bounds(2) [OF I cB] n(1) d b(1)] b(2) bc by simp
  have same: "UMM_NFREE ?m = UMM_NFREE m" "UMM_PFREE ?m = UMM_PFREE m"
    by (auto simp: umm_make_new_block_def Let_def mem_laws)
  note l = free_list_links [OF I c] and free = free_apart [OF I b(1)]
  have p: "unat (UMM_PFREE m (unat c)) < b \<or> b + k \<le> unat (UMM_PFREE m (unat c))"
    using free l(2) by (simp add: links_sel)
  have q: "unat (UMM_NFREE m (unat c)) < b \<or> b + k \<le> unat (UMM_NFREE m (unat c))"
    using free l(3) by (simp add: links_sel)
  have e: "unat c + unat n < b \<or> b + k \<le> unat c + unat n"
    using used_apart [OF I b(1) cB(1)] used_apart [OF I b(1) nc(2)] nc(5) [of b] b(1) d bc
    by (auto simp: umm_alloc_Some)
  have "0 < unat n" "unat (UMM_PFREE m (unat c)) \<noteq> unat c"
    using n(1) l(1) by (auto simp: unat_gt_0 links_sel)
  then show ?thesis
    using False m by (simp add: umm_take_def Let_def mem_laws same put_body_frame [OF b(2) p]
        put_body_frame [OF b(2) q] put_body_frame [OF b(2) e] del: of_nat_add)
qed

section \<open>Writes by the client\<close>

lemma umm_inv_cong:
  assumes I: "umm_inv L B fl h"
    and "\<And>b. b \<in> B \<Longrightarrow> vnb h' b = vnb h b \<and> vfr h' b = vfr h b \<and> vpb h' b = vpb h b"
    and "\<And>b. b \<in> insert 0 (set fl) \<Longrightarrow> vnf h' b = vnf h b \<and> vpf h' b = vpf h b"
  shows "umm_inv L B fl h'" and "umm_alloc L B h' = umm_alloc L B h"
proof -
  note P = umm_inv_phys [OF I] and F = umm_inv_free [OF I]
  note e = phys_ends [OF P]
  have "phys L B (vnb h') (vpb h')"
    using e phys_bounds [OF P] phys_next [OF P] assms(2) by (intro physI) auto
  moreover have "dll (vnf h') (vpf h') 0 fl"
    using F(4) assms(3) dll_cong [of 0 fl "vnf h" "vnf h'" "vpf h" "vpf h'"] by auto
  ultimately show "umm_inv L B fl h'"
    using F e assms(2) phys_next(2) [OF P] umm_inv_coalesced [OF I] by (intro umm_invI) auto
  show "umm_alloc L B h' = umm_alloc L B h"
    using assms(2) by (auto simp: umm_alloc_def fun_eq_iff)
qed

text \<open>Whatever is written to data bytes, the heap stays well formed with the same allocations.\<close>

lemma data_write_inv:
  assumes I: "umm_inv L B fl (umm_links_of m)"
    and eq: "\<And>x. (\<And>b n. umm_alloc L B (umm_links_of m) b = Some n \<Longrightarrow> \<not> data_byte b n x) \<Longrightarrow> m' x = m x"
  shows "umm_inv L B fl (umm_links_of m')"
    and "umm_alloc L B (umm_links_of m') = umm_alloc L B (umm_links_of m)"
proof -
  have header: "umm_get f m' i = umm_get f m i" if "i \<in> B" "f = FNext \<or> f = FPrev" for f i
  proof (rule umm_get_frame, rule eq)
    fix x b n assume x: "8 * i + umm_field_offset f \<le> x" "x \<le> 8 * i + umm_field_offset f + 1"
      and b: "umm_alloc L B (umm_links_of m) b = Some n"
    show "\<not> data_byte b n x" using used_apart [OF I b that(1)] that(2) x by (auto simp: data_byte_def)
  qed
  have body: "umm_get f m' i = umm_get f m i" if "i \<in> insert 0 (set fl)" "f = FNFree \<or> f = FPFree" for f i
  proof (rule umm_get_frame, rule eq)
    fix x b n assume x: "8 * i + umm_field_offset f \<le> x" "x \<le> 8 * i + umm_field_offset f + 1"
      and b: "umm_alloc L B (umm_links_of m) b = Some n"
    show "\<not> data_byte b n x" using free_apart [OF I b that(1)] that(2) x by (auto simp: data_byte_def)
  qed
  note c = umm_inv_cong [OF I, of "umm_links_of m'"]
  show "umm_inv L B fl (umm_links_of m')"
    and "umm_alloc L B (umm_links_of m') = umm_alloc L B (umm_links_of m)"
    using header body by (intro c; simp add: links_sel)+
qed

end
