(* ===== verification/UmmSpec.thy ===== *)
theory UmmSpec
  imports UmmFrame
begin

text \<open>
  The contract of the allocator, over the states of UmmMalloc.  \<open>umm_rep s A\<close> says that \<open>s\<close>
  holds a well-formed heap whose allocations are exactly the map \<open>A\<close> from block numbers to
  lengths in blocks.  Each operation is a step on \<open>A\<close>; the bytes of the allocations it does
  not name are unchanged.
\<close>

definition umm_last :: "umm_state \<Rightarrow> nat" where
  "umm_last s = unat (umm_numblocks s) - 1"

definition umm_rep :: "umm_state \<Rightarrow> (nat \<rightharpoonup> nat) \<Rightarrow> bool" where
  "umm_rep s A \<longleftrightarrow>
     umm_ready s \<and> umm_last s < 32768 \<and>
     (\<exists>B fl. umm_inv (umm_last s) B fl (umm_links_of (umm_mem s)) \<and>
             A = umm_alloc (umm_last s) B (umm_links_of (umm_mem s)))"

text \<open>The blocks a request needs, and the requests whose block count fits the 16-bit counter.\<close>

definition blocks_needed :: "u32 \<Rightarrow> nat" where
  "blocks_needed sz = (if unat sz \<le> 4 then 1 else 2 + (unat sz - 5) div 8)"

definition umm_request_ok :: "u32 \<Rightarrow> bool" where
  "umm_request_ok sz \<longleftrightarrow> 0 < sz \<and> sz < 524277"

text \<open>A run of \<open>n\<close> blocks that no allocation touches.\<close>

definition free_run :: "nat \<Rightarrow> (nat \<rightharpoonup> nat) \<Rightarrow> nat \<Rightarrow> nat \<Rightarrow> bool" where
  "free_run L A b n \<longleftrightarrow> 1 \<le> b \<and> b + n \<le> L \<and> (\<forall>b' n'. A b' = Some n' \<longrightarrow> b + n \<le> b' \<or> b' + n' \<le> b)"

definition same_data :: "memory \<Rightarrow> memory \<Rightarrow> (nat \<rightharpoonup> nat) \<Rightarrow> bool" where
  "same_data m m' A \<longleftrightarrow> (\<forall>b n x. A b = Some n \<longrightarrow> data_byte b n x \<longrightarrow> m' x = m x)"

section \<open>Block counts\<close>

lemma blocks_needed_fits: "unat sz \<le> 8 * blocks_needed sz - 4"
  by (auto simp: blocks_needed_def)

lemma blocks_needed_least: "1 < blocks_needed sz \<Longrightarrow> 8 * (blocks_needed sz - 1) - 4 < unat sz"
  by (auto simp: blocks_needed_def split: if_splits)

lemma umm_blocks_needed:
  assumes "umm_request_ok sz"
  shows "unat (umm_blocks sz) = blocks_needed sz"
proof (cases "unat sz \<le> 4")
  case True
  then show ?thesis by (simp add: umm_blocks_def blocks_needed_def umm_body_size_def word_le_nat_alt)
next
  case False
  have b: "unat sz < 524277" using assms by (simp add: umm_request_ok_def word_less_nat_alt)
  have "unat (sz - 5) = unat sz - 5" using False by (simp add: unat_sub word_le_nat_alt)
  then have "unat (2 + (sz - 5) div 8) = 2 + (unat sz - 5) div 8"
    using b by (simp add: unat_word_ariths unat_div)
  moreover have "2 + (unat sz - 5) div 8 < 65536" using b by simp
  ultimately show ?thesis using False
    by (simp add: umm_blocks_def blocks_needed_def umm_body_size_def umm_block_size_def
        word_le_nat_alt unsigned_ucast_eq take_bit_nat_eq_self)
qed

section \<open>Initialisation\<close>

lemma init_inv:
  assumes "24 \<le> region" "region < 262152"
  defines "L \<equiv> unat (umm_num_blocks region) - 1"
  shows "umm_inv L {0, 1, L} [1] (umm_links_of (umm_init_mem region m))" and "2 \<le> L" and "L < 32768"
proof -
  have "region div 8 < 65536" "3 \<le> region div 8" using assms by auto
  then have nb: "unat (umm_num_blocks region) = region div 8"
    by (simp add: umm_num_blocks_def umm_block_size_def)
  then have L: "L = region div 8 - 1" by (simp add: L_def)
  then show "2 \<le> L" "L < 32768" using assms by auto
  have last: "umm_num_blocks region - 1 = of_nat L"
    using nb L \<open>3 \<le> region div 8\<close> by (simp add: umm_num_blocks_def umm_block_size_def)
  have w: "unat (of_nat L :: u16) = L" "(of_nat L :: u16) AND UMM_BLOCKNO_MASK = of_nat L"
    using small_block(2) [OF \<open>L < 32768\<close>] \<open>L < 32768\<close> by auto
  have one: "(1 :: u16) AND UMM_FREELIST_MASK = 0" "(1 :: u16) AND UMM_BLOCKNO_MASK = 1"
    by (simp_all add: umm_masks)
  show "umm_inv L {0, 1, L} [1] (umm_links_of (umm_init_mem region m))"
    using \<open>2 \<le> L\<close> unfolding umm_init_mem_def Let_def last
    by (auto simp: mem_laws w one umm_inv_def phys_def)
qed

lemma umm_repI:
  "umm_ready s \<Longrightarrow> umm_last s < 32768 \<Longrightarrow> umm_inv (umm_last s) B fl (umm_links_of (umm_mem s)) \<Longrightarrow>
   A = umm_alloc (umm_last s) B (umm_links_of (umm_mem s)) \<Longrightarrow> umm_rep s A"
  unfolding umm_rep_def by blast

lemma umm_repE:
  assumes "umm_rep s A"
  obtains B fl where "umm_ready s" "umm_last s < 32768" "umm_inv (umm_last s) B fl (umm_links_of (umm_mem s))"
    "A = umm_alloc (umm_last s) B (umm_links_of (umm_mem s))"
  using assms unfolding umm_rep_def by blast

lemma umm_rep_separated: "umm_rep s A \<Longrightarrow> separated (umm_last s) A"
  by (auto elim!: umm_repE intro: alloc_separated umm_inv_phys)

lemma umm_last_simps [simp]:
  "umm_last (s\<lparr>umm_mem := m\<rparr>) = umm_last s"
  "umm_last (s\<lparr>umm_locks := k\<rparr>) = umm_last s"
  "umm_last (umm_critical_entry s) = umm_last s"
  "umm_last (umm_critical_exit s) = umm_last s"
  by (simp_all add: umm_last_def umm_critical_entry_def umm_critical_exit_def)

lemma umm_rep_locks [simp]:
  "umm_rep (umm_critical_entry s) A = umm_rep s A"
  "umm_rep (umm_critical_exit s) A = umm_rep s A"
  by (simp_all add: umm_rep_def umm_last_def umm_critical_entry_def umm_critical_exit_def)

lemma umm_lock_simps [simp]:
  "umm_mem (umm_critical_entry s) = umm_mem s" "umm_mem (umm_critical_exit s) = umm_mem s"
  "umm_ready (umm_critical_entry s) = umm_ready s" "umm_ready (umm_critical_exit s) = umm_ready s"
  "umm_locks (umm_critical_entry s) = umm_locks s + 1" "umm_locks (umm_critical_exit s) = umm_locks s - 1"
  "umm_region (umm_critical_entry s) = umm_region s" "umm_region (umm_critical_exit s) = umm_region s"
  "umm_numblocks (umm_critical_entry s) = umm_numblocks s" "umm_numblocks (umm_critical_exit s) = umm_numblocks s"
  by (simp_all add: umm_critical_entry_def umm_critical_exit_def)

lemma umm_rep_init:
  assumes "24 \<le> umm_region s" "umm_region s < 262152"
  shows "umm_rep (umm_init s) Map.empty"
proof -
  let ?L = "unat (umm_num_blocks (umm_region s)) - 1"
  note i = init_inv [OF assms]
  have L: "umm_last (umm_init s) = ?L" by (simp add: umm_last_def umm_init_def)
  have mem: "umm_mem (umm_init s) = umm_init_mem (umm_region s) (umm_mem s)" by (simp add: umm_init_def)
  have "Map.empty = umm_alloc ?L {0, 1, ?L} (umm_links_of (umm_mem (umm_init s)))"
    using umm_inv_free(1) [OF i(1) [of "umm_mem s"], of 1] unfolding mem
    by (auto simp: umm_alloc_def fun_eq_iff)
  note empty = this
  show ?thesis
  proof (rule umm_repI)
    show "umm_ready (umm_init s)" by (simp add: umm_init_def)
    show "umm_last (umm_init s) < 32768" unfolding L by (rule i(3))
    show "umm_inv (umm_last (umm_init s)) {0, 1, ?L} [1] (umm_links_of (umm_mem (umm_init s)))"
      unfolding L mem by (rule i(1))
    show "Map.empty = umm_alloc (umm_last (umm_init s)) {0, 1, ?L} (umm_links_of (umm_mem (umm_init s)))"
      unfolding L by (rule empty)
  qed
qed

section \<open>Malloc\<close>

lemma free_runD:
  "free_run L A b n \<Longrightarrow> A b' = Some n' \<Longrightarrow> b + n \<le> b' \<or> b' + n' \<le> b"
  by (simp add: free_run_def)

text \<open>A free run lies in one free block, because no two free blocks touch.\<close>

lemma free_run_block:
  assumes I: "umm_inv L B fl h" and run: "free_run L (umm_alloc L B h) b n" and n: "0 < n"
  obtains c where "c \<in> set fl" "c \<le> b" "b + n \<le> vnb h c"
proof -
  note P = umm_inv_phys [OF I] and F = umm_inv_free [OF I]
  define c where "c = Max {x \<in> B. x \<le> b}"
  have fin: "finite {x \<in> B. x \<le> b}" "0 \<in> {x \<in> B. x \<le> b}"
    using phys_finite [OF P] phys_ends [OF P] by auto
  have c: "c \<in> B" "c \<le> b"
    using Max_in [OF fin(1)] fin(2) unfolding c_def by blast+
  have above: "x \<in> B \<Longrightarrow> x \<le> b \<Longrightarrow> x \<le> c" for x
    using fin(1) by (simp add: c_def)
  have bL: "1 \<le> b" "b + n \<le> L" using run by (auto simp: free_run_def)
  then have cL: "c < L" using c n by simp
  note nc = phys_next [OF P c(1) cL]
  have b: "b < vnb h c" using above [OF nc(2)] nc(1) by (meson not_le)
  have free: "vfr h c"
  proof (rule ccontr)
    assume used: "\<not> vfr h c"
    have "c \<noteq> 0" using F(7) b bL by (metis less_one not_le)
    then have "umm_alloc L B h c = Some (vnb h c - c)" using c cL used by (simp add: umm_alloc_def)
    then show False using free_runD [OF run] b c n nc(1) by fastforce
  qed
  have "b + n \<le> vnb h c"
  proof (rule ccontr)
    assume "\<not> b + n \<le> vnb h c"
    then have lt: "vnb h c < b + n" "vnb h c < L" using bL by auto
    note nd = phys_next [OF P nc(2) lt(2)]
    have "umm_alloc L B h (vnb h c) = Some (vnb h (vnb h c) - vnb h c)"
      using nc lt(2) umm_inv_coalesced [OF I c(1) cL free] by (simp add: umm_alloc_def)
    then show False using free_runD [OF run] lt b nd(1) by fastforce
  qed
  then show ?thesis using that c F(1) free by blast
qed

lemma malloc_blocks_spec:
  assumes I: "umm_inv L B fl (umm_links_of m)" and L: "L < 32768" and n: "n \<noteq> 0"
  defines "A \<equiv> umm_alloc L B (umm_links_of m)"
  obtains (ok) m' c B' fl' where "umm_malloc_blocks m n = Some (m', UMM_DATA c)" "A c = None"
      "umm_inv L B' fl' (umm_links_of m')" "umm_alloc L B' (umm_links_of m') = A(c \<mapsto> unat n)"
      "same_data m m' A"
  | (full) "umm_malloc_blocks m n = Some (m, NULL)" "\<And>b. \<not> free_run L A b (unat n)"
proof -
  let ?h = "umm_links_of m"
  define sz where "sz = (\<lambda>x. vnb ?h x - x)"
  have n0: "0 < unat n" using n by (simp add: unat_gt_0)
  from malloc_blocks_cases [OF I L n sz_def] show ?thesis
  proof (elim disjE exE conjE)
    fix c assume fit: "best_fit sz (unat n) fl (unat c)"
      and r: "umm_malloc_blocks m n = Some (umm_take m c (of_nat (sz (unat c))) n, UMM_DATA (unat c))"
    have c: "unat c \<in> set fl" "unat n \<le> sz (unat c)" using fit by (auto simp: best_fit_def)
    have cB: "unat c \<in> B" "vfr ?h (unat c)" using umm_inv_free(1) [OF I] c by auto
    note nc = phys_next [OF umm_inv_phys [OF I] cB(1) umm_inv_free_bounds(2) [OF I cB]]
    have nn: "unat c + unat n \<le> vnb ?h (unat c)" using c(2) nc(1) by (simp add: sz_def)
    have "sz (unat c) < 65536" using nc(3) L by (simp add: sz_def)
    then have s: "unat (of_nat (sz (unat c)) :: u16) = vnb ?h (unat c) - unat c"
      by (simp add: sz_def)
    note t = refine_take [OF I L c(1) s n0 nn]
    obtain fl' where "umm_inv L (if unat c + unat n = vnb ?h (unat c) then B else insert (unat c + unat n) B) fl'
        (v_take ?h (unat c) (unat n))"
      using inv_take [OF I c(1) n0 nn] by blast
    moreover have "same_data m (umm_take m c (of_nat (sz (unat c))) n) A"
      using frame_take [OF I c(1) s n nn] by (auto simp: same_data_def A_def)
    ultimately show ?thesis
      using ok [OF r] alloc_take [OF I c(1) n0 nn] t cB by (auto simp: A_def umm_alloc_def)
  next
    assume none: "\<forall>x\<in>set fl. sz x < unat n" and r: "umm_malloc_blocks m n = Some (m, NULL)"
    have "\<not> free_run L A b (unat n)" for b
    proof
      assume "free_run L A b (unat n)"
      then obtain c where "c \<in> set fl" "c \<le> b" "b + unat n \<le> vnb ?h c"
        using free_run_block [OF I _ n0] unfolding A_def by blast
      then show False using none by (force simp: sz_def)
    qed
    then show ?thesis using full r by blast
  qed
qed

lemma same_data_refl [simp]: "same_data m m A"
  by (simp add: same_data_def)

lemma do_malloc_spec:
  assumes R: "umm_rep s A" and sz: "umm_request_ok sz"
  obtains (ok) s' c where "do_umm_malloc s sz = Some (s', UMM_DATA c)" "A c = None"
      "umm_rep s' (A(c \<mapsto> blocks_needed sz))" "same_data (umm_mem s) (umm_mem s') A"
      "umm_locks s' = umm_locks s" "umm_last s' = umm_last s"
  | (full) "do_umm_malloc s sz = Some (s, NULL)" "\<And>b. \<not> free_run (umm_last s) A b (blocks_needed sz)"
proof -
  obtain B fl where s: "umm_ready s" "umm_last s < 32768"
    "umm_inv (umm_last s) B fl (umm_links_of (umm_mem s))"
    and A: "A = umm_alloc (umm_last s) B (umm_links_of (umm_mem s))"
    using R by (rule umm_repE)
  have n: "unat (umm_blocks sz) = blocks_needed sz" using umm_blocks_needed [OF sz] .
  then have n0: "umm_blocks sz \<noteq> 0" by (auto simp: blocks_needed_def split: if_splits)
  have z: "sz \<noteq> 0" using sz by (auto simp: umm_request_ok_def)
  show ?thesis
  proof (rule malloc_blocks_spec [OF s(3,2) n0])
    fix m' c B' fl'
    assume r: "umm_malloc_blocks (umm_mem s) (umm_blocks sz) = Some (m', UMM_DATA c)"
      and "umm_alloc (umm_last s) B (umm_links_of (umm_mem s)) c = None"
      and "umm_inv (umm_last s) B' fl' (umm_links_of m')"
      and "umm_alloc (umm_last s) B' (umm_links_of m') =
        (umm_alloc (umm_last s) B (umm_links_of (umm_mem s)))(c \<mapsto> unat (umm_blocks sz))"
      and "same_data (umm_mem s) m' (umm_alloc (umm_last s) B (umm_links_of (umm_mem s)))"
    moreover from this have "umm_rep (umm_critical_exit ((umm_critical_entry s)\<lparr>umm_mem := m'\<rparr>)) (A(c \<mapsto> blocks_needed sz))"
      using s n A by (intro umm_repI [of _ B' fl']) auto
    ultimately show ?thesis
      using ok [of "umm_critical_exit ((umm_critical_entry s)\<lparr>umm_mem := m'\<rparr>)" c] z s A
      by (simp add: do_umm_malloc_def umm_ensure_init_def Let_def)
  next
    assume "umm_malloc_blocks (umm_mem s) (umm_blocks sz) = Some (umm_mem s, NULL)"
      and "\<And>b. \<not> free_run (umm_last s) (umm_alloc (umm_last s) B (umm_links_of (umm_mem s))) b (unat (umm_blocks sz))"
    then show ?thesis
      using full z s n A
      by (auto simp: do_umm_malloc_def umm_ensure_init_def Let_def umm_critical_entry_def umm_critical_exit_def)
  qed
qed

section \<open>Free\<close>

lemma umm_block_of_data:
  "c < 65536 \<Longrightarrow> unat (umm_block_of (8 * c + 4)) = c"
  by (simp add: umm_block_of_def umm_block_size_def)

lemma UMM_DATA_off: "UMM_DATA c = Ptr (8 * c + 4)"
  by (simp add: UMM_DATA_def umm_block_size_def umm_header_size_def)

lemma umm_rep_block_bound: "umm_rep s A \<Longrightarrow> A c = Some n \<Longrightarrow> c < 32768"
  by (auto elim!: umm_repE simp: umm_alloc_Some)

lemma free_block_spec:
  assumes R: "umm_rep s A" and c: "A (unat c) = Some n"
  shows "umm_rep (s\<lparr>umm_mem := umm_free_block (umm_mem s) c\<rparr>) (A(unat c := None))"
    and "same_data (umm_mem s) (umm_free_block (umm_mem s) c) (A(unat c := None))"
proof -
  obtain B fl where s: "umm_ready s" "umm_last s < 32768"
    "umm_inv (umm_last s) B fl (umm_links_of (umm_mem s))"
    and A: "A = umm_alloc (umm_last s) B (umm_links_of (umm_mem s))"
    using R by (rule umm_repE)
  have c': "umm_alloc (umm_last s) B (umm_links_of (umm_mem s)) (unat c) = Some n" using c A by simp
  obtain B' fl' where "umm_inv (umm_last s) B' fl' (v_free (umm_links_of (umm_mem s)) (unat c))"
    "umm_alloc (umm_last s) B' (v_free (umm_links_of (umm_mem s)) (unat c)) = A(unat c := None)"
    using free_step [OF s(3) c'] unfolding A by metis
  then show "umm_rep (s\<lparr>umm_mem := umm_free_block (umm_mem s) c\<rparr>) (A(unat c := None))"
    using s refine_free [OF s(3) c'] by (intro umm_repI [of _ B' fl']) auto
  show "same_data (umm_mem s) (umm_free_block (umm_mem s) c) (A(unat c := None))"
    using frame_free [OF s(3) c'] by (auto simp: same_data_def A split: if_splits)
qed

lemma do_free_spec:
  assumes R: "umm_rep s A" and c: "A c = Some n"
  shows "umm_rep (do_umm_free s (UMM_DATA c)) (A(c := None))"
    and "same_data (umm_mem s) (umm_mem (do_umm_free s (UMM_DATA c))) (A(c := None))"
    and "umm_locks (do_umm_free s (UMM_DATA c)) = umm_locks s"
    and "umm_last (do_umm_free s (UMM_DATA c)) = umm_last s"
proof -
  have u: "unat (umm_block_of (8 * c + 4)) = c"
    using umm_rep_block_bound [OF R c] by (simp add: umm_block_of_data)
  have 1: "umm_rep (umm_critical_entry s) A" using R by simp
  note f = free_block_spec [OF 1, of "umm_block_of (8 * c + 4)" n, unfolded u, OF c]
  show "umm_rep (do_umm_free s (UMM_DATA c)) (A(c := None))"
    and "same_data (umm_mem s) (umm_mem (do_umm_free s (UMM_DATA c))) (A(c := None))"
    and "umm_locks (do_umm_free s (UMM_DATA c)) = umm_locks s"
    and "umm_last (do_umm_free s (UMM_DATA c)) = umm_last s"
    using f by (simp_all add: do_umm_free_def UMM_DATA_off Let_def)
qed

end
