(* ===== verification/UmmRealloc.thy ===== *)
theory UmmRealloc
  imports UmmSpec
begin

text \<open>
  The contract of \<open>_umm_realloc\<close>: the block keeps its leading bytes, wherever it ends up, and
  the other allocations keep theirs.  The request fails only when no run of free blocks, the
  block's own space included, is long enough; the code then frees the block, contrary to its
  comment.
\<close>

lemma frame_same_data:
  "(\<And>b n x. A b = Some n \<Longrightarrow> data_byte b n x \<Longrightarrow> m' x = m x) \<Longrightarrow> same_data m m' A"
  by (simp add: same_data_def)

lemma same_data_trans:
  "same_data m m' A \<Longrightarrow> same_data m' m'' A' \<Longrightarrow> (\<And>b n. A b = Some n \<Longrightarrow> \<exists>n'\<ge>n. A' b = Some n') \<Longrightarrow>
   same_data m m'' A"
  unfolding same_data_def data_byte_def by (metis add_le_mono less_le_trans mult_le_mono order_refl)

text \<open>
  \<open>keeps m x m' y k\<close>: the \<open>k\<close> bytes at \<open>x\<close> in \<open>m\<close> are the bytes at \<open>y\<close> in \<open>m'\<close>.
\<close>

definition keeps :: "memory \<Rightarrow> nat \<Rightarrow> memory \<Rightarrow> nat \<Rightarrow> nat \<Rightarrow> bool" where
  "keeps m x m' y k \<longleftrightarrow> (\<forall>i<k. m' (y + i) = m (x + i))"

lemma keeps_trans: "keeps m x m' y k \<Longrightarrow> keeps m' y m'' z k' \<Longrightarrow> keeps m x m'' z (min k k')"
  by (simp add: keeps_def)

lemma keeps_le: "keeps m x m' y k \<Longrightarrow> k' \<le> k \<Longrightarrow> keeps m x m' y k'"
  by (simp add: keeps_def)

lemma keeps_trans_le: "keeps m x m' y k \<Longrightarrow> keeps m' y m'' z k' \<Longrightarrow> k \<le> k' \<Longrightarrow> keeps m x m'' z k"
  by (simp add: keeps_def)

lemma same_data_keeps:
  "same_data m m' A \<Longrightarrow> A c = Some n \<Longrightarrow> keeps m (8 * c + 4) m' (8 * c + 4) (8 * n - 4)"
  by (auto simp: same_data_def keeps_def data_byte_def)

section \<open>Joining the neighbours\<close>

text \<open>A run that needs the space of \<open>c\<close> fits between the free neighbours of \<open>c\<close>.\<close>

lemma free_run_around:
  assumes I: "umm_inv L B fl h" and c: "umm_alloc L B h c = Some n1" and up: "\<not> vfr h (vnb h c)"
    and run: "free_run L ((umm_alloc L B h)(c := None)) b n" and n: "n1 < n"
    and no_down: "\<not> (vfr h (vpb h c) \<and> n \<le> vnb h c - vpb h c)"
  shows "free_run L (umm_alloc L B h) b n"
proof (rule ccontr)
  assume blocked: "\<not> free_run L (umm_alloc L B h) b n"
  have over: "\<not> (b + n \<le> c \<or> c + n1 \<le> b)"
  proof
    assume ok: "b + n \<le> c \<or> c + n1 \<le> b"
    have "b + n \<le> b' \<or> b' + n' \<le> b" if "umm_alloc L B h b' = Some n'" for b' n'
      using that ok c free_runD [OF run, of b' n'] by (cases "b' = c") auto
    then show False using blocked run by (simp add: free_run_def)
  qed
  note P = umm_inv_phys [OF I] and F = umm_inv_free [OF I]
  have cB: "c \<in> B" "0 < c" "c < L" "n1 = vnb h c - c" using c by (auto simp: umm_alloc_Some)
  note nc = phys_next [OF P cB(1,3)] and pc = phys_prev [OF P cB(1,2)]
  have b: "1 \<le> b" "b + n \<le> L" using run by (auto simp: free_run_def)
  have outside: "b + n \<le> x \<or> vnb h x \<le> b" if "x \<in> B" "x < L" "\<not> vfr h x" "x \<noteq> c" for x
  proof (cases "x = 0")
    case True
    then show ?thesis using F(7) b by simp
  next
    case False
    then have "umm_alloc L B h x = Some (vnb h x - x)" using that by (simp add: umm_alloc_def)
    then have "b + n \<le> x \<or> x + (vnb h x - x) \<le> b"
      using free_runD [OF run, of x "vnb h x - x"] that(4) by simp
    then show ?thesis using phys_next(1) [OF P that(1,2)] by simp
  qed
  have top: "b + n \<le> vnb h c"
  proof (cases "vnb h c < L")
    case True
    then show ?thesis
      using outside [OF nc(2) True up] phys_next(1) [OF P nc(2) True] nc(1) over cB(4) by linarith
  next
    case False
    then show ?thesis using nc(3) b(2) by simp
  qed
  then have "b < c" using n cB(4) nc(1) by simp
  have pL: "vpb h c < L" using pc(2) cB(3) by simp
  have pf: "vfr h (vpb h c)"
    using outside [OF pc(1) pL] pc(2,3) over \<open>b < c\<close> by auto
  note bd = umm_inv_free_bounds [OF I pc(1) pf]
  note pp = phys_prev [OF P pc(1) bd(1)]
  have ppL: "vpb h (vpb h c) < L" using pp(2) pL by simp
  have "\<not> vfr h (vpb h (vpb h c))" using umm_inv_coalesced [OF I pp(1) ppL] pp(3) pf by auto
  then have "vpb h c \<le> b" using outside [OF pp(1) ppL] pp over pc(2) by auto
  then show False using no_down pf top by auto
qed

lemma upd_absorb: "p \<noteq> c \<Longrightarrow> (A(c \<mapsto> x, p \<mapsto> y))(c := None, p \<mapsto> z) = A(c := None, p \<mapsto> z)"
  by auto

lemma realloc_join_spec:
  assumes I: "umm_inv L B fl (umm_links_of m)" and L: "L < 32768"
    and c: "umm_alloc L B (umm_links_of m) (unat c) = Some n0"
  defines "A \<equiv> umm_alloc L B (umm_links_of m)"
  obtains m' c' n1 B' fl' where
    "umm_realloc_join m c blocks (8 * unat c + 4) (8 * n0 - 4) = (m', c', 8 * unat c' + 4)"
    "umm_inv L B' fl' (umm_links_of m')"
    "umm_alloc L B' (umm_links_of m') = A(unat c := None, unat c' \<mapsto> n1)"
    "same_data m m' (A(unat c := None))"
    "keeps m (8 * unat c + 4) m' (8 * unat c' + 4) (8 * n0 - 4)" "n0 \<le> n1"
    "(A(unat c := None)) (unat c') = None"
    "\<And>b. n1 < unat blocks \<Longrightarrow> free_run L (A(unat c := None)) b (unat blocks) \<Longrightarrow>
        free_run L (umm_alloc L B' (umm_links_of m')) b (unat blocks)"
proof -
  let ?h = "umm_links_of m" and ?m1 = "umm_assimilate_up m c"
  have cB: "unat c \<in> B" "0 < unat c" "unat c < L" "\<not> vfr ?h (unat c)"
    using c by (auto simp: umm_alloc_Some)
  have up: "umm_links_of ?m1 = v_assimilate_up ?h (unat c)"
    using phys_next(1) [OF umm_inv_phys [OF I] cB(1,3)] cB(4) by (intro refine_assimilate_up) auto
  obtain B1 fl1 n1 where 1: "umm_inv L B1 fl1 (umm_links_of ?m1)"
    "umm_alloc L B1 (umm_links_of ?m1) = A(unat c \<mapsto> n1)" "n0 \<le> n1"
    "\<not> vfr (umm_links_of ?m1) (vnb (umm_links_of ?m1) (unat c))"
    using assimilate_up_step [OF I c] unfolding up [symmetric] A_def by metis
  have s1: "same_data m ?m1 A"
    using frame_assimilate_up [OF I cB] by (auto simp: same_data_def A_def)
  have c1: "umm_alloc L B1 (umm_links_of ?m1) (unat c) = Some n1" using 1(2) by simp
  then have cB1: "unat c \<in> B1" "\<not> vfr (umm_links_of ?m1) (unat c)"
    "n1 = vnb (umm_links_of ?m1) (unat c) - unat c" by (auto simp: umm_alloc_Some)
  let ?h1 = "umm_links_of ?m1"
  note P1 = umm_inv_phys [OF 1(1)]
  note nc = phys_next [OF P1 cB1(1) cB(3)] and pc = phys_prev [OF P1 cB1(1) cB(2)]
  have nb: "unat (UMM_NBLOCK ?m1 (unat c)) = vnb ?h1 (unat c)" using used_next [OF cB1(2)] by (simp add: links_sel)
  have pb: "unat (UMM_PBLOCK ?m1 (unat c)) = vpb ?h1 (unat c)" by (simp add: links_sel)
  let ?down = "vfr ?h1 (vpb ?h1 (unat c)) \<and> unat blocks \<le> vnb ?h1 (unat c) - vpb ?h1 (unat c)"
  have cond: "(UMM_NBLOCK ?m1 (unat (UMM_PBLOCK ?m1 (unat c))) AND UMM_FREELIST_MASK \<noteq> 0 \<and>
      int (unat blocks) \<le> int (unat (UMM_NBLOCK ?m1 (unat c))) - int (unat (UMM_PBLOCK ?m1 (unat c)))) = ?down"
  proof -
    have "int (vnb ?h1 (unat c)) - int (vpb ?h1 (unat c)) = int (vnb ?h1 (unat c) - vpb ?h1 (unat c))"
      using nc(1) pc(2) by (simp add: of_nat_diff)
    then show ?thesis unfolding nb pb links_sel(2) [symmetric] by (simp only: of_nat_le_iff)
  qed
  show ?thesis
  proof (cases ?down)
    case False
    have join: "umm_realloc_join m c blocks (8 * unat c + 4) (8 * n0 - 4) = (?m1, c, 8 * unat c + 4)"
      unfolding umm_realloc_join_def Let_def cond if_not_P [OF False] ..
    show ?thesis
    proof (rule that [OF join 1(1)])
      show "umm_alloc L B1 (umm_links_of ?m1) = A(unat c := None, unat c \<mapsto> n1)" using 1(2) by simp
      show "same_data m ?m1 (A(unat c := None))" using s1 by (auto simp: same_data_def split: if_splits)
      show "keeps m (8 * unat c + 4) ?m1 (8 * unat c + 4) (8 * n0 - 4)"
        using same_data_keeps [OF s1] c by (simp add: A_def)
      show "free_run L (umm_alloc L B1 (umm_links_of ?m1)) b (unat blocks)"
        if "n1 < unat blocks" "free_run L (A(unat c := None)) b (unat blocks)" for b
        using free_run_around [OF 1(1) c1 1(4) _ that(1) False] that(2) unfolding 1(2) by simp
    qed (use 1(3) in auto)
  next
    case True
    let ?p = "UMM_PBLOCK ?m1 (unat c)"
    let ?m2 = "umm_disconnect_from_free_list ?m1 ?p"
    let ?h2 = "umm_links_of ?m2"
    have h2: "?h2 = v_disconnect ?h1 (vpb ?h1 (unat c))" by (simp add: refine_disconnect links_sel)
    have pfl: "vpb ?h1 (unat c) \<in> set fl1" using umm_inv_free(1) [OF 1(1)] pc(1) True by blast
    note bd = umm_inv_free_bounds [OF 1(1) pc(1)]
    have I2: "umm_inv L B1 (remove1 (vpb ?h1 (unat c)) fl1) ?h2"
      unfolding h2 by (rule inv_disconnect [OF 1(1) pfl])
    have a2: "umm_alloc L B1 ?h2 = A(unat c \<mapsto> n1, vpb ?h1 (unat c) \<mapsto> unat c - vpb ?h1 (unat c))"
      unfolding h2 alloc_disconnect [OF 1(1) pfl] 1(2) pc(3) ..
    have sel2: "vnb ?h2 = vnb ?h1" "vpb ?h2 = vpb ?h1" "\<not> vfr ?h2 (unat c)" "\<not> vfr ?h2 (vpb ?h1 (unat c))"
      using cB1(2) unfolding h2 by (auto simp: v_disconnect_def)
    let ?r = "umm_assimilate_down ?m2 c 0"
    have r: "umm_links_of (fst ?r) = v_merge ?h2 (unat c) False" "unat (snd ?r) = vpb ?h1 (unat c)"
      using refine_merge [OF sel2(3), of 0] nc(1) pc(2) sel2 by auto
    have p0: "0 < vpb ?h1 (unat c)" using bd(1) True by blast
    have I3: "umm_inv L (B1 - {unat c}) (remove1 (vpb ?h1 (unat c)) fl1) (umm_links_of (fst ?r))"
      unfolding r(1) using I2 cB1(1) cB(2,3) sel2 p0 by (intro inv_merge) auto
    let ?n3 = "vnb ?h1 (unat c) - vpb ?h1 (unat c)"
    have a3: "umm_alloc L (B1 - {unat c}) (umm_links_of (fst ?r)) = A(unat c := None, vpb ?h1 (unat c) \<mapsto> ?n3)"
    proof -
      have p2: "0 < vpb ?h2 (unat c)" using p0 sel2(2) by simp
      have "umm_alloc L (B1 - {unat c}) (umm_links_of (fst ?r)) =
          (umm_alloc L B1 ?h2)(unat c := None, vpb ?h2 (unat c) \<mapsto> vnb ?h2 (unat c) - vpb ?h2 (unat c))"
        unfolding r(1) by (rule alloc_merge_used [OF I2 cB1(1) cB(2,3) p2])
      also have "\<dots> = A(unat c := None, vpb ?h1 (unat c) \<mapsto> ?n3)"
        unfolding a2 sel2(1,2) by (rule upd_absorb) (use pc(2) in simp)
      finally show ?thesis .
    qed
    have s2: "same_data ?m1 ?m2 (A(unat c \<mapsto> n1))"
      using frame_disconnect [OF 1(1), of ?p] pfl 1(2) by (auto simp: same_data_def links_sel)
    have "umm_alloc L B1 ?h1 (vpb ?h1 (unat c)) = None" using True by (simp add: umm_alloc_def)
    then have Ap: "A (vpb ?h1 (unat c)) = None" unfolding 1(2) using pc(2) by simp
    have s3: "same_data ?m2 (fst ?r) (umm_alloc L B1 ?h2)"
      using frame_merge [OF I2 cB1(1) cB(2,3) sel2(3)] by (auto simp: same_data_def)
    have A1: "A b = Some n \<Longrightarrow> \<exists>n'\<ge>n. (A(unat c \<mapsto> n1)) b = Some n'" for b n
      using c 1(3) by (auto simp: A_def)
    have A2: "A b = Some n \<Longrightarrow> \<exists>n'\<ge>n. umm_alloc L B1 ?h2 b = Some n'" for b n
      using A1 [of b n] Ap unfolding a2 by (cases "b = vpb ?h1 (unat c)") auto
    have s: "same_data m (fst ?r) A"
      by (rule same_data_trans [OF same_data_trans [OF s1 s2 A1] s3 A2])
    let ?off = "8 * vpb ?h1 (unat c) + 4"
    let ?m4 = "memmove (fst ?r) ?off (8 * unat c + 4) (8 * n0 - 4)"
    have n3: "n0 \<le> ?n3" using 1(3) cB1(3) pc(2) nc(1) by simp
    have hole: "?m4 x = fst ?r x" if "\<not> data_byte (vpb ?h1 (unat c)) ?n3 x" for x
      using that n3 by (intro memmove_outside) (auto simp: data_byte_def)
    note w = data_write_inv [OF I3, of ?m4]
    have join: "umm_realloc_join m c blocks (8 * unat c + 4) (8 * n0 - 4) = (?m4, snd ?r, 8 * unat (snd ?r) + 4)"
      unfolding umm_realloc_join_def Let_def cond if_P [OF True]
      by (simp add: split_beta umm_data_off_def umm_block_size_def umm_header_size_def r(2))
    have sep: "separated L (umm_alloc L (B1 - {unat c}) (umm_links_of (fst ?r)))"
      by (rule alloc_separated [OF umm_inv_phys [OF I3]])
    show ?thesis
    proof (rule that [OF join])
      show "umm_inv L (B1 - {unat c}) (remove1 (vpb ?h1 (unat c)) fl1) (umm_links_of ?m4)"
        using hole a3 by (intro w(1)) simp
      show a4: "umm_alloc L (B1 - {unat c}) (umm_links_of ?m4) = A(unat c := None, unat (snd ?r) \<mapsto> ?n3)"
        unfolding r(2) a3 [symmetric] using hole a3 by (intro w(2)) simp
      show "same_data m ?m4 (A(unat c := None))"
      proof (rule frame_same_data)
        fix b n x assume b: "(A(unat c := None)) b = Some n" "data_byte b n x"
        then have bp: "b \<noteq> vpb ?h1 (unat c)" using Ap by (auto split: if_splits)
        have "b + n \<le> vpb ?h1 (unat c) \<or> vpb ?h1 (unat c) + ?n3 \<le> b"
          by (rule separatedD(1) [OF sep]) (use b(1) bp in \<open>simp_all only: a3 fun_upd_apply if_False refl if_True not_False_eq_True\<close>)
        then have "?m4 x = fst ?r x" using b(2) by (intro hole) (auto simp: data_byte_def)
        then show "?m4 x = m x" using s b by (auto simp: same_data_def split: if_splits)
      qed
      have "keeps m (8 * unat c + 4) (fst ?r) (8 * unat c + 4) (8 * n0 - 4)"
        using same_data_keeps [OF s] c by (simp add: A_def)
      then show "keeps m (8 * unat c + 4) ?m4 (8 * unat (snd ?r) + 4) (8 * n0 - 4)"
        unfolding r(2) by (simp add: keeps_def memmove_inside)
    qed (use n3 True Ap r(2) in auto)
  qed
qed

section \<open>Realloc\<close>

lemma old_size:
  assumes "umm_rep s A" "A c = Some n"
  shows "unat (ucast (of_nat n :: u16) * of_nat umm_block_size - of_nat umm_header_size :: u32) = 8 * n - 4"
    and "unat (of_nat n :: u16) = n" and "0 < n" and "c + n \<le> umm_last s"
proof -
  have "umm_last s < 32768" using assms(1) by (simp add: umm_rep_def)
  moreover have sep: "0 < n" "c + n \<le> umm_last s"
    using separatedD(2) [OF umm_rep_separated [OF assms(1)] assms(2)] by auto
  ultimately have n: "n < 32768" by linarith
  then show u: "unat (of_nat n :: u16) = n" by simp
  have "unat (ucast (of_nat n :: u16) :: u32) = n"
    using u n by (simp add: unsigned_ucast_eq take_bit_nat_eq_self)
  then have "unat (ucast (of_nat n :: u16) * 8 :: u32) = 8 * n"
    using n by (simp add: unat_word_ariths)
  then show "unat (ucast (of_nat n :: u16) * of_nat umm_block_size - of_nat umm_header_size :: u32) = 8 * n - 4"
    using sep(1) by (simp add: umm_block_size_def umm_header_size_def unat_sub word_le_nat_alt)
  show "0 < n" "c + n \<le> umm_last s" using sep by auto
qed

lemma used_size:
  assumes "umm_inv L B fl (umm_links_of m)" "umm_alloc L B (umm_links_of m) (unat c) = Some n"
  shows "UMM_NBLOCK m (unat c) - c = of_nat n"
proof -
  have c: "unat c \<in> B" "unat c < L" "\<not> vfr (umm_links_of m) (unat c)"
    "n = vnb (umm_links_of m) (unat c) - unat c"
    using assms(2) by (auto simp: umm_alloc_Some)
  then have "n = unat (UMM_NBLOCK m (unat c)) - unat c" using used_next by (simp add: links_sel)
  moreover have "unat c < unat (UMM_NBLOCK m (unat c))"
    using phys_next(1) [OF umm_inv_phys [OF assms(1)] c(1,2)] c(3) used_next by (simp add: links_sel)
  ultimately have "unat (UMM_NBLOCK m (unat c) - c) = n" by (simp add: unat_diff_u16)
  then show ?thesis by (metis of_nat_unat ucast_id)
qed

text \<open>The block at hand is longer than asked for: the tail becomes a free block.\<close>

lemma shrink_spec:
  assumes R: "umm_rep s A" and c: "A (unat c) = Some n1" and n: "n \<noteq> 0" "unat n < n1"
  defines "s' \<equiv> do_umm_free (s\<lparr>umm_mem := umm_make_new_block (umm_mem s) c n 0 0\<rparr>) (UMM_DATA (unat c + unat n))"
  shows "umm_rep s' (A(unat c \<mapsto> unat n))" and "same_data (umm_mem s) (umm_mem s') (A(unat c \<mapsto> unat n))"
    and "umm_locks s' = umm_locks s" and "umm_last s' = umm_last s"
proof -
  obtain B fl where s: "umm_ready s" "umm_last s < 32768"
    "umm_inv (umm_last s) B fl (umm_links_of (umm_mem s))"
    and A: "A = umm_alloc (umm_last s) B (umm_links_of (umm_mem s))"
    using R by (rule umm_repE)
  let ?h = "umm_links_of (umm_mem s)" and ?m = "umm_make_new_block (umm_mem s) c n 0 0" and ?d = "unat c + unat n"
  have cB: "unat c \<in> B" "0 < unat c" "unat c < umm_last s" "\<not> vfr ?h (unat c)" "n1 = vnb ?h (unat c) - unat c"
    using c A by (auto simp: umm_alloc_Some)
  have n0: "0 < unat n" using n(1) by (simp add: unat_gt_0)
  have d: "?d < vnb ?h (unat c)" using n(2) cB(5) by linarith
  note nc = phys_next [OF umm_inv_phys [OF s(3)] cB(1,3)]
  have "?d < 32768" using d nc(3) s(2) by linarith
  then have h: "umm_links_of ?m = v_make_new ?h (unat c) (unat n) False False"
    using refine_make_new [of c n 0 0 "umm_mem s"] n(1) by simp
  let ?A = "A(unat c \<mapsto> unat n, ?d \<mapsto> vnb ?h (unat c) - ?d)"
  have R1: "umm_rep (s\<lparr>umm_mem := ?m\<rparr>) ?A"
    using s inv_make_new [OF s(3) cB(1-4) n0 d] alloc_make_new [OF s(3) cB(1-3) n0 d] h A
    by (intro umm_repI [of _ "insert ?d B" fl]) auto
  have F1: "same_data (umm_mem s) ?m (A(unat c \<mapsto> unat n))"
    using frame_make_new [OF s(3) cB(1,3) n(1) d] A c by (auto simp: same_data_def split: if_splits)
  have dA: "A ?d = None" using nc(5) [of ?d] d n0 A by (auto simp: umm_alloc_def)
  then have A': "?A(?d := None) = A(unat c \<mapsto> unat n)" using n0 by (auto simp: fun_upd_twist)
  note f = do_free_spec [OF R1, of ?d "vnb ?h (unat c) - ?d", unfolded A', folded s'_def]
  show "umm_rep s' (A(unat c \<mapsto> unat n))" "umm_locks s' = umm_locks s" "umm_last s' = umm_last s"
    using f by simp_all
  show "same_data (umm_mem s) (umm_mem s') (A(unat c \<mapsto> unat n))"
    by (rule same_data_trans [OF F1, of _ "A(unat c \<mapsto> unat n)"]) (use f in simp_all)
qed

text \<open>The block is too short: a new block, the old bytes copied, the old block freed.\<close>

lemma umm_rep_data_write:
  assumes R: "umm_rep s A" and "\<And>x. (\<And>b n. A b = Some n \<Longrightarrow> \<not> data_byte b n x) \<Longrightarrow> m x = umm_mem s x"
  shows "umm_rep (s\<lparr>umm_mem := m\<rparr>) A"
proof -
  obtain B fl where s: "umm_ready s" "umm_last s < 32768"
    "umm_inv (umm_last s) B fl (umm_links_of (umm_mem s))"
    and A: "A = umm_alloc (umm_last s) B (umm_links_of (umm_mem s))"
    using R by (rule umm_repE)
  have w: "(\<And>b n. umm_alloc (umm_last s) B (umm_links_of (umm_mem s)) b = Some n \<Longrightarrow> \<not> data_byte b n x) \<Longrightarrow>
      m x = umm_mem s x" for x
    using assms(2) A by auto
  note d = data_write_inv [OF s(3) w]
  show ?thesis using s d A by (intro umm_repI [of _ B fl]) auto
qed

lemma copy_spec:
  assumes R: "umm_rep s A" and q: "A q = Some n" and k: "k \<le> 8 * n - 4" "0 < n"
  shows "umm_rep (s\<lparr>umm_mem := memmove (umm_mem s) (8 * q + 4) off k\<rparr>) A"
    and "same_data (umm_mem s) (memmove (umm_mem s) (8 * q + 4) off k) (A(q := None))"
proof -
  have hole: "memmove (umm_mem s) (8 * q + 4) off k x = umm_mem s x" if "\<not> data_byte q n x" for x
    using that k by (intro memmove_outside) (auto simp: data_byte_def)
  then show "umm_rep (s\<lparr>umm_mem := memmove (umm_mem s) (8 * q + 4) off k\<rparr>) A"
    using q by (intro umm_rep_data_write [OF R]) blast
  show "same_data (umm_mem s) (memmove (umm_mem s) (8 * q + 4) off k) (A(q := None))"
  proof (rule frame_same_data, rule hole)
    fix b n' x assume b: "(A(q := None)) b = Some n'" "data_byte b n' x"
    then have "b + n' \<le> q \<or> q + n \<le> b"
      using separatedD(1) [OF umm_rep_separated [OF R], of b n' q n] q by (auto split: if_splits)
    then show "\<not> data_byte q n x" using b(2) by (auto simp: data_byte_def)
  qed
qed

lemma grow_spec:
  assumes R: "umm_rep s A" and c: "A (unat c) = Some n1" and sz: "umm_request_ok sz"
    and small: "n1 < blocks_needed sz" and k: "k \<le> 8 * n1 - 4"
  defines "r \<equiv> umm_realloc_fit s c (8 * unat c + 4) (umm_blocks sz) sz k"
  obtains (ok) s' q where "r = Some (s', UMM_DATA q)" "(A(unat c := None)) q = None"
      "umm_rep s' (A(unat c := None, q \<mapsto> blocks_needed sz))"
      "same_data (umm_mem s) (umm_mem s') (A(unat c := None))"
      "keeps (umm_mem s) (8 * unat c + 4) (umm_mem s') (8 * q + 4) k" "umm_locks s' = umm_locks s - 1"
  | (full) s' where "r = Some (s', NULL)" "umm_rep s' (A(unat c := None))"
      "same_data (umm_mem s) (umm_mem s') (A(unat c := None))" "umm_locks s' = umm_locks s - 1"
      "\<And>b. \<not> free_run (umm_last s) A b (blocks_needed sz)"
proof -
  have u: "unat (umm_blocks sz) = blocks_needed sz" using umm_blocks_needed [OF sz] .
  have "UMM_NBLOCK (umm_mem s) (unat c) - c = of_nat n1"
    using R c by (auto elim!: umm_repE intro: used_size)
  moreover have "unat (of_nat n1 :: u16) = n1" using old_size(2) [OF R c] .
  ultimately have sizes: "UMM_NBLOCK (umm_mem s) (unat c) - c \<noteq> umm_blocks sz"
    "\<not> umm_blocks sz < UMM_NBLOCK (umm_mem s) (unat c) - c"
    using small u by (auto simp: word_less_nat_alt word_unat_eq_iff)
  have n0: "0 < blocks_needed sz" by (simp add: blocks_needed_def)
  show ?thesis
  proof (rule do_malloc_spec [OF R sz])
    fix s1 q assume m: "do_umm_malloc s sz = Some (s1, UMM_DATA q)" "A q = None"
      "umm_rep s1 (A(q \<mapsto> blocks_needed sz))" "same_data (umm_mem s) (umm_mem s1) A"
      "umm_locks s1 = umm_locks s"
    have qc: "q \<noteq> unat c" using m(2) c by auto
    let ?s2 = "s1\<lparr>umm_mem := memmove (umm_mem s1) (8 * q + 4) (8 * unat c + 4) k\<rparr>"
    let ?s3 = "do_umm_free ?s2 (Ptr (8 * unat c + 4))"
    have kk: "k \<le> 8 * blocks_needed sz - 4" using k small by simp
    note cp = copy_spec [OF m(3) _ kk n0, of q "8 * unat c + 4"]
    have R2: "umm_rep ?s2 (A(q \<mapsto> blocks_needed sz))" using cp(1) by simp
    note f = do_free_spec [OF R2, of "unat c" n1, unfolded UMM_DATA_off]
    have A': "A(q \<mapsto> blocks_needed sz, unat c := None) = A(unat c := None, q \<mapsto> blocks_needed sz)"
      using qc by (simp add: fun_upd_twist)
    have "same_data (umm_mem s1) (umm_mem ?s2) A"
      using cp(2) m(2) by (simp add: fun_upd_idem)
    with m(4) have "same_data (umm_mem s) (umm_mem ?s2) A"
      by (rule same_data_trans) blast
    then have "same_data (umm_mem s) (umm_mem ?s2) (A(unat c := None))"
      by (auto simp: same_data_def split: if_splits)
    then have sd: "same_data (umm_mem s) (umm_mem ?s3) (A(unat c := None))"
      by (rule same_data_trans [of _ _ _ _ "A(unat c := None, q \<mapsto> blocks_needed sz)"])
         (use f(2) A' qc c m(2) in \<open>auto split: if_splits\<close>)
    have "keeps (umm_mem s) (8 * unat c + 4) (umm_mem s1) (8 * unat c + 4) (8 * n1 - 4)"
      by (rule same_data_keeps [OF m(4) c])
    then have "keeps (umm_mem s) (8 * unat c + 4) (umm_mem ?s2) (8 * q + 4) k"
      using k by (auto simp: keeps_def memmove_inside)
    moreover have "keeps (umm_mem ?s2) (8 * q + 4) (umm_mem ?s3) (8 * q + 4) (8 * blocks_needed sz - 4)"
      using same_data_keeps [OF f(2), of q "blocks_needed sz"] c qc by simp
    ultimately have kp: "keeps (umm_mem s) (8 * unat c + 4) (umm_mem ?s3) (8 * q + 4) k"
      by (rule keeps_trans_le [OF _ _ kk])
    have "r = Some (umm_critical_exit ?s3, UMM_DATA q)"
      unfolding r_def umm_realloc_fit_def Let_def using sizes m(1) by (simp add: UMM_DATA_off)
    then show ?thesis
      using ok [of "umm_critical_exit ?s3" q] f(1,3) A' sd kp m(2,5) c qc by simp
  next
    assume m: "do_umm_malloc s sz = Some (s, NULL)"
      "\<And>b. \<not> free_run (umm_last s) A b (blocks_needed sz)"
    have "r = Some (umm_critical_exit (do_umm_free s (Ptr (8 * unat c + 4))), NULL)"
      unfolding r_def umm_realloc_fit_def Let_def using sizes m(1) by simp
    then show ?thesis
      using full do_free_spec [OF R c] m(2) by (simp add: UMM_DATA_off)
  qed
qed

lemma fit_spec:
  assumes R: "umm_rep s A" and c: "A (unat c) = Some n1" and sz: "umm_request_ok sz"
    and k: "k \<le> 8 * n1 - 4"
  defines "r \<equiv> umm_realloc_fit s c (8 * unat c + 4) (umm_blocks sz) sz k"
  obtains (ok) s' q where "r = Some (s', UMM_DATA q)" "(A(unat c := None)) q = None"
      "umm_rep s' (A(unat c := None, q \<mapsto> blocks_needed sz))"
      "same_data (umm_mem s) (umm_mem s') (A(unat c := None))"
      "keeps (umm_mem s) (8 * unat c + 4) (umm_mem s') (8 * q + 4) (min k (8 * blocks_needed sz - 4))"
      "umm_locks s' = umm_locks s - 1"
  | (full) s' where "r = Some (s', NULL)" "umm_rep s' (A(unat c := None))"
      "same_data (umm_mem s) (umm_mem s') (A(unat c := None))" "umm_locks s' = umm_locks s - 1"
      "n1 < blocks_needed sz" "\<And>b. \<not> free_run (umm_last s) A b (blocks_needed sz)"
proof -
  let ?n = "blocks_needed sz"
  have u: "unat (umm_blocks sz) = ?n" using umm_blocks_needed [OF sz] .
  have bs: "UMM_NBLOCK (umm_mem s) (unat c) - c = of_nat n1"
    using R c by (auto elim!: umm_repE intro: used_size)
  have w: "unat (of_nat n1 :: u16) = n1" using old_size(2) [OF R c] .
  have part: "same_data m m' A \<Longrightarrow> same_data m m' (A(x := None))" for m m' x
    by (auto simp: same_data_def split: if_splits)
  consider "n1 = ?n" | "?n < n1" | "n1 < ?n" by linarith
  then show ?thesis
  proof cases
    case 1
    then have "(of_nat n1 :: u16) = umm_blocks sz" using u w by (simp add: word_unat_eq_iff)
    then have "r = Some (umm_critical_exit s, UMM_DATA (unat c))"
      unfolding r_def umm_realloc_fit_def Let_def bs by (simp add: UMM_DATA_off)
    then show ?thesis using ok [of "umm_critical_exit s" "unat c"] R c 1 by (simp add: keeps_def fun_upd_idem)
  next
    case 2
    then have lt: "(of_nat n1 :: u16) \<noteq> umm_blocks sz" "umm_blocks sz < of_nat n1" "unat (umm_blocks sz) < n1"
      using u w by (auto simp: word_unat_eq_iff word_less_nat_alt)
    have n: "umm_blocks sz \<noteq> 0" using u by (auto simp: blocks_needed_def split: if_splits)
    let ?s' = "do_umm_free (s\<lparr>umm_mem := umm_make_new_block (umm_mem s) c (umm_blocks sz) 0 0\<rparr>)
      (UMM_DATA (unat c + unat (umm_blocks sz)))"
    note sh = shrink_spec [OF R c n lt(3)]
    have "same_data (umm_mem s) (umm_mem ?s') (A(unat c := None))"
      using sh(2) by (auto simp: same_data_def split: if_splits)
    moreover have "keeps (umm_mem s) (8 * unat c + 4) (umm_mem ?s') (8 * unat c + 4) (min k (8 * ?n - 4))"
      using same_data_keeps [OF sh(2), of "unat c"] by (auto simp: u intro: keeps_le)
    moreover have "r = Some (umm_critical_exit ?s', UMM_DATA (unat c))"
      unfolding r_def umm_realloc_fit_def Let_def bs using lt by (simp add: UMM_DATA_off)
    ultimately show ?thesis
      using ok [of "umm_critical_exit ?s'" "unat c"] sh(1,3) u by simp
  next
    case 3
    then have "k \<le> 8 * ?n - 4" using k by simp
    then have "min k (8 * ?n - 4) = k" by simp
    then show ?thesis
      using grow_spec [OF R c sz 3 k, folded r_def, of thesis] ok full 3 by metis
  qed
qed

section \<open>The contract of realloc\<close>

lemma do_realloc_spec:
  assumes R: "umm_rep s A" and c: "A c = Some n0" and sz: "umm_request_ok sz"
  obtains (ok) s' q where "do_umm_realloc s (UMM_DATA c) sz = Some (s', UMM_DATA q)" "(A(c := None)) q = None"
      "umm_rep s' (A(c := None, q \<mapsto> blocks_needed sz))"
      "same_data (umm_mem s) (umm_mem s') (A(c := None))"
      "keeps (umm_mem s) (8 * c + 4) (umm_mem s') (8 * q + 4) (min (8 * n0 - 4) (8 * blocks_needed sz - 4))"
      "umm_locks s' = umm_locks s"
  | (full) s' where "do_umm_realloc s (UMM_DATA c) sz = Some (s', NULL)" "umm_rep s' (A(c := None))"
      "same_data (umm_mem s) (umm_mem s') (A(c := None))" "umm_locks s' = umm_locks s"
      "\<And>b. \<not> free_run (umm_last s) (A(c := None)) b (blocks_needed sz)"
proof -
  obtain B fl where s: "umm_ready s" "umm_last s < 32768"
    "umm_inv (umm_last s) B fl (umm_links_of (umm_mem s))"
    and A: "A = umm_alloc (umm_last s) B (umm_links_of (umm_mem s))"
    using R by (rule umm_repE)
  define cc where "cc = umm_block_of (8 * c + 4)"
  have cu: "unat cc = c" using umm_rep_block_bound [OF R c] by (simp add: cc_def umm_block_of_data)
  have c': "umm_alloc (umm_last s) B (umm_links_of (umm_mem s)) (unat cc) = Some n0" using c A cu by simp
  have bs: "UMM_NBLOCK (umm_mem s) (unat cc) - cc = of_nat n0" by (rule used_size [OF s(3) c'])
  note old = old_size [OF R c]
  have u: "unat (umm_blocks sz) = blocks_needed sz" using umm_blocks_needed [OF sz] .
  have z: "sz \<noteq> 0" using sz by (auto simp: umm_request_ok_def)
  let ?s0 = "umm_critical_entry s"
  show ?thesis
  proof (cases "(of_nat n0 :: u16) = umm_blocks sz")
    case True
    then have n: "n0 = blocks_needed sz" using u old(2) by metis
    have "do_umm_realloc s (UMM_DATA c) sz = Some (umm_critical_exit ?s0, UMM_DATA c)"
      using z s(1) bs True by (simp add: do_umm_realloc_def umm_ensure_init_def UMM_DATA_off cc_def Let_def)
    then show ?thesis using ok [of "umm_critical_exit ?s0" c] R c n by (simp add: keeps_def fun_upd_idem)
  next
    case False
    obtain m' d n1 B' fl' where j:
      "umm_realloc_join (umm_mem s) cc (umm_blocks sz) (8 * unat cc + 4) (8 * n0 - 4) = (m', d, 8 * unat d + 4)"
      "umm_inv (umm_last s) B' fl' (umm_links_of m')"
      "umm_alloc (umm_last s) B' (umm_links_of m') = A(c := None, unat d \<mapsto> n1)"
      "same_data (umm_mem s) m' (A(c := None))"
      "keeps (umm_mem s) (8 * c + 4) m' (8 * unat d + 4) (8 * n0 - 4)" "n0 \<le> n1"
      "(A(c := None)) (unat d) = None"
      "\<And>b. n1 < blocks_needed sz \<Longrightarrow> free_run (umm_last s) (A(c := None)) b (blocks_needed sz) \<Longrightarrow>
        free_run (umm_last s) (umm_alloc (umm_last s) B' (umm_links_of m')) b (blocks_needed sz)"
      using realloc_join_spec [OF s(3,2) c', of "umm_blocks sz"] unfolding cu u A [symmetric] by metis
    let ?s1 = "?s0\<lparr>umm_mem := m'\<rparr>" and ?A1 = "A(c := None, unat d \<mapsto> n1)"
    let ?r = "umm_realloc_fit ?s1 d (8 * unat d + 4) (umm_blocks sz) sz (8 * n0 - 4)"
    have run: "do_umm_realloc s (UMM_DATA c) sz = ?r"
      using z s(1) bs False j(1) old(1)
      by (simp add: do_umm_realloc_def umm_ensure_init_def UMM_DATA_off cc_def [symmetric] cu Let_def)
    have R1: "umm_rep ?s1 ?A1" using s j(2,3) by (intro umm_repI [of _ B' fl']) auto
    have A1: "?A1(unat d := None) = A(c := None)" using j(7) by (simp add: fun_upd_idem)
    have tr: "same_data m' m'' (A(c := None)) \<Longrightarrow> same_data (umm_mem s) m'' (A(c := None))" for m''
      using same_data_trans [OF j(4)] by blast
    have k: "8 * n0 - 4 \<le> 8 * n1 - 4" using j(6) by simp
    show ?thesis
    proof (rule fit_spec [OF R1 _ sz k])
      show "?A1 (unat d) = Some n1" by simp
    next
      fix s' q assume f: "?r = Some (s', UMM_DATA q)" "(?A1(unat d := None)) q = None"
        "umm_rep s' (?A1(unat d := None, q \<mapsto> blocks_needed sz))"
        "same_data (umm_mem ?s1) (umm_mem s') (?A1(unat d := None))"
        "keeps (umm_mem ?s1) (8 * unat d + 4) (umm_mem s') (8 * q + 4) (min (8 * n0 - 4) (8 * blocks_needed sz - 4))"
        "umm_locks s' = umm_locks ?s1 - 1"
      have "keeps (umm_mem s) (8 * c + 4) (umm_mem s') (8 * q + 4) (min (8 * n0 - 4) (8 * blocks_needed sz - 4))"
        using j(5) f(5) by (simp add: keeps_def)
      then show ?thesis using ok [of s' q] f run tr unfolding A1 by simp
    next
      fix s' assume f: "?r = Some (s', NULL)" "umm_rep s' (?A1(unat d := None))"
        "same_data (umm_mem ?s1) (umm_mem s') (?A1(unat d := None))" "umm_locks s' = umm_locks ?s1 - 1"
        "n1 < blocks_needed sz" "\<And>b. \<not> free_run (umm_last ?s1) ?A1 b (blocks_needed sz)"
      note f = this
      have nr: "\<not> free_run (umm_last s) (A(c := None)) b (blocks_needed sz)" for b
        using j(8) [OF f(5), of b] f(6) [of b] unfolding j(3) by auto
      show ?thesis
        using full [of s'] f(1,4) f(2,3) [unfolded A1] run tr nr by simp
    qed
  qed
qed

end
