(* ===== verification/UmmClient.thy ===== *)
theory UmmClient
  imports UmmRealloc
begin

text \<open>
  The allocator as its clients use it: the interface \<open>heap_allocator\<close>, its interpretation by
  \<open>umm_malloc\<close> and \<open>umm_free\<close>, and \<open>umm_run\<close>, the executions of any client that frees
  and reallocates only what it holds and writes only inside it.
\<close>

section \<open>The interface of a heap\<close>

text \<open>
  \<open>rep s A\<close>: state \<open>s\<close> holds the allocations \<open>A\<close> (a unit number to a length in units);
  \<open>alloc\<close> is \<open>None\<close> when it does not return and yields no unit when it refuses; \<open>owns b n x\<close>:
  byte \<open>x\<close> is data of the allocation of \<open>n\<close> units at \<open>b\<close>.
\<close>

locale heap_allocator =
  fixes rep :: "'s \<Rightarrow> (nat \<rightharpoonup> nat) \<Rightarrow> bool"
    and limit :: "'s \<Rightarrow> nat"
    and okay :: "'q \<Rightarrow> bool"
    and need :: "'q \<Rightarrow> nat"
    and alloc :: "'s \<Rightarrow> 'q \<Rightarrow> ('s \<times> nat option) option"
    and release :: "'s \<Rightarrow> nat \<Rightarrow> 's"
    and content :: "'s \<Rightarrow> nat \<Rightarrow> 'b"
    and owns :: "nat \<Rightarrow> nat \<Rightarrow> nat \<Rightarrow> bool"
  assumes rep_separated: "rep s A \<Longrightarrow> separated (limit s) A"
    and alloc_returns: "rep s A \<Longrightarrow> okay q \<Longrightarrow> \<exists>r. alloc s q = Some r"
    and alloc_grant: "rep s A \<Longrightarrow> okay q \<Longrightarrow> alloc s q = Some (s', Some c) \<Longrightarrow>
      A c = None \<and> rep s' (A(c \<mapsto> need q)) \<and> limit s' = limit s \<and>
      (\<forall>b n x. A b = Some n \<longrightarrow> owns b n x \<longrightarrow> content s' x = content s x)"
    and alloc_refuse: "rep s A \<Longrightarrow> okay q \<Longrightarrow> alloc s q = Some (s', None) \<Longrightarrow>
      s' = s \<and> (\<forall>b. \<not> free_run (limit s) A b (need q))"
    and release_ok: "rep s A \<Longrightarrow> A c = Some n \<Longrightarrow>
      rep (release s c) (A(c := None)) \<and> limit (release s c) = limit s \<and>
      (\<forall>b n x. b \<noteq> c \<longrightarrow> A b = Some n \<longrightarrow> owns b n x \<longrightarrow> content (release s c) x = content s x)"
begin

text \<open>A new allocation keeps clear of all the others.\<close>

lemma alloc_apart:
  assumes "rep s A" "okay q" "alloc s q = Some (s', Some c)" "A b = Some n"
  shows "b + n \<le> c \<or> c + need q \<le> b"
  using alloc_grant [OF assms(1-3)] rep_separated [of s' "A(c \<mapsto> need q)"] assms(4)
    separatedD(1) [of "limit s'" "A(c \<mapsto> need q)" b n c "need q"] by (cases "b = c") auto

text \<open>Giving an allocation straight back restores the map and touches nothing in it.\<close>

lemma alloc_release:
  assumes "rep s A" "okay q" "alloc s q = Some (s', Some c)"
  shows "rep (release s' c) A"
    and "A b = Some n \<Longrightarrow> owns b n x \<Longrightarrow> content (release s' c) x = content s x"
proof -
  note g = alloc_grant [OF assms]
  have idem: "A(c \<mapsto> need q, c := None) = A" using g by (simp add: fun_upd_idem)
  note r = release_ok [of s' "A(c \<mapsto> need q)" c "need q"]
  show "rep (release s' c) A" using g r idem by simp
  show "A b = Some n \<Longrightarrow> owns b n x \<Longrightarrow> content (release s' c) x = content s x"
    using g r by (cases "b = c") auto
qed

end

section \<open>umm_malloc provides it\<close>

text \<open>A block is named by its number; \<open>umm_unit\<close> reads it off the pointer the allocator returns.\<close>

fun umm_unit :: "vptr \<Rightarrow> nat option" where
  "umm_unit NULL = None"
| "umm_unit (Ptr off) = Some (off div umm_block_size)"

definition umm_alloc_unit :: "umm_state \<Rightarrow> u32 \<Rightarrow> (umm_state \<times> nat option) option" where
  "umm_alloc_unit s sz = map_option (\<lambda>(s, p). (s, umm_unit p)) (do_umm_malloc s sz)"

definition umm_release_unit :: "umm_state \<Rightarrow> nat \<Rightarrow> umm_state" where
  "umm_release_unit s c = do_umm_free s (UMM_DATA c)"

lemma umm_unit_DATA [simp]: "umm_unit (UMM_DATA c) = Some c"
  by (simp add: UMM_DATA_off umm_block_size_def)

lemma umm_unit_None [simp]: "umm_unit p = None \<longleftrightarrow> p = NULL"
  by (cases p) auto

lemma same_dataD: "same_data m m' A \<Longrightarrow> A b = Some n \<Longrightarrow> data_byte b n x \<Longrightarrow> m' x = m x"
  by (simp add: same_data_def)

interpretation umm_heap: heap_allocator umm_rep umm_last umm_request_ok blocks_needed
  umm_alloc_unit umm_release_unit umm_mem data_byte
proof (unfold_locales, goal_cases)
  case (1 s A)
  then show ?case by (rule umm_rep_separated)
next
  case (2 s A q)
  then show ?case by (cases rule: do_malloc_spec) (auto simp: umm_alloc_unit_def)
next
  case (3 s A q s' c)
  from 3(1,2) show ?case
    using 3(3) by (cases rule: do_malloc_spec) (auto simp: umm_alloc_unit_def same_data_def)
next
  case (4 s A q s')
  from 4(1,2) show ?case
    using 4(3) by (cases rule: do_malloc_spec) (auto simp: umm_alloc_unit_def)
next
  case (5 s A c n)
  then show ?case
    using do_free_spec [OF 5]
    by (auto simp: umm_release_unit_def fun_upd_other intro!: same_dataD [of _ _ "A(c := None)"])
qed

section \<open>Executions of a client\<close>

text \<open>
  \<open>umm_run s A\<close>: some sequence of calls from the reset state leads to \<open>s\<close>, and \<open>A\<close> is
  the client's own ledger of what it holds, kept from the pointers the calls returned.  The
  client frees and reallocates only what is in the ledger and writes only to bytes it holds.
\<close>

definition umm_grant :: "(nat \<rightharpoonup> nat) \<Rightarrow> vptr \<Rightarrow> nat \<Rightarrow> (nat \<rightharpoonup> nat)" where
  "umm_grant A p n = (case umm_unit p of None \<Rightarrow> A | Some c \<Rightarrow> A(c \<mapsto> n))"

inductive umm_run :: "umm_state \<Rightarrow> (nat \<rightharpoonup> nat) \<Rightarrow> bool" where
  run_init: "24 \<le> umm_region s \<Longrightarrow> umm_region s < 262152 \<Longrightarrow> umm_locks s = 0 \<Longrightarrow> umm_run (umm_init s) Map.empty"
| run_malloc: "umm_run s A \<Longrightarrow> umm_request_ok sz \<Longrightarrow> umm_malloc s sz = Returns s' p \<Longrightarrow>
    umm_run s' (umm_grant A p (blocks_needed sz))"
| run_malloc_zero: "umm_run s A \<Longrightarrow> umm_malloc s 0 = Returns s' p \<Longrightarrow> umm_run s' A"
| run_calloc: "umm_run s A \<Longrightarrow> umm_request_ok (item_size * num) \<Longrightarrow> umm_calloc s num item_size = Returns s' p \<Longrightarrow>
    umm_run s' (umm_grant A p (blocks_needed (item_size * num)))"
| run_realloc: "umm_run s A \<Longrightarrow> A c = Some n \<Longrightarrow> umm_request_ok sz \<Longrightarrow>
    umm_realloc s (UMM_DATA c) sz = Returns s' p \<Longrightarrow> umm_run s' (umm_grant (A(c := None)) p (blocks_needed sz))"
| run_realloc_null: "umm_run s A \<Longrightarrow> umm_request_ok sz \<Longrightarrow> umm_realloc s NULL sz = Returns s' p \<Longrightarrow>
    umm_run s' (umm_grant A p (blocks_needed sz))"
| run_realloc_zero: "umm_run s A \<Longrightarrow> A c = Some n \<Longrightarrow> umm_realloc s (UMM_DATA c) 0 = Returns s' p \<Longrightarrow>
    umm_run s' (A(c := None))"
| run_free: "umm_run s A \<Longrightarrow> A c = Some n \<Longrightarrow> umm_run (umm_free s (UMM_DATA c)) (A(c := None))"
| run_free_null: "umm_run s A \<Longrightarrow> umm_run (umm_free s NULL) A"
| run_write: "umm_run s A \<Longrightarrow> A b = Some n \<Longrightarrow> data_byte b n x \<Longrightarrow>
    umm_run (s\<lparr>umm_mem := (umm_mem s)(x := v)\<rparr>) A"

lemma umm_grant_simps [simp]:
  "umm_grant A NULL n = A"
  "umm_grant A (UMM_DATA c) n = A(c \<mapsto> n)"
  by (simp_all add: umm_grant_def)

lemma umm_rep_ensure [simp]: "umm_rep s A \<Longrightarrow> umm_ensure_init s = s"
  by (auto elim!: umm_repE simp: umm_ensure_init_def)

lemma umm_malloc_zero: "umm_rep s A \<Longrightarrow> umm_malloc s 0 = Returns s NULL"
  by (simp add: umm_malloc_def do_umm_malloc_def umm_result_def Let_def)

lemma umm_realloc_null: "umm_rep s A \<Longrightarrow> umm_realloc s NULL sz = umm_malloc s sz"
  by (simp add: umm_realloc_def do_umm_realloc_def umm_malloc_def Let_def)

lemma umm_realloc_zero: "umm_rep s A \<Longrightarrow> umm_realloc s (Ptr off) 0 = Returns (umm_free s (Ptr off)) NULL"
  by (simp add: umm_realloc_def do_umm_realloc_def umm_result_def umm_free_def Let_def)

text \<open>One call, with the ledger: the facts the executions are proved from.\<close>

lemma umm_malloc_step:
  assumes "umm_rep s A" "umm_request_ok sz"
  obtains s' p where "umm_malloc s sz = Returns s' p" "umm_rep s' (umm_grant A p (blocks_needed sz))"
    "umm_locks s' = umm_locks s" "same_data (umm_mem s) (umm_mem s') A"
    "p = NULL \<Longrightarrow> s' = s \<and> (\<forall>b. \<not> free_run (umm_last s) A b (blocks_needed sz))"
    "\<And>off. p = Ptr off \<Longrightarrow> \<exists>c. off = 8 * c + 4 \<and> A c = None"
  using assms
proof (cases rule: do_malloc_spec)
  case (ok s' c)
  then show ?thesis
    using that [of s' "UMM_DATA c"]
    by (simp add: umm_malloc_def umm_result_def) (simp add: UMM_DATA_off)
next
  case full
  then show ?thesis
    using that [of s NULL] assms(1) by (simp add: umm_malloc_def umm_result_def same_data_def)
qed

lemma umm_realloc_step:
  assumes "umm_rep s A" "A c = Some n" "umm_request_ok sz"
  obtains s' p where "umm_realloc s (UMM_DATA c) sz = Returns s' p"
    "umm_rep s' (umm_grant (A(c := None)) p (blocks_needed sz))" "umm_locks s' = umm_locks s"
  using assms
proof (cases rule: do_realloc_spec)
  case (ok s' q)
  then show ?thesis using that [of s' "UMM_DATA q"] by (simp add: umm_realloc_def umm_result_def)
next
  case (full s')
  then show ?thesis using that [of s' NULL] by (simp add: umm_realloc_def umm_result_def)
qed

lemma umm_calloc_step:
  assumes R: "umm_rep s A" and sz: "umm_request_ok (item_size * num)"
  obtains (ok) s' c where "umm_calloc s num item_size = Returns s' (UMM_DATA c)" "A c = None"
      "umm_rep s' (A(c \<mapsto> blocks_needed (item_size * num)))" "umm_locks s' = umm_locks s"
      "same_data (umm_mem s) (umm_mem s') A"
      "\<forall>i<unat (item_size * num). umm_mem s' (8 * c + 4 + i) = 0"
  | (full) "umm_calloc s num item_size = Writes_null"
      "\<And>b. \<not> free_run (umm_last s) A b (blocks_needed (item_size * num))"
  using assms
proof (cases rule: do_malloc_spec)
  let ?sz = "item_size * num"
  case m: (ok s' c)
  let ?m = "memset (umm_mem s') (8 * c + 4) 0 (unat ?sz)"
  have own: "data_byte c (blocks_needed ?sz) x" if "8 * c + 4 \<le> x" "x < 8 * c + 4 + unat ?sz" for x
    using that blocks_needed_fits [of ?sz] by (simp add: data_byte_def)
  have "umm_rep (s'\<lparr>umm_mem := ?m\<rparr>) (A(c \<mapsto> blocks_needed ?sz))"
  proof (rule umm_rep_data_write [OF m(3)])
    fix x assume "\<And>b n. (A(c \<mapsto> blocks_needed ?sz)) b = Some n \<Longrightarrow> \<not> data_byte b n x"
    then show "?m x = umm_mem s' x" using own [of x] by (intro memset_outside) (metis fun_upd_same not_less)
  qed
  moreover have "same_data (umm_mem s) ?m A"
    unfolding same_data_def
  proof (intro allI impI)
    fix b n x assume b: "A b = Some n" "data_byte b n x"
    then have "b \<noteq> c" using m(2) by auto
    then have "\<not> data_byte c (blocks_needed ?sz) x"
      using b separatedD(1) [OF umm_rep_separated [OF m(3)], of b n c "blocks_needed ?sz"] m(2)
      by (auto simp: data_byte_def)
    then show "?m x = umm_mem s x"
      using own [of x] same_dataD [OF m(4) b] by (metis memset_outside not_less)
  qed
  ultimately show ?thesis
    using ok [of "s'\<lparr>umm_mem := ?m\<rparr>" c] m
    by (simp add: umm_calloc_def UMM_DATA_off memset_inside)
next
  case m: full
  have "item_size * num \<noteq> 0" using sz by (auto simp: umm_request_ok_def)
  then show ?thesis using full m by (simp add: umm_calloc_def)
qed

lemma umm_run_rep: "umm_run s A \<Longrightarrow> umm_rep s A \<and> umm_locks s = 0"
proof (induction rule: umm_run.induct)
  case (run_init s)
  then show ?case using umm_rep_init [of s] by (simp add: umm_init_def)
next
  case (run_malloc s A sz s' p)
  then obtain s1 p1 where "umm_malloc s sz = Returns s1 p1" "umm_rep s1 (umm_grant A p1 (blocks_needed sz))"
    "umm_locks s1 = 0"
    by (metis umm_malloc_step)
  then show ?case using run_malloc by simp
next
  case (run_malloc_zero s A s' p)
  then show ?case using umm_malloc_zero [of s A] by auto
next
  case (run_calloc s A item_size num s' p)
  then have "umm_rep s A" by simp
  then show ?case
    using run_calloc.hyps(2)
    by (cases rule: umm_calloc_step) (use run_calloc in \<open>simp_all del: fun_upd_apply\<close>)
next
  case (run_realloc s A c n sz s' p)
  then obtain s1 p1 where "umm_realloc s (UMM_DATA c) sz = Returns s1 p1"
    "umm_rep s1 (umm_grant (A(c := None)) p1 (blocks_needed sz))" "umm_locks s1 = 0"
    by (metis umm_realloc_step)
  then show ?case using run_realloc by simp
next
  case (run_realloc_null s A sz s' p)
  then obtain s1 p1 where "umm_malloc s sz = Returns s1 p1" "umm_rep s1 (umm_grant A p1 (blocks_needed sz))"
    "umm_locks s1 = 0"
    by (metis umm_malloc_step)
  then show ?case using run_realloc_null umm_realloc_null [of s A] by auto
next
  case (run_realloc_zero s A c n s' p)
  then have R: "umm_rep s A" by simp
  show ?case
    using do_free_spec [OF R run_realloc_zero.hyps(2)] umm_realloc_zero [OF R] run_realloc_zero
    by (simp add: UMM_DATA_off umm_free_def del: fun_upd_apply)
next
  case (run_free s A c n)
  then show ?case using do_free_spec [of s A c n] by (simp add: umm_free_def del: fun_upd_apply)
next
  case (run_free_null s A)
  then show ?case by (simp add: umm_free_def do_umm_free_def)
next
  case (run_write s A b n x v)
  have "umm_rep (s\<lparr>umm_mem := (umm_mem s)(x := v)\<rparr>) A"
    by (rule umm_rep_data_write) (use run_write in \<open>auto\<close>)
  then show ?case using run_write by simp
qed

end
