(* ===== verification/UmmSafety.thy ===== *)
theory UmmSafety
  imports UmmClient
begin

text \<open>
  What the allocator of umm_malloc.c guarantees to its clients, over all executions
  \<open>umm_run\<close>: memory safety, the contracts of the four entry points, coalescing, and what
  happens outside the request range in which the block count fits 16 bits.
\<close>

section \<open>The region\<close>

text \<open>No operation on a ready heap changes its extent.\<close>

definition same_heap :: "umm_state \<Rightarrow> umm_state \<Rightarrow> bool" where
  "same_heap s s' \<longleftrightarrow> umm_region s' = umm_region s \<and> umm_numblocks s' = umm_numblocks s \<and> umm_ready s' = umm_ready s"

named_theorems same_heap_intros

lemma same_heap_refl [simp, same_heap_intros]: "same_heap s s" by (simp add: same_heap_def)

lemma same_heap_trans: "same_heap s s' \<Longrightarrow> same_heap s' s'' \<Longrightarrow> same_heap s s''" by (simp add: same_heap_def)

lemma same_heap_upd [simp]:
  "same_heap s (s'\<lparr>umm_mem := m\<rparr>) = same_heap s s'"
  "same_heap (s\<lparr>umm_mem := m\<rparr>) s' = same_heap s s'"
  "same_heap s (umm_critical_entry s') = same_heap s s'"
  "same_heap s (umm_critical_exit s') = same_heap s s'"
  "same_heap (umm_critical_entry s) s' = same_heap s s'"
  by (simp_all add: same_heap_def umm_critical_entry_def umm_critical_exit_def)

lemma free_same_heap: "same_heap s (do_umm_free s p)"
  by (simp add: do_umm_free_def Let_def split: vptr.split)

lemma malloc_same_heap: "umm_ready s \<Longrightarrow> do_umm_malloc s sz = Some (s', p) \<Longrightarrow> same_heap s s'"
  by (auto simp: do_umm_malloc_def umm_ensure_init_def Let_def split: if_splits option.splits)

lemma realloc_fit_same_heap:
  assumes r: "umm_ready s" and f: "umm_realloc_fit s c off blocks sz k = Some (s', p)"
  shows "same_heap s s'"
proof (cases "UMM_NBLOCK (umm_mem s) (unat c) - c < blocks")
  case False
  then show ?thesis
    using f free_same_heap [of "s\<lparr>umm_mem := umm_make_new_block (umm_mem s) c blocks 0 0\<rparr>"]
    by (auto simp: umm_realloc_fit_def Let_def split: if_splits)
next
  case True
  then have nq: "UMM_NBLOCK (umm_mem s) (unat c) - c \<noteq> blocks" "\<not> blocks < UMM_NBLOCK (umm_mem s) (unat c) - c"
    by auto
  then obtain s1 q where m: "do_umm_malloc s sz = Some (s1, q)"
    using f by (auto simp: umm_realloc_fit_def Let_def split: option.splits)
  then have "\<exists>m. s' = umm_critical_exit (do_umm_free (s1\<lparr>umm_mem := m\<rparr>) (Ptr off))"
    using f nq by (cases q) (auto simp: umm_realloc_fit_def Let_def intro: exI [of _ "umm_mem s1"])
  then show ?thesis
    using same_heap_trans [OF malloc_same_heap [OF r m]] free_same_heap [of "s1\<lparr>umm_mem := m'\<rparr>" for m'] by auto
qed

lemma realloc_same_heap:
  assumes r: "umm_ready s" and f: "do_umm_realloc s p sz = Some (s', q)"
  shows "same_heap s s'"
proof (cases p)
  case NULL
  then show ?thesis using f malloc_same_heap [OF r, of sz] by (simp add: do_umm_realloc_def umm_ensure_init_def r)
next
  case (Ptr off)
  have fit: "umm_realloc_fit ((umm_critical_entry s)\<lparr>umm_mem := m\<rparr>) c off' blocks sz k = Some (s', q) \<Longrightarrow> same_heap s s'"
    for m c off' blocks k
    using realloc_fit_same_heap [of "(umm_critical_entry s)\<lparr>umm_mem := m\<rparr>"] r
    by (simp add: umm_critical_entry_def) (simp add: same_heap_def)
  show ?thesis
    using f r fit free_same_heap [of s p]
    by (auto simp: do_umm_realloc_def umm_ensure_init_def Ptr Let_def split: if_splits prod.splits)
qed

definition fits_region :: "umm_state \<Rightarrow> bool" where
  "fits_region s \<longleftrightarrow> 8 * (umm_last s + 1) \<le> umm_region s"

lemma same_heap_fits: "same_heap s s' \<Longrightarrow> fits_region s \<Longrightarrow> fits_region s'"
  by (simp add: same_heap_def fits_region_def umm_last_def)

lemma fits_init: "24 \<le> umm_region s \<Longrightarrow> umm_region s < 262152 \<Longrightarrow> fits_region (umm_init s)"
  by (simp add: fits_region_def umm_last_def umm_init_def umm_num_blocks_def umm_block_size_def)

lemma umm_result_Returns [simp]: "umm_result r = Returns s p \<longleftrightarrow> r = Some (s, p)"
  by (auto simp: umm_result_def split: option.splits)

lemma calloc_same_heap: "umm_ready s \<Longrightarrow> umm_calloc s num item_size = Returns s' p \<Longrightarrow> same_heap s s'"
  using malloc_same_heap [of s "item_size * num"]
  by (fastforce simp: umm_calloc_def Let_def split: option.splits vptr.splits if_splits)

lemma umm_run_ready: "umm_run s A \<Longrightarrow> umm_ready s"
  by (auto dest!: umm_run_rep elim!: umm_repE)

lemma umm_run_fits: "umm_run s A \<Longrightarrow> fits_region s"
proof (induction rule: umm_run.induct)
  case (run_init s)
  then show ?case by (simp add: fits_init)
next
  case (run_write s A b n x v)
  then show ?case using same_heap_fits [of s "s\<lparr>umm_mem := (umm_mem s)(x := v)\<rparr>"] by simp
next
  case (run_malloc s A sz s' p)
  then show ?case
    using same_heap_fits [OF malloc_same_heap [OF umm_run_ready]] by (auto simp: umm_malloc_def)
next
  case (run_malloc_zero s A s' p)
  then show ?case
    using same_heap_fits [OF malloc_same_heap [OF umm_run_ready]] by (auto simp: umm_malloc_def)
next
  case (run_calloc s A item_size num s' p)
  then show ?case using same_heap_fits [OF calloc_same_heap [OF umm_run_ready]] by blast
next
  case (run_realloc s A c n sz s' p)
  then show ?case using same_heap_fits [OF realloc_same_heap [OF umm_run_ready]] by (auto simp: umm_realloc_def)
next
  case (run_realloc_null s A sz s' p)
  then show ?case using same_heap_fits [OF realloc_same_heap [OF umm_run_ready]] by (auto simp: umm_realloc_def)
next
  case (run_realloc_zero s A c n s' p)
  then show ?case using same_heap_fits [OF realloc_same_heap [OF umm_run_ready]] by (auto simp: umm_realloc_def)
qed (auto simp: umm_free_def intro: same_heap_fits [OF free_same_heap])

section \<open>Safety of every execution\<close>


text \<open>A concrete execution for the witnesses: an 8-block heap and one 10-byte request.\<close>

definition umm_boot :: "umm_state" where
  "umm_boot = umm_init \<lparr>umm_mem = (\<lambda>_. 0), umm_numblocks = 0, umm_ready = False, umm_region = 64, umm_locks = 0\<rparr>"

lemma umm_boot_run: "umm_run umm_boot Map.empty"
  unfolding umm_boot_def by (rule run_init) simp_all

lemma umm_boot_last: "umm_last umm_boot = 7"
  by (simp add: umm_boot_def umm_last_def umm_init_def umm_num_blocks_def umm_block_size_def)

lemma umm_request_10: "umm_request_ok 10" "blocks_needed 10 = 2"
  by (simp_all add: umm_request_ok_def blocks_needed_def)

lemma free_run_empty: "n < L \<Longrightarrow> free_run L Map.empty 1 n"
  by (simp add: free_run_def)

lemma umm_boot_malloc: "\<exists>s' c. umm_malloc umm_boot 10 = Returns s' (UMM_DATA c)"
proof -
  have "umm_rep umm_boot Map.empty" using umm_run_rep [OF umm_boot_run] by simp
  then show ?thesis
    using umm_request_10(1)
  proof (cases rule: do_malloc_spec)
    case full
    then show ?thesis using free_run_empty [of 2 7] by (auto simp: umm_boot_last umm_request_10)
  qed (auto simp: umm_malloc_def)
qed

lemma umm_boot_held: "\<exists>s c. umm_run s [c \<mapsto> 2]"
proof -
  obtain s' c where m: "umm_malloc umm_boot 10 = Returns s' (UMM_DATA c)" using umm_boot_malloc by blast
  have "umm_run s' [c \<mapsto> 2]"
    using run_malloc [OF umm_boot_run umm_request_10(1) m] by (simp add: umm_request_10 del: fun_upd_apply)
  then show ?thesis by blast
qed


section \<open>The contracts of the entry points\<close>

lemma separated_free_run:
  assumes S: "separated L (A(c \<mapsto> n))" and c: "A c = None"
  shows "free_run L A c n"
  unfolding free_run_def
proof (intro conjI allI impI)
  have u: "(A(c \<mapsto> n)) c = Some n" by simp
  show "1 \<le> c" "c + n \<le> L" using separatedD(2) [OF S u] by auto
  fix b k assume b: "A b = Some k"
  then have "b \<noteq> c" using c by auto
  then show "c + n \<le> b \<or> b + k \<le> c" using separatedD(1) [OF S _ u, of b k] b by auto
qed

text \<open>
  C2. The contract of umm_malloc.  On every reachable heap a request of 1 to 524276 bytes
  returns (the scan of the free list ends).  It returns the null pointer and leaves the state
  unchanged exactly when no run of free blocks is long enough; otherwise it returns the data
  address of blocks that were free, large enough for the request, and no byte that the client
  already holds changes.
\<close>

theorem umm_malloc_contract:
  assumes "umm_run s A" "umm_request_ok sz"
  shows "\<exists>s' p. umm_malloc s sz = Returns s' p \<and>
    (p = NULL \<longleftrightarrow> (\<forall>b. \<not> free_run (umm_last s) A b (blocks_needed sz))) \<and> (p = NULL \<longrightarrow> s' = s) \<and>
    (\<forall>off. p = Ptr off \<longrightarrow> (\<exists>c. off = 8 * c + 4 \<and> A c = None \<and> free_run (umm_last s) A c (blocks_needed sz) \<and>
       unat sz \<le> 8 * blocks_needed sz - 4 \<and> umm_run s' (A(c \<mapsto> blocks_needed sz)) \<and>
       same_data (umm_mem s) (umm_mem s') A))"
proof -
  have R: "umm_rep s A" using umm_run_rep [OF assms(1)] by simp
  from R assms(2) show ?thesis
  proof (cases rule: do_malloc_spec)
    case (ok s' c)
    have m: "umm_malloc s sz = Returns s' (UMM_DATA c)" using ok by (simp add: umm_malloc_def)
    have "free_run (umm_last s) A c (blocks_needed sz)"
      using separated_free_run [OF umm_rep_separated [OF ok(3)] ok(2)] ok(6) by simp
    moreover have "umm_run s' (A(c \<mapsto> blocks_needed sz))"
      using run_malloc [OF assms m] by (simp del: fun_upd_apply)
    ultimately show ?thesis
      using m ok blocks_needed_fits [of sz] by (intro exI [of _ s'] exI [of _ "UMM_DATA c"]) (auto simp: UMM_DATA_off)
  next
    case full
    then show ?thesis by (simp add: umm_malloc_def)
  qed
qed

lemma umm_malloc_contract_witness:
  "\<exists>s' c. umm_malloc umm_boot 10 = Returns s' (Ptr (8 * c + 4)) \<and> umm_run s' [c \<mapsto> 2]"
proof -
  obtain s' p where m: "umm_malloc umm_boot 10 = Returns s' p"
    "p = NULL \<longleftrightarrow> (\<forall>b. \<not> free_run (umm_last umm_boot) Map.empty b (blocks_needed 10))"
    "\<forall>off. p = Ptr off \<longrightarrow> (\<exists>c. off = 8 * c + 4 \<and> umm_run s' [c \<mapsto> blocks_needed 10])"
    using umm_malloc_contract [OF umm_boot_run umm_request_10(1)] by blast
  then have "p \<noteq> NULL" using free_run_empty [of 2 7] by (auto simp: umm_boot_last umm_request_10)
  then show ?thesis using m(1,3) by (cases p) (auto simp: umm_request_10 simp del: fun_upd_apply)
qed

text \<open>
  C4. Freeing gives the memory back and coalesces.  Freeing a held allocation removes exactly it
  from the ledger and changes no byte of the others; and whatever the history, once the client
  holds nothing, one request for all the blocks of the heap but the first and the last is
  granted, so no free space stays fragmented.
\<close>

theorem umm_free_coalesces:
  assumes "umm_run s A" "A c = Some n"
  shows "umm_run (umm_free s (UMM_DATA c)) (A(c := None)) \<and>
    same_data (umm_mem s) (umm_mem (umm_free s (UMM_DATA c))) (A(c := None)) \<and>
    (A(c := None) = Map.empty \<longrightarrow> (\<forall>sz. umm_request_ok sz \<longrightarrow> blocks_needed sz < umm_last s \<longrightarrow>
       (\<exists>s' off. umm_malloc (umm_free s (UMM_DATA c)) sz = Returns s' (Ptr off))))"
proof (intro conjI impI allI)
  have R: "umm_rep s A" using umm_run_rep [OF assms(1)] by simp
  note f = do_free_spec [OF R assms(2)]
  show r: "umm_run (umm_free s (UMM_DATA c)) (A(c := None))" using run_free [OF assms] .
  show "same_data (umm_mem s) (umm_mem (umm_free s (UMM_DATA c))) (A(c := None))"
    using f by (simp add: umm_free_def)
  fix sz assume e: "A(c := None) = Map.empty" and sz: "umm_request_ok sz" "blocks_needed sz < umm_last s"
  have R': "umm_rep (umm_free s (UMM_DATA c)) Map.empty" using umm_run_rep [OF r] e by simp
  have l: "umm_last (umm_free s (UMM_DATA c)) = umm_last s" using f by (simp add: umm_free_def)
  from R' sz(1) show "\<exists>s' off. umm_malloc (umm_free s (UMM_DATA c)) sz = Returns s' (Ptr off)"
    using free_run_empty [OF sz(2)] l
    by (cases rule: do_malloc_spec) (auto simp: umm_malloc_def UMM_DATA_off)
qed

lemma umm_free_coalesces_witness:
  "\<exists>s c. umm_run s [c \<mapsto> 2] \<and> umm_run (umm_free s (UMM_DATA c)) ([c \<mapsto> 2](c := None))"
proof -
  obtain s c where r: "umm_run s [c \<mapsto> 2]" using umm_boot_held by blast
  have c: "[c \<mapsto> 2] c = Some 2" by simp
  show ?thesis using r umm_free_coalesces [OF r c] by blast
qed



text \<open>
  umm_calloc clears what it returns, and does not survive a full heap.  When a long enough
  run of free blocks exists it returns a fresh allocation whose requested bytes are all zero and
  leaves the client's other data alone; when none exists the code calls memset on the null
  pointer.
\<close>

theorem umm_calloc_contract:
  assumes "umm_run s A" "umm_request_ok (item_size * num)"
  shows "if \<exists>b. free_run (umm_last s) A b (blocks_needed (item_size * num))
    then \<exists>s' c. umm_calloc s num item_size = Returns s' (UMM_DATA c) \<and> A c = None \<and>
      umm_run s' (A(c \<mapsto> blocks_needed (item_size * num))) \<and> same_data (umm_mem s) (umm_mem s') A \<and>
      (\<forall>i < unat (item_size * num). umm_mem s' (8 * c + 4 + i) = 0)
    else umm_calloc s num item_size = Writes_null"
proof -
  have R: "umm_rep s A" using umm_run_rep [OF assms(1)] by simp
  from R assms(2) show ?thesis
  proof (cases rule: umm_calloc_step)
    case (ok s' c)
    have "umm_run s' (A(c \<mapsto> blocks_needed (item_size * num)))"
      using run_calloc [OF assms ok(1)] by (simp del: fun_upd_apply)
    moreover have "free_run (umm_last s) A c (blocks_needed (item_size * num))"
    proof -
      have "same_heap s s'" using calloc_same_heap [OF umm_run_ready [OF assms(1)] ok(1)] .
      then have l: "umm_last s' = umm_last s" by (simp add: same_heap_def umm_last_def)
      show ?thesis using separated_free_run [OF umm_rep_separated [OF ok(3), unfolded l] ok(2)] .
    qed
    ultimately show ?thesis using ok by auto
  next
    case full
    then show ?thesis by simp
  qed
qed

lemma umm_calloc_contract_witness:
  "\<exists>s' c. umm_calloc umm_boot 5 2 = Returns s' (UMM_DATA c) \<and> (\<forall>i<10. umm_mem s' (8 * c + 4 + i) = 0)"
proof -
  have p: "(2 * 5 :: u32) = 10" by simp
  have "\<exists>b. free_run (umm_last umm_boot) Map.empty b (blocks_needed (2 * 5))"
    using free_run_empty [of 2 7] unfolding p umm_boot_last umm_request_10(2) by auto
  note e = if_P [OF this]
  have "umm_request_ok (2 * 5)" unfolding p by (rule umm_request_10)
  from umm_calloc_contract [OF umm_boot_run this, unfolded e, unfolded p] show ?thesis by auto
qed

text \<open>
  malloc followed by free of the result is the identity for the client: its ledger is what
  it was and no byte it holds has changed, although the blocks and the free list may have been
  split and rejoined in between.
\<close>

theorem umm_malloc_free_identity:
  assumes "umm_run s A" "umm_request_ok sz" "umm_malloc s sz = Returns s' (Ptr off)"
  shows "umm_run (umm_free s' (Ptr off)) A \<and> same_data (umm_mem s) (umm_mem (umm_free s' (Ptr off))) A"
proof -
  have R: "umm_rep s A" using umm_run_rep [OF assms(1)] by simp
  obtain c where c: "off = 8 * c + 4" "A c = None" "umm_run s' (A(c \<mapsto> blocks_needed sz))"
    using umm_malloc_step [OF R assms(2)] run_malloc [OF assms] assms(3)
    by (metis UMM_DATA_off umm_grant_simps(2) umm_outcome.inject)
  have a: "umm_alloc_unit s sz = Some (s', Some c)"
    using assms(3) c(1) by (simp add: umm_malloc_def umm_alloc_unit_def umm_block_size_def)
  have f: "umm_release_unit s' c = umm_free s' (Ptr off)"
    by (simp add: umm_release_unit_def umm_free_def UMM_DATA_off c)
  have "A(c \<mapsto> blocks_needed sz, c := None) = A" using c(2) by (simp add: fun_upd_idem)
  then have "umm_run (umm_free s' (Ptr off)) A"
    using run_free [OF c(3), of c "blocks_needed sz"] by (simp add: UMM_DATA_off c del: fun_upd_apply) simp
  then show ?thesis using umm_heap.alloc_release(2) [OF R assms(2) a] f by (auto simp: same_data_def)
qed

lemma umm_malloc_free_identity_witness:
  "\<exists>s' off. umm_malloc umm_boot 10 = Returns s' (Ptr off) \<and> umm_run (umm_free s' (Ptr off)) Map.empty"
proof -
  obtain s' c where m: "umm_malloc umm_boot 10 = Returns s' (UMM_DATA c)" using umm_boot_malloc by blast
  then show ?thesis
    using umm_malloc_free_identity [OF umm_boot_run umm_request_10(1) m [unfolded UMM_DATA_off]]
    by (auto simp: UMM_DATA_off)
qed

section \<open>Requests beyond 16 bits of blocks\<close>

lemma umm_blocks_zero: "524277 \<le> sz \<Longrightarrow> sz \<le> 524284 \<Longrightarrow> umm_blocks sz = 0"
proof -
  assume sz: "524277 \<le> sz" "sz \<le> (524284 :: u32)"
  then have "unat (sz - 5) = unat sz - 5" by (simp add: unat_sub word_le_nat_alt)
  moreover have "(unat sz - 5) div 8 = 65534" using sz by (auto simp: word_le_nat_alt)
  ultimately have "unat (2 + (sz - 5) div 8) = 65536" by (simp add: unat_word_ariths unat_div)
  moreover have "\<not> sz \<le> 4" using sz(1) by (auto simp: word_le_nat_alt)
  ultimately show "umm_blocks sz = 0"
    by (simp add: umm_blocks_def umm_body_size_def umm_block_size_def word_unat_eq_iff unsigned_ucast_eq take_bit_eq_mod)
qed

text \<open>
  The block count is truncated to 16 bits.  On every reachable heap, however full, a request
  of 524277 to 524284 bytes is granted: umm_malloc returns a non-null pointer, although the
  region cannot hold that many bytes and the client owns no new block there.
\<close>

theorem umm_malloc_truncated_request:
  assumes "umm_run s A" "524277 \<le> sz" "sz \<le> 524284" "umm_region s < 262152"
  shows "\<exists>s' c. umm_malloc s sz = Returns s' (UMM_DATA c) \<and> umm_region s < unat sz"
proof -
  obtain B fl where s: "umm_last s < 32768" "umm_inv (umm_last s) B fl (umm_links_of (umm_mem s))"
    using umm_run_rep [OF assms(1)] by (auto elim!: umm_repE)
  obtain m' c where m: "umm_malloc_blocks (umm_mem s) 0 = Some (m', UMM_DATA c)"
    using malloc_zero_blocks [OF s(2,1)] by blast
  have z: "sz \<noteq> 0" using assms(2) by (auto simp: word_le_nat_alt)
  have "umm_malloc s sz = Returns (umm_critical_exit ((umm_critical_entry s)\<lparr>umm_mem := m'\<rparr>)) (UMM_DATA c)"
    using m z umm_blocks_zero [OF assms(2,3)] umm_run_ready [OF assms(1)]
    by (simp add: umm_malloc_def do_umm_malloc_def umm_ensure_init_def umm_critical_entry_def Let_def)
  moreover have "umm_region s < unat sz" using assms(2,4) by (simp add: word_le_nat_alt)
  ultimately show ?thesis by blast
qed

lemma umm_malloc_truncated_request_witness:
  "\<exists>s' c. umm_malloc umm_boot 524280 = Returns s' (UMM_DATA c) \<and> umm_region umm_boot = 64"
proof -
  have r: "umm_region umm_boot = 64" by (simp add: umm_boot_def umm_init_def)
  show ?thesis using umm_malloc_truncated_request [OF umm_boot_run, of 524280] by (simp add: r)
qed

end
