(* ===== verification/UmmInfo.thy ===== *)
theory UmmInfo
  imports UmmSafety
begin

text \<open>
  \<open>umm_info\<close> and \<open>umm_free_heap_size\<close> of umm_malloc.c: the walk over all blocks that fills
  \<open>ummHeapInfo\<close>, and its accounting against the allocations the heap holds.
\<close>

section \<open>The walk\<close>

record umm_heap_info =
  totalEntries :: u16
  usedEntries :: u16
  freeEntries :: u16
  totalBlocks :: u16
  usedBlocks :: u16
  freeBlocks :: u16
  maxFreeContiguousBlocks :: u16

definition umm_info_clear :: "umm_heap_info" where
  "umm_info_clear = \<lparr>totalEntries = 0, usedEntries = 0, freeEntries = 0, totalBlocks = 0,
     usedBlocks = 0, freeBlocks = 0, maxFreeContiguousBlocks = 0\<rparr>"

text \<open>\<open>curBlocks\<close> is a \<open>size_t\<close>; the counters are 16 bits wide and wrap.\<close>

definition umm_info_max :: "u32 \<Rightarrow> umm_heap_info \<Rightarrow> umm_heap_info" where
  "umm_info_max curBlocks i =
     (if ucast (maxFreeContiguousBlocks i) < curBlocks
      then i\<lparr>maxFreeContiguousBlocks := ucast curBlocks\<rparr> else i)"

definition umm_info_block :: "bool \<Rightarrow> u32 \<Rightarrow> umm_heap_info \<Rightarrow> umm_heap_info" where
  "umm_info_block free curBlocks i =
     (let i = i\<lparr>totalEntries := totalEntries i + 1, totalBlocks := totalBlocks i + ucast curBlocks\<rparr>
      in if free
         then umm_info_max curBlocks
                (i\<lparr>freeEntries := freeEntries i + 1, freeBlocks := freeBlocks i + ucast curBlocks\<rparr>)
         else i\<lparr>usedEntries := usedEntries i + 1, usedBlocks := usedBlocks i + ucast curBlocks\<rparr>)"

text \<open>The loop returns the block it stopped at; \<open>True\<close> when it met the free block at \<open>ptr\<close>.\<close>

partial_function (option) umm_info_loop ::
  "memory \<Rightarrow> vptr \<Rightarrow> u16 \<Rightarrow> umm_heap_info \<Rightarrow> (bool \<times> u16 \<times> umm_heap_info) option" where
  "umm_info_loop m ptr blockNo i =
     (let nb = UMM_NBLOCK m (unat blockNo) AND UMM_BLOCKNO_MASK
      in if nb = 0 then Some (False, blockNo, i)
         else let free = (UMM_NBLOCK m (unat blockNo) AND UMM_FREELIST_MASK \<noteq> 0);
                  i = umm_info_block free (ucast nb - ucast blockNo) i
              in if free \<and> ptr = Ptr (umm_block_size * unat blockNo) then Some (True, blockNo, i)
                 else umm_info_loop m ptr nb i)"

definition umm_info :: "umm_state \<Rightarrow> vptr \<Rightarrow> (umm_state \<times> umm_heap_info \<times> vptr) option" where
  "umm_info s ptr =
     (let s = umm_critical_entry (umm_ensure_init s)
      in case umm_info_loop (umm_mem s) ptr (UMM_NBLOCK (umm_mem s) 0 AND UMM_BLOCKNO_MASK) umm_info_clear of
           None \<Rightarrow> None
         | Some (found, blockNo, i) \<Rightarrow>
             if found then Some (umm_critical_exit s, i, ptr)
             else let curBlocks = ucast (umm_numblocks s) - ucast blockNo;
                      i = i\<lparr>freeBlocks := freeBlocks i + ucast curBlocks,
                           totalBlocks := totalBlocks i + ucast curBlocks\<rparr>
                  in Some (umm_critical_exit s, umm_info_max curBlocks i, NULL))"

definition umm_free_heap_size :: "umm_state \<Rightarrow> (umm_state \<times> u32) option" where
  "umm_free_heap_size s =
     (case umm_info s NULL of None \<Rightarrow> None
      | Some (s, i, _) \<Rightarrow> Some (s, ucast (freeBlocks i) * of_nat umm_block_size))"

section \<open>What the walk adds up\<close>

definition blocks_from :: "nat \<Rightarrow> nat set \<Rightarrow> nat \<Rightarrow> nat set" where
  "blocks_from L B b = {x \<in> B. b \<le> x \<and> x < L}"

lemma blocks_from_step:
  assumes "phys L B nb pb" "b \<in> B" "b < L"
  shows "blocks_from L B b = insert b (blocks_from L B (nb b))" and "b \<notin> blocks_from L B (nb b)"
  using phys_next [OF assms] assms(2,3) by (force simp: blocks_from_def)+

lemma blocks_from_finite [simp]: "finite (blocks_from L B b)"
  by (rule finite_subset [of _ "{..<L}"]) (auto simp: blocks_from_def)

lemma blocks_from_last [simp]: "blocks_from L B L = {}"
  by (auto simp: blocks_from_def)

lemma blocks_induct [consumes 2, case_names last step]:
  assumes P: "phys L B nb pb" and "b \<in> B"
    and "Q L" "\<And>b. b \<in> B \<Longrightarrow> b < L \<Longrightarrow> Q (nb b) \<Longrightarrow> Q b"
  shows "Q b"
  using assms(2)
proof (induction "L - b" arbitrary: b rule: less_induct)
  case less
  show ?case
  proof (cases "b < L")
    case True
    note n = phys_next [OF P less.prems True]
    have "Q (nb b)" using n True by (intro less.hyps) auto
    then show ?thesis using assms(4) less.prems True by blast
  next
    case False
    then have "b = L" using phys_bounds [OF P less.prems] by simp
    then show ?thesis using assms(3) by simp
  qed
qed

lemma blocks_total:
  assumes P: "phys L B nb pb" and "b \<in> B"
  shows "(\<Sum>x\<in>blocks_from L B b. nb x - x) = L - b"
  using assms
proof (induction rule: blocks_induct)
  case (step b)
  then show ?case
    using blocks_from_step [OF P step(1,2)] phys_next(1,3) [OF P step(1,2)] by simp
qed simp

text \<open>The counters after the walk, in terms of the blocks walked over.\<close>

definition info_of :: "nat set \<Rightarrow> nat set \<Rightarrow> (nat \<Rightarrow> nat) \<Rightarrow> umm_heap_info \<Rightarrow> umm_heap_info \<Rightarrow> bool" where
  "info_of U F len i j \<longleftrightarrow>
     totalEntries j = totalEntries i + of_nat (card U + card F) \<and>
     usedEntries j = usedEntries i + of_nat (card U) \<and> freeEntries j = freeEntries i + of_nat (card F) \<and>
     totalBlocks j = totalBlocks i + of_nat (sum len U + sum len F) \<and>
     usedBlocks j = usedBlocks i + of_nat (sum len U) \<and> freeBlocks j = freeBlocks i + of_nat (sum len F) \<and>
     (\<forall>k. k \<le> unat (maxFreeContiguousBlocks j) \<longleftrightarrow> k \<le> unat (maxFreeContiguousBlocks i) \<or> (\<exists>x\<in>F. k \<le> len x))"

lemma info_of_empty: "info_of {} {} len i i"
  by (simp add: info_of_def)

lemma umm_info_max_le:
  assumes "unat cur < 65536"
  shows "k \<le> unat (maxFreeContiguousBlocks (umm_info_max cur i)) \<longleftrightarrow>
         k \<le> unat (maxFreeContiguousBlocks i) \<or> k \<le> unat cur"
proof -
  have "unat (ucast cur :: u16) = unat cur" using assms by (simp add: unsigned_ucast_eq take_bit_nat_eq_self)
  moreover have "unat (ucast (maxFreeContiguousBlocks i) :: u32) = unat (maxFreeContiguousBlocks i)"
    by (rule unat_ucast_u16)
  ultimately show ?thesis by (auto simp: umm_info_max_def word_less_nat_alt)
qed

lemma umm_info_max_sel [simp]:
  "totalEntries (umm_info_max c i) = totalEntries i" "usedEntries (umm_info_max c i) = usedEntries i"
  "freeEntries (umm_info_max c i) = freeEntries i" "totalBlocks (umm_info_max c i) = totalBlocks i"
  "usedBlocks (umm_info_max c i) = usedBlocks i" "freeBlocks (umm_info_max c i) = freeBlocks i"
  by (simp_all add: umm_info_max_def)

lemma umm_info_block_of:
  assumes j: "info_of U F len (umm_info_block free cur i) j" and c: "unat cur = len b" "len b < 65536"
    and b: "finite U" "finite F" "b \<notin> U" "b \<notin> F"
  shows "info_of (if free then U else insert b U) (if free then insert b F else F) len i j"
proof -
  have w: "(ucast cur :: u16) = of_nat (len b)" unfolding c(1) [symmetric] by simp
  note m = umm_info_max_le [of cur, unfolded c(1), OF c(2)]
  show ?thesis
    using j b m unfolding info_of_def umm_info_block_def Let_def
    by (auto simp: w algebra_simps)
qed

lemma umm_info_loop_spec:
  assumes I: "umm_inv L B fl (umm_links_of m)" and L: "L < 32768" and b: "b \<in> B" "unat w = b"
  shows "\<exists>j. umm_info_loop m NULL w i = Some (False, of_nat L, j) \<and>
    info_of {x \<in> blocks_from L B b. \<not> vfr (umm_links_of m) x} {x \<in> blocks_from L B b. vfr (umm_links_of m) x}
      (\<lambda>x. vnb (umm_links_of m) x - x) i j"
  using umm_inv_phys [OF I] b
proof (induction arbitrary: w i rule: blocks_induct)
  case last
  have "UMM_NBLOCK m L AND UMM_BLOCKNO_MASK = 0"
    using phys_ends [OF umm_inv_phys [OF I]] by (simp add: links_sel unat_eq_0)
  moreover have "w = of_nat L" unfolding last [symmetric] by simp
  ultimately show ?case using last by (simp add: umm_info_loop.simps Let_def info_of_empty)
next
  case (step b)
  let ?h = "umm_links_of m" and ?len = "\<lambda>x. vnb (umm_links_of m) x - x"
  let ?U = "\<lambda>b. {x \<in> blocks_from L B b. \<not> vfr ?h x}" and ?F = "\<lambda>b. {x \<in> blocks_from L B b. vfr ?h x}"
  note n = phys_next [OF umm_inv_phys [OF I] step(1,2)]
  define nb where "nb = UMM_NBLOCK m (unat w) AND UMM_BLOCKNO_MASK"
  have nb: "unat nb = vnb ?h b" "nb \<noteq> 0" using step(4) n(1) by (auto simp: nb_def links_sel)
  let ?c = "ucast nb - ucast w :: u32" and ?i = "umm_info_block (vfr ?h b) (ucast nb - ucast w) i"
  have c: "unat ?c = ?len b" "?len b < 65536"
    using nb(1) step(4) n(1,3) L by (auto simp: unat_sub word_le_nat_alt unsigned_ucast_eq take_bit_nat_eq_self)
  obtain j where j: "umm_info_loop m NULL nb ?i = Some (False, of_nat L, j)" "info_of (?U (vnb ?h b)) (?F (vnb ?h b)) ?len ?i j"
    using step(3) [OF nb(1), of ?i] by blast
  have "umm_info_loop m NULL w i = Some (False, of_nat L, j)"
    using j(1) nb(2) step(4) by (subst umm_info_loop.simps) (simp add: Let_def nb_def links_sel)
  moreover have "info_of (?U b) (?F b) ?len i j"
  proof -
    note s = blocks_from_step [OF umm_inv_phys [OF I] step(1,2)]
    have "?U b = (if vfr ?h b then ?U (vnb ?h b) else insert b (?U (vnb ?h b)))"
      "?F b = (if vfr ?h b then insert b (?F (vnb ?h b)) else ?F (vnb ?h b))"
      using s(1) by auto
    then show ?thesis using umm_info_block_of [OF j(2) c] s(2) by simp
  qed
  ultimately show ?case by blast
qed

text \<open>A run of free blocks exists exactly when one free block is that long.\<close>

lemma free_run_iff:
  assumes I: "umm_inv L B fl h" and k: "0 < k"
  shows "(\<exists>b. free_run L (umm_alloc L B h) b k) \<longleftrightarrow> (\<exists>x\<in>set fl. k \<le> vnb h x - x)"
proof
  assume "\<exists>b. free_run L (umm_alloc L B h) b k"
  then obtain b c where "c \<in> set fl" "c \<le> b" "b + k \<le> vnb h c" using free_run_block [OF I _ k] by metis
  then show "\<exists>x\<in>set fl. k \<le> vnb h x - x" by (intro bexI [of _ c]) auto
next
  assume "\<exists>x\<in>set fl. k \<le> vnb h x - x"
  then obtain x where x: "x \<in> set fl" "k \<le> vnb h x - x" by blast
  then have B: "x \<in> B" "vfr h x" "0 < x" "x < L"
    using umm_inv_free(1) [OF I] umm_inv_free_bounds [OF I] by blast+
  note P = umm_inv_phys [OF I]
  note nx = phys_next [OF P B(1,4)]
  have "x + k \<le> b \<or> b + n \<le> x" if "umm_alloc L B h b = Some n" for b n
  proof -
    have b: "b \<in> B" "b < L" "b \<noteq> x" "n = vnb h b - b" using that B(2) by (auto simp: umm_alloc_Some)
    show ?thesis
      using nx(1) nx(5) [OF b(1)] phys_next(1) [OF P b(1,2)] phys_next(5) [OF P b(1,2) B(1)] b(3,4) x(2) by auto
  qed
  then show "\<exists>b. free_run L (umm_alloc L B h) b k"
    using B nx(3) x(2) k by (intro exI [of _ x]) (auto simp: free_run_def)
qed

text \<open>The allocations are the used blocks of the walk from block 1.\<close>

lemma walk_sums:
  assumes I: "umm_inv L B fl h" and A: "A = umm_alloc L B h"
  defines "len \<equiv> \<lambda>x. vnb h x - x" and "F \<equiv> {x \<in> blocks_from L B 1. vfr h x}"
  shows "1 \<in> B" "0 < L" "{x \<in> blocks_from L B 1. \<not> vfr h x} = dom A" "sum len (dom A) = (\<Sum>c\<in>dom A. the (A c))"
    "sum len F = L - 1 - (\<Sum>c\<in>dom A. the (A c))" "(\<Sum>c\<in>dom A. the (A c)) \<le> L - 1" "card (dom A) \<le> L"
    "\<And>k. 2 \<le> k \<Longrightarrow> (\<exists>b. free_run L A b k) \<longleftrightarrow> (\<exists>x\<in>F. k \<le> len x)"
proof -
  note P = umm_inv_phys [OF I]
  show B1: "1 \<in> B" "0 < L" using umm_inv_free(7) [OF I] phys_ends [OF P] phys_next(2) [OF P, of 0] by auto
  show U: "{x \<in> blocks_from L B 1. \<not> vfr h x} = dom A" using A by (auto simp: dom_def umm_alloc_Some blocks_from_def)
  show u: "sum len (dom A) = (\<Sum>c\<in>dom A. the (A c))"
    unfolding len_def by (rule sum.cong) (use A in \<open>auto simp: umm_alloc_def split: if_splits\<close>)
  have "sum len {x \<in> blocks_from L B 1. \<not> vfr h x} + sum len F = sum len (blocks_from L B 1)"
    unfolding F_def by (subst sum.union_disjoint [symmetric]) (auto intro: sum.cong)
  then show "sum len F = L - 1 - (\<Sum>c\<in>dom A. the (A c))" "(\<Sum>c\<in>dom A. the (A c)) \<le> L - 1"
    using blocks_total [OF P B1(1)] u unfolding U by (auto simp: len_def)
  show "card (dom A) \<le> L" unfolding U [symmetric]
    by (rule order_trans [OF card_mono [of "{..<L}"]]) (auto simp: blocks_from_def)
  show "(\<exists>b. free_run L A b k) \<longleftrightarrow> (\<exists>x\<in>F. k \<le> len x)" if "2 \<le> k" for k
    using free_run_iff [OF I, of k] that A umm_inv_free(1) [OF I] umm_inv_free_bounds [OF I]
    by (fastforce simp: blocks_from_def F_def len_def)
qed

section \<open>The accounting is exact up to the closing block\<close>

text \<open>
  C5. The accounting of umm_info against the allocations.  On every reachable heap the walk ends;
  it counts exactly the allocations held and their blocks, and total = used + free blocks, where
  the total is every block but block 0.  A run of k >= 2 free blocks exists iff k does not
  exceed the reported maximum.  umm_free_heap_size is 8 times the blocks not held, the closing
  block of the heap, which can never be allocated, included.
\<close>

theorem umm_info_accounting:
  assumes "umm_run s A"
  shows "\<exists>i. umm_info s NULL = Some (s, i, NULL) \<and>
    unat (usedEntries i) = card (dom A) \<and> unat (usedBlocks i) = (\<Sum>c\<in>dom A. the (A c)) \<and>
    unat (totalBlocks i) = umm_last s \<and> unat (freeBlocks i) = umm_last s - (\<Sum>c\<in>dom A. the (A c)) \<and>
    (\<forall>k\<ge>2. (\<exists>b. free_run (umm_last s) A b k) \<longleftrightarrow> k \<le> unat (maxFreeContiguousBlocks i)) \<and>
    umm_free_heap_size s = Some (s, of_nat (8 * (umm_last s - (\<Sum>c\<in>dom A. the (A c)))))"
proof -
  let ?L = "umm_last s" and ?m = "umm_mem s"
  let ?h = "umm_links_of ?m" and ?u = "\<Sum>c\<in>dom A. the (A c)"
  let ?len = "\<lambda>x. vnb ?h x - x"
  obtain B fl where R: "umm_ready s" "?L < 32768" "umm_inv ?L B fl ?h" "A = umm_alloc ?L B ?h"
    using umm_run_rep [OF assms] by (auto elim!: umm_repE)
  note W = walk_sums [OF R(3,4)]
  let ?F = "{x \<in> blocks_from ?L B 1. vfr ?h x}"
  let ?w = "UMM_NBLOCK ?m 0 AND UMM_BLOCKNO_MASK"
  have "unat ?w = 1" using umm_inv_free(7) [OF R(3)] by (simp add: links_sel)
  then obtain j where j: "umm_info_loop ?m NULL ?w umm_info_clear = Some (False, of_nat ?L, j)" "info_of (dom A) ?F ?len umm_info_clear j"
    using umm_info_loop_spec [OF R(3,2) W(1)] unfolding W(3) by blast
  have nb: "unat (umm_numblocks s) = ?L + 1" using W(2) by (simp add: umm_last_def)
  let ?c = "ucast (umm_numblocks s) - ucast (of_nat ?L :: u16) :: u32"
  have c: "?c = 1" using nb R(2) by (intro word_unat_eq_iff [THEN iffD2]) (simp add: unat_sub word_le_nat_alt)
  let ?j = "j\<lparr>freeBlocks := freeBlocks j + 1, totalBlocks := totalBlocks j + 1\<rparr>"
  define i where "i = umm_info_max 1 ?j"
  have run: "umm_info s NULL = Some (s, i, NULL)"
    using j(1) R(1) c by (simp add: umm_info_def umm_ensure_init_def i_def Let_def)
  have e: "?L - ?u = Suc (?L - 1 - ?u)" "?L = Suc (?L - 1)" using W(2,6) by auto
  have all: "sum ?len (dom A) + sum ?len ?F = ?L - 1" unfolding W(4,5) by (rule le_add_diff_inverse [OF W(6)])
  have fj: "freeBlocks j = of_nat (?L - 1 - ?u)" "totalBlocks j = of_nat (?L - 1)"
    using j(2) [unfolded info_of_def all] unfolding W(5) by (simp_all add: umm_info_clear_def)
  have f: "freeBlocks i = of_nat (?L - ?u)" "totalBlocks i = of_nat ?L"
    by (subst e(1), simp add: i_def fj) (subst e(2), simp add: i_def fj)
  have used: "usedEntries i = of_nat (card (dom A))" "usedBlocks i = of_nat ?u"
    using j(2) unfolding info_of_def W(4) by (simp_all add: i_def umm_info_clear_def)
  have max: "k \<le> unat (maxFreeContiguousBlocks i) \<longleftrightarrow> (\<exists>x\<in>?F. k \<le> ?len x)" if "2 \<le> k" for k
    using j(2) that umm_info_max_le [of 1 k ?j] by (simp add: i_def info_of_def umm_info_clear_def)
  have "?L - ?u < 65536" "?L < 65536" "?u < 65536" "card (dom A) < 65536" using R(2) W(6,7) by auto
  moreover have "umm_free_heap_size s = Some (s, of_nat (8 * (?L - ?u)))"
    using run f R(2) by (simp add: umm_free_heap_size_def umm_block_size_def unsigned_of_nat take_bit_nat_eq_self)
  ultimately show ?thesis
    using run f used max W(8) by (intro exI [of _ i]) (simp del: of_nat_sum)
qed

lemma umm_info_accounting_witness:
  "\<exists>s c i. umm_run s [c \<mapsto> 2] \<and> umm_info s NULL = Some (s, i, NULL) \<and>
    unat (usedBlocks i) = 2 \<and> unat (usedEntries i) = 1"
proof -
  obtain s c where r: "umm_run s [c \<mapsto> 2]" using umm_boot_held by blast
  from umm_info_accounting [OF r] show ?thesis using r by auto
qed

end
