(* ===== verification/UmmChecks.thy ===== *)
theory UmmChecks
  imports UmmInfo
begin

text \<open>
  The checks of umm_malloc.c that the debug configurations compile in: the integrity check
  (\<open>UMM_INTEGRITY_CHECK\<close>) and poisoning (\<open>UMM_POISON\<close>).  A failed check calls \<open>panic\<close>;
  the model stops with the verdict \<open>False\<close> at that point.  The diagnostics printed are left out.
\<close>

section \<open>Integrity check\<close>

text \<open>
  The first loop marks \<open>prev\<close> of every block on the free list, the second compares the marks
  with the free marks, removes them and follows the block chain.
\<close>

partial_function (option) integrity_free_loop :: "u16 \<Rightarrow> memory \<Rightarrow> u16 \<Rightarrow> (memory \<times> bool) option" where
  "integrity_free_loop n m prev =
     (let cur = UMM_NFREE m (unat prev)
      in if n \<le> cur then Some (m, False)
         else if cur = 0 then Some (m, True)
         else if UMM_PFREE m (unat cur) \<noteq> prev then Some (m, False)
         else integrity_free_loop n (SET_PBLOCK m (unat cur) (UMM_PBLOCK m (unat cur) OR UMM_FREELIST_MASK)) cur)"

partial_function (option) integrity_block_loop :: "u16 \<Rightarrow> memory \<Rightarrow> u16 \<Rightarrow> (memory \<times> bool) option" where
  "integrity_block_loop n m prev =
     (let cur = UMM_NBLOCK m (unat prev) AND UMM_BLOCKNO_MASK
      in if n \<le> cur then Some (m, False)
         else if cur = 0 then Some (m, True)
         else if UMM_NBLOCK m (unat cur) AND UMM_FREELIST_MASK \<noteq> UMM_PBLOCK m (unat cur) AND UMM_FREELIST_MASK
         then Some (m, False)
         else let m = SET_PBLOCK m (unat cur) (UMM_PBLOCK m (unat cur) AND UMM_BLOCKNO_MASK)
              in if UMM_PBLOCK m (unat cur) \<noteq> prev then Some (m, False)
                 else integrity_block_loop n m cur)"

definition integrity_check :: "umm_state \<Rightarrow> (umm_state \<times> bool) option" where
  "integrity_check s =
     (let s = umm_ensure_init s
      in case integrity_free_loop (umm_numblocks s) (umm_mem s) 0 of
           None \<Rightarrow> None
         | Some (m, ok) \<Rightarrow>
             if \<not> ok then Some (s\<lparr>umm_mem := m\<rparr>, False)
             else (case integrity_block_loop (umm_numblocks s) m 0 of
                     None \<Rightarrow> None
                   | Some (m, ok) \<Rightarrow> Some (s\<lparr>umm_mem := m\<rparr>, ok)))"

section \<open>Poisoning\<close>

definition POISON_BYTE :: u8 where "POISON_BYTE = 0xa5"
definition UMM_POISON_SIZE_BEFORE :: nat where "UMM_POISON_SIZE_BEFORE = 4"
definition UMM_POISON_SIZE_AFTER :: nat where "UMM_POISON_SIZE_AFTER = 4"
definition poison_len_size :: nat where "poison_len_size = 4"

definition POISON_SIZE :: "u32 \<Rightarrow> u32" where
  "POISON_SIZE sz = (if sz \<noteq> 0 then of_nat (UMM_POISON_SIZE_BEFORE + UMM_POISON_SIZE_AFTER + poison_len_size) else 0)"

definition put_poison :: "memory \<Rightarrow> nat \<Rightarrow> nat \<Rightarrow> memory" where
  "put_poison m p poison_size = memset m p POISON_BYTE poison_size"

fun check_poison :: "memory \<Rightarrow> nat \<Rightarrow> nat \<Rightarrow> bool" where
  "check_poison m p 0 = True"
| "check_poison m p (Suc n) = (if m p \<noteq> POISON_BYTE then False else check_poison m (p + 1) n)"

definition check_poison_block :: "memory \<Rightarrow> nat \<Rightarrow> bool" where
  "check_poison_block m b =
     (if UMM_NBLOCK m b AND UMM_FREELIST_MASK \<noteq> 0 then True
      else let pc = umm_block_size * b + umm_header_size
           in if \<not> check_poison m (pc + poison_len_size) UMM_POISON_SIZE_BEFORE then False
              else check_poison m (pc + unat (load32 m pc) - UMM_POISON_SIZE_AFTER) UMM_POISON_SIZE_AFTER)"

partial_function (option) check_poison_loop :: "memory \<Rightarrow> u16 \<Rightarrow> bool option" where
  "check_poison_loop m blockNo =
     (if UMM_NBLOCK m (unat blockNo) AND UMM_BLOCKNO_MASK = 0 then Some True
      else if UMM_NBLOCK m (unat blockNo) AND UMM_FREELIST_MASK = 0 \<and> \<not> check_poison_block m (unat blockNo)
      then Some False
      else check_poison_loop m (UMM_NBLOCK m (unat blockNo) AND UMM_BLOCKNO_MASK))"

definition check_poison_all_blocks :: "umm_state \<Rightarrow> (umm_state \<times> bool) option" where
  "check_poison_all_blocks s =
     (let s = umm_ensure_init s
      in map_option (\<lambda>ok. (s, ok)) (check_poison_loop (umm_mem s) (UMM_NBLOCK (umm_mem s) 0 AND UMM_BLOCKNO_MASK)))"

definition get_poisoned :: "memory \<Rightarrow> vptr \<Rightarrow> u32 \<Rightarrow> memory \<times> vptr" where
  "get_poisoned m ptr size_w_poison =
     (case ptr of
        NULL \<Rightarrow> (m, ptr)
      | Ptr p \<Rightarrow>
          if size_w_poison = 0 then (m, ptr)
          else let m = store32 m p size_w_poison;
                   m = put_poison m (p + poison_len_size) UMM_POISON_SIZE_BEFORE;
                   m = put_poison m (p + unat size_w_poison - UMM_POISON_SIZE_AFTER) UMM_POISON_SIZE_AFTER
               in (m, Ptr (p + poison_len_size + UMM_POISON_SIZE_BEFORE)))"

text \<open>\<open>None\<close>: the check of the block failed and \<open>panic\<close> was called.\<close>

definition get_unpoisoned :: "memory \<Rightarrow> vptr \<Rightarrow> vptr option" where
  "get_unpoisoned m ptr =
     (case ptr of
        NULL \<Rightarrow> Some NULL
      | Ptr p \<Rightarrow>
          let p = p - (poison_len_size + UMM_POISON_SIZE_BEFORE)
          in if check_poison_block m (unat (umm_block_of p)) then Some (Ptr p) else None)"

lemmas poison_sizes = UMM_POISON_SIZE_BEFORE_def UMM_POISON_SIZE_AFTER_def poison_len_size_def
  umm_block_size_def umm_header_size_def

section \<open>Marks on the previous links\<close>

definition prev_mark :: u8 where "prev_mark = 0x80"

lemma bit_prev_mark: "bit prev_mark n \<longleftrightarrow> n = 7"
proof -
  have eq: "prev_mark = push_bit 7 1" by (simp add: prev_mark_def)
  show ?thesis unfolding eq bit_push_bit_iff bit_1_iff by auto
qed

definition mark_prev :: "memory \<Rightarrow> nat set \<Rightarrow> memory" where
  "mark_prev m S = (\<lambda>x. if x mod 8 = 3 \<and> x div 8 \<in> S then m x OR prev_mark else m x)"

lemma mark_low: "ucast (load16 m a OR UMM_FREELIST_MASK) = m a"
  by (rule bit_word_eqI) (auto simp: load16_def bit_simps bit_freelist_mask)

lemma mark_high: "ucast (drop_bit 8 (load16 m a OR UMM_FREELIST_MASK)) = m (Suc a) OR prev_mark"
  by (rule bit_word_eqI) (auto simp: load16_def bit_simps bit_freelist_mask bit_prev_mark dest: bit_imp_le_length)

lemma unmark_low: "ucast (load16 m a AND UMM_BLOCKNO_MASK) = m a"
  by (rule bit_word_eqI) (auto simp: load16_def bit_simps bit_blockno_mask)

lemma unmark_high: "ucast (drop_bit 8 (load16 m a AND UMM_BLOCKNO_MASK)) = m (Suc a) AND NOT prev_mark"
  by (rule bit_word_eqI) (auto simp: load16_def bit_simps bit_blockno_mask bit_prev_mark dest: bit_imp_le_length)

lemma unmarked_high:
  assumes "UMM_PBLOCK m c AND UMM_FREELIST_MASK = 0"
  shows "m (8 * c + 3) AND NOT prev_mark = m (8 * c + 3)"
proof -
  have h: "ucast (drop_bit 8 (load16 m a)) = m (Suc a)" for a
    by (rule bit_word_eqI) (auto simp: load16_def bit_simps dest: bit_imp_le_length)
  have "load16 m (8 * c + 2) AND UMM_BLOCKNO_MASK = load16 m (8 * c + 2)"
    using unmarked_blockno [OF assms] by (simp add: umm_get_def umm_block_size_def)
  from unmark_high [of m "8 * c + 2", unfolded this h] show ?thesis by (simp add: numeral_3_eq_3)
qed

lemma load16_mark:
  "load16 m a OR UMM_FREELIST_MASK = ucast (m a) OR push_bit 8 (ucast (m (Suc a) OR prev_mark))"
  by (rule bit_word_eqI) (auto simp: load16_def bit_simps bit_freelist_mask bit_prev_mark)

lemma mark_prev_off:
  assumes "x \<noteq> 8 * c + 3"
  shows "mark_prev m (insert c S) x = mark_prev m S x" and "mark_prev m (S - {c}) x = mark_prev m S x"
proof -
  have "x mod 8 = 3 \<Longrightarrow> x div 8 = c \<Longrightarrow> x = 8 * c + 3" using mult_div_mod_eq [of 8 x] by simp
  then have "x mod 8 = 3 \<Longrightarrow> x div 8 \<noteq> c" using assms by blast
  then show "mark_prev m (insert c S) x = mark_prev m S x" and "mark_prev m (S - {c}) x = mark_prev m S x"
    by (auto simp: mark_prev_def)
qed

lemma set_prev_mark:
  "SET_PBLOCK m c (UMM_PBLOCK m c OR UMM_FREELIST_MASK) = m(8 * c + 3 := m (8 * c + 3) OR prev_mark)"
  "SET_PBLOCK m c (UMM_PBLOCK m c AND UMM_BLOCKNO_MASK) = m(8 * c + 3 := m (8 * c + 3) AND NOT prev_mark)"
  unfolding umm_put_def umm_get_def umm_block_size_def umm_field_offset.simps store16_def
    mark_low mark_high unmark_low unmark_high
  by (simp_all add: fun_upd_idem eval_nat_numeral)

lemma mark_prev_add: "mark_prev m (insert c S) = (mark_prev m S)(8 * c + 3 := mark_prev m S (8 * c + 3) OR prev_mark)"
proof
  fix x
  show "mark_prev m (insert c S) x = ((mark_prev m S)(8 * c + 3 := mark_prev m S (8 * c + 3) OR prev_mark)) x"
  proof (cases "x = 8 * c + 3")
    case True
    show ?thesis unfolding True by (simp add: mark_prev_def or.assoc)
  next
    case False
    then show ?thesis by (simp add: mark_prev_off)
  qed
qed

lemma mark_prev_del:
  assumes "m (8 * c + 3) AND NOT prev_mark = m (8 * c + 3)"
  shows "mark_prev m (S - {c}) = (mark_prev m S)(8 * c + 3 := mark_prev m S (8 * c + 3) AND NOT prev_mark)"
proof
  have k: "(w OR prev_mark) AND NOT prev_mark = w AND NOT prev_mark" for w
    by (rule bit_word_eqI) (auto simp: bit_simps)
  fix x
  show "mark_prev m (S - {c}) x = ((mark_prev m S)(8 * c + 3 := mark_prev m S (8 * c + 3) AND NOT prev_mark)) x"
  proof (cases "x = 8 * c + 3")
    case True
    show ?thesis unfolding True using assms by (simp add: mark_prev_def k)
  next
    case False
    then show ?thesis by (simp add: mark_prev_off)
  qed
qed

lemma mark_prev_none: "mark_prev m {} = m"
  by (simp add: mark_prev_def)

text \<open>The marks are in the previous links and nowhere else.\<close>

lemma mark_prev_get:
  "UMM_NBLOCK (mark_prev m S) b = UMM_NBLOCK m b"
  "UMM_NFREE (mark_prev m S) b = UMM_NFREE m b"
  "UMM_PFREE (mark_prev m S) b = UMM_PFREE m b"
  "UMM_PBLOCK (mark_prev m S) b AND UMM_BLOCKNO_MASK = UMM_PBLOCK m b AND UMM_BLOCKNO_MASK"
  "UMM_PBLOCK m b AND UMM_FREELIST_MASK = 0 \<Longrightarrow>
    UMM_PBLOCK (mark_prev m S) b AND UMM_FREELIST_MASK = (if b \<in> S then UMM_FREELIST_MASK else 0)"
  "b \<notin> S \<Longrightarrow> UMM_PBLOCK (mark_prev m S) b = UMM_PBLOCK m b"
proof -
  have n: "mark_prev m S (8 * b + k) = m (8 * b + k)" if "k < 8" "k \<noteq> 3" for k
    using that by (simp add: mark_prev_def)
  have l: "load16 (mark_prev m S) (8 * b + k) = load16 m (8 * b + k)" if "k < 7" "k \<noteq> 2" "k \<noteq> 3" for k
    using n [of k] n [of "Suc k"] that by (intro load16_cong) auto
  show "UMM_NBLOCK (mark_prev m S) b = UMM_NBLOCK m b" "UMM_NFREE (mark_prev m S) b = UMM_NFREE m b"
    "UMM_PFREE (mark_prev m S) b = UMM_PFREE m b"
    using l [of 0] l [of 4] l [of 6] by (simp_all add: umm_get_def umm_block_size_def)
  have h: "mark_prev m S (8 * b + 3) = (if b \<in> S then m (8 * b + 3) OR prev_mark else m (8 * b + 3))"
    by (simp add: mark_prev_def)
  have p: "UMM_PBLOCK (mark_prev m S) b = (if b \<in> S then UMM_PBLOCK m b OR UMM_FREELIST_MASK else UMM_PBLOCK m b)"
    using n [of 2] h [unfolded numeral_3_eq_3] load16_mark [of m "8 * b + 2"]
    by (simp add: umm_get_def umm_block_size_def) (simp add: load16_def)
  show "UMM_PBLOCK (mark_prev m S) b AND UMM_BLOCKNO_MASK = UMM_PBLOCK m b AND UMM_BLOCKNO_MASK"
    by (simp add: p mem_laws)
  show "UMM_PBLOCK (mark_prev m S) b AND UMM_FREELIST_MASK = (if b \<in> S then UMM_FREELIST_MASK else 0)"
    if "UMM_PBLOCK m b AND UMM_FREELIST_MASK = 0"
    using that by (simp add: p bit.conj_disj_distrib2)
  show "UMM_PBLOCK (mark_prev m S) b = UMM_PBLOCK m b" if "b \<notin> S"
    using that by (simp add: p)
qed

section \<open>The integrity check accepts every well-formed heap\<close>

lemma free_loop_marks:
  assumes I: "umm_inv L B fl (umm_links_of m)" and L: "L < 32768" "unat n = L + 1"
    and "fl = xs @ ys" "unat prev = last (0 # xs)"
  shows "integrity_free_loop n (mark_prev m (set xs)) prev = Some (mark_prev m (set fl), True)"
  using assms(4,5)
proof (induction ys arbitrary: xs prev)
  case Nil
  have "UMM_NFREE m (unat prev) = 0"
    using umm_inv_free(4) [OF I] Nil by (auto simp: dll_def links_sel unat_eq_0)
  moreover have "\<not> n \<le> 0" using L(2) by (auto simp: word_le_nat_alt)
  ultimately show ?case using Nil(1) by (simp add: integrity_free_loop.simps mark_prev_get)
next
  case (Cons y ys)
  note d = umm_inv_free(4) [OF I, unfolded Cons.prems(1) dll_append]
  define cur where "cur = UMM_NFREE m (unat prev)"
  have cur: "unat cur = y" "unat (UMM_PFREE m y) = unat prev"
    using d Cons.prems(2) by (auto simp: cur_def links_sel)
  have y: "y \<in> set fl" "y \<in> B" "vfr (umm_links_of m) y" using Cons.prems(1) umm_inv_free(1) [OF I, of y] by auto
  have b: "0 < y" "y < L" using umm_inv_free_bounds [OF I y(2,3)] .
  have "integrity_free_loop n (mark_prev m (set (xs @ [y]))) cur = Some (mark_prev m (set fl), True)"
    using Cons.prems cur by (intro Cons.IH) auto
  moreover have "\<not> n \<le> cur" "cur \<noteq> 0" using cur b L(2) by (auto simp: word_le_nat_alt)
  moreover have "UMM_PFREE m (unat cur) = prev" using cur by (simp add: word_unat_eq_iff)
  ultimately show ?case
    unfolding cur_def
    by (subst integrity_free_loop.simps)
       (simp add: mark_prev_get Let_def set_prev_mark mark_prev_add [symmetric] cur [unfolded cur_def])
qed

lemma marked_eq: "w AND UMM_FREELIST_MASK = (if w AND UMM_FREELIST_MASK \<noteq> 0 then UMM_FREELIST_MASK else 0)"
  using marked_bit [of w] by (auto intro!: bit_word_eqI simp: bit_and_iff bit_freelist_mask)

lemma block_loop_unmarks:
  assumes I: "umm_inv L B fl (umm_links_of m)" and L: "L < 32768" "unat n = L + 1"
    and b: "b \<in> B" "unat prev = b"
  shows "integrity_block_loop n (mark_prev m {x \<in> set fl. b < x}) prev = Some (m, True)"
  using umm_inv_phys [OF I] b
proof (induction arbitrary: prev rule: blocks_induct)
  case last
  have "UMM_NBLOCK m L AND UMM_BLOCKNO_MASK = 0"
    using phys_ends [OF umm_inv_phys [OF I]] by (simp add: links_sel unat_eq_0)
  moreover have "{x \<in> set fl. L < x} = {}"
    using umm_inv_free(1) [OF I] phys_bounds [OF umm_inv_phys [OF I]] by force
  moreover have "\<not> n \<le> 0" using L(2) by (auto simp: word_le_nat_alt)
  ultimately show ?case
    unfolding \<open>{x \<in> set fl. L < x} = {}\<close> using last by (simp add: integrity_block_loop.simps mark_prev_none)
next
  case (step b)
  let ?h = "umm_links_of m" and ?S = "{x \<in> set fl. b < x}"
  note nx = phys_next [OF umm_inv_phys [OF I] step(1,2)]
  define cur where "cur = UMM_NBLOCK m (unat prev) AND UMM_BLOCKNO_MASK"
  have cur: "unat cur = vnb ?h b" "\<not> n \<le> cur" "cur \<noteq> 0"
    using step(4) nx(1,3) L(2) by (auto simp: cur_def links_sel word_le_nat_alt)
  have pb: "unat (UMM_PBLOCK m (unat cur)) = b" using nx(4) cur(1) by (simp add: links_sel)
  then have pm: "UMM_PBLOCK m (unat cur) AND UMM_FREELIST_MASK = 0"
    using small_block(1) [of b] step(2) L(1) by (metis word_unat_eq_iff unat_of_nat_u16 order_less_trans unat_u16_bound)
  have mem: "unat cur \<in> ?S \<longleftrightarrow> vfr ?h (unat cur)"
    using umm_inv_free(1) [OF I] nx(1,2) cur(1) by auto
  have marks: "UMM_NBLOCK m (unat cur) AND UMM_FREELIST_MASK = UMM_PBLOCK (mark_prev m ?S) (unat cur) AND UMM_FREELIST_MASK"
    unfolding mark_prev_get(5) [OF pm] mem using marked_eq [of "UMM_NBLOCK m (unat cur)"] by (simp add: links_sel)
  have S: "?S - {unat cur} = {x \<in> set fl. vnb ?h b < x}"
    using nx(1,5) umm_inv_free(1) [OF I] cur(1) by force
  have un: "SET_PBLOCK (mark_prev m ?S) (unat cur) (UMM_PBLOCK (mark_prev m ?S) (unat cur) AND UMM_BLOCKNO_MASK) =
      mark_prev m {x \<in> set fl. vnb ?h b < x}"
    unfolding set_prev_mark mark_prev_del [of m "unat cur", OF unmarked_high [OF pm], symmetric] S ..
  have "UMM_PBLOCK (mark_prev m {x \<in> set fl. vnb ?h b < x}) (unat cur) = prev"
    using pb step(4) cur(1) by (simp add: mark_prev_get word_unat_eq_iff)
  then show ?case
    using cur(2,3) marks step(3) [OF cur(1)] unfolding cur_def
    by (subst integrity_block_loop.simps) (simp add: mark_prev_get(1) Let_def un [unfolded cur_def])
qed

text \<open>
  C6. The integrity check has no false alarms and no side effect.  On every heap a client can
  reach both loops end, the verdict is 1, and every mark the first loop sets is removed by the
  second: the heap is bit for bit what it was.
\<close>

theorem integrity_check_passes:
  assumes "umm_run s A"
  shows "integrity_check s = Some (s, True)"
proof -
  obtain B fl where R: "umm_last s < 32768" "umm_inv (umm_last s) B fl (umm_links_of (umm_mem s))"
    using umm_run_rep [OF assms] by (auto elim!: umm_repE)
  note r = umm_run_ready [OF assms]
  have B0: "0 \<in> B" "0 < umm_last s" using phys_ends [OF umm_inv_phys [OF R(2)]] by auto
  then have n: "unat (umm_numblocks s) = umm_last s + 1" by (simp add: umm_last_def)
  have "set fl = {x \<in> set fl. 0 < x}" using umm_inv_free(3) [OF R(2)] by (metis (mono_tags, lifting) Collect_cong Collect_mem_eq gr0I)
  then have "integrity_free_loop (umm_numblocks s) (umm_mem s) 0 = Some (mark_prev (umm_mem s) {x \<in> set fl. 0 < x}, True)"
    using free_loop_marks [OF R(2,1) n, of "[]" fl 0] by (simp add: mark_prev_none)
  moreover have "integrity_block_loop (umm_numblocks s) (mark_prev (umm_mem s) {x \<in> set fl. 0 < x}) 0 = Some (umm_mem s, True)"
    using block_loop_unmarks [OF R(2,1) n B0(1), of 0] by simp
  ultimately show ?thesis using r by (simp add: integrity_check_def umm_ensure_init_def)
qed

lemma integrity_check_passes_witness: "integrity_check umm_boot = Some (umm_boot, True)"
  by (rule integrity_check_passes [OF umm_boot_run])

section \<open>Guard bytes catch every overrun\<close>

lemma check_poison_iff: "check_poison m p n \<longleftrightarrow> (\<forall>i<n. m (p + i) = POISON_BYTE)"
proof (induction n arbitrary: p)
  case (Suc n)
  show ?case using Suc [of "p + 1"] by (auto simp: All_less_Suc2)
qed simp

lemma load32_cong:
  assumes "\<And>i. i < 4 \<Longrightarrow> m (a + i) = m' (a + i)"
  shows "load32 m a = load32 m' a"
  using assms [of 0] assms [of 1] assms [of 2] assms [of 3]
    load16_cong [of m a m'] load16_cong [of m "a + 2" m']
  by (simp add: load32_def numeral_3_eq_3)

text \<open>
  C7. Poisoning notices every one-byte overrun.  After a used block c has been poisoned for a
  request of sz bytes, a byte v written anywhere from 4 bytes before the user's data to 4 bytes
  after its end makes the block's check fail exactly when it hits a guard byte and changes it;
  no write inside the user's sz bytes does.
\<close>

theorem poison_detects_overrun:
  assumes "UMM_NBLOCK m c AND UMM_FREELIST_MASK = 0" "get_poisoned m (UMM_DATA c) (sz + POISON_SIZE sz) = (m', Ptr p)"
    and "0 < sz" "unat sz + 12 < 2 ^ 32" "p \<le> x + 4" "x < p + unat sz + 4"
  shows "check_poison_block (m'(x := v)) c \<longleftrightarrow> (p \<le> x \<and> x < p + unat sz) \<or> v = POISON_BYTE"
proof -
  let ?t = "unat sz + 12"
  have t: "unat (sz + POISON_SIZE sz) = ?t" "sz + POISON_SIZE sz \<noteq> 0"
  proof -
    show "unat (sz + POISON_SIZE sz) = ?t"
      using assms(3,4) by (simp add: POISON_SIZE_def poison_sizes unat_word_ariths)
    then show "sz + POISON_SIZE sz \<noteq> 0" by auto
  qed
  have p: "p = 8 * c + 12" and m': "m' = put_poison (put_poison (store32 m (8 * c + 4) (sz + POISON_SIZE sz)) (8 * c + 8) 4) (8 * c + ?t) 4"
    using assms(2) t by (auto simp: get_poisoned_def UMM_DATA_off poison_sizes Let_def ac_simps)
  let ?s = "store32 m (8 * c + 4) (sz + POISON_SIZE sz)" and ?m = "m'(x := v)"
  have low: "?m y = ?s y" if "y < 8 * c + 8" for y
    using that assms(5) unfolding m' p by (simp add: put_poison_def memset_def)
  have "load32 ?m (8 * c + 4) = load32 ?s (8 * c + 4)" by (rule load32_cong) (rule low, simp)
  then have len: "unat (load32 ?m (8 * c + 4)) = ?t" by (simp add: t)
  have "UMM_NBLOCK ?m c = UMM_NBLOCK ?s c"
    unfolding umm_get_def umm_block_size_def by (rule load16_cong) (rule low, simp)+
  also have "UMM_NBLOCK ?s c = UMM_NBLOCK m c"
    unfolding umm_get_def umm_block_size_def by (rule load16_cong) (simp_all add: store32_def store16_def)
  finally have nb: "UMM_NBLOCK ?m c AND UMM_FREELIST_MASK = 0" using assms(1) by simp
  have before: "(\<forall>i<4. ?m (8 * c + 8 + i) = POISON_BYTE) \<longleftrightarrow> v = POISON_BYTE \<or> \<not> (8 * c + 8 \<le> x \<and> x < 8 * c + 12)"
  proof -
    have "?m (8 * c + 8 + i) = (if x = 8 * c + 8 + i then v else POISON_BYTE)" if "i < 4" for i
      using that unfolding m' by (auto simp: put_poison_def memset_def)
    then show ?thesis using le_Suc_ex [of "8 * c + 8" x] by (auto split: if_splits)
  qed
  have after: "(\<forall>i<4. ?m (8 * c + ?t + i) = POISON_BYTE) \<longleftrightarrow> v = POISON_BYTE \<or> \<not> (8 * c + ?t \<le> x \<and> x < 8 * c + ?t + 4)"
  proof -
    have "?m (8 * c + ?t + i) = (if x = 8 * c + ?t + i then v else POISON_BYTE)" if "i < 4" for i
      using that unfolding m' by (auto simp: put_poison_def memset_def)
    then show ?thesis using le_Suc_ex [of "8 * c + ?t" x] by (auto split: if_splits)
  qed
  have "check_poison_block ?m c \<longleftrightarrow> check_poison ?m (8 * c + 8) 4 \<and> check_poison ?m (8 * c + ?t) 4"
    using nb len unfolding check_poison_block_def Let_def poison_sizes by (simp add: algebra_simps)
  then show ?thesis
    using before after assms(3,5,6) p unfolding check_poison_iff by (auto simp: word_less_nat_alt)
qed

lemma poison_detects_overrun_witness:
  "check_poison_block ((fst (get_poisoned (\<lambda>_. 0) (UMM_DATA 1) 17))(26 := 1)) 1 = False"
proof -
  have g: "get_poisoned (\<lambda>_. 0) (UMM_DATA 1) (5 + POISON_SIZE 5) = (fst (get_poisoned (\<lambda>_. 0) (UMM_DATA 1) 17), Ptr 20)"
    by (simp add: get_poisoned_def UMM_DATA_off POISON_SIZE_def poison_sizes Let_def)
  have n: "UMM_NBLOCK (\<lambda>_. 0) 1 AND UMM_FREELIST_MASK = 0" by (simp add: umm_get_def load16_def)
  show ?thesis using poison_detects_overrun [OF n g, of 26 1] by (simp add: POISON_BYTE_def)
qed

end
