(* ===== verification/Base64.thy ===== *)
theory Base64
  imports Prelude
begin

text \<open>
  The streaming base64 codec of cores/esp8266/libb64 (cencode.c, cdecode.c).  C leaves the
  signedness of \<open>char\<close> to the compiler, and the decoder depends on it: the model takes it as the
  argument \<open>cs\<close> (char is signed).  The Xtensa compiler of this core makes \<open>char\<close> unsigned (\<open>cs = False\<close>), the
  hosts libb64 was written on make it signed.
\<close>

section \<open>Encoder\<close>

datatype base64_encodestep = step_A | step_B | step_C

record base64_encodestate =
  enc_step :: base64_encodestep
  enc_result :: u8
  enc_stepcount :: nat

definition CHARS_PER_LINE :: nat where "CHARS_PER_LINE = 72"

definition base64_init_encodestate :: "base64_encodestate" where
  "base64_init_encodestate = \<lparr>enc_step = step_A, enc_result = 0, enc_stepcount = 0\<rparr>"

definition base64_encoding :: "u8 list" where
  "base64_encoding = map of_char ''ABCDEFGHIJKLMNOPQRSTUVWXYZabcdefghijklmnopqrstuvwxyz0123456789+/''"

definition base64_encode_value :: "u8 \<Rightarrow> u8" where
  "base64_encode_value v = (if 63 < v then 0x3D else base64_encoding ! unat v)"

text \<open>
  One pass over the input.  Each input character takes the machine through one step; the case
  of the step is the entry point of the \<open>switch\<close>, the end of the input the early return that
  saves the state.  The characters written to \<open>code_out\<close> are returned as a list.
\<close>

fun base64_encode_block :: "u8 list \<Rightarrow> base64_encodestate \<Rightarrow> u8 list \<times> base64_encodestate" where
  "base64_encode_block [] st = ([], st)"
| "base64_encode_block (fragment # rest) st =
     (case enc_step st of
        step_A \<Rightarrow>
          let result = drop_bit 2 (fragment AND 0xfc);
              out = [base64_encode_value result];
              result = push_bit 4 (fragment AND 0x03);
              (code, st) = base64_encode_block rest (st\<lparr>enc_step := step_B, enc_result := result\<rparr>)
          in (out @ code, st)
      | step_B \<Rightarrow>
          let result = enc_result st OR drop_bit 4 (fragment AND 0xf0);
              out = [base64_encode_value result];
              result = push_bit 2 (fragment AND 0x0f);
              (code, st) = base64_encode_block rest (st\<lparr>enc_step := step_C, enc_result := result\<rparr>)
          in (out @ code, st)
      | step_C \<Rightarrow>
          let result = enc_result st OR drop_bit 6 (fragment AND 0xc0);
              out = [base64_encode_value result];
              result = fragment AND 0x3f;
              out = out @ [base64_encode_value result];
              count = enc_stepcount st + 1;
              out = (if count = CHARS_PER_LINE div 4 then out @ [0x0A] else out);
              count = (if count = CHARS_PER_LINE div 4 then 0 else count);
              (code, st) = base64_encode_block rest
                 (st\<lparr>enc_step := step_A, enc_result := result, enc_stepcount := count\<rparr>)
          in (out @ code, st))"

text \<open>\<open>blockend\<close> also writes a terminating zero, which its return value does not count.\<close>

definition base64_encode_blockend :: "base64_encodestate \<Rightarrow> u8 list" where
  "base64_encode_blockend st =
     (case enc_step st of
        step_B \<Rightarrow> [base64_encode_value (enc_result st), 0x3D, 0x3D]
      | step_C \<Rightarrow> [base64_encode_value (enc_result st), 0x3D]
      | step_A \<Rightarrow> [])"

definition base64_encode_chars :: "u8 list \<Rightarrow> u8 list" where
  "base64_encode_chars plaintext =
     (let (code, st) = base64_encode_block plaintext base64_init_encodestate
      in code @ base64_encode_blockend st)"

section \<open>Decoder\<close>

datatype base64_decodestep = step_a | step_b | step_c | step_d

record base64_decodestate =
  dec_step :: base64_decodestep
  dec_plainchar :: u8

definition base64_decoding :: "u8 list" where
  "base64_decoding = [62,-1,-1,-1,63,52,53,54,55,56,57,58,59,60,61,-1,-1,-1,-2,-1,-1,-1,
     0,1,2,3,4,5,6,7,8,9,10,11,12,13,14,15,16,17,18,19,20,21,22,23,24,25,-1,-1,-1,-1,-1,-1,
     26,27,28,29,30,31,32,33,34,35,36,37,38,39,40,41,42,43,44,45,46,47,48,49,50,51]"

definition char_val :: "bool \<Rightarrow> u8 \<Rightarrow> int" where
  "char_val cs c = (if cs then sint c else uint c)"

text \<open>\<open>None\<close>: the read of \<open>decoding\<close> at \<open>decoding_size\<close>, one past its end, which the bound check lets through.\<close>

definition base64_decode_value :: "bool \<Rightarrow> u8 \<Rightarrow> int option" where
  "base64_decode_value cs value_in =
     (let v = char_val cs (value_in - 43)
      in if v < 0 \<or> v > int (length base64_decoding) then Some (- 1)
         else if nat v < length base64_decoding then Some (char_val cs (base64_decoding ! nat v))
         else None)"

definition base64_init_decodestate :: "base64_decodestate" where
  "base64_init_decodestate = \<lparr>dec_step = step_a, dec_plainchar = 0\<rparr>"

text \<open>
  \<open>base64_decode_loop cs codes step m p\<close>: the loop from \<open>step\<close>, with \<open>plainchar\<close> at address
  \<open>p\<close> of the output memory.  A fragment that is negative as a \<open>char\<close> is skipped.
\<close>

definition decode_store :: "base64_decodestep \<Rightarrow> u8 \<Rightarrow> memory \<Rightarrow> nat \<Rightarrow> base64_decodestep \<times> memory \<times> nat" where
  "decode_store step fragment m p =
     (case step of
        step_a \<Rightarrow> (step_b, m(p := push_bit 2 (fragment AND 0x3f)), p)
      | step_b \<Rightarrow> (step_c, m(p := m p OR drop_bit 4 (fragment AND 0x30), p + 1 := push_bit 4 (fragment AND 0x0f)), p + 1)
      | step_c \<Rightarrow> (step_d, m(p := m p OR drop_bit 2 (fragment AND 0x3c), p + 1 := push_bit 6 (fragment AND 0x03)), p + 1)
      | step_d \<Rightarrow> (step_a, m(p := m p OR (fragment AND 0x3f)), p + 1))"

fun base64_decode_loop ::
  "bool \<Rightarrow> u8 list \<Rightarrow> base64_decodestep \<Rightarrow> memory \<Rightarrow> nat \<Rightarrow> (base64_decodestep \<times> memory \<times> nat) option" where
  "base64_decode_loop cs [] step m p = Some (step, m, p)"
| "base64_decode_loop cs (c # codes) step m p =
     (case base64_decode_value cs c of
        None \<Rightarrow> None
      | Some v \<Rightarrow>
          let fragment = word_of_int v
          in if char_val cs fragment < 0 then base64_decode_loop cs codes step m p
             else let (step, m, p) = decode_store step fragment m p
                  in base64_decode_loop cs codes step m p)"

definition base64_decode_block ::
  "bool \<Rightarrow> u8 list \<Rightarrow> memory \<Rightarrow> nat \<Rightarrow> base64_decodestate \<Rightarrow> (nat \<times> memory \<times> base64_decodestate) option" where
  "base64_decode_block cs code m out st =
     (case base64_decode_loop cs code (dec_step st) (m(out := dec_plainchar st)) out of
        None \<Rightarrow> None
      | Some (step, m, p) \<Rightarrow> Some (p - out, m, \<lparr>dec_step = step, dec_plainchar = m p\<rparr>))"

definition base64_decode_chars :: "bool \<Rightarrow> u8 list \<Rightarrow> memory \<Rightarrow> nat \<Rightarrow> (nat \<times> memory) option" where
  "base64_decode_chars cs code m out =
     (case base64_decode_block cs code m out base64_init_decodestate of
        None \<Rightarrow> None
      | Some (len, m, st) \<Rightarrow> Some (len, if 0 < len then m(out + len := 0) else m))"

section \<open>Streaming\<close>

text \<open>
  The encoder is a stream transducer.  Feeding a text in two calls, with the state the
  first one saved, writes exactly the characters of one call on the whole text and ends in the
  same state, wherever the text is cut.
\<close>

theorem encode_block_streams:
  "base64_encode_block (xs @ ys) st =
     (let (a, st1) = base64_encode_block xs st; (b, st2) = base64_encode_block ys st1 in (a @ b, st2))"
  by (induction xs arbitrary: st) (auto simp: Let_def split: prod.split base64_encodestep.split)

lemma decode_loop_append:
  "base64_decode_loop cs (xs @ ys) step m p =
     (case base64_decode_loop cs xs step m p of None \<Rightarrow> None
      | Some (step, m, p) \<Rightarrow> base64_decode_loop cs ys step m p)"
  by (induction xs arbitrary: step m p) (auto simp: Let_def split: option.split prod.split)

section \<open>Round trip\<close>

text \<open>The four six-bit groups of three bytes, and the bytes back from the groups.\<close>

lemma groups_bound:
  fixes a b c :: u8
  shows "drop_bit 2 (a AND 0xfc) \<le> 63"
    and "push_bit 4 (a AND 0x03) OR drop_bit 4 (b AND 0xf0) \<le> 63"
    and "push_bit 2 (b AND 0x0f) OR drop_bit 6 (c AND 0xc0) \<le> 63"
    and "c AND 0x3f \<le> 63"
proof -
  have le: "v AND 0x3f = v \<Longrightarrow> v \<le> 63" for v :: u8 by (metis word_and_le1)
  show "drop_bit 2 (a AND 0xfc) \<le> 63" by (rule le) (rule u8_eqI; simp add: bit_simps)
  show "push_bit 4 (a AND 0x03) OR drop_bit 4 (b AND 0xf0) \<le> 63" by (rule le) (rule u8_eqI; simp add: bit_simps)
  show "push_bit 2 (b AND 0x0f) OR drop_bit 6 (c AND 0xc0) \<le> 63" by (rule le) (rule u8_eqI; simp add: bit_simps)
  show "c AND 0x3f \<le> 63" by (rule word_and_le1)
qed

lemma groups_back:
  fixes a b c :: u8
  shows "push_bit 2 (drop_bit 2 (a AND 0xfc) AND 0x3f) OR
      drop_bit 4 ((push_bit 4 (a AND 0x03) OR drop_bit 4 (b AND 0xf0)) AND 0x30) = a"
    and "push_bit 4 ((push_bit 4 (a AND 0x03) OR drop_bit 4 (b AND 0xf0)) AND 0x0f) OR
      drop_bit 2 ((push_bit 2 (b AND 0x0f) OR drop_bit 6 (c AND 0xc0)) AND 0x3c) = b"
    and "push_bit 6 ((push_bit 2 (b AND 0x0f) OR drop_bit 6 (c AND 0xc0)) AND 0x03) OR
      ((c AND 0x3f) AND 0x3f) = c"
  by (rule u8_eqI; simp add: bit_simps)+

lemma base64_encoding_chars: "base64_encoding =
  [65,66,67,68,69,70,71,72,73,74,75,76,77,78,79,80,81,82,83,84,85,86,87,88,89,90,
   97,98,99,100,101,102,103,104,105,106,107,108,109,110,111,112,113,114,115,116,117,118,119,120,121,122,
   48,49,50,51,52,53,54,55,56,57,43,47]"
  by (simp add: base64_encoding_def of_char_def)

lemma decode_encoding:
  "map (base64_decode_value True) base64_encoding = map (\<lambda>n. Some (int n)) [0..<64]"
  "map (base64_decode_value False) base64_encoding = map (\<lambda>n. Some (int n)) [0..<64]"
  by (simp_all add: base64_encoding_chars base64_decode_value_def char_val_def base64_decoding_def upt_rec)

lemma decode_encoded_value:
  assumes "v \<le> (63 :: u8)"
  shows "base64_decode_value cs (base64_encode_value v) = Some (uint v)"
proof -
  have n: "unat v < 64" using assms by (simp add: word_le_nat_alt)
  have l: "length base64_encoding = 64" by (simp add: base64_encoding_chars)
  have "map (base64_decode_value cs) base64_encoding ! unat v = map (\<lambda>n. Some (int n)) [0..<64] ! unat v"
    using decode_encoding by (cases cs) simp_all
  moreover have "\<not> 63 < v" using assms by simp
  ultimately show ?thesis using n l by (simp add: base64_encode_value_def)
qed

lemma small_not_negative: "v \<le> 63 \<Longrightarrow> \<not> char_val cs v < 0"
  by (simp add: char_val_def sint_uint word_le_def bit_iff_odd)

lemma decode_step:
  assumes "v \<le> 63"
  shows "base64_decode_loop cs (base64_encode_value v # codes) step m p =
     (let (step, m, p) = decode_store step v m p in base64_decode_loop cs codes step m p)"
  using decode_encoded_value [OF assms, of cs] small_not_negative [OF assms, of cs] by simp

text \<open>With a signed \<open>char\<close> the line breaks and the padding are skipped.\<close>

lemma decode_skip:
  "base64_decode_loop True (0x3D # codes) step m p = base64_decode_loop True codes step m p"
  "base64_decode_loop True (0x0A # codes) step m p = base64_decode_loop True codes step m p"
  by (simp_all add: base64_decode_value_def char_val_def base64_decoding_def)

fun triples :: "u8 list \<Rightarrow> bool" where
  "triples (a # b # c # xs) = triples xs"
| "triples xs = (xs = [])"

definition stored :: "memory \<Rightarrow> nat \<Rightarrow> u8 list \<Rightarrow> bool" where
  "stored m p xs \<longleftrightarrow> (\<forall>i<length xs. m (p + i) = xs ! i)"

lemma stored_Cons: "stored m p (x # xs) \<longleftrightarrow> m p = x \<and> stored m (p + 1) xs"
  by (auto simp: stored_def All_less_Suc2)

lemma stored_Nil [simp]: "stored m p []"
  by (simp add: stored_def)

lemma decode_quad:
  assumes "v1 \<le> 63" "v2 \<le> 63" "v3 \<le> 63" "v4 \<le> 63"
  defines "x1 \<equiv> push_bit 2 (v1 AND 0x3f) OR drop_bit 4 (v2 AND 0x30)"
    and "x2 \<equiv> push_bit 4 (v2 AND 0x0f) OR drop_bit 2 (v3 AND 0x3c)"
    and "x3 \<equiv> push_bit 6 (v3 AND 0x03) OR (v4 AND 0x3f)"
  shows "base64_decode_loop cs (map base64_encode_value [v1, v2, v3, v4] @ codes) step_a m p =
      base64_decode_loop cs codes step_a (m(p := x1, p + 1 := x2, p + 2 := x3)) (p + 3)"
    and "\<exists>x. base64_decode_loop cs (map base64_encode_value [v1, v2, v3] @ codes) step_a m p =
      base64_decode_loop cs codes step_d (m(p := x1, p + 1 := x2, p + 2 := x)) (p + 2)"
    and "\<exists>x. base64_decode_loop cs (map base64_encode_value [v1, v2] @ codes) step_a m p =
      base64_decode_loop cs codes step_c (m(p := x1, p + 1 := x)) (p + 1)"
  unfolding x1_def x2_def x3_def using assms(1-4)
  by (auto simp add: decode_step decode_store_def numeral_3_eq_3 simp del: base64_decode_loop.simps)

text \<open>\<open>codes\<close> decode to \<open>xs\<close>, wherever the output goes, and touch nothing below it.\<close>

definition decodes :: "u8 list \<Rightarrow> u8 list \<Rightarrow> bool" where
  "decodes codes xs \<longleftrightarrow>
     (\<forall>m p. \<exists>step m'. base64_decode_loop True codes step_a m p = Some (step, m', p + length xs) \<and>
        stored m' p xs \<and> (\<forall>x<p. m' x = m x))"

lemma decodes_Nil: "decodes [] []"
  by (simp add: decodes_def)

lemma decodes_newline: "decodes codes xs \<Longrightarrow> decodes (0x0A # codes) xs"
  by (simp add: decodes_def decode_skip del: base64_decode_loop.simps)

lemma decodes_triple:
  assumes "decodes codes xs"
  shows "decodes (map base64_encode_value [drop_bit 2 (a AND 0xfc), push_bit 4 (a AND 0x03) OR drop_bit 4 (b AND 0xf0),
      push_bit 2 (b AND 0x0f) OR drop_bit 6 (c AND 0xc0), c AND 0x3f] @ codes) (a # b # c # xs)"
  unfolding decodes_def
proof (intro allI)
  fix m :: memory and p :: nat
  let ?m = "m(p := a, p + 1 := b, p + 2 := c)"
  note q = decode_quad(1) [OF groups_bound(1) [of a] groups_bound(2) [of a b] groups_bound(3) [of b c] groups_bound(4) [of c],
      unfolded groups_back]
  obtain step m' where r: "base64_decode_loop True codes step_a ?m (p + 3) = Some (step, m', p + 3 + length xs)"
    "stored m' (p + 3) xs" "\<forall>x<p+3. m' x = ?m x"
    using assms [unfolded decodes_def, THEN spec, THEN spec, of ?m "p + 3"] by (elim exE conjE)
  have "stored m' p (a # b # c # xs)"
    using r(2,3) by (simp add: stored_Cons numeral_3_eq_3)
  moreover have "\<forall>x<p. m' x = m x" using r(3) by simp
  ultimately show "\<exists>step m'. base64_decode_loop True (map base64_encode_value [drop_bit 2 (a AND 0xfc),
      push_bit 4 (a AND 0x03) OR drop_bit 4 (b AND 0xf0), push_bit 2 (b AND 0x0f) OR drop_bit 6 (c AND 0xc0),
      c AND 0x3f] @ codes) step_a m p = Some (step, m', p + length (a # b # c # xs)) \<and>
      stored m' p (a # b # c # xs) \<and> (\<forall>x<p. m' x = m x)"
    unfolding q using r(1) by (intro exI [of _ step] exI [of _ m']) (simp add: ac_simps numeral_3_eq_3)
qed

text \<open>The one and two bytes the padded tails stand for.\<close>

lemma decodes_one:
  "decodes (map base64_encode_value [drop_bit 2 (a AND 0xfc), push_bit 4 (a AND 0x03)] @ [0x3D, 0x3D]) [a]"
  unfolding decodes_def
proof (intro allI)
  fix m :: memory and p :: nat
  note q = decode_quad(3) [OF groups_bound(1) [of a] groups_bound(2) [of a 0] groups_bound(4) groups_bound(4),
      where cs = True and codes = "[0x3D, 0x3D]" and m = m and p = p, unfolded groups_back]
  have z: "push_bit 4 (a AND 0x03) OR drop_bit 4 (0 AND 0xf0) = push_bit 4 (a AND 0x03)" by simp
  obtain x where "base64_decode_loop True (map base64_encode_value [drop_bit 2 (a AND 0xfc),
      push_bit 4 (a AND 0x03)] @ [0x3D, 0x3D]) step_a m p = Some (step_c, m(p := a, p + 1 := x), p + 1)"
    using q unfolding z decode_skip base64_decode_loop.simps(1) by blast
  then show "\<exists>step m'. base64_decode_loop True (map base64_encode_value [drop_bit 2 (a AND 0xfc),
      push_bit 4 (a AND 0x03)] @ [0x3D, 0x3D]) step_a m p = Some (step, m', p + length [a]) \<and>
      stored m' p [a] \<and> (\<forall>x<p. m' x = m x)"
    by (simp add: stored_Cons)
qed

lemma decodes_two:
  "decodes (map base64_encode_value [drop_bit 2 (a AND 0xfc), push_bit 4 (a AND 0x03) OR drop_bit 4 (b AND 0xf0),
      push_bit 2 (b AND 0x0f)] @ [0x3D]) [a, b]"
  unfolding decodes_def
proof (intro allI)
  fix m :: memory and p :: nat
  note q = decode_quad(2) [OF groups_bound(1) [of a] groups_bound(2) [of a b] groups_bound(3) [of b 0] groups_bound(4),
      where cs = True and codes = "[0x3D]" and m = m and p = p, unfolded groups_back]
  have z: "push_bit 2 (b AND 0x0f) OR drop_bit 6 (0 AND 0xc0) = push_bit 2 (b AND 0x0f)" by simp
  obtain x where "base64_decode_loop True (map base64_encode_value [drop_bit 2 (a AND 0xfc),
      push_bit 4 (a AND 0x03) OR drop_bit 4 (b AND 0xf0), push_bit 2 (b AND 0x0f)] @ [0x3D]) step_a m p =
      Some (step_d, m(p := a, p + 1 := b, p + 2 := x), p + 2)"
    using q unfolding z decode_skip base64_decode_loop.simps(1) by blast
  then show "\<exists>step m'. base64_decode_loop True (map base64_encode_value [drop_bit 2 (a AND 0xfc),
      push_bit 4 (a AND 0x03) OR drop_bit 4 (b AND 0xf0), push_bit 2 (b AND 0x0f)] @ [0x3D]) step_a m p =
      Some (step, m', p + length [a, b]) \<and> stored m' p [a, b] \<and> (\<forall>x<p. m' x = m x)"
    by (simp add: stored_Cons)
qed

lemma encode_triple:
  assumes "enc_step st = step_A"
  shows "base64_encode_block (a # b # c # xs) st =
    (let n = enc_stepcount st + 1;
         (tail, st') = base64_encode_block xs (st\<lparr>enc_step := step_A, enc_result := c AND 0x3f,
           enc_stepcount := (if n = CHARS_PER_LINE div 4 then 0 else n)\<rparr>)
     in (map base64_encode_value [drop_bit 2 (a AND 0xfc), push_bit 4 (a AND 0x03) OR drop_bit 4 (b AND 0xf0),
           push_bit 2 (b AND 0x0f) OR drop_bit 6 (c AND 0xc0), c AND 0x3f] @
         (if n = CHARS_PER_LINE div 4 then 0x0A # tail else tail), st'))"
  using assms by (simp add: Let_def split: prod.split)

lemma encode_decodes:
  assumes "enc_step st = step_A" "base64_encode_block xs st = (code, st')"
  shows "decodes (code @ base64_encode_blockend st') xs"
  using assms
proof (induction xs arbitrary: st code rule: triples.induct)
  case (1 a b c xs)
  let ?n = "enc_stepcount st + 1"
  let ?st = "st\<lparr>enc_step := step_A, enc_result := c AND 0x3f,
    enc_stepcount := (if ?n = CHARS_PER_LINE div 4 then 0 else ?n)\<rparr>"
  obtain tail st1 where t: "base64_encode_block xs ?st = (tail, st1)" by (cases "base64_encode_block xs ?st")
  have e: "base64_encode_block xs ?st = (tail, st')"
    and code: "code = map base64_encode_value [drop_bit 2 (a AND 0xfc), push_bit 4 (a AND 0x03) OR drop_bit 4 (b AND 0xf0),
      push_bit 2 (b AND 0x0f) OR drop_bit 6 (c AND 0xc0), c AND 0x3f] @
      (if ?n = CHARS_PER_LINE div 4 then 0x0A # tail else tail)"
    using 1(3) t unfolding encode_triple [OF 1(2)] Let_def t by simp_all
  have "decodes (tail @ base64_encode_blockend st') xs" using "1.IH" [OF _ e] by simp
  then have "decodes ((if ?n = CHARS_PER_LINE div 4 then 0x0A # tail else tail) @ base64_encode_blockend st') xs"
    using decodes_newline by simp
  then show ?case unfolding code append_assoc by (rule decodes_triple)
next
  case "2_1"
  then show ?case by (auto simp: base64_encode_blockend_def decodes_Nil)
next
  case "2_2"
  then show ?case using decodes_one by (auto simp: base64_encode_blockend_def Let_def)
next
  case "2_3"
  then show ?case using decodes_two by (auto simp: base64_encode_blockend_def Let_def)
qed

lemma encode_length:
  assumes "enc_step st = step_A" "enc_stepcount st < 18" "base64_encode_block xs st = (code, st')"
  shows "length (code @ base64_encode_blockend st') =
    4 * ((length xs + 2) div 3) + (enc_stepcount st + length xs div 3) div 18"
  using assms
proof (induction xs arbitrary: st code rule: triples.induct)
  case (1 a b c xs)
  let ?n = "enc_stepcount st + 1"
  let ?st = "st\<lparr>enc_step := step_A, enc_result := c AND 0x3f,
    enc_stepcount := (if ?n = CHARS_PER_LINE div 4 then 0 else ?n)\<rparr>"
  have n: "(?n = CHARS_PER_LINE div 4) = (?n = 18)" by (simp add: CHARS_PER_LINE_def)
  obtain tail st1 where t: "base64_encode_block xs ?st = (tail, st1)" by (cases "base64_encode_block xs ?st")
  have st': "st1 = st'" and len: "length code = 4 + (if ?n = 18 then 1 else 0) + length tail"
    using 1(4) t unfolding encode_triple [OF 1(2)] Let_def t n by auto
  have "length (tail @ base64_encode_blockend st1) =
      4 * ((length xs + 2) div 3) + (enc_stepcount ?st + length xs div 3) div 18"
    using "1.IH" [OF _ _ t [unfolded st']] 1(3) st' by (simp add: CHARS_PER_LINE_def)
  moreover have "(18 + length xs div 3) div 18 = Suc (length xs div 3 div 18)" by (simp add: div_add_self1)
  moreover have "(length (a # b # c # xs) + 2) div 3 = (length xs + 2) div 3 + 1" by simp
  moreover have "length (a # b # c # xs) div 3 = length xs div 3 + 1" by simp
  ultimately show ?case using len st' 1(3) n by (cases "?n = 18") auto
qed (auto simp: base64_encode_blockend_def Let_def)

section \<open>The contract of the codec\<close>

text \<open>
  Length of the encoding.  For n input bytes the encoder writes 4 characters for every 3
  bytes begun, and one line break after every 54 bytes; so the buffer a caller sizes with
  base64_encode_expected_len(n), which has no room for the breaks, is exceeded from 54 bytes on.
\<close>

theorem encode_chars_length:
  "length (base64_encode_chars xs) = 4 * ((length xs + 2) div 3) + length xs div 54"
proof -
  obtain code st' where e: "base64_encode_block xs base64_init_encodestate = (code, st')"
    by (cases "base64_encode_block xs base64_init_encodestate")
  have "enc_step base64_init_encodestate = step_A" "enc_stepcount base64_init_encodestate = 0"
    by (simp_all add: base64_init_encodestate_def)
  then have "length (code @ base64_encode_blockend st') = 4 * ((length xs + 2) div 3) + (length xs div 3) div 18"
    using encode_length [OF _ _ e] by simp
  then show ?thesis by (simp add: base64_encode_chars_def e div_mult2_eq [symmetric])
qed

text \<open>
  C15. Round trip where char is signed.  Decoding what the encoder wrote for any byte string,
  whatever its length, line breaks and padding included, returns the length of the string and
  stores exactly its bytes, then a terminating zero, and nothing below the output buffer.
\<close>

theorem base64_roundtrip:
  "\<exists>m'. base64_decode_chars True (base64_encode_chars xs) m out = Some (length xs, m') \<and>
     stored m' out xs \<and> (xs \<noteq> [] \<longrightarrow> m' (out + length xs) = 0) \<and> (\<forall>x<out. m' x = m x)"
proof -
  obtain code st' where e: "base64_encode_block xs base64_init_encodestate = (code, st')"
    by (cases "base64_encode_block xs base64_init_encodestate")
  have "decodes (code @ base64_encode_blockend st') xs"
    by (rule encode_decodes [OF _ e]) (simp add: base64_init_encodestate_def)
  from this [unfolded decodes_def, THEN spec, THEN spec, of "m(out := 0)" out]
  obtain step m' where d: "base64_decode_loop True (base64_encode_chars xs) step_a (m(out := 0)) out =
      Some (step, m', out + length xs)" "stored m' out xs" "\<forall>x<out. m' x = (m(out := 0)) x"
    by (auto simp: base64_encode_chars_def e)
  then show ?thesis
    by (auto simp: base64_decode_chars_def base64_decode_block_def base64_init_decodestate_def stored_def)
qed

lemma base64_roundtrip_witness:
  "\<exists>m'. base64_decode_chars True (base64_encode_chars [1, 2, 3, 4]) (\<lambda>_. 7) 100 = Some (4, m') \<and>
     stored m' 100 [1, 2, 3, 4] \<and> m' 104 = 0 \<and> m' 99 = 7"
  using base64_roundtrip [of "[1, 2, 3, 4]" "\<lambda>_. 7" 100] by auto

text \<open>
  No round trip where char is unsigned, as on this target.  No invalid character is
  negative there, so padding is decoded as data: every one-byte text comes back with length 3.
  And on either kind of compiler the character after the last entry of the table ('{') makes
  the decoder read one byte past the table.
\<close>

theorem base64_unsigned_char_breaks:
  "(\<exists>m'. base64_decode_chars False (base64_encode_chars [a]) m out = Some (3, m')) \<and>
   base64_decode_value cs 0x7B = None"
proof
  have pad: "base64_decode_loop False (0x3D # codes) step m p =
      (let (step, m, p) = decode_store step 0xFE m p in base64_decode_loop False codes step m p)" for codes step m p
    by (simp add: base64_decode_value_def char_val_def base64_decoding_def)
  have z: "push_bit 4 (a AND 0x03) \<le> 63" using groups_bound(2) [of a 0] by simp
  show "\<exists>m'. base64_decode_chars False (base64_encode_chars [a]) m out = Some (3, m')"
    using decode_step [OF groups_bound(1) [of a]] decode_step [OF z]
    by (simp add: base64_decode_chars_def base64_decode_block_def base64_init_decodestate_def base64_encode_chars_def
      base64_init_encodestate_def base64_encode_blockend_def pad decode_store_def Let_def del: base64_decode_loop.simps(2))
  show "base64_decode_value cs 0x7B = None"
    by (simp add: base64_decode_value_def char_val_def base64_decoding_def)
qed

text \<open>
  The decoder is a stream transducer.  Cutting the encoded text anywhere and handing the
  saved state to a second call that continues at the next output byte decodes to the same
  memory, counts and state as one call.
\<close>

theorem decode_block_streams:
  assumes "base64_decode_block cs xs m out st = Some (n1, m1, st1)"
    and "base64_decode_block cs ys m1 (out + n1) st1 = Some (n2, m2, st2)"
  shows "base64_decode_block cs (xs @ ys) m out st = Some (n1 + n2, m2, st2)"
proof -
  have mono: "base64_decode_loop cs zs step m p = Some (step', m', p') \<Longrightarrow> p \<le> p'" for zs step step' m m' p p'
    by (induction zs arbitrary: step m p)
       (force simp: Let_def decode_store_def split: option.splits if_splits base64_decodestep.splits)+
  obtain step p where 1: "base64_decode_loop cs xs (dec_step st) (m(out := dec_plainchar st)) out = Some (step, m1, p)"
    "n1 = p - out" "st1 = \<lparr>dec_step = step, dec_plainchar = m1 p\<rparr>"
    using assms(1) by (auto simp: base64_decode_block_def split: option.splits)
  then have p: "out + n1 = p" using mono by fastforce
  then show ?thesis
    using assms(2) 1 mono [of ys]
    by (auto simp: base64_decode_block_def decode_loop_append split: option.splits)
qed

lemma decode_block_streams_witness:
  "base64_decode_block True ([0x54] @ [0x51]) (\<lambda>_. 0) 0 base64_init_decodestate =
     Some (0 + 1, (\<lambda>_. 0)(0 := 77), \<lparr>dec_step = step_c, dec_plainchar = 0\<rparr>)"
proof (rule decode_block_streams)
  have v: "base64_decode_value True 0x54 = Some 19" "base64_decode_value True 0x51 = Some 16"
    by (simp_all add: base64_decode_value_def char_val_def base64_decoding_def)
  show "base64_decode_block True [0x54] (\<lambda>_. 0) 0 base64_init_decodestate =
      Some (0, (\<lambda>_. 0)(0 := 76), \<lparr>dec_step = step_b, dec_plainchar = 76\<rparr>)"
    by (simp add: base64_decode_block_def base64_init_decodestate_def v char_val_def decode_store_def)
  show "base64_decode_block True [0x51] ((\<lambda>_. 0)(0 := 76)) (0 + 0) \<lparr>dec_step = step_b, dec_plainchar = 76\<rparr> =
      Some (1, (\<lambda>_. 0)(0 := 77), \<lparr>dec_step = step_c, dec_plainchar = 0\<rparr>)"
    by (auto simp add: base64_decode_block_def v char_val_def decode_store_def fun_eq_iff)
qed

end
