(* ===== verification/InetChksum.thy ===== *)
theory InetChksum
  imports Prelude
begin

text \<open>
  The Internet checksum of lwIP (tools/sdk/lwip/src/core/ipv4/inet_chksum.c, with the byte-order
  helpers of def.c and cc.h): the three implementations of \<open>LWIP_CHKSUM\<close> a port can choose from,
  and the checksums over buffers, pbuf chains and pseudo headers built on any of them.  Data is a
  list of bytes with the address it starts at, which decides how an implementation aligns its
  reads.
\<close>

section \<open>Byte order\<close>

definition LWIP_PLATFORM_HTONS :: "u32 \<Rightarrow> u16" where
  "LWIP_PLATFORM_HTONS n = ucast (push_bit 8 (n AND 0xff) OR (drop_bit 8 n AND 0xff))"

definition lwip_htons :: "u16 \<Rightarrow> u16" where
  "lwip_htons n = push_bit 8 (n AND 0xff) OR drop_bit 8 (n AND 0xff00)"

definition lwip_htonl :: "u32 \<Rightarrow> u32" where
  "lwip_htonl n = push_bit 24 (n AND 0xff) OR push_bit 8 (n AND 0xff00) OR
     drop_bit 8 (n AND 0xff0000) OR drop_bit 24 (n AND 0xff000000)"

definition FOLD_U32T :: "u32 \<Rightarrow> u32" where
  "FOLD_U32T u = drop_bit 16 u + (u AND 0xffff)"

definition SWAP_BYTES_IN_WORD :: "u32 \<Rightarrow> u32" where
  "SWAP_BYTES_IN_WORD w = ucast (LWIP_PLATFORM_HTONS w)"

text \<open>Little-endian reads of two and four bytes.\<close>

definition le16 :: "u8 \<Rightarrow> u8 \<Rightarrow> u32" where
  "le16 a b = ucast a OR push_bit 8 (ucast b)"

definition le32 :: "u8 \<Rightarrow> u8 \<Rightarrow> u8 \<Rightarrow> u8 \<Rightarrow> u32" where
  "le32 a b c d = le16 a b OR push_bit 16 (le16 c d)"

section \<open>The three implementations of LWIP_CHKSUM\<close>

text \<open>Version 1: octet pairs in network order, swapped at the end.\<close>

fun chksum1_loop :: "u8 list \<Rightarrow> u32 \<Rightarrow> u32" where
  "chksum1_loop (a # b # rest) acc = chksum1_loop rest (acc + (push_bit 8 (ucast a) OR ucast b))"
| "chksum1_loop [a] acc = acc + push_bit 8 (ucast a)"
| "chksum1_loop [] acc = acc"

definition lwip_standard_chksum1 :: "nat \<Rightarrow> u8 list \<Rightarrow> u16" where
  "lwip_standard_chksum1 addr bs =
     (let acc = chksum1_loop bs 0;
          acc = drop_bit 16 acc + (acc AND 0xffff);
          acc = (if acc AND 0xffff0000 \<noteq> 0 then drop_bit 16 acc + (acc AND 0xffff) else acc)
      in LWIP_PLATFORM_HTONS (ucast (ucast acc :: u16)))"

text \<open>
  Versions 2 and 3 read in host order.  The byte before the first aligned address and the byte
  left over at the end are collected in the two halves of \<open>t\<close>; \<open>chksum_halves\<close> returns the
  running sum and \<open>t\<close>.
\<close>

fun chksum_halves :: "u8 list \<Rightarrow> u32 \<Rightarrow> u32 \<Rightarrow> u32 \<times> u32" where
  "chksum_halves (a # b # rest) s t = chksum_halves rest (s + le16 a b) t"
| "chksum_halves [a] s t = (s, (t AND 0xff00) OR ucast a)"
| "chksum_halves [] s t = (s, t)"

text \<open>An odd start: its byte goes to the upper half of \<open>t\<close>, the sum is swapped at the end.\<close>

definition chksum_head :: "nat \<Rightarrow> u8 list \<Rightarrow> u8 list \<times> u32" where
  "chksum_head addr bs =
     (if odd addr then (case bs of [] \<Rightarrow> ([], 0) | b # rest \<Rightarrow> (rest, push_bit 8 (ucast b))) else (bs, 0))"

definition chksum_finish :: "nat \<Rightarrow> u32 \<Rightarrow> u32 \<Rightarrow> u16" where
  "chksum_finish addr s t =
     (let s = s + t;
          s = FOLD_U32T s;
          s = FOLD_U32T s
      in ucast (if odd addr then SWAP_BYTES_IN_WORD s else s))"

definition lwip_standard_chksum2 :: "nat \<Rightarrow> u8 list \<Rightarrow> u16" where
  "lwip_standard_chksum2 addr bs =
     (let (bs, t) = chksum_head addr bs;
          (s, t) = chksum_halves bs 0 t
      in chksum_finish addr s t)"

text \<open>Version 3 sums eight bytes a turn in 32 bits and adds the carries back.\<close>

definition add_carry :: "u32 \<Rightarrow> u32 \<Rightarrow> u32" where
  "add_carry s w = (let tmp = s + w in if tmp < s then tmp + 1 else tmp)"

fun chksum_words :: "u8 list \<Rightarrow> u32 \<Rightarrow> u8 list \<times> u32" where
  "chksum_words (a # b # c # d # e # f # g # h # rest) s =
     chksum_words rest (add_carry (add_carry s (le32 a b c d)) (le32 e f g h))"
| "chksum_words bs s = (bs, s)"

definition chksum_align :: "nat \<Rightarrow> u8 list \<Rightarrow> u8 list \<times> u32" where
  "chksum_align addr bs =
     (if addr mod 4 \<noteq> 0 then (case bs of a # b # rest \<Rightarrow> (rest, le16 a b) | _ \<Rightarrow> (bs, 0)) else (bs, 0))"

definition lwip_standard_chksum3 :: "nat \<Rightarrow> u8 list \<Rightarrow> u16" where
  "lwip_standard_chksum3 addr bs =
     (let (rest, t) = chksum_head addr bs;
          (rest, s) = chksum_align (addr + (length bs - length rest)) rest;
          (rest, s) = chksum_words rest s;
          s = FOLD_U32T s;
          (s, t) = chksum_halves rest s t
      in chksum_finish addr s t)"

section \<open>Checksums over chains\<close>

text \<open>
  A pbuf as the checksums see it: where its payload starts and the bytes in it.  \<open>chk\<close> is the
  \<open>LWIP_CHKSUM\<close> of the configuration.
\<close>

type_synonym chksum = "nat \<Rightarrow> u8 list \<Rightarrow> u16"

record chk_pbuf =
  chk_payload :: nat
  chk_bytes :: "u8 list"

fun chain_sum :: "chksum \<Rightarrow> chk_pbuf list \<Rightarrow> u32 \<Rightarrow> bool \<Rightarrow> u32 \<times> bool" where
  "chain_sum chk [] acc swapped = (acc, swapped)"
| "chain_sum chk (q # qs) acc swapped =
     (let acc = acc + ucast (chk (chk_payload q) (chk_bytes q));
          acc = FOLD_U32T acc
      in if length (chk_bytes q) mod 2 \<noteq> 0
         then chain_sum chk qs (SWAP_BYTES_IN_WORD acc) (\<not> swapped)
         else chain_sum chk qs acc swapped)"

fun chain_sum_partial :: "chksum \<Rightarrow> chk_pbuf list \<Rightarrow> u32 \<Rightarrow> bool \<Rightarrow> nat \<Rightarrow> u32 \<times> bool" where
  "chain_sum_partial chk [] acc swapped chksum_len = (acc, swapped)"
| "chain_sum_partial chk (q # qs) acc swapped chksum_len =
     (if chksum_len = 0 then (acc, swapped)
      else let chklen = min (length (chk_bytes q)) chksum_len;
               acc = acc + ucast (chk (chk_payload q) (take chklen (chk_bytes q)));
               acc = FOLD_U32T acc
           in if length (chk_bytes q) mod 2 \<noteq> 0
              then chain_sum_partial chk qs (SWAP_BYTES_IN_WORD acc) (\<not> swapped) (chksum_len - chklen)
              else chain_sum_partial chk qs acc swapped (chksum_len - chklen))"

definition pseudo_header :: "u32 \<Rightarrow> u32 \<times> bool \<Rightarrow> u32 \<Rightarrow> u8 \<Rightarrow> u16 \<Rightarrow> u16" where
  "pseudo_header src s dest proto proto_len =
     (let (acc, swapped) = s;
          acc = (if swapped then SWAP_BYTES_IN_WORD acc else acc);
          acc = acc + (src AND 0xffff);
          acc = acc + (drop_bit 16 src AND 0xffff);
          acc = acc + (dest AND 0xffff);
          acc = acc + (drop_bit 16 dest AND 0xffff);
          acc = acc + ucast (LWIP_PLATFORM_HTONS (ucast proto));
          acc = acc + ucast (LWIP_PLATFORM_HTONS (ucast proto_len));
          acc = FOLD_U32T acc;
          acc = FOLD_U32T acc
      in ucast (NOT (acc AND 0xffff)))"

definition inet_chksum_pseudo :: "chksum \<Rightarrow> chk_pbuf list \<Rightarrow> u32 \<Rightarrow> u32 \<Rightarrow> u8 \<Rightarrow> u16 \<Rightarrow> u16" where
  "inet_chksum_pseudo chk p src dest proto proto_len =
     pseudo_header src (chain_sum chk p 0 False) dest proto proto_len"

definition inet_chksum_pseudo_partial ::
  "chksum \<Rightarrow> chk_pbuf list \<Rightarrow> u32 \<Rightarrow> u32 \<Rightarrow> u8 \<Rightarrow> u16 \<Rightarrow> u16 \<Rightarrow> u16" where
  "inet_chksum_pseudo_partial chk p src dest proto proto_len chksum_len =
     pseudo_header src (chain_sum_partial chk p 0 False (unat chksum_len)) dest proto proto_len"

definition inet_chksum :: "chksum \<Rightarrow> nat \<Rightarrow> u8 list \<Rightarrow> u16" where
  "inet_chksum chk dataptr bs = NOT (chk dataptr bs)"

definition inet_chksum_pbuf :: "chksum \<Rightarrow> chk_pbuf list \<Rightarrow> u16" where
  "inet_chksum_pbuf chk p =
     (let (acc, swapped) = chain_sum chk p 0 False;
          acc = (if swapped then SWAP_BYTES_IN_WORD acc else acc)
      in ucast (NOT (acc AND 0xffff)))"

definition lwip_chksum_copy :: "chksum \<Rightarrow> memory \<Rightarrow> nat \<Rightarrow> nat \<Rightarrow> u16 \<Rightarrow> memory \<times> u16" where
  "lwip_chksum_copy chk m dst src len =
     (let m = memmove m dst src (unat len)
      in (m, chk dst (map (\<lambda>i. m (dst + i)) [0..<unat len])))"

section \<open>The words as numbers\<close>

lemma unat_or_disjoint:
  fixes a b :: "'a::len word"
  assumes "\<And>n. \<not> bit a n \<or> \<not> bit b n" "unat a + unat b < 2 ^ LENGTH('a)"
  shows "unat (a OR b) = unat a + unat b"
  using assms by (simp add: disjunctive_add_eq_or [symmetric] unat_word_ariths bit_eq_iff bit_and_iff)

lemma unat_ucast8 [simp]: "unat (ucast (a :: u8) :: u32) = unat a"
  by (simp add: unsigned_ucast_eq take_bit_nat_eq_self less_trans [OF unsigned_less])

lemma unat_u8_bound: "unat (a :: u8) < 256"
  using unsigned_less [where 'b = 8 and w = a and 'a = nat] by simp

lemma unat_le16: "unat (le16 a b) = unat a + 256 * unat b"
proof -
  have p: "unat (push_bit 8 (ucast b :: u32)) = 256 * unat b"
    using unat_u8_bound [of b] by (simp add: push_bit_eq_mult unat_word_ariths)
  show ?thesis
    unfolding le16_def
    by (subst unat_or_disjoint) (use unat_u8_bound [of a] unat_u8_bound [of b] in \<open>auto simp: p bit_simps dest!: bit_imp_le_length\<close>)
qed

lemma unat_le32: "unat (le32 a b c d) = unat a + 256 * unat b + 65536 * (unat c + 256 * unat d)"
proof -
  have p: "unat (push_bit 16 (le16 c d)) = 65536 * (unat c + 256 * unat d)"
    using unat_u8_bound [of c] unat_u8_bound [of d] by (simp add: push_bit_eq_mult unat_word_ariths unat_le16)
  have "\<not> bit (le16 a b) n \<or> \<not> bit (push_bit 16 (le16 c d)) n" for n
    by (auto simp: le16_def bit_simps dest!: bit_imp_le_length)
  then show ?thesis
    unfolding le32_def
    by (subst unat_or_disjoint)
      (use unat_u8_bound [of a] unat_u8_bound [of b] unat_u8_bound [of c] unat_u8_bound [of d] in \<open>auto simp: p unat_le16\<close>)
qed

lemma unat_fold: "unat (FOLD_U32T u) = unat u div 65536 + unat u mod 65536"
proof -
  have u: "unat u < 2 ^ 32" using unsigned_less [where 'b = 32 and w = u and 'a = nat] by simp
  have a: "u AND 0xffff = take_bit 16 u" by (simp add: take_bit_eq_mask mask_eq_exp_minus_1)
  have d: "unat (drop_bit 16 u) = unat u div 65536" by (simp add: unsigned_drop_bit_eq drop_bit_eq_div unat_div)
  have t: "unat (take_bit 16 u) = unat u mod 65536" by (simp add: unsigned_take_bit_eq take_bit_eq_mod unat_mod)
  show ?thesis unfolding FOLD_U32T_def a using u by (simp add: unat_word_ariths d t)
qed

lemma unat_htons: "unat (LWIP_PLATFORM_HTONS n) = 256 * (unat n mod 256) + unat n div 256 mod 256"
proof -
  have a: "x AND 0xff = take_bit 8 x" for x :: u32 by (simp add: take_bit_eq_mask mask_eq_exp_minus_1)
  have d: "unat (drop_bit 8 n AND 0xff) = unat n div 256 mod 256" "unat (n AND 0xff) = unat n mod 256"
    by (simp_all add: a unsigned_take_bit_eq unsigned_drop_bit_eq drop_bit_eq_div take_bit_eq_mod unat_div unat_mod)
  have p: "unat (push_bit 8 (n AND 0xff)) = 256 * (unat n mod 256)"
    by (simp add: push_bit_eq_mult unat_word_ariths d(2))
  have disj: "\<not> bit (push_bit 8 (n AND 0xff)) k \<or> \<not> bit (drop_bit 8 n AND 0xff) k" for k
    unfolding a by (auto simp: bit_simps)
  have b: "unat n mod 256 < 256" "unat n div 256 mod 256 < 256" by simp_all
  have "unat (push_bit 8 (n AND 0xff) OR (drop_bit 8 n AND 0xff)) =
      unat (push_bit 8 (n AND 0xff)) + unat (drop_bit 8 n AND 0xff)"
    by (rule unat_or_disjoint [OF disj], unfold p d) (use b in simp)
  note this [unfolded p d]
  then show ?thesis
    unfolding LWIP_PLATFORM_HTONS_def unsigned_ucast_eq using b by (simp only:) (simp add: take_bit_nat_eq_self)
qed

lemma unat_swap: "unat (SWAP_BYTES_IN_WORD w) = 256 * (unat w mod 256) + unat w div 256 mod 256"
  by (simp add: SWAP_BYTES_IN_WORD_def unat_htons)

lemma unat_not16: "unat (NOT w :: u16) = 65535 - unat w"
proof -
  have "NOT w = - 1 - w" by (simp add: not_eq_complement)
  moreover have "unat (- 1 - w) = unat (- 1 :: u16) - unat w" by (rule unat_sub) simp
  ultimately show ?thesis by (simp add: unsigned_minus_1_eq_mask mask_eq_exp_minus_1)
qed

section \<open>Ones' complement arithmetic\<close>

text \<open>
  \<open>canon n\<close>: the 16-bit ones' complement value of \<open>n\<close>, its residue modulo 65535 in the range
  1 to 65535, and 0 for 0 only.  \<open>byte_sum\<close>: the value of a byte string read in 16-bit units.
\<close>

definition canon :: "nat \<Rightarrow> nat" where
  "canon n = (if n = 0 then 0 else (n - 1) mod 65535 + 1)"

fun byte_sum :: "u8 list \<Rightarrow> nat" where
  "byte_sum (a # b # rest) = unat a + 256 * unat b + byte_sum rest"
| "byte_sum [a] = unat a"
| "byte_sum [] = 0"

lemma canon_le: "canon n \<le> 65535"
  by (simp add: canon_def Suc_le_eq)

lemma canon_0 [simp]: "canon n = 0 \<longleftrightarrow> n = 0"
  by (simp add: canon_def)

lemma canon_id: "n \<le> 65535 \<Longrightarrow> canon n = n"
  by (auto simp: canon_def)

lemma canon_mod: "canon n mod 65535 = n mod 65535"
proof (cases n)
  case (Suc k)
  then show ?thesis by (simp add: canon_def mod_Suc_eq)
qed (simp add: canon_def)

lemma canon_unique:
  assumes "x mod 65535 = y mod 65535" "x = 0 \<longleftrightarrow> y = 0"
  shows "canon x = canon y"
proof (cases "x = 0")
  case False
  have same: "a = b" if "0 < a" "a \<le> 65535" "0 < b" "b \<le> 65535" "a mod 65535 = b mod 65535" for a b :: nat
    using that by (cases "a = 65535"; cases "b = 65535") auto
  have "canon x mod 65535 = canon y mod 65535" using assms(1) by (simp add: canon_mod)
  then show ?thesis
    using same [of "canon x" "canon y"] canon_le [of x] canon_le [of y] False assms(2)
    by (simp add: neq0_conv [symmetric] del: neq0_conv)
qed (use assms in simp)

lemma canon_add: "canon (canon x + y) = canon (x + y)"
  by (rule canon_unique) (auto simp: canon_mod mod_add_left_eq intro: mod_add_cong)

lemma canon_mult: "0 < k \<Longrightarrow> canon (k * canon x) = canon (k * x)"
  by (rule canon_unique) (auto simp: canon_mod mod_mult_right_eq intro: mod_mult_cong)

lemma canon_65536: "canon (65536 * x + y) = canon (x + y)"
proof (rule canon_unique)
  have "65536 * x + y = x + y + 65535 * x" by simp
  then show "(65536 * x + y) mod 65535 = (x + y) mod 65535" by (metis mod_mult_self2)
qed auto

lemma canon_cong_add: "canon x = canon x' \<Longrightarrow> canon (y + x) = canon (y + x')"
  by (metis add.commute canon_add)

lemma canon_cong_mult: "canon x = canon x' \<Longrightarrow> canon (256 * x) = canon (256 * x')"
  by (metis canon_mult zero_less_numeral)

lemma fold_canon: "canon (n div 65536 + n mod 65536) = canon n"
  using canon_65536 [of "n div 65536" "n mod 65536"] by simp

lemma fold_twice: "unat (FOLD_U32T (FOLD_U32T u)) = canon (unat u)"
proof -
  have u: "unat u < 65536 * 65536" using unsigned_less [where 'b = 32 and w = u and 'a = nat] by simp
  define n where "n = unat u div 65536 + unat u mod 65536"
  have "unat u div 65536 < 65536" using less_mult_imp_div_less [OF u] .
  moreover have "unat u mod 65536 < 65536" by simp
  ultimately have "n \<le> 2 * 65535" unfolding n_def by linarith
  then have n: "n div 65536 \<le> 1" "n \<le> 2 * 65535" using div_le_mono [of n "2 * 65535" 65536] by auto
  have "n = 65536 * (n div 65536) + n mod 65536" "n mod 65536 < 65536" by simp_all
  then have "n div 65536 + n mod 65536 \<le> 65535" using n by linarith
  then show ?thesis
    using fold_canon [of n] fold_canon [of "unat u"] canon_id by (simp add: unat_fold n_def)
qed

lemma swap_canon: "n \<le> 65535 \<Longrightarrow> 256 * (n mod 256) + n div 256 mod 256 = canon (256 * n)"
proof -
  assume n: "n \<le> 65535"
  have d: "n = 256 * (n div 256) + n mod 256" "n mod 256 < 256" by simp_all
  then have "256 * n = 65536 * (n div 256) + 256 * (n mod 256)" by linarith
  then have "canon (256 * n) = canon (n div 256 + 256 * (n mod 256))" using canon_65536 by metis
  moreover have q: "n div 256 \<le> 255" using n div_le_mono [of n 65535 256] by simp
  moreover have "n div 256 + 256 * (n mod 256) \<le> 65535" "n div 256 mod 256 = n div 256" using q d(2) by simp_all
  ultimately show ?thesis using canon_id by simp
qed

text \<open>Dropping the first byte moves all others to the other half of their units.\<close>

lemma byte_sum_Cons: "canon (byte_sum (b # r)) = canon (unat b + 256 * byte_sum r)"
proof (induction r arbitrary: b rule: byte_sum.induct)
  case (1 c d r)
  have "canon (byte_sum (b # c # d # r)) = canon (unat b + 256 * unat c + (unat d + 256 * byte_sum r))"
    using canon_cong_add [OF "1.IH" [of d], of "unat b + 256 * unat c"] by simp
  also have "\<dots> = canon (65536 * unat d + (unat b + 256 * unat c + 256 * byte_sum r))"
    by (subst canon_65536) (simp add: ac_simps)
  finally show ?case by (simp add: algebra_simps)
qed simp_all

lemma byte_sum_bound: "byte_sum bs \<le> 65535 * ((length bs + 1) div 2)"
proof (induction bs rule: byte_sum.induct)
  case (1 a b rest)
  have "(length (a # b # rest) + 1) div 2 = Suc ((length rest + 1) div 2)" by simp
  moreover have "unat a + 256 * unat b \<le> 65535" using unat_u8_bound [of a] unat_u8_bound [of b] by simp
  ultimately show ?case using 1 by simp
next
  case (2 a)
  then show ?case using unat_u8_bound [of a] by simp
qed simp

lemma byte_sum_small:
  assumes "length bs \<le> 65536"
  shows "byte_sum bs \<le> 2147450880"
proof -
  have "(length bs + 1) div 2 \<le> 32768" using assms by linarith
  then show ?thesis using byte_sum_bound [of bs] by linarith
qed

lemma byte_sum_append:
  "canon (byte_sum (xs @ ys)) = canon (byte_sum xs + (if even (length xs) then 1 else 256) * byte_sum ys)"
proof (induction xs rule: byte_sum.induct)
  case (1 a b rest)
  have "canon (byte_sum ((a # b # rest) @ ys)) = canon ((unat a + 256 * unat b) + byte_sum (rest @ ys))" by simp
  also have "\<dots> = canon (unat a + 256 * unat b + (byte_sum rest + (if even (length rest) then 1 else 256) * byte_sum ys))"
    by (rule canon_cong_add [OF 1])
  finally show ?case by (simp add: ac_simps)
next
  case (2 a)
  then show ?case using byte_sum_Cons [of a ys] by simp
qed simp

section \<open>All three implementations compute the ones' complement sum\<close>

lemma halves_sum:
  assumes "unat s + 256 * unat b + byte_sum bs < 4294967296"
  shows "\<exists>s' t'. chksum_halves bs s (push_bit 8 (ucast (b :: u8))) = (s', t') \<and>
    unat s' + unat t' = unat s + 256 * unat b + byte_sum bs"
  using assms
proof (induction bs arbitrary: s rule: byte_sum.induct)
  case (1 a c rest)
  have "unat (s + le16 a c) = unat s + unat a + 256 * unat c"
    using 1(2) by (simp add: unat_word_ariths unat_le16)
  then show ?case using 1(1) [of "s + le16 a c"] 1(2) by (simp add: ac_simps)
next
  case (2 a)
  have "(push_bit 8 (ucast b) AND 0xff00) OR ucast a = le16 a b"
  proof -
    have e: "(0xff00 :: u32) = push_bit 8 (mask 8)" by (simp add: mask_eq_exp_minus_1)
    have m: "bit (0xff00 :: u32) n \<longleftrightarrow> 8 \<le> n \<and> n < 16" for n
      unfolding e bit_push_bit_iff bit_mask_iff by auto
    show ?thesis
      by (rule bit_word_eqI, unfold le16_def bit_or_iff bit_and_iff m bit_push_bit_iff bit_ucast_iff)
        (auto dest: bit_imp_le_length)
  qed
  then show ?case by (simp add: unat_le16)
next
  case 3
  have "unat (push_bit 8 (ucast b :: u32)) = 256 * unat b"
    using unat_u8_bound [of b] by (simp add: push_bit_eq_mult unat_word_ariths)
  then show ?case by simp
qed

lemma finish_canon:
  assumes "unat s + unat t < 4294967296"
  shows "unat (chksum_finish addr s t) = canon ((if odd addr then 256 else 1) * (unat s + unat t))"
proof -
  have "unat (s + t) = unat s + unat t" using assms by (simp add: unat_word_ariths)
  then have f: "unat (FOLD_U32T (FOLD_U32T (s + t))) = canon (unat s + unat t)" by (simp add: fold_twice)
  have c: "unat (ucast w :: u16) = unat w" if "unat w \<le> 65535" for w :: u32
    using that by (simp add: unsigned_ucast_eq take_bit_nat_eq_self)
  show ?thesis
  proof (cases "odd addr")
    case True
    have "unat (SWAP_BYTES_IN_WORD (FOLD_U32T (FOLD_U32T (s + t)))) = canon (256 * (unat s + unat t))"
      unfolding unat_swap f swap_canon [OF canon_le] by (rule canon_mult) simp
    then show ?thesis using True c canon_le by (simp add: chksum_finish_def Let_def)
  next
    case False
    then show ?thesis using f c canon_le by (simp add: chksum_finish_def Let_def)
  qed
qed

lemma chksum2_correct:
  assumes "length bs \<le> 65536"
  shows "unat (lwip_standard_chksum2 addr bs) = canon (byte_sum bs)"
proof (cases "odd addr \<and> bs \<noteq> []")
  case True
  then obtain b r where b: "bs = b # r" by (cases bs) auto
  have "0 + 256 * unat b + byte_sum r < 4294967296"
    using byte_sum_small [of r] assms b unat_u8_bound [of b] by simp
  then obtain s t where h: "chksum_halves r 0 (push_bit 8 (ucast b)) = (s, t)"
    "unat s + unat t = 256 * unat b + byte_sum r" "unat s + unat t < 4294967296"
    using halves_sum [of 0 b r] by auto
  have "lwip_standard_chksum2 addr bs = chksum_finish addr s t"
    using True b h(1) by (simp add: lwip_standard_chksum2_def chksum_head_def)
  then have "unat (lwip_standard_chksum2 addr bs) = canon (256 * (256 * unat b + byte_sum r))"
    using finish_canon [OF h(3), of addr] True h(2) by simp
  also have "\<dots> = canon (65536 * unat b + 256 * byte_sum r)" by (simp add: algebra_simps)
  finally show ?thesis unfolding b byte_sum_Cons canon_65536 .
next
  case False
  have h: "chksum_head addr bs = (bs, push_bit 8 (ucast (0 :: u8)))" using False by (auto simp: chksum_head_def)
  obtain s t where r: "chksum_halves bs 0 (push_bit 8 (ucast (0 :: u8))) = (s, t)" "unat s + unat t = byte_sum bs"
    using halves_sum [of 0 0 bs] byte_sum_small [OF assms] by auto
  have "lwip_standard_chksum2 addr bs = chksum_finish addr s t"
    using h r(1) by (simp add: lwip_standard_chksum2_def)
  then show ?thesis
    using finish_canon [of s t addr] r(2) byte_sum_small [OF assms] False by (cases "bs = []") auto
qed

fun be_sum :: "u8 list \<Rightarrow> nat" where
  "be_sum (a # b # rest) = unat b + 256 * unat a + be_sum rest"
| "be_sum [a] = 256 * unat a"
| "be_sum [] = 0"

lemma be_sum_canon: "canon (256 * be_sum bs) = canon (byte_sum bs)"
proof (induction bs rule: be_sum.induct)
  case (1 a b rest)
  have "canon (256 * be_sum (a # b # rest)) = canon (65536 * unat a + (256 * unat b + 256 * be_sum rest))"
    by (simp add: algebra_simps)
  also have "\<dots> = canon ((unat a + 256 * unat b) + 256 * be_sum rest)" unfolding canon_65536 by (simp only: ac_simps)
  also have "\<dots> = canon ((unat a + 256 * unat b) + byte_sum rest)" by (rule canon_cong_add [OF 1])
  finally show ?case by simp
next
  case (2 a)
  then show ?case using canon_65536 [of "unat a" 0] by simp
qed simp

lemma be_sum_bound: "be_sum bs \<le> 65535 * ((length bs + 1) div 2)"
proof (induction bs rule: be_sum.induct)
  case (1 a b rest)
  have "(length (a # b # rest) + 1) div 2 = Suc ((length rest + 1) div 2)" by simp
  moreover have "unat b + 256 * unat a \<le> 65535" using unat_u8_bound [of a] unat_u8_bound [of b] by simp
  ultimately show ?case using 1 by simp
next
  case (2 a)
  then show ?case using unat_u8_bound [of a] by simp
qed simp

lemma be16: "push_bit 8 (ucast a) OR ucast b = le16 b a"
  by (simp add: le16_def or.commute)

lemma chksum1_sum:
  "unat acc + be_sum bs < 4294967296 \<Longrightarrow> unat (chksum1_loop bs acc) = unat acc + be_sum bs"
proof (induction bs arbitrary: acc rule: be_sum.induct)
  case (1 a b rest)
  then have "unat (acc + le16 b a) = unat acc + unat b + 256 * unat a"
    by (simp add: unat_word_ariths unat_le16)
  then show ?case using 1(1) [of "acc + le16 b a"] 1(2) by (simp only: chksum1_loop.simps be16) simp
next
  case (2 a)
  then show ?case
    using be16 [of a 0] unat_le16 [of 0 a] by (simp add: unat_word_ariths)
qed simp

lemma fold_small: "acc AND 0xffff0000 = 0 \<Longrightarrow> FOLD_U32T acc = acc"
proof -
  assume z: "acc AND 0xffff0000 = 0"
  have e: "(0xffff0000 :: u32) = push_bit 16 (mask 16)" by (simp add: mask_eq_exp_minus_1)
  have m: "bit (0xffff0000 :: u32) n \<longleftrightarrow> 16 \<le> n \<and> n < 32" for n
    unfolding e bit_push_bit_iff bit_mask_iff by auto
  have b: "\<not> bit acc n" if "16 \<le> n" for n
    using arg_cong [OF z, of "\<lambda>w. bit w n"] that bit_imp_le_length [of acc n]
    unfolding bit_and_iff m by auto
  have "drop_bit 16 acc = 0" by (rule bit_word_eqI) (auto simp: bit_drop_bit_eq b)
  moreover have "acc AND 0xffff = acc"
  proof -
    have "acc AND 0xffff = take_bit 16 acc" by (simp add: take_bit_eq_mask mask_eq_exp_minus_1)
    also have "\<dots> = acc" by (rule bit_word_eqI) (use b in \<open>auto simp: bit_take_bit_iff simp flip: not_le\<close>)
    finally show ?thesis .
  qed
  ultimately show ?thesis by (simp add: FOLD_U32T_def)
qed

lemma chksum1_correct:
  assumes "length bs \<le> 65536"
  shows "unat (lwip_standard_chksum1 addr bs) = canon (byte_sum bs)"
proof -
  have "(length bs + 1) div 2 \<le> 32768" using assms by linarith
  then have l: "unat (chksum1_loop bs 0) = be_sum bs"
    using be_sum_bound [of bs] chksum1_sum [of 0 bs] by simp
  let ?a = "FOLD_U32T (FOLD_U32T (chksum1_loop bs 0))"
  have a: "unat ?a = canon (be_sum bs)" by (simp add: fold_twice l)
  then have u: "ucast (ucast ?a :: u16) = ?a"
    using canon_le [of "be_sum bs"]
    unfolding word_unat_eq_iff unsigned_ucast_eq by (simp add: unsigned_take_bit_eq a take_bit_nat_eq_self)
  have "lwip_standard_chksum1 addr bs = LWIP_PLATFORM_HTONS (ucast (ucast ?a :: u16))"
    using fold_small [of "FOLD_U32T (chksum1_loop bs 0)"]
    by (simp add: lwip_standard_chksum1_def Let_def FOLD_U32T_def [symmetric])
  then have "unat (lwip_standard_chksum1 addr bs) = canon (256 * canon (be_sum bs))"
    unfolding u by (simp only: unat_htons a swap_canon [OF canon_le])
  then show ?thesis by (simp add: canon_mult be_sum_canon)
qed

lemma add_carry_canon: "canon (unat (add_carry s w) + x) = canon (unat s + unat w + x)"
proof (cases "unat s + unat w < 4294967296")
  case True
  then have "unat (s + w) = unat s + unat w" by (simp add: unat_word_ariths)
  then show ?thesis by (simp add: add_carry_def word_less_nat_alt)
next
  case False
  have b: "unat s < 4294967296" "unat w < 4294967296"
    using unsigned_less [where 'b = 32 and w = s and 'a = nat] unsigned_less [where 'b = 32 and w = w and 'a = nat] by auto
  then have t: "unat (s + w) = unat s + unat w - 4294967296"
    using False by (simp add: unat_word_ariths mod_if)
  then have "s + w < s" using b False by (simp add: word_less_nat_alt)
  moreover have "unat (s + w + 1) = unat s + unat w - 4294967295"
    using t b False by (simp add: unat_word_ariths)
  ultimately have e: "unat s + unat w + x = unat (add_carry s w) + x + 4294967295"
    using False by (simp add: add_carry_def)
  have "unat (add_carry s w) \<noteq> 0" using False b e by linarith
  then show ?thesis
    unfolding e using mod_mult_self2 [of "unat (add_carry s w) + x" 65535 65537]
    by (intro canon_unique) (auto simp: add.commute)
qed

lemma words_canon:
  "chksum_words bs s = (rest, s') \<Longrightarrow> canon (unat s' + byte_sum rest) = canon (unat s + byte_sum bs) \<and> length rest < 8"
proof (induction bs s arbitrary: rest s' rule: chksum_words.induct)
  case (1 a b c d e f g h bs s)
  have le: "canon (unat (le32 p q r t) + x) = canon (unat p + 256 * unat q + unat r + 256 * unat t + x)" for p q r t x
    using canon_65536 [of "unat r + 256 * unat t" "unat p + 256 * unat q + x"]
    by (simp add: unat_le32 ac_simps)
  have "canon (unat s' + byte_sum rest) =
      canon (unat (add_carry (add_carry s (le32 a b c d)) (le32 e f g h)) + byte_sum bs)" "length rest < 8"
    using 1 by auto
  moreover have "canon (unat (add_carry (add_carry s (le32 a b c d)) (le32 e f g h)) + byte_sum bs) =
      canon (unat (le32 a b c d) + (unat (le32 e f g h) + (unat s + byte_sum bs)))"
    unfolding add_carry_canon using add_carry_canon [of s "le32 a b c d" "unat (le32 e f g h) + byte_sum bs"]
    by (simp add: ac_simps)
  moreover have "\<dots> = canon (unat a + 256 * unat b + unat c + 256 * unat d +
      (unat (le32 e f g h) + (unat s + byte_sum bs)))" by (rule le)
  moreover have "\<dots> = canon (unat s + byte_sum (a # b # c # d # e # f # g # h # bs))"
    using le [of e f g h "unat a + 256 * unat b + unat c + 256 * unat d + (unat s + byte_sum bs)"]
    by (simp add: ac_simps)
  ultimately show ?case by simp
qed auto

lemma align_sum: "chksum_align addr bs = (rest, s) \<Longrightarrow> unat s + byte_sum rest = byte_sum bs"
  by (auto simp: chksum_align_def unat_le16 split: if_splits list.splits)

lemma chksum3_correct: "unat (lwip_standard_chksum3 addr bs) = canon (byte_sum bs)"
proof -
  obtain r0 t0 where h: "chksum_head addr bs = (r0, t0)" by (cases "chksum_head addr bs")
  obtain r1 s1 where a: "chksum_align (addr + (length bs - length r0)) r0 = (r1, s1)"
    by (cases "chksum_align (addr + (length bs - length r0)) r0")
  obtain r2 s2 where w: "chksum_words r1 s1 = (r2, s2)" by (cases "chksum_words r1 s1")
  have c: "canon (unat s2 + byte_sum r2) = canon (byte_sum r0)" "length r2 < 8"
    using words_canon [OF w] align_sum [OF a] by auto
  define b where "b = (if odd addr \<and> bs \<noteq> [] then hd bs else 0)"
  have t0: "t0 = push_bit 8 (ucast b)"
    using h by (auto simp: chksum_head_def b_def split: if_splits list.splits)
  have "unat s2 < 4294967296" using unsigned_less [where 'b = 32 and w = s2 and 'a = nat] by simp
  then have "unat s2 div 65536 \<le> 65535" "unat s2 mod 65536 \<le> 65535"
    using less_mult_imp_div_less [of "unat s2" 65536 65536] by (auto simp flip: less_Suc_eq_le)
  then have f: "unat (FOLD_U32T s2) \<le> 131070" unfolding unat_fold by linarith
  have "(length r2 + 1) div 2 \<le> 4" using c(2) by linarith
  then have r2: "byte_sum r2 \<le> 262140" using byte_sum_bound [of r2] by linarith
  obtain s t where l: "chksum_halves r2 (FOLD_U32T s2) t0 = (s, t)"
    "unat s + unat t = unat (FOLD_U32T s2) + 256 * unat b + byte_sum r2"
    using halves_sum [of "FOLD_U32T s2" b r2] f r2 unat_u8_bound [of b] t0 by auto
  let ?k = "if odd addr then 256 else 1 :: nat"
  have "lwip_standard_chksum3 addr bs = chksum_finish addr s t"
    by (simp add: lwip_standard_chksum3_def h a w l(1))
  moreover have "unat s + unat t < 4294967296" using l(2) f r2 unat_u8_bound [of b] by simp
  ultimately have "unat (lwip_standard_chksum3 addr bs) = canon (?k * (unat (FOLD_U32T s2) + 256 * unat b + byte_sum r2))"
    using finish_canon [of s t addr] l(2) by simp
  also have "\<dots> = canon (?k * (256 * unat b + byte_sum r0))"
  proof -
    have "canon (unat (FOLD_U32T s2) + byte_sum r2) = canon (unat s2 + byte_sum r2)"
      using canon_add [of "unat s2" "byte_sum r2"] canon_add [of "unat s2 div 65536 + unat s2 mod 65536" "byte_sum r2"]
      by (simp add: unat_fold fold_canon)
    then have "canon (256 * unat b + (unat (FOLD_U32T s2) + byte_sum r2)) = canon (256 * unat b + byte_sum r0)"
      using c(1) by (intro canon_cong_add) simp
    note e = this [folded add.assoc, unfolded add.commute [of "256 * unat b" "unat (FOLD_U32T s2)"]]
    show ?thesis using e canon_cong_mult [OF e] by (cases "odd addr") (simp_all only: if_True if_False mult_1 not_False_eq_True)
  qed
  also have "\<dots> = canon (byte_sum bs)"
  proof (cases "odd addr \<and> bs \<noteq> []")
    case True
    then obtain b' where bs: "bs = b' # r0" using h by (auto simp: chksum_head_def split: list.splits)
    have "256 * (256 * unat b' + byte_sum r0) = 65536 * unat b' + 256 * byte_sum r0" by (simp add: algebra_simps)
    then show ?thesis using True bs byte_sum_Cons [of b' r0] canon_65536 by (simp add: b_def)
  next
    case False
    then show ?thesis using h by (auto simp: chksum_head_def b_def split: if_splits list.splits)
  qed
  finally show ?thesis .
qed

section \<open>The interface of a checksum routine\<close>

text \<open>
  What the checksums over chains rely on: \<open>LWIP_CHKSUM\<close> yields the ones' complement sum of its
  bytes, whatever the address they start at.
\<close>

locale chksum_routine =
  fixes chk :: chksum
  assumes chk_sum: "length bs \<le> 65535 \<Longrightarrow> unat (chk addr bs) = canon (byte_sum bs)"
begin

lemma chain_step:
  assumes "length bs \<le> 65535" "unat acc \<le> 65535"
  shows "unat (FOLD_U32T (acc + ucast (chk addr bs))) = canon (unat acc + byte_sum bs)"
    and "unat (FOLD_U32T (acc + ucast (chk addr bs))) \<le> 65535"
proof -
  let ?c = "canon (byte_sum bs)"
  have u: "unat (acc + ucast (chk addr bs)) = unat acc + ?c"
    using assms canon_le [of "byte_sum bs"] chk_sum [of bs addr] by (simp add: unat_word_ariths)
  have "(unat acc + ?c) div 65536 \<le> 1" using assms(2) canon_le [of "byte_sum bs"] by linarith
  moreover have "(unat acc + ?c) mod 65536 \<le> 65535" by (simp flip: less_Suc_eq_le)
  moreover have "unat acc + ?c = 65536 * ((unat acc + ?c) div 65536) + (unat acc + ?c) mod 65536" by simp
  ultimately have le: "(unat acc + ?c) div 65536 + (unat acc + ?c) mod 65536 \<le> 65535"
    using assms(2) canon_le [of "byte_sum bs"] by linarith
  then show "unat (FOLD_U32T (acc + ucast (chk addr bs))) \<le> 65535" by (simp add: unat_fold u)
  have "canon (unat acc + ?c) = canon (unat acc + byte_sum bs)"
    using canon_add [of "byte_sum bs" "unat acc"] by (simp add: add.commute)
  then show "unat (FOLD_U32T (acc + ucast (chk addr bs))) = canon (unat acc + byte_sum bs)"
    using le canon_id fold_canon by (metis u unat_fold)
qed

text \<open>
  \<open>acc\<close>, with the swap flag \<open>sw\<close>, stands for the sum \<open>X\<close>: swapped accumulators hold 256 times
  it.  Toggling the flag, adding a buffer and undoing the swap keep the meaning.
\<close>

definition stands_for :: "u32 \<Rightarrow> bool \<Rightarrow> nat \<Rightarrow> bool" where
  "stands_for acc sw X \<longleftrightarrow> unat acc \<le> 65535 \<and> unat acc = canon ((if sw then 256 else 1) * X)"

lemma stands_for_swap: "stands_for acc sw X \<Longrightarrow> stands_for (SWAP_BYTES_IN_WORD acc) (\<not> sw) X"
proof -
  assume s: "stands_for acc sw X"
  then have "unat (SWAP_BYTES_IN_WORD acc) = canon (256 * canon ((if sw then 256 else 1) * X))"
    unfolding stands_for_def unat_swap by (simp only: swap_canon [OF canon_le])
  also have "\<dots> = canon ((if \<not> sw then 256 else 1) * X)"
    using canon_65536 [of X 0] by (simp add: canon_mult)
  finally show ?thesis using canon_le by (simp add: stands_for_def)
qed

lemma stands_for_cong: "canon X = canon Y \<Longrightarrow> stands_for acc sw X \<Longrightarrow> stands_for acc sw Y"
  using canon_cong_mult [of X Y] by (auto simp: stands_for_def split: if_splits)

lemma stands_for_final:
  assumes "stands_for acc sw X"
  shows "unat (if sw then SWAP_BYTES_IN_WORD acc else acc) = canon X"
  using assms stands_for_swap [OF assms] by (cases sw) (simp_all add: stands_for_def)

lemma stands_for_add:
  assumes s: "stands_for acc sw X" and l: "length bs \<le> 65535"
  shows "stands_for (FOLD_U32T (acc + ucast (chk addr bs))) sw (X + (if sw then 256 else 1) * byte_sum bs)"
proof -
  let ?k = "if sw then 256 else 1 :: nat"
  have a: "unat acc \<le> 65535" "unat acc = canon (?k * X)" using s by (auto simp: stands_for_def)
  have "canon (unat acc + byte_sum bs) = canon (?k * X + byte_sum bs)" unfolding a(2) by (rule canon_add)
  also have "\<dots> = canon (?k * (X + ?k * byte_sum bs))"
    using canon_65536 [of "byte_sum bs" "256 * X"] by (simp add: algebra_simps)
  finally show ?thesis using chain_step [OF l a(1), of addr] by (simp add: stands_for_def)
qed

text \<open>A chain sums like its bytes in one piece, however they are cut into pbufs.\<close>

lemma chain_sum_stands_for:
  assumes "\<forall>q\<in>set qs. length (chk_bytes q) \<le> 65535" "stands_for acc sw (byte_sum D)" "sw \<longleftrightarrow> odd (length D)"
  shows "\<exists>acc' sw'. chain_sum chk qs acc sw = (acc', sw') \<and>
    stands_for acc' sw' (byte_sum (D @ concat (map chk_bytes qs)))"
  using assms
proof (induction qs arbitrary: acc sw D)
  case (Cons q qs)
  let ?b = "chk_bytes q" and ?acc = "FOLD_U32T (acc + ucast (chk (chk_payload q) (chk_bytes q)))"
  have "stands_for ?acc sw (byte_sum D + (if sw then 256 else 1) * byte_sum ?b)"
    using stands_for_add [OF Cons.prems(2)] Cons.prems(1) by simp
  moreover have "canon (byte_sum D + (if sw then 256 else 1) * byte_sum ?b) = canon (byte_sum (D @ ?b))"
    unfolding byte_sum_append using Cons.prems(3) by auto
  ultimately have "stands_for ?acc sw (byte_sum (D @ ?b))" using stands_for_cong by blast
  note acc = this
  show ?case
  proof (cases "even (length ?b)")
    case True
    then show ?thesis using Cons.IH [OF _ acc] Cons.prems(1,3) by (simp add: Let_def)
  next
    case False
    then have "length ?b mod 2 \<noteq> 0" by presburger
    then show ?thesis using Cons.IH [OF _ stands_for_swap [OF acc]] Cons.prems(1,3) False by (simp add: Let_def)
  qed
qed auto

lemma chain_sum_partial_stands_for:
  assumes "\<forall>q\<in>set qs. length (chk_bytes q) \<le> 65535" "stands_for acc sw (byte_sum D)" "sw \<longleftrightarrow> odd (length D)"
  shows "\<exists>acc' sw'. chain_sum_partial chk qs acc sw n = (acc', sw') \<and>
    stands_for acc' sw' (byte_sum (D @ take n (concat (map chk_bytes qs))))"
  using assms
proof (induction qs arbitrary: acc sw D n)
  case (Cons q qs)
  show ?case
  proof (cases "n = 0")
    case False
    let ?b = "take n (chk_bytes q)" and ?acc = "FOLD_U32T (acc + ucast (chk (chk_payload q) (take n (chk_bytes q))))"
    have t: "take (min (length (chk_bytes q)) n) (chk_bytes q) = ?b" by (metis min.commute take_all_iff min_def nle_le)
    have "stands_for ?acc sw (byte_sum D + (if sw then 256 else 1) * byte_sum ?b)"
    proof (rule stands_for_add [OF Cons.prems(2)])
      show "length ?b \<le> 65535" using Cons.prems(1) by (auto simp: min_le_iff_disj)
    qed
    moreover have "canon (byte_sum D + (if sw then 256 else 1) * byte_sum ?b) = canon (byte_sum (D @ ?b))"
      unfolding byte_sum_append using Cons.prems(3) by auto
    ultimately have acc: "stands_for ?acc sw (byte_sum (D @ ?b))" using stands_for_cong by blast
    show ?thesis
    proof (cases "length (chk_bytes q) \<le> n")
      case True
      note T = True
      show ?thesis
      proof (cases "even (length (chk_bytes q))")
        case True
        then show ?thesis
          using Cons.IH [OF _ acc, of "n - length (chk_bytes q)"] Cons.prems(1,3) False T by (simp add: Let_def)
      next
        case odd: False
        then have "length (chk_bytes q) mod 2 \<noteq> 0" by presburger
        then show ?thesis
          using Cons.IH [OF _ stands_for_swap [OF acc], of "n - length (chk_bytes q)"] Cons.prems(1,3) odd False T
          by (simp add: Let_def)
      qed
    next
      case part: False
      have stop: "chain_sum_partial chk qs a w 0 = (a, w)" for a w by (cases qs) simp_all
      show ?thesis
        using part False acc stands_for_swap [OF acc] t by (auto simp: Let_def min_def stop)
    qed
  qed (use Cons in simp)
qed auto

lemma pseudo_header_sum:
  assumes "stands_for acc sw X"
  shows "unat (pseudo_header src (acc, sw) dest proto len) = 65535 -
    canon (unat src mod 65536 + unat src div 65536 + unat dest mod 65536 + unat dest div 65536 +
      256 * unat proto + (256 * (unat len mod 256) + unat len div 256) + X)"
proof -
  have a: "w AND 0xffff = take_bit 16 w" for w :: u32 by (simp add: take_bit_eq_mask mask_eq_exp_minus_1)
  have lo: "unat (w AND 0xffff) = unat w mod 65536" for w :: u32
    by (simp add: a unsigned_take_bit_eq take_bit_eq_mod unat_mod)
  have hi: "unat (drop_bit 16 w AND 0xffff) = unat w div 65536" for w :: u32
  proof -
    have "unat w < 65536 * 65536" using unsigned_less [where 'b = 32 and w = w and 'a = nat] by simp
    then have "unat w div 65536 < 65536" by (rule less_mult_imp_div_less)
    then show ?thesis by (simp add: lo unsigned_drop_bit_eq drop_bit_eq_div unat_div)
  qed
  have b: "unat w mod 65536 \<le> 65535" "unat w div 65536 \<le> 65535" for w :: u32
    using unsigned_less [where 'b = 32 and w = w and 'a = nat] less_mult_imp_div_less [of "unat w" 65536 65536]
    by (simp_all flip: less_Suc_eq_le)
  define A where "A = (if sw then SWAP_BYTES_IN_WORD acc else acc)"
  have A: "unat A = canon X" "unat A \<le> 65535"
    using stands_for_final [OF assms] canon_le by (simp_all add: A_def)
  have p: "unat (LWIP_PLATFORM_HTONS (ucast proto)) = 256 * unat proto"
    using unat_u8_bound [of proto] by (simp add: unat_htons)
  have l: "unat (LWIP_PLATFORM_HTONS (ucast len)) = 256 * (unat len mod 256) + unat len div 256"
    using less_mult_imp_div_less [of "unat len" 256 256] unat_u16_bound [of len] by (simp add: unat_htons)
  let ?t = "A + (src AND 0xffff) + (drop_bit 16 src AND 0xffff) + (dest AND 0xffff) +
    (drop_bit 16 dest AND 0xffff) + ucast (LWIP_PLATFORM_HTONS (ucast proto)) + ucast (LWIP_PLATFORM_HTONS (ucast len))"
  let ?n = "unat src mod 65536 + unat src div 65536 + unat dest mod 65536 + unat dest div 65536 +
      256 * unat proto + (256 * (unat len mod 256) + unat len div 256)"
  have "256 * unat proto \<le> 65535" using unat_u8_bound [of proto] by simp
  moreover have "256 * (unat len mod 256) + unat len div 256 \<le> 65535" unfolding l [symmetric] by simp
  ultimately have "unat ?t = unat A + ?n"
    using A(2) b [of src] b [of dest] by (simp only: unat_word_ariths hi) (simp add: lo p l)
  then have f: "unat (FOLD_U32T (FOLD_U32T ?t)) = canon (?n + X)"
    using canon_add [of X ?n] by (simp add: fold_twice A(1) add.commute)
  define r where "r = FOLD_U32T (FOLD_U32T ?t)"
  have "pseudo_header src (acc, sw) dest proto len = ucast (NOT (r AND 0xffff))"
    by (simp only: pseudo_header_def Let_def prod.case A_def [symmetric] r_def)
  also have "\<dots> = NOT (ucast r)"
    unfolding a by (rule bit_word_eqI) (auto simp: bit_simps)
  also have "unat \<dots> = 65535 - unat r"
    using f canon_le [of "?n + X"]
    by (simp add: r_def unat_not16 unsigned_ucast_eq take_bit_nat_eq_self)
  finally show ?thesis using f by (simp only: r_def)
qed

text \<open>The pseudo header as bytes in transmission order.\<close>

lemma chain_chksum:
  assumes "\<forall>q\<in>set p. length (chk_bytes q) \<le> 65535"
  shows "unat (inet_chksum_pbuf chk p) = 65535 - canon (byte_sum (concat (map chk_bytes p)))"
proof -
  have "stands_for 0 False (byte_sum [])" by (simp add: stands_for_def canon_def)
  then obtain acc sw where c: "chain_sum chk p 0 False = (acc, sw)" "stands_for acc sw (byte_sum (concat (map chk_bytes p)))"
    using chain_sum_stands_for [OF assms, of 0 False "[]"] by auto
  define r where "r = (if sw then SWAP_BYTES_IN_WORD acc else acc)"
  have r: "unat r = canon (byte_sum (concat (map chk_bytes p)))" using stands_for_final [OF c(2)] by (simp only: r_def)
  have a: "w AND 0xffff = take_bit 16 w" for w :: u32 by (simp add: take_bit_eq_mask mask_eq_exp_minus_1)
  have "inet_chksum_pbuf chk p = ucast (NOT (r AND 0xffff))" by (simp only: inet_chksum_pbuf_def c(1) Let_def prod.case r_def)
  also have "\<dots> = NOT (ucast r)" unfolding a by (rule bit_word_eqI) (auto simp: bit_simps)
  finally show ?thesis
    using r canon_le [of "byte_sum (concat (map chk_bytes p))"]
    by (simp add: unat_not16 unsigned_ucast_eq take_bit_nat_eq_self)
qed

lemma inet_chksum_value:
  "length bs \<le> 65535 \<Longrightarrow> unat (inet_chksum chk addr bs) = 65535 - canon (byte_sum bs)"
  by (simp add: inet_chksum_def unat_not16 chk_sum)

end

interpretation chksum1: chksum_routine lwip_standard_chksum1
  by unfold_locales (simp add: chksum1_correct)

interpretation chksum2: chksum_routine lwip_standard_chksum2
  by unfold_locales (simp add: chksum2_correct)

interpretation chksum3: chksum_routine lwip_standard_chksum3
  by unfold_locales (rule chksum3_correct)

section \<open>The contract of the checksums\<close>

text \<open>
  C16. The three implementations of LWIP_CHKSUM agree.  On every buffer of at most 65535 bytes
  and for every alignment of its address, the portable byte loop, the 16-bit loop and the
  unrolled 32-bit loop with carries added back return the same checksum, the ones' complement
  sum of the bytes.
\<close>

theorem chksum_algorithms_agree:
  assumes "length bs \<le> 65535"
  shows "lwip_standard_chksum2 addr bs = lwip_standard_chksum1 addr bs \<and>
    lwip_standard_chksum3 addr bs = lwip_standard_chksum1 addr bs \<and>
    unat (lwip_standard_chksum2 addr bs) = canon (byte_sum bs)"
  using chksum1.chk_sum [OF assms, of addr] chksum2.chk_sum [OF assms, of addr] chksum3.chk_sum [OF assms, of addr]
  by (simp add: word_unat_eq_iff)

lemma chksum_algorithms_agree_witness: "lwip_standard_chksum2 3 [1, 2, 3] = lwip_standard_chksum1 3 [1, 2, 3]"
  using chksum_algorithms_agree [of "[1, 2, 3]" 3] by simp

text \<open>
  C17. The checksum of a pbuf chain does not depend on how it is cut.  Over any chain, odd
  pbuf lengths, empty pbufs and unaligned payloads included, inet_chksum_pbuf is the
  inet_chksum of the concatenated bytes.
\<close>

theorem chain_chksum_is_flat:
  assumes "length (concat (map chk_bytes p)) \<le> 65535"
  shows "inet_chksum_pbuf lwip_standard_chksum2 p = inet_chksum lwip_standard_chksum2 addr (concat (map chk_bytes p))"
proof -
  have "\<forall>q\<in>set p. length (chk_bytes q) \<le> 65535"
    using assms member_le_sum_list [of _ "map (length \<circ> chk_bytes) p"] by (fastforce simp: length_concat comp_def)
  then show ?thesis
    using chksum2.chain_chksum [of p] chksum2.inet_chksum_value [OF assms, of addr] by (simp add: word_unat_eq_iff)
qed

lemma chain_chksum_is_flat_witness:
  "inet_chksum_pbuf lwip_standard_chksum2 [\<lparr>chk_payload = 1, chk_bytes = [1, 2, 3]\<rparr>, \<lparr>chk_payload = 4, chk_bytes = [4]\<rparr>] =
   inet_chksum lwip_standard_chksum2 0 [1, 2, 3, 4]"
  using chain_chksum_is_flat [of "[\<lparr>chk_payload = 1, chk_bytes = [1, 2, 3]\<rparr>, \<lparr>chk_payload = 4, chk_bytes = [4]\<rparr>]" 0]
  by simp

text \<open>
  C18. What the sender writes, the receiver accepts.  If a packet's checksum field, two zero
  bytes at an even offset, is overwritten with inet_chksum of the packet in memory order, the
  inet_chksum of the result is 0.
\<close>

theorem chksum_verifies:
  assumes "even (length pre)" "length (pre @ 0 # 0 # post) \<le> 65535"
    and "c = inet_chksum lwip_standard_chksum2 addr (pre @ 0 # 0 # post)"
  shows "inet_chksum lwip_standard_chksum2 addr' (pre @ ucast c # ucast (drop_bit 8 c) # post) = 0"
proof -
  let ?z = "pre @ 0 # 0 # post" and ?p = "pre @ ucast c # ucast (drop_bit 8 c) # post"
  have c: "unat c = 65535 - canon (byte_sum ?z)" using chksum2.inet_chksum_value [OF assms(2)] assms(3) by simp
  have lo: "unat (ucast c :: u8) = unat c mod 256" by (simp add: unsigned_ucast_eq take_bit_eq_mod)
  have hi: "unat (ucast (drop_bit 8 c) :: u8) = unat c div 256"
    using less_mult_imp_div_less [of "unat c" 256 256] unat_u16_bound [of c]
    by (simp add: unsigned_ucast_eq take_bit_eq_mod unsigned_drop_bit_eq drop_bit_eq_div unat_div)
  have cut: "canon (byte_sum (pre @ a # b # post)) = canon (byte_sum pre + (unat a + 256 * unat b) + byte_sum post)" for a b
    using byte_sum_append [of pre "a # b # post"] assms(1) by (simp add: add.assoc)
  have m: "unat c mod 256 + 256 * (unat c div 256) = unat c" by simp
  have "canon (byte_sum ?p) = canon (byte_sum pre + unat c + byte_sum post)" unfolding cut lo hi m ..
  also have "\<dots> = canon (byte_sum pre + byte_sum post + unat c)" by (simp add: ac_simps)
  also have "\<dots> = canon (canon (byte_sum ?z) + unat c)" unfolding cut [of 0 0] by (simp add: canon_add)
  also have "\<dots> = 65535" using c canon_le [of "byte_sum ?z"] by (simp add: canon_def)
  finally have "unat (inet_chksum lwip_standard_chksum2 addr' ?p) = 0"
    using chksum2.inet_chksum_value [of ?p addr'] assms(2) by simp
  then show ?thesis by (simp add: unat_eq_0)
qed

lemma chksum_verifies_witness:
  "inet_chksum lwip_standard_chksum2 0 ([0x45, 7] @ ucast (inet_chksum lwip_standard_chksum2 0 [0x45, 7, 0, 0, 9]) #
     ucast (drop_bit 8 (inet_chksum lwip_standard_chksum2 0 [0x45, 7, 0, 0, 9])) # [9]) = 0"
  using chksum_verifies [of "[0x45, 7]" "[9]" _ 0 0] by simp

text \<open>The pseudo header of RFC 793 as the bytes it stands for, in network order.\<close>

definition ip_bytes :: "u32 \<Rightarrow> u8 list" where
  "ip_bytes a = [ucast a, ucast (drop_bit 8 a), ucast (drop_bit 16 a), ucast (drop_bit 24 a)]"

definition pseudo_bytes :: "u32 \<Rightarrow> u32 \<Rightarrow> u8 \<Rightarrow> u16 \<Rightarrow> u8 list" where
  "pseudo_bytes src dest proto len =
     ip_bytes src @ ip_bytes dest @ [0, proto, ucast (drop_bit 8 len), ucast len]"

lemma ip_bytes_sum: "byte_sum (ip_bytes a @ bs) = unat a mod 65536 + unat a div 65536 + byte_sum bs"
proof -
  define n where "n = unat a"
  have n: "n < 2 ^ 32" using unsigned_less [where 'b = 32 and w = a and 'a = nat] by (simp add: n_def)
  have b: "unat (ucast (drop_bit k a) :: u8) = n div 2 ^ k mod 256" for k
    using n unfolding n_def unsigned_ucast_eq unsigned_drop_bit_eq by (simp add: take_bit_eq_mod drop_bit_eq_div)
  have b0: "unat (ucast a :: u8) = n mod 256" using b [of 0] by simp
  have q: "n div 65536 div 256 = n div 16777216" by (simp add: div_mult2_eq [symmetric])
  have "n div 16777216 mod 256 = n div 16777216" using n less_mult_imp_div_less [of n 256 16777216] by simp
  moreover have "n mod 65536 = n mod 256 + 256 * (n div 256 mod 256)"
    using mod_mult2_eq [of n 256 256] by simp
  moreover have "n div 65536 = n div 65536 mod 256 + 256 * (n div 16777216)"
    using mod_mult_div_eq [of "n div 65536" 256] unfolding q by simp
  ultimately show ?thesis
    using b [of 8] b [of 16] b [of 24] b0 by (simp add: ip_bytes_def n_def [symmetric])
qed

lemma pseudo_bytes_sum:
  "byte_sum (pseudo_bytes src dest proto len @ bs) =
     unat src mod 65536 + unat src div 65536 + unat dest mod 65536 + unat dest div 65536 +
     256 * unat proto + (256 * (unat len mod 256) + unat len div 256) + byte_sum bs"
proof -
  have h: "unat (ucast (drop_bit 8 len) :: u8) = unat len div 256"
    using less_mult_imp_div_less [of "unat len" 256 256] unat_u16_bound [of len]
    by (simp add: unsigned_ucast_eq take_bit_eq_mod unsigned_drop_bit_eq drop_bit_eq_div unat_div)
  have l: "unat (ucast len :: u8) = unat len mod 256" by (simp add: unsigned_ucast_eq take_bit_eq_mod)
  show ?thesis unfolding pseudo_bytes_def append_assoc ip_bytes_sum by (simp add: h l)
qed

text \<open>
  The pseudo-header checksums of TCP and UDP.  Both compute the ones' complement of the sum
  over the bytes of the pseudo header followed by the data of the chain: inet_chksum_pseudo over
  all of it, inet_chksum_pseudo_partial over its first chksum_len bytes, even when that cuts a
  pbuf of odd length in the middle.
\<close>

theorem pseudo_chksum_is_flat:
  assumes "\<forall>q\<in>set p. length (chk_bytes q) \<le> 65535"
  shows "unat (inet_chksum_pseudo lwip_standard_chksum2 p src dest proto len) =
      65535 - canon (byte_sum (pseudo_bytes src dest proto len @ concat (map chk_bytes p))) \<and>
    unat (inet_chksum_pseudo_partial lwip_standard_chksum2 p src dest proto len n) =
      65535 - canon (byte_sum (pseudo_bytes src dest proto len @ take (unat n) (concat (map chk_bytes p))))"
proof -
  have z: "chksum2.stands_for 0 False (byte_sum [])" by (simp add: chksum2.stands_for_def canon_def)
  obtain acc sw where c: "chain_sum lwip_standard_chksum2 p 0 False = (acc, sw)"
    "chksum2.stands_for acc sw (byte_sum (concat (map chk_bytes p)))"
    using chksum2.chain_sum_stands_for [OF assms z] by auto
  obtain acc' sw' where c': "chain_sum_partial lwip_standard_chksum2 p 0 False (unat n) = (acc', sw')"
    "chksum2.stands_for acc' sw' (byte_sum (take (unat n) (concat (map chk_bytes p))))"
    using chksum2.chain_sum_partial_stands_for [OF assms z, of "unat n"] by auto
  show ?thesis
    unfolding inet_chksum_pseudo_def inet_chksum_pseudo_partial_def c(1) c'(1) pseudo_bytes_sum
    using chksum2.pseudo_header_sum [OF c(2)] chksum2.pseudo_header_sum [OF c'(2)] by blast
qed

lemma pseudo_chksum_is_flat_witness:
  "unat (inet_chksum_pseudo_partial lwip_standard_chksum2 [\<lparr>chk_payload = 0, chk_bytes = [1, 2, 3]\<rparr>] 5 6 17 11 2) =
     65535 - canon (byte_sum (pseudo_bytes 5 6 17 11 @ [1, 2]))"
  using pseudo_chksum_is_flat [of "[\<lparr>chk_payload = 0, chk_bytes = [1, 2, 3]\<rparr>]" 5 6 17 11 2] by simp

end
