(* ===== verification/EbootCommand.thy ===== *)
theory EbootCommand
  imports Prelude
begin

text \<open>
  The command the application leaves for the bootloader in RTC memory
  (cores/esp8266/core_esp8266_eboot_command.c and bootloaders/eboot/eboot_command.c): its CRC,
  writing, clearing, and the two readers, which differ in how they test the magic number.
\<close>

section \<open>The command and its bytes\<close>

definition ACTION_COPY_RAW :: u32 where "ACTION_COPY_RAW = 1"
definition ACTION_LOAD_APP :: u32 where "ACTION_LOAD_APP = 0xffffffff"
definition EBOOT_MAGIC :: u32 where "EBOOT_MAGIC = 0xeb001000"
definition EBOOT_MAGIC_MASK :: u32 where "EBOOT_MAGIC_MASK = 0xfffff000"

text \<open>\<open>struct eboot_command\<close>, 32 words; \<open>cmd_args\<close> has 29 of them.\<close>

record eboot_command =
  cmd_magic :: u32
  cmd_action :: u32
  cmd_args :: "u32 list"
  cmd_crc32 :: u32

definition command_words :: "eboot_command \<Rightarrow> u32 list" where
  "command_words cmd = cmd_magic cmd # cmd_action cmd # cmd_args cmd @ [cmd_crc32 cmd]"

definition command_of_words :: "u32 list \<Rightarrow> eboot_command" where
  "command_of_words ws =
     \<lparr>cmd_magic = ws ! 0, cmd_action = ws ! 1, cmd_args = take 29 (drop 2 ws), cmd_crc32 = ws ! 31\<rparr>"

definition bytes_of_word :: "u32 \<Rightarrow> u8 list" where
  "bytes_of_word w = [ucast w, ucast (drop_bit 8 w), ucast (drop_bit 16 w), ucast (drop_bit 24 w)]"

text \<open>The bytes up to \<open>offsetof(struct eboot_command, crc32)\<close>.\<close>

definition command_bytes :: "eboot_command \<Rightarrow> u8 list" where
  "command_bytes cmd = concat (map bytes_of_word (cmd_magic cmd # cmd_action cmd # cmd_args cmd))"

section \<open>CRC\<close>

definition crc_bit :: "u32 \<Rightarrow> bool \<Rightarrow> u32" where
  "crc_bit crc data_bit =
     (let b = (crc AND 0x80000000 \<noteq> 0);
          b = (if data_bit then \<not> b else b);
          crc = push_bit 1 crc
      in if b then crc XOR 0x04c11db7 else crc)"

text \<open>The bits of a byte, the loop over \<open>i = 0x80, 0x40 .. 1\<close>.\<close>

definition crc_byte :: "u32 \<Rightarrow> u8 \<Rightarrow> u32" where
  "crc_byte crc c = foldl (\<lambda>crc i. crc_bit crc (c AND i \<noteq> 0)) crc [0x80, 0x40, 0x20, 0x10, 8, 4, 2, 1]"

fun crc_update :: "u32 \<Rightarrow> u8 list \<Rightarrow> u32" where
  "crc_update crc [] = crc"
| "crc_update crc (c # data) = crc_update (crc_byte crc c) data"

definition eboot_command_calculate_crc32 :: "eboot_command \<Rightarrow> u32" where
  "eboot_command_calculate_crc32 cmd = crc_update 0xffffffff (command_bytes cmd)"

section \<open>RTC memory\<close>

type_synonym rtc_mem = "nat \<Rightarrow> u32"

text \<open>The application's reader; \<open>True\<close> is the return value 0.\<close>

definition eboot_command_read :: "rtc_mem \<Rightarrow> eboot_command \<times> bool" where
  "eboot_command_read rtc =
     (let cmd = command_of_words (map rtc [0..<32]);
          crc32 = eboot_command_calculate_crc32 cmd
      in (cmd, \<not> (cmd_magic cmd AND EBOOT_MAGIC_MASK \<noteq> EBOOT_MAGIC \<or> cmd_crc32 cmd \<noteq> crc32)))"

text \<open>
  The bootloader's reader: without parentheses, \<open>magic & MASK != MAGIC\<close> is
  \<open>magic & (MASK != MAGIC)\<close>, so it looks at bit 0 of the magic number only.
\<close>

definition boot_command_read :: "rtc_mem \<Rightarrow> eboot_command \<times> bool" where
  "boot_command_read rtc =
     (let cmd = command_of_words (map rtc [0..<32]);
          crc32 = eboot_command_calculate_crc32 cmd
      in (cmd, \<not> (cmd_magic cmd AND (if EBOOT_MAGIC_MASK \<noteq> EBOOT_MAGIC then 1 else 0) \<noteq> 0 \<or> cmd_crc32 cmd \<noteq> crc32)))"

definition eboot_command_write :: "eboot_command \<Rightarrow> rtc_mem \<Rightarrow> eboot_command \<times> rtc_mem" where
  "eboot_command_write cmd rtc =
     (let cmd = cmd\<lparr>cmd_magic := EBOOT_MAGIC\<rparr>;
          cmd = cmd\<lparr>cmd_crc32 := eboot_command_calculate_crc32 cmd\<rparr>
      in (cmd, \<lambda>i. if i < 32 then command_words cmd ! i else rtc i))"

definition eboot_command_clear :: "rtc_mem \<Rightarrow> rtc_mem" where
  "eboot_command_clear rtc = rtc(0 := 0, 31 := 0)"

section \<open>The CRC is linear\<close>

lemma mask_bit: "(c :: 'a::len word) AND push_bit k 1 \<noteq> 0 \<longleftrightarrow> bit c k"
proof
  assume "c AND push_bit k 1 \<noteq> 0"
  then obtain n where "bit (c AND push_bit k 1) n" using bit_eqI [of "c AND push_bit k 1" 0] by auto
  then show "bit c k" unfolding bit_and_iff bit_push_bit_iff bit_1_iff by auto
next
  assume b: "bit c k"
  then have "bit (c AND push_bit k 1) k"
    unfolding bit_and_iff bit_push_bit_iff bit_1_iff using bit_imp_le_length [OF b] by auto
  then show "c AND push_bit k 1 \<noteq> 0" by auto
qed

lemma crc_top: "(crc :: u32) AND 0x80000000 \<noteq> 0 \<longleftrightarrow> bit crc 31"
  using mask_bit [of crc 31] by simp

lemma crc_bit_alt: "crc_bit crc b = (if bit crc 31 \<noteq> b then push_bit 1 crc XOR 0x04c11db7 else push_bit 1 crc)"
  by (auto simp: crc_bit_def crc_top Let_def)

lemma bit_crc_bit:
  "bit (crc_bit crc b) n \<longleftrightarrow>
     (1 \<le> n \<and> n < 32 \<and> bit crc (n - 1)) \<noteq> (bit crc 31 \<noteq> b \<and> bit (0x04c11db7 :: u32) n)"
proof -
  have s: "bit (push_bit 1 crc) n \<longleftrightarrow> 1 \<le> n \<and> n < 32 \<and> bit crc (n - 1)"
    unfolding bit_push_bit_iff by (auto dest: bit_imp_le_length)
  show ?thesis
  proof (cases "bit crc 31 = b")
    case True
    then have "crc_bit crc b = push_bit 1 crc" by (simp add: crc_bit_alt)
    then show ?thesis using s True by metis
  next
    case False
    then have "crc_bit crc b = push_bit 1 crc XOR 0x04c11db7" by (simp add: crc_bit_alt)
    then show ?thesis using s False by (metis bit_xor_iff)
  qed
qed

lemma crc_bit_xor: "crc_bit x a XOR crc_bit y b = crc_bit (x XOR y) (a \<noteq> b)"
  by (rule bit_word_eqI) (auto simp only: bit_xor_iff bit_crc_bit)

text \<open>A step that leaves bit 0 clear shifted the old value and can be undone.\<close>

lemma crc_bit_back:
  assumes "crc_bit crc b = w" "\<not> bit w 0"
  shows "bit crc 31 = b" and "n < 31 \<Longrightarrow> bit crc n = bit w (Suc n)"
proof -
  have p: "bit (0x04c11db7 :: u32) 0" by simp
  show b: "bit crc 31 = b"
    using assms(2) p unfolding assms(1) [symmetric] bit_crc_bit by auto
  show "n < 31 \<Longrightarrow> bit crc n = bit w (Suc n)"
    using b unfolding assms(1) [symmetric] bit_crc_bit by auto
qed

lemma crc_bits_zero:
  assumes "foldl crc_bit x bs = 0" "length bs \<le> 32"
  shows "(\<forall>i<length bs. bit x (31 - i) = bs ! i) \<and> (\<forall>n<32 - length bs. \<not> bit x n)"
  using assms
proof (induction bs arbitrary: x)
  case Nil
  then show ?case by simp
next
  case (Cons b bs)
  let ?y = "crc_bit x b"
  have y: "\<forall>i<length bs. bit ?y (31 - i) = bs ! i" "\<forall>n<32 - length bs. \<not> bit ?y n"
    using Cons.IH [of ?y] Cons.prems by auto
  then have "\<not> bit ?y 0" using Cons.prems(2) by simp
  note undo = crc_bit_back [OF refl this]
  have "bit x (31 - i) = (b # bs) ! i" if "i < length (b # bs)" for i
  proof (cases i)
    case (Suc j)
    then have "Suc (31 - i) = 31 - j" using that Cons.prems(2) by simp
    then show ?thesis using undo(2) [of "31 - i"] y(1) Suc that by simp
  qed (use undo in simp)
  moreover have "\<not> bit x n" if "n < 32 - length (b # bs)" for n
    using undo(2) [of n] y(2) that by simp
  ultimately show ?case by blast
qed

lemma crc_byte_bits:
  "crc_byte crc c = foldl (\<lambda>crc k. crc_bit crc (bit c k)) crc [7, 6, 5, 4, 3, 2, 1, 0]"
  using mask_bit [of c 7] mask_bit [of c 6] mask_bit [of c 5] mask_bit [of c 4] mask_bit [of c 3]
    mask_bit [of c 2] mask_bit [of c 1] mask_bit [of c 0]
  by (simp add: crc_byte_def)

lemma crc_byte_xor: "crc_byte x a XOR crc_byte y b = crc_byte (x XOR y) (a XOR b)"
  by (simp add: crc_byte_bits crc_bit_xor bit_xor_iff)

lemma xor_zero: "u XOR v = 0 \<longleftrightarrow> u = (v :: 'a::len word)"
proof
  assume "u XOR v = 0"
  then have "(u XOR v) XOR v = v" by simp
  then show "u = v" by (simp add: xor.assoc)
qed simp

lemma crc_byte_inj:
  assumes "crc_byte x a = crc_byte y b"
  shows "x = y \<longleftrightarrow> a = b"
proof -
  have "crc_byte (x XOR y) (a XOR b) = 0" using assms crc_byte_xor [of x a y b] by simp
  then have "foldl crc_bit (x XOR y) (map (bit (a XOR b)) [7, 6, 5, 4, 3, 2, 1, 0]) = 0"
    unfolding crc_byte_bits by simp
  then have z: "\<forall>i<8. bit (x XOR y) (31 - i) = map (bit (a XOR b)) [7, 6, 5, 4, 3, 2, 1, 0] ! i"
    "\<forall>n<24. \<not> bit (x XOR y) n"
    using crc_bits_zero [of "x XOR y" "map (bit (a XOR b)) [7, 6, 5, 4, 3, 2, 1, 0]"] by simp_all
  have k: "bit (x XOR y) (24 + k) = bit (a XOR b) k" if "k < 8" for k
  proof -
    have "map (bit (a XOR b)) [7, 6, 5, 4, 3, 2, 1, 0] = map (\<lambda>i. bit (a XOR b) (7 - i)) [0..<8]"
      by (simp add: upt_rec)
    then show ?thesis using z(1) [rule_format, of "7 - k"] that by simp
  qed
  have "x XOR y = 0 \<longleftrightarrow> a XOR b = 0"
  proof
    assume e: "x XOR y = 0"
    show "a XOR b = 0" by (rule bit_word_eqI) (use k e in simp)
  next
    assume e: "a XOR b = 0"
    show "x XOR y = 0"
    proof (rule bit_word_eqI)
      fix n assume "n < LENGTH(32)"
      then show "bit (x XOR y) n = bit 0 n" using z(2) k [of "n - 24"] e by (cases "n < 24") auto
    qed
  qed
  then show ?thesis unfolding xor_zero .
qed

lemma crc_update_append: "crc_update crc (xs @ ys) = crc_update (crc_update crc xs) ys"
  by (induction xs arbitrary: crc) auto

lemma crc_update_inj: "crc_update x data = crc_update y data \<Longrightarrow> x = y"
proof (induction data arbitrary: x y)
  case (Cons c data)
  then have "crc_byte x c = crc_byte y c" by simp
  then show ?case using crc_byte_inj by blast
qed simp

section \<open>The contract of the command\<close>

text \<open>
  The CRC notices every corruption of one byte.  Two byte strings that differ in a single
  byte never have the same CRC, whatever the start value.
\<close>

theorem crc_detects_byte:
  assumes "a \<noteq> b"
  shows "crc_update crc (pre @ a # post) \<noteq> crc_update crc (pre @ b # post)"
proof
  assume "crc_update crc (pre @ a # post) = crc_update crc (pre @ b # post)"
  then have "crc_update (crc_byte (crc_update crc pre) a) post = crc_update (crc_byte (crc_update crc pre) b) post"
    by (simp add: crc_update_append)
  then have "crc_byte (crc_update crc pre) a = crc_byte (crc_update crc pre) b" by (rule crc_update_inj)
  then show False using crc_byte_inj assms by blast
qed

lemma crc_detects_byte_witness: "crc_update 0xffffffff [2, 1, 3] \<noteq> crc_update 0xffffffff [2, 5, 3]"
  using crc_detects_byte [of 1 5 "0xffffffff" "[2]" "[3]"] by simp

lemma command_words_length: "length (cmd_args cmd) = 29 \<Longrightarrow> length (command_words cmd) = 32"
  by (simp add: command_words_def)

lemma command_of_words: "length (cmd_args cmd) = 29 \<Longrightarrow> command_of_words (command_words cmd) = cmd"
  by (simp add: command_of_words_def command_words_def nth_append)

lemma command_crc_field [simp]:
  "eboot_command_calculate_crc32 (cmd\<lparr>cmd_crc32 := w\<rparr>) = eboot_command_calculate_crc32 cmd"
  by (simp add: eboot_command_calculate_crc32_def command_bytes_def)

lemma rtc_of_command:
  assumes "length (cmd_args cmd) = 29"
  shows "command_of_words (map (\<lambda>i. if i < 32 then command_words cmd ! i else rtc i) [0..<32]) = cmd"
proof -
  have "map (\<lambda>i. if i < 32 then command_words cmd ! i else rtc i) [0..<32] = command_words cmd"
    using command_words_length [OF assms] by (intro nth_equalityI) auto
  then show ?thesis using command_of_words [OF assms] by simp
qed

text \<open>
  A command survives the reset.  What eboot_command_write stores, both the application's
  and the bootloader's reader accept and return unchanged; after eboot_command_clear the
  application's reader rejects it.
\<close>

theorem command_write_read:
  assumes "length (cmd_args cmd) = 29" "eboot_command_write cmd rtc = (cmd', rtc')"
  shows "eboot_command_read rtc' = (cmd', True) \<and> boot_command_read rtc' = (cmd', True) \<and>
    cmd_action cmd' = cmd_action cmd \<and> cmd_args cmd' = cmd_args cmd \<and>
    \<not> snd (eboot_command_read (eboot_command_clear rtc'))"
proof -
  let ?m = "cmd\<lparr>cmd_magic := EBOOT_MAGIC\<rparr>"
  have cmd': "cmd' = ?m\<lparr>cmd_crc32 := eboot_command_calculate_crc32 ?m\<rparr>"
    and rtc': "rtc' = (\<lambda>i. if i < 32 then command_words cmd' ! i else rtc i)"
    using assms(2) by (auto simp: eboot_command_write_def Let_def)
  have args: "length (cmd_args cmd') = 29" using assms(1) cmd' by simp
  have r: "command_of_words (map rtc' [0..<32]) = cmd'" unfolding rtc' by (rule rtc_of_command [OF args])
  have crc: "cmd_crc32 cmd' = eboot_command_calculate_crc32 cmd'" by (simp add: cmd')
  have magic: "cmd_magic cmd' AND EBOOT_MAGIC_MASK = EBOOT_MAGIC" "cmd_magic cmd' AND 1 = 0"
    by (simp_all add: cmd' EBOOT_MAGIC_def EBOOT_MAGIC_MASK_def)
  have "cmd_magic (command_of_words (map (eboot_command_clear rtc') [0..<32])) = 0"
    by (simp add: command_of_words_def eboot_command_clear_def)
  then have "\<not> snd (eboot_command_read (eboot_command_clear rtc'))"
    by (simp add: eboot_command_read_def Let_def EBOOT_MAGIC_def)
  moreover have "eboot_command_read rtc' = (cmd', True)" "boot_command_read rtc' = (cmd', True)"
    using r crc magic by (simp_all add: eboot_command_read_def boot_command_read_def Let_def)
  ultimately show ?thesis by (simp add: cmd')
qed

lemma command_write_read_witness:
  "\<exists>cmd' rtc'. eboot_command_write \<lparr>cmd_magic = 0, cmd_action = 1, cmd_args = replicate 29 7, cmd_crc32 = 0\<rparr> (\<lambda>_. 0) =
     (cmd', rtc') \<and> eboot_command_read rtc' = (cmd', True)"
proof -
  obtain cmd' rtc' where w: "eboot_command_write \<lparr>cmd_magic = 0, cmd_action = 1, cmd_args = replicate 29 7, cmd_crc32 = 0\<rparr> (\<lambda>_. 0) =
     (cmd', rtc')"
    by (cases "eboot_command_write \<lparr>cmd_magic = 0, cmd_action = 1, cmd_args = replicate 29 7, cmd_crc32 = 0\<rparr> (\<lambda>_. 0)")
  have "length (cmd_args \<lparr>cmd_magic = 0, cmd_action = 1, cmd_args = replicate 29 (7 :: u32), cmd_crc32 = 0\<rparr>) = 29" by simp
  from command_write_read [OF this w] show ?thesis using w by blast
qed

text \<open>
  The bootloader does not check the magic number.  A command with any even magic number and
  a correct CRC is rejected by the application's reader unless the magic matches, but accepted
  by the bootloader's.
\<close>

theorem boot_accepts_wrong_magic:
  assumes "length (cmd_args cmd) = 29" "cmd_magic cmd AND 1 = 0" "cmd_magic cmd AND EBOOT_MAGIC_MASK \<noteq> EBOOT_MAGIC"
    and "rtc = (\<lambda>i. if i < 32 then command_words (cmd\<lparr>cmd_crc32 := eboot_command_calculate_crc32 cmd\<rparr>) ! i else 0)"
  shows "snd (boot_command_read rtc) \<and> \<not> snd (eboot_command_read rtc)"
proof -
  have "command_of_words (map rtc [0..<32]) = cmd\<lparr>cmd_crc32 := eboot_command_calculate_crc32 cmd\<rparr>"
    unfolding assms(4) using rtc_of_command [of "cmd\<lparr>cmd_crc32 := eboot_command_calculate_crc32 cmd\<rparr>"] assms(1) by simp
  then show ?thesis
    using assms(2,3) by (simp add: eboot_command_read_def boot_command_read_def Let_def)
qed

lemma boot_accepts_wrong_magic_witness:
  "\<exists>rtc. snd (boot_command_read rtc) \<and> \<not> snd (eboot_command_read rtc)"
  by (rule exI, rule boot_accepts_wrong_magic [of "\<lparr>cmd_magic = 0, cmd_action = 1, cmd_args = replicate 29 0, cmd_crc32 = 0\<rparr>", OF _ _ _ refl])
     (simp_all add: EBOOT_MAGIC_def)

end
