(* ===== verification/Eboot.thy ===== *)
theory Eboot
  imports EbootCommand
begin

text \<open>
  The eboot bootloader (bootloaders/eboot/eboot.c) and the flash eraser of
  bootloaders/eboot/flash.c and cores/esp8266/core_esp8266_flash_utils.c.  The SPI flash routines
  are ROM and SDK code: they are the argument \<open>spi\<close> of every definition, functions on an abstract
  flash of type \<open>'f\<close> whose result code 0 means success.  What the theorems need of them is
  \<open>nor_flash\<close>.
\<close>

section \<open>The SPI routines\<close>

record 'f spi =
  SPIEraseBlock :: "u32 \<Rightarrow> 'f \<Rightarrow> 'f \<times> nat"
  SPIEraseSector :: "u32 \<Rightarrow> 'f \<Rightarrow> 'f \<times> nat"
  SPIRead :: "u32 \<Rightarrow> u32 \<Rightarrow> 'f \<Rightarrow> u8 list \<times> nat"
  SPIWrite :: "u32 \<Rightarrow> u8 list \<Rightarrow> 'f \<Rightarrow> 'f \<times> nat"
  flash_byte :: "'f \<Rightarrow> nat \<Rightarrow> u8"

definition FLASH_SECTOR_SIZE :: u32 where "FLASH_SECTOR_SIZE = 0x1000"
definition FLASH_BLOCK_SIZE :: u32 where "FLASH_BLOCK_SIZE = 0x10000"
definition APP_START_OFFSET :: u32 where "APP_START_OFFSET = 0x1000"

text \<open>
  The documented behaviour of a NOR flash on success: erasing sets the sector's (block's) bytes,
  writing clears bits, reading returns the bytes; the rest of the flash stays as it is.
  \<open>flash_byte\<close> is the specification's view of the contents, no code calls it.
\<close>

definition erases :: "'f spi \<Rightarrow> 'f \<Rightarrow> 'f \<Rightarrow> nat \<Rightarrow> nat \<Rightarrow> bool" where
  "erases spi f f' a n \<longleftrightarrow>
     (\<forall>x. flash_byte spi f' x = (if a \<le> x \<and> x < a + n then 0xff else flash_byte spi f x))"

definition nor_flash :: "'f spi \<Rightarrow> bool" where
  "nor_flash spi \<longleftrightarrow>
     (\<forall>f f' s. SPIEraseSector spi s f = (f', 0) \<longrightarrow> erases spi f f' (unat s * 4096) 4096) \<and>
     (\<forall>f f' b. SPIEraseBlock spi b f = (f', 0) \<longrightarrow> erases spi f f' (unat b * 65536) 65536) \<and>
     (\<forall>f a n bs. SPIRead spi a n f = (bs, 0) \<longrightarrow> bs = map (\<lambda>i. flash_byte spi f (unat a + i)) [0..<unat n]) \<and>
     (\<forall>f f' a bs. SPIWrite spi a bs f = (f', 0) \<longrightarrow>
        (\<forall>x. flash_byte spi f' x =
           (if unat a \<le> x \<and> x < unat a + length bs then flash_byte spi f x AND bs ! (x - unat a) else flash_byte spi f x)))"

section \<open>Erasing an area\<close>

text \<open>
  The two copies of \<open>SPIEraseAreaEx\<close> differ in the alignment test only: the bootloader's
  \<open>start & (FLASH_SECTOR_SIZE - 1) != 0\<close> tests bit 0.  The loops count with wrap-around and
  end when the sector counter reaches \<open>end\<close>.
\<close>

partial_function (option) erase_sectors ::
  "'f spi \<Rightarrow> bool \<Rightarrow> u32 \<Rightarrow> u32 \<Rightarrow> 'f \<Rightarrow> ('f \<times> u32 \<times> bool) option" where
  "erase_sectors spi to_block current end_sector f =
     (if current < end_sector \<and> (to_block \<longrightarrow> current AND (FLASH_BLOCK_SIZE div FLASH_SECTOR_SIZE - 1) \<noteq> 0) then
        (case SPIEraseSector spi current f of (f, code) \<Rightarrow>
           if code \<noteq> 0 then Some (f, current, False) else erase_sectors spi to_block (current + 1) end_sector f)
      else Some (f, current, True))"

partial_function (option) erase_blocks ::
  "'f spi \<Rightarrow> u32 \<Rightarrow> u32 \<Rightarrow> 'f \<Rightarrow> ('f \<times> u32 \<times> bool) option" where
  "erase_blocks spi current end_sector f =
     (let sectors_per_block = FLASH_BLOCK_SIZE div FLASH_SECTOR_SIZE
      in if current + sectors_per_block \<le> end_sector then
           (case SPIEraseBlock spi (current div sectors_per_block) f of (f, code) \<Rightarrow>
              if code \<noteq> 0 then Some (f, current, False) else erase_blocks spi (current + sectors_per_block) end_sector f)
         else Some (f, current, True))"

definition erase_area :: "'f spi \<Rightarrow> u32 \<Rightarrow> u32 \<Rightarrow> 'f \<Rightarrow> ('f \<times> nat) option" where
  "erase_area spi start sz f =
     (let current = start div FLASH_SECTOR_SIZE;
          sector_count = (sz + FLASH_SECTOR_SIZE - 1) div FLASH_SECTOR_SIZE;
          end_sector = current + sector_count
      in case erase_sectors spi True current end_sector f of
           None \<Rightarrow> None
         | Some (f, current, ok) \<Rightarrow>
             if \<not> ok then Some (f, 2)
             else (case erase_blocks spi current end_sector f of
                     None \<Rightarrow> None
                   | Some (f, current, ok) \<Rightarrow>
                       if \<not> ok then Some (f, 3)
                       else (case erase_sectors spi False current end_sector f of
                               None \<Rightarrow> None
                             | Some (f, current, ok) \<Rightarrow> Some (f, if ok then 0 else 4))))"

definition SPIEraseAreaEx :: "'f spi \<Rightarrow> u32 \<Rightarrow> u32 \<Rightarrow> 'f \<Rightarrow> ('f \<times> nat) option" where
  "SPIEraseAreaEx spi start sz f =
     (if start AND (FLASH_SECTOR_SIZE - 1) \<noteq> 0 then Some (f, 1) else erase_area spi start sz f)"

definition boot_SPIEraseAreaEx :: "'f spi \<Rightarrow> u32 \<Rightarrow> u32 \<Rightarrow> 'f \<Rightarrow> ('f \<times> nat) option" where
  "boot_SPIEraseAreaEx spi start sz f =
     (if start AND (if FLASH_SECTOR_SIZE - 1 \<noteq> 0 then 1 else 0) \<noteq> 0 then Some (f, 1) else erase_area spi start sz f)"

section \<open>Copying an image\<close>

partial_function (option) copy_loop :: "'f spi \<Rightarrow> u32 \<Rightarrow> u32 \<Rightarrow> u32 \<Rightarrow> 'f \<Rightarrow> ('f \<times> nat) option" where
  "copy_loop spi left saddr daddr f =
     (if left = 0 then Some (f, 0)
      else case SPIEraseSector spi (daddr div FLASH_SECTOR_SIZE) f of (f, code) \<Rightarrow>
        if code \<noteq> 0 then Some (f, 2)
        else case SPIRead spi saddr FLASH_SECTOR_SIZE f of (buffer, code) \<Rightarrow>
          if code \<noteq> 0 then Some (f, 3)
          else case SPIWrite spi daddr buffer f of (f, code) \<Rightarrow>
            if code \<noteq> 0 then Some (f, 4)
            else copy_loop spi (left - FLASH_SECTOR_SIZE) (saddr + FLASH_SECTOR_SIZE) (daddr + FLASH_SECTOR_SIZE) f)"

text \<open>The alignment test again looks at bit 0 only: \<open>src_addr & 0xfff != 0\<close>.\<close>

definition copy_raw :: "'f spi \<Rightarrow> u32 \<Rightarrow> u32 \<Rightarrow> u32 \<Rightarrow> 'f \<Rightarrow> ('f \<times> nat) option" where
  "copy_raw spi src_addr dst_addr sz f =
     (if src_addr AND (if (0xfff :: u32) \<noteq> 0 then 1 else 0) \<noteq> 0 \<or>
         dst_addr AND (if (0xfff :: u32) \<noteq> 0 then 1 else 0) \<noteq> 0 then Some (f, 1)
      else copy_loop spi ((sz + FLASH_SECTOR_SIZE - 1) AND NOT (FLASH_SECTOR_SIZE - 1)) src_addr dst_addr f)"

section \<open>Loading an application\<close>

text \<open>RAM is byte-addressed; loading ends with a jump to the entry point or an error code.\<close>

datatype load_result = Load_failed nat | Jump u32

definition word_at :: "u8 list \<Rightarrow> nat \<Rightarrow> u32" where
  "word_at bs i = load32 (\<lambda>x. bs ! x) i"

definition loadable :: "u32 \<Rightarrow> bool" where
  "loadable address \<longleftrightarrow> address < 0x40000000 \<or> 0x40100000 \<le> address \<and> address < 0x40108000 \<or> 0x60000000 \<le> address"

definition store_bytes :: "memory \<Rightarrow> nat \<Rightarrow> u8 list \<Rightarrow> memory" where
  "store_bytes m a bs = (\<lambda>x. if a \<le> x \<and> x < a + length bs then bs ! (x - a) else m x)"

fun load_sections :: "'f spi \<Rightarrow> 'f \<Rightarrow> nat \<Rightarrow> u32 \<Rightarrow> memory \<Rightarrow> memory \<times> nat" where
  "load_sections spi f 0 pos ram = (ram, 0)"
| "load_sections spi f (Suc n) pos ram =
     (case SPIRead spi pos 8 f of (header, code) \<Rightarrow>
        if code \<noteq> 0 then (ram, 2)
        else let pos = pos + 8;
                 address = word_at header 0;
                 section_size = word_at header 4
             in if \<not> loadable address then load_sections spi f n (pos + section_size) ram
                else case SPIRead spi pos section_size f of (data, code) \<Rightarrow>
                  if code \<noteq> 0 then (ram, 3)
                  else load_sections spi f n (pos + section_size) (store_bytes ram (unat address) data))"

definition load_app_from_flash_raw :: "'f spi \<Rightarrow> u32 \<Rightarrow> 'f \<Rightarrow> memory \<Rightarrow> memory \<times> load_result" where
  "load_app_from_flash_raw spi flash_addr f ram =
     (case SPIRead spi (flash_addr + APP_START_OFFSET) 8 f of (header, code) \<Rightarrow>
        if code \<noteq> 0 then (ram, Load_failed 1)
        else case load_sections spi f (unat (header ! 1)) (flash_addr + APP_START_OFFSET + 8) ram of (ram, code) \<Rightarrow>
          if code \<noteq> 0 then (ram, Load_failed code) else (ram, Jump (word_at header 4)))"

section \<open>The bootloader's main\<close>

text \<open>
  The console output is a list of events.  \<open>main\<close> ends in the jump into the application, a
  software reset, or the endless loop.
\<close>

datatype console_event = Putc char | Digit nat | Version u32
datatype boot_end = Jumped u32 | Reset | Hangs

record 'f eboot_state =
  eb_flash :: 'f
  eb_ram :: memory
  eb_rtc :: rtc_mem
  eb_wdt :: bool
  eb_out :: "console_event list"

definition putc :: "string \<Rightarrow> 'f eboot_state \<Rightarrow> 'f eboot_state" where
  "putc cs s = s\<lparr>eb_out := eb_out s @ map Putc cs\<rparr>"

definition put_code :: "nat \<Rightarrow> 'f eboot_state \<Rightarrow> 'f eboot_state" where
  "put_code n s = s\<lparr>eb_out := eb_out s @ [Digit n, Putc (CHR 0x0A)]\<rparr>"

definition print_version :: "'f spi \<Rightarrow> u32 \<Rightarrow> 'f eboot_state \<Rightarrow> 'f eboot_state" where
  "print_version spi flash_addr s =
     (case SPIRead spi (flash_addr + APP_START_OFFSET + 8 + 8) 4 (eb_flash s) of (ver, code) \<Rightarrow>
        if code \<noteq> 0 then s else s\<lparr>eb_out := eb_out s @ [Version (word_at ver 0)]\<rparr>)"

definition boot_fetch :: "'f eboot_state \<Rightarrow> 'f eboot_state \<times> eboot_command" where
  "boot_fetch s =
     (case boot_command_read (eb_rtc s) of (cmd, valid) \<Rightarrow>
        if valid then (putc ''@'' (s\<lparr>eb_rtc := eboot_command_clear (eb_rtc s)\<rparr>), cmd)
        else (putc ''~'' s, cmd\<lparr>cmd_action := ACTION_LOAD_APP, cmd_args := (cmd_args cmd)[0 := 0]\<rparr>))"

definition boot_copy :: "'f spi \<Rightarrow> 'f eboot_state \<Rightarrow> eboot_command \<Rightarrow> nat \<Rightarrow> ('f eboot_state \<times> eboot_command \<times> nat) option" where
  "boot_copy spi s cmd res =
     (if cmd_action cmd \<noteq> ACTION_COPY_RAW then Some (s, cmd, res)
      else let s = (putc ''cp:'' s)\<lparr>eb_wdt := False\<rparr>
           in case copy_raw spi (cmd_args cmd ! 0) (cmd_args cmd ! 1) (cmd_args cmd ! 2) (eb_flash s) of
                None \<Rightarrow> None
              | Some (f, res) \<Rightarrow>
                  let s = put_code res (s\<lparr>eb_flash := f, eb_wdt := True\<rparr>)
                  in Some (s, if res = 0
                     then cmd\<lparr>cmd_action := ACTION_LOAD_APP, cmd_args := (cmd_args cmd)[0 := cmd_args cmd ! 1]\<rparr>
                     else cmd, res))"

definition boot_load :: "'f spi \<Rightarrow> 'f eboot_state \<Rightarrow> eboot_command \<Rightarrow> nat \<Rightarrow> 'f eboot_state \<times> boot_end" where
  "boot_load spi s cmd res =
     (if cmd_action cmd \<noteq> ACTION_LOAD_APP then (s, if res \<noteq> 0 then Reset else Hangs)
      else let s = putc ''ld'' s;
               s = putc [CHR 0x0A] s
           in case load_app_from_flash_raw spi (cmd_args cmd ! 0) (eb_flash s) (eb_ram s) of (ram, r) \<Rightarrow>
                let s = s\<lparr>eb_ram := ram\<rparr>
                in (case r of
                      Jump entry \<Rightarrow> (s, Jumped entry)
                    | Load_failed res \<Rightarrow> (put_code res (putc ''e:'' s), if res \<noteq> 0 then Reset else Hangs)))"

definition eboot_main :: "'f spi \<Rightarrow> 'f eboot_state \<Rightarrow> ('f eboot_state \<times> boot_end) option" where
  "eboot_main spi s =
     (let s = print_version spi 0 s;
          (s, cmd) = boot_fetch s
      in case boot_copy spi s cmd 9 of None \<Rightarrow> None | Some (s, cmd, res) \<Rightarrow> Some (boot_load spi s cmd res))"

section \<open>Erasing is complete and exact\<close>

lemma erases_refl: "erases spi f f a 0"
  by (auto simp: erases_def)

lemma erases_trans: "erases spi f f' a n \<Longrightarrow> erases spi f' f'' (a + n) k \<Longrightarrow> erases spi f f'' a (n + k)"
  by (auto simp: erases_def)

lemma nor_sector: "nor_flash spi \<Longrightarrow> SPIEraseSector spi s f = (f', 0) \<Longrightarrow> erases spi f f' (unat s * 4096) 4096"
  by (simp add: nor_flash_def)

lemma nor_block: "nor_flash spi \<Longrightarrow> SPIEraseBlock spi b f = (f', 0) \<Longrightarrow> erases spi f f' (unat b * 65536) 65536"
  by (simp add: nor_flash_def)

lemmas flash_sizes = FLASH_SECTOR_SIZE_def FLASH_BLOCK_SIZE_def

lemma erase_sectors_ok:
  assumes N: "nor_flash spi"
  shows "\<exists>f' c' ok. erase_sectors spi to_block c e f = Some (f', c', ok) \<and>
    (ok \<longrightarrow> c \<le> c' \<and> (c \<le> e \<longrightarrow> c' \<le> e) \<and> (c' < e \<longrightarrow> to_block \<and> c' AND 15 = 0) \<and>
       erases spi f f' (unat c * 4096) ((unat c' - unat c) * 4096))"
proof (induction "unat e - unat c" arbitrary: c f rule: less_induct)
  case less
  show ?case
  proof (cases "c < e \<and> (to_block \<longrightarrow> c AND 15 \<noteq> 0)")
    case False
    then have "erase_sectors spi to_block c e f = Some (f, c, True)"
      by (subst erase_sectors.simps) (auto simp add: flash_sizes)
    then show ?thesis using False by (auto simp: erases_refl)
  next
    case True
    obtain f1 code where e: "SPIEraseSector spi c f = (f1, code)" by (cases "SPIEraseSector spi c f")
    have step: "erase_sectors spi to_block c e f =
        (if code \<noteq> 0 then Some (f1, c, False) else erase_sectors spi to_block (c + 1) e f1)"
      using True e by (subst erase_sectors.simps) (simp add: flash_sizes)
    show ?thesis
    proof (cases "code = 0")
      case False
      then show ?thesis using step by (intro exI [of _ f1] exI [of _ c] exI [of _ False]) simp
    next
      case z: True
      have c1: "unat (c + 1) = unat c + 1" using True u32_bound [of e] by (simp add: unat_word_ariths word_less_nat_alt)
      have "unat e - unat (c + 1) < unat e - unat c"
        using True c1 by (auto simp: word_less_nat_alt intro: diff_less_mono2)
      from less [OF this, of f1] obtain f' c' ok where r: "erase_sectors spi to_block (c + 1) e f1 = Some (f', c', ok)"
        "ok \<longrightarrow> c + 1 \<le> c' \<and> (c + 1 \<le> e \<longrightarrow> c' \<le> e) \<and> (c' < e \<longrightarrow> to_block \<and> c' AND 15 = 0) \<and>
          erases spi f1 f' (unat (c + 1) * 4096) ((unat c' - unat (c + 1)) * 4096)" by blast
      have "erases spi f f' (unat c * 4096) ((unat c' - unat c) * 4096)" if ok
      proof -
        have "erases spi f f1 (unat c * 4096) 4096" using nor_sector [OF N] e z by simp
        moreover have "erases spi f1 f' (unat c * 4096 + 4096) ((unat c' - (unat c + 1)) * 4096)"
          using r(2) that c1 by (simp add: add.commute)
        ultimately have "erases spi f f' (unat c * 4096) (4096 + (unat c' - (unat c + 1)) * 4096)" by (rule erases_trans)
        moreover have "unat c < unat c'" using r(2) that c1 by (simp add: word_le_nat_alt)
        ultimately show ?thesis by (simp add: diff_mult_distrib)
      qed
      then show ?thesis using step z r True c1 by (auto simp: word_le_nat_alt word_less_nat_alt)
    qed
  qed
qed

lemma erase_blocks_ok:
  assumes N: "nor_flash spi" and "unat c mod 16 = 0" "unat c \<le> 1048576" and e: "unat e \<le> 1048576"
  shows "\<exists>f' c' ok. erase_blocks spi c e f = Some (f', c', ok) \<and>
    (ok \<longrightarrow> c \<le> c' \<and> (c \<le> e \<longrightarrow> c' \<le> e) \<and> erases spi f f' (unat c * 4096) ((unat c' - unat c) * 4096))"
  using assms(2,3)
proof (induction "unat e - unat c" arbitrary: c f rule: less_induct)
  case less
  show ?case
  proof (cases "c + 16 \<le> e")
    case True
    obtain f1 code where b: "SPIEraseBlock spi (c div 16) f = (f1, code)" by (cases "SPIEraseBlock spi (c div 16) f")
    have step: "erase_blocks spi c e f =
        (if code \<noteq> 0 then Some (f1, c, False) else erase_blocks spi (c + 16) e f1)"
      using True b by (subst erase_blocks.simps) (simp add: flash_sizes)
    show ?thesis
    proof (cases "code = 0")
      case False
      then show ?thesis using step by (intro exI [of _ f1] exI [of _ c] exI [of _ False]) simp
    next
      case z: True
      have c1: "unat (c + 16) = unat c + 16" using less.prems by (simp add: unat_word_ariths)
      have "unat e - unat (c + 16) < unat e - unat c" "unat (c + 16) mod 16 = 0" "unat (c + 16) \<le> 1048576"
        using True c1 less.prems e by (auto simp: word_le_nat_alt)
      from less.hyps [OF this, of f1] obtain f' c' ok where r: "erase_blocks spi (c + 16) e f1 = Some (f', c', ok)"
        "ok \<longrightarrow> c + 16 \<le> c' \<and> (c + 16 \<le> e \<longrightarrow> c' \<le> e) \<and>
          erases spi f1 f' (unat (c + 16) * 4096) ((unat c' - unat (c + 16)) * 4096)" by blast
      have "erases spi f f' (unat c * 4096) ((unat c' - unat c) * 4096)" if ok
      proof -
        have "unat (c div 16) * 65536 = unat c * 4096"
          using less.prems mult_div_mod_eq [of 16 "unat c"] by (simp add: unat_div)
        then have "erases spi f f1 (unat c * 4096) 65536" using nor_block [OF N] b z by metis
        moreover have "erases spi f1 f' (unat c * 4096 + 65536) ((unat c' - (unat c + 16)) * 4096)"
          using r(2) that c1 by (simp add: algebra_simps)
        ultimately have "erases spi f f' (unat c * 4096) (65536 + (unat c' - (unat c + 16)) * 4096)" by (rule erases_trans)
        moreover have "unat c + 16 \<le> unat c'" using r(2) that c1 by (simp add: word_le_nat_alt)
        ultimately show ?thesis by (simp add: diff_mult_distrib)
      qed
      then show ?thesis using step z r True c1 by (auto simp: word_le_nat_alt)
    qed
  next
    case False
    then have "erase_blocks spi c e f = Some (f, c, True)"
      by (subst erase_blocks.simps) (simp add: flash_sizes)
    then show ?thesis by (auto simp: erases_refl)
  qed
qed

lemma low_bits_zero: "w AND (FLASH_SECTOR_SIZE - 1) = 0 \<longleftrightarrow> unat w mod 4096 = 0"
proof -
  have "w AND (FLASH_SECTOR_SIZE - 1) = take_bit 12 w"
    by (simp add: flash_sizes take_bit_eq_mask mask_eq_exp_minus_1)
  then show ?thesis
    by (simp add: word_unat_eq_iff unsigned_take_bit_eq take_bit_eq_mod unat_mod)
qed

lemma erases_join:
  assumes "erases spi f f1 (a * 4096) ((b - a) * 4096)" "erases spi f1 f2 (b * 4096) ((c - b) * 4096)" "a \<le> b" "b \<le> c"
  shows "erases spi f f2 (a * 4096) ((c - a) * 4096)"
proof -
  have "erases spi f f2 (a * 4096) ((b - a) * 4096 + (c - b) * 4096)"
    by (rule erases_trans [OF assms(1)]) (use assms(2,3) in \<open>simp add: diff_mult_distrib\<close>)
  moreover have "(b - a) * 4096 + (c - b) * 4096 = (c - a) * 4096" using assms(3,4) by (simp add: diff_mult_distrib)
  ultimately show ?thesis by simp
qed

text \<open>The block loop after the first sector loop, which may have reached the end.\<close>

lemma erase_blocks_rest:
  assumes "nor_flash spi" "c \<le> e" "c < e \<Longrightarrow> c AND 15 = 0" "unat e \<le> 1048576"
  shows "\<exists>f' c' ok. erase_blocks spi c e f = Some (f', c', ok) \<and>
    (ok \<longrightarrow> c \<le> c' \<and> c' \<le> e \<and> erases spi f f' (unat c * 4096) ((unat c' - unat c) * 4096))"
proof (cases "c < e")
  case True
  have "c AND 15 = take_bit 4 c" by (simp add: take_bit_eq_mask mask_eq_exp_minus_1)
  then have "unat c mod 16 = 0"
    using assms(3) [OF True] by (simp add: word_unat_eq_iff unsigned_take_bit_eq take_bit_eq_mod unat_mod)
  moreover have "unat c \<le> 1048576" using assms(2,4) by (simp add: word_le_nat_alt)
  ultimately show ?thesis using erase_blocks_ok [OF assms(1) _ _ assms(4), of c f] assms(2) by auto
next
  case False
  then have "c = e" using assms(2) by simp
  moreover have "\<not> e + 16 \<le> e" using assms(4) by (simp add: word_le_nat_alt unat_word_ariths)
  ultimately have "erase_blocks spi c e f = Some (f, c, True)" by (subst erase_blocks.simps) (simp add: flash_sizes)
  then show ?thesis using assms(2) by (auto simp: erases_refl)
qed

text \<open>The three loops: sectors up to a block boundary, blocks, the sectors that are left.\<close>

lemma three_loops:
  assumes "nor_flash spi" "c \<le> e" "unat e \<le> 1048576"
  obtains f1 c1 ok1 f2 c2 ok2 f3 c3 ok3 where "erase_sectors spi True c e f = Some (f1, c1, ok1)"
    "erase_blocks spi c1 e f1 = Some (f2, c2, ok2) \<or> \<not> ok1" "erase_sectors spi False c2 e f2 = Some (f3, c3, ok3) \<or> \<not> (ok1 \<and> ok2)"
    "ok1 \<and> ok2 \<and> ok3 \<Longrightarrow> erases spi f f3 (unat c * 4096) ((unat e - unat c) * 4096)"
proof -
  obtain f1 c1 ok1 where 1: "erase_sectors spi True c e f = Some (f1, c1, ok1)"
    "ok1 \<longrightarrow> c \<le> c1 \<and> c1 \<le> e \<and> (c1 < e \<longrightarrow> c1 AND 15 = 0) \<and> erases spi f f1 (unat c * 4096) ((unat c1 - unat c) * 4096)"
    using erase_sectors_ok [OF assms(1), of True c e f] assms(2) by blast
  obtain f2 c2 ok2 where 2: "erase_blocks spi c1 e f1 = Some (f2, c2, ok2) \<or> \<not> ok1"
    "ok1 \<and> ok2 \<longrightarrow> c1 \<le> c2 \<and> c2 \<le> e \<and> erases spi f1 f2 (unat c1 * 4096) ((unat c2 - unat c1) * 4096)"
    using erase_blocks_rest [OF assms(1) _ _ assms(3), of c1 f1] 1(2) by blast
  obtain f3 c3 ok3 where 3: "erase_sectors spi False c2 e f2 = Some (f3, c3, ok3)"
    "ok3 \<longrightarrow> c2 \<le> c3 \<and> (c2 \<le> e \<longrightarrow> c3 \<le> e) \<and> \<not> c3 < e \<and> erases spi f2 f3 (unat c2 * 4096) ((unat c3 - unat c2) * 4096)"
    using erase_sectors_ok [OF assms(1), of False c2 e f2] by blast
  have "erases spi f f3 (unat c * 4096) ((unat e - unat c) * 4096)" if ok: "ok1 \<and> ok2 \<and> ok3"
  proof -
    have le: "c \<le> c1" "c1 \<le> c2" "c2 \<le> e" "c3 = e" using 1(2) 2(2) 3(2) ok by auto
    have "erases spi f f2 (unat c * 4096) ((unat c2 - unat c) * 4096)"
      by (rule erases_join) (use 1(2) 2(2) ok le in \<open>auto simp: word_le_nat_alt\<close>)
    then show ?thesis by (rule erases_join) (use 3(2) ok le in \<open>auto simp: word_le_nat_alt\<close>)
  qed
  with 1(1) 2(1) 3(1) show thesis using that by blast
qed

text \<open>
  C20. SPIEraseAreaEx erases exactly the sectors asked for.  For a sector-aligned start and an
  area inside the 32-bit flash space the three loops end; on success every byte from the start
  to the end of the last sector begun is erased, mixing sector and block erases, and no other
  byte changes.
\<close>

theorem SPIEraseAreaEx_exact:
  assumes "nor_flash spi" "unat start mod 4096 = 0" "unat start + unat sz + 4095 < 4294967296"
  shows "\<exists>f' code. SPIEraseAreaEx spi start sz f = Some (f', code) \<and>
    (code = 0 \<longrightarrow> erases spi f f' (unat start) ((unat sz + 4095) div 4096 * 4096))"
proof -
  let ?c = "start div FLASH_SECTOR_SIZE" and ?n = "(sz + FLASH_SECTOR_SIZE - 1) div FLASH_SECTOR_SIZE" and ?k = "(unat sz + 4095) div 4096"
  have c: "unat ?c * 4096 = unat start" using assms(2) by (auto simp: flash_sizes unat_div)
  have "unat (sz + FLASH_SECTOR_SIZE - 1) = unat sz + 4095" using assms(3) by (simp add: flash_sizes unat_word_ariths)
  then have n: "unat ?n = ?k" by (simp add: flash_sizes unat_div)
  have "unat ?c * 4096 + ?k * 4096 \<le> 4294967295" using c assms(3) by simp
  then have le: "unat ?c + ?k \<le> 1048576" by linarith
  then have e: "unat (?c + ?n) = unat ?c + ?k" by (simp only: unat_word_ariths(1) n) simp
  have "?c \<le> ?c + ?n" "unat (?c + ?n) \<le> 1048576" using e le by (simp_all add: word_le_nat_alt)
  then obtain f1 c1 ok1 f2 c2 ok2 f3 c3 ok3 where L: "erase_sectors spi True ?c (?c + ?n) f = Some (f1, c1, ok1)"
    "erase_blocks spi c1 (?c + ?n) f1 = Some (f2, c2, ok2) \<or> \<not> ok1"
    "erase_sectors spi False c2 (?c + ?n) f2 = Some (f3, c3, ok3) \<or> \<not> (ok1 \<and> ok2)"
    "ok1 \<and> ok2 \<and> ok3 \<Longrightarrow> erases spi f f3 (unat ?c * 4096) ((unat (?c + ?n) - unat ?c) * 4096)"
    using three_loops [OF assms(1)] by blast
  have "SPIEraseAreaEx spi start sz f = Some (if \<not> ok1 then (f1, 2) else if \<not> ok2 then (f2, 3) else (f3, if ok3 then 0 else 4))"
    using L(1-3) assms(2) by (auto simp: SPIEraseAreaEx_def low_bits_zero erase_area_def Let_def)
  then show ?thesis using L(4) unfolding e c by auto
qed

text \<open>A flash for the witnesses: an array of bytes; reads, writes and erases always succeed.\<close>

definition array_spi :: "(nat \<Rightarrow> u8) spi" where
  "array_spi =
     \<lparr>SPIEraseBlock = (\<lambda>b f. (\<lambda>x. if unat b * 65536 \<le> x \<and> x < unat b * 65536 + 65536 then 0xff else f x, 0)),
      SPIEraseSector = (\<lambda>s f. (\<lambda>x. if unat s * 4096 \<le> x \<and> x < unat s * 4096 + 4096 then 0xff else f x, 0)),
      SPIRead = (\<lambda>a n f. (map (\<lambda>i. f (unat a + i)) [0..<unat n], 0)),
      SPIWrite = (\<lambda>a bs f. (\<lambda>x. if unat a \<le> x \<and> x < unat a + length bs then f x AND bs ! (x - unat a) else f x, 0)),
      flash_byte = (\<lambda>f x. f x)\<rparr>"

lemma array_spi_nor: "nor_flash array_spi"
  by (auto simp: nor_flash_def array_spi_def erases_def)

lemma SPIEraseAreaEx_exact_witness:
  "\<exists>f' code. SPIEraseAreaEx array_spi 0x1F000 0x12345 (\<lambda>_. 0) = Some (f', code)"
  using SPIEraseAreaEx_exact [OF array_spi_nor, of "0x1F000" "0x12345" "\<lambda>_. 0"] by auto

section \<open>The copy\<close>

definition same_flash :: "'f spi \<Rightarrow> 'f \<Rightarrow> 'f \<Rightarrow> nat \<Rightarrow> nat \<Rightarrow> bool" where
  "same_flash spi f f' a n \<longleftrightarrow> (\<forall>x. \<not> (a \<le> x \<and> x < a + n) \<longrightarrow> flash_byte spi f' x = flash_byte spi f x)"

lemma sector_min:
  fixes n :: nat
  assumes "n mod 4096 = 0" "n \<noteq> 0" shows "4096 \<le> n"
  using assms by (cases "n < 4096") simp_all

lemma sector_next:
  fixes a b :: nat
  assumes "a mod 4096 = 0" "b mod 4096 = 0" "a < b" shows "a + 4096 \<le> b"
proof -
  obtain i j where "a = 4096 * i" "b = 4096 * j" using assms(1,2) by (auto simp: mod_0_imp_dvd dvd_def dest!: mod_0_imp_dvd)
  then show ?thesis using assms(3) by simp
qed

lemma minus_1_eq_ff: "(- 1 :: u8) = 0xff"
  by simp

lemma copy_sector:
  assumes N: "nor_flash spi" and "unat d mod 4096 = 0" "unat s + 4096 \<le> unat d \<or> unat d + 4096 \<le> unat s"
    and e: "SPIEraseSector spi (d div FLASH_SECTOR_SIZE) f = (f1, 0)"
    and r: "SPIRead spi s FLASH_SECTOR_SIZE f1 = (bs, 0)" and w: "SPIWrite spi d bs f1 = (f2, 0)"
  shows "\<forall>i<4096. flash_byte spi f2 (unat d + i) = flash_byte spi f (unat s + i)" and "same_flash spi f f2 (unat d) 4096"
proof -
  have "unat (d div FLASH_SECTOR_SIZE) * 4096 = unat d" using assms(2) by (auto simp: flash_sizes unat_div)
  then have er: "erases spi f f1 (unat d) 4096" using nor_sector [OF N e] by simp
  have n: "unat FLASH_SECTOR_SIZE = 4096" by (simp add: flash_sizes)
  have bs: "bs = map (\<lambda>i. flash_byte spi f1 (unat s + i)) [0..<4096]" using N r n unfolding nor_flash_def by metis
  have wr: "flash_byte spi f2 x =
      (if unat d \<le> x \<and> x < unat d + length bs then flash_byte spi f1 x AND bs ! (x - unat d) else flash_byte spi f1 x)" for x
    using N w unfolding nor_flash_def by blast
  have ff: "w AND 0xff = w" "0xff AND w = w" for w :: u8
    using and.right_neutral [of w] and.left_neutral [of w] by (simp_all add: minus_1_eq_ff)
  have src: "flash_byte spi f1 (unat s + i) = flash_byte spi f (unat s + i)" if "i < 4096" for i
    using er assms(3) that by (auto simp: erases_def)
  show "\<forall>i<4096. flash_byte spi f2 (unat d + i) = flash_byte spi f (unat s + i)"
  proof (intro allI impI)
    fix i :: nat
    assume i: "i < 4096"
    have "flash_byte spi f1 (unat d + i) = 0xff" using er i unfolding erases_def by simp
    moreover have "flash_byte spi f2 (unat d + i) = flash_byte spi f1 (unat d + i) AND flash_byte spi f1 (unat s + i)"
      using wr [of "unat d + i"] i by (simp add: bs)
    ultimately show "flash_byte spi f2 (unat d + i) = flash_byte spi f (unat s + i)" using src [OF i] by (simp only: ff)
  qed
  show "same_flash spi f f2 (unat d) 4096"
    unfolding same_flash_def
  proof (intro allI impI)
    fix x assume x: "\<not> (unat d \<le> x \<and> x < unat d + 4096)"
    have "length bs = 4096" by (simp add: bs)
    then have "flash_byte spi f2 x = flash_byte spi f1 x" using wr [of x] x by (simp only: if_False)
    also have "\<dots> = flash_byte spi f x" using er x unfolding erases_def by (simp only: if_False)
    finally show "flash_byte spi f2 x = flash_byte spi f x" .
  qed
qed

text \<open>The loop ends for every multiple of the sector size, whatever the flash does.\<close>

lemma copy_loop_returns:
  "unat left mod 4096 = 0 \<Longrightarrow> \<exists>f' code. copy_loop spi left s d f = Some (f', code)"
proof (induction "unat left" arbitrary: left s d f rule: less_induct)
  case less
  show ?case
  proof (cases "left = 0")
    case False
    then have "unat left \<noteq> 0" by (simp add: unat_eq_0)
    then have "4096 \<le> unat left" using sector_min [OF less.prems(1)] by simp
    then have left: "unat (left - FLASH_SECTOR_SIZE) = unat left - 4096"
      by (simp add: flash_sizes unat_sub word_le_nat_alt)
    then have "unat (left - FLASH_SECTOR_SIZE) < unat left" "unat (left - FLASH_SECTOR_SIZE) mod 4096 = 0"
      using less.prems \<open>4096 \<le> unat left\<close> by (auto simp: mod_if [of "unat left"])
    note rest = less.hyps [OF this]
    show ?thesis
    proof (cases "SPIEraseSector spi (d div FLASH_SECTOR_SIZE) f")
      case (Pair f1 c1)
      show ?thesis
      proof (cases "SPIRead spi s FLASH_SECTOR_SIZE f1")
        case r: (Pair bs c2)
        show ?thesis
        proof (cases "SPIWrite spi d bs f1")
          case w: (Pair f2 c3)
          show ?thesis
            using False Pair r w rest [of "s + FLASH_SECTOR_SIZE" "d + FLASH_SECTOR_SIZE" f2]
            by (subst copy_loop.simps) simp
        qed
      qed
    qed
  qed (subst copy_loop.simps, simp)
qed

lemma copy_loop_copies:
  assumes N: "nor_flash spi"
    and "unat left mod 4096 = 0" "unat s mod 4096 = 0" "unat d mod 4096 = 0"
    and "unat s + unat left < 4294967296" "unat d + unat left < 4294967296"
    and "unat d < unat s \<or> unat s + unat left \<le> unat d"
    and "copy_loop spi left s d f = Some (f', 0)"
  shows "(\<forall>i<unat left. flash_byte spi f' (unat d + i) = flash_byte spi f (unat s + i)) \<and> same_flash spi f f' (unat d) (unat left)"
  using assms(2-)
proof (induction "unat left" arbitrary: left s d f rule: less_induct)
  case less
  show ?case
  proof (cases "left = 0")
    case True
    then show ?thesis using less.prems(7) by (simp add: copy_loop.simps same_flash_def)
  next
    case False
    then have "unat left \<noteq> 0" by (simp add: unat_eq_0)
    then have big: "4096 \<le> unat left" using sector_min [OF less.prems(1)] by simp
    define k where "k = unat left - 4096"
    have k: "unat left = k + 4096" using big by (simp add: k_def)
    have left: "unat (left - FLASH_SECTOR_SIZE) = k"
      using big by (simp add: flash_sizes unat_sub word_le_nat_alt k_def)
    have sd: "unat (s + FLASH_SECTOR_SIZE) = unat s + 4096" "unat (d + FLASH_SECTOR_SIZE) = unat d + 4096"
      if "k \<noteq> 0 \<or> unat s + 4096 < 4294967296 \<and> unat d + 4096 < 4294967296"
      using less.prems(4,5) k by (simp_all add: flash_sizes unat_word_ariths)
    obtain f1 bs f2 where e: "SPIEraseSector spi (d div FLASH_SECTOR_SIZE) f = (f1, 0)"
      and r: "SPIRead spi s FLASH_SECTOR_SIZE f1 = (bs, 0)" and w: "SPIWrite spi d bs f1 = (f2, 0)"
      and rest: "copy_loop spi (left - FLASH_SECTOR_SIZE) (s + FLASH_SECTOR_SIZE) (d + FLASH_SECTOR_SIZE) f2 = Some (f', 0)"
      using less.prems(7) False by (subst (asm) copy_loop.simps) (auto split: prod.splits if_splits)
    have apart: "unat s + 4096 \<le> unat d \<or> unat d + 4096 \<le> unat s"
      using sector_next [OF less.prems(3,2)] less.prems(6) k by auto
    note sector = copy_sector [OF N less.prems(3) apart e r w]
    have wide: "unat s + 4096 < 4294967296" "unat d + 4096 < 4294967296" using less.prems(4,5) k by auto
    then have sd': "unat (s + FLASH_SECTOR_SIZE) = unat s + 4096" "unat (d + FLASH_SECTOR_SIZE) = unat d + 4096"
      using sd by auto
    have "unat (left - FLASH_SECTOR_SIZE) < unat left" using left k by simp
    then have IH: "(\<forall>i<k. flash_byte spi f' (unat d + 4096 + i) = flash_byte spi f2 (unat s + 4096 + i)) \<and>
        same_flash spi f2 f' (unat d + 4096) k"
      using less.hyps [of "left - FLASH_SECTOR_SIZE" "s + FLASH_SECTOR_SIZE" "d + FLASH_SECTOR_SIZE" f2] rest less.prems k
      unfolding left sd' by (auto simp: mod_if [of "unat left"])
    have "flash_byte spi f' (unat d + i) = flash_byte spi f (unat s + i)" if i: "i < unat left" for i
    proof (cases "i < 4096")
      case True
      then have "flash_byte spi f' (unat d + i) = flash_byte spi f2 (unat d + i)"
        using IH unfolding same_flash_def by simp
      then show ?thesis using sector(1) True by simp
    next
      case False
      then have "flash_byte spi f' (unat d + i) = flash_byte spi f2 (unat s + i)"
        using IH i k by (auto dest!: spec [of _ "i - 4096"])
      moreover have "\<not> (unat d \<le> unat s + i \<and> unat s + i < unat d + 4096)" using less.prems(6) i False by auto
      ultimately show ?thesis using sector(2) unfolding same_flash_def by simp
    qed
    moreover have "same_flash spi f f' (unat d) (unat left)"
      unfolding same_flash_def
    proof (intro allI impI)
      fix x assume "\<not> (unat d \<le> x \<and> x < unat d + unat left)"
      then have "\<not> (unat d + 4096 \<le> x \<and> x < unat d + 4096 + k)" "\<not> (unat d \<le> x \<and> x < unat d + 4096)"
        using k by auto
      then show "flash_byte spi f' x = flash_byte spi f x" using sector(2) IH unfolding same_flash_def by metis
    qed
    ultimately show ?thesis by blast
  qed
qed


text \<open>The size rounded up to whole sectors, as the code computes it.\<close>

lemma rounded_size:
  assumes "unat sz + 4095 < 4294967296"
  shows "unat ((sz + FLASH_SECTOR_SIZE - 1) AND NOT (FLASH_SECTOR_SIZE - 1)) = (unat sz + 4095) div 4096 * 4096"
proof -
  have m: "FLASH_SECTOR_SIZE - 1 = mask 12" by (simp add: flash_sizes mask_eq_exp_minus_1)
  have "unat (sz + FLASH_SECTOR_SIZE - 1) = unat sz + 4095"
    using assms by (simp add: flash_sizes unat_word_ariths)
  moreover have "unat (w AND NOT (mask 12)) = push_bit 12 (drop_bit 12 (unat w))" for w :: u32
    by (rule bit_eqI) (auto simp: bit_simps dest: bit_imp_le_length)
  ultimately show ?thesis
    unfolding m by (simp add: push_bit_eq_mult drop_bit_eq_div)
qed

text \<open>
  C19. The bootloader's copy is exact.  For sector-aligned regions inside the 32-bit space whose
  source is not overwritten ahead of the copy (the destination starts below the source, or after
  its end), copy_raw returns; when it returns 0 the destination holds the source's old bytes, up
  to the size rounded to whole sectors, and the rest of the flash is unchanged.
\<close>

theorem copy_raw_copies:
  assumes "nor_flash spi" "unat s mod 4096 = 0" "unat d mod 4096 = 0"
    and n: "n = (unat sz + 4095) div 4096 * 4096"
    and "unat s + n < 4294967296" "unat d + n < 4294967296"
    and "unat d < unat s \<or> unat s + n \<le> unat d"
  shows "\<exists>f' code. copy_raw spi s d sz f = Some (f', code) \<and> (code = 0 \<longrightarrow>
    (\<forall>x. flash_byte spi f' x =
      (if unat d \<le> x \<and> x < unat d + n then flash_byte spi f (x - unat d + unat s) else flash_byte spi f x)))"
proof -
  define left where "left = (sz + FLASH_SECTOR_SIZE - 1) AND NOT (FLASH_SECTOR_SIZE - 1)"
  have "(unat sz + 4095) div 4096 < 1048576" using n assms(5) by simp
  then have left: "unat left = n" "unat left mod 4096 = 0"
    using rounded_size [of sz] n unfolding left_def by (auto simp: div_less_iff_less_mult)
  have bit0: "w AND 1 = 0" if "unat w mod 4096 = 0" for w :: u32
  proof -
    have "unat w mod 2 = 0" using mod_mod_cancel [of 2 4096 "unat w"] that by simp
    moreover have "w AND 1 = take_bit 1 w" by (simp add: take_bit_eq_mask)
    ultimately show ?thesis
      by (simp only: word_unat_eq_iff unsigned_take_bit_eq take_bit_eq_mod power_one_right unat_0 unat_mod) simp
  qed
  obtain f' code where l: "copy_loop spi left s d f = Some (f', code)"
    using copy_loop_returns [OF left(2), of spi s d f] by auto
  then have run: "copy_raw spi s d sz f = Some (f', code)"
    using bit0 [OF assms(2)] bit0 [OF assms(3)] by (simp add: copy_raw_def left_def)
  show ?thesis
  proof (intro exI conjI impI allI, rule run)
    fix x
    assume "code = 0"
    then have c: "\<forall>i<n. flash_byte spi f' (unat d + i) = flash_byte spi f (unat s + i)" "same_flash spi f f' (unat d) n"
      using copy_loop_copies [OF assms(1) left(2) assms(2,3), of f f'] l assms(5-7) left(1) by auto
    show "flash_byte spi f' x =
      (if unat d \<le> x \<and> x < unat d + n then flash_byte spi f (x - unat d + unat s) else flash_byte spi f x)"
      using c(1)[rule_format, of "x - unat d"] c(2)[unfolded same_flash_def, rule_format, of x]
      by (auto simp: add.commute)
  qed
qed

lemma copy_raw_copies_witness:
  "\<exists>f' code. copy_raw array_spi 0x100000 0x1000 20000 (\<lambda>x. of_nat x) = Some (f', code)"
  using copy_raw_copies [OF array_spi_nor, of "0x100000" "0x1000" 20480 20000 "\<lambda>x. of_nat x"] by auto

section \<open>The bootloader ends\<close>

lemma left_multiple: "unat ((w :: u32) AND NOT (FLASH_SECTOR_SIZE - 1)) mod 4096 = 0"
proof -
  have "FLASH_SECTOR_SIZE - 1 = mask 12" by (simp add: flash_sizes mask_eq_exp_minus_1)
  then have "(w AND NOT (FLASH_SECTOR_SIZE - 1)) AND (FLASH_SECTOR_SIZE - 1) = 0"
    by (auto intro!: bit_eqI simp: bit_simps)
  then show ?thesis by (simp only: low_bits_zero)
qed

lemma copy_raw_returns: "\<exists>f' code. copy_raw spi s d sz f = Some (f', code)"
  using copy_loop_returns [OF left_multiple] by (auto simp: copy_raw_def)

lemma load_sections_code: "snd (load_sections spi f n pos ram) \<in> {0, 2, 3}"
  by (induction n arbitrary: pos ram) (auto simp: Let_def split: prod.split)

lemma load_code_nonzero: "snd (load_app_from_flash_raw spi a f ram) \<noteq> Load_failed 0"
  by (auto simp: load_app_from_flash_raw_def split: prod.split)



end
