(* ===== verification/Uart.thy ===== *)
theory Uart
  imports Prelude "HOL-Library.Monad_Syntax" "HOL-Library.Sublist" "HOL-Library.Signed_Division"
begin

text \<open>
  The UART driver, cores/esp8266/uart.c: the receive ring buffer the interrupt handler fills and
  \<open>uart_read_char\<close> empties, its resizing, the transmit side with its waits, set-up and tear-down,
  and the pin assignment.  The registers, the interrupt controller and the SDK functions belong
  to the chip: they are the argument \<open>dev\<close>, a function that reads a register and one that
  performs a call, on a machine state of type \<open>'h\<close>.  \<open>None\<close> is a call that does not return:
  an access outside a buffer, a division by zero, a null pointer, or a wait that never ends.
\<close>

section \<open>The device and the driver's data\<close>

datatype ureg = USF | USIS | USIE | USIC | USD | USS | USC0 | USC1 | IOSWAP

datatype uart_block = Uart_block | Rx_block | Buffer_block

datatype uart_call =
  Set_reg ureg int u32
| Intr_disable
| Intr_enable
| Intr_attach bool
| Pin_mode u8 u8
| Delay
| Free uart_block
| Os_print bool
| Install_putc "int option"

record 'h uart_dev =
  reg_get :: "ureg \<Rightarrow> int \<Rightarrow> 'h \<Rightarrow> u32 \<times> 'h"
  uart_do :: "uart_call \<Rightarrow> 'h \<Rightarrow> 'h"

definition reg_or :: "'h uart_dev \<Rightarrow> ureg \<Rightarrow> int \<Rightarrow> u32 \<Rightarrow> 'h \<Rightarrow> 'h" where
  "reg_or dev r nr v h = (case reg_get dev r nr h of (x, h) \<Rightarrow> uart_do dev (Set_reg r nr (x OR v)) h)"

definition reg_clear :: "'h uart_dev \<Rightarrow> ureg \<Rightarrow> int \<Rightarrow> u32 \<Rightarrow> 'h \<Rightarrow> 'h" where
  "reg_clear dev r nr v h = (case reg_get dev r nr h of (x, h) \<Rightarrow> uart_do dev (Set_reg r nr (x AND NOT v)) h)"

text \<open>The buffer is the allocated block: an index beyond its length is outside it.\<close>

record rx_buffer =
  rx_size :: u32
  rx_rpos :: u32
  rx_wpos :: u32
  rx_data :: "u8 list"

text \<open>A null \<open>uart_t *\<close> is \<open>None\<close>; the field \<open>rx_buf\<close> is \<open>None\<close> while it is uninitialised.\<close>

record uart =
  uart_nr :: int
  baud_rate :: int
  rx_enabled :: bool
  tx_enabled :: bool
  rx_pin :: u8
  tx_pin :: u8
  rx_buf :: "rx_buffer option"

definition UART0 :: int where "UART0 = 0"
definition UART1 :: int where "UART1 = 1"
definition UART_RX_ONLY :: int where "UART_RX_ONLY = 1"
definition UART_TX_ONLY :: int where "UART_TX_ONLY = 2"
definition UART_TX_FIFO_SIZE :: u32 where "UART_TX_FIFO_SIZE = 0x80"
definition PIN_INPUT :: u8 where "PIN_INPUT = 0x00"
definition PIN_SPECIAL :: u8 where "PIN_SPECIAL = 0xF8"
definition PIN_FUNCTION_0 :: u8 where "PIN_FUNCTION_0 = 0x08"
definition PIN_FUNCTION_4 :: u8 where "PIN_FUNCTION_4 = 0x48"
definition ESP8266_CLOCK :: int where "ESP8266_CLOCK = 80000000"

section \<open>Receiving\<close>

definition rx_count :: "rx_buffer \<Rightarrow> u32" where
  "rx_count r = (if rx_wpos r < rx_rpos r then (rx_wpos r + rx_size r) - rx_rpos r else rx_wpos r - rx_rpos r)"

definition uart_rx_available :: "uart option \<Rightarrow> u32 option" where
  "uart_rx_available p = (case p of None \<Rightarrow> Some 0
     | Some u \<Rightarrow> if \<not> rx_enabled u then Some 0 else do { r \<leftarrow> rx_buf u; Some (rx_count r) })"

definition uart_peek_char :: "uart option \<Rightarrow> int option" where
  "uart_peek_char p = (case p of None \<Rightarrow> Some (- 1)
     | Some u \<Rightarrow>
         if \<not> rx_enabled u then Some (- 1)
         else do {
           n \<leftarrow> uart_rx_available p;
           r \<leftarrow> rx_buf u;
           if n = 0 then Some (- 1)
           else if unat (rx_rpos r) < length (rx_data r) then Some (uint (rx_data r ! unat (rx_rpos r)))
           else None })"

definition uart_read_char :: "uart option \<Rightarrow> (int \<times> uart option) option" where
  "uart_read_char p = do {
     data \<leftarrow> uart_peek_char p;
     if data = - 1 then Some (data, p)
     else do {
       u \<leftarrow> p;
       r \<leftarrow> rx_buf u;
       if rx_size r = 0 then None
       else Some (data, Some (u\<lparr>rx_buf := Some (r\<lparr>rx_rpos := (rx_rpos r + 1) mod rx_size r\<rparr>)\<rparr>)) } }"

text \<open>One byte in the interrupt handler: dropped when the ring is full.\<close>

definition rx_put :: "rx_buffer \<Rightarrow> u8 \<Rightarrow> rx_buffer option" where
  "rx_put r d =
     (if rx_size r = 0 then None
      else let nextPos = (rx_wpos r + 1) mod rx_size r
           in if nextPos \<noteq> rx_rpos r
              then (if unat (rx_wpos r) < length (rx_data r)
                    then Some (r\<lparr>rx_data := (rx_data r)[unat (rx_wpos r) := d], rx_wpos := nextPos\<rparr>)
                    else None)
              else Some r)"

partial_function (option) isr_loop :: "'h uart_dev \<Rightarrow> int \<Rightarrow> rx_buffer \<Rightarrow> 'h \<Rightarrow> (rx_buffer \<times> 'h) option" where
  "isr_loop dev nr r h =
     (case reg_get dev USS nr h of (status, h) \<Rightarrow>
        if drop_bit 0 status AND 0x7F = 0 then Some (r, h)
        else case reg_get dev USF nr h of (data, h) \<Rightarrow>
          (case rx_put r (ucast data) of None \<Rightarrow> None | Some r \<Rightarrow> isr_loop dev nr r h))"

definition uart_isr :: "'h uart_dev \<Rightarrow> uart option \<Rightarrow> 'h \<Rightarrow> (uart option \<times> 'h) option" where
  "uart_isr dev p h = (case p of None \<Rightarrow> None
     | Some u \<Rightarrow>
         if \<not> rx_enabled u then
           (case reg_get dev USIS (uart_nr u) h of (st, h) \<Rightarrow>
              Some (p, uart_do dev Intr_disable (uart_do dev (Set_reg USIC (uart_nr u) st) h)))
         else case reg_get dev USIS (uart_nr u) h of (st, h) \<Rightarrow> do {
           (u, h) \<leftarrow> (if st AND (push_bit 0 1 OR push_bit 8 1) \<noteq> 0
                     then do { r \<leftarrow> rx_buf u; (r, h) \<leftarrow> isr_loop dev (uart_nr u) r h; Some (u\<lparr>rx_buf := Some r\<rparr>, h) }
                     else Some (u, h));
           case reg_get dev USIS (uart_nr u) h of (st, h) \<Rightarrow>
             Some (Some u, uart_do dev (Set_reg USIC (uart_nr u) st) h) })"

text \<open>
  The copy loop of \<open>uart_resize_rx_buffer\<close>; the first argument is the room left in the new
  buffer.  \<open>new_buf\<close> is the result of \<open>malloc\<close>: null, or a block with unspecified contents.
\<close>

fun rx_drain :: "nat \<Rightarrow> uart option \<Rightarrow> nat \<Rightarrow> u8 list \<Rightarrow> (nat \<times> u8 list \<times> uart option) option" where
  "rx_drain 0 p new_wpos new_buf = Some (new_wpos, new_buf, p)"
| "rx_drain (Suc room) p new_wpos new_buf = do {
     n \<leftarrow> uart_rx_available p;
     if n = 0 then Some (new_wpos, new_buf, p)
     else do {
       (c, p) \<leftarrow> uart_read_char p;
       rx_drain room p (Suc new_wpos) (new_buf[new_wpos := word_of_int c]) } }"

definition uart_resize_rx_buffer ::
  "'h uart_dev \<Rightarrow> uart option \<Rightarrow> u32 \<Rightarrow> u8 list option \<Rightarrow> 'h \<Rightarrow> (u32 \<times> uart option \<times> 'h) option" where
  "uart_resize_rx_buffer dev p new_size new_buf h = (case p of None \<Rightarrow> Some (0, p, h)
     | Some u \<Rightarrow>
         if \<not> rx_enabled u then Some (0, p, h)
         else do {
           r \<leftarrow> rx_buf u;
           if rx_size r = new_size then Some (rx_size r, p, h)
           else case new_buf of None \<Rightarrow> Some (rx_size r, p, h)
             | Some new_buf \<Rightarrow> do {
                 let h = uart_do dev Intr_disable h;
                 (new_wpos, new_buf, p) \<leftarrow> rx_drain (unat new_size) p 0 new_buf;
                 let r = \<lparr>rx_size = new_size, rx_rpos = 0, rx_wpos = of_nat new_wpos, rx_data = new_buf\<rparr>;
                 let h = uart_do dev Intr_enable (uart_do dev (Free Buffer_block) h);
                 Some (rx_size r, Some (u\<lparr>rx_buf := Some r\<rparr>), h) } })"

section \<open>Interrupts, transmitting, flushing\<close>

definition uart_start_isr :: "'h uart_dev \<Rightarrow> uart option \<Rightarrow> 'h \<Rightarrow> 'h" where
  "uart_start_isr dev p h = (case p of None \<Rightarrow> h
     | Some u \<Rightarrow>
         if \<not> rx_enabled u then h
         else let h = uart_do dev (Set_reg USC1 (uart_nr u) (push_bit 0 127 OR push_bit 24 2 OR push_bit 31 1)) h;
                  h = uart_do dev (Set_reg USIC (uart_nr u) 0xffff) h;
                  h = uart_do dev (Set_reg USIE (uart_nr u) (push_bit 0 1 OR push_bit 3 1 OR push_bit 8 1)) h
              in uart_do dev Intr_enable (uart_do dev (Intr_attach True) h))"

definition uart_stop_isr :: "'h uart_dev \<Rightarrow> uart option \<Rightarrow> 'h \<Rightarrow> 'h" where
  "uart_stop_isr dev p h = (case p of None \<Rightarrow> h
     | Some u \<Rightarrow>
         if \<not> rx_enabled u then h
         else let h = uart_do dev Intr_disable h;
                  h = uart_do dev (Set_reg USC1 (uart_nr u) 0) h;
                  h = uart_do dev (Set_reg USIC (uart_nr u) 0xffff) h;
                  h = uart_do dev (Set_reg USIE (uart_nr u) 0) h
              in uart_do dev (Intr_attach False) h)"

partial_function (option) tx_wait_room :: "'h uart_dev \<Rightarrow> int \<Rightarrow> 'h \<Rightarrow> 'h option" where
  "tx_wait_room dev nr h =
     (case reg_get dev USS nr h of (status, h) \<Rightarrow>
        if drop_bit 16 status \<ge> 0x7f then tx_wait_room dev nr h else Some h)"

definition uart_write_char :: "'h uart_dev \<Rightarrow> uart option \<Rightarrow> u8 \<Rightarrow> 'h \<Rightarrow> 'h option" where
  "uart_write_char dev p c h = (case p of None \<Rightarrow> Some h
     | Some u \<Rightarrow>
         if \<not> tx_enabled u then Some h
         else do { h \<leftarrow> tx_wait_room dev (uart_nr u) h; Some (uart_do dev (Set_reg USF (uart_nr u) (ucast c)) h) })"

fun write_chars :: "'h uart_dev \<Rightarrow> uart option \<Rightarrow> u8 list \<Rightarrow> 'h \<Rightarrow> 'h option" where
  "write_chars dev p [] h = Some h"
| "write_chars dev p (c # cs) h = do { h \<leftarrow> uart_write_char dev p c h; write_chars dev p cs h }"

definition uart_write :: "'h uart_dev \<Rightarrow> uart option \<Rightarrow> u8 list \<Rightarrow> 'h \<Rightarrow> 'h option" where
  "uart_write dev p cs h = (case p of None \<Rightarrow> Some h
     | Some u \<Rightarrow> if \<not> tx_enabled u then Some h else write_chars dev p cs h)"

definition uart_tx_free :: "'h uart_dev \<Rightarrow> uart option \<Rightarrow> 'h \<Rightarrow> u32 \<times> 'h" where
  "uart_tx_free dev p h = (case p of None \<Rightarrow> (0, h)
     | Some u \<Rightarrow>
         if \<not> tx_enabled u then (0, h)
         else case reg_get dev USS (uart_nr u) h of (status, h) \<Rightarrow>
           (UART_TX_FIFO_SIZE - (drop_bit 16 status AND 0xff), h))"

partial_function (option) tx_wait_empty :: "'h uart_dev \<Rightarrow> int \<Rightarrow> 'h \<Rightarrow> 'h option" where
  "tx_wait_empty dev nr h =
     (case reg_get dev USS nr h of (status, h) \<Rightarrow>
        if drop_bit 16 status AND 0xff > 0 then tx_wait_empty dev nr (uart_do dev Delay h) else Some h)"

definition uart_wait_tx_empty :: "'h uart_dev \<Rightarrow> uart option \<Rightarrow> 'h \<Rightarrow> 'h option" where
  "uart_wait_tx_empty dev p h = (case p of None \<Rightarrow> Some h
     | Some u \<Rightarrow> if \<not> tx_enabled u then Some h else tx_wait_empty dev (uart_nr u) h)"

definition uart_flush :: "'h uart_dev \<Rightarrow> uart option \<Rightarrow> 'h \<Rightarrow> (uart option \<times> 'h) option" where
  "uart_flush dev p h = (case p of None \<Rightarrow> Some (p, h)
     | Some u \<Rightarrow> do {
         (u, tmp, h) \<leftarrow>
           (if rx_enabled u then do {
              let tmp = push_bit 17 1;
              let h = uart_do dev Intr_disable h;
              r \<leftarrow> rx_buf u;
              let r = r\<lparr>rx_rpos := 0, rx_wpos := 0\<rparr>;
              Some (u\<lparr>rx_buf := Some r\<rparr>, tmp, uart_do dev Intr_enable h) }
            else Some (u, 0, h));
         let tmp = (if tx_enabled u then tmp OR push_bit 18 1 else tmp);
         let h = reg_or dev USC0 (uart_nr u) tmp h;
         let h = reg_clear dev USC0 (uart_nr u) tmp h;
         Some (Some u, h) })"

definition uart_set_baudrate :: "'h uart_dev \<Rightarrow> uart option \<Rightarrow> int \<Rightarrow> 'h \<Rightarrow> (uart option \<times> 'h) option" where
  "uart_set_baudrate dev p rate h = (case p of None \<Rightarrow> Some (p, h)
     | Some u \<Rightarrow>
         let u = u\<lparr>baud_rate := rate\<rparr>
         in if baud_rate u = 0 then None
            else Some (Some u, uart_do dev (Set_reg USD (uart_nr u) (word_of_int (ESP8266_CLOCK sdiv baud_rate u))) h))"

definition uart_get_baudrate :: "uart option \<Rightarrow> int" where
  "uart_get_baudrate p = (case p of None \<Rightarrow> 0 | Some u \<Rightarrow> baud_rate u)"

section \<open>Set-up, tear-down and pins\<close>

text \<open>
  \<open>uart_ok\<close>, \<open>rx_ok\<close> and \<open>buffer\<close> are the results of the three calls of \<open>malloc\<close>.
\<close>

definition uart_init_pins ::
  "'h uart_dev \<Rightarrow> uart \<Rightarrow> int \<Rightarrow> int \<Rightarrow> u32 \<Rightarrow> bool \<Rightarrow> u8 list option \<Rightarrow> 'h \<Rightarrow> uart option \<times> 'h" where
  "uart_init_pins dev u mode txp rx_sz rx_ok buffer h =
     (if uart_nr u = UART0 then
        let h = uart_do dev (Intr_attach False) (uart_do dev Intr_disable h);
            u = u\<lparr>rx_enabled := mode \<noteq> UART_TX_ONLY\<rparr>;
            u = u\<lparr>tx_enabled := mode \<noteq> UART_RX_ONLY\<rparr>;
            u = u\<lparr>rx_pin := if rx_enabled u then 3 else 255\<rparr>
        in case (if \<not> rx_enabled u then (Some u, h)
                 else if \<not> rx_ok then (None, uart_do dev (Free Uart_block) h)
                 else case buffer of
                        None \<Rightarrow> (None, uart_do dev (Free Uart_block) (uart_do dev (Free Rx_block) h))
                      | Some b \<Rightarrow>
                          (Some (u\<lparr>rx_buf := Some \<lparr>rx_size = rx_sz, rx_rpos = 0, rx_wpos = 0, rx_data = b\<rparr>\<rparr>),
                           uart_do dev (Pin_mode (rx_pin u) PIN_SPECIAL) h)) of
             (None, h) \<Rightarrow> (None, h)
           | (Some u, h) \<Rightarrow>
               let (u, h) = (if tx_enabled u then
                               if txp = 2 then (u\<lparr>tx_pin := 2\<rparr>, uart_do dev (Pin_mode 2 PIN_FUNCTION_4) h)
                               else (u\<lparr>tx_pin := 1\<rparr>, uart_do dev (Pin_mode 1 PIN_FUNCTION_0) h)
                             else (u\<lparr>tx_pin := 255\<rparr>, h))
               in (Some u, reg_clear dev IOSWAP 0 (push_bit 2 1) h)
      else if uart_nr u = UART1 then
        let u = u\<lparr>rx_enabled := False\<rparr>;
            u = u\<lparr>tx_enabled := mode \<noteq> UART_RX_ONLY\<rparr>;
            u = u\<lparr>rx_pin := 255\<rparr>;
            u = u\<lparr>tx_pin := if tx_enabled u then 2 else 255\<rparr>
        in (Some u, if tx_enabled u then uart_do dev (Pin_mode (tx_pin u) PIN_SPECIAL) h else h)
      else (None, uart_do dev (Free Uart_block) h))"

definition uart_init ::
  "'h uart_dev \<Rightarrow> int \<Rightarrow> int \<Rightarrow> u32 \<Rightarrow> int \<Rightarrow> int \<Rightarrow> u32 \<Rightarrow> bool \<Rightarrow> bool \<Rightarrow> u8 list option \<Rightarrow> 'h \<Rightarrow> (uart option \<times> 'h) option" where
  "uart_init dev nr baudrate config mode txp rx_sz uart_ok rx_ok buffer h =
     (if \<not> uart_ok then Some (None, h)
      else let u = \<lparr>uart_nr = nr, baud_rate = 0, rx_enabled = False, tx_enabled = False,
                    rx_pin = 0, tx_pin = 0, rx_buf = None\<rparr>
           in case uart_init_pins dev u mode txp rx_sz rx_ok buffer h of
                (None, h) \<Rightarrow> Some (None, h)
              | (Some u, h) \<Rightarrow> do {
                  (p, h) \<leftarrow> uart_set_baudrate dev (Some u) baudrate h;
                  let h = uart_do dev (Set_reg USC0 nr config) h;
                  (p, h) \<leftarrow> uart_flush dev p h;
                  let h = uart_do dev (Set_reg USC1 nr 0) h;
                  let h = uart_do dev (Set_reg USIC nr 0xffff) h;
                  let h = uart_do dev (Set_reg USIE nr 0) h;
                  Some (p, if nr = UART0 \<and> rx_enabled u then uart_start_isr dev p h else h) })"

definition uart_uninit :: "'h uart_dev \<Rightarrow> uart option \<Rightarrow> 'h \<Rightarrow> 'h option" where
  "uart_uninit dev p h = (case p of None \<Rightarrow> Some h
     | Some u \<Rightarrow> do {
         let h = (if rx_pin u = 3 \<or> rx_pin u = 13 then uart_do dev (Pin_mode (rx_pin u) PIN_INPUT) h else h);
         let h = (if tx_pin u = 1 \<or> tx_pin u = 2 \<or> tx_pin u = 15 then uart_do dev (Pin_mode (tx_pin u) PIN_INPUT) h else h);
         h \<leftarrow> (if rx_enabled u then do {
                 r \<leftarrow> rx_buf u;
                 let h = uart_do dev (Free Rx_block) (uart_do dev (Free Buffer_block) h);
                 Some (uart_stop_isr dev p h) }
               else Some h);
         Some (uart_do dev (Free Uart_block) h) })"

definition uart_swap :: "'h uart_dev \<Rightarrow> uart option \<Rightarrow> int \<Rightarrow> 'h \<Rightarrow> uart option \<times> 'h" where
  "uart_swap dev p txp h = (case p of None \<Rightarrow> (p, h)
     | Some u \<Rightarrow>
         if uart_nr u \<noteq> UART0 then (p, h)
         else if (tx_pin u = 1 \<or> tx_pin u = 2) \<and> tx_enabled u \<or> rx_pin u = 3 \<and> rx_enabled u then
           let (u, h) = (if tx_enabled u then (u\<lparr>tx_pin := 15\<rparr>, uart_do dev (Pin_mode (tx_pin u) PIN_INPUT) h) else (u, h));
               (u, h) = (if rx_enabled u then (u\<lparr>rx_pin := 13\<rparr>, uart_do dev (Pin_mode (rx_pin u) PIN_INPUT) h) else (u, h));
               h = (if tx_enabled u then uart_do dev (Pin_mode (tx_pin u) PIN_FUNCTION_4) h else h);
               h = (if rx_enabled u then uart_do dev (Pin_mode (rx_pin u) PIN_FUNCTION_4) h else h)
           in (Some u, reg_or dev IOSWAP 0 (push_bit 2 1) h)
         else
           let (u, h) = (if tx_enabled u then (u\<lparr>tx_pin := if txp = 2 then 2 else 1\<rparr>, uart_do dev (Pin_mode (tx_pin u) PIN_INPUT) h) else (u, h));
               (u, h) = (if rx_enabled u then (u\<lparr>rx_pin := 3\<rparr>, uart_do dev (Pin_mode (rx_pin u) PIN_INPUT) h) else (u, h));
               h = (if tx_enabled u then uart_do dev (Pin_mode (tx_pin u) (if txp = 2 then PIN_FUNCTION_4 else PIN_SPECIAL)) h else h);
               h = (if rx_enabled u then uart_do dev (Pin_mode 3 PIN_SPECIAL) h else h)
           in (Some u, reg_clear dev IOSWAP 0 (push_bit 2 1) h))"

definition uart_set_tx :: "'h uart_dev \<Rightarrow> uart option \<Rightarrow> int \<Rightarrow> 'h \<Rightarrow> uart option \<times> 'h" where
  "uart_set_tx dev p txp h = (case p of None \<Rightarrow> (p, h)
     | Some u \<Rightarrow>
         if uart_nr u = UART0 \<and> tx_enabled u then
           if tx_pin u = 1 \<and> txp = 2 then
             (Some (u\<lparr>tx_pin := 2\<rparr>), uart_do dev (Pin_mode 2 PIN_FUNCTION_4) (uart_do dev (Pin_mode (tx_pin u) PIN_INPUT) h))
           else if tx_pin u = 2 \<and> txp \<noteq> 2 then
             (Some (u\<lparr>tx_pin := 1\<rparr>), uart_do dev (Pin_mode 1 PIN_SPECIAL) (uart_do dev (Pin_mode (tx_pin u) PIN_INPUT) h))
           else (p, h)
         else (p, h))"

definition uart_set_pins :: "'h uart_dev \<Rightarrow> uart option \<Rightarrow> int \<Rightarrow> int \<Rightarrow> 'h \<Rightarrow> uart option \<times> 'h" where
  "uart_set_pins dev p tx rx h = (case p of None \<Rightarrow> (p, h)
     | Some u \<Rightarrow>
         if uart_nr u \<noteq> UART0 then (p, h)
         else let (p, h) =
                (if tx_enabled u \<and> uint (tx_pin u) \<noteq> tx then
                   if rx = 13 \<and> tx = 15 then uart_swap dev p 15 h
                   else if rx = 3 \<and> (tx = 1 \<or> tx = 2) then
                     if uint (rx_pin u) \<noteq> rx then uart_swap dev p tx h else uart_set_tx dev p tx h
                   else (p, h)
                 else (p, h))
              in case p of None \<Rightarrow> (p, h)
                 | Some u \<Rightarrow>
                     if rx_enabled u \<and> uint (rx_pin u) \<noteq> rx \<and> rx = 13 \<and> tx = 15 then uart_swap dev p 15 h else (p, h))"

definition uart_tx_enabled :: "uart option \<Rightarrow> bool" where
  "uart_tx_enabled p = (case p of None \<Rightarrow> False | Some u \<Rightarrow> tx_enabled u)"

definition uart_rx_enabled :: "uart option \<Rightarrow> bool" where
  "uart_rx_enabled p = (case p of None \<Rightarrow> False | Some u \<Rightarrow> rx_enabled u)"

section \<open>The debug output\<close>

partial_function (option) tx_wait_debug :: "'h uart_dev \<Rightarrow> int \<Rightarrow> 'h \<Rightarrow> 'h option" where
  "tx_wait_debug dev nr h =
     (case reg_get dev USS nr h of (status, h) \<Rightarrow>
        if drop_bit 16 status AND 0xff \<ge> 0x7F then tx_wait_debug dev nr (uart_do dev Delay h) else Some h)"

definition uart0_write_char :: "'h uart_dev \<Rightarrow> u8 \<Rightarrow> 'h \<Rightarrow> 'h option" where
  "uart0_write_char dev c h = do { h \<leftarrow> tx_wait_debug dev 0 h; Some (uart_do dev (Set_reg USF 0 (ucast c)) h) }"

definition uart1_write_char :: "'h uart_dev \<Rightarrow> u8 \<Rightarrow> 'h \<Rightarrow> 'h option" where
  "uart1_write_char dev c h = do { h \<leftarrow> tx_wait_debug dev 1 h; Some (uart_do dev (Set_reg USF 1 (ucast c)) h) }"

text \<open>
  The first component of the state is \<open>s_uart_debug_nr\<close>; the installed function is named by its
  UART, \<open>None\<close> is \<open>uart_ignore_char\<close>.
\<close>

definition uart_set_debug :: "'h uart_dev \<Rightarrow> int \<Rightarrow> int \<times> 'h \<Rightarrow> int \<times> 'h" where
  "uart_set_debug dev nr s =
     (let h = snd s
      in if nr = UART0 then (nr, uart_do dev (Install_putc (Some 0)) (uart_do dev (Os_print True) h))
         else if nr = UART1 then (nr, uart_do dev (Install_putc (Some 1)) (uart_do dev (Os_print True) h))
         else (nr, uart_do dev (Install_putc None) (uart_do dev (Os_print False) h)))"

definition uart_get_debug :: "int \<times> 'h \<Rightarrow> int" where
  "uart_get_debug s = fst s"

section \<open>The interface of a bounded queue\<close>

text \<open>
  What the users of the receive path rely on: a put appends an item unless the queue is full, a
  get removes the oldest one.  The run of a sequence of puts and gets returns what was got.
\<close>

fun queue_run ::
  "('q \<Rightarrow> 'a \<Rightarrow> 'q option) \<Rightarrow> ('q \<Rightarrow> ('a option \<times> 'q) option) \<Rightarrow> 'a option list \<Rightarrow> 'q \<Rightarrow> ('a list \<times> 'q) option" where
  "queue_run put_op get_op [] q = Some ([], q)"
| "queue_run put_op get_op (Some x # ops) q = do { q \<leftarrow> put_op q x; queue_run put_op get_op ops q }"
| "queue_run put_op get_op (None # ops) q =
     do { (c, q) \<leftarrow> get_op q; (cs, q) \<leftarrow> queue_run put_op get_op ops q;
          Some ((case c of None \<Rightarrow> cs | Some x \<Rightarrow> x # cs), q) }"

definition arrivals :: "'a option list \<Rightarrow> 'a list" where
  "arrivals ops = List.map_filter (\<lambda>x. x) ops"

lemma arrivals_simps [simp]: "arrivals [] = []" "arrivals (None # ops) = arrivals ops" "arrivals (Some x # ops) = x # arrivals ops"
  by (simp_all add: arrivals_def List.map_filter_def)

locale bounded_queue =
  fixes ok :: "'q \<Rightarrow> bool" and items :: "'q \<Rightarrow> 'a list" and cap :: "'q \<Rightarrow> nat"
    and put_op :: "'q \<Rightarrow> 'a \<Rightarrow> 'q option" and get_op :: "'q \<Rightarrow> ('a option \<times> 'q) option"
  assumes put_law: "ok q \<Longrightarrow> \<exists>q'. put_op q x = Some q' \<and> ok q' \<and> cap q' = cap q \<and>
      items q' = (if length (items q) < cap q then items q @ [x] else items q)"
    and get_empty: "ok q \<Longrightarrow> items q = [] \<Longrightarrow> get_op q = Some (None, q)"
    and get_law: "ok q \<Longrightarrow> items q = x # xs \<Longrightarrow> \<exists>q'. get_op q = Some (Some x, q') \<and> ok q' \<and> cap q' = cap q \<and> items q' = xs"
begin

lemma run_fifo:
  "ok q \<Longrightarrow> \<exists>outs q'. queue_run put_op get_op ops q = Some (outs, q') \<and> ok q' \<and> cap q' = cap q \<and>
     subseq (outs @ items q') (items q @ arrivals ops) \<and>
     (length (items q) + length (arrivals ops) \<le> cap q \<longrightarrow> outs @ items q' = items q @ arrivals ops)"
proof (induction ops arbitrary: q)
  case Nil
  then show ?case by simp
next
  case (Cons op ops)
  show ?case
  proof (cases op)
    case (Some x)
    obtain q1 where q1: "put_op q x = Some q1" "ok q1" "cap q1 = cap q"
      "items q1 = (if length (items q) < cap q then items q @ [x] else items q)"
      using put_law [OF Cons.prems, of x] by blast
    obtain outs q' where r: "queue_run put_op get_op ops q1 = Some (outs, q')" "ok q'" "cap q' = cap q1"
      "subseq (outs @ items q') (items q1 @ arrivals ops)"
      "length (items q1) + length (arrivals ops) \<le> cap q1 \<longrightarrow> outs @ items q' = items q1 @ arrivals ops"
      using Cons.IH [OF q1(2)] by blast
    have "subseq (items q1 @ arrivals ops) (items q @ arrivals (op # ops))"
      using q1(4) Some by (auto simp: list_emb_append_mono subseq_order.order_refl list_emb_Cons)
    then have "subseq (outs @ items q') (items q @ arrivals (op # ops))" using r(4) subseq_order.order_trans by blast
    then show ?thesis using q1 r Some by auto
  next
    case None
    show ?thesis
    proof (cases "items q")
      case Nil
      obtain outs q' where "queue_run put_op get_op ops q = Some (outs, q')" "ok q'" "cap q' = cap q"
        "subseq (outs @ items q') (items q @ arrivals ops)"
        "length (items q) + length (arrivals ops) \<le> cap q \<longrightarrow> outs @ items q' = items q @ arrivals ops"
        using Cons.IH [OF Cons.prems] by blast
      then show ?thesis using None get_empty [OF Cons.prems Nil] by auto
    next
      case c: (Cons x xs)
      obtain q1 where q1: "get_op q = Some (Some x, q1)" "ok q1" "cap q1 = cap q" "items q1 = xs"
        using get_law [OF Cons.prems c] by blast
      obtain outs q' where "queue_run put_op get_op ops q1 = Some (outs, q')" "ok q'" "cap q' = cap q1"
        "subseq (outs @ items q') (items q1 @ arrivals ops)"
        "length (items q1) + length (arrivals ops) \<le> cap q1 \<longrightarrow> outs @ items q' = items q1 @ arrivals ops"
        using Cons.IH [OF q1(2)] by blast
      then show ?thesis using None q1 c by auto
    qed
  qed
qed

end

section \<open>The receive ring is a bounded queue\<close>

definition ring_ok :: "rx_buffer \<Rightarrow> bool" where
  "ring_ok r \<longleftrightarrow> length (rx_data r) = unat (rx_size r) \<and> rx_rpos r < rx_size r \<and> rx_wpos r < rx_size r"

definition ring :: "rx_buffer \<Rightarrow> u8 list" where
  "ring r = map (\<lambda>i. rx_data r ! ((unat (rx_rpos r) + i) mod unat (rx_size r))) [0..<unat (rx_count r)]"

lemma unat_rx_count:
  assumes "ring_ok r"
  shows "unat (rx_count r) =
    (if unat (rx_wpos r) < unat (rx_rpos r) then unat (rx_wpos r) + unat (rx_size r) - unat (rx_rpos r)
     else unat (rx_wpos r) - unat (rx_rpos r))"
proof (cases "rx_wpos r < rx_rpos r")
  case True
  have "rx_wpos r + rx_size r - rx_rpos r = rx_size r - (rx_rpos r - rx_wpos r)" by simp
  moreover have diff: "unat (rx_rpos r - rx_wpos r) = unat (rx_rpos r) - unat (rx_wpos r)"
    using True by (simp add: unat_sub)
  moreover have lt: "unat (rx_rpos r) < unat (rx_size r)" using assms by (simp add: ring_ok_def word_less_nat_alt)
  moreover have "unat (rx_size r - (rx_rpos r - rx_wpos r)) = unat (rx_size r) - unat (rx_rpos r - rx_wpos r)"
    by (rule unat_sub) (use diff lt in \<open>simp add: word_le_nat_alt\<close>)
  ultimately have "unat (rx_wpos r + rx_size r - rx_rpos r) = unat (rx_size r) - (unat (rx_rpos r) - unat (rx_wpos r))"
    by (simp only:)
  then show ?thesis using True assms by (auto simp: rx_count_def word_less_nat_alt ring_ok_def)
next
  case False
  then show ?thesis by (simp add: rx_count_def unat_sub word_less_nat_alt word_le_nat_alt)
qed

lemma unat_succ_mod:
  assumes "p < (n :: u32)" shows "unat ((p + 1) mod n) = Suc (unat p) mod unat n"
proof -
  have "unat p < unat n" using assms by (simp add: word_less_nat_alt)
  then have "unat (p + 1) = unat p + 1" using u32_bound [of n] by (simp add: unat_word_ariths)
  then show ?thesis by (simp add: unat_mod)
qed

lemma length_ring: "length (ring r) = unat (rx_count r)"
  by (simp add: ring_def)

lemma rx_count_lt:
  assumes "ring_ok r" shows "unat (rx_count r) < unat (rx_size r)"
  using assms by (auto simp: unat_rx_count ring_ok_def word_less_nat_alt)

lemma ring_put:
  assumes "ring_ok r"
  shows "\<exists>r'. rx_put r d = Some r' \<and> ring_ok r' \<and> rx_size r' = rx_size r \<and>
    ring r' = (if length (ring r) < unat (rx_size r) - 1 then ring r @ [d] else ring r)"
proof -
  define n p w where "n = unat (rx_size r)" and "p = unat (rx_rpos r)" and "w = unat (rx_wpos r)"
  have b: "p < n" "w < n" "length (rx_data r) = n"
    using assms by (auto simp: ring_ok_def n_def p_def w_def word_less_nat_alt)
  have n0: "rx_size r \<noteq> 0" using b(1) by (auto simp: n_def)
  have nx: "unat ((rx_wpos r + 1) mod rx_size r) = Suc w mod n"
    using unat_succ_mod [of "rx_wpos r" "rx_size r"] assms by (simp add: ring_ok_def n_def w_def)
  have cnt: "unat (rx_count r) = (if w < p then w + n - p else w - p)"
    using unat_rx_count [OF assms] by (simp add: n_def p_def w_def)
  have nxt: "Suc w mod n = (if Suc w = n then 0 else Suc w)" using b(2) by auto
  have full: "(rx_wpos r + 1) mod rx_size r \<noteq> rx_rpos r \<longleftrightarrow> unat (rx_count r) < n - 1"
    unfolding word_unat_eq_iff nx p_def [symmetric] nxt cnt using b by auto
  show ?thesis
  proof (cases "unat (rx_count r) < n - 1")
    case False
    then show ?thesis using assms full n0 by (simp add: rx_put_def Let_def length_ring n_def)
  next
    case True
    define r' where "r' = r\<lparr>rx_data := (rx_data r)[w := d], rx_wpos := (rx_wpos r + 1) mod rx_size r\<rparr>"
    have put: "rx_put r d = Some r'"
      using True full n0 b by (simp add: rx_put_def Let_def r'_def w_def)
    have ok: "ring_ok r'" using assms nx b by (simp add: ring_ok_def r'_def word_less_nat_alt n_def)
    have cnt': "unat (rx_count r') = unat (rx_count r) + 1"
      using unat_rx_count [OF ok] True b(1,2) unfolding cnt
      by (auto simp: r'_def nx nxt n_def [symmetric] p_def [symmetric] split: if_splits)
    have last_pos: "(p + unat (rx_count r)) mod n = w" using b by (auto simp: cnt)
    have other: "w \<noteq> (p + i) mod n" if "i < unat (rx_count r)" for i
    proof -
      have "i < n" using that b by (auto simp: cnt split: if_splits)
      then have "(p + i) mod n = (if p + i < n then p + i else p + i - n)"
        using b(1) by (auto simp: mod_if)
      then show ?thesis using that b by (auto simp: cnt split: if_splits)
    qed
    have "ring r' = ring r @ [d]"
      unfolding ring_def cnt' using last_pos other b(2,3)
      by (auto simp: r'_def n_def [symmetric] p_def [symmetric])
    then show ?thesis using put ok True by (simp add: r'_def length_ring n_def)
  qed
qed

lemma ring_get:
  assumes "ring_ok r" "ring r = x # xs"
  defines "r' \<equiv> r\<lparr>rx_rpos := (rx_rpos r + 1) mod rx_size r\<rparr>"
  shows "rx_count r \<noteq> 0" "unat (rx_rpos r) < length (rx_data r)" "rx_data r ! unat (rx_rpos r) = x"
    "rx_size r \<noteq> 0" "ring_ok r'" "ring r' = xs"
proof -
  define n p w where "n = unat (rx_size r)" and "p = unat (rx_rpos r)" and "w = unat (rx_wpos r)"
  have b: "p < n" "w < n" "length (rx_data r) = n"
    using assms by (auto simp: ring_ok_def n_def p_def w_def word_less_nat_alt)
  have nx: "unat ((rx_rpos r + 1) mod rx_size r) = Suc p mod n"
    using unat_succ_mod [of "rx_rpos r" "rx_size r"] assms by (simp add: ring_ok_def n_def p_def)
  have cnt: "unat (rx_count r) = (if w < p then w + n - p else w - p)"
    using unat_rx_count [OF assms(1)] by (simp add: n_def p_def w_def)
  have c: "unat (rx_count r) = Suc (length xs)" using assms(2) length_ring [of r] by simp
  then show "rx_count r \<noteq> 0" by auto
  show "unat (rx_rpos r) < length (rx_data r)" using b by (simp add: p_def)
  have "ring r ! 0 = rx_data r ! ((p + 0) mod n)" using c unfolding ring_def p_def n_def by (subst nth_map) (simp_all del: upt_Suc)
  then have "ring r ! 0 = rx_data r ! p" using b(1) by simp
  then show "rx_data r ! unat (rx_rpos r) = x" using assms(2) by (simp add: p_def)
  show "rx_size r \<noteq> 0" using b(1) by (auto simp: n_def)
  show ok: "ring_ok r'" using assms(1) nx b by (simp add: ring_ok_def r'_def word_less_nat_alt n_def)
  have nxt: "Suc p mod n = (if Suc p = n then 0 else Suc p)" using b(1) by auto
  have c': "unat (rx_count r') = length xs"
    using unat_rx_count [OF ok] b(1,2) c unfolding cnt
    by (auto simp: r'_def nx nxt n_def [symmetric] w_def [symmetric] split: if_splits)
  have "ring r ! Suc i = ring r' ! i" if "i < length xs" for i
    using that c c' nx
    by (simp add: ring_def r'_def n_def [symmetric] p_def [symmetric] mod_simps del: upt_Suc)
  then show "ring r' = xs"
    using assms(2) length_ring [of r'] c' by (intro nth_equalityI) auto
qed

text \<open>The queue's operations on the driver: a byte that arrives, and \<open>uart_read_char\<close>.\<close>

definition rx_arrive :: "uart \<Rightarrow> u8 \<Rightarrow> uart option" where
  "rx_arrive u d = do { r \<leftarrow> rx_buf u; r \<leftarrow> rx_put r d; Some (u\<lparr>rx_buf := Some r\<rparr>) }"

definition rx_next :: "uart \<Rightarrow> (u8 option \<times> uart) option" where
  "rx_next u = do { (c, p) \<leftarrow> uart_read_char (Some u); u \<leftarrow> p;
     Some (if c = - 1 then None else Some (word_of_int c), u) }"

definition uart_rx_ok :: "uart \<Rightarrow> bool" where
  "uart_rx_ok u \<longleftrightarrow> rx_enabled u \<and> (case rx_buf u of None \<Rightarrow> False | Some r \<Rightarrow> ring_ok r)"

definition uart_received :: "uart \<Rightarrow> u8 list" where
  "uart_received u = (case rx_buf u of None \<Rightarrow> [] | Some r \<Rightarrow> ring r)"

definition uart_rx_cap :: "uart \<Rightarrow> nat" where
  "uart_rx_cap u = (case rx_buf u of None \<Rightarrow> 0 | Some r \<Rightarrow> unat (rx_size r) - 1)"

lemmas uart_rx_defs = uart_rx_ok_def uart_received_def uart_rx_cap_def

lemma uart_read_ring:
  assumes "rx_enabled u" "rx_buf u = Some r" "ring_ok r"
  shows "uart_read_char (Some u) = Some (case ring r of [] \<Rightarrow> (- 1, Some u)
    | x # xs \<Rightarrow> (uint x, Some (u\<lparr>rx_buf := Some (r\<lparr>rx_rpos := (rx_rpos r + 1) mod rx_size r\<rparr>)\<rparr>)))"
proof (cases "ring r")
  case Nil
  then have "rx_count r = 0" using length_ring [of r] by (simp add: unat_eq_0)
  then show ?thesis using assms Nil by (simp add: uart_read_char_def uart_peek_char_def uart_rx_available_def)
next
  case (Cons x xs)
  note g = ring_get [OF assms(3) Cons]
  have "uint x \<noteq> - 1" using uint_ge_0 [of x] by linarith
  then show ?thesis
    using assms Cons g by (simp add: uart_read_char_def uart_peek_char_def uart_rx_available_def)
qed

interpretation uart_rx: bounded_queue uart_rx_ok uart_received uart_rx_cap rx_arrive rx_next
proof
  fix u d assume "uart_rx_ok u"
  then obtain r where u: "rx_enabled u" "rx_buf u = Some r" "ring_ok r"
    by (auto simp: uart_rx_ok_def split: option.splits)
  show "\<exists>u'. rx_arrive u d = Some u' \<and> uart_rx_ok u' \<and> uart_rx_cap u' = uart_rx_cap u \<and>
      uart_received u' = (if length (uart_received u) < uart_rx_cap u then uart_received u @ [d] else uart_received u)"
    using ring_put [OF u(3), of d] u by (auto simp: rx_arrive_def uart_rx_defs)
next
  fix u assume "uart_rx_ok u" "uart_received u = []"
  then show "rx_next u = Some (None, u)"
    using uart_read_ring [of u] by (auto simp: rx_next_def uart_rx_defs split: option.splits)
next
  fix u x xs assume u: "uart_rx_ok u" "uart_received u = x # xs"
  then obtain r where r: "rx_enabled u" "rx_buf u = Some r" "ring_ok r" "ring r = x # xs"
    by (auto simp: uart_rx_defs split: option.splits)
  have "uint x \<noteq> - 1" using uint_ge_0 [of x] by linarith
  then show "\<exists>u'. rx_next u = Some (Some x, u') \<and> uart_rx_ok u' \<and> uart_rx_cap u' = uart_rx_cap u \<and> uart_received u' = xs"
    using uart_read_ring [OF r(1-3)] r ring_get [OF r(3,4)] by (simp add: rx_next_def uart_rx_defs)
qed

text \<open>
  C22. The receive path is a FIFO.  For every interleaving of arriving bytes and reads the driver
  returns, its ring stays well formed, and the bytes read followed by those still buffered are a
  subsequence of the bytes buffered at first followed by those that arrived: nothing is
  reordered, duplicated or made up.  Nothing is lost either while the bytes fit in size - 1.
\<close>

theorem uart_rx_fifo:
  assumes "rx_enabled u" "rx_buf u = Some r" "ring_ok r"
  shows "\<exists>outs u' r'. queue_run rx_arrive rx_next ops u = Some (outs, u') \<and> rx_buf u' = Some r' \<and> ring_ok r' \<and>
    subseq (outs @ ring r') (ring r @ arrivals ops) \<and>
    (length (ring r) + length (arrivals ops) < unat (rx_size r) \<longrightarrow> outs @ ring r' = ring r @ arrivals ops)"
proof -
  have "uart_rx_ok u" using assms by (simp add: uart_rx_ok_def)
  from uart_rx.run_fifo [OF this, of ops] obtain outs u' where r: "queue_run rx_arrive rx_next ops u = Some (outs, u')"
    "uart_rx_ok u'" "subseq (outs @ uart_received u') (uart_received u @ arrivals ops)"
    "length (uart_received u) + length (arrivals ops) \<le> uart_rx_cap u \<longrightarrow>
       outs @ uart_received u' = uart_received u @ arrivals ops" by blast
  obtain r' where "rx_buf u' = Some r'" "ring_ok r'"
    using r(2) by (auto simp: uart_rx_ok_def split: option.splits)
  then show ?thesis using r assms by (auto simp: uart_rx_defs)
qed

definition small_uart :: uart where
  "small_uart = \<lparr>uart_nr = 0, baud_rate = 9600, rx_enabled = True, tx_enabled = True, rx_pin = 3, tx_pin = 1,
     rx_buf = Some \<lparr>rx_size = 4, rx_rpos = 3, rx_wpos = 1, rx_data = [20, 0, 0, 10]\<rparr>\<rparr>"

lemma small_ring: "ring \<lparr>rx_size = 4, rx_rpos = 3, rx_wpos = 1, rx_data = [20, 0, 0, 10]\<rparr> = [10, 20]"
  by (simp add: ring_def rx_count_def upt_rec)

lemma uart_rx_fifo_witness:
  "\<exists>outs u' r'. queue_run rx_arrive rx_next [None, Some 30, Some 40] small_uart = Some (outs, u') \<and>
     rx_buf u' = Some r' \<and> subseq (outs @ ring r') [10, 20, 30, 40]"
  using uart_rx_fifo [of small_uart "\<lparr>rx_size = 4, rx_rpos = 3, rx_wpos = 1, rx_data = [20, 0, 0, 10]\<rparr>" "[None, Some 30, Some 40]"]
  unfolding small_ring by (auto simp: small_uart_def ring_ok_def)

section \<open>The interrupt handler\<close>

text \<open>
  What the handler needs of the chip: \<open>fifo h\<close> is the receive FIFO, the status register counts
  its bytes, reading the data register removes the oldest, the interrupt registers leave it.
\<close>

definition rx_fifo_law :: "'h uart_dev \<Rightarrow> int \<Rightarrow> ('h \<Rightarrow> u8 list) \<Rightarrow> bool" where
  "rx_fifo_law dev nr fifo \<longleftrightarrow>
     (\<forall>h v h'. reg_get dev USS nr h = (v, h') \<longrightarrow> fifo h' = fifo h \<and> unat (v AND 0x7F) = length (fifo h) mod 128) \<and>
     (\<forall>h v h' d ds. reg_get dev USF nr h = (v, h') \<and> fifo h = d # ds \<longrightarrow> v = ucast d \<and> fifo h' = ds) \<and>
     (\<forall>h v h'. reg_get dev USIS nr h = (v, h') \<longrightarrow> fifo h' = fifo h) \<and>
     (\<forall>h v. fifo (uart_do dev (Set_reg USIC nr v) h) = fifo h)"

lemma fifo_status:
  assumes "rx_fifo_law dev nr fifo" "reg_get dev USS nr h = (v, h')"
  shows "fifo h' = fifo h" "unat (v AND 0x7F) = length (fifo h) mod 128"
  using assms unfolding rx_fifo_law_def by blast+

lemma fifo_data:
  assumes "rx_fifo_law dev nr fifo" "reg_get dev USF nr h = (v, h')" "fifo h = d # ds"
  shows "v = ucast d" "fifo h' = ds"
  using assms unfolding rx_fifo_law_def by blast+

lemma fifo_int:
  assumes "rx_fifo_law dev nr fifo"
  shows "reg_get dev USIS nr h = (v, h') \<Longrightarrow> fifo h' = fifo h" "fifo (uart_do dev (Set_reg USIC nr v) h) = fifo h"
  using assms unfolding rx_fifo_law_def by blast+

lemma isr_loop_drains:
  assumes law: "rx_fifo_law dev nr fifo"
  shows "ring_ok r \<Longrightarrow> \<exists>r' h'. isr_loop dev nr r h = Some (r', h') \<and> ring_ok r' \<and> rx_size r' = rx_size r \<and>
    fifo h' = drop (length (fifo h) mod 128) (fifo h) \<and>
    ring r' = ring r @ take (unat (rx_size r) - 1 - length (ring r)) (take (length (fifo h) mod 128) (fifo h))"
proof (induction "length (fifo h) mod 128" arbitrary: r h)
  case 0
  obtain v h1 where g: "reg_get dev USS nr h = (v, h1)" by (cases "reg_get dev USS nr h")
  then have f1: "fifo h1 = fifo h" "unat (v AND 0x7F) = 0" using fifo_status [OF law g] 0(1) by simp_all
  then have "v AND 0x7F = 0" by (simp only: unat_eq_0)
  then have "isr_loop dev nr r h = Some (r, h1)" using g by (subst isr_loop.simps) simp
  then show ?case using f1(1) 0 by simp
next
  case (Suc n)
  obtain v h1 where g: "reg_get dev USS nr h = (v, h1)" by (cases "reg_get dev USS nr h")
  then have f1: "fifo h1 = fifo h" "unat (v AND 0x7F) = Suc n" using fifo_status [OF law g] Suc(2) by simp_all
  then have v: "v AND 0x7F \<noteq> 0" by (metis unat_0 nat.distinct(1))
  obtain d ds where ds: "fifo h = d # ds" using Suc(2) by (cases "fifo h") auto
  obtain w h2 where g2: "reg_get dev USF nr h1 = (w, h2)" by (cases "reg_get dev USF nr h1")
  then have f2: "w = ucast d" "fifo h2 = ds" using fifo_data [OF law g2, of d ds] f1 ds by simp_all
  have w: "ucast w = d" unfolding f2(1) by (rule bit_word_eqI) (auto simp: bit_simps)
  obtain r1 where r1: "rx_put r d = Some r1" "ring_ok r1" "rx_size r1 = rx_size r"
    "ring r1 = (if length (ring r) < unat (rx_size r) - 1 then ring r @ [d] else ring r)"
    using ring_put [OF Suc(3)] by blast
  have n: "n = length (fifo h2) mod 128" "length (fifo h) mod 128 = Suc n"
    using Suc(2) by (simp_all add: f2 ds mod_Suc split: if_splits)
  obtain r' h' where r': "isr_loop dev nr r1 h2 = Some (r', h')" "ring_ok r'" "rx_size r' = rx_size r1"
    "fifo h' = drop (length (fifo h2) mod 128) (fifo h2)"
    "ring r' = ring r1 @ take (unat (rx_size r1) - 1 - length (ring r1)) (take (length (fifo h2) mod 128) (fifo h2))"
    using Suc(1) [OF n(1) r1(2)] by blast
  have "isr_loop dev nr r h = Some (r', h')"
    using g v g2 w r1(1) r'(1) by (subst isr_loop.simps) simp
  moreover have "fifo h' = drop (length (fifo h) mod 128) (fifo h)"
    using r'(4) unfolding n(1)[symmetric] n(2) unfolding f2(2) ds drop_Suc_Cons .
  moreover have "ring r' = ring r @ take (unat (rx_size r) - 1 - length (ring r)) (take (length (fifo h) mod 128) (fifo h))"
  proof (cases "length (ring r) < unat (rx_size r) - 1")
    case True
    then obtain k where "unat (rx_size r) - 1 - length (ring r) = Suc k" by (metis Suc_diff_Suc)
    moreover then have "unat (rx_size r) - 1 - Suc (length (ring r)) = k" by linarith
    ultimately show ?thesis using r'(5) r1(3,4) True unfolding n(1)[symmetric] n(2) unfolding f2(2) ds by simp
  next
    case False
    then show ?thesis using r'(5) r1(3,4) by simp
  qed
  ultimately show ?case using r' r1(3) by auto
qed

text \<open>
  What the interrupt handler takes.  With the FIFO-full or timeout bit set the handler
  returns, having moved the FIFO's oldest bytes into the ring in order, as many as the ring has
  room for, and discarded the rest of what it took.  It takes the number of waiting bytes modulo
  128: a FIFO of exactly 128 bytes, the hardware's depth, is left as it is.
\<close>

theorem uart_isr_drains:
  assumes "rx_fifo_law dev (uart_nr u) fifo" "rx_enabled u" "rx_buf u = Some r" "ring_ok r"
    and "fst (reg_get dev USIS (uart_nr u) h) AND (push_bit 0 1 OR push_bit 8 1) \<noteq> 0"
    and "n = length (fifo h) mod 128"
  shows "\<exists>r' h'. uart_isr dev (Some u) h = Some (Some (u\<lparr>rx_buf := Some r'\<rparr>), h') \<and> ring_ok r' \<and>
    fifo h' = drop n (fifo h) \<and> ring r' = ring r @ take (unat (rx_size r) - 1 - length (ring r)) (take n (fifo h))"
proof -
  obtain v h1 where g: "reg_get dev USIS (uart_nr u) h = (v, h1)" by (cases "reg_get dev USIS (uart_nr u) h")
  then have f1: "fifo h1 = fifo h" by (rule fifo_int(1) [OF assms(1)])
  obtain r' h2 where r': "isr_loop dev (uart_nr u) r h1 = Some (r', h2)" "ring_ok r'" "fifo h2 = drop n (fifo h)"
    "ring r' = ring r @ take (unat (rx_size r) - 1 - length (ring r)) (take n (fifo h))"
    using isr_loop_drains [OF assms(1,4), of h1] f1 assms(6) by auto
  obtain w h3 where g3: "reg_get dev USIS (uart_nr u) h2 = (w, h3)" by (cases "reg_get dev USIS (uart_nr u) h2")
  then have "fifo (uart_do dev (Set_reg USIC (uart_nr u) w) h3) = fifo h2"
    using fifo_int [OF assms(1)] by simp
  moreover have "uart_isr dev (Some u) h =
      Some (Some (u\<lparr>rx_buf := Some r'\<rparr>), uart_do dev (Set_reg USIC (uart_nr u) w) h3)"
    using assms(2,3,5) g g3 r'(1) by (simp add: uart_isr_def)
  ultimately show ?thesis using r'(2-4) by auto
qed

text \<open>A chip for the witness: the state is the FIFO, every status bit is set.\<close>

definition fifo_dev :: "u8 list uart_dev" where
  "fifo_dev = \<lparr>reg_get = (\<lambda>r nr h. case r of USS \<Rightarrow> (of_nat (length h), h) | USF \<Rightarrow> (ucast (hd h), tl h) | _ \<Rightarrow> (0x101, h)),
     uart_do = (\<lambda>c h. h)\<rparr>"

lemma fifo_dev_law: "rx_fifo_law fifo_dev nr (\<lambda>h. h)"
proof -
  have "unat ((of_nat n :: u32) AND 0x7F) = n mod 128" for n
  proof -
    have "(of_nat n :: u32) AND 0x7F = take_bit 7 (of_nat n)" by (simp add: take_bit_eq_mask mask_eq_exp_minus_1)
    then show ?thesis
      by (simp only: unsigned_take_bit_eq unsigned_of_nat take_bit_take_bit) (simp add: take_bit_eq_mod mod_mod_cancel)
  qed
  then show ?thesis by (auto simp: rx_fifo_law_def fifo_dev_def)
qed

lemma uart_isr_drains_witness:
  "\<exists>r'. uart_isr fifo_dev (Some small_uart) [30, 40, 50] = Some (Some (small_uart\<lparr>rx_buf := Some r'\<rparr>), []) \<and>
     ring r' = [10, 20, 30]"
proof -
  have s: "uart_nr small_uart = 0" "rx_enabled small_uart"
    "rx_buf small_uart = Some \<lparr>rx_size = 4, rx_rpos = 3, rx_wpos = 1, rx_data = [20, 0, 0, 10]\<rparr>"
    by (simp_all add: small_uart_def)
  have ok: "ring_ok \<lparr>rx_size = 4, rx_rpos = 3, rx_wpos = 1, rx_data = [20, 0, 0, 10]\<rparr>" by (simp add: ring_ok_def)
  have st: "fst (reg_get fifo_dev USIS (uart_nr small_uart) [30, 40, 50]) AND (push_bit 0 1 OR push_bit 8 1) \<noteq> 0"
    by (simp add: fifo_dev_def)
  have n: "3 = length [30, 40, 50 :: u8] mod 128" by simp
  show ?thesis
    using uart_isr_drains [OF fifo_dev_law s(2,3) ok st n] unfolding small_ring by auto
qed

section \<open>Resizing the ring\<close>

lemma drain_ring:
  "rx_enabled u \<Longrightarrow> rx_buf u = Some r \<Longrightarrow> ring_ok r \<Longrightarrow> k + room \<le> length buf \<Longrightarrow>
   \<exists>p. rx_drain room (Some u) k buf =
     Some (k + min room (length (ring r)), take k buf @ take room (ring r) @ drop (k + min room (length (ring r))) buf, p)"
proof (induction room arbitrary: u r k buf)
  case 0
  then show ?case by simp
next
  case (Suc room)
  show ?case
  proof (cases "ring r")
    case Nil
    then have "rx_count r = 0" using length_ring [of r] by (simp add: unat_eq_0)
    then show ?thesis using Suc.prems Nil by (simp add: uart_rx_available_def)
  next
    case (Cons x xs)
    note g = ring_get [OF Suc.prems(3) Cons]
    define r' where "r' = r\<lparr>rx_rpos := (rx_rpos r + 1) mod rx_size r\<rparr>"
    have r': "ring_ok r'" "ring r' = xs" using g(5,6) by (simp_all add: r'_def)
    have read: "uart_read_char (Some u) = Some (uint x, Some (u\<lparr>rx_buf := Some r'\<rparr>))"
      using uart_read_ring [OF Suc.prems(1-3)] Cons by (simp add: r'_def)
    obtain p where "rx_drain room (Some (u\<lparr>rx_buf := Some r'\<rparr>)) (Suc k) (buf[k := x]) =
      Some (Suc k + min room (length xs), take (Suc k) (buf[k := x]) @ take room xs @ drop (Suc k + min room (length xs)) (buf[k := x]), p)"
      using Suc.IH [of "u\<lparr>rx_buf := Some r'\<rparr>" r' "Suc k" "buf[k := x]"] Suc.prems r' by auto
    moreover have "take (Suc k) (buf[k := x]) = take k buf @ [x]" using Suc.prems(4) by (simp add: take_Suc_conv_app_nth)
    ultimately show ?thesis
      using Suc.prems g(1) read Cons by (simp add: uart_rx_available_def)
  qed
qed

lemma unat_of_nat_u32: "n < 4294967296 \<Longrightarrow> unat (of_nat n :: u32) = n"
  by (simp add: unat_of_nat)

text \<open>The driver's ring after the new block has been filled from the old one.\<close>

definition resized :: "u32 \<Rightarrow> u8 list \<Rightarrow> rx_buffer \<Rightarrow> rx_buffer" where
  "resized n b r = (let m = min (unat n) (length (ring r)) in
     \<lparr>rx_size = n, rx_rpos = 0, rx_wpos = of_nat m, rx_data = take (unat n) (ring r) @ drop m b\<rparr>)"

lemma resized_keeps:
  assumes "length b = unat n"
  shows "length (rx_data (resized n b r)) = unat n" "unat (rx_wpos (resized n b r)) = min (unat n) (length (ring r))"
    "take (unat (rx_wpos (resized n b r))) (rx_data (resized n b r)) = take (unat n) (ring r)"
proof -
  show w: "unat (rx_wpos (resized n b r)) = min (unat n) (length (ring r))"
    unfolding resized_def Let_def rx_buffer.simps by (rule unat_of_nat_u32) (use u32_bound [of n] in \<open>simp add: min_less_iff_disj\<close>)
  show "length (rx_data (resized n b r)) = unat n" using assms by (simp add: resized_def Let_def)
  show "take (unat (rx_wpos (resized n b r))) (rx_data (resized n b r)) = take (unat n) (ring r)"
    unfolding w by (simp add: resized_def Let_def min_def)
qed

lemma resized_ring:
  assumes "length b = unat n" "length (ring r) < unat n"
  shows "ring_ok (resized n b r)" "ring (resized n b r) = ring r"
proof -
  note k = resized_keeps [OF assms(1), of r]
  have s: "rx_size (resized n b r) = n" "rx_rpos (resized n b r) = 0" by (simp_all add: resized_def Let_def)
  show ok: "ring_ok (resized n b r)" using assms(2) k(1,2) s by (simp add: ring_ok_def word_less_nat_alt)
  have c: "unat (rx_count (resized n b r)) = length (ring r)" using unat_rx_count [OF ok] k(2) s assms(2) by simp
  show "ring (resized n b r) = ring r"
  proof (rule nth_equalityI)
    show "length (ring (resized n b r)) = length (ring r)" using c by (simp add: length_ring)
    fix i assume "i < length (ring (resized n b r))"
    then have i: "i < length (ring r)" using c by (simp add: length_ring)
    then have "ring (resized n b r) ! i = rx_data (resized n b r) ! (i mod unat n)" using c s by (simp add: ring_def)
    then show "ring (resized n b r) ! i = ring r ! i" using i assms(2) by (simp add: resized_def Let_def nth_append)
  qed
qed

lemma resized_full:
  assumes "length b = unat n" "unat n \<le> length (ring r)" "n \<noteq> 1" "ring_ok r"
  shows "rx_put (resized n b r) d = None"
proof (cases "n = 0")
  case True
  then show ?thesis by (simp add: rx_put_def resized_def Let_def)
next
  case False
  have w: "rx_wpos (resized n b r) = n" "rx_size (resized n b r) = n" "rx_rpos (resized n b r) = 0" using assms(2) by (simp_all add: resized_def Let_def min_def)
  have "unat n < unat (rx_size r)" using assms(2) rx_count_lt [OF assms(4)] by (simp add: length_ring)
  then have "unat (n + 1) = unat n + 1" using u32_bound [of "rx_size r"] by (simp add: unat_word_ariths)
  moreover have "unat n \<noteq> 0" "unat n \<noteq> 1" using False assms(3) by (simp_all add: word_unat_eq_iff)
  ultimately have "unat ((n + 1) mod n) = 1" by (simp add: unat_mod mod_Suc)
  then have "(n + 1) mod n \<noteq> 0" by (metis unat_0 zero_neq_one)
  then show ?thesis using False w resized_keeps(1) [OF assms(1), of r] by (simp add: rx_put_def Let_def)
qed



section \<open>Pins\<close>

definition uart_pin_pairs :: "(int \<times> int) set" where
  "uart_pin_pairs = {(1, 3), (2, 3), (15, 13)}"

text \<open>
  Pin assignment in full-duplex mode.  From any of its three legal assignments UART0 moves
  to the pair asked for when that is one of the three, and keeps its pins otherwise; nothing
  else of the driver's state changes.
\<close>

theorem uart_set_pins_exact:
  assumes "uart_nr u = UART0" "tx_enabled u" "rx_enabled u" "(uint (tx_pin u), uint (rx_pin u)) \<in> uart_pin_pairs"
  shows "fst (uart_set_pins dev (Some u) tx rx h) =
    Some (if (tx, rx) \<in> uart_pin_pairs then u\<lparr>tx_pin := word_of_int tx, rx_pin := word_of_int rx\<rparr> else u)"
proof -
  have pins: "tx_pin u = 1 \<and> rx_pin u = 3 \<or> tx_pin u = 2 \<and> rx_pin u = 3 \<or> tx_pin u = 15 \<and> rx_pin u = 13"
    using assms(4) by (auto simp: uart_pin_pairs_def word_uint_eq_iff)
  have same: "u\<lparr>tx_pin := a, rx_pin := b\<rparr> = u" if "tx_pin u = a" "rx_pin u = b" for a b using that by simp
  have "fst (uart_swap dev (Some u) txp h) =
      Some (if tx_pin u = 15 then u\<lparr>tx_pin := if txp = 2 then 2 else 1, rx_pin := 3\<rparr> else u\<lparr>tx_pin := 15, rx_pin := 13\<rparr>)" for txp h
    using assms(1-3) pins by (auto simp: uart_swap_def Let_def)
  then obtain S where swap: "\<And>txp h. uart_swap dev (Some u) txp h =
      (Some (if tx_pin u = 15 then u\<lparr>tx_pin := if txp = 2 then 2 else 1, rx_pin := 3\<rparr> else u\<lparr>tx_pin := 15, rx_pin := 13\<rparr>), S txp h)"
    using that [of "\<lambda>txp h. snd (uart_swap dev (Some u) txp h)"] by (simp add: prod_eq_iff)
  have "fst (uart_set_tx dev (Some u) txp h) =
      Some (if tx_pin u = 1 \<and> txp = 2 then u\<lparr>tx_pin := 2\<rparr> else if tx_pin u = 2 \<and> txp \<noteq> 2 then u\<lparr>tx_pin := 1\<rparr> else u)" for txp h
    using assms(1-3) by (auto simp: uart_set_tx_def)
  then obtain T where tx': "\<And>txp h. uart_set_tx dev (Some u) txp h =
      (Some (if tx_pin u = 1 \<and> txp = 2 then u\<lparr>tx_pin := 2\<rparr> else if tx_pin u = 2 \<and> txp \<noteq> 2 then u\<lparr>tx_pin := 1\<rparr> else u), T txp h)"
    using that [of "\<lambda>txp h. snd (uart_set_tx dev (Some u) txp h)"] by (simp add: prod_eq_iff)
  note defs = uart_set_pins_def uart_pin_pairs_def Let_def assms(1-3) swap tx'
  from pins show ?thesis
  proof (elim disjE conjE)
    assume p: "tx_pin u = 1" "rx_pin u = 3"
    show ?thesis by (cases "rx = 13"; cases "rx = 3"; cases "tx = 15"; cases "tx = 1"; cases "tx = 2") (simp_all add: defs p same [OF p])
  next
    assume p: "tx_pin u = 2" "rx_pin u = 3"
    show ?thesis by (cases "rx = 13"; cases "rx = 3"; cases "tx = 15"; cases "tx = 1"; cases "tx = 2") (simp_all add: defs p same [OF p])
  next
    assume p: "tx_pin u = 15" "rx_pin u = 13"
    show ?thesis by (cases "rx = 13"; cases "rx = 3"; cases "tx = 15"; cases "tx = 1"; cases "tx = 2") (simp_all add: defs p same [OF p])
  qed
qed

lemma uart_set_pins_exact_witness:
  "fst (uart_set_pins fifo_dev (Some small_uart) 15 13 []) = Some (small_uart\<lparr>tx_pin := 15, rx_pin := 13\<rparr>)"
  using uart_set_pins_exact [of small_uart fifo_dev 15 13 "[]"]
  by (simp add: small_uart_def UART0_def uart_pin_pairs_def)

text \<open>
  Pin assignment in transmit-only mode.  Asking for GPIO2 while GPIO1 transmits and no
  receiver is enabled moves the transmitter to GPIO15, because the receive pin 255 differs from 3
  and the request is taken for a swap.
\<close>

theorem uart_set_pins_tx_only:
  assumes "uart_nr u = UART0" "tx_enabled u" "\<not> rx_enabled u" "tx_pin u = 1" "rx_pin u = 255"
  shows "fst (uart_set_pins dev (Some u) 2 3 h) = Some (u\<lparr>tx_pin := 15\<rparr>)"
  using assms by (simp add: uart_set_pins_def uart_swap_def Let_def)

text \<open>The state is the one \<open>uart_init\<close> sets up.\<close>

lemma uart_set_pins_tx_only_witness:
  "\<exists>u h. uart_init fifo_dev 0 115200 0x1c 2 1 256 True True None [] = Some (Some u, h) \<and>
     fst (uart_set_pins fifo_dev (Some u) 2 3 h) = Some (u\<lparr>tx_pin := 15\<rparr>)"
proof -
  define u where "u = \<lparr>uart_nr = 0, baud_rate = 115200, rx_enabled = False, tx_enabled = True, rx_pin = 255, tx_pin = 1, rx_buf = None\<rparr>"
  have "\<exists>h. uart_init fifo_dev 0 115200 0x1c 2 1 256 True True None [] = Some (Some u, h)"
    by (simp add: uart_init_def uart_init_pins_def UART0_def UART_TX_ONLY_def UART_RX_ONLY_def Let_def
        uart_set_baudrate_def uart_flush_def u_def split: prod.split)
  then show ?thesis using uart_set_pins_tx_only [of u fifo_dev] by (auto simp: u_def UART0_def)
qed

end
