(* ===== verification/Gpio.thy ===== *)
theory Gpio
  imports Prelude
begin

text \<open>
  The chip's pin, timer, DMA and audio registers of esp8266_peri.h, shared by the two-wire, pin,
  PWM, timer and I2S code.  The registers belong to the hardware: reading and writing them are arguments of
  the definitions, on a state of the outside world of type \<open>'h\<close>; a read may change the world, so
  that the inputs a loop polls may change under it.
\<close>

datatype pin_reg =
  GPOS | GPOC | GPES | GPEC | GPI | GPIE | GPIEC | GPC u8 | GPF u8
| GP16O | GP16E | GP16I | GPC16 | GPF16
| T1L | T1C | T1I | TEIE
| SLCC0 | SLCIS | SLCIC | SLCIE | SLCRXL | SLCTXL | SLCRXDC | SLCRXEDA
| I2SC | I2SIC | I2SIE | I2SFC | I2SCC

record 'h gpio =
  gp_read :: "pin_reg \<Rightarrow> 'h \<Rightarrow> u32 \<times> 'h"
  gp_write :: "pin_reg \<Rightarrow> u32 \<Rightarrow> 'h \<Rightarrow> 'h"

definition gp_or :: "'h gpio \<Rightarrow> pin_reg \<Rightarrow> u32 \<Rightarrow> 'h \<Rightarrow> 'h" where
  "gp_or g r v h = (case gp_read g r h of (x, h) \<Rightarrow> gp_write g r (x OR v) h)"

definition gp_and :: "'h gpio \<Rightarrow> pin_reg \<Rightarrow> u32 \<Rightarrow> 'h \<Rightarrow> 'h" where
  "gp_and g r v h = (case gp_read g r h of (x, h) \<Rightarrow> gp_write g r (x AND v) h)"

text \<open>The pin modes of Arduino.h.\<close>

definition INPUT :: u8 where "INPUT = 0x00"
definition OUTPUT :: u8 where "OUTPUT = 0x01"
definition INPUT_PULLUP :: u8 where "INPUT_PULLUP = 0x02"
definition OUTPUT_OPEN_DRAIN :: u8 where "OUTPUT_OPEN_DRAIN = 0x03"
definition INPUT_PULLDOWN_16 :: u8 where "INPUT_PULLDOWN_16 = 0x04"
definition WAKEUP_PULLUP :: u8 where "WAKEUP_PULLUP = 0x05"
definition WAKEUP_PULLDOWN :: u8 where "WAKEUP_PULLDOWN = 0x07"
definition SPECIAL :: u8 where "SPECIAL = 0xF8"
definition FUNCTION_0 :: u8 where "FUNCTION_0 = 0x08"
definition FUNCTION_1 :: u8 where "FUNCTION_1 = 0x18"
definition FUNCTION_4 :: u8 where "FUNCTION_4 = 0x48"

definition bit_of :: "u8 \<Rightarrow> u32" where
  "bit_of pin = push_bit (unat pin) 1"

end
