(* ===== verification/Twi.thy ===== *)
theory Twi
  imports Gpio
begin

text \<open>
  The software two-wire (I2C) master, cores/esp8266/core_esp8266_si2c.c.  Driving a line low is
  enabling its pin's output, releasing it is disabling it; the level read back also depends on
  the devices on the bus, through the argument \<open>g\<close>.  The properties are stated on a bus whose
  devices are an arbitrary function of everything the master has done so far.
\<close>

section \<open>State and lines\<close>

record 'h twi =
  twi_dcount :: u8
  twi_sda :: u8
  twi_scl :: u8
  twi_clockStretchLimit :: u32
  twi_io :: 'h

definition SDA_LOW :: "'h gpio \<Rightarrow> 'h twi \<Rightarrow> 'h twi" where
  "SDA_LOW g s = s\<lparr>twi_io := gp_write g GPES (bit_of (twi_sda s)) (twi_io s)\<rparr>"

definition SDA_HIGH :: "'h gpio \<Rightarrow> 'h twi \<Rightarrow> 'h twi" where
  "SDA_HIGH g s = s\<lparr>twi_io := gp_write g GPEC (bit_of (twi_sda s)) (twi_io s)\<rparr>"

definition SCL_LOW :: "'h gpio \<Rightarrow> 'h twi \<Rightarrow> 'h twi" where
  "SCL_LOW g s = s\<lparr>twi_io := gp_write g GPES (bit_of (twi_scl s)) (twi_io s)\<rparr>"

definition SCL_HIGH :: "'h gpio \<Rightarrow> 'h twi \<Rightarrow> 'h twi" where
  "SCL_HIGH g s = s\<lparr>twi_io := gp_write g GPEC (bit_of (twi_scl s)) (twi_io s)\<rparr>"

definition SDA_READ :: "'h gpio \<Rightarrow> 'h twi \<Rightarrow> bool \<times> 'h twi" where
  "SDA_READ g s = (case gp_read g GPI (twi_io s) of (v, h) \<Rightarrow> (v AND bit_of (twi_sda s) \<noteq> 0, s\<lparr>twi_io := h\<rparr>))"

definition SCL_READ :: "'h gpio \<Rightarrow> 'h twi \<Rightarrow> bool \<times> 'h twi" where
  "SCL_READ g s = (case gp_read g GPI (twi_io s) of (v, h) \<Rightarrow> (v AND bit_of (twi_scl s) \<noteq> 0, s\<lparr>twi_io := h\<rparr>))"

text \<open>\<open>f80\<close> is the compile-time test \<open>F_CPU == FCPU80\<close>.\<close>

definition twi_setClock :: "bool \<Rightarrow> u32 \<Rightarrow> 'h twi \<Rightarrow> 'h twi" where
  "twi_setClock f80 freq s = s\<lparr>twi_dcount :=
     (if f80 then
        if freq \<le> 100000 then 19 else if freq \<le> 200000 then 8 else if freq \<le> 300000 then 3
        else if freq \<le> 400000 then 1 else 1
      else
        if freq \<le> 100000 then 32 else if freq \<le> 200000 then 14 else if freq \<le> 300000 then 8
        else if freq \<le> 400000 then 5 else if freq \<le> 500000 then 3 else if freq \<le> 600000 then 2 else 1)\<rparr>"

definition TWI_CLOCK_STRETCH_MULTIPLIER :: "bool \<Rightarrow> u32" where
  "TWI_CLOCK_STRETCH_MULTIPLIER f80 = (if f80 then 3 else 6)"

definition twi_setClockStretchLimit :: "bool \<Rightarrow> u32 \<Rightarrow> 'h twi \<Rightarrow> 'h twi" where
  "twi_setClockStretchLimit f80 lim s = s\<lparr>twi_clockStretchLimit := lim * TWI_CLOCK_STRETCH_MULTIPLIER f80\<rparr>"

text \<open>\<open>pm\<close> is \<open>pinMode\<close>.\<close>

definition twi_init :: "(u8 \<Rightarrow> u8 \<Rightarrow> 'h \<Rightarrow> 'h) \<Rightarrow> bool \<Rightarrow> u8 \<Rightarrow> u8 \<Rightarrow> 'h twi \<Rightarrow> 'h twi" where
  "twi_init pm f80 sda scl s =
     (let s = s\<lparr>twi_sda := sda, twi_scl := scl\<rparr>;
          s = s\<lparr>twi_io := pm scl INPUT_PULLUP (pm sda INPUT_PULLUP (twi_io s))\<rparr>
      in twi_setClockStretchLimit f80 230 (twi_setClock f80 100000 s))"

definition twi_stop :: "(u8 \<Rightarrow> u8 \<Rightarrow> 'h \<Rightarrow> 'h) \<Rightarrow> 'h twi \<Rightarrow> 'h twi" where
  "twi_stop pm s = s\<lparr>twi_io := pm (twi_scl s) INPUT (pm (twi_sda s) INPUT (twi_io s))\<rparr>"

fun delay_reads :: "'h gpio \<Rightarrow> nat \<Rightarrow> 'h \<Rightarrow> 'h" where
  "delay_reads g 0 h = h"
| "delay_reads g (Suc n) h = delay_reads g n (snd (gp_read g GPI h))"

definition twi_delay :: "'h gpio \<Rightarrow> u8 \<Rightarrow> 'h twi \<Rightarrow> 'h twi" where
  "twi_delay g v s = s\<lparr>twi_io := delay_reads g (unat v) (twi_io s)\<rparr>"

section \<open>Bits and bytes\<close>

text \<open>The argument counts the iterations clock stretching still allows.\<close>

fun stretch :: "'h gpio \<Rightarrow> nat \<Rightarrow> 'h twi \<Rightarrow> 'h twi" where
  "stretch g 0 s = snd (SCL_READ g s)"
| "stretch g (Suc i) s = (case SCL_READ g s of (scl, s) \<Rightarrow> if scl then s else stretch g i s)"

definition twi_write_start :: "'h gpio \<Rightarrow> 'h twi \<Rightarrow> bool \<times> 'h twi" where
  "twi_write_start g s =
     (let s = SDA_HIGH g (SCL_HIGH g s)
      in case SDA_READ g s of (sda, s) \<Rightarrow>
           if \<not> sda then (False, s)
           else let s = twi_delay g (twi_dcount s) s;
                    s = SDA_LOW g s
                in (True, twi_delay g (twi_dcount s) s))"

definition twi_write_stop :: "'h gpio \<Rightarrow> 'h twi \<Rightarrow> 'h twi" where
  "twi_write_stop g s =
     (let s = SDA_LOW g (SCL_LOW g s);
          s = SCL_HIGH g (twi_delay g (twi_dcount s) s);
          s = stretch g (unat (twi_clockStretchLimit s)) s;
          s = SDA_HIGH g (twi_delay g (twi_dcount s) s)
      in twi_delay g (twi_dcount s) s)"

definition twi_write_bit :: "'h gpio \<Rightarrow> bool \<Rightarrow> 'h twi \<Rightarrow> 'h twi" where
  "twi_write_bit g b s =
     (let s = SCL_LOW g s;
          s = (if b then SDA_HIGH g s else SDA_LOW g s);
          s = SCL_HIGH g (twi_delay g (twi_dcount s + 1) s);
          s = stretch g (unat (twi_clockStretchLimit s)) s
      in twi_delay g (twi_dcount s) s)"

definition twi_read_bit :: "'h gpio \<Rightarrow> 'h twi \<Rightarrow> bool \<times> 'h twi" where
  "twi_read_bit g s =
     (let s = SDA_HIGH g (SCL_LOW g s);
          s = SCL_HIGH g (twi_delay g (twi_dcount s + 2) s);
          s = stretch g (unat (twi_clockStretchLimit s)) s
      in case SDA_READ g s of (b, s) \<Rightarrow> (b, twi_delay g (twi_dcount s) s))"

fun write_bits :: "'h gpio \<Rightarrow> nat \<Rightarrow> u8 \<Rightarrow> 'h twi \<Rightarrow> 'h twi" where
  "write_bits g 0 byte s = s"
| "write_bits g (Suc n) byte s = write_bits g n (push_bit 1 byte) (twi_write_bit g (byte AND 0x80 \<noteq> 0) s)"

definition twi_write_byte :: "'h gpio \<Rightarrow> u8 \<Rightarrow> 'h twi \<Rightarrow> bool \<times> 'h twi" where
  "twi_write_byte g byte s = (case twi_read_bit g (write_bits g 8 byte s) of (b, s) \<Rightarrow> (\<not> b, s))"

fun read_bits :: "'h gpio \<Rightarrow> nat \<Rightarrow> u8 \<Rightarrow> 'h twi \<Rightarrow> u8 \<times> 'h twi" where
  "read_bits g 0 byte s = (byte, s)"
| "read_bits g (Suc n) byte s = (case twi_read_bit g s of (b, s) \<Rightarrow>
     read_bits g n (push_bit 1 byte OR (if b then 1 else 0)) s)"

definition twi_read_byte :: "'h gpio \<Rightarrow> bool \<Rightarrow> 'h twi \<Rightarrow> u8 \<times> 'h twi" where
  "twi_read_byte g nack s = (case read_bits g 8 0 s of (byte, s) \<Rightarrow> (byte, twi_write_bit g nack s))"

section \<open>Transfers\<close>

fun write_bytes :: "'h gpio \<Rightarrow> u8 list \<Rightarrow> 'h twi \<Rightarrow> bool \<times> 'h twi" where
  "write_bytes g [] s = (True, s)"
| "write_bytes g (b # bs) s =
     (case twi_write_byte g b s of (ack, s) \<Rightarrow> if \<not> ack then (False, s) else write_bytes g bs s)"

text \<open>The argument counts the clock pulses still to be sent while the data line is held low.\<close>

fun clock_out :: "'h gpio \<Rightarrow> nat \<Rightarrow> 'h twi \<Rightarrow> 'h twi" where
  "clock_out g 0 s = snd (SDA_READ g s)"
| "clock_out g (Suc i) s = (case SDA_READ g s of (sda, s) \<Rightarrow>
     if sda then s
     else let s = SCL_LOW g s;
              s = SCL_HIGH g (twi_delay g (twi_dcount s) s)
          in clock_out g i (twi_delay g (twi_dcount s) s))"

definition twi_writeTo :: "'h gpio \<Rightarrow> u8 \<Rightarrow> u8 list \<Rightarrow> bool \<Rightarrow> 'h twi \<Rightarrow> nat \<times> 'h twi" where
  "twi_writeTo g address buf sendStop s =
     (case twi_write_start g s of (ok, s) \<Rightarrow>
        if \<not> ok then (4, s)
        else case twi_write_byte g (push_bit 1 address) s of (ack, s) \<Rightarrow>
          if \<not> ack then (2, if sendStop then twi_write_stop g s else s)
          else case write_bytes g buf s of (ack, s) \<Rightarrow>
            if \<not> ack then (3, if sendStop then twi_write_stop g s else s)
            else let s = (if sendStop then twi_write_stop g s else s)
                 in (0, clock_out g 10 s))"

fun read_bytes :: "'h gpio \<Rightarrow> nat \<Rightarrow> 'h twi \<Rightarrow> u8 list \<times> 'h twi" where
  "read_bytes g 0 s = ([], s)"
| "read_bytes g (Suc n) s = (case twi_read_byte g False s of (b, s) \<Rightarrow>
     case read_bytes g n s of (bs, s) \<Rightarrow> (b # bs, s))"

text \<open>
  The bytes are stored from the start of the caller's buffer: \<open>len - 1\<close> of them, counted with
  wrap-around, and one more.
\<close>

definition twi_readFrom :: "'h gpio \<Rightarrow> u8 \<Rightarrow> u32 \<Rightarrow> bool \<Rightarrow> 'h twi \<Rightarrow> nat \<times> u8 list \<times> 'h twi" where
  "twi_readFrom g address len sendStop s =
     (case twi_write_start g s of (ok, s) \<Rightarrow>
        if \<not> ok then (4, [], s)
        else case twi_write_byte g (push_bit 1 address OR 1) s of (ack, s) \<Rightarrow>
          if \<not> ack then (2, [], if sendStop then twi_write_stop g s else s)
          else case read_bytes g (unat (len - 1)) s of (bs, s) \<Rightarrow>
            case twi_read_byte g True s of (b, s) \<Rightarrow>
              let s = (if sendStop then twi_write_stop g s else s)
              in (0, bs @ [b], clock_out g 10 s))"

definition I2C_OK :: nat where "I2C_OK = 0"
definition I2C_SCL_HELD_LOW :: nat where "I2C_SCL_HELD_LOW = 1"
definition I2C_SCL_HELD_LOW_AFTER_READ :: nat where "I2C_SCL_HELD_LOW_AFTER_READ = 2"
definition I2C_SDA_HELD_LOW :: nat where "I2C_SDA_HELD_LOW = 3"
definition I2C_SDA_HELD_LOW_AFTER_INIT :: nat where "I2C_SDA_HELD_LOW_AFTER_INIT = 4"

text \<open>
  The loop that clocks out a stuck device: \<open>clockCount\<close> is tested and never decremented.  The
  boolean result tells that the clock line was found low.
\<close>

partial_function (option) clock_stuck :: "'h gpio \<Rightarrow> int \<Rightarrow> 'h twi \<Rightarrow> (bool \<times> 'h twi) option" where
  "clock_stuck g clockCount s =
     (case SDA_READ g s of (sda, s) \<Rightarrow>
        if \<not> sda \<and> clockCount > 0 then
          (case SCL_READ g (snd (twi_read_bit g s)) of (scl, s) \<Rightarrow>
             if \<not> scl then Some (True, s) else clock_stuck g clockCount s)
        else Some (False, s))"

definition twi_status :: "'h gpio \<Rightarrow> 'h twi \<Rightarrow> (nat \<times> 'h twi) option" where
  "twi_status g s =
     (case SCL_READ g s of (scl, s) \<Rightarrow>
        if \<not> scl then Some (I2C_SCL_HELD_LOW, s)
        else case clock_stuck g 20 s of
            None \<Rightarrow> None
          | Some (low, s) \<Rightarrow>
              if low then Some (I2C_SCL_HELD_LOW_AFTER_READ, s)
              else case SDA_READ g s of (sda, s) \<Rightarrow>
                if \<not> sda then Some (I2C_SDA_HELD_LOW, s)
                else case twi_write_start g s of (ok, s) \<Rightarrow>
                  Some (if \<not> ok then I2C_SDA_HELD_LOW_AFTER_INIT else I2C_OK, s))"

section \<open>The two-wire protocol, as an observer of the lines sees it\<close>

text \<open>
  The master's actions, latest first.  Its lines are read through \<open>inputs\<close>: the levels the
  devices on the bus make of everything that has happened, looks included, so that a device may
  do anything at any time.
\<close>

datatype bus_event = Drive_sda bool | Drive_scl bool | Look

definition bus_gpio :: "u8 \<Rightarrow> u8 \<Rightarrow> (bus_event list \<Rightarrow> u32) \<Rightarrow> bus_event list gpio" where
  "bus_gpio sda scl inputs =
     \<lparr>gp_read = (\<lambda>r h. (inputs h, Look # h)),
      gp_write = (\<lambda>r v h.
        if v = bit_of sda then Drive_sda (r = GPEC) # h
        else if v = bit_of scl then Drive_scl (r = GPEC) # h else h)\<rparr>"

text \<open>
  The observer keeps the two lines and the bit sampled when the clock last rose.  A change of
  the data line while the clock is high is a start or a stop, and then the sample is no bit;
  otherwise it becomes one when the clock falls.
\<close>

datatype i2c_symbol = Start | Stop | Bit bool

definition with_pending :: "bool option \<Rightarrow> i2c_symbol list \<Rightarrow> i2c_symbol list" where
  "with_pending p out = (case p of None \<Rightarrow> out | Some b \<Rightarrow> Bit b # out)"

fun observe :: "bus_event list \<Rightarrow> bool \<times> bool \<times> bool option \<times> i2c_symbol list" where
  "observe [] = (True, True, None, [])"
| "observe (Look # h) = observe h"
| "observe (Drive_sda b # h) = (case observe h of (d, c, p, out) \<Rightarrow>
     if c \<and> b \<noteq> d then (b, c, None, (if b then Stop else Start) # out) else (b, c, p, out))"
| "observe (Drive_scl b # h) = (case observe h of (d, c, p, out) \<Rightarrow>
     if b \<and> \<not> c then (d, True, Some d, out)
     else if \<not> b \<and> c then (d, False, None, with_pending p out) else (d, c, p, out))"

definition i2c_symbols :: "bus_event list \<Rightarrow> i2c_symbol list" where
  "i2c_symbols h = (case observe h of (d, c, p, out) \<Rightarrow> rev (with_pending p out))"

definition i2c_idle :: "bus_event list \<Rightarrow> bool" where
  "i2c_idle h \<longleftrightarrow> (case observe h of (d, c, p, out) \<Rightarrow> d \<and> c \<and> p = None)"

definition i2c_released :: "bus_event list \<Rightarrow> bool" where
  "i2c_released h \<longleftrightarrow> (case observe h of (d, c, p, out) \<Rightarrow> d \<and> c)"

text \<open>A byte on the bus: its bits, high bit first, and the acknowledge slot.\<close>

definition byte_symbols :: "u8 \<Rightarrow> i2c_symbol list" where
  "byte_symbols b = map (\<lambda>i. Bit (bit b (7 - i))) [0..<8]"

definition sent_frame :: "u8 \<Rightarrow> i2c_symbol list" where
  "sent_frame b = byte_symbols b @ [Bit True]"

definition read_frame :: "bool \<Rightarrow> i2c_symbol list" where
  "read_frame nack = replicate 8 (Bit True) @ [Bit nack]"

definition stop_symbols :: "bool \<Rightarrow> i2c_symbol list" where
  "stop_symbols sendStop = (if sendStop then [Stop] else [])"

section \<open>What each step drives\<close>

definition on_bus :: "u8 \<Rightarrow> u8 \<Rightarrow> bus_event list twi \<Rightarrow> bool \<Rightarrow> bool \<Rightarrow> bool option \<Rightarrow> i2c_symbol list \<Rightarrow> bool" where
  "on_bus sda scl s d c p out \<longleftrightarrow>
     twi_sda s = sda \<and> twi_scl s = scl \<and> bit_of sda \<noteq> bit_of scl \<and> observe (twi_io s) = (d, c, p, out)"

lemma on_bus_sda:
  "on_bus sda scl s d c p out \<Longrightarrow> on_bus sda scl (SDA_LOW (bus_gpio sda scl inputs) s) False c
     (if c \<and> d then None else p) (if c \<and> d then Start # out else out)"
  "on_bus sda scl s d c p out \<Longrightarrow> on_bus sda scl (SDA_HIGH (bus_gpio sda scl inputs) s) True c
     (if c \<and> \<not> d then None else p) (if c \<and> \<not> d then Stop # out else out)"
  by (auto simp: on_bus_def SDA_LOW_def SDA_HIGH_def bus_gpio_def)

lemma on_bus_scl:
  "on_bus sda scl s d c p out \<Longrightarrow> on_bus sda scl (SCL_LOW (bus_gpio sda scl inputs) s) d False
     (if c then None else p) (if c then with_pending p out else out)"
  "on_bus sda scl s d c p out \<Longrightarrow> on_bus sda scl (SCL_HIGH (bus_gpio sda scl inputs) s) d True
     (if c then p else Some d) out"
  by (auto simp: on_bus_def SCL_LOW_def SCL_HIGH_def bus_gpio_def)

lemma on_bus_read:
  "on_bus sda scl s d c p out \<Longrightarrow> SDA_READ (bus_gpio sda scl inputs) s = (v, s') \<Longrightarrow> on_bus sda scl s' d c p out"
  "on_bus sda scl s d c p out \<Longrightarrow> SCL_READ (bus_gpio sda scl inputs) s = (v, s') \<Longrightarrow> on_bus sda scl s' d c p out"
  by (auto simp: on_bus_def SDA_READ_def SCL_READ_def bus_gpio_def)

lemma observe_delay: "observe (delay_reads (bus_gpio sda scl inputs) n h) = observe h"
  by (induction n arbitrary: h) (auto simp: bus_gpio_def)

lemma on_bus_delay:
  "on_bus sda scl s d c p out \<Longrightarrow> on_bus sda scl (twi_delay (bus_gpio sda scl inputs) v s) d c p out"
  by (simp add: on_bus_def twi_delay_def observe_delay)

lemma on_bus_stretch:
  "on_bus sda scl s d c p out \<Longrightarrow> on_bus sda scl (stretch (bus_gpio sda scl inputs) n s) d c p out"
  by (induction n arbitrary: s) (auto split: prod.split intro: on_bus_read simp: on_bus_read [OF _ surjective_pairing])

lemmas on_bus_steps = on_bus_sda on_bus_scl on_bus_delay on_bus_stretch

lemma write_bit_on_bus:
  assumes "on_bus sda scl s d True p out"
  shows "on_bus sda scl (twi_write_bit (bus_gpio sda scl inputs) b s) b True (Some b) (with_pending p out)"
  unfolding twi_write_bit_def Let_def
  using on_bus_scl(1) [OF assms, of inputs]
  by (cases b) (auto dest: on_bus_sda [where inputs = inputs] intro!: on_bus_delay on_bus_stretch
      on_bus_scl(2) [where c = False and d = b for b, simplified])

lemma read_bit_on_bus:
  assumes "on_bus sda scl s d True p out" "twi_read_bit (bus_gpio sda scl inputs) s = (b, s')"
  shows "on_bus sda scl s' True True (Some True) (with_pending p out)"
proof -
  let ?g = "bus_gpio sda scl inputs"
  have "on_bus sda scl (SDA_HIGH ?g (SCL_LOW ?g s)) True False None (with_pending p out)"
    using on_bus_sda(2) [OF on_bus_scl(1) [OF assms(1)]] by simp
  then have "on_bus sda scl (SCL_HIGH ?g (twi_delay ?g v (SDA_HIGH ?g (SCL_LOW ?g s)))) True True (Some True) (with_pending p out)" for v
    using on_bus_scl(2) [OF on_bus_delay] by fastforce
  then have 1: "on_bus sda scl (stretch ?g n (SCL_HIGH ?g (twi_delay ?g v (SDA_HIGH ?g (SCL_LOW ?g s))))) True True (Some True) (with_pending p out)" for v n
    by (rule on_bus_stretch)
  show ?thesis
    using assms(2) on_bus_delay [OF on_bus_read(1) [OF 1]]
    by (auto simp: twi_read_bit_def Let_def split: prod.splits)
qed

text \<open>The symbols seen once the clock is high, its last bit included.\<close>

definition seen :: "u8 \<Rightarrow> u8 \<Rightarrow> bus_event list twi \<Rightarrow> i2c_symbol list \<Rightarrow> bool" where
  "seen sda scl s xs \<longleftrightarrow> (\<exists>d p out. on_bus sda scl s d True p out \<and> rev (with_pending p out) = xs)"

definition seen_released :: "u8 \<Rightarrow> u8 \<Rightarrow> bus_event list twi \<Rightarrow> i2c_symbol list \<Rightarrow> bool" where
  "seen_released sda scl s xs \<longleftrightarrow> (\<exists>p out. on_bus sda scl s True True p out \<and> rev (with_pending p out) = xs)"

lemma seen_released_seen: "seen_released sda scl s xs \<Longrightarrow> seen sda scl s xs"
  by (auto simp: seen_def seen_released_def)

lemma write_bit_seen: "seen sda scl s xs \<Longrightarrow> seen sda scl (twi_write_bit (bus_gpio sda scl inputs) b s) (xs @ [Bit b])"
  unfolding seen_def using write_bit_on_bus by (fastforce simp: with_pending_def)

lemma write_nack_seen:
  "seen sda scl s xs \<Longrightarrow> seen_released sda scl (twi_write_bit (bus_gpio sda scl inputs) True s) (xs @ [Bit True])"
  unfolding seen_def seen_released_def using write_bit_on_bus by (fastforce simp: with_pending_def)

lemma read_bit_seen:
  "seen sda scl s xs \<Longrightarrow> twi_read_bit (bus_gpio sda scl inputs) s = (b, s') \<Longrightarrow> seen_released sda scl s' (xs @ [Bit True])"
  unfolding seen_def seen_released_def using read_bit_on_bus by (fastforce simp: with_pending_def)

lemma write_bits_seen:
  "seen sda scl s xs \<Longrightarrow>
   seen sda scl (write_bits (bus_gpio sda scl inputs) n byte s) (xs @ map (\<lambda>i. Bit (push_bit i byte AND 0x80 \<noteq> 0)) [0..<n])"
proof (induction n arbitrary: byte s xs)
  case (Suc n)
  have "map (\<lambda>i. Bit (push_bit i byte AND 0x80 \<noteq> 0)) [0..<Suc n] =
      Bit (byte AND 0x80 \<noteq> 0) # map (\<lambda>i. Bit (push_bit i (push_bit 1 byte) AND 0x80 \<noteq> 0)) [0..<n]"
    by (subst upt_conv_Cons) (simp_all add: map_Suc_upt [symmetric] del: upt_Suc)
  then show ?case
    using Suc.IH [OF write_bit_seen [OF Suc.prems], of "push_bit 1 byte" inputs "byte AND 0x80 \<noteq> 0"] by simp
qed simp

lemma top_bit: "i < 8 \<Longrightarrow> push_bit i (b :: u8) AND 0x80 \<noteq> 0 \<longleftrightarrow> bit b (7 - i)"
proof -
  assume "i < 8"
  have "(push_bit i b AND push_bit 7 1 \<noteq> 0) = bit (push_bit i b) 7" by (simp add: bit_iff_and_push_bit_not_eq_0)
  then show ?thesis using \<open>i < 8\<close> by (simp add: bit_simps)
qed

lemma write_byte_seen:
  assumes "seen sda scl s xs" "twi_write_byte (bus_gpio sda scl inputs) b s = (ack, s')"
  shows "seen_released sda scl s' (xs @ sent_frame b)"
proof -
  have "map (\<lambda>i. Bit (push_bit i b AND 0x80 \<noteq> 0)) [0..<8] = byte_symbols b"
    unfolding byte_symbols_def by (rule map_cong) (simp_all only: top_bit set_upt atLeastLessThan_iff)
  then show ?thesis
    using write_bits_seen [OF assms(1), of inputs 8 b] assms(2) read_bit_seen
    by (fastforce simp: twi_write_byte_def sent_frame_def split: prod.splits)
qed

lemma read_bits_seen:
  "seen sda scl s xs \<Longrightarrow> read_bits (bus_gpio sda scl inputs) n byte s = (b, s') \<Longrightarrow> seen sda scl s' (xs @ replicate n (Bit True))"
proof (induction n arbitrary: byte s xs)
  case (Suc n)
  obtain v s1 where s1: "twi_read_bit (bus_gpio sda scl inputs) s = (v, s1)" by (cases "twi_read_bit (bus_gpio sda scl inputs) s")
  have "seen sda scl s1 (xs @ [Bit True])" by (rule seen_released_seen [OF read_bit_seen [OF Suc.prems(1) s1]])
  from Suc.IH [OF this] Suc.prems(2) s1 show ?case by auto
qed simp

lemma read_byte_seen:
  assumes "seen sda scl s xs" "twi_read_byte (bus_gpio sda scl inputs) nack s = (b, s')"
  shows "seen sda scl s' (xs @ read_frame nack)" "nack \<Longrightarrow> seen_released sda scl s' (xs @ read_frame nack)"
proof -
  obtain b1 s1 where s1: "read_bits (bus_gpio sda scl inputs) 8 0 s = (b1, s1)" "s' = twi_write_bit (bus_gpio sda scl inputs) nack s1"
    using assms(2) by (auto simp: twi_read_byte_def split: prod.splits)
  note 1 = read_bits_seen [OF assms(1) s1(1)]
  show "seen sda scl s' (xs @ read_frame nack)"
    using write_bit_seen [OF 1, of inputs nack] by (simp add: s1(2) read_frame_def)
  show "nack \<Longrightarrow> seen_released sda scl s' (xs @ read_frame nack)"
    using write_nack_seen [OF 1, of inputs] by (simp add: s1(2) read_frame_def)
qed

lemma start_seen:
  assumes "on_bus sda scl s True True None out" "twi_write_start (bus_gpio sda scl inputs) s = (ok, s')"
  shows "if ok then seen sda scl s' (rev out @ [Start]) else on_bus sda scl s' True True None out"
proof -
  obtain v s1 where s1: "SDA_READ (bus_gpio sda scl inputs) (SDA_HIGH (bus_gpio sda scl inputs) (SCL_HIGH (bus_gpio sda scl inputs) s)) = (v, s1)"
    by (cases "SDA_READ (bus_gpio sda scl inputs) (SDA_HIGH (bus_gpio sda scl inputs) (SCL_HIGH (bus_gpio sda scl inputs) s))")
  have "on_bus sda scl s1 True True None out"
    using on_bus_read(1) [OF _ s1] on_bus_sda(2) [OF on_bus_scl(2) [OF assms(1)]] by fastforce
  moreover from this have "on_bus sda scl (twi_delay (bus_gpio sda scl inputs) v2 (SDA_LOW (bus_gpio sda scl inputs) (twi_delay (bus_gpio sda scl inputs) v1 s1)))
      False True None (Start # out)" for v1 v2
    using on_bus_sda(1) [OF on_bus_delay] by (fastforce intro: on_bus_delay)
  ultimately show ?thesis
    using assms(2) s1 unfolding seen_def
    by (fastforce simp: twi_write_start_def Let_def with_pending_def split: if_splits)
qed

lemma stop_seen:
  assumes "seen sda scl s xs"
  shows "seen_released sda scl (twi_write_stop (bus_gpio sda scl inputs) s) (xs @ [Stop])"
proof -
  let ?g = "bus_gpio sda scl inputs"
  obtain d p out where 0: "on_bus sda scl s d True p out" "xs = rev (with_pending p out)"
    using assms by (auto simp: seen_def)
  have "on_bus sda scl (SDA_LOW ?g (SCL_LOW ?g s)) False False None (with_pending p out)"
    using on_bus_sda(1) [OF on_bus_scl(1) [OF 0(1)]] by simp
  then have "on_bus sda scl (SCL_HIGH ?g (twi_delay ?g v (SDA_LOW ?g (SCL_LOW ?g s)))) False True (Some False) (with_pending p out)" for v
    using on_bus_scl(2) [OF on_bus_delay] by fastforce
  then have "on_bus sda scl (SDA_HIGH ?g (twi_delay ?g v2 (stretch ?g n (SCL_HIGH ?g (twi_delay ?g v (SDA_LOW ?g (SCL_LOW ?g s)))))))
      True True None (Stop # with_pending p out)" for v v2 n
    using on_bus_sda(2) [OF on_bus_delay [OF on_bus_stretch]] by fastforce
  then have "on_bus sda scl (twi_write_stop ?g s) True True None (Stop # with_pending p out)"
    unfolding twi_write_stop_def Let_def by (rule on_bus_delay)
  then show ?thesis using 0(2) unfolding seen_released_def by (fastforce simp: with_pending_def [of None])
qed

lemma stop_if_seen:
  assumes "seen_released sda scl s xs"
  shows "seen_released sda scl (if sendStop then twi_write_stop (bus_gpio sda scl inputs) s else s) (xs @ stop_symbols sendStop)"
  using assms stop_seen [OF seen_released_seen [OF assms]] by (simp add: stop_symbols_def)

lemma clock_out_seen:
  "seen_released sda scl s xs \<Longrightarrow> \<exists>k\<le>n. seen_released sda scl (clock_out (bus_gpio sda scl inputs) n s) (xs @ replicate k (Bit True))"
proof (induction n arbitrary: s xs)
  case 0
  have "seen_released sda scl (snd (SDA_READ (bus_gpio sda scl inputs) s)) xs"
    using 0 on_bus_read(1) [OF _ surjective_pairing] unfolding seen_released_def by blast
  then show ?case by simp
next
  case (Suc n)
  let ?g = "bus_gpio sda scl inputs"
  obtain v s1 where s1: "SDA_READ ?g s = (v, s1)" by (cases "SDA_READ ?g s")
  obtain p out where 1: "on_bus sda scl s1 True True p out" "xs = rev (with_pending p out)"
    using Suc.prems on_bus_read(1) [OF _ s1] unfolding seen_released_def by blast
  show ?case
  proof (cases v)
    case True
    then show ?thesis using s1 1 by (intro exI [of _ 0]) (auto simp: seen_released_def)
  next
    case False
    have "on_bus sda scl (twi_delay ?g v2 (SCL_HIGH ?g (twi_delay ?g v1 (SCL_LOW ?g s1)))) True True (Some True) (with_pending p out)" for v1 v2
      using on_bus_scl(2) [OF on_bus_delay [OF on_bus_scl(1) [OF 1(1)]]] by (fastforce intro: on_bus_delay)
    then have "seen_released sda scl (twi_delay ?g v2 (SCL_HIGH ?g (twi_delay ?g v1 (SCL_LOW ?g s1)))) (xs @ [Bit True])" for v1 v2
      using 1(2) unfolding seen_released_def by (fastforce simp: with_pending_def)
    from Suc.IH [OF this] obtain k where "k \<le> n" "seen_released sda scl (clock_out ?g (Suc n) s) ((xs @ [Bit True]) @ replicate k (Bit True))"
      using s1 False by (auto simp: Let_def)
    then show ?thesis by (intro exI [of _ "Suc k"]) simp
  qed
qed

lemma write_bytes_seen:
  "seen_released sda scl s xs \<Longrightarrow> write_bytes (bus_gpio sda scl inputs) bs s = (ack, s') \<Longrightarrow>
   \<exists>k. (if ack then k = length bs else 0 < k \<and> k \<le> length bs) \<and>
       seen_released sda scl s' (xs @ concat (map sent_frame (take k bs)))"
proof (induction bs arbitrary: s xs)
  case Nil
  then show ?case by auto
next
  case (Cons b bs)
  obtain a s1 where s1: "twi_write_byte (bus_gpio sda scl inputs) b s = (a, s1)" by (cases "twi_write_byte (bus_gpio sda scl inputs) b s")
  have 1: "seen_released sda scl s1 (xs @ sent_frame b)" by (rule write_byte_seen [OF seen_released_seen [OF Cons.prems(1)] s1])
  show ?case
  proof (cases a)
    case True
    then obtain k where "if ack then k = length bs else 0 < k \<and> k \<le> length bs"
      "seen_released sda scl s' ((xs @ sent_frame b) @ concat (map sent_frame (take k bs)))"
      using Cons.IH [OF 1] Cons.prems(2) s1 by auto
    then show ?thesis by (intro exI [of _ "Suc k"]) (auto split: if_splits)
  next
    case False
    then show ?thesis using 1 Cons.prems(2) s1 by (intro exI [of _ 1]) auto
  qed
qed

lemma read_bytes_seen:
  "seen sda scl s xs \<Longrightarrow> read_bytes (bus_gpio sda scl inputs) n s = (bs, s') \<Longrightarrow>
   length bs = n \<and> seen sda scl s' (xs @ concat (replicate n (read_frame False)))"
proof (induction n arbitrary: s xs bs)
  case (Suc n)
  obtain b s1 where s1: "twi_read_byte (bus_gpio sda scl inputs) False s = (b, s1)" by (cases "twi_read_byte (bus_gpio sda scl inputs) False s")
  obtain cs where cs: "read_bytes (bus_gpio sda scl inputs) n s1 = (cs, s')" "bs = b # cs"
    using Suc.prems(2) s1 by (auto split: prod.splits)
  show ?case
    using Suc.IH [OF read_byte_seen(1) [OF Suc.prems(1) s1] cs(1)] cs(2) by simp
qed simp

lemma idle_start:
  assumes "i2c_idle (twi_io s)" "bit_of (twi_sda s) \<noteq> bit_of (twi_scl s)"
    "twi_write_start (bus_gpio (twi_sda s) (twi_scl s) inputs) s = (ok, s')"
  shows "if ok then seen (twi_sda s) (twi_scl s) s' (i2c_symbols (twi_io s) @ [Start])
    else seen_released (twi_sda s) (twi_scl s) s' (i2c_symbols (twi_io s))"
proof -
  obtain out where o: "observe (twi_io s) = (True, True, None, out)"
    using assms(1) by (auto simp: i2c_idle_def split: prod.splits)
  then have "on_bus (twi_sda s) (twi_scl s) s True True None out" using assms(2) by (simp add: on_bus_def)
  note st = start_seen [OF this assms(3)]
  have sym: "i2c_symbols (twi_io s) = rev (with_pending None out)" using o by (simp add: i2c_symbols_def)
  show ?thesis
  proof (cases ok)
    case True
    then show ?thesis using st sym by (simp add: with_pending_def)
  next
    case False
    then show ?thesis using st sym unfolding seen_released_def by auto
  qed
qed

lemma seen_released_symbols:
  "seen_released sda scl s xs \<Longrightarrow> i2c_symbols (twi_io s) = xs \<and> i2c_released (twi_io s)"
  by (auto simp: seen_released_def on_bus_def i2c_symbols_def i2c_released_def)

lemmas i2c_results = seen_released_symbols stop_symbols_def

text \<open>The two transfers: their address byte, and what follows when it is acknowledged.\<close>

lemma address_seen:
  assumes "i2c_idle (twi_io s)" "bit_of (twi_sda s) \<noteq> bit_of (twi_scl s)"
    "twi_write_start (bus_gpio (twi_sda s) (twi_scl s) inputs) s = (ok, s1)" ok
    "twi_write_byte (bus_gpio (twi_sda s) (twi_scl s) inputs) b s1 = (a, s2)"
  shows "seen_released (twi_sda s) (twi_scl s) s2 (i2c_symbols (twi_io s) @ Start # sent_frame b)"
  using write_byte_seen [OF _ assms(5)] idle_start [OF assms(1-3)] assms(4) by fastforce

lemma write_data_seen:
  assumes "seen_released sda scl s xs" "write_bytes (bus_gpio sda scl inputs) buf s = (ok, s1)"
    "s2 = (if sendStop then twi_write_stop (bus_gpio sda scl inputs) s1 else s1)"
    "s' = (if ok then clock_out (bus_gpio sda scl inputs) 10 s2 else s2)"
  shows "i2c_released (twi_io s') \<and> (\<exists>k n. i2c_symbols (twi_io s') =
      xs @ concat (map sent_frame (take k buf)) @ stop_symbols sendStop @ replicate n (Bit True) \<and>
      (if ok then k = length buf \<and> n \<le> 10 else 0 < k \<and> k \<le> length buf \<and> n = 0))"
proof -
  obtain k where k: "if ok then k = length buf else 0 < k \<and> k \<le> length buf"
    "seen_released sda scl s1 (xs @ concat (map sent_frame (take k buf)))"
    using write_bytes_seen [OF assms(1,2)] by blast
  note stop = stop_if_seen [OF k(2), of sendStop inputs, folded assms(3)]
  show ?thesis
  proof (cases ok)
    case True
    obtain n where n: "n \<le> 10"
      "seen_released sda scl s' ((xs @ concat (map sent_frame (take k buf))) @ stop_symbols sendStop @ replicate n (Bit True))"
      using clock_out_seen [OF stop, of 10 inputs] True assms(4) by auto
    then show ?thesis using seen_released_symbols [OF n(2)] k(1) True by (intro conjI exI [of _ k] exI [of _ n]) auto
  next
    case False
    then show ?thesis using seen_released_symbols [OF stop] assms(4) k(1) by (intro conjI exI [of _ k] exI [of _ 0]) auto
  qed
qed

lemma read_data_seen:
  assumes "seen sda scl s xs" "read_bytes (bus_gpio sda scl inputs) n s = (bs, s1)"
    "twi_read_byte (bus_gpio sda scl inputs) True s1 = (b, s2)"
    "s' = clock_out (bus_gpio sda scl inputs) 10 (if sendStop then twi_write_stop (bus_gpio sda scl inputs) s2 else s2)"
  shows "length bs = n \<and> i2c_released (twi_io s') \<and> (\<exists>m\<le>10. i2c_symbols (twi_io s') =
      xs @ concat (replicate n (read_frame False)) @ read_frame True @ stop_symbols sendStop @ replicate m (Bit True))"
proof -
  note r = read_bytes_seen [OF assms(1,2)]
  note stop = stop_if_seen [OF read_byte_seen(2) [OF conjunct2 [OF r] assms(3) TrueI], of sendStop inputs]
  obtain m where m: "m \<le> 10" "seen_released sda scl s' (((xs @ concat (replicate n (read_frame False))) @ read_frame True) @
      stop_symbols sendStop @ replicate m (Bit True))"
    using clock_out_seen [OF stop, of 10 inputs] assms(4) by auto
  then show ?thesis using seen_released_symbols [OF m(2)] r by auto
qed



definition twi_boot :: "bus_event list twi" where
  "twi_boot = \<lparr>twi_dcount = 0, twi_sda = 4, twi_scl = 5, twi_clockStretchLimit = 3, twi_io = []\<rparr>"

lemma twi_boot_idle: "i2c_idle (twi_io twi_boot)" "bit_of (twi_sda twi_boot) \<noteq> bit_of (twi_scl twi_boot)"
  by (simp_all add: twi_boot_def i2c_idle_def bit_of_def)



section \<open>The status call\<close>

lemma stretch_pins: "twi_sda (stretch g n s) = twi_sda s \<and> twi_scl (stretch g n s) = twi_scl s"
  by (induction n arbitrary: s) (auto simp: SCL_READ_def split: prod.split)

lemma read_bit_pins: "twi_sda (snd (twi_read_bit g s)) = twi_sda s \<and> twi_scl (snd (twi_read_bit g s)) = twi_scl s"
  by (simp add: twi_read_bit_def Let_def SDA_READ_def SCL_HIGH_def SCL_LOW_def SDA_HIGH_def twi_delay_def
      stretch_pins split: prod.split)

definition stuck_low :: "'h gpio \<Rightarrow> u8 \<Rightarrow> u8 \<Rightarrow> bool" where
  "stuck_low g sda scl \<longleftrightarrow>
     (\<forall>h. fst (gp_read g GPI h) AND bit_of sda = 0 \<and> fst (gp_read g GPI h) AND bit_of scl \<noteq> 0)"

lemma clock_stuck_no_result:
  assumes "clock_stuck g n s = Some r"
  shows "n > 0 \<longrightarrow> \<not> stuck_low g (twi_sda s) (twi_scl s)"
proof (rule clock_stuck.raw_induct [OF _ assms])
  fix stuck :: "'a gpio \<Rightarrow> int \<Rightarrow> 'a twi \<Rightarrow> (bool \<times> 'a twi) option" and g n s r
  assume IH: "\<And>g n s r. stuck g n s = Some r \<Longrightarrow> n > 0 \<longrightarrow> \<not> stuck_low g (twi_sda s) (twi_scl s)"
    and body: "(case SDA_READ g s of (sda, s) \<Rightarrow>
        if \<not> sda \<and> n > 0 then
          (case SCL_READ g (snd (twi_read_bit g s)) of (scl, s) \<Rightarrow> if \<not> scl then Some (True, s) else stuck g n s)
        else Some (False, s)) = Some r"
  show "n > 0 \<longrightarrow> \<not> stuck_low g (twi_sda s) (twi_scl s)"
  proof (intro impI notI)
    assume n: "n > 0" and st: "stuck_low g (twi_sda s) (twi_scl s)"
    obtain v s1 where s1: "SDA_READ g s = (v, s1)" by (cases "SDA_READ g s")
    have v: "\<not> v" "twi_sda s1 = twi_sda s" "twi_scl s1 = twi_scl s"
      using st s1 unfolding SDA_READ_def stuck_low_def by (auto split: prod.splits) (metis fst_conv)+
    obtain w s3 where s3: "SCL_READ g (snd (twi_read_bit g s1)) = (w, s3)"
      by (cases "SCL_READ g (snd (twi_read_bit g s1))")
    have w: "w" "twi_sda s3 = twi_sda s1" "twi_scl s3 = twi_scl s1"
      using st s3 v(2,3) read_bit_pins [of g s1] unfolding SCL_READ_def stuck_low_def
      by (auto split: prod.splits) (metis fst_conv)+
    have "stuck g n s3 = Some r" using body n s1 s3 v(1) w(1) by simp
    then have "\<not> stuck_low g (twi_sda s3) (twi_scl s3)" using IH n by blast
    then show False using st v w by simp
  qed
qed

text \<open>
  C28. The status call does not return on a stuck bus.  With the clock released and the data line
  held low for good, the case it is written to report as I2C_SDA_HELD_LOW, twi_status loops for
  ever: the count of twenty pulses is never decremented.
\<close>

theorem twi_status_hangs:
  assumes "stuck_low g (twi_sda s) (twi_scl s)"
  shows "twi_status g s = None"
proof -
  obtain v s1 where s1: "SCL_READ g s = (v, s1)" by (cases "SCL_READ g s")
  have "v" "twi_sda s1 = twi_sda s" "twi_scl s1 = twi_scl s"
    using assms s1 unfolding SCL_READ_def stuck_low_def by (auto split: prod.splits) (metis fst_conv)+
  moreover from this have "clock_stuck g 20 s1 = None"
    using clock_stuck_no_result [of g 20 s1] assms by (cases "clock_stuck g 20 s1") auto
  ultimately show ?thesis using s1 by (simp add: twi_status_def)
qed

lemma twi_status_hangs_witness:
  "twi_status (bus_gpio 4 5 (\<lambda>_. 0x20)) twi_boot = None"
  using twi_status_hangs [of "bus_gpio 4 5 (\<lambda>_. 0x20)" twi_boot]
  by (simp add: stuck_low_def bus_gpio_def twi_boot_def bit_of_def)

end
