(* ===== verification/Noniso.thy ===== *)
theory Noniso
  imports Prelude "HOL-Library.Signed_Division"
begin

text \<open>
  Integer to text conversion, cores/esp8266/core_esp8266_noniso.c: \<open>reverse\<close>, \<open>ltoa\<close> and
  \<open>ultoa\<close>.  A text is the list of characters before its terminating zero; the empty text is the
  result for a base outside 2..16.  \<open>long\<close> is 32 bits wide.  \<open>None\<close> is an index outside the digit
  string.
\<close>

section \<open>The conversions\<close>

text \<open>\<open>reverse\<close> swaps the ends of \<open>[i, j)\<close> and moves inwards.\<close>

function reverse_text :: "char list \<Rightarrow> nat \<Rightarrow> nat \<Rightarrow> char list" where
  "reverse_text b i j =
     (if i + 1 < j then reverse_text (b[j - 1 := b ! i, i := b ! (j - 1)]) (i + 1) (j - 1) else b)"
  by pat_completeness auto
termination by (relation "measure (\<lambda>(b, i, j). j - i)") auto

declare reverse_text.simps [simp del]

definition digit_chars :: "char list" where
  "digit_chars = ''0123456789abcdef''"

text \<open>The digit loop stores the low digit first; the quotient shrinks because the base is at least 2.\<close>

function utoa_digits :: "u32 \<Rightarrow> u32 \<Rightarrow> char list option" where
  "utoa_digits q base =
     (if base < 2 then None
      else let tmp = q div base; i = q - tmp * base
           in if unat i \<ge> length digit_chars then None
              else if tmp = 0 then Some [digit_chars ! unat i]
              else map_option ((#) (digit_chars ! unat i)) (utoa_digits tmp base))"
  by pat_completeness auto
termination
proof (relation "measure (\<lambda>(n, base). unat n)")
  fix q base tmp i :: u32
  assume "\<not> base < 2" "tmp = q div base" "tmp \<noteq> 0"
  moreover from this have "2 \<le> unat base" by (simp add: word_less_nat_alt)
  moreover have "unat q \<noteq> 0" using calculation(2,3) by (auto simp: unat_eq_0)
  ultimately show "((tmp, base), (q, base)) \<in> measure (\<lambda>(n, base). unat n)"
    by (simp add: unat_div div_less_dividend)
qed simp

declare utoa_digits.simps [simp del]

definition ultoa :: "u32 \<Rightarrow> int \<Rightarrow> char list option" where
  "ultoa value base =
     (if base < 2 \<or> base > 16 then Some []
      else map_option (\<lambda>ds. reverse_text ds 0 (length ds)) (utoa_digits value (word_of_int base)))"

text \<open>\<open>abs\<close> of the least \<open>long\<close> wraps to itself; the quotients are signed.\<close>

definition abs_long :: "int \<Rightarrow> int" where
  "abs_long v = (if v = - 2147483648 then v else \<bar>v\<bar>)"

function ltoa_digits :: "int \<Rightarrow> int \<Rightarrow> char list option" where
  "ltoa_digits q base =
     (if base < 2 then None
      else let tmp = q sdiv base; i = q - tmp * base
           in if i < 0 \<or> i \<ge> int (length digit_chars) then None
              else if tmp = 0 then Some [digit_chars ! nat i]
              else map_option ((#) (digit_chars ! nat i)) (ltoa_digits tmp base))"
  by pat_completeness auto
termination
proof (relation "measure (\<lambda>(n, base). nat \<bar>n\<bar>)")
  fix q base tmp i :: int
  assume a: "\<not> base < 2" "tmp = q sdiv base" "tmp \<noteq> 0"
  have "\<bar>tmp\<bar> = \<bar>q\<bar> div base" using a(1,2) by (auto simp: signed_divide_int_def abs_mult abs_sgn_eq pos_imp_zdiv_nonneg_iff)
  moreover from this have "\<bar>q\<bar> > 0" using a(3) by (cases "q = 0") auto
  ultimately have "\<bar>tmp\<bar> < \<bar>q\<bar>" using a(1) by (simp add: int_div_less_self)
  then show "((tmp, base), (q, base)) \<in> measure (\<lambda>(n, base). nat \<bar>n\<bar>)" by simp
qed simp

declare ltoa_digits.simps [simp del]

definition ltoa :: "int \<Rightarrow> int \<Rightarrow> char list option" where
  "ltoa value base =
     (if base < 2 \<or> base > 16 then Some []
      else map_option (\<lambda>ds. let ds = (if value < 0 then ds @ ''-'' else ds) in reverse_text ds 0 (length ds))
             (ltoa_digits (abs_long value) base))"

section \<open>Reading the text back\<close>

definition digit_value :: "char \<Rightarrow> nat" where
  "digit_value ch = length (takeWhile (\<lambda>x. x \<noteq> ch) digit_chars)"

definition read_nat :: "nat \<Rightarrow> char list \<Rightarrow> nat" where
  "read_nat base = foldl (\<lambda>n ch. n * base + digit_value ch) 0"

definition read_int :: "nat \<Rightarrow> char list \<Rightarrow> int" where
  "read_int base cs = (case cs of ch # rest \<Rightarrow> if ch = CHR ''-'' then - int (read_nat base rest) else int (read_nat base cs) | [] \<Rightarrow> 0)"

lemma digit_value: "i < 16 \<Longrightarrow> digit_value (digit_chars ! i) = i \<and> digit_chars ! i \<noteq> CHR ''-''"
proof -
  assume "i < 16"
  then have "i \<in> set [0, 1, 2, 3, 4, 5, 6, 7, 8, 9, 10, 11, 12, 13, 14, 15]" by simp presburger
  moreover have "\<forall>i\<in>set [0, 1, 2, 3, 4, 5, 6, 7, 8, 9, 10, 11, 12, 13, 14, 15].
      digit_value (digit_chars ! i) = i \<and> digit_chars ! i \<noteq> CHR ''-''"
    by (simp add: digit_value_def digit_chars_def)
  ultimately show ?thesis by blast
qed

lemma reverse_text_spec:
  "i \<le> j \<Longrightarrow> j \<le> length b \<Longrightarrow> reverse_text b i j = take i b @ rev (drop i (take j b)) @ drop j b"
proof (induction b i j rule: reverse_text.induct)
  case (1 b i j)
  show ?case
  proof (cases "i + 1 < j")
    case False
    then consider "j = i" | "j = Suc i" using 1(2) by linarith
    then show ?thesis
    proof cases
      case 2
      then show ?thesis
        using False 1(3) id_take_nth_drop [of i b]
        by (subst reverse_text.simps) (simp add: take_Suc_conv_app_nth)
    qed (subst reverse_text.simps, simp)
  next
    case True
    let ?c = "b[j - 1 := b ! i, i := b ! (j - 1)]"
    have "reverse_text b i j = take (i + 1) ?c @ rev (drop (i + 1) (take (j - 1) ?c)) @ drop (j - 1) ?c"
      using 1(1) True 1(2,3) by (subst reverse_text.simps) simp
    also have "take (i + 1) ?c = take i b @ [b ! (j - 1)]"
      using True 1(3) by (simp add: take_Suc_conv_app_nth)
    also have "drop (j - 1) ?c = b ! i # drop j b"
      using True 1(3) by (subst Cons_nth_drop_Suc [symmetric]) simp_all
    also have "drop (i + 1) (take (j - 1) ?c) = drop (i + 1) (take (j - 1) b)"
      using True by (simp add: take_update_swap list_update_beyond)
    also have "take i b @ rev (drop i (take j b)) @ drop j b =
        (take i b @ [b ! (j - 1)]) @ rev (drop (i + 1) (take (j - 1) b)) @ b ! i # drop j b"
    proof -
      have "drop i (take j b) = b ! i # drop (i + 1) (take (j - 1) b) @ [b ! (j - 1)]"
      proof -
        have "take j b = take (j - 1) b @ [b ! (j - 1)]" using True 1(3) by (metis Suc_diff_1 Suc_le_lessD add_lessD1 gr_zeroI less_nat_zero_code take_Suc_conv_app_nth)
        then have "drop i (take j b) = drop i (take (j - 1) b) @ [b ! (j - 1)]" using True 1(3) by simp
        also have "drop i (take (j - 1) b) = b ! i # drop (i + 1) (take (j - 1) b)"
          using True 1(3) by (subst Cons_nth_drop_Suc [symmetric]) simp_all
        finally show ?thesis by simp
      qed
      then show ?thesis by simp
    qed
    finally show ?thesis by simp
  qed
qed

lemma reverse_all: "reverse_text ds 0 (length ds) = rev ds"
  by (simp add: reverse_text_spec)

lemma read_nat_snoc: "read_nat base (cs @ [ch]) = read_nat base cs * base + digit_value ch"
  by (simp add: read_nat_def)

lemma utoa_digits_read:
  assumes "2 \<le> base" "base \<le> 16"
  shows "\<exists>ds. utoa_digits q base = Some ds \<and> read_nat (unat base) (rev ds) = unat q"
proof (induction "unat q" arbitrary: q rule: less_induct)
  case less
  have b: "2 \<le> unat base" "unat base \<le> 16" using assms by (simp_all add: word_le_nat_alt)
  define tmp where "tmp = q div base"
  have ux: "unat tmp = unat q div unat base" by (simp add: tmp_def unat_div)
  have "q - tmp * base = q mod base" by (simp add: tmp_def minus_div_mult_eq_mod)
  then have i: "unat (q - tmp * base) = unat q mod unat base" by (simp add: unat_mod)
  have small: "unat q mod unat base < unat base" using b(1) by simp
  have dv: "digit_value (digit_chars ! (unat q mod unat base)) = unat q mod unat base"
    using digit_value small b(2) by simp
  have len: "length digit_chars = 16" by (simp add: digit_chars_def)
  have step: "utoa_digits q base =
      (if tmp = 0 then Some [digit_chars ! (unat q mod unat base)]
       else map_option ((#) (digit_chars ! (unat q mod unat base))) (utoa_digits tmp base))"
    unfolding utoa_digits.simps [of q base] Let_def tmp_def [symmetric] i len using assms small b(2) by auto
  show ?case
  proof (cases "tmp = 0")
    case True
    then have "unat q div unat base = 0" using ux by simp
    then show ?thesis using step True dv b by (auto simp: read_nat_def div_eq_0_iff)
  next
    case False
    then have "unat q \<noteq> 0" using ux by (metis div_0 unat_eq_0)
    then have "unat tmp < unat q" using ux b(1) by simp
    from less [OF this] obtain ds where "utoa_digits tmp base = Some ds" "read_nat (unat base) (rev ds) = unat tmp" by blast
    then show ?thesis using step False dv ux by (simp add: read_nat_snoc)
  qed
qed

lemma ltoa_digits_read:
  assumes "2 \<le> base" "base \<le> 16" "0 \<le> q"
  shows "\<exists>ds. ltoa_digits q base = Some ds \<and> ds \<noteq> [] \<and> read_nat (nat base) (rev ds) = nat q \<and> last ds \<noteq> CHR ''-''"
  using assms(3)
proof (induction "nat q" arbitrary: q rule: less_induct)
  case less
  define tmp where "tmp = q div base"
  have sd: "q sdiv base = tmp" using less.prems assms(1) by (simp add: signed_divide_int_def tmp_def sgn_if)
  have i: "q - tmp * base = q mod base" by (simp add: tmp_def minus_div_mult_eq_mod)
  have bnd: "0 \<le> q mod base" "q mod base < base" using assms(1) by simp_all
  have neg: "\<not> base < 2" "\<not> (q mod base < 0 \<or> int 16 \<le> q mod base)"
    subgoal using assms(1) by simp
    subgoal using bnd assms(2) by linarith
    done
  have dv: "digit_value (digit_chars ! nat (q mod base)) = nat (q mod base)" "digit_chars ! nat (q mod base) \<noteq> CHR ''-''"
    using digit_value [of "nat (q mod base)"] bnd assms(2) by simp_all
  have len: "length digit_chars = 16" by (simp add: digit_chars_def)
  have step: "ltoa_digits q base =
      (if tmp = 0 then Some [digit_chars ! nat (q mod base)]
       else map_option ((#) (digit_chars ! nat (q mod base))) (ltoa_digits tmp base))"
    unfolding ltoa_digits.simps [of q base] Let_def sd i len using neg by simp
  have split: "nat tmp * nat base + nat (q mod base) = nat q"
  proof -
    have "tmp * base + q mod base = q" by (simp add: tmp_def)
    moreover have "0 \<le> tmp" using less.prems assms(1) by (simp add: tmp_def pos_imp_zdiv_nonneg_iff)
    ultimately show ?thesis using bnd(1) assms(1) by (simp flip: nat_mult_distrib nat_add_distrib)
  qed
  show ?case
  proof (cases "tmp = 0")
    case True
    then show ?thesis using step dv split by (simp add: read_nat_def)
  next
    case False
    then have t: "0 < tmp" using less.prems assms(1) by (simp add: tmp_def pos_imp_zdiv_nonneg_iff order.strict_iff_order)
    then have "q \<noteq> 0" by (auto simp: tmp_def)
    then have "tmp < q" unfolding tmp_def using assms(1) less.prems by (intro int_div_less_self) auto
    then obtain ds where "ltoa_digits tmp base = Some ds" "ds \<noteq> []" "read_nat (nat base) (rev ds) = nat tmp" "last ds \<noteq> CHR ''-''"
      using less.hyps [of tmp] t by auto
    then show ?thesis using step False dv split by (simp add: read_nat_snoc)
  qed
qed

text \<open>
  C31. Printing an integer loses nothing.  For every base from 2 to 16 \<open>ultoa\<close> of any unsigned
  long, and \<open>ltoa\<close> of any long but the least, returns a text that reads back as the number; for
  the least long, whose absolute value does not exist, the digit index is negative.
\<close>

theorem ltoa_reads_back:
  assumes "2 \<le> base" "base \<le> 16"
  shows "(\<exists>cs. ultoa u base = Some cs \<and> read_nat (nat base) cs = unat u) \<and>
    (- 2147483648 < v \<longrightarrow> (\<exists>cs. ltoa v base = Some cs \<and> read_int (nat base) cs = v)) \<and>
    ltoa (- 2147483648) 10 = None"
proof (intro conjI impI)
  have w: "unat (word_of_int base :: u32) = nat base" "2 \<le> (word_of_int base :: u32)" "(word_of_int base :: u32) \<le> 16"
    using assms by (simp_all add: unsigned_of_int take_bit_int_eq_self word_le_nat_alt nat_le_iff)
  show "\<exists>cs. ultoa u base = Some cs \<and> read_nat (nat base) cs = unat u"
    using utoa_digits_read [OF w(2,3), of u] w(1) assms by (auto simp: ultoa_def reverse_all)
  assume "- 2147483648 < v"
  then have a: "abs_long v = \<bar>v\<bar>" by (simp add: abs_long_def)
  obtain ds where ds: "ltoa_digits \<bar>v\<bar> base = Some ds" "ds \<noteq> []" "read_nat (nat base) (rev ds) = nat \<bar>v\<bar>" "last ds \<noteq> CHR ''-''"
    using ltoa_digits_read [OF assms, of "\<bar>v\<bar>"] by auto
  have "read_int (nat base) (rev ds) = int (read_nat (nat base) (rev ds))"
    using ds(2,4) by (cases "rev ds") (auto simp: read_int_def hd_rev [symmetric])
  then show "\<exists>cs. ltoa v base = Some cs \<and> read_int (nat base) cs = v"
    using ds assms a by (auto simp: ltoa_def reverse_all Let_def read_int_def)
next
  show "ltoa (- 2147483648) 10 = None"
    by (simp add: ltoa_def abs_long_def ltoa_digits.simps [of "- 2147483648"] Let_def signed_divide_int_def)
qed

lemma ltoa_reads_back_witness: "\<exists>cs. ltoa (- 255) 16 = Some cs \<and> read_int 16 cs = - 255"
  using ltoa_reads_back [of 16 0 "- 255"] by simp

end
