(* ===== verification/Timer.thy ===== *)
theory Timer
  imports Gpio
begin

text \<open>
  The hardware timers of cores/esp8266/core_esp8266_timer.c: the two user callbacks, and the
  programming of timer 1.  The interrupt controller's calls are \<open>soc_do\<close>, the processor status
  register \<open>soc_rsil\<close>; a callback is a number, what it does the argument \<open>run\<close>.
\<close>

datatype soc_call =
  Frc1_attach bool
| Frc1_nmi_attach bool
| Frc1_enable
| Frc1_disable
| Cc0_attach
| Cc0_enable
| Cc0_disable
| Wsr_ps u32
| Gpio_attach
| Gpio_enable
| Gpio_disable
| Os_print bool
| Uart_ints_off int
| Slc_attach
| Slc_enable
| Slc_disable
| I2s_clk_enable
| Ets_wdt_enable
| Ets_wdt_disable

record 'h soc =
  soc_gpio :: "'h gpio"
  soc_do :: "soc_call \<Rightarrow> 'h \<Rightarrow> 'h"
  soc_rsil :: "'h \<Rightarrow> u32 \<times> 'h"

record 'h timers =
  timer1_user_cb :: "nat option"
  timer0_user_cb :: "nat option"
  io :: 'h

definition do_io :: "('h \<Rightarrow> 'h) \<Rightarrow> ('h, 'm) timers_scheme \<Rightarrow> ('h, 'm) timers_scheme" where
  "do_io f s = s\<lparr>io := f (io s)\<rparr>"

definition write_reg :: "'h soc \<Rightarrow> pin_reg \<Rightarrow> u32 \<Rightarrow> ('h, 'm) timers_scheme \<Rightarrow> ('h, 'm) timers_scheme" where
  "write_reg c r v = do_io (gp_write (soc_gpio c) r v)"

definition read_reg :: "'h soc \<Rightarrow> pin_reg \<Rightarrow> ('h, 'm) timers_scheme \<Rightarrow> u32 \<times> ('h, 'm) timers_scheme" where
  "read_reg c r s = (case gp_read (soc_gpio c) r (io s) of (v, h) \<Rightarrow> (v, s\<lparr>io := h\<rparr>))"

definition or_reg :: "'h soc \<Rightarrow> pin_reg \<Rightarrow> u32 \<Rightarrow> ('h, 'm) timers_scheme \<Rightarrow> ('h, 'm) timers_scheme" where
  "or_reg c r v = do_io (gp_or (soc_gpio c) r v)"

definition and_reg :: "'h soc \<Rightarrow> pin_reg \<Rightarrow> u32 \<Rightarrow> ('h, 'm) timers_scheme \<Rightarrow> ('h, 'm) timers_scheme" where
  "and_reg c r v = do_io (gp_and (soc_gpio c) r v)"

definition call_soc :: "'h soc \<Rightarrow> soc_call \<Rightarrow> ('h, 'm) timers_scheme \<Rightarrow> ('h, 'm) timers_scheme" where
  "call_soc c k = do_io (soc_do c k)"

text \<open>A user callback runs with interrupts stopped, and the status register is restored.\<close>

definition guarded ::
  "'h soc \<Rightarrow> (('h, 'm) timers_scheme \<Rightarrow> ('h, 'm) timers_scheme) \<Rightarrow> ('h, 'm) timers_scheme \<Rightarrow> ('h, 'm) timers_scheme" where
  "guarded c f s = (case soc_rsil c (io s) of (savedPS, h) \<Rightarrow> call_soc c (Wsr_ps savedPS) (f (s\<lparr>io := h\<rparr>)))"

definition TEIE1 :: u32 where "TEIE1 = 0x02"
definition TCTE :: nat where "TCTE = 7"
definition TCAR :: nat where "TCAR = 6"
definition TCPD :: nat where "TCPD = 2"
definition TCIT :: nat where "TCIT = 0"

definition timer1_isr_handler ::
  "'h soc \<Rightarrow> (nat \<Rightarrow> ('h, 'm) timers_scheme \<Rightarrow> ('h, 'm) timers_scheme) \<Rightarrow> ('h, 'm) timers_scheme \<Rightarrow> ('h, 'm) timers_scheme" where
  "timer1_isr_handler c run s =
     (case read_reg c T1C s of (v, s) \<Rightarrow>
        let s = (if v AND (push_bit TCAR 1 OR push_bit TCIT 1) = 0 then and_reg c TEIE (NOT TEIE1) s else s);
            s = write_reg c T1I 0 s
        in case timer1_user_cb s of None \<Rightarrow> s | Some f \<Rightarrow> guarded c (run f) s)"

definition timer1_isr_init :: "'h soc \<Rightarrow> ('h, 'm) timers_scheme \<Rightarrow> ('h, 'm) timers_scheme" where
  "timer1_isr_init c = call_soc c (Frc1_attach True)"

definition timer1_attachInterrupt :: "'h soc \<Rightarrow> nat option \<Rightarrow> ('h, 'm) timers_scheme \<Rightarrow> ('h, 'm) timers_scheme" where
  "timer1_attachInterrupt c f s = call_soc c Frc1_enable (s\<lparr>timer1_user_cb := f\<rparr>)"

definition timer1_detachInterrupt :: "'h soc \<Rightarrow> ('h, 'm) timers_scheme \<Rightarrow> ('h, 'm) timers_scheme" where
  "timer1_detachInterrupt c s = call_soc c Frc1_disable (and_reg c TEIE (NOT TEIE1) (s\<lparr>timer1_user_cb := None\<rparr>))"

definition timer1_enable :: "'h soc \<Rightarrow> u8 \<Rightarrow> u8 \<Rightarrow> u8 \<Rightarrow> ('h, 'm) timers_scheme \<Rightarrow> ('h, 'm) timers_scheme" where
  "timer1_enable c divider int_type reload s =
     write_reg c T1I 0 (write_reg c T1C
       (push_bit TCTE 1 OR push_bit TCPD (ucast (divider AND 3)) OR push_bit TCIT (ucast (int_type AND 1)) OR
        push_bit TCAR (ucast (reload AND 1))) s)"

definition timer1_write :: "'h soc \<Rightarrow> u32 \<Rightarrow> ('h, 'm) timers_scheme \<Rightarrow> ('h, 'm) timers_scheme" where
  "timer1_write c ticks s =
     (let s = write_reg c T1L (ticks AND 0x7FFFFF) s
      in case read_reg c T1C s of (v, s) \<Rightarrow> if v AND push_bit TCIT 1 = 0 then or_reg c TEIE TEIE1 s else s)"

definition timer1_disable :: "'h soc \<Rightarrow> ('h, 'm) timers_scheme \<Rightarrow> ('h, 'm) timers_scheme" where
  "timer1_disable c s = write_reg c T1I 0 (write_reg c T1C 0 s)"

definition timer0_isr_handler ::
  "'h soc \<Rightarrow> (nat \<Rightarrow> ('h, 'm) timers_scheme \<Rightarrow> ('h, 'm) timers_scheme) \<Rightarrow> ('h, 'm) timers_scheme \<Rightarrow> ('h, 'm) timers_scheme" where
  "timer0_isr_handler c run s = (case timer0_user_cb s of None \<Rightarrow> s | Some f \<Rightarrow> guarded c (run f) s)"

definition timer0_isr_init :: "'h soc \<Rightarrow> ('h, 'm) timers_scheme \<Rightarrow> ('h, 'm) timers_scheme" where
  "timer0_isr_init c = call_soc c Cc0_attach"

definition timer0_attachInterrupt :: "'h soc \<Rightarrow> nat option \<Rightarrow> ('h, 'm) timers_scheme \<Rightarrow> ('h, 'm) timers_scheme" where
  "timer0_attachInterrupt c f s = call_soc c Cc0_enable (s\<lparr>timer0_user_cb := f\<rparr>)"

definition timer0_detachInterrupt :: "'h soc \<Rightarrow> ('h, 'm) timers_scheme \<Rightarrow> ('h, 'm) timers_scheme" where
  "timer0_detachInterrupt c s = call_soc c Cc0_disable (s\<lparr>timer0_user_cb := None\<rparr>)"

lemmas soc_defs = write_reg_def read_reg_def or_reg_def and_reg_def call_soc_def do_io_def

end
