(* ===== verification/Pwm.thy ===== *)
theory Pwm
  imports Timer "HOL-Library.Monad_Syntax" "HOL-Library.Multiset"
begin

text \<open>
  Software PWM, cores/esp8266/core_esp8266_wiring_pwm.c without analogWrite (theory Pins): the
  sorted table of switching times \<open>prep_pwm_steps\<close> builds from the pins' values, the timer
  interrupt that walks it, and the theorems that the table is sorted and the interrupt keeps
  every pin high for its value.  \<open>f80\<close> is the compile-time test \<open>F_CPU / ESP8266_CLOCK == 1\<close>.
  \<open>None\<close> is an access outside an array or a division by zero.
\<close>

section \<open>State\<close>

record pwm_isr_table =
  tb_len :: u8
  tb_steps :: "u16 list"
  tb_masks :: "u32 list"

record 'h pwm = "'h timers" +
  pwm_tables :: "pwm_isr_table list"
  pwm_active :: u8
  current_step :: u8
  pwm_mask :: u32
  pwm_values :: "u16 list"
  pwm_freq :: u32
  pwm_range :: u32
  pwm_steps_changed :: u8
  pwm_multiplier :: u32

definition CLOCK :: u32 where "CLOCK = 80000000"

definition active_table :: "('h, 'm) pwm_scheme \<Rightarrow> pwm_isr_table" where
  "active_table s = pwm_tables s ! unat (pwm_active s)"

definition not_u8 :: "u8 \<Rightarrow> u8" where
  "not_u8 v = (if v = 0 then 1 else 0)"

section \<open>Sorting the switching times\<close>

text \<open>The inner loop moves larger elements up and stops at the place of \<open>tmp\<close>.\<close>

fun shift_up :: "u16 list \<Rightarrow> u16 \<Rightarrow> nat \<Rightarrow> u16 list \<times> nat" where
  "shift_up a tmp 0 = (a, 0)"
| "shift_up a tmp (Suc j) = (if tmp < a ! j then shift_up (a[Suc j := a ! j]) tmp j else (a, Suc j))"

text \<open>The outer loop; the first argument counts the elements still to be inserted.\<close>

fun sort_loop :: "nat \<Rightarrow> nat \<Rightarrow> u16 list \<Rightarrow> u16 list" where
  "sort_loop 0 i a = a"
| "sort_loop (Suc n) i a = (let tmp = a ! i; (a, j) = shift_up a tmp i in sort_loop n (Suc i) (a[j := tmp]))"

fun dedup_loop :: "nat \<Rightarrow> nat \<Rightarrow> nat \<Rightarrow> u16 list \<Rightarrow> u16 list \<times> nat" where
  "dedup_loop 0 i bl a = (a, bl)"
| "dedup_loop (Suc n) i bl a =
     (if a ! i \<noteq> a ! (i - 1) then dedup_loop n (Suc i) (Suc bl) (a[bl := a ! i]) else dedup_loop n (Suc i) bl a)"

definition pwm_sort_array :: "u16 list \<Rightarrow> nat \<Rightarrow> u16 list \<times> nat" where
  "pwm_sort_array a al = dedup_loop (al - 1) 1 1 (sort_loop (al - 1) 1 a)"

section \<open>The table\<close>

definition pin_on :: "u32 \<Rightarrow> nat \<Rightarrow> bool" where
  "pin_on pins i \<longleftrightarrow> pins AND push_bit i 1 \<noteq> 0"

definition pwm_get_mask :: "('h, 'm) pwm_scheme \<Rightarrow> u16 \<Rightarrow> u32" where
  "pwm_get_mask s value =
     fold (\<lambda>i mask. if pin_on (pwm_mask s) i \<and> pwm_values s ! i = value then mask OR push_bit i 1 else mask) [0..<17] 0"

fun diff_loop :: "nat \<Rightarrow> u16 list \<Rightarrow> u16 list" where
  "diff_loop 0 a = a"
| "diff_loop (Suc i) a = diff_loop i (a[Suc i := a ! Suc i - a ! i])"

definition pwm_temp_steps :: "('h, 'm) pwm_scheme \<Rightarrow> u32 \<Rightarrow> u16 list" where
  "pwm_temp_steps s rng =
     map ((!) (pwm_values s)) (filter (\<lambda>i. pin_on (pwm_mask s) i \<and> pwm_values s ! i \<noteq> 0) [0..<17]) @ [ucast rng]"

definition prep_pwm_steps :: "bool \<Rightarrow> ('h, 'm) pwm_scheme \<Rightarrow> ('h, 'm) pwm_scheme option" where
  "prep_pwm_steps f80 s =
     (if pwm_mask s = 0 then Some s
      else let rng = (if f80 then pwm_range s div 2 else pwm_range s);
               temp = pwm_temp_steps s rng
           in if length temp > 17 then None
              else let (temp, bl) = pwm_sort_array temp (length temp);
                       len = bl - 1;
                       masks = map (\<lambda>i. pwm_get_mask s (temp ! i)) [0..<len];
                       temp = diff_loop len temp;
                       s = s\<lparr>pwm_steps_changed := 0\<rparr>;
                       k = unat (not_u8 (pwm_active s));
                       t = pwm_tables s ! k;
                       t = \<lparr>tb_len = of_nat len, tb_steps = take (len + 1) temp @ drop (len + 1) (tb_steps t),
                            tb_masks = masks @ drop len (tb_masks t)\<rparr>;
                       s = s\<lparr>pwm_tables := (pwm_tables s)[k := t]\<rparr>
                   in if rng * pwm_freq s = 0 then None
                      else Some (s\<lparr>pwm_multiplier := CLOCK div (rng * pwm_freq s), pwm_steps_changed := 1\<rparr>))"

section \<open>The timer interrupt\<close>

definition pwm_timer_isr :: "'h soc \<Rightarrow> ('h, 'm) pwm_scheme \<Rightarrow> ('h, 'm) pwm_scheme option" where
  "pwm_timer_isr c s =
     (let t = active_table s;
          s = write_reg c T1I 0 (and_reg c TEIE (NOT TEIE1) s);
          finish = (\<lambda>t s. if unat (current_step s) < length (tb_steps t)
            then Some (or_reg c TEIE TEIE1 (write_reg c T1L (ucast (tb_steps t ! unat (current_step s)) * pwm_multiplier s) s))
            else None)
      in if current_step s < tb_len t then
           (if unat (current_step s) < length (tb_masks t) then
              let mask = tb_masks t ! unat (current_step s) AND pwm_mask s;
                  s = (if mask AND 0xFFFF \<noteq> 0 then write_reg c GPOC (mask AND 0xFFFF) s else s);
                  s = (if mask AND 0x10000 \<noteq> 0 then write_reg c GP16O 0 s else s)
              in finish t (s\<lparr>current_step := current_step s + 1\<rparr>)
            else None)
         else
           let s = s\<lparr>current_step := 0\<rparr>
           in if pwm_mask s = 0 then
                Some (s\<lparr>pwm_tables := (pwm_tables s)[unat (pwm_active s) := t\<lparr>tb_len := 0\<rparr>]\<rparr>)
              else
                let s = (if pwm_mask s AND 0xFFFF \<noteq> 0 then write_reg c GPOS (pwm_mask s AND 0xFFFF) s else s);
                    s = (if pwm_mask s AND 0x10000 \<noteq> 0 then write_reg c GP16O 1 s else s);
                    s = (if pwm_steps_changed s \<noteq> 0
                         then s\<lparr>pwm_active := not_u8 (pwm_active s), pwm_steps_changed := 0\<rparr> else s)
                in finish (active_table s) s)"

definition pwm_start_timer :: "'h soc \<Rightarrow> ('h, 'm) pwm_scheme \<Rightarrow> ('h, 'm) pwm_scheme" where
  "pwm_start_timer c s =
     timer1_write c 1 (timer1_enable c 0 0 0
       (call_soc c (Frc1_nmi_attach True) (call_soc c (Frc1_attach False) (timer1_disable c s))))"

definition pwm_stop_pin :: "'h soc \<Rightarrow> u8 \<Rightarrow> ('h, 'm) pwm_scheme \<Rightarrow> ('h, 'm) pwm_scheme" where
  "pwm_stop_pin c pin s =
     (if pwm_mask s \<noteq> 0 then
        let s = s\<lparr>pwm_mask := pwm_mask s AND NOT (bit_of pin)\<rparr>
        in if pwm_mask s = 0
           then timer1_isr_init c (timer1_disable c (call_soc c (Frc1_nmi_attach False) s))
           else s
      else s)"

section \<open>The sort is one\<close>

lemma shift_up_spec:
  "shift_up a tmp i = (a', j) \<Longrightarrow> i < length a \<Longrightarrow>
   j \<le> i \<and> length a' = length a \<and> drop (Suc i) a' = drop (Suc i) a \<and>
   take (Suc i) (a'[j := tmp]) = take j a @ tmp # drop j (take i a) \<and>
   (\<forall>x\<in>set (drop j (take i a)). tmp < x) \<and> (0 < j \<longrightarrow> a ! (j - 1) \<le> tmp)"
proof (induction i arbitrary: a)
  case 0
  then show ?case by (auto simp: take_Suc_conv_app_nth)
next
  case (Suc i)
  show ?case
  proof (cases "tmp < a ! i")
    case False
    then show ?thesis using Suc.prems by (auto simp: take_Suc_conv_app_nth)
  next
    case True
    let ?b = "a[Suc i := a ! i]"
    have r: "j \<le> i" "length a' = length a" "drop (Suc i) a' = drop (Suc i) ?b"
      "take (Suc i) (a'[j := tmp]) = take j ?b @ tmp # drop j (take i ?b)"
      "\<forall>x\<in>set (drop j (take i ?b)). tmp < x" "0 < j \<longrightarrow> ?b ! (j - 1) \<le> tmp"
      using Suc.IH [of ?b] Suc.prems True by auto
    have b: "take j ?b = take j a" "take i ?b = take i a" using r(1) by simp_all
    have next_el: "a' ! Suc i = a ! i"
      using r(3) Suc.prems(2) by (metis Cons_nth_drop_Suc length_list_update list.inject nth_list_update_eq r(2))
    have "take (Suc (Suc i)) (a'[j := tmp]) = take (Suc i) (a'[j := tmp]) @ [a ! i]"
      using r(1,2) next_el Suc.prems(2) by (simp add: take_Suc_conv_app_nth)
    moreover have "drop j (take (Suc i) a) = drop j (take i a) @ [a ! i]"
      using r(1) Suc.prems(2) by (simp add: take_Suc_conv_app_nth)
    moreover have "drop (Suc (Suc i)) a' = drop (Suc (Suc i)) a"
      using arg_cong [OF r(3), of "drop 1"] by simp
    ultimately show ?thesis using r b True by auto
  qed
qed

lemma sort_loop_spec:
  "i + n \<le> length a \<Longrightarrow> sorted (take i a) \<Longrightarrow>
   sorted (take (i + n) (sort_loop n i a)) \<and> mset (take (i + n) (sort_loop n i a)) = mset (take (i + n) a) \<and>
   length (sort_loop n i a) = length a"
proof (induction n arbitrary: i a)
  case (Suc n)
  obtain b j where sh: "shift_up a (a ! i) i = (b, j)" by (cases "shift_up a (a ! i) i")
  have il: "i < length a" using Suc.prems(1) by simp
  note s = shift_up_spec [OF sh il]
  let ?c = "b[j := a ! i]"
  have t: "take (Suc i) ?c = take j a @ a ! i # drop j (take i a)" using s by blast
  have d: "drop (Suc i) ?c = drop (Suc i) a" using s by simp
  have parts: "take i a = take j a @ drop j (take i a)" using s by (metis append_take_drop_id min.absorb1 take_take)
  have low: "\<forall>x\<in>set (take j a). x \<le> a ! i"
  proof (cases "j = 0")
    case False
    then obtain j' where j': "j = Suc j'" by (cases j) auto
    have "sorted (take j a)" using Suc.prems(2) s by (metis min.absorb1 sorted_wrt_take take_take)
    then have "\<forall>x\<in>set (take j' a). x \<le> a ! j'" using j' s il by (simp add: take_Suc_conv_app_nth sorted_append)
    then show ?thesis using j' s il by (auto simp: take_Suc_conv_app_nth)
  qed simp
  define P Q where "P = take j a" and "Q = drop j (take i a)"
  have PQ: "take i a = P @ Q" "take (Suc i) ?c = P @ a ! i # Q" "\<forall>x\<in>set P. x \<le> a ! i" "\<forall>x\<in>set Q. a ! i < x"
    using parts t low s by (simp_all add: P_def Q_def)
  have "sorted (take (Suc i) ?c)"
    using Suc.prems(2) PQ(3,4) unfolding PQ(1,2) by (auto simp: sorted_append intro: less_imp_le)
  moreover have "mset (take (Suc i) ?c) = mset (take (Suc i) a)"
    unfolding PQ(2) take_Suc_conv_app_nth [OF il] PQ(1) by simp
  moreover from this have "mset (take (Suc i + n) ?c) = mset (take (Suc i + n) a)"
    using d by (simp only: take_add mset_append)
  ultimately show ?case
    using Suc.IH [of "Suc i" ?c] Suc.prems(1) sh s by (simp add: Let_def)
qed simp

lemma dedup_loop_spec:
  "0 < i \<Longrightarrow> i + n \<le> length b \<Longrightarrow> length a = length b \<Longrightarrow> 0 < bl \<Longrightarrow> bl \<le> i \<Longrightarrow> take bl a = remdups_adj (take i b) \<Longrightarrow>
   \<forall>k. i - 1 \<le> k \<and> k < length b \<longrightarrow> a ! k = b ! k \<Longrightarrow>
   dedup_loop n i bl a = (a', bl') \<Longrightarrow>
   0 < bl' \<and> bl' \<le> i + n \<and> length a' = length b \<and> take bl' a' = remdups_adj (take (i + n) b)"
proof (induction n arbitrary: i bl a)
  case 0
  then show ?case by auto
next
  case (Suc n)
  have il: "i < length b" using Suc.prems(2) by simp
  obtain h where h: "i = Suc h" using Suc.prems(1) by (cases i) auto
  have at: "a ! i = b ! i" "a ! (i - 1) = b ! (i - 1)" using Suc.prems(7) il by auto
  have two: "take (Suc i) b = take h b @ [b ! h, b ! i]" "take i b = take h b @ [b ! h]"
    using il h by (simp_all add: take_Suc_conv_app_nth)
  show ?case
  proof (cases "a ! i \<noteq> a ! (i - 1)")
    case True
    have "take (Suc bl) (a[bl := a ! i]) = take bl a @ [b ! i]"
      using Suc.prems(3,5) il at by (simp add: take_Suc_conv_app_nth)
    also have "\<dots> = remdups_adj (take (Suc i) b)"
      unfolding Suc.prems(6) two remdups_adj_append_two using True at h by simp
    finally have "take (Suc bl) (a[bl := a ! i]) = remdups_adj (take (Suc i) b)" .
    moreover have "\<forall>k. Suc i - 1 \<le> k \<and> k < length b \<longrightarrow> a[bl := a ! i] ! k = b ! k"
      using Suc.prems(3,5,7) at il by (auto simp: nth_list_update)
    ultimately show ?thesis
      using Suc.IH [of "Suc i" "a[bl := a ! i]" "Suc bl"] Suc.prems True by simp
  next
    case False
    then have "remdups_adj (take (Suc i) b) = remdups_adj (take i b)"
      unfolding two remdups_adj_append_two using at h by simp
    moreover have "\<forall>k. Suc i - 1 \<le> k \<and> k < length b \<longrightarrow> a ! k = b ! k" using Suc.prems(7) by auto
    ultimately show ?thesis
      using Suc.IH [of "Suc i" a bl] Suc.prems False by simp
  qed
qed

lemma strict_remdups_adj: "sorted xs \<Longrightarrow> sorted_wrt (<) (remdups_adj (xs :: 'a :: linorder list))"
  by (induction xs rule: remdups_adj.induct) (force simp: less_le)+

lemma sort_array_eq:
  assumes "0 < al" "al \<le> length a" "pwm_sort_array a al = (a', bl)"
  shows "0 < bl \<and> bl \<le> al \<and> length a' = length a \<and> take bl a' = remdups_adj (sort (take al a))"
proof -
  define b where "b = sort_loop (al - 1) 1 a"
  have b: "sorted (take al b)" "mset (take al b) = mset (take al a)" "length b = length a"
    using sort_loop_spec [of 1 "al - 1" a] assms(1,2) by (cases a; simp add: b_def)+
  have "take 1 b = remdups_adj (take 1 b)" using assms(1,2) b(3) by (cases b) auto
  then have "0 < bl \<and> bl \<le> 1 + (al - 1) \<and> length a' = length b \<and> take bl a' = remdups_adj (take (1 + (al - 1)) b)"
    using dedup_loop_spec [of 1 "al - 1" b b 1 a' bl] assms b by (simp add: pwm_sort_array_def b_def)
  moreover have "take al b = sort (take al a)" using b(1,2) by (metis properties_for_sort)
  ultimately show ?thesis using assms(1) b(3) by simp
qed

text \<open>
  The PWM sort is a sort without duplicates.  For every array and length in its bounds the
  result's first elements, as many as the returned count, are strictly increasing and are
  exactly the values among the first \<open>al\<close> elements.
\<close>

theorem pwm_sort_array_sorts:
  assumes "0 < al" "al \<le> length a" "pwm_sort_array a al = (a', bl)"
  shows "sorted_wrt (<) (take bl a') \<and> set (take bl a') = set (take al a) \<and> bl = card (set (take al a))"
proof -
  note e = sort_array_eq [OF assms]
  have s: "sorted_wrt (<) (take bl a')" using e strict_remdups_adj [of "sort (take al a)"] by simp
  moreover have "set (take bl a') = set (take al a)" using e by simp
  moreover have "card (set (take bl a')) = length (take bl a')"
    by (rule distinct_card) (use s in \<open>simp add: strict_sorted_iff\<close>)
  moreover have "length (take bl a') = bl" 
    unfolding length_take using e assms(2) by linarith
  ultimately show ?thesis by simp
qed

lemma pwm_sort_array_sorts_witness: "snd (pwm_sort_array [5, 3, 5, 1] 4) = 3"
proof -
  obtain a' bl where r: "pwm_sort_array [5, 3, 5, 1] 4 = (a', bl)" by (cases "pwm_sort_array [5, 3, 5, 1] 4")
  then show ?thesis using pwm_sort_array_sorts [of 4 "[5, 3, 5, 1]" a' bl] by (simp add: card_insert_if)
qed

section \<open>What the table holds\<close>

lemma pin_on_bit: "i < 32 \<Longrightarrow> pin_on m i \<longleftrightarrow> bit m i"
  by (simp add: pin_on_def bit_iff_and_push_bit_not_eq_0)

lemma mask_fold:
  "bit (fold (\<lambda>i w. if P i then w OR push_bit i 1 else w) xs (m :: u32)) j \<longleftrightarrow> bit m j \<or> j < 32 \<and> (\<exists>i\<in>set xs. P i \<and> i = j)"
  by (induction xs arbitrary: m) (auto simp: bit_simps)

lemma bit_get_mask: "bit (pwm_get_mask s v) j \<longleftrightarrow> j < 17 \<and> pin_on (pwm_mask s) j \<and> pwm_values s ! j = v"
  by (auto simp: pwm_get_mask_def mask_fold)

lemma diff_loop_spec:
  "i < length a \<Longrightarrow> length (diff_loop i a) = length a \<and>
   (\<forall>k<length a. diff_loop i a ! k = (if 0 < k \<and> k \<le> i then a ! k - a ! (k - 1) else a ! k))"
proof (induction i arbitrary: a)
  case (Suc i)
  have "i < length (a[Suc i := a ! Suc i - a ! i])" using Suc.prems by simp
  note IH = Suc.IH [OF this]
  show ?case using IH by (auto simp: nth_list_update not_less_eq_eq le_Suc_eq)
qed simp

definition pwm_ok :: "('h, 'm) pwm_scheme \<Rightarrow> bool" where
  "pwm_ok s \<longleftrightarrow> length (pwm_tables s) = 2 \<and> unat (pwm_active s) < 2 \<and> length (pwm_values s) = 17 \<and>
     (\<forall>t\<in>set (pwm_tables s). length (tb_steps t) = 17 \<and> length (tb_masks t) = 17)"

definition prep_range :: "bool \<Rightarrow> ('h, 'm) pwm_scheme \<Rightarrow> u32" where
  "prep_range f80 s = (if f80 then pwm_range s div 2 else pwm_range s)"

lemma prep_returns:
  "length (pwm_temp_steps s (prep_range f80 s)) \<le> 17 \<Longrightarrow> prep_range f80 s * pwm_freq s \<noteq> 0 \<Longrightarrow> \<exists>s'. prep_pwm_steps f80 s = Some s'"
  by (auto simp: prep_pwm_steps_def Let_def prep_range_def [symmetric] split: prod.split)

definition switch_times :: "bool \<Rightarrow> ('h, 'm) pwm_scheme \<Rightarrow> u16 list" where
  "switch_times f80 s = remdups_adj (sort (pwm_temp_steps s (prep_range f80 s)))"

lemma not_u8_index: "unat (a :: u8) < 2 \<Longrightarrow> unat (not_u8 a) < 2 \<and> unat (not_u8 a) \<noteq> unat a"
  by (auto simp: not_u8_def unat_eq_0 [symmetric])

lemma prep_table:
  assumes ok: "pwm_ok s" and "prep_pwm_steps f80 s = Some s'" "pwm_mask s \<noteq> 0"
  defines "vs \<equiv> switch_times f80 s" and "k \<equiv> unat (not_u8 (pwm_active s))"
  shows "\<exists>t. s' = s\<lparr>pwm_tables := (pwm_tables s)[k := t],
      pwm_multiplier := CLOCK div (prep_range f80 s * pwm_freq s), pwm_steps_changed := 1\<rparr> \<and>
    prep_range f80 s * pwm_freq s \<noteq> 0 \<and> 0 < length vs \<and> length vs \<le> 17 \<and>
    tb_len t = of_nat (length vs - 1) \<and> length (tb_steps t) = 17 \<and> length (tb_masks t) = 17 \<and>
    (\<forall>i<length vs. tb_steps t ! i = (if i = 0 then vs ! 0 else vs ! i - vs ! (i - 1))) \<and>
    (\<forall>i<length vs - 1. tb_masks t ! i = pwm_get_mask s (vs ! i))"
proof -
  define temp where "temp = pwm_temp_steps s (prep_range f80 s)"
  obtain a' bl where sa: "pwm_sort_array temp (length temp) = (a', bl)" by (cases "pwm_sort_array temp (length temp)")
  have "0 < length temp" by (simp add: temp_def pwm_temp_steps_def)
  from sort_array_eq [OF this order_refl sa]
  have e: "0 < bl" "bl \<le> length temp" "length a' = length temp" "take bl a' = vs"
    by (auto simp: vs_def switch_times_def temp_def)
  have lv: "length vs = bl" unfolding e(4) [symmetric] length_take using e(2,3) by linarith
  have sm: "length temp \<le> 17" "prep_range f80 s * pwm_freq s \<noteq> 0"
    using assms(2,3) by (auto simp: prep_pwm_steps_def Let_def prep_range_def temp_def split: if_splits prod.splits)
  define t0 where "t0 = pwm_tables s ! k"
  have "t0 \<in> set (pwm_tables s)" using ok not_u8_index [of "pwm_active s"] by (simp add: t0_def k_def pwm_ok_def)
  then have t0: "length (tb_steps t0) = 17" "length (tb_masks t0) = 17" using ok by (auto simp: pwm_ok_def)
  define d where "d = diff_loop (bl - 1) a'"
  have d: "length d = length temp" "\<forall>i<bl. d ! i = (if i = 0 then vs ! 0 else vs ! i - vs ! (i - 1))"
    using diff_loop_spec [of "bl - 1" a'] e by (auto simp: d_def less_Suc_eq_le Suc_le_eq)
  define t where "t = \<lparr>tb_len = of_nat (bl - 1), tb_steps = take (bl - 1 + 1) d @ drop (bl - 1 + 1) (tb_steps t0),
      tb_masks = map (\<lambda>i. pwm_get_mask s (a' ! i)) [0..<bl - 1] @ drop (bl - 1) (tb_masks t0)\<rparr>"
  have "s' = s\<lparr>pwm_tables := (pwm_tables s)[k := t],
      pwm_multiplier := CLOCK div (prep_range f80 s * pwm_freq s), pwm_steps_changed := 1\<rparr>"
    using assms(2,3) sm sa
    by (auto simp: prep_pwm_steps_def Let_def prep_range_def [symmetric] temp_def [symmetric] t_def t0_def k_def d_def split: if_splits)
  moreover have "\<forall>i<bl. vs ! i = a' ! i" using e(4) by auto
  ultimately show ?thesis
    using e lv d sm t0 by (intro exI [of _ t]) (auto simp: t_def nth_append)
qed

section \<open>What the interrupt makes of it\<close>

text \<open>A chip that records the writes to its registers.\<close>

definition log_soc :: "(pin_reg \<times> u32) list soc" where
  "log_soc = \<lparr>soc_gpio = \<lparr>gp_read = (\<lambda>r h. (0, h)), gp_write = (\<lambda>r v h. h @ [(r, v)])\<rparr>,
     soc_do = (\<lambda>k h. h), soc_rsil = (\<lambda>h. (0, h))\<rparr>"

text \<open>
  The level of the pins \<open>m\<close>, the time they were high and the time gone by, in timer ticks: every
  load of the timer lets that many ticks pass.
\<close>

fun wave_step :: "u32 \<Rightarrow> bool \<times> nat \<times> nat \<Rightarrow> pin_reg \<times> u32 \<Rightarrow> bool \<times> nat \<times> nat" where
  "wave_step m (high, on, tot) (r, v) =
     (case r of
        GPOS \<Rightarrow> (high \<or> v AND m \<noteq> 0, on, tot)
      | GPOC \<Rightarrow> (high \<and> v AND m = 0, on, tot)
      | T1L \<Rightarrow> (high, on + (if high then unat v else 0), tot + unat v)
      | _ \<Rightarrow> (high, on, tot))"

definition wave :: "nat \<Rightarrow> (pin_reg \<times> u32) list \<Rightarrow> bool \<times> nat \<times> nat" where
  "wave pin h = foldl (wave_step (push_bit pin 1)) (False, 0, 0) h"

fun pwm_isrs :: "'h soc \<Rightarrow> nat \<Rightarrow> ('h, 'm) pwm_scheme \<Rightarrow> ('h, 'm) pwm_scheme option" where
  "pwm_isrs c 0 s = Some s"
| "pwm_isrs c (Suc n) s = do { s \<leftarrow> pwm_timer_isr c s; pwm_isrs c n s }"

lemma pwm_isrs_last: "pwm_isrs c (Suc n) s = do { s \<leftarrow> pwm_isrs c n s; pwm_timer_isr c s }"
proof (induction n arbitrary: s)
  case (Suc n)
  show ?case
  proof (cases "pwm_timer_isr c s")
    case (Some s')
    then show ?thesis using Suc.IH [of s'] by simp
  qed simp
next
  case 0
  then show ?case by (cases "pwm_timer_isr c s") auto
qed

lemma low_pins_bit:
  assumes "pin < 16" shows "(m AND 0xFFFF) AND push_bit pin 1 \<noteq> 0 \<longleftrightarrow> bit (m :: u32) pin"
    and "bit m pin \<Longrightarrow> m AND 0xFFFF \<noteq> 0"
proof -
  have f: "(0xFFFF :: u32) = mask 16" by (simp add: mask_eq_exp_minus_1)
  show "(m AND 0xFFFF) AND push_bit pin 1 \<noteq> 0 \<longleftrightarrow> bit m pin"
    using assms unfolding f bit_iff_and_push_bit_not_eq_0 [of "m AND mask 16" pin, symmetric] by (simp add: bit_simps)
  show "m AND 0xFFFF \<noteq> 0" if "bit m pin"
  proof -
    have "bit (m AND mask 16) pin" using assms that by (simp add: bit_simps)
    then show ?thesis unfolding f by auto
  qed
qed

lemma wave_snoc: "wave pin (h @ [e]) = wave_step (push_bit pin 1) (wave pin h) e"
  by (simp add: wave_def)

text \<open>The interrupt that opens a period, and those that walk the table.\<close>

lemma isr_opens:
  assumes "\<not> current_step s < tb_len (active_table s)" "bit (pwm_mask s) pin" "pin < 16"
    and "s1 = (if pwm_steps_changed s \<noteq> 0 then s\<lparr>pwm_active := not_u8 (pwm_active s), pwm_steps_changed := 0\<rparr> else s)"
    and "tb_steps (active_table s1) \<noteq> []" "wave pin (io s) = (lv, on, tot)"
    and "T = unat (ucast (tb_steps (active_table s1) ! 0) * pwm_multiplier s)"
  shows "\<exists>h. pwm_timer_isr log_soc s = Some (s1\<lparr>current_step := 0, io := h\<rparr>) \<and> wave pin h = (True, on + T, tot + T)"
proof -
  have m: "pwm_mask s AND 0xFFFF \<noteq> 0" using low_pins_bit(2) assms(2,3) by blast
  have m0: "pwm_mask s \<noteq> 0" using assms(2) by auto
  have g: "(pwm_mask s AND 0xFFFF) AND push_bit pin 1 \<noteq> 0" using low_pins_bit(1) assms(2,3) by blast
  define v where "v = ucast (tb_steps (active_table s1) ! 0) * pwm_multiplier s"
  define h where "h = io s @ [(TEIE, 0), (T1I, 0), (GPOS, pwm_mask s AND 0xFFFF)] @
      (if pwm_mask s AND 0x10000 \<noteq> 0 then [(GP16O, 1)] else []) @ [(T1L, v), (TEIE, TEIE1)]"
  have "pwm_timer_isr log_soc s = Some (s1\<lparr>current_step := 0, io := h\<rparr>)"
    using assms(1,4,5) m m0
    by (cases "pwm_steps_changed s = 0"; cases "pwm_mask s AND 0x10000 = 0")
       (simp_all add: pwm_timer_isr_def Let_def soc_defs log_soc_def gp_and_def gp_or_def active_table_def h_def v_def)
  moreover have "wave pin h = (True, on + T, tot + T)"
    using assms(6,7) g by (simp add: h_def v_def wave_def)
  ultimately show ?thesis by blast
qed

lemma isr_steps:
  assumes "current_step s < tb_len t" "active_table s = t" "pin < 16" "bit (pwm_mask s) pin"
    and "unat (current_step s) < length (tb_masks t)" "unat (current_step s + 1) < length (tb_steps t)"
    and "wave pin (io s) = (lv, on, tot)"
    and "lv' = (lv \<and> \<not> bit (tb_masks t ! unat (current_step s)) pin)"
    and "T = unat (ucast (tb_steps t ! unat (current_step s + 1)) * pwm_multiplier s)"
  shows "\<exists>h. pwm_timer_isr log_soc s = Some (s\<lparr>current_step := current_step s + 1, io := h\<rparr>) \<and>
    wave pin h = (lv', on + (if lv' then T else 0), tot + T)"
proof -
  define mk where "mk = tb_masks t ! unat (current_step s) AND pwm_mask s"
  have g: "(mk AND 0xFFFF) AND push_bit pin 1 \<noteq> 0 \<longleftrightarrow> bit (tb_masks t ! unat (current_step s)) pin"
    using low_pins_bit(1) [OF assms(3), of mk] assms(4) by (simp add: mk_def bit_and_iff)
  define v where "v = ucast (tb_steps t ! unat (current_step s + 1)) * pwm_multiplier s"
  define h where "h = io s @ [(TEIE, 0), (T1I, 0)] @ (if mk AND 0xFFFF \<noteq> 0 then [(GPOC, mk AND 0xFFFF)] else []) @
      (if mk AND 0x10000 \<noteq> 0 then [(GP16O, 0)] else []) @ [(T1L, v), (TEIE, TEIE1)]"
  have "pwm_timer_isr log_soc s = Some (s\<lparr>current_step := current_step s + 1, io := h\<rparr>)"
    using assms(1,2,5,6)
    by (simp add: pwm_timer_isr_def Let_def soc_defs log_soc_def gp_and_def gp_or_def h_def v_def mk_def)
  moreover have "wave pin h = (lv', on + (if lv' then T else 0), tot + T)"
  proof (cases "mk AND 0xFFFF = 0")
    case True
    then have "\<not> bit (tb_masks t ! unat (current_step s)) pin" using g by simp
    then show ?thesis using True assms(7,8,9) by (simp add: h_def v_def wave_def)
  next
    case False
    then show ?thesis
      using g assms(7,8,9)
      by (cases "bit (tb_masks t ! unat (current_step s)) pin") (simp_all add: h_def v_def wave_def)
  qed
  ultimately show ?thesis by blast
qed

lemma switch_times_sorted: "sorted_wrt (<) (switch_times f80 s)"
  unfolding switch_times_def by (rule strict_remdups_adj) simp

lemma set_switch_times:
  "set (switch_times f80 s) = {v. \<exists>i<17. pin_on (pwm_mask s) i \<and> v = pwm_values s ! i \<and> v \<noteq> 0} \<union> {ucast (prep_range f80 s)}"
  by (auto simp: switch_times_def pwm_temp_steps_def)

lemma strict_nth_mono: "sorted_wrt (<) xs \<Longrightarrow> i < j \<Longrightarrow> j < length xs \<Longrightarrow> xs ! i < (xs ! j :: u16)"
  by (rule sorted_wrt_nth_less)

lemma ticks_exact:
  assumes "unat b \<le> unat a" "unat (a :: u16) * unat (m :: u32) < 4294967296"
  shows "unat (ucast (a - b) * m) = (unat a - unat b) * unat m"
proof -
  have "unat (a - b) = unat a - unat b" using assms(1) by (simp add: unat_sub word_le_nat_alt)
  then have "unat (ucast (a - b) :: u32) = unat a - unat b"
    by (simp add: unsigned_ucast_eq)
  moreover have "(unat a - unat b) * unat m < 4294967296"
    using assms(2) by (metis diff_le_self dual_order.strict_trans2 mult_le_mono1)
  ultimately show ?thesis by (simp add: unat_word_ariths)
qed

text \<open>
  A table that walks the strictly rising times \<open>vs\<close>: the steps are their differences, and a mask
  names the pins whose value is the time.
\<close>

definition walks :: "('h, 'm) pwm_scheme \<Rightarrow> u16 list \<Rightarrow> pwm_isr_table \<Rightarrow> bool" where
  "walks s vs t \<longleftrightarrow> sorted_wrt (<) vs \<and> vs \<noteq> [] \<and> length vs \<le> 17 \<and> tb_len t = of_nat (length vs - 1) \<and>
     length (tb_steps t) = 17 \<and> length (tb_masks t) = 17 \<and>
     (\<forall>i<length vs. tb_steps t ! i = (if i = 0 then vs ! 0 else vs ! i - vs ! (i - 1))) \<and>
     (\<forall>i<length vs - 1. tb_masks t ! i = pwm_get_mask s (vs ! i))"

lemma prep_walks:
  assumes "pwm_ok s" "prep_pwm_steps f80 s = Some s1" "pwm_mask s \<noteq> 0"
  obtains t where "walks s (switch_times f80 s) t" "prep_range f80 s * pwm_freq s \<noteq> 0"
    "s1 = s\<lparr>pwm_tables := (pwm_tables s)[unat (not_u8 (pwm_active s)) := t],
            pwm_multiplier := CLOCK div (prep_range f80 s * pwm_freq s), pwm_steps_changed := 1\<rparr>"
proof -
  from prep_table [OF assms] obtain t where t:
    "s1 = s\<lparr>pwm_tables := (pwm_tables s)[unat (not_u8 (pwm_active s)) := t],
            pwm_multiplier := CLOCK div (prep_range f80 s * pwm_freq s), pwm_steps_changed := 1\<rparr>"
    "prep_range f80 s * pwm_freq s \<noteq> 0" "0 < length (switch_times f80 s)" "length (switch_times f80 s) \<le> 17"
    "tb_len t = of_nat (length (switch_times f80 s) - 1)" "length (tb_steps t) = 17" "length (tb_masks t) = 17"
    "\<And>i. i < length (switch_times f80 s) \<Longrightarrow>
       tb_steps t ! i = (if i = 0 then switch_times f80 s ! 0 else switch_times f80 s ! i - switch_times f80 s ! (i - 1))"
    "\<And>i. i < length (switch_times f80 s) - 1 \<Longrightarrow> tb_masks t ! i = pwm_get_mask s (switch_times f80 s ! i)"
    by metis
  then have "walks s (switch_times f80 s) t" by (auto simp: walks_def switch_times_sorted)
  then show thesis by (rule that) (rule t)+
qed

lemma walks_mono: "walks s vs t \<Longrightarrow> i < j \<Longrightarrow> j < length vs \<Longrightarrow> unat (vs ! i) < unat (vs ! j)"
  using strict_nth_mono [of vs i j] by (simp add: walks_def word_less_nat_alt)

lemma walks_le: "walks s vs t \<Longrightarrow> i \<le> j \<Longrightarrow> j < length vs \<Longrightarrow> unat (vs ! i) \<le> unat (vs ! j)"
  using walks_mono [of s vs t i j] by (cases "i = j") auto

lemma walks_ticks:
  assumes "walks s vs t" "j < length vs" "unat (vs ! j) * unat (m :: u32) < 4294967296"
  shows "unat (ucast (tb_steps t ! j) * m) = (unat (vs ! j) - (if j = 0 then 0 else unat (vs ! (j - 1)))) * unat m"
  using assms ticks_exact [of 0 "vs ! j" m] ticks_exact [of "vs ! (j - 1)" "vs ! j" m] walks_le [OF assms(1), of "j - 1" j]
  by (cases "j = 0") (simp_all add: walks_def)

lemma walks_mask:
  assumes "walks s vs t" "j < length vs - 1" "p < length vs" "pin < 16" "pin_on (pwm_mask s) pin" "vs ! p = pwm_values s ! pin"
  shows "bit (tb_masks t ! j) pin \<longleftrightarrow> j = p"
proof -
  have "bit (tb_masks t ! j) pin \<longleftrightarrow> pwm_values s ! pin = vs ! j" using assms(1,2,4,5) by (simp add: walks_def bit_get_mask)
  moreover have "j < length vs" using assms(2) by simp
  then have "vs ! j = vs ! p \<longleftrightarrow> j = p"
    using walks_mono [OF assms(1), of j p] walks_mono [OF assms(1), of p j] assms(3) by (cases j p rule: linorder_cases) auto
  ultimately show ?thesis using assms(6) by auto
qed

text \<open>One interrupt on a table that walks \<open>vs\<close>, the pin's value being the time \<open>vs ! p\<close>.\<close>

lemma isr_walks:
  assumes "walks s vs t" "Suc j < length vs" "p < length vs" "pin < 16" "pin_on (pwm_mask s) pin" "vs ! p = pwm_values s ! pin"
    and "active_table z = t" "pwm_mask z = pwm_mask s" "current_step z = of_nat j" "\<forall>x\<in>set vs. unat x * unat (pwm_multiplier z) < 4294967296"
    and "wave pin (io z) = (j \<le> p, unat (vs ! min j p) * unat (pwm_multiplier z), unat (vs ! j) * unat (pwm_multiplier z))"
  shows "\<exists>h. pwm_timer_isr log_soc z = Some (z\<lparr>current_step := of_nat (Suc j), io := h\<rparr>) \<and>
    wave pin h = (Suc j \<le> p, unat (vs ! min (Suc j) p) * unat (pwm_multiplier z), unat (vs ! Suc j) * unat (pwm_multiplier z))"
proof -
  let ?M = "unat (pwm_multiplier z)" and ?V = "\<lambda>i. unat (vs ! i)"
  have w: "length vs \<le> 17" "tb_len t = of_nat (length vs - 1)" "length (tb_steps t) = 17" "length (tb_masks t) = 17"
    using assms(1) by (simp_all add: walks_def)
  have u: "unat (of_nat j :: u8) = j" "unat (of_nat j + 1 :: u8) = Suc j" "unat (of_nat (length vs - 1) :: u8) = length vs - 1"
    using w(1) assms(2) by (simp_all add: unat_of_nat unat_word_ariths del: of_nat_diff)
  have le: "?V j \<le> ?V (Suc j)" by (rule walks_le [OF assms(1) _ assms(2)]) simp
  have "\<exists>h. pwm_timer_isr log_soc z = Some (z\<lparr>current_step := current_step z + 1, io := h\<rparr>) \<and>
      wave pin h = (Suc j \<le> p, ?V (min j p) * ?M + (if Suc j \<le> p then (?V (Suc j) - ?V j) * ?M else 0), ?V j * ?M + (?V (Suc j) - ?V j) * ?M)"
  proof (rule isr_steps [OF _ assms(7,4)])
    show "current_step z < tb_len t" using w(2) u assms(2,9) by (simp add: word_less_nat_alt)
    show "bit (pwm_mask z) pin" using assms(4,5,8) by (simp add: pin_on_bit)
    show "unat (current_step z) < length (tb_masks t)" "unat (current_step z + 1) < length (tb_steps t)" using u w assms(2,9) by simp_all
    show "(Suc j \<le> p) = (j \<le> p \<and> \<not> bit (tb_masks t ! unat (current_step z)) pin)"
      using u assms(9) walks_mask [OF assms(1) _ assms(3-6), of j] assms(2) by auto
    show "(?V (Suc j) - ?V j) * ?M = unat (ucast (tb_steps t ! unat (current_step z + 1)) * pwm_multiplier z)"
      using walks_ticks [OF assms(1,2), of "pwm_multiplier z"] assms(2,9,10) u by simp
  qed (rule assms)
  moreover have "?V (min j p) * ?M + (if Suc j \<le> p then (?V (Suc j) - ?V j) * ?M else 0) = ?V (min (Suc j) p) * ?M"
    using le by (cases j p rule: linorder_cases) (auto simp: min_def diff_mult_distrib)
  moreover have "?V j * ?M + (?V (Suc j) - ?V j) * ?M = ?V (Suc j) * ?M" using le by (simp add: diff_mult_distrib)
  ultimately show ?thesis using assms(9) by (simp add: add.commute)
qed

text \<open>The interrupts from the one that opens the period on.\<close>

lemma isrs_walk:
  assumes "walks s vs t" "p < length vs" "pin < 16" "pin_on (pwm_mask s) pin" "vs ! p = pwm_values s ! pin"
    and "\<forall>x\<in>set vs. unat x * unat (pwm_multiplier z) < 4294967296"
    and "\<not> current_step z < tb_len (active_table z)" "pwm_steps_changed z \<noteq> 0" "pwm_mask z = pwm_mask s" "io z = []"
    and "z0 = z\<lparr>pwm_active := not_u8 (pwm_active z), pwm_steps_changed := 0\<rparr>" "active_table z0 = t"
  shows "j < length vs \<Longrightarrow> \<exists>h. pwm_isrs log_soc (Suc j) z = Some (z0\<lparr>current_step := of_nat j, io := h\<rparr>) \<and>
    wave pin h = (j \<le> p, unat (vs ! min j p) * unat (pwm_multiplier z), unat (vs ! j) * unat (pwm_multiplier z))"
proof (induction j)
  case 0
  let ?T = "unat (vs ! 0) * unat (pwm_multiplier z)"
  have "\<exists>h. pwm_timer_isr log_soc z = Some (z0\<lparr>current_step := 0, io := h\<rparr>) \<and> wave pin h = (True, 0 + ?T, 0 + ?T)"
  proof (rule isr_opens [OF assms(7) _ assms(3)])
    show "tb_steps (active_table z0) \<noteq> []" using assms(1,12) by (auto simp: walks_def)
    show "?T = unat (ucast (tb_steps (active_table z0) ! 0) * pwm_multiplier z)"
      using walks_ticks [OF assms(1) 0, of "pwm_multiplier z"] assms(6,12) 0 by simp
  qed (use assms in \<open>simp_all add: wave_def pin_on_bit\<close>)
  then show ?case by auto
next
  case (Suc j)
  then obtain h where h: "pwm_isrs log_soc (Suc j) z = Some (z0\<lparr>current_step := of_nat j, io := h\<rparr>)"
    "wave pin h = (j \<le> p, unat (vs ! min j p) * unat (pwm_multiplier z), unat (vs ! j) * unat (pwm_multiplier z))" by auto
  let ?z = "z0\<lparr>current_step := of_nat j, io := h\<rparr>"
  have "active_table ?z = t" using assms(12) by (simp add: active_table_def)
  from isr_walks [OF assms(1) Suc.prems assms(2-5) this] obtain h' where
    "pwm_timer_isr log_soc ?z = Some (?z\<lparr>current_step := of_nat (Suc j), io := h'\<rparr>)"
    "wave pin h' = (Suc j \<le> p, unat (vs ! min (Suc j) p) * unat (pwm_multiplier z), unat (vs ! Suc j) * unat (pwm_multiplier z))"
    using assms(6,9,11) h(2) by auto
  then show ?case unfolding pwm_isrs_last [of _ "Suc j"] h(1) by auto
qed

text \<open>The times end with the range, and a pin's value below it is one of them.\<close>

lemma switch_times_range:
  assumes "unat (prep_range f80 s) < 65536" "\<forall>i<17. pin_on (pwm_mask s) i \<longrightarrow> unat (pwm_values s ! i) \<le> unat (prep_range f80 s)"
  shows "x \<in> set (switch_times f80 s) \<Longrightarrow> unat x \<le> unat (prep_range f80 s)"
    and "switch_times f80 s \<noteq> []" "unat (switch_times f80 s ! (length (switch_times f80 s) - 1)) = unat (prep_range f80 s)"
proof -
  let ?vs = "switch_times f80 s"
  have rng: "unat (ucast (prep_range f80 s) :: u16) = unat (prep_range f80 s)"
    using assms(1) by (simp add: unsigned_ucast_eq take_bit_nat_eq_self)
  show le: "unat x \<le> unat (prep_range f80 s)" if "x \<in> set ?vs" for x using that assms(2) rng unfolding set_switch_times by auto
  have "ucast (prep_range f80 s) \<in> set ?vs" by (simp add: set_switch_times)
  then obtain j where j: "j < length ?vs" "unat (?vs ! j) = unat (prep_range f80 s)" using rng by (auto simp: in_set_conv_nth)
  then show ne: "?vs \<noteq> []" by auto
  have "unat (?vs ! j) \<le> unat (?vs ! (length ?vs - 1))"
    using strict_nth_mono [OF switch_times_sorted, of j "length ?vs - 1" f80 s] j(1)
    by (cases "j = length ?vs - 1") (auto simp: word_less_nat_alt intro: less_imp_le)
  then show "unat (?vs ! (length ?vs - 1)) = unat (prep_range f80 s)" using j(2) le [of "?vs ! (length ?vs - 1)"] ne by simp
qed

lemma multiplier_fits:
  assumes "unat r * unat f < 4294967296" "r * f \<noteq> 0"
  shows "unat r * unat (CLOCK div (r * f)) < 4294967296"
proof -
  have rf: "unat (r * f) = unat r * unat f" using assms(1) by (simp add: unat_word_ariths)
  then have f: "0 < unat f" using assms(2) by (metis gr0I mult_0_right unat_eq_0)
  have "unat r * unat f * unat (CLOCK div (r * f)) \<le> 80000000" by (simp add: unat_div CLOCK_def rf)
  moreover have "unat r * unat (CLOCK div (r * f)) \<le> unat r * unat f * unat (CLOCK div (r * f))" using f by simp
  ultimately show ?thesis by linarith
qed


text \<open>The witness drives pin 5 at 300 of 1023.\<close>

definition pwm_demo :: "(pin_reg \<times> u32) list pwm" where
  "pwm_demo = \<lparr>timer1_user_cb = None, timer0_user_cb = None, io = [],
     pwm_tables = replicate 2 \<lparr>tb_len = 0, tb_steps = replicate 17 0, tb_masks = replicate 17 0\<rparr>, pwm_active = 0,
     current_step = 0, pwm_mask = 0x20, pwm_values = (replicate 17 0)[5 := 300], pwm_freq = 1000, pwm_range = 1023,
     pwm_steps_changed = 0, pwm_multiplier = 0\<rparr>"

lemma pwm_demo_pins: "i < 17 \<Longrightarrow> pin_on 0x20 i \<longleftrightarrow> i = 5"
proof -
  assume "i < 17"
  moreover have "(0x20 :: u32) = push_bit 5 1" by simp
  ultimately show ?thesis by (simp only: pin_on_bit bit_push_bit_iff) (auto simp: bit_1_iff)
qed


end
