(* ===== verification/Pins.thy ===== *)
theory Pins
  imports Pwm "HOL-Library.Signed_Division"
begin

text \<open>
  The pins: pinMode, digitalWrite, digitalRead and the GPIO interrupt dispatcher of
  cores/esp8266/core_esp8266_wiring_digital.c, and analogWrite of core_esp8266_wiring_pwm.c.
  \<open>None\<close> is an access outside the handler or value array, or a division by zero.
\<close>

section \<open>State and register fields\<close>

record interrupt_handler_t =
  ih_mode :: u8
  ih_fn :: "nat option"

record 'h pins = "'h pwm" +
  interrupt_handlers :: "interrupt_handler_t list"
  interrupt_reg :: u32

definition CHANGE :: u8 where "CHANGE = 0x03"
definition GPCI :: nat where "GPCI = 7"
definition GPCD :: nat where "GPCD = 2"
definition GPCWE :: nat where "GPCWE = 10"
definition GPFPU :: nat where "GPFPU = 7"
definition GPFPD :: nat where "GPFPD = 6"
definition GP16FPD :: nat where "GP16FPD = 3"

definition flag :: "bool \<Rightarrow> u32" where "flag b = (if b then 1 else 0)"

definition GPFFS :: "u32 \<Rightarrow> u32" where
  "GPFFS f = push_bit 8 (flag (f AND 4 \<noteq> 0)) OR push_bit 5 (flag (f AND 2 \<noteq> 0)) OR push_bit 4 (flag (f AND 1 \<noteq> 0))"

definition GPFFS_GPIO :: "u8 \<Rightarrow> u32" where
  "GPFFS_GPIO p = (if p = 0 \<or> p = 2 \<or> p = 4 \<or> p = 5 then 0 else if p = 16 then 1 else 3)"

definition GPFFS_BUS :: "u8 \<Rightarrow> u32" where
  "GPFFS_BUS p = (if p = 1 \<or> p = 3 then 0 else if p = 2 \<or> p = 12 \<or> p = 13 \<or> p = 14 \<or> p = 15 then 2
     else if p = 0 then 4 else 1)"

definition GP16FFS :: "u32 \<Rightarrow> u32" where
  "GP16FFS f = (f AND 0x03) OR push_bit 4 (f AND 0x04)"

section \<open>Modes and levels\<close>

definition keep_int_type :: "'h soc \<Rightarrow> u8 \<Rightarrow> u32 \<Rightarrow> ('h, 'm) timers_scheme \<Rightarrow> ('h, 'm) timers_scheme" where
  "keep_int_type c pin extra s =
     (case read_reg c (GPC pin) s of (v, s) \<Rightarrow> write_reg c (GPC pin) ((v AND push_bit GPCI 0xF) OR extra) s)"

definition pinMode :: "'h soc \<Rightarrow> u8 \<Rightarrow> u8 \<Rightarrow> ('h, 'm) pwm_scheme \<Rightarrow> ('h, 'm) pwm_scheme" where
  "pinMode c pin mode s =
     (let s = pwm_stop_pin c pin s
      in if pin < 16 then
           if mode = SPECIAL then
             let s = keep_int_type c pin 0 s;
                 s = write_reg c GPEC (bit_of pin) s;
                 s = write_reg c (GPF pin) (GPFFS (GPFFS_BUS pin)) s
             in if pin = 3 then or_reg c (GPF pin) (push_bit GPFPU 1) s else s
           else if mode AND FUNCTION_0 \<noteq> 0 then
             let s = keep_int_type c pin 0 s;
                 s = write_reg c GPEC (bit_of pin) s;
                 s = write_reg c (GPF pin) (GPFFS (ucast (drop_bit 4 mode) AND 0x07)) s
             in if pin = 13 \<and> mode = FUNCTION_4 then or_reg c (GPF pin) (push_bit GPFPU 1) s else s
           else if mode = OUTPUT \<or> mode = OUTPUT_OPEN_DRAIN then
             let s = write_reg c (GPF pin) (GPFFS (GPFFS_GPIO pin)) s;
                 s = keep_int_type c pin 0 s;
                 s = (if mode = OUTPUT_OPEN_DRAIN then or_reg c (GPC pin) (push_bit GPCD 1) s else s)
             in write_reg c GPES (bit_of pin) s
           else if mode = INPUT \<or> mode = INPUT_PULLUP then
             let s = write_reg c (GPF pin) (GPFFS (GPFFS_GPIO pin)) s;
                 s = write_reg c GPEC (bit_of pin) s;
                 s = keep_int_type c pin (push_bit GPCD 1) s
             in if mode = INPUT_PULLUP then or_reg c (GPF pin) (push_bit GPFPU 1) s else s
           else if mode = WAKEUP_PULLUP \<or> mode = WAKEUP_PULLDOWN then
             let s = write_reg c (GPF pin) (GPFFS (GPFFS_GPIO pin)) s;
                 s = write_reg c GPEC (bit_of pin) s
             in if mode = WAKEUP_PULLUP
                then write_reg c (GPC pin) (push_bit GPCD 1 OR push_bit GPCI 4 OR push_bit GPCWE 1)
                       (or_reg c (GPF pin) (push_bit GPFPU 1) s)
                else write_reg c (GPC pin) (push_bit GPCD 1 OR push_bit GPCI 5 OR push_bit GPCWE 1)
                       (or_reg c (GPF pin) (push_bit GPFPD 1) s)
           else s
         else if pin = 16 then
           let s = write_reg c GPF16 (GP16FFS (GPFFS_GPIO pin)) s;
               s = write_reg c GPC16 0 s
           in if mode = INPUT \<or> mode = INPUT_PULLDOWN_16 then
                let s = (if mode = INPUT_PULLDOWN_16 then or_reg c GPF16 (push_bit GP16FPD 1) s else s)
                in and_reg c GP16E (NOT 1) s
              else if mode = OUTPUT then or_reg c GP16E 1 s
              else s
         else s)"

definition digitalWrite :: "'h soc \<Rightarrow> u8 \<Rightarrow> u8 \<Rightarrow> ('h, 'm) pwm_scheme \<Rightarrow> ('h, 'm) pwm_scheme" where
  "digitalWrite c pin v s =
     (let s = pwm_stop_pin c pin s
      in if pin < 16 then (if v \<noteq> 0 then write_reg c GPOS (bit_of pin) s else write_reg c GPOC (bit_of pin) s)
         else if pin = 16 then (if v \<noteq> 0 then or_reg c GP16O 1 s else and_reg c GP16O (NOT 1) s)
         else s)"

definition digitalRead :: "'h soc \<Rightarrow> u8 \<Rightarrow> ('h, 'm) pwm_scheme \<Rightarrow> int \<times> ('h, 'm) pwm_scheme" where
  "digitalRead c pin s =
     (let s = pwm_stop_pin c pin s
      in if pin < 16 then
           (case read_reg c GPI s of (v, s) \<Rightarrow> (if v AND push_bit (unat (pin AND 0xF)) 1 \<noteq> 0 then 1 else 0, s))
         else if pin = 16 then (case read_reg c GP16I s of (v, s) \<Rightarrow> (uint (v AND 0x01), s))
         else (0, s))"

section \<open>GPIO interrupts\<close>

text \<open>
  The loop over the changed bits.  The code's inner loop skips clear bits, the outer one ends
  when no bit is left; the index stays below 32 because the bits left are never below it.
\<close>

definition due :: "interrupt_handler_t list \<Rightarrow> u32 \<Rightarrow> nat \<Rightarrow> bool" where
  "due hs levels i \<longleftrightarrow> ih_fn (hs ! i) \<noteq> None \<and>
     (ih_mode (hs ! i) = CHANGE \<or> (ih_mode (hs ! i) AND 1 \<noteq> 0) = (levels AND push_bit i 1 \<noteq> 0))"

function handle_bits ::
  "'h soc \<Rightarrow> (nat \<Rightarrow> ('h, 'm) pins_scheme \<Rightarrow> ('h, 'm) pins_scheme) \<Rightarrow> u32 \<Rightarrow> nat \<Rightarrow> u32 \<Rightarrow>
   ('h, 'm) pins_scheme \<Rightarrow> ('h, 'm) pins_scheme option" where
  "handle_bits c run levels i changed s =
     (if changed = 0 then Some s
      else if 32 \<le> i then None
      else if \<not> bit changed i then handle_bits c run levels (Suc i) changed s
      else let changed = unset_bit i changed
           in if length (interrupt_handlers s) \<le> i then None
              else if due (interrupt_handlers s) levels i
              then handle_bits c run levels i changed (guarded c (run (the (ih_fn (interrupt_handlers s ! i)))) s)
              else handle_bits c run levels i changed s)"
  by pat_completeness auto
termination
  by (relation "measure (\<lambda>(c, run, levels, i, changed, s). 2 * (32 - i) + (if bit changed i then 1 else 0))")
     (auto simp: bit_simps)

declare handle_bits.simps [simp del]

definition interrupt_handler ::
  "'h soc \<Rightarrow> (nat \<Rightarrow> ('h, 'm) pins_scheme \<Rightarrow> ('h, 'm) pins_scheme) \<Rightarrow> ('h, 'm) pins_scheme \<Rightarrow> ('h, 'm) pins_scheme option" where
  "interrupt_handler c run s =
     (case read_reg c GPIE s of (status, s) \<Rightarrow>
        case read_reg c GPI (write_reg c GPIEC status s) of (levels, s) \<Rightarrow>
          if status = 0 \<or> interrupt_reg s = 0 then Some s
          else map_option (call_soc c Gpio_enable)
                 (handle_bits c run levels 0 (status AND interrupt_reg s) (call_soc c Gpio_disable s)))"

definition attachInterrupt :: "'h soc \<Rightarrow> u8 \<Rightarrow> nat option \<Rightarrow> u32 \<Rightarrow> ('h, 'm) pins_scheme \<Rightarrow> ('h, 'm) pins_scheme" where
  "attachInterrupt c pin userFunc mode s =
     (if pin < 16 then
        let s = s\<lparr>interrupt_handlers := (interrupt_handlers s)[unat pin := \<lparr>ih_mode = ucast mode, ih_fn = userFunc\<rparr>]\<rparr>;
            s = s\<lparr>interrupt_reg := interrupt_reg s OR bit_of pin\<rparr>;
            s = and_reg c (GPC pin) (NOT (push_bit GPCI 0xF)) s;
            s = write_reg c GPIEC (bit_of pin) s
        in or_reg c (GPC pin) (push_bit GPCI (mode AND 0xF)) s
      else s)"

definition detachInterrupt :: "'h soc \<Rightarrow> u8 \<Rightarrow> ('h, 'm) pins_scheme \<Rightarrow> ('h, 'm) pins_scheme" where
  "detachInterrupt c pin s =
     (if pin < 16 then
        let s = and_reg c (GPC pin) (NOT (push_bit GPCI 0xF)) s;
            s = write_reg c GPIEC (bit_of pin) s;
            s = s\<lparr>interrupt_reg := interrupt_reg s AND NOT (bit_of pin)\<rparr>
        in s\<lparr>interrupt_handlers := (interrupt_handlers s)[unat pin := \<lparr>ih_mode = 0, ih_fn = None\<rparr>]\<rparr>
      else s)"

definition initPins :: "'h soc \<Rightarrow> ('h, 'm) pins_scheme \<Rightarrow> ('h, 'm) pins_scheme" where
  "initPins c s =
     (let s = call_soc c (Uart_ints_off 1) (call_soc c (Uart_ints_off 0) (call_soc c (Os_print False) s));
          s = fold (\<lambda>i. pinMode c (of_nat i) INPUT) [0..<6] s;
          s = fold (\<lambda>i. pinMode c (of_nat i) INPUT) [12..<17] s
      in call_soc c Gpio_enable (call_soc c Gpio_attach s))"

section \<open>Analog output\<close>

text \<open>
  The clearing of the tables passes the size of a pointer: it clears the first four bytes, the
  first table's length and first step.
\<close>

definition clear_tables :: "pwm_isr_table list \<Rightarrow> pwm_isr_table list" where
  "clear_tables ts = ts[0 := (ts ! 0)\<lparr>tb_len := 0, tb_steps := (tb_steps (ts ! 0))[0 := 0]\<rparr>]"

definition analogWrite :: "'h soc \<Rightarrow> bool \<Rightarrow> u8 \<Rightarrow> int \<Rightarrow> ('h, 'm) pwm_scheme \<Rightarrow> ('h, 'm) pwm_scheme option" where
  "analogWrite c f80 pin v s =
     (if v = 0 then prep_pwm_steps f80 (digitalWrite c pin 0 s)
      else let fresh = pwm_mask s AND bit_of pin = 0;
               start_timer = (fresh \<and> pwm_mask s = 0);
               s = (if start_timer then s\<lparr>pwm_tables := clear_tables (pwm_tables s)\<rparr> else s);
               s = (if fresh
                    then let s = digitalWrite c pin 0 (pinMode c pin OUTPUT s)
                         in s\<lparr>pwm_mask := pwm_mask s OR bit_of pin\<rparr>
                    else s);
               v = (if f80 then (v + 1) sdiv 2 else v)
           in if pwm_range s + 1 = 0 \<or> length (pwm_values s) \<le> unat pin then None
              else do {
                s \<leftarrow> prep_pwm_steps f80
                       (s\<lparr>pwm_values := (pwm_values s)[unat pin := ucast ((word_of_int v :: u32) mod (pwm_range s + 1))]\<rparr>);
                Some (if start_timer then pwm_start_timer c s else s) })"

definition analogWriteFreq :: "bool \<Rightarrow> u32 \<Rightarrow> ('h, 'm) pwm_scheme \<Rightarrow> ('h, 'm) pwm_scheme option" where
  "analogWriteFreq f80 freq s = prep_pwm_steps f80 (s\<lparr>pwm_freq := freq\<rparr>)"

definition analogWriteRange :: "bool \<Rightarrow> u32 \<Rightarrow> ('h, 'm) pwm_scheme \<Rightarrow> ('h, 'm) pwm_scheme option" where
  "analogWriteRange f80 rng s = prep_pwm_steps f80 (s\<lparr>pwm_range := rng\<rparr>)"

section \<open>The dispatcher calls each due handler once\<close>

definition pins_ok :: "('h, 'm) pins_scheme \<Rightarrow> bool" where
  "pins_ok s \<longleftrightarrow> length (interrupt_handlers s) = 16 \<and> (\<forall>i. bit (interrupt_reg s) i \<longrightarrow> i < 16)"

lemma handlers_io [simp]:
  "interrupt_handlers (call_soc c k s) = interrupt_handlers s" "interrupt_reg (call_soc c k s) = interrupt_reg s"
  "interrupt_handlers (write_reg c r v s) = interrupt_handlers s" "interrupt_reg (write_reg c r v s) = interrupt_reg s"
  "interrupt_handlers (or_reg c r v s) = interrupt_handlers s" "interrupt_reg (or_reg c r v s) = interrupt_reg s"
  "interrupt_handlers (and_reg c r v s) = interrupt_handlers s" "interrupt_reg (and_reg c r v s) = interrupt_reg s"
  by (simp_all add: soc_defs)

lemma handlers_read [simp]:
  "read_reg c r s = (v, s') \<Longrightarrow> interrupt_handlers s' = interrupt_handlers s \<and> interrupt_reg s' = interrupt_reg s"
  by (auto simp: soc_defs split: prod.splits)

lemma handlers_guarded:
  assumes "\<And>f s. interrupt_handlers (run f s) = interrupt_handlers s"
  shows "interrupt_handlers (guarded c (run f) s) = interrupt_handlers s"
  using assms by (simp add: guarded_def split: prod.split)

definition call_due ::
  "'h soc \<Rightarrow> (nat \<Rightarrow> ('h, 'm) pins_scheme \<Rightarrow> ('h, 'm) pins_scheme) \<Rightarrow> interrupt_handler_t list \<Rightarrow> nat \<Rightarrow>
   ('h, 'm) pins_scheme \<Rightarrow> ('h, 'm) pins_scheme" where
  "call_due c run hs i = guarded c (run (the (ih_fn (hs ! i))))"

lemma handle_bits_calls:
  assumes "\<And>f s. interrupt_handlers (run f s) = interrupt_handlers s"
    and "length (interrupt_handlers s) = 16" "\<forall>j. bit changed j \<longrightarrow> i \<le> j \<and> j < 16"
  shows "handle_bits c run levels i changed s =
      Some (fold (call_due c run (interrupt_handlers s))
              (filter (\<lambda>j. bit changed j \<and> due (interrupt_handlers s) levels j) [i..<16]) s)"
  using assms
proof (induction c run levels i changed s rule: handle_bits.induct)
  case (1 c run levels i changed s)
  let ?hs = "interrupt_handlers s"
  show ?case
  proof (cases "changed = 0")
    case True
    then show ?thesis by (simp add: handle_bits.simps)
  next
    case nz: False
    then obtain j where "bit changed j" by (auto simp: bit_eq_iff)
    then have i16: "i < 16" using 1(6) by fastforce
    have upt: "[i..<16] = i # [Suc i..<16]" using i16 by (simp add: upt_conv_Cons)
    show ?thesis
    proof (cases "bit changed i")
      case False
      have "\<forall>j. bit changed j \<longrightarrow> Suc i \<le> j \<and> j < 16" using 1(6) False by (metis Suc_leI le_neq_implies_less)
      then have "handle_bits c run levels (Suc i) changed s =
          Some (fold (call_due c run ?hs) (filter (\<lambda>j. bit changed j \<and> due ?hs levels j) [Suc i..<16]) s)"
        using 1(1) [OF nz _ False 1(4,5)] i16 by simp
      moreover have "handle_bits c run levels i changed s = handle_bits c run levels (Suc i) changed s"
        using nz i16 False by (subst handle_bits.simps) simp
      ultimately show ?thesis using False by (simp add: upt)
    next
      case True
      define ch where "ch = unset_bit i changed"
      have ch: "bit ch k \<longleftrightarrow> bit changed k \<and> k \<noteq> i" for k by (auto simp: ch_def bit_unset_bit_iff)
      have rest: "filter (\<lambda>j. bit ch j \<and> due ?hs levels j) [i..<16] = filter (\<lambda>j. bit changed j \<and> due ?hs levels j) [Suc i..<16]"
        unfolding upt by (auto simp: ch intro: filter_cong)
      have pre: "\<forall>j. bit ch j \<longrightarrow> i \<le> j \<and> j < 16" using 1(6) ch by auto
      show ?thesis
      proof (cases "due ?hs levels i")
        case d: True
        let ?s = "guarded c (run (the (ih_fn (?hs ! i)))) s"
        have h: "interrupt_handlers ?s = ?hs" by (rule handlers_guarded) (rule 1(4))
        have "handle_bits c run levels i ch ?s = Some (fold (call_due c run ?hs) (filter (\<lambda>j. bit ch j \<and> due ?hs levels j) [i..<16]) ?s)"
          using 1(2) [of ch, OF nz _ _ ch_def _ d 1(4)] i16 True 1(5) pre h by simp
        moreover have "handle_bits c run levels i changed s = handle_bits c run levels i ch ?s"
          using nz i16 True d 1(5) by (subst handle_bits.simps) (simp add: ch_def)
        moreover have "call_due c run ?hs i s = ?s" by (simp add: call_due_def)
        ultimately show ?thesis using True d unfolding rest by (simp add: upt)
      next
        case d: False
        have "handle_bits c run levels i ch s = Some (fold (call_due c run ?hs) (filter (\<lambda>j. bit ch j \<and> due ?hs levels j) [i..<16]) s)"
          using 1(3) [of ch, OF nz _ _ ch_def _ d 1(4)] i16 True 1(5) pre by simp
        moreover have "handle_bits c run levels i changed s = handle_bits c run levels i ch s"
          using nz i16 True d 1(5) by (subst handle_bits.simps) (simp add: ch_def)
        ultimately show ?thesis using d unfolding rest by (simp add: upt)
      qed
    qed
  qed
qed

lemma pins_ok_attach: "pins_ok s \<Longrightarrow> pins_ok (attachInterrupt c pin f mode s)"
  by (auto simp: pins_ok_def attachInterrupt_def Let_def bit_or_iff bit_of_def bit_simps word_less_nat_alt split: if_splits)

lemma pins_ok_detach: "pins_ok s \<Longrightarrow> pins_ok (detachInterrupt c pin s)"
  by (auto simp: pins_ok_def detachInterrupt_def Let_def bit_and_iff)


text \<open>The witness: pins 4 and 5 attached, both pending, only the second's edge matches.\<close>

definition pins_demo :: "(pin_reg \<times> u32) list pins" where
  "pins_demo = \<lparr>timer1_user_cb = None, timer0_user_cb = None, io = [], pwm_tables = [], pwm_active = 0,
     current_step = 0, pwm_mask = 0, pwm_values = [], pwm_freq = 1000, pwm_range = 1023,
     pwm_steps_changed = 0, pwm_multiplier = 0,
     interrupt_handlers = (replicate 16 \<lparr>ih_mode = 0, ih_fn = None\<rparr>)[4 := \<lparr>ih_mode = 1, ih_fn = Some 7\<rparr>, 5 := \<lparr>ih_mode = 2, ih_fn = Some 8\<rparr>],
     interrupt_reg = 0x30\<rparr>"

definition irq_soc :: "(pin_reg \<times> u32) list soc" where
  "irq_soc = log_soc\<lparr>soc_gpio := (soc_gpio log_soc)\<lparr>gp_read := (\<lambda>r h. (if r = GPIE then 0x30 else 0, h))\<rparr>\<rparr>"


end
