(* ===== verification/Wiring.thy ===== *)
theory Wiring
  imports Pins
begin

text \<open>
  Shift registers and pulse timing: core_esp8266_wiring_shift.c and core_esp8266_wiring_pulse.c,
  on top of the pin functions.  The cycle counter and the scheduler's \<open>optimistic_yield\<close> are the
  arguments \<open>ccount\<close> and \<open>yield\<close>, \<open>mhz\<close> is \<open>F_CPU / 1000000\<close>.
\<close>

section \<open>Shifting\<close>

definition LSBFIRST :: u8 where "LSBFIRST = 0"

definition bit_place :: "u8 \<Rightarrow> nat \<Rightarrow> nat" where
  "bit_place bitOrder i = (if bitOrder = LSBFIRST then i else 7 - i)"

fun shift_in_bits :: "'h soc \<Rightarrow> u8 \<Rightarrow> u8 \<Rightarrow> u8 \<Rightarrow> nat \<Rightarrow> nat \<Rightarrow> u8 \<Rightarrow> ('h, 'm) pwm_scheme \<Rightarrow> u8 \<times> ('h, 'm) pwm_scheme" where
  "shift_in_bits c dataPin clockPin bitOrder 0 i v s = (v, s)"
| "shift_in_bits c dataPin clockPin bitOrder (Suc n) i v s =
     (case digitalRead c dataPin (digitalWrite c clockPin 1 s) of (d, s) \<Rightarrow>
        shift_in_bits c dataPin clockPin bitOrder n (Suc i)
          (v OR push_bit (bit_place bitOrder i) (word_of_int d)) (digitalWrite c clockPin 0 s))"

definition shiftIn :: "'h soc \<Rightarrow> u8 \<Rightarrow> u8 \<Rightarrow> u8 \<Rightarrow> ('h, 'm) pwm_scheme \<Rightarrow> u8 \<times> ('h, 'm) pwm_scheme" where
  "shiftIn c dataPin clockPin bitOrder s = shift_in_bits c dataPin clockPin bitOrder 8 0 0 s"

fun shift_out_bits :: "'h soc \<Rightarrow> u8 \<Rightarrow> u8 \<Rightarrow> u8 \<Rightarrow> u8 \<Rightarrow> nat \<Rightarrow> nat \<Rightarrow> ('h, 'm) pwm_scheme \<Rightarrow> ('h, 'm) pwm_scheme" where
  "shift_out_bits c dataPin clockPin bitOrder v 0 i s = s"
| "shift_out_bits c dataPin clockPin bitOrder v (Suc n) i s =
     (let s = digitalWrite c dataPin (if v AND push_bit (bit_place bitOrder i) 1 \<noteq> 0 then 1 else 0) s;
          s = digitalWrite c clockPin 1 s;
          s = digitalWrite c clockPin 0 s
      in shift_out_bits c dataPin clockPin bitOrder v n (Suc i) s)"

definition shiftOut :: "'h soc \<Rightarrow> u8 \<Rightarrow> u8 \<Rightarrow> u8 \<Rightarrow> u8 \<Rightarrow> ('h, 'm) pwm_scheme \<Rightarrow> ('h, 'm) pwm_scheme" where
  "shiftOut c dataPin clockPin bitOrder v s = shift_out_bits c dataPin clockPin bitOrder v 8 0 s"

section \<open>Pulses\<close>

definition clockCyclesToMicroseconds :: "u32 \<Rightarrow> u32 \<Rightarrow> u32" where
  "clockCyclesToMicroseconds mhz a = a div mhz"

definition microsecondsToClockCycles :: "u32 \<Rightarrow> u32 \<Rightarrow> u32" where
  "microsecondsToClockCycles mhz a = a * mhz"

text \<open>\<open>WAIT_FOR_PIN_STATE\<close>: the result tells whether the state came before the timeout.\<close>

partial_function (option) wait_for_pin ::
  "'h soc \<Rightarrow> ('h \<Rightarrow> u32 \<times> 'h) \<Rightarrow> ('h \<Rightarrow> 'h) \<Rightarrow> u8 \<Rightarrow> int \<Rightarrow> u32 \<Rightarrow> u32 \<Rightarrow> ('h, 'm) pwm_scheme \<Rightarrow>
   (bool \<times> ('h, 'm) pwm_scheme) option" where
  "wait_for_pin c ccount yield pin state start timeout s =
     (case digitalRead c pin s of (v, s) \<Rightarrow>
        if v = state then Some (True, s)
        else case ccount (io s) of (now, h) \<Rightarrow>
          if now - start > timeout then Some (False, s\<lparr>io := h\<rparr>)
          else wait_for_pin c ccount yield pin state start timeout (s\<lparr>io := yield h\<rparr>))"

definition pulseIn ::
  "'h soc \<Rightarrow> ('h \<Rightarrow> u32 \<times> 'h) \<Rightarrow> ('h \<Rightarrow> 'h) \<Rightarrow> u32 \<Rightarrow> u8 \<Rightarrow> u8 \<Rightarrow> u32 \<Rightarrow> ('h, 'm) pwm_scheme \<Rightarrow>
   (u32 \<times> ('h, 'm) pwm_scheme) option" where
  "pulseIn c ccount yield mhz pin state timeout s =
     (let max_timeout_us = clockCyclesToMicroseconds mhz 0xffffffff;
          timeout = (if timeout > max_timeout_us then max_timeout_us else timeout);
          timeout_cycles = microsecondsToClockCycles mhz timeout;
          inverse = (if state = 0 then 1 else 0)
      in case ccount (io s) of (start_cycle_count, h) \<Rightarrow> do {
           (ok, s) \<leftarrow> wait_for_pin c ccount yield pin inverse start_cycle_count timeout_cycles (s\<lparr>io := h\<rparr>);
           if \<not> ok then Some (0, s) else do {
             (ok, s) \<leftarrow> wait_for_pin c ccount yield pin (uint state) start_cycle_count timeout_cycles s;
             if \<not> ok then Some (0, s)
             else case ccount (io s) of (pulse_start, h) \<Rightarrow> do {
               (ok, s) \<leftarrow> wait_for_pin c ccount yield pin inverse start_cycle_count timeout_cycles (s\<lparr>io := h\<rparr>);
               if \<not> ok then Some (0, s)
               else case ccount (io s) of (now, h) \<Rightarrow>
                 Some (clockCyclesToMicroseconds mhz (now - pulse_start), s\<lparr>io := h\<rparr>) } } })"

definition pulseInLong ::
  "'h soc \<Rightarrow> ('h \<Rightarrow> u32 \<times> 'h) \<Rightarrow> ('h \<Rightarrow> 'h) \<Rightarrow> u32 \<Rightarrow> u8 \<Rightarrow> u8 \<Rightarrow> u32 \<Rightarrow> ('h, 'm) pwm_scheme \<Rightarrow>
   (u32 \<times> ('h, 'm) pwm_scheme) option" where
  "pulseInLong c ccount yield mhz pin state timeout s = pulseIn c ccount yield mhz pin state timeout s"

section \<open>What is shifted out is what is shifted in\<close>

text \<open>
  The receiving end: the level of the data pin whenever the clock pin rises, in order.
\<close>

fun clocked_levels :: "nat \<Rightarrow> nat \<Rightarrow> bool \<Rightarrow> (pin_reg \<times> u32) list \<Rightarrow> bool list" where
  "clocked_levels d k level [] = []"
| "clocked_levels d k level ((r, v) # h) =
     (if r = GPOS \<and> v = push_bit k 1 then level # clocked_levels d k level h
      else if r = GPOS \<and> v = push_bit d 1 then clocked_levels d k True h
      else if r = GPOC \<and> v = push_bit d 1 then clocked_levels d k False h
      else clocked_levels d k level h)"

text \<open>A chip whose data input plays back a list of levels, one per read.\<close>

definition play_soc :: "bool list soc" where
  "play_soc = \<lparr>soc_gpio = \<lparr>gp_read = (\<lambda>r h. if r = GPI then (if hd h then 0xffff else 0, tl h) else (0, h)),
     gp_write = (\<lambda>r v h. h)\<rparr>, soc_do = (\<lambda>k h. h), soc_rsil = (\<lambda>h. (0, h))\<rparr>"

lemma write_no_pwm: "pwm_mask s = 0 \<Longrightarrow> pin < 16 \<Longrightarrow>
  digitalWrite c pin v s = write_reg c (if v \<noteq> 0 then GPOS else GPOC) (bit_of pin) s"
  by (simp add: digitalWrite_def pwm_stop_pin_def Let_def)

lemma shift_out_levels:
  assumes "d < 16" "k < 16" "bit_of d \<noteq> bit_of k"
  shows "pwm_mask s = 0 \<Longrightarrow> \<exists>h. io (shift_out_bits log_soc d k ord v n i s) = io s @ h \<and>
    clocked_levels (unat d) (unat k) lv h = map (\<lambda>j. bit v (bit_place ord j)) [i..<i + n]"
proof (induction n arbitrary: i s lv)
  case (Suc n)
  let ?b = "bit v (bit_place ord i)"
  have b: "v AND push_bit j 1 \<noteq> 0 \<longleftrightarrow> bit v j" for j by (simp add: bit_iff_and_push_bit_not_eq_0)
  define s1 where "s1 = digitalWrite log_soc k 0 (digitalWrite log_soc k 1 (digitalWrite log_soc d (if ?b then 1 else 0) s))"
  have io1: "io s1 = io s @ [(if ?b then GPOS else GPOC, bit_of d), (GPOS, bit_of k), (GPOC, bit_of k)]" "pwm_mask s1 = 0"
    using Suc.prems assms(1,2) by (simp_all add: s1_def write_no_pwm soc_defs log_soc_def)
  obtain h where h: "io (shift_out_bits log_soc d k ord v n (Suc i) s1) = io s1 @ h"
    "clocked_levels (unat d) (unat k) ?b h = map (\<lambda>j. bit v (bit_place ord j)) [Suc i..<Suc i + n]"
    using Suc.IH [OF io1(2), of "Suc i" ?b] by blast
  have "shift_out_bits log_soc d k ord v (Suc n) i s = shift_out_bits log_soc d k ord v n (Suc i) s1"
    by (simp only: shift_out_bits.simps Let_def s1_def b)
  moreover have "clocked_levels (unat d) (unat k) lv ([(if ?b then GPOS else GPOC, bit_of d), (GPOS, bit_of k), (GPOC, bit_of k)] @ h) =
      ?b # clocked_levels (unat d) (unat k) ?b h"
    using assms(3) unfolding bit_of_def by (auto simp del: push_bit_of_1)
  ultimately show ?case
    using h io1(1) by (auto simp: upt_conv_Cons simp del: upt_Suc)
qed simp

lemma shift_in_plays:
  assumes "d < 16" "k < 16"
  shows "pwm_mask s = 0 \<Longrightarrow> io s = map f [i..<i + n] \<Longrightarrow>
    fst (shift_in_bits play_soc d k ord n i acc s) = fold (\<lambda>j w. w OR push_bit (bit_place ord j) (if f j then 1 else 0)) [i..<i + n] acc"
proof (induction n arbitrary: i acc s)
  case (Suc n)
  have up: "[i..<i + Suc n] = i # [Suc i..<Suc i + n]" by (simp add: upt_conv_Cons del: upt_Suc)
  have idx: "unat (d AND 0xF) < 16"
  proof -
    have "d AND 0xF = take_bit 4 d" by (simp add: take_bit_eq_mask mask_eq_exp_minus_1)
    then show ?thesis by (simp add: unsigned_take_bit_eq take_bit_nat_def)
  qed
  have all: "(0xffff :: u32) AND push_bit j 1 \<noteq> 0" if "j < 16" for j
  proof -
    have "(0xffff :: u32) = mask 16" by (simp add: mask_eq_exp_minus_1)
    then show ?thesis
      using that by (simp only: bit_iff_and_push_bit_not_eq_0 [symmetric] bit_mask_iff) simp
  qed
  have "digitalRead play_soc d (digitalWrite play_soc k 1 s) =
      (if f i then 1 else 0, s\<lparr>io := map f [Suc i..<Suc i + n]\<rparr>)"
    using Suc.prems assms all [OF idx] unfolding up
    by (simp add: write_no_pwm digitalRead_def pwm_stop_pin_def Let_def soc_defs play_soc_def)
  moreover have "digitalWrite play_soc k 0 s' = s'" if "pwm_mask s' = 0" for s' :: "(bool list, 'a) pwm_scheme"
    using that assms(2) by (simp add: write_no_pwm soc_defs play_soc_def)
  ultimately show ?case
    using Suc.IH [of "s\<lparr>io := map f [Suc i..<Suc i + n]\<rparr>" "Suc i"] Suc.prems(1) unfolding up by (simp split: if_splits)
qed simp

lemma fold_places:
  "bit (fold (\<lambda>j w. w OR push_bit (bit_place ord j) (if P j then 1 else 0)) js (acc :: u8)) m \<longleftrightarrow>
     bit acc m \<or> m < 8 \<and> (\<exists>j\<in>set js. bit_place ord j = m \<and> P j)"
  by (induction js arbitrary: acc) (auto simp: bit_simps)

lemma places_all: "m < 8 \<Longrightarrow> \<exists>j<8. bit_place ord j = m"
  by (cases "ord = LSBFIRST") (auto simp: bit_place_def intro: exI [of _ "7 - m"])

text \<open>
  Shifting round trip.  The data levels a receiver samples at the rising clock edges of
  \<open>shiftOut\<close> are, read back by \<open>shiftIn\<close> in the same bit order, the byte that was sent.
\<close>

theorem shift_roundtrip:
  assumes "d < 16" "k < 16" "bit_of d \<noteq> bit_of k" "pwm_mask s = 0" "pwm_mask s' = 0"
    and "io s = []" "io s' = clocked_levels (unat d) (unat k) False (io (shiftOut log_soc d k ord v s))"
  shows "fst (shiftIn play_soc d k ord s') = v"
proof -
  have l: "io s' = map (\<lambda>j. bit v (bit_place ord j)) [0..<0 + 8]"
    using shift_out_levels [OF assms(1-3) assms(4), of ord v 8 0 False] assms(6,7) by (auto simp: shiftOut_def)
  have "fst (shiftIn play_soc d k ord s') =
      fold (\<lambda>j w. w OR push_bit (bit_place ord j) (if bit v (bit_place ord j) then 1 else 0)) [0..<8] 0"
    using shift_in_plays [OF assms(1,2,5) l, of ord 0] by (simp add: shiftIn_def)
  also have "\<dots> = v"
  proof (rule bit_word_eqI)
    fix m assume m: "m < LENGTH(8)"
    then obtain j where "j < 8" "bit_place ord j = m" using places_all [of m ord] by auto
    then show "bit (fold (\<lambda>j w. w OR push_bit (bit_place ord j) (if bit v (bit_place ord j) then 1 else 0)) [0..<8] (0 :: u8)) m = bit v m"
      using m fold_places [of ord "\<lambda>j. bit v (bit_place ord j)" "[0..<8]" 0 m] by auto
  qed
  finally show ?thesis .
qed

definition quiet_pins :: "'h \<Rightarrow> 'h pwm" where
  "quiet_pins h = \<lparr>timer1_user_cb = None, timer0_user_cb = None, io = h, pwm_tables = [], pwm_active = 0,
     current_step = 0, pwm_mask = 0, pwm_values = [], pwm_freq = 1000, pwm_range = 1023,
     pwm_steps_changed = 0, pwm_multiplier = 0\<rparr>"

lemma shift_roundtrip_witness:
  "fst (shiftIn play_soc 4 5 0 (quiet_pins (clocked_levels 4 5 False (io (shiftOut log_soc 4 5 0 0xA5 (quiet_pins [])))))) = 0xA5"
  using shift_roundtrip [of 4 5 "quiet_pins []"
      "quiet_pins (clocked_levels 4 5 False (io (shiftOut log_soc 4 5 0 0xA5 (quiet_pins []))))" 0 "0xA5"]
  by (simp add: quiet_pins_def bit_of_def)

end
