(* ===== verification/I2s.thy ===== *)
theory I2s
  imports Pins
begin

text \<open>
  I2S audio output, cores/esp8266/core_esp8266_i2s.c: a ring of eight DMA buffers, the queue of
  empty buffers that the DMA interrupt fills and the writer drains, and the clock divisors.  Buffers
  are the blocks \<open>malloc\<close> returned, in \<open>slc_bufs\<close>, keyed by address; \<open>ldesc\<close> is the
  address of the descriptor array.  The interrupts that arrive between two instructions of the
  writer are the argument \<open>irq\<close>, a function on the state.  \<open>None\<close> is an access outside the
  queue, a descriptor or a buffer, a division by zero, or a wait that never ends.
\<close>

section \<open>State\<close>

definition SLC_BUF_CNT :: nat where "SLC_BUF_CNT = 8"
definition SLC_BUF_LEN :: nat where "SLC_BUF_LEN = 64"

record slc_queue_item =
  si_blocksize :: u32
  si_datalen :: u32
  si_unused :: u32
  si_sub_sof :: u32
  si_eof :: u32
  si_owner :: u32
  si_buf_ptr :: u32
  si_next_link_ptr :: u32

record 'h i2s = "'h pins" +
  i2s_slc_queue :: "u32 list"
  i2s_slc_queue_len :: u8
  i2s_slc_buf_pntr :: "u32 list"
  i2s_slc_items :: "slc_queue_item list"
  i2s_curr_slc_buf :: u32
  i2s_curr_slc_buf_pos :: int
  i2s_sample_rate :: u32
  slc_bufs :: "u32 \<Rightarrow> u32 list option"

definition i2s_is_full :: "('h, 'm) i2s_scheme \<Rightarrow> bool" where
  "i2s_is_full s \<longleftrightarrow>
     (i2s_curr_slc_buf_pos s = int SLC_BUF_LEN \<or> i2s_curr_slc_buf s = 0) \<and> i2s_slc_queue_len s = 0"

definition i2s_is_empty :: "('h, 'm) i2s_scheme \<Rightarrow> bool" where
  "i2s_is_empty s \<longleftrightarrow> of_nat (SLC_BUF_CNT - 1) \<le> i2s_slc_queue_len s"

section \<open>The queue of empty buffers\<close>

function shift_queue :: "nat \<Rightarrow> nat \<Rightarrow> u32 list \<Rightarrow> u32 list option" where
  "shift_queue n i q =
     (if i < n then if i + 1 < length q then shift_queue n (i + 1) (q[i := q ! (i + 1)]) else None
      else Some q)"
  by pat_completeness auto
termination by (relation "measure (\<lambda>(n, i, q). n - i)") auto

declare shift_queue.simps [simp del]

definition i2s_slc_queue_next_item :: "('h, 'm) i2s_scheme \<Rightarrow> (u32 \<times> ('h, 'm) i2s_scheme) option" where
  "i2s_slc_queue_next_item s =
     (if i2s_slc_queue s = [] then None
      else let item = i2s_slc_queue s ! 0;
               n = i2s_slc_queue_len s - 1
           in case shift_queue (unat n) 0 (i2s_slc_queue s) of
                None \<Rightarrow> None
              | Some q \<Rightarrow> Some (item, s\<lparr>i2s_slc_queue := q, i2s_slc_queue_len := n\<rparr>))"

definition i2s_queue_push :: "u32 \<Rightarrow> ('h, 'm) i2s_scheme \<Rightarrow> ('h, 'm) i2s_scheme option" where
  "i2s_queue_push p s =
     (let n = unat (i2s_slc_queue_len s)
      in if n < length (i2s_slc_queue s)
         then Some (s\<lparr>i2s_slc_queue := (i2s_slc_queue s)[n := p], i2s_slc_queue_len := i2s_slc_queue_len s + 1\<rparr>)
         else None)"

text \<open>The descriptor at an address the DMA reports; a descriptor is twelve bytes long.\<close>

definition slc_item_at :: "u32 \<Rightarrow> u32 \<Rightarrow> slc_queue_item list \<Rightarrow> slc_queue_item option" where
  "slc_item_at ldesc a xs =
     (let i = unat (a - ldesc) div 12 in if unat (a - ldesc) mod 12 = 0 \<and> i < length xs then Some (xs ! i) else None)"

definition slc_zero :: "u32 \<Rightarrow> ('h, 'm) i2s_scheme \<Rightarrow> ('h, 'm) i2s_scheme option" where
  "slc_zero p s =
     (case slc_bufs s p of
        None \<Rightarrow> None
      | Some ws \<Rightarrow> if length ws < SLC_BUF_LEN then None
          else Some (s\<lparr>slc_bufs := (slc_bufs s)(p \<mapsto> replicate SLC_BUF_LEN 0 @ drop SLC_BUF_LEN ws)\<rparr>))"

definition SLCIRXEOF :: u32 where "SLCIRXEOF = push_bit 17 1"

definition i2s_slc_isr :: "u32 \<Rightarrow> 'h soc \<Rightarrow> ('h, 'm) i2s_scheme \<Rightarrow> ('h, 'm) i2s_scheme option" where
  "i2s_slc_isr ldesc c s =
     (case read_reg c SLCIS s of (slc_intr_status, s) \<Rightarrow>
        let s = write_reg c SLCIC 0xFFFFFFFF s
        in if slc_intr_status AND SLCIRXEOF \<noteq> 0 then
             (case read_reg c SLCRXEDA (call_soc c Slc_disable s) of (a, s) \<Rightarrow> do {
                finished_item \<leftarrow> slc_item_at ldesc a (i2s_slc_items s);
                s \<leftarrow> slc_zero (si_buf_ptr finished_item) s;
                s \<leftarrow> (if of_nat (SLC_BUF_CNT - 1) \<le> i2s_slc_queue_len s
                     then map_option snd (i2s_slc_queue_next_item s) else Some s);
                s \<leftarrow> i2s_queue_push (si_buf_ptr finished_item) s;
                Some (call_soc c Slc_enable s)
              })
           else Some s)"

section \<open>Start and stop of the DMA\<close>

definition slc_item :: "u32 \<Rightarrow> nat \<Rightarrow> u32 \<Rightarrow> slc_queue_item" where
  "slc_item ldesc x p =
     \<lparr>si_blocksize = of_nat (SLC_BUF_LEN * 4), si_datalen = of_nat (SLC_BUF_LEN * 4), si_unused = 0, si_sub_sof = 0,
      si_eof = 1, si_owner = 1, si_buf_ptr = p,
      si_next_link_ptr = (if x < SLC_BUF_CNT - 1 then ldesc + 12 * of_nat (x + 1) else ldesc)\<rparr>"

text \<open>The loop over the buffers; \<open>ms x\<close> is the result of the \<open>x\<close>-th \<open>malloc\<close>, zero when it fails.\<close>

function slc_alloc :: "u32 \<Rightarrow> (nat \<Rightarrow> u32) \<Rightarrow> nat \<Rightarrow> ('h, 'm) i2s_scheme \<Rightarrow> ('h, 'm) i2s_scheme option" where
  "slc_alloc ldesc ms x s =
     (if x < SLC_BUF_CNT then
        if ms x = 0 \<or> length (i2s_slc_buf_pntr s) \<le> x \<or> length (i2s_slc_items s) \<le> x then None
        else slc_alloc ldesc ms (x + 1)
               (s\<lparr>i2s_slc_buf_pntr := (i2s_slc_buf_pntr s)[x := ms x],
                 slc_bufs := (slc_bufs s)(ms x \<mapsto> replicate SLC_BUF_LEN 0),
                 i2s_slc_items := (i2s_slc_items s)[x := slc_item ldesc x (ms x)]\<rparr>)
      else Some s)"
  by pat_completeness auto
termination by (relation "measure (\<lambda>(ldesc, ms, x, s). SLC_BUF_CNT - x)") auto

declare slc_alloc.simps [simp del]

definition SLCRXLR :: u32 where "SLCRXLR = push_bit 1 1"
definition SLCTXLR :: u32 where "SLCTXLR = push_bit 0 1"
definition SLCMM :: u32 where "SLCMM = 0x3"
definition SLCM :: nat where "SLCM = 12"
definition SLCBINR :: u32 where "SLCBINR = push_bit 17 1"
definition SLCBTNR :: u32 where "SLCBTNR = push_bit 16 1"
definition SLCBRXFE :: u32 where "SLCBRXFE = push_bit 20 1"
definition SLCBRXEM :: u32 where "SLCBRXEM = push_bit 19 1"
definition SLCBRXFM :: u32 where "SLCBRXFM = push_bit 18 1"
definition SLCTXLAM :: u32 where "SLCTXLAM = 0xFFFF"
definition SLCRXLAM :: u32 where "SLCRXLAM = 0xFFFF"
definition SLCTXLS :: u32 where "SLCTXLS = push_bit 29 1"
definition SLCRXLS :: u32 where "SLCRXLS = push_bit 29 1"

definition slc_setup :: "u32 \<Rightarrow> 'h soc \<Rightarrow> ('h, 'm) timers_scheme \<Rightarrow> ('h, 'm) timers_scheme" where
  "slc_setup ldesc c s =
     (let s = call_soc c Slc_disable s;
          s = or_reg c SLCC0 (SLCRXLR OR SLCTXLR) s;
          s = and_reg c SLCC0 (NOT (SLCRXLR OR SLCTXLR)) s;
          s = write_reg c SLCIC 0xFFFFFFFF s;
          s = and_reg c SLCC0 (NOT (push_bit SLCM SLCMM)) s;
          s = or_reg c SLCC0 (push_bit SLCM 1) s;
          s = or_reg c SLCRXDC (SLCBINR OR SLCBTNR) s;
          s = and_reg c SLCRXDC (NOT (SLCBRXFE OR SLCBRXEM OR SLCBRXFM)) s;
          s = and_reg c SLCTXL (NOT SLCTXLAM) s;
          s = or_reg c SLCTXL (ldesc + 12) s;
          s = and_reg c SLCRXL (NOT SLCRXLAM) s;
          s = or_reg c SLCRXL ldesc s;
          s = call_soc c Slc_attach s;
          s = write_reg c SLCIE SLCIRXEOF s;
          s = call_soc c Slc_enable s;
          s = or_reg c SLCTXL SLCTXLS s
      in or_reg c SLCRXL SLCRXLS s)"

definition i2s_slc_begin ::
  "u32 \<Rightarrow> 'h soc \<Rightarrow> (nat \<Rightarrow> u32) \<Rightarrow> ('h, 'm) i2s_scheme \<Rightarrow> ('h, 'm) i2s_scheme option" where
  "i2s_slc_begin ldesc c ms s =
     map_option (slc_setup ldesc c) (slc_alloc ldesc ms 0 (s\<lparr>i2s_slc_queue_len := 0\<rparr>))"

definition i2s_slc_end :: "'h soc \<Rightarrow> ('h, 'm) timers_scheme \<Rightarrow> ('h, 'm) timers_scheme" where
  "i2s_slc_end c s =
     (let s = call_soc c Slc_disable s;
          s = write_reg c SLCIC 0xFFFFFFFF s;
          s = write_reg c SLCIE 0 s;
          s = and_reg c SLCTXL (NOT SLCTXLAM) s
      in and_reg c SLCRXL (NOT SLCRXLAM) s)"

section \<open>Writing samples\<close>

definition i2s_store :: "u32 \<Rightarrow> ('h, 'm) i2s_scheme \<Rightarrow> ('h, 'm) i2s_scheme option" where
  "i2s_store sample s =
     (let p = i2s_curr_slc_buf s; i = i2s_curr_slc_buf_pos s
      in case slc_bufs s p of
           None \<Rightarrow> None
         | Some ws \<Rightarrow> if i < 0 \<or> int (length ws) \<le> i then None
             else Some (s\<lparr>slc_bufs := (slc_bufs s)(p \<mapsto> ws[nat i := sample]), i2s_curr_slc_buf_pos := i + 1\<rparr>))"

text \<open>Taking the next empty buffer, with the DMA interrupt masked.\<close>

definition i2s_take :: "'h soc \<Rightarrow> ('h, 'm) i2s_scheme \<Rightarrow> ('h, 'm) i2s_scheme option" where
  "i2s_take c s = do {
     (p, s) \<leftarrow> i2s_slc_queue_next_item (call_soc c Slc_disable s);
     Some ((call_soc c Slc_enable (s\<lparr>i2s_curr_slc_buf := p\<rparr>))\<lparr>i2s_curr_slc_buf_pos := 0\<rparr>)
   }"

definition i2s_needs_buf :: "('h, 'm) i2s_scheme \<Rightarrow> bool" where
  "i2s_needs_buf s \<longleftrightarrow> i2s_curr_slc_buf_pos s = int SLC_BUF_LEN \<or> i2s_curr_slc_buf s = 0"

partial_function (option) i2s_wait ::
  "'h soc \<Rightarrow> (('h, 'm) i2s_scheme \<Rightarrow> ('h, 'm) i2s_scheme option) \<Rightarrow> ('h, 'm) i2s_scheme \<Rightarrow>
   ('h, 'm) i2s_scheme option" where
  "i2s_wait c irq s =
     (if i2s_slc_queue_len s > 0 then Some s
      else do {
        s \<leftarrow> irq (call_soc c Ets_wdt_enable (call_soc c Ets_wdt_disable s));
        i2s_wait c irq s
      })"

text \<open>
  Interrupts may run before the test of the queue, between it and masking, and after unmasking.
\<close>

definition i2s_write_sample ::
  "'h soc \<Rightarrow> (('h, 'm) i2s_scheme \<Rightarrow> ('h, 'm) i2s_scheme option) \<Rightarrow> u32 \<Rightarrow> ('h, 'm) i2s_scheme \<Rightarrow>
   (bool \<times> ('h, 'm) i2s_scheme) option" where
  "i2s_write_sample c irq sample s = do {
     s \<leftarrow> (if i2s_needs_buf s then do {
             s \<leftarrow> irq s;
             s \<leftarrow> i2s_wait c irq s;
             s \<leftarrow> irq s;
             s \<leftarrow> i2s_take c s;
             irq s
           } else Some s);
     s \<leftarrow> i2s_store sample s;
     Some (True, s)
   }"

definition i2s_write_sample_nb ::
  "'h soc \<Rightarrow> (('h, 'm) i2s_scheme \<Rightarrow> ('h, 'm) i2s_scheme option) \<Rightarrow> u32 \<Rightarrow> ('h, 'm) i2s_scheme \<Rightarrow>
   (bool \<times> ('h, 'm) i2s_scheme) option" where
  "i2s_write_sample_nb c irq sample s =
     (if i2s_needs_buf s then do {
        s \<leftarrow> irq s;
        if i2s_slc_queue_len s = 0 then Some (False, s)
        else do {
          s \<leftarrow> irq s;
          s \<leftarrow> i2s_take c s;
          s \<leftarrow> irq s;
          s \<leftarrow> i2s_store sample s;
          Some (True, s)
        }
      } else map_option (Pair True) (i2s_store sample s))"

definition i2s_pack :: "u16 \<Rightarrow> u16 \<Rightarrow> u32" where
  "i2s_pack left right = push_bit 16 (ucast right) OR ucast left"

definition i2s_write_lr ::
  "'h soc \<Rightarrow> (('h, 'm) i2s_scheme \<Rightarrow> ('h, 'm) i2s_scheme option) \<Rightarrow> u16 \<Rightarrow> u16 \<Rightarrow> ('h, 'm) i2s_scheme \<Rightarrow>
   (bool \<times> ('h, 'm) i2s_scheme) option" where
  "i2s_write_lr c irq left right = i2s_write_sample c irq (i2s_pack left right)"

section \<open>The sample rate\<close>

definition I2SBASEFREQ :: u32 where "I2SBASEFREQ = 12000000"
definition I2SBDM :: u32 where "I2SBDM = 0x3F"
definition I2SBD :: nat where "I2SBD = 22"
definition I2SCDM :: u32 where "I2SCDM = 0x3F"
definition I2SCD :: nat where "I2SCD = 16"
definition I2SBMM :: u32 where "I2SBMM = 0xF"
definition I2SBM :: nat where "I2SBM = 12"
definition I2SRMS :: u32 where "I2SRMS = push_bit 11 1"
definition I2STXS :: u32 where "I2STXS = push_bit 8 1"
definition I2SMR :: u32 where "I2SMR = push_bit 7 1"
definition I2SRF :: u32 where "I2SRF = push_bit 6 1"
definition I2SRSM :: u32 where "I2SRSM = push_bit 5 1"
definition I2STSM :: u32 where "I2STSM = push_bit 4 1"
definition I2SRST :: u32 where "I2SRST = 0xF"
definition I2SDE :: u32 where "I2SDE = push_bit 12 1"

definition i2s_divisors :: "u32 \<Rightarrow> (u32 \<times> u8) option" where
  "i2s_divisors rate =
     (if rate * 32 = 0 then None
      else let i2s_clock_div = (I2SBASEFREQ div (rate * 32)) AND I2SCDM
           in if rate * i2s_clock_div * 2 = 0 then None
              else Some (i2s_clock_div, ucast ((I2SBASEFREQ div (rate * i2s_clock_div * 2)) AND I2SBDM)))"

definition i2s_rate_clear :: u32 where
  "i2s_rate_clear = NOT (I2STSM OR push_bit I2SBM I2SBMM OR push_bit I2SBD I2SBDM OR push_bit I2SCD I2SCDM)"

definition i2s_rate_set :: "u32 \<Rightarrow> u8 \<Rightarrow> u32" where
  "i2s_rate_set i2s_clock_div i2s_bck_div =
     I2SRF OR I2SMR OR I2SRSM OR I2SRMS OR push_bit I2SBD (ucast i2s_bck_div - 1) OR push_bit I2SCD (i2s_clock_div - 1)"

definition i2s_set_rate :: "'h soc \<Rightarrow> u32 \<Rightarrow> ('h, 'm) i2s_scheme \<Rightarrow> ('h, 'm) i2s_scheme option" where
  "i2s_set_rate c rate s =
     (if rate = i2s_sample_rate s then Some s
      else case i2s_divisors rate of
             None \<Rightarrow> None
           | Some (i2s_clock_div, i2s_bck_div) \<Rightarrow>
               Some (or_reg c I2SC (i2s_rate_set i2s_clock_div i2s_bck_div)
                       (and_reg c I2SC i2s_rate_clear (s\<lparr>i2s_sample_rate := rate\<rparr>))))"

definition i2s_begin ::
  "u32 \<Rightarrow> 'h soc \<Rightarrow> (nat \<Rightarrow> u32) \<Rightarrow> ('h, 'm) i2s_scheme \<Rightarrow> ('h, 'm) i2s_scheme option" where
  "i2s_begin ldesc c ms s = do {
     s \<leftarrow> i2s_slc_begin ldesc c ms (s\<lparr>i2s_sample_rate := 0\<rparr>);
     let s = pinMode c 15 FUNCTION_1 (pinMode c 3 FUNCTION_1 (pinMode c 2 FUNCTION_1 s));
     let s = call_soc c I2s_clk_enable s;
     let s = write_reg c I2SIE 0 (write_reg c I2SIC 0x3F s);
     let s = and_reg c I2SC (NOT I2SRST) s;
     let s = or_reg c I2SC I2SRST s;
     let s = and_reg c I2SC (NOT I2SRST) s;
     let s = and_reg c I2SFC (NOT (I2SDE OR push_bit 13 0x7 OR push_bit 16 0x7)) s;
     let s = or_reg c I2SFC I2SDE s;
     let s = and_reg c I2SCC (NOT (push_bit 0 0x7 OR push_bit 3 0x3)) s;
     s \<leftarrow> i2s_set_rate c 44100 s;
     Some (or_reg c I2SC I2STXS s)
   }"

definition i2s_end :: "'h soc \<Rightarrow> ('h, 'm) i2s_scheme \<Rightarrow> ('h, 'm) i2s_scheme" where
  "i2s_end c s = pinMode c 15 INPUT (pinMode c 3 INPUT (pinMode c 2 INPUT (i2s_slc_end c s)))"

section \<open>The queue as an interface\<close>

text \<open>
  The queue seen through its elements: both ends, and what an operation leaves alone (\<open>rest\<close>).
\<close>

locale buffer_queue =
  fixes q_ok :: "'s \<Rightarrow> bool"
    and elems :: "'s \<Rightarrow> 'a list"
    and rest :: "'s \<Rightarrow> 'r"
    and room :: nat
    and pop :: "'s \<Rightarrow> ('a \<times> 's) option"
    and push :: "'a \<Rightarrow> 's \<Rightarrow> 's option"
  assumes room: "0 < room"
    and pop_law: "q_ok s \<Longrightarrow> elems s = x # xs \<Longrightarrow>
      \<exists>s'. pop s = Some (x, s') \<and> q_ok s' \<and> elems s' = xs \<and> rest s' = rest s"
    and push_law: "q_ok s \<Longrightarrow> length (elems s) < room \<Longrightarrow>
      \<exists>s'. push x s = Some s' \<and> q_ok s' \<and> elems s' = elems s @ [x] \<and> rest s' = rest s"
begin

lemma push_over:
  assumes "q_ok s" "length (elems s) \<le> room"
  shows "\<exists>s'. Option.bind (if room \<le> length (elems s) then map_option snd (pop s) else Some s) (push x) = Some s' \<and>
           q_ok s' \<and> elems s' = drop (Suc (length (elems s)) - room) (elems s) @ [x] \<and> rest s' = rest s"
proof (cases "room \<le> length (elems s)")
  case True
  then have full: "length (elems s) = room" using assms(2) by simp
  then obtain y ys where y: "elems s = y # ys" using room by (cases "elems s") auto
  obtain t where t: "pop s = Some (y, t)" "q_ok t" "elems t = ys" "rest t = rest s"
    using pop_law[OF assms(1) y] by blast
  have "length (elems t) < room" using full y t(3) by simp
  then obtain s' where "push x t = Some s'" "q_ok s'" "elems s' = ys @ [x]" "rest s' = rest s"
    using push_law[OF t(2)] t by metis
  then show ?thesis using full y t by auto
next
  case False
  then show ?thesis using push_law[OF assms(1), of x] by auto
qed

end

definition slc_queue_ok :: "('h, 'm) i2s_scheme \<Rightarrow> bool" where
  "slc_queue_ok s \<longleftrightarrow> length (i2s_slc_queue s) = 7 \<and> unat (i2s_slc_queue_len s) \<le> 7"

definition slc_queue :: "('h, 'm) i2s_scheme \<Rightarrow> u32 list" where
  "slc_queue s = take (unat (i2s_slc_queue_len s)) (i2s_slc_queue s)"

definition slc_rest :: "('h, 'm) i2s_scheme \<Rightarrow> ('h, 'm) i2s_scheme" where
  "slc_rest s = s\<lparr>i2s_slc_queue := [], i2s_slc_queue_len := 0\<rparr>"

lemma slc_queue_length: "slc_queue_ok s \<Longrightarrow> length (slc_queue s) = unat (i2s_slc_queue_len s)"
  by (simp add: slc_queue_ok_def slc_queue_def)

lemma shift_queue_spec:
  "n < length q \<Longrightarrow> i \<le> n \<Longrightarrow> shift_queue n i q = Some (take i q @ take (n - i) (drop (Suc i) q) @ drop n q)"
proof (induction n i q rule: shift_queue.induct)
  case (1 n i q)
  show ?case
  proof (cases "i < n")
    case True
    have "drop i q = q ! i # drop (Suc i) q" "drop (Suc i) q = q ! Suc i # drop (Suc (Suc i)) q"
      using 1(2) True by (simp_all add: Cons_nth_drop_Suc)
    moreover have "take (Suc i) (q[i := q ! Suc i]) = take i q @ [q ! Suc i]"
      using 1(2) True by (simp add: take_Suc_conv_app_nth)
    moreover have "n - i = Suc (n - Suc i)" using True by simp
    ultimately show ?thesis
      using 1(1)[OF True] 1(2) True by (subst shift_queue.simps) simp
  next
    case False
    then have "i = n" using 1(3) by simp
    then show ?thesis by (subst shift_queue.simps) simp
  qed
qed

lemma next_item_law:
  assumes "slc_queue_ok s" "slc_queue s = x # xs"
  shows "\<exists>s'. i2s_slc_queue_next_item s = Some (x, s') \<and> slc_queue_ok s' \<and> slc_queue s' = xs \<and> slc_rest s' = slc_rest s"
proof -
  let ?q = "i2s_slc_queue s" and ?n = "unat (i2s_slc_queue_len s)"
  have n: "0 < ?n" using assms(2) by (cases "?n") (simp_all add: slc_queue_def)
  then have u: "unat (i2s_slc_queue_len s - 1) = ?n - 1" by (simp add: unat_minus_one unat_gt_0)
  have len: "length ?q = 7" "?n \<le> 7" using assms(1) by (simp_all add: slc_queue_ok_def)
  then obtain y ys where q: "?q = y # ys" by (cases ?q) auto
  have yx: "y = x" "take (?n - 1) ys = xs" using assms(2) n by (simp_all add: slc_queue_def q take_Cons')
  have "shift_queue (?n - 1) 0 ?q = Some (xs @ drop (?n - 1) ?q)"
    using shift_queue_spec[of "?n - 1" ?q 0] len yx n by (simp add: q)
  moreover have "length xs = ?n - 1" using yx(2) len n by (auto simp: q)
  ultimately show ?thesis using len u n yx
    by (auto simp: i2s_slc_queue_next_item_def q slc_queue_ok_def slc_queue_def slc_rest_def)
qed

lemma queue_push_law:
  assumes "slc_queue_ok s" "length (slc_queue s) < 7"
  shows "\<exists>s'. i2s_queue_push x s = Some s' \<and> slc_queue_ok s' \<and> slc_queue s' = slc_queue s @ [x] \<and> slc_rest s' = slc_rest s"
proof -
  have n: "unat (i2s_slc_queue_len s) < 7" using assms by (simp add: slc_queue_length)
  then have "unat (i2s_slc_queue_len s + 1) = Suc (unat (i2s_slc_queue_len s))" by (simp add: unat_word_ariths)
  then show ?thesis using n assms(1)
    by (auto simp: i2s_queue_push_def slc_queue_ok_def slc_queue_def slc_rest_def take_Suc_conv_app_nth)
qed

interpretation slcq: buffer_queue slc_queue_ok slc_queue slc_rest 7 i2s_slc_queue_next_item i2s_queue_push
  using next_item_law queue_push_law by unfold_locales auto

section \<open>The ring\<close>

text \<open>
  What the DMA hardware does: its only enabled interrupt is the end of a buffer, and each one
  reports the descriptors in ring order, \<open>n\<close> counting the buffers finished.
\<close>

definition slc_dma :: "u32 \<Rightarrow> 'h soc \<Rightarrow> ('h \<Rightarrow> nat) \<Rightarrow> bool" where
  "slc_dma ldesc c n \<longleftrightarrow>
     (\<forall>h. fst (gp_read (soc_gpio c) SLCIS h) AND SLCIRXEOF \<noteq> 0) \<and>
     (\<forall>h. fst (gp_read (soc_gpio c) SLCRXEDA h) = ldesc + 12 * of_nat (n h mod 8)) \<and>
     (\<forall>h. n (snd (gp_read (soc_gpio c) SLCRXEDA h)) = Suc (n h)) \<and>
     (\<forall>r h. r \<noteq> SLCRXEDA \<longrightarrow> n (snd (gp_read (soc_gpio c) r h)) = n h) \<and>
     (\<forall>r v h. n (gp_write (soc_gpio c) r v h) = n h) \<and>
     (\<forall>k h. n (soc_do c k h) = n h)"

lemma slc_dmaD:
  assumes "slc_dma ldesc c n"
  shows "fst (gp_read (soc_gpio c) SLCIS h) AND SLCIRXEOF \<noteq> 0"
    and "fst (gp_read (soc_gpio c) SLCRXEDA h) = ldesc + 12 * of_nat (n h mod 8)"
    and "n (snd (gp_read (soc_gpio c) SLCRXEDA h)) = Suc (n h)"
    and "r \<noteq> SLCRXEDA \<Longrightarrow> n (snd (gp_read (soc_gpio c) r h)) = n h"
    and "n (gp_write (soc_gpio c) r v h) = n h"
    and "n (soc_do c k h) = n h"
  using assms by (auto simp: slc_dma_def)

text \<open>
  The \<open>k\<close>-th buffer of the ring is \<open>ms (k mod 8)\<close>.  After \<open>N\<close> buffers the queue holds the last
  ones finished, in order, and never the one the DMA is playing, the \<open>N\<close>-th.
\<close>

definition ring_buf :: "(nat \<Rightarrow> u32) \<Rightarrow> nat \<Rightarrow> u32" where
  "ring_buf ms k = ms (k mod 8)"

definition ring_ok :: "u32 \<Rightarrow> (nat \<Rightarrow> u32) \<Rightarrow> nat \<Rightarrow> ('h, 'm) i2s_scheme \<Rightarrow> bool" where
  "ring_ok ldesc ms N s \<longleftrightarrow>
     slc_queue_ok s \<and> length (slc_queue s) \<le> N \<and> slc_queue s = map (ring_buf ms) [N - length (slc_queue s)..<N] \<and>
     i2s_slc_items s = map (\<lambda>x. slc_item ldesc x (ms x)) [0..<8] \<and>
     (\<forall>k. \<exists>ws. slc_bufs s (ring_buf ms k) = Some ws \<and> length ws = 64) \<and>
     0 \<le> i2s_curr_slc_buf_pos s \<and> i2s_curr_slc_buf_pos s \<le> 64 \<and>
     (i2s_curr_slc_buf s = 0 \<or> (\<exists>k. i2s_curr_slc_buf s = ring_buf ms k))"

definition good_bufs :: "(nat \<Rightarrow> u32) \<Rightarrow> bool" where
  "good_bufs ms \<longleftrightarrow> inj_on ms {..<8} \<and> (\<forall>x<8. ms x \<noteq> 0)"

lemma ring_buf_inject: "good_bufs ms \<Longrightarrow> ring_buf ms j = ring_buf ms k \<longleftrightarrow> j mod 8 = k mod 8"
  by (auto simp: ring_buf_def good_bufs_def inj_on_eq_iff)

lemma ring_buf_near:
  assumes "good_bufs ms" "j \<le> k" "k < j + 8" "ring_buf ms j = ring_buf ms k"
  shows "j = k"
proof -
  have "k mod 8 = j mod 8" using assms(4) ring_buf_inject[OF assms(1)] by metis
  then have "8 dvd k - j" using mod_eq_dvd_iff_nat[OF assms(2)] by simp
  moreover have "k - j < 8" using assms(2,3) by linarith
  ultimately have "k - j = 0" using nat_dvd_not_less by blast
  then show ?thesis using assms(2) by simp
qed

lemma ring_buf_not_0: "good_bufs ms \<Longrightarrow> ring_buf ms k \<noteq> 0"
  by (simp add: ring_buf_def good_bufs_def)

lemma slc_item_at_ring:
  assumes "xs = map (\<lambda>x. slc_item ldesc x (ms x)) [0..<8]"
  shows "slc_item_at ldesc (ldesc + 12 * of_nat (k mod 8)) xs = Some (slc_item ldesc (k mod 8) (ring_buf ms k))"
proof -
  have "k mod 8 < 8" by simp
  then have "unat (12 * of_nat (k mod 8) :: u32) = 12 * (k mod 8)"
    by (simp add: unat_word_ariths unat_of_nat)
  then show ?thesis by (simp add: slc_item_at_def assms ring_buf_def Let_def)
qed

text \<open>What only touches the outside keeps the ring.\<close>

lemma slc_frames [simp]:
  "slc_queue (do_io f s) = slc_queue s" "slc_queue_ok (do_io f s) = slc_queue_ok s"
  "i2s_slc_items (do_io f s) = i2s_slc_items s" "slc_bufs (do_io f s) = slc_bufs s"
  "i2s_curr_slc_buf (do_io f s) = i2s_curr_slc_buf s" "i2s_curr_slc_buf_pos (do_io f s) = i2s_curr_slc_buf_pos s"
  "i2s_slc_queue_len (do_io f s) = i2s_slc_queue_len s"
  "slc_queue (s\<lparr>io := h\<rparr>) = slc_queue s" "slc_queue_ok (s\<lparr>io := h\<rparr>) = slc_queue_ok s"
  "slc_queue (s\<lparr>slc_bufs := b\<rparr>) = slc_queue s" "slc_queue_ok (s\<lparr>slc_bufs := b\<rparr>) = slc_queue_ok s"
  "slc_queue (s\<lparr>i2s_curr_slc_buf := p\<rparr>) = slc_queue s" "slc_queue_ok (s\<lparr>i2s_curr_slc_buf := p\<rparr>) = slc_queue_ok s"
  "slc_queue (s\<lparr>i2s_curr_slc_buf_pos := i\<rparr>) = slc_queue s" "slc_queue_ok (s\<lparr>i2s_curr_slc_buf_pos := i\<rparr>) = slc_queue_ok s"
  by (simp_all add: do_io_def slc_queue_def slc_queue_ok_def)

lemma slc_restD:
  assumes "slc_rest s' = slc_rest s"
  shows "i2s_slc_items s' = i2s_slc_items s" "slc_bufs s' = slc_bufs s" "i2s_curr_slc_buf s' = i2s_curr_slc_buf s"
    "i2s_curr_slc_buf_pos s' = i2s_curr_slc_buf_pos s" "io s' = io s" "i2s.more s' = i2s.more s"
  using assms[THEN arg_cong, of i2s_slc_items] assms[THEN arg_cong, of slc_bufs]
    assms[THEN arg_cong, of i2s_curr_slc_buf] assms[THEN arg_cong, of i2s_curr_slc_buf_pos]
    assms[THEN arg_cong, of io] assms[THEN arg_cong, of i2s.more]
  by (simp_all add: slc_rest_def)

lemma ring_room: "ring_ok ldesc ms N s \<Longrightarrow> length (slc_queue s) \<le> 7"
  by (simp add: ring_ok_def slc_queue_length) (simp add: slc_queue_ok_def)

text \<open>Writing a queue back: the ring moves on by one buffer.\<close>

lemma ring_ok_push:
  assumes ring: "ring_ok ldesc ms N s" and rest: "slc_rest s' = slc_rest s" "slc_queue_ok s'"
    and q: "slc_queue s' = drop (Suc (length (slc_queue s)) - 7) (slc_queue s) @ [ring_buf ms N]"
  shows "ring_ok ldesc ms (Suc N) s'"
proof -
  have le: "length (slc_queue s) \<le> N" and eq: "slc_queue s = map (ring_buf ms) [N - length (slc_queue s)..<N]"
    using ring by (simp_all add: ring_ok_def)
  let ?l = "length (slc_queue s)" and ?d = "Suc (length (slc_queue s)) - 7"
  have l7: "?l \<le> 7" using ring by (rule ring_room)
  have "slc_queue s' = map (ring_buf ms) ([N - ?l + ?d..<N] @ [N])" by (subst q, subst eq) (simp add: drop_map)
  moreover have "length (slc_queue s') = Suc ?l - ?d" using l7 by (simp add: q)
  moreover have "N - ?l + ?d = Suc N - (Suc ?l - ?d)" using le l7 by simp
  ultimately have "slc_queue s' = map (ring_buf ms) [Suc N - length (slc_queue s')..<Suc N]" "length (slc_queue s') \<le> Suc N"
    using le by (simp_all)
  then show ?thesis using ring slc_restD[OF rest(1)] rest(2) by (simp add: ring_ok_def)
qed

text \<open>One interrupt: the buffer just played is silenced and queued, the oldest dropped if all were empty.\<close>

lemma i2s_slc_isr_ring:
  assumes dma: "slc_dma ldesc c n" and ring: "ring_ok ldesc ms (n (io s)) s"
  shows "\<exists>s'. i2s_slc_isr ldesc c s = Some s' \<and> ring_ok ldesc ms (n (io s')) s' \<and> n (io s') = Suc (n (io s)) \<and>
           length (slc_queue s') = min 7 (Suc (length (slc_queue s))) \<and>
           slc_bufs s' = (slc_bufs s)(ring_buf ms (n (io s)) \<mapsto> replicate 64 0) \<and>
           i2s_curr_slc_buf s' = i2s_curr_slc_buf s \<and> i2s_curr_slc_buf_pos s' = i2s_curr_slc_buf_pos s \<and>
           i2s.more s' = i2s.more s"
proof -
  note D = slc_dmaD[OF dma]
  let ?N = "n (io s)"
  let ?p = "ring_buf ms ?N"
  obtain st h1 where r1: "gp_read (soc_gpio c) SLCIS (io s) = (st, h1)" by fastforce
  have st: "st AND SLCIRXEOF \<noteq> 0" "n h1 = ?N" using D(1)[of "io s"] D(4)[of SLCIS "io s"] r1 by simp_all
  define h2 where "h2 = soc_do c Slc_disable (gp_write (soc_gpio c) SLCIC 0xFFFFFFFF h1)"
  have n2: "n h2 = ?N" using D(5,6) st by (simp add: h2_def)
  obtain a h3 where r2: "gp_read (soc_gpio c) SLCRXEDA h2 = (a, h3)" by fastforce
  have a: "a = ldesc + 12 * of_nat (?N mod 8)" "n h3 = Suc ?N" using D(2)[of h2] D(3)[of h2] r2 n2 by simp_all
  obtain ws where ws: "slc_bufs s ?p = Some ws" "length ws = 64" using ring unfolding ring_ok_def by blast
  let ?z = "s\<lparr>io := h3, slc_bufs := (slc_bufs s)(?p \<mapsto> replicate 64 0)\<rparr>"
  have zero: "slc_zero ?p (s\<lparr>io := h3\<rparr>) = Some ?z" using ws by (simp add: slc_zero_def SLC_BUF_LEN_def)
  have q: "slc_queue_ok ?z" "slc_queue ?z = slc_queue s" using ring by (simp_all add: ring_ok_def slc_queue_def slc_queue_ok_def)
  have len: "length (slc_queue s) = unat (i2s_slc_queue_len s)" using ring by (simp add: ring_ok_def slc_queue_length)
  have l7: "length (slc_queue s) \<le> 7" using ring by (rule ring_room)
  have ringz: "ring_ok ldesc ms ?N ?z" using ring ws q unfolding ring_ok_def by (auto split: if_splits)
  obtain t where t: "Option.bind (if 7 \<le> length (slc_queue ?z) then map_option snd (i2s_slc_queue_next_item ?z) else Some ?z)
      (i2s_queue_push ?p) = Some t" "slc_queue_ok t"
      "slc_queue t = drop (Suc (length (slc_queue ?z)) - 7) (slc_queue ?z) @ [?p]" "slc_rest t = slc_rest ?z"
    using slcq.push_over[OF q(1), of ?p] l7 q(2) by auto
  have items: "slc_item_at ldesc a (i2s_slc_items s) = Some (slc_item ldesc (?N mod 8) ?p)"
    using ring slc_item_at_ring by (simp add: ring_ok_def a)
  have cond: "of_nat (SLC_BUF_CNT - 1) \<le> i2s_slc_queue_len s \<longleftrightarrow> 7 \<le> length (slc_queue ?z)"
    by (simp add: q(2) len SLC_BUF_CNT_def word_le_nat_alt)
  obtain u where u: "(if of_nat (SLC_BUF_CNT - 1) \<le> i2s_slc_queue_len ?z then map_option snd (i2s_slc_queue_next_item ?z)
      else Some ?z) = Some u" "i2s_queue_push ?p u = Some t"
    using t(1) cond by (auto simp: bind_eq_Some_conv split: if_splits)
  have "i2s_slc_isr ldesc c s = Some (call_soc c Slc_enable t)"
    using st(1) r1 r2 zero u items
    by (simp add: i2s_slc_isr_def soc_defs h2_def slc_item_def del: of_nat_diff One_nat_def)
  moreover have "ring_ok ldesc ms (Suc ?N) t"
    using ring_ok_push[OF ringz t(4,2)] t(3) by simp
  then have "ring_ok ldesc ms (Suc ?N) (call_soc c Slc_enable t)" by (simp add: ring_ok_def call_soc_def)
  moreover have "n (io (call_soc c Slc_enable t)) = Suc ?N"
    using D(6) a(2) slc_restD[OF t(4)] by (simp add: call_soc_def do_io_def)
  ultimately show ?thesis using slc_restD[OF t(4)] l7 t(3) q(2)
    by (auto simp: call_soc_def) (auto simp: do_io_def)
qed

section \<open>The writer among interrupts\<close>

text \<open>
  The interrupts of one window: \<open>arrivals\<close> says how many, \<open>fin\<close> is what an observer notes as
  each buffer ends, before the handler runs.
\<close>

primrec isr_times ::
  "u32 \<Rightarrow> 'h soc \<Rightarrow> (('h, 'm) i2s_scheme \<Rightarrow> ('h, 'm) i2s_scheme) \<Rightarrow> nat \<Rightarrow> ('h, 'm) i2s_scheme \<Rightarrow>
   ('h, 'm) i2s_scheme option" where
  "isr_times ldesc c fin 0 s = Some s"
| "isr_times ldesc c fin (Suc k) s = Option.bind (i2s_slc_isr ldesc c (fin s)) (isr_times ldesc c fin k)"

definition slc_irqs ::
  "u32 \<Rightarrow> 'h soc \<Rightarrow> (('h, 'm) i2s_scheme \<Rightarrow> ('h, 'm) i2s_scheme) \<Rightarrow> (('h, 'm) i2s_scheme \<Rightarrow> nat) \<Rightarrow>
   ('h, 'm) i2s_scheme \<Rightarrow> ('h, 'm) i2s_scheme option" where
  "slc_irqs ldesc c fin arrivals s = isr_times ldesc c fin (arrivals s) s"

text \<open>A state before the first \<open>i2s_slc_begin\<close>, and everything reachable from it.\<close>

definition i2s_fresh :: "('h \<Rightarrow> nat) \<Rightarrow> ('h, 'm) i2s_scheme \<Rightarrow> bool" where
  "i2s_fresh n s \<longleftrightarrow> length (i2s_slc_queue s) = 7 \<and> length (i2s_slc_buf_pntr s) = 8 \<and> length (i2s_slc_items s) = 8 \<and>
     i2s_curr_slc_buf s = 0 \<and> i2s_curr_slc_buf_pos s = 0 \<and> n (io s) = 0"

inductive i2s_run ::
  "u32 \<Rightarrow> 'h soc \<Rightarrow> (('h, 'm) i2s_scheme \<Rightarrow> ('h, 'm) i2s_scheme option) \<Rightarrow> (nat \<Rightarrow> u32) \<Rightarrow>
   ('h, 'm) i2s_scheme \<Rightarrow> ('h, 'm) i2s_scheme \<Rightarrow> u32 list \<Rightarrow> bool"
  for ldesc c irq ms s0 where
  start: "i2s_slc_begin ldesc c ms s0 = Some s \<Longrightarrow> i2s_run ldesc c irq ms s0 s []"
| idle: "i2s_run ldesc c irq ms s0 s w \<Longrightarrow> irq s = Some s' \<Longrightarrow> i2s_run ldesc c irq ms s0 s' w"
| blocking: "i2s_run ldesc c irq ms s0 s w \<Longrightarrow> i2s_write_sample c irq x s = Some (b, s') \<Longrightarrow>
    i2s_run ldesc c irq ms s0 s' (w @ [x])"
| nonblocking: "i2s_run ldesc c irq ms s0 s w \<Longrightarrow> i2s_write_sample_nb c irq x s = Some (b, s') \<Longrightarrow>
    i2s_run ldesc c irq ms s0 s' (if b then w @ [x] else w)"

text \<open>
  An invariant of the writer: kept by interrupts, by taking a buffer and by storing a sample.  The
  writer's operations are built from these steps, so any such invariant holds of every run.
\<close>

locale i2s_writer =
  fixes ldesc :: u32 and c :: "'h soc" and irq :: "('h, 'm) i2s_scheme \<Rightarrow> ('h, 'm) i2s_scheme option"
    and Q :: "u32 list \<Rightarrow> ('h, 'm) i2s_scheme \<Rightarrow> bool"
  assumes keep_irq: "Q w s \<Longrightarrow> irq s = Some s' \<Longrightarrow> Q w s' \<and> i2s_needs_buf s' = i2s_needs_buf s"
    and keep_io: "Q w s \<Longrightarrow> Q w (call_soc c k s)"
    and keep_take: "Q w s \<Longrightarrow> i2s_needs_buf s \<Longrightarrow> i2s_take c s = Some s' \<Longrightarrow> Q w s' \<and> \<not> i2s_needs_buf s'"
    and keep_store: "Q w s \<Longrightarrow> \<not> i2s_needs_buf s \<Longrightarrow> i2s_store x s = Some s' \<Longrightarrow> Q (w @ [x]) s'"
begin

lemma keep_wait:
  assumes "i2s_wait c irq s = Some s'" "Q w s"
  shows "Q w s' \<and> i2s_needs_buf s' = i2s_needs_buf s"
proof -
  have "c = c \<longrightarrow> irq = irq \<longrightarrow> Q w s \<longrightarrow> Q w s' \<and> i2s_needs_buf s' = i2s_needs_buf s"
  proof (rule i2s_wait.raw_induct [of "\<lambda>c' irq' s s'. c' = c \<longrightarrow> irq' = irq \<longrightarrow> Q w s \<longrightarrow>
        Q w s' \<and> i2s_needs_buf s' = i2s_needs_buf s", OF _ assms(1)], intro impI)
    fix wait c' irq' s s'
    assume IH: "\<And>c' irq' s s'. wait c' irq' s = Some s' \<Longrightarrow> c' = c \<longrightarrow> irq' = irq \<longrightarrow> Q w s \<longrightarrow>
        Q w s' \<and> i2s_needs_buf s' = i2s_needs_buf s"
      and body: "(if i2s_slc_queue_len s > 0 then Some s else Option.bind
          (irq' (call_soc c' Ets_wdt_enable (call_soc c' Ets_wdt_disable s))) (wait c' irq')) = Some s'"
      and eqs: "c' = c" "irq' = irq" and Q: "Q w s"
    show "Q w s' \<and> i2s_needs_buf s' = i2s_needs_buf s"
    proof (cases "i2s_slc_queue_len s > 0")
      case False
      let ?s = "call_soc c Ets_wdt_enable (call_soc c Ets_wdt_disable s)"
      obtain t where t: "irq ?s = Some t" "wait c irq t = Some s'" using False body eqs by (auto simp: bind_eq_Some_conv)
      have "Q w t \<and> i2s_needs_buf t = i2s_needs_buf ?s" using keep_irq[OF _ t(1)] keep_io[OF keep_io[OF Q]] by blast
      then show ?thesis using IH[OF t(2)] by (simp add: i2s_needs_buf_def call_soc_def)
    qed (use body Q in simp)
  qed
  then show ?thesis using assms(2) by simp
qed

lemma keep_write:
  assumes "Q w s" "i2s_write_sample c irq x s = Some (b, s')"
  shows "Q (w @ [x]) s'"
proof (cases "i2s_needs_buf s")
  case True
  then obtain s1 s2 s3 s4 s5 where steps: "irq s = Some s1" "i2s_wait c irq s1 = Some s2" "irq s2 = Some s3"
      "i2s_take c s3 = Some s4" "irq s4 = Some s5" "i2s_store x s5 = Some s'"
    using assms(2) by (auto simp: i2s_write_sample_def bind_eq_Some_conv)
  have "Q w s3" "i2s_needs_buf s3"
    using keep_irq[OF assms(1) steps(1)] keep_wait[OF steps(2), of w] keep_irq[OF _ steps(3), of w] True by auto
  then show ?thesis using keep_take[OF _ _ steps(4), of w] keep_irq[OF _ steps(5), of w] keep_store[OF _ _ steps(6), of w] by auto
next
  case False
  then show ?thesis using assms keep_store by (auto simp: i2s_write_sample_def bind_eq_Some_conv)
qed

lemma keep_write_nb:
  assumes "Q w s" "i2s_write_sample_nb c irq x s = Some (b, s')"
  shows "Q (if b then w @ [x] else w) s'"
proof (cases "i2s_needs_buf s")
  case True
  then obtain s1 where s1: "irq s = Some s1" using assms(2) by (auto simp: i2s_write_sample_nb_def bind_eq_Some_conv)
  have Q1: "Q w s1" "i2s_needs_buf s1" using keep_irq[OF assms(1) s1] True by auto
  show ?thesis
  proof (cases "i2s_slc_queue_len s1 = 0")
    case True
    then show ?thesis using assms(2) s1 Q1 \<open>i2s_needs_buf s\<close> by (auto simp: i2s_write_sample_nb_def)
  next
    case False
    then obtain s3 s4 s5 where steps: "irq s1 = Some s3" "i2s_take c s3 = Some s4" "irq s4 = Some s5" "i2s_store x s5 = Some s'" "b"
      using assms(2) s1 True by (auto simp: i2s_write_sample_nb_def bind_eq_Some_conv)
    then show ?thesis
      using keep_irq[OF Q1(1) steps(1)] Q1(2) keep_take[OF _ _ steps(2), of w] keep_irq[OF _ steps(3), of w] keep_store[OF _ _ steps(4), of w] by auto
  qed
next
  case False
  then show ?thesis using assms keep_store by (auto simp: i2s_write_sample_nb_def)
qed

lemma run_keeps:
  assumes "i2s_run ldesc c irq ms s0 s w" "\<And>s. i2s_slc_begin ldesc c ms s0 = Some s \<Longrightarrow> Q [] s"
  shows "Q w s"
  using assms(1)
proof (induction rule: i2s_run.induct)
  case (start s)
  then show ?case using assms(2) by blast
next
  case (idle s w s')
  then show ?case using keep_irq by blast
next
  case (blocking s w x b s')
  then show ?case using keep_write by blast
next
  case (nonblocking s w x b s')
  then show ?case using keep_write_nb by blast
qed

end

text \<open>A writer whose steps also return.\<close>

locale i2s_live_writer = i2s_writer ldesc c irq Q
  for ldesc :: u32 and c :: "'h soc" and irq :: "('h, 'm) i2s_scheme \<Rightarrow> ('h, 'm) i2s_scheme option"
    and Q :: "u32 list \<Rightarrow> ('h, 'm) i2s_scheme \<Rightarrow> bool" +
  assumes irq_returns: "Q w s \<Longrightarrow> \<exists>s'. irq s = Some s' \<and> (i2s_slc_queue_len s \<noteq> 0 \<longrightarrow> i2s_slc_queue_len s' \<noteq> 0)"
    and take_returns: "Q w s \<Longrightarrow> i2s_slc_queue_len s \<noteq> 0 \<Longrightarrow> \<exists>s'. i2s_take c s = Some s'"
    and store_returns: "Q w s \<Longrightarrow> \<not> i2s_needs_buf s \<Longrightarrow> \<exists>s'. i2s_store x s = Some s'"
begin

text \<open>With a buffer in the queue, a writer that needs one gets it and stores its sample.\<close>

lemma fetch_returns:
  assumes Q: "Q w s" and need: "i2s_needs_buf s" and ne: "i2s_slc_queue_len s \<noteq> 0"
  shows "\<exists>s2 s3 s4 s5. irq s = Some s2 \<and> i2s_take c s2 = Some s3 \<and> irq s3 = Some s4 \<and> i2s_store x s4 = Some s5"
proof -
  obtain s2 where s2: "irq s = Some s2" "i2s_slc_queue_len s2 \<noteq> 0" using irq_returns[OF Q] ne by auto
  have Q2: "Q w s2" "i2s_needs_buf s2" using keep_irq[OF Q s2(1)] need by simp_all
  obtain s3 where s3: "i2s_take c s2 = Some s3" using take_returns[OF Q2(1) s2(2)] by auto
  have Q3: "Q w s3" "\<not> i2s_needs_buf s3" using keep_take[OF Q2 s3] by simp_all
  obtain s4 where s4: "irq s3 = Some s4" using irq_returns[OF Q3(1)] by auto
  have Q4: "Q w s4" "\<not> i2s_needs_buf s4" using keep_irq[OF Q3(1) s4] Q3(2) by simp_all
  obtain s5 where "i2s_store x s4 = Some s5" using store_returns[OF Q4] by blast
  then show ?thesis using s2(1) s3 s4 by simp
qed

lemma nb_returns:
  assumes "Q w s"
  shows "\<exists>b s'. i2s_write_sample_nb c irq x s = Some (b, s') \<and> (\<not> b \<longrightarrow> i2s_is_full s')"
proof (cases "i2s_needs_buf s")
  case True
  obtain s1 where s1: "irq s = Some s1" using irq_returns[OF assms] by blast
  then have Q1: "Q w s1" "i2s_needs_buf s1" using keep_irq[OF assms] True by auto
  show ?thesis
  proof (cases "i2s_slc_queue_len s1 = 0")
    case True
    then show ?thesis using s1 Q1 \<open>i2s_needs_buf s\<close>
      by (auto simp: i2s_write_sample_nb_def i2s_is_full_def i2s_needs_buf_def)
  next
    case False
    obtain s2 s3 s4 s5 where "irq s1 = Some s2" "i2s_take c s2 = Some s3" "irq s3 = Some s4" "i2s_store x s4 = Some s5"
      using fetch_returns[OF Q1 False] by blast
    then show ?thesis using s1 False True by (intro exI[of _ True] exI[of _ s5]) (simp add: i2s_write_sample_nb_def)
  qed
next
  case False
  obtain s' where "i2s_store x s = Some s'" using store_returns[OF assms False] by blast
  then show ?thesis using False by (intro exI[of _ True] exI[of _ s']) (simp add: i2s_write_sample_nb_def)
qed

lemma wait_returns:
  assumes Q: "Q w s"
    and live: "\<forall>s s'. Q w s \<longrightarrow> i2s_slc_queue_len s = 0 \<longrightarrow> irq s = Some s' \<longrightarrow> i2s_slc_queue_len s' \<noteq> 0"
  shows "\<exists>s'. i2s_wait c irq s = Some s' \<and> i2s_slc_queue_len s' \<noteq> 0"
proof (cases "i2s_slc_queue_len s = 0")
  case True
  let ?s = "call_soc c Ets_wdt_enable (call_soc c Ets_wdt_disable s)"
  have Qs: "Q w ?s" by (intro keep_io Q)
  obtain t where t: "irq ?s = Some t" using irq_returns[OF Qs] by blast
  have "i2s_slc_queue_len ?s = 0" using True by (simp add: call_soc_def)
  then have ne: "i2s_slc_queue_len t \<noteq> 0" using live Qs t by blast
  then have "i2s_wait c irq t = Some t" by (subst i2s_wait.simps) (simp add: word_gt_0)
  then show ?thesis using t True ne by (subst i2s_wait.simps) simp
next
  case False
  then show ?thesis by (subst i2s_wait.simps) (simp add: word_gt_0)
qed

lemma blocking_returns:
  assumes Q: "Q w s"
    and live: "\<forall>s s'. Q w s \<longrightarrow> i2s_slc_queue_len s = 0 \<longrightarrow> irq s = Some s' \<longrightarrow> i2s_slc_queue_len s' \<noteq> 0"
  shows "\<exists>s'. i2s_write_sample c irq x s = Some (True, s')"
proof (cases "i2s_needs_buf s")
  case True
  obtain s1 where s1: "irq s = Some s1" using irq_returns[OF Q] by blast
  then have Q1: "Q w s1" "i2s_needs_buf s1" using keep_irq[OF Q] True by auto
  obtain s2 where s2: "i2s_wait c irq s1 = Some s2" "i2s_slc_queue_len s2 \<noteq> 0" using wait_returns[OF Q1(1) live] by blast
  have Q2: "Q w s2" "i2s_needs_buf s2" using keep_wait[OF s2(1) Q1(1)] Q1(2) by auto
  obtain s3 s4 s5 s6 where "irq s2 = Some s3" "i2s_take c s3 = Some s4" "irq s4 = Some s5" "i2s_store x s5 = Some s6"
    using fetch_returns[OF Q2 s2(2)] by blast
  then show ?thesis using True s1 s2 by (simp add: i2s_write_sample_def)
next
  case False
  obtain s' where "i2s_store x s = Some s'" using store_returns[OF Q False] by blast
  then show ?thesis using False by (simp add: i2s_write_sample_def)
qed

end

section \<open>Safety of the ring\<close>

lemma shift_queue_outside: "i < length q \<Longrightarrow> length q \<le> n \<Longrightarrow> shift_queue n i q = None"
proof (induction n i q rule: shift_queue.induct)
  case (1 n i q)
  then show ?case by (subst shift_queue.simps) auto
qed

lemma i2s_take_empty:
  assumes "slc_queue_ok s" "slc_queue s = []"
  shows "i2s_take c s = None"
proof -
  have "length (i2s_slc_queue s) = 7" "i2s_slc_queue_len s = 0"
    using assms by (auto simp: slc_queue_ok_def slc_queue_def unat_eq_0)
  moreover have "unat (- 1 :: u8) = 255" by (simp add: unsigned_minus_1_eq_mask mask_eq_exp_minus_1)
  ultimately show ?thesis using shift_queue_outside[of 0 "i2s_slc_queue s" 255]
    by (simp add: i2s_take_def i2s_slc_queue_next_item_def call_soc_def do_io_def Let_def)
qed

lemma i2s_take_ring:
  assumes dma: "slc_dma ldesc c n" and ring: "ring_ok ldesc ms (n (io s)) s" and ne: "slc_queue s \<noteq> []"
  shows "\<exists>s'. i2s_take c s = Some s' \<and> ring_ok ldesc ms (n (io s')) s' \<and> n (io s') = n (io s) \<and>
           length (slc_queue s') = length (slc_queue s) - 1 \<and>
           i2s_curr_slc_buf s' = ring_buf ms (n (io s) - length (slc_queue s)) \<and> i2s_curr_slc_buf_pos s' = 0 \<and>
           slc_bufs s' = slc_bufs s \<and> i2s.more s' = i2s.more s"
proof -
  let ?N = "n (io s)" and ?l = "length (slc_queue s)" and ?s = "call_soc c Slc_disable s"
  have le: "?l \<le> ?N" and q: "slc_queue s = map (ring_buf ms) [?N - ?l..<?N]" using ring by (simp_all add: ring_ok_def)
  have "length (slc_queue s) > 0" using ne by blast
  then have "[?N - ?l..<?N] = (?N - ?l) # [Suc (?N - ?l)..<?N]" "Suc (?N - ?l) = ?N - (?l - 1)"
    using le by (simp_all add: upt_conv_Cons del: length_greater_0_conv)
  then have "slc_queue ?s = ring_buf ms (?N - ?l) # map (ring_buf ms) [?N - (?l - 1)..<?N]"
    using q by (simp add: call_soc_def)
  moreover have "slc_queue_ok ?s" using ring by (simp add: ring_ok_def call_soc_def)
  ultimately obtain t where t: "i2s_slc_queue_next_item ?s = Some (ring_buf ms (?N - ?l), t)" "slc_queue_ok t"
      "slc_queue t = map (ring_buf ms) [?N - (?l - 1)..<?N]" "slc_rest t = slc_rest ?s"
    using next_item_law by blast
  let ?r = "(call_soc c Slc_enable (t\<lparr>i2s_curr_slc_buf := ring_buf ms (?N - ?l)\<rparr>))\<lparr>i2s_curr_slc_buf_pos := 0\<rparr>"
  note R = slc_restD[OF t(4)]
  have take: "i2s_take c s = Some ?r" by (simp add: i2s_take_def t(1))
  have N: "n (io ?r) = ?N" using slc_dmaD(6)[OF dma] R(5) by (simp add: call_soc_def do_io_def)
  have "ring_ok ldesc ms ?N ?r" using ring t(2,3) R le by (auto simp: ring_ok_def call_soc_def)
  then have "ring_ok ldesc ms (n (io ?r)) ?r" using N by simp
  moreover have "length (slc_queue ?r) = ?l - 1" using t(3) le by (simp add: call_soc_def)
  moreover have "i2s.more ?r = i2s.more s" using R(6) by (simp add: call_soc_def do_io_def)
  moreover have "slc_bufs ?r = slc_bufs s" using R(2) by (simp add: call_soc_def)
  moreover have "i2s_curr_slc_buf ?r = ring_buf ms (?N - ?l)" by (simp add: call_soc_def)
  ultimately show ?thesis using take N by auto
qed

lemma i2s_store_ring:
  assumes ring: "ring_ok ldesc ms N s" and good: "good_bufs ms" and "\<not> i2s_needs_buf s"
  shows "\<exists>s' ws. i2s_store x s = Some s' \<and> ring_ok ldesc ms N s' \<and> slc_bufs s (i2s_curr_slc_buf s) = Some ws \<and>
           slc_bufs s' = (slc_bufs s)(i2s_curr_slc_buf s \<mapsto> ws[nat (i2s_curr_slc_buf_pos s) := x]) \<and>
           i2s_curr_slc_buf s' = i2s_curr_slc_buf s \<and> i2s_curr_slc_buf_pos s' = i2s_curr_slc_buf_pos s + 1 \<and>
           slc_queue s' = slc_queue s \<and> io s' = io s \<and> i2s.more s' = i2s.more s"
proof -
  have nb: "i2s_curr_slc_buf s \<noteq> 0" "i2s_curr_slc_buf_pos s \<noteq> 64"
    using assms(3) by (auto simp: i2s_needs_buf_def SLC_BUF_LEN_def)
  then obtain k where k: "i2s_curr_slc_buf s = ring_buf ms k" using ring by (auto simp: ring_ok_def)
  obtain ws where ws: "slc_bufs s (ring_buf ms k) = Some ws" "length ws = 64" using ring unfolding ring_ok_def by blast
  have pos: "0 \<le> i2s_curr_slc_buf_pos s" "i2s_curr_slc_buf_pos s < 64" using ring nb by (auto simp: ring_ok_def)
  let ?s = "s\<lparr>slc_bufs := (slc_bufs s)(ring_buf ms k \<mapsto> ws[nat (i2s_curr_slc_buf_pos s) := x]),
      i2s_curr_slc_buf_pos := i2s_curr_slc_buf_pos s + 1\<rparr>"
  have "i2s_store x s = Some ?s" using ws pos by (simp add: i2s_store_def k Let_def)
  moreover have "ring_ok ldesc ms N ?s"
    using ring ws pos unfolding ring_ok_def by (auto simp: slc_queue_def slc_queue_ok_def split: if_splits)
  ultimately show ?thesis using ws k by (auto simp: slc_queue_def)
qed

lemma isr_times_ring:
  assumes dma: "slc_dma ldesc c n"
  shows "ring_ok ldesc ms (n (io s)) s \<Longrightarrow>
    \<exists>s'. isr_times ldesc c (\<lambda>s. s) k s = Some s' \<and> ring_ok ldesc ms (n (io s')) s' \<and> n (io s') = n (io s) + k \<and>
         length (slc_queue s') = min 7 (k + length (slc_queue s)) \<and>
         i2s_curr_slc_buf s' = i2s_curr_slc_buf s \<and> i2s_curr_slc_buf_pos s' = i2s_curr_slc_buf_pos s"
proof (induction k arbitrary: s)
  case 0
  then show ?case using ring_room by fastforce
next
  case (Suc k)
  obtain t where t: "i2s_slc_isr ldesc c s = Some t" "ring_ok ldesc ms (n (io t)) t" "n (io t) = Suc (n (io s))"
      "length (slc_queue t) = min 7 (Suc (length (slc_queue s)))" "i2s_curr_slc_buf t = i2s_curr_slc_buf s"
      "i2s_curr_slc_buf_pos t = i2s_curr_slc_buf_pos s"
    using i2s_slc_isr_ring[OF dma Suc.prems] by blast
  show ?case using Suc.IH[OF t(2)] t by auto
qed

definition ring_inv ::
  "u32 \<Rightarrow> 'h soc \<Rightarrow> ('h \<Rightarrow> nat) \<Rightarrow> (nat \<Rightarrow> u32) \<Rightarrow> ('h, 'm) i2s_scheme \<Rightarrow> bool" where
  "ring_inv ldesc c n ms s \<longleftrightarrow> slc_dma ldesc c n \<and> good_bufs ms \<and> ring_ok ldesc ms (n (io s)) s"

interpretation ring_run: i2s_writer ldesc c "slc_irqs ldesc c (\<lambda>s. s) arrivals" "\<lambda>w. ring_inv ldesc c n ms"
  for ldesc c arrivals n ms
proof
  fix s s' :: "('a, 'b) i2s_scheme" and w :: "u32 list" and x k
  assume I: "ring_inv ldesc c n ms s"
  then have I': "slc_dma ldesc c n" "good_bufs ms" "ring_ok ldesc ms (n (io s)) s" by (simp_all add: ring_inv_def)
  show "ring_inv ldesc c n ms s' \<and> i2s_needs_buf s' = i2s_needs_buf s" if "slc_irqs ldesc c (\<lambda>s. s) arrivals s = Some s'"
    using isr_times_ring[OF I'(1,3), of "arrivals s"] that I' by (auto simp: ring_inv_def slc_irqs_def i2s_needs_buf_def)
  show "ring_inv ldesc c n ms (call_soc c k s)"
    using I' slc_dmaD(6)[OF I'(1)] by (simp add: ring_inv_def ring_ok_def call_soc_def) (simp add: do_io_def)
  show "ring_inv ldesc c n ms s' \<and> \<not> i2s_needs_buf s'" if "i2s_take c s = Some s'"
  proof -
    have "slc_queue s \<noteq> []" using i2s_take_empty[of s c] I'(3) that by (auto simp: ring_ok_def)
    then show ?thesis using i2s_take_ring[OF I'(1,3)] that I' ring_buf_not_0
      by (auto simp: ring_inv_def i2s_needs_buf_def SLC_BUF_LEN_def)
  qed
  show "ring_inv ldesc c n ms s'" if "\<not> i2s_needs_buf s" "i2s_store x s = Some s'"
    using i2s_store_ring[OF I'(3,2) that(1), of x] that(2) I' by (auto simp: ring_inv_def)
qed

lemma slc_alloc_spec:
  assumes "x \<le> 8" "length (i2s_slc_buf_pntr s) = 8" "length (i2s_slc_items s) = 8"
    and "\<And>y. y < 8 \<Longrightarrow> ms y \<noteq> 0"
    and "\<And>y. y < x \<Longrightarrow> i2s_slc_items s ! y = slc_item ldesc y (ms y) \<and> slc_bufs s (ms y) = Some (replicate 64 0)"
  shows "\<exists>s'. slc_alloc ldesc ms x s = Some s' \<and> i2s_slc_items s' = map (\<lambda>x. slc_item ldesc x (ms x)) [0..<8] \<and>
           (\<forall>y<8. slc_bufs s' (ms y) = Some (replicate 64 0)) \<and> i2s_slc_queue s' = i2s_slc_queue s \<and>
           i2s_slc_queue_len s' = i2s_slc_queue_len s \<and> i2s_curr_slc_buf s' = i2s_curr_slc_buf s \<and>
           i2s_curr_slc_buf_pos s' = i2s_curr_slc_buf_pos s \<and> io s' = io s \<and> i2s.more s' = i2s.more s"
  using assms
proof (induction ldesc ms x s rule: slc_alloc.induct)
  case (1 ldesc ms x s)
  show ?case
  proof (cases "x < 8")
    case True
    let ?s = "s\<lparr>i2s_slc_buf_pntr := (i2s_slc_buf_pntr s)[x := ms x],
                 slc_bufs := (slc_bufs s)(ms x \<mapsto> replicate SLC_BUF_LEN 0),
                 i2s_slc_items := (i2s_slc_items s)[x := slc_item ldesc x (ms x)]\<rparr>"
    have step: "slc_alloc ldesc ms x s = slc_alloc ldesc ms (x + 1) ?s"
      using True 1(3,4) 1(5)[of x] by (subst slc_alloc.simps) (simp add: SLC_BUF_CNT_def)
    have filled: "i2s_slc_items ?s ! y = slc_item ldesc y (ms y) \<and> slc_bufs ?s (ms y) = Some (replicate 64 0)" if "y < x + 1" for y
    proof (cases "y = x")
      case False
      then have "y < x" using that by simp
      then show ?thesis using 1(6)[of y] False by (simp add: SLC_BUF_LEN_def)
    qed (use 1(4) True in \<open>simp add: SLC_BUF_LEN_def\<close>)
    show ?thesis
      using 1(1)[OF _ _ _ _ _ _ filled] True 1(3-5) by (simp add: step SLC_BUF_CNT_def)
  next
    case False
    then have "x = 8" using 1(2) by simp
    moreover have "i2s_slc_items s = map (\<lambda>x. slc_item ldesc x (ms x)) [0..<8]"
      using 1(4,6) \<open>x = 8\<close> by (intro nth_equalityI) auto
    ultimately show ?thesis using 1(6) by (subst slc_alloc.simps) (auto simp: SLC_BUF_CNT_def)
  qed
qed

lemma slc_setup_io: "slc_setup ldesc c s = s\<lparr>io := io (slc_setup ldesc c s)\<rparr>"
  by (simp add: slc_setup_def soc_defs Let_def)

lemma slc_setup_keeps:
  assumes "slc_dma ldesc c n"
  shows "n (io (slc_setup ldesc c s)) = n (io s)"
  using slc_dmaD[OF assms] by (simp add: slc_setup_def soc_defs gp_or_def gp_and_def Let_def split_beta)

lemma i2s_begin_ring:
  assumes dma: "slc_dma ldesc c n" and good: "good_bufs ms" and fresh: "i2s_fresh n s0"
  shows "\<exists>s. i2s_slc_begin ldesc c ms s0 = Some s \<and> ring_ok ldesc ms 0 s \<and> n (io s) = 0 \<and> i2s_curr_slc_buf s = 0 \<and>
           i2s_curr_slc_buf_pos s = 0 \<and> slc_queue s = [] \<and> (\<forall>k. slc_bufs s (ring_buf ms k) = Some (replicate 64 0)) \<and>
           i2s.more s = i2s.more s0"
proof -
  obtain t where t: "slc_alloc ldesc ms 0 (s0\<lparr>i2s_slc_queue_len := 0\<rparr>) = Some t"
      "i2s_slc_items t = map (\<lambda>x. slc_item ldesc x (ms x)) [0..<8]" "\<forall>y<8. slc_bufs t (ms y) = Some (replicate 64 0)"
      "i2s_slc_queue t = i2s_slc_queue s0" "i2s_slc_queue_len t = 0" "i2s_curr_slc_buf t = 0" "i2s_curr_slc_buf_pos t = 0"
      "io t = io s0" "i2s.more t = i2s.more s0"
    using slc_alloc_spec[of 0 "s0\<lparr>i2s_slc_queue_len := 0\<rparr>" ms ldesc] fresh good
    by (auto simp: i2s_fresh_def good_bufs_def)
  let ?s = "slc_setup ldesc c t"
  have bufs: "slc_bufs t (ring_buf ms k) = Some (replicate 64 0)" for k using t(3) by (simp add: ring_buf_def)
  have "i2s_slc_begin ldesc c ms s0 = Some ?s" by (simp add: i2s_slc_begin_def t(1))
  moreover have "n (io ?s) = 0" using slc_setup_keeps[OF dma, of t] t(8) fresh by (simp add: i2s_fresh_def)
  moreover have "ring_ok ldesc ms 0 ?s \<and> i2s_curr_slc_buf ?s = 0 \<and> i2s_curr_slc_buf_pos ?s = 0 \<and> slc_queue ?s = [] \<and>
      (\<forall>k. slc_bufs ?s (ring_buf ms k) = Some (replicate 64 0)) \<and> i2s.more ?s = i2s.more s0"
    by (subst (1 2 3 4 5 6) slc_setup_io)
      (use t bufs fresh in \<open>simp add: ring_ok_def slc_queue_def slc_queue_ok_def i2s_fresh_def\<close>)
  ultimately show ?thesis by blast
qed

lemma ring_inv_steps:
  assumes "ring_inv ldesc c n ms s"
  shows "\<exists>s'. slc_irqs ldesc c (\<lambda>s. s) arrivals s = Some s' \<and> ring_inv ldesc c n ms s' \<and>
           i2s_needs_buf s' = i2s_needs_buf s \<and> length (slc_queue s') = min 7 (arrivals s + length (slc_queue s))"
    and "slc_queue s \<noteq> [] \<Longrightarrow> \<exists>s'. i2s_take c s = Some s' \<and> ring_inv ldesc c n ms s' \<and> \<not> i2s_needs_buf s'"
    and "\<not> i2s_needs_buf s \<Longrightarrow> \<exists>s'. i2s_store x s = Some s'"
    and "i2s_slc_queue_len s = 0 \<longleftrightarrow> slc_queue s = []"
proof -
  have I: "slc_dma ldesc c n" "good_bufs ms" "ring_ok ldesc ms (n (io s)) s" using assms by (simp_all add: ring_inv_def)
  show "\<exists>s'. slc_irqs ldesc c (\<lambda>s. s) arrivals s = Some s' \<and> ring_inv ldesc c n ms s' \<and>
           i2s_needs_buf s' = i2s_needs_buf s \<and> length (slc_queue s') = min 7 (arrivals s + length (slc_queue s))"
    using isr_times_ring[OF I(1,3), of "arrivals s"] I by (auto simp: ring_inv_def slc_irqs_def i2s_needs_buf_def)
  show "\<exists>s'. i2s_take c s = Some s' \<and> ring_inv ldesc c n ms s' \<and> \<not> i2s_needs_buf s'" if "slc_queue s \<noteq> []"
    using i2s_take_ring[OF I(1,3) that] I ring_buf_not_0[OF I(2)] by (auto simp: ring_inv_def i2s_needs_buf_def SLC_BUF_LEN_def)
  show "\<exists>s'. i2s_store x s = Some s'" if "\<not> i2s_needs_buf s"
    using i2s_store_ring[OF I(3,2) that] by blast
  show "i2s_slc_queue_len s = 0 \<longleftrightarrow> slc_queue s = []"
    using I(3) by (auto simp: ring_ok_def slc_queue_def slc_queue_ok_def unat_eq_0)
qed

lemma ring_irq_nonempty:
  assumes "ring_inv ldesc c n ms s" "slc_queue s \<noteq> [] \<or> 0 < arrivals s"
  shows "\<exists>s'. slc_irqs ldesc c (\<lambda>s. s) arrivals s = Some s' \<and> ring_inv ldesc c n ms s' \<and> slc_queue s' \<noteq> []"
proof -
  obtain s' where s': "slc_irqs ldesc c (\<lambda>s. s) arrivals s = Some s'" "ring_inv ldesc c n ms s'"
      "length (slc_queue s') = min 7 (arrivals s + length (slc_queue s))"
    using ring_inv_steps(1)[OF assms(1)] by blast
  have "0 < min 7 (arrivals s + length (slc_queue s))" using assms(2) by (simp add: min_less_iff_conj disj_commute)
  then have "slc_queue s' \<noteq> []" using s'(3) by (metis less_irrefl list.size(3))
  then show ?thesis using s'(1,2) by blast
qed

interpretation ring_live: i2s_live_writer ldesc c "slc_irqs ldesc c (\<lambda>s. s) arrivals" "\<lambda>w. ring_inv ldesc c n ms"
  for ldesc c arrivals n ms
proof
  fix s :: "('a, 'b) i2s_scheme" and x
  assume I: "ring_inv ldesc c n ms s"
  note len = ring_inv_steps(4)[OF I]
  show "\<exists>s'. slc_irqs ldesc c (\<lambda>s. s) arrivals s = Some s' \<and> (i2s_slc_queue_len s \<noteq> 0 \<longrightarrow> i2s_slc_queue_len s' \<noteq> 0)"
  proof (cases "slc_queue s = []")
    case True
    then show ?thesis using ring_inv_steps(1)[OF I] len by blast
  next
    case False
    then show ?thesis using ring_irq_nonempty[OF I] ring_inv_steps(4) by blast
  qed
  show "\<exists>s'. i2s_take c s = Some s'" if "i2s_slc_queue_len s \<noteq> 0" using ring_inv_steps(2)[OF I] that len by blast
  show "\<exists>s'. i2s_store x s = Some s'" if "\<not> i2s_needs_buf s" using ring_inv_steps(3)[OF I that] .
qed

lemma ring_distinct:
  assumes "ring_ok ldesc ms N s" "good_bufs ms"
  shows "distinct (slc_queue s) \<and> ring_buf ms N \<notin> set (slc_queue s)"
proof -
  have q: "slc_queue s = map (ring_buf ms) [N - length (slc_queue s)..<N]" using assms(1) by (simp add: ring_ok_def)
  have near: "j = k" if "N - length (slc_queue s) \<le> j" "j \<le> k" "k \<le> N" "ring_buf ms j = ring_buf ms k" for j k
    using that ring_room[OF assms(1)] by (intro ring_buf_near[OF assms(2)]) auto
  then have "inj_on (ring_buf ms) {N - length (slc_queue s)..N}"
    by (intro inj_onI) (metis atLeastAtMost_iff nle_le)
  then have inj: "inj_on (ring_buf ms) (set [N - length (slc_queue s)..<N])" by (rule inj_on_subset) auto
  have "ring_buf ms N \<notin> ring_buf ms ` set [N - length (slc_queue s)..<N]" using near[OF _ _ order_refl] by fastforce
  then show ?thesis using inj by (subst (1 2) q) (simp add: distinct_map)
qed


section \<open>What is heard\<close>

text \<open>
  The observer keeps what the DMA played: at the end of a buffer, its words.  \<open>audio\<close> is what
  should be heard: the silence of the eight buffers the start zeroes, then the samples written.
\<close>

record 'h i2s_heard = "'h i2s" +
  i2s_played :: "u32 list"

definition hear :: "('h \<Rightarrow> nat) \<Rightarrow> 'h i2s_heard \<Rightarrow> 'h i2s_heard" where
  "hear n s = s\<lparr>i2s_played := i2s_played s @ the (slc_bufs s (si_buf_ptr (i2s_slc_items s ! (n (io s) mod 8))))\<rparr>"

definition audio :: "u32 list \<Rightarrow> u32 list" where
  "audio w = replicate 512 0 @ w"

definition audio_block :: "nat \<Rightarrow> u32 list \<Rightarrow> u32 list" where
  "audio_block k xs = take 64 (drop (64 * k) xs @ replicate 64 0)"

lemma audio_block_full: "64 * Suc k \<le> length xs \<Longrightarrow> audio_block k xs = take 64 (drop (64 * k) xs)"
  by (simp add: audio_block_def)

lemma audio_block_silent: "length xs \<le> 64 * k \<Longrightarrow> audio_block k xs = replicate 64 0"
  by (simp add: audio_block_def)

lemma audio_block_other:
  assumes "length xs = 64 * j + i" "i < 64" "k \<noteq> j"
  shows "audio_block k (xs @ [x]) = audio_block k xs"
proof (cases "k < j")
  case True
  then have "64 * Suc k \<le> 64 * j" by simp
  then show ?thesis using assms by (simp add: audio_block_full)
next
  case False
  then have "64 * Suc j \<le> 64 * k" using assms(3) by simp
  then show ?thesis using assms by (simp add: audio_block_silent)
qed

lemma audio_block_at:
  assumes "length xs = 64 * j + i" "i < 64"
  shows "audio_block j (xs @ [x]) = (audio_block j xs)[i := x]"
proof -
  define d where "d = drop (64 * j) xs"
  have d: "length d = i" using assms(1) by (simp add: d_def)
  have "replicate 64 (0 :: u32) = 0 # replicate 63 0" by (simp add: numeral_eq_Suc)
  then have "(d @ replicate 64 0)[i := x] = d @ x # replicate 63 0" using d by (simp add: list_update_append)
  moreover have "take 64 (d @ x # replicate 63 0) = take 64 (d @ x # replicate 64 0)"
    using d assms(2) by (simp add: take_Cons')
  ultimately have "take 64 (d @ x # replicate 64 0) = (take 64 (d @ replicate 64 0))[i := x]"
    by (simp only: take_update_swap[symmetric])
  then show ?thesis using assms by (simp add: audio_block_def d_def)
qed

definition flow_ok :: "(nat \<Rightarrow> u32) \<Rightarrow> nat \<Rightarrow> u32 list \<Rightarrow> 'h i2s_heard \<Rightarrow> bool" where
  "flow_ok ms N w s \<longleftrightarrow>
     (let P = N - length (slc_queue s) in
        (P = 0 \<longrightarrow> i2s_curr_slc_buf s = 0 \<and> w = []) \<and>
        (0 < P \<longrightarrow> i2s_curr_slc_buf s = ring_buf ms (P - 1) \<and> length w + 64 = 64 * P + nat (i2s_curr_slc_buf_pos s)) \<and>
        (\<forall>k. N \<le> k \<and> k < N + 8 \<longrightarrow> slc_bufs s (ring_buf ms k) = Some (audio_block k (audio w))) \<and>
        i2s_played s = take (64 * N) (audio w))"

definition heard_inv ::
  "u32 \<Rightarrow> 'h soc \<Rightarrow> ('h \<Rightarrow> nat) \<Rightarrow> (nat \<Rightarrow> u32) \<Rightarrow> ('h i2s_heard \<Rightarrow> nat) \<Rightarrow> u32 list \<Rightarrow> 'h i2s_heard \<Rightarrow> bool" where
  "heard_inv ldesc c n ms arrivals w s \<longleftrightarrow>
     ring_inv ldesc c n ms s \<and> flow_ok ms (n (io s)) w s \<and> (\<forall>s. arrivals s \<le> 7 - unat (i2s_slc_queue_len s))"

lemma more_played: "i2s.more s = i2s.more t \<Longrightarrow> i2s_played s = i2s_played t"
  by (cases s; cases t) simp

lemma flow_isr:
  assumes I: "ring_inv ldesc c n ms s" and F: "flow_ok ms (n (io s)) w s" and room: "length (slc_queue s) < 7"
  shows "\<exists>s'. i2s_slc_isr ldesc c (hear n s) = Some s' \<and> ring_inv ldesc c n ms s' \<and> flow_ok ms (n (io s')) w s' \<and>
           length (slc_queue s') = Suc (length (slc_queue s)) \<and> i2s_needs_buf s' = i2s_needs_buf s"
proof -
  have J: "slc_dma ldesc c n" "good_bufs ms" "ring_ok ldesc ms (n (io s)) s" using I by (simp_all add: ring_inv_def)
  let ?N = "n (io s)" and ?P = "n (io s) - length (slc_queue s)"
  have h: "n (io (hear n s)) = ?N" "slc_queue (hear n s) = slc_queue s" "slc_bufs (hear n s) = slc_bufs s"
      "i2s_curr_slc_buf (hear n s) = i2s_curr_slc_buf s" "i2s_curr_slc_buf_pos (hear n s) = i2s_curr_slc_buf_pos s"
      "ring_ok ldesc ms ?N (hear n s)"
    using J(3) by (simp_all add: hear_def slc_queue_def ring_ok_def slc_queue_ok_def)
  obtain t where t: "i2s_slc_isr ldesc c (hear n s) = Some t" "ring_ok ldesc ms (n (io t)) t" "n (io t) = Suc ?N"
      "length (slc_queue t) = Suc (length (slc_queue s))" "slc_bufs t = (slc_bufs s)(ring_buf ms ?N \<mapsto> replicate 64 0)"
      "i2s_curr_slc_buf t = i2s_curr_slc_buf s" "i2s_curr_slc_buf_pos t = i2s_curr_slc_buf_pos s"
      "i2s.more t = i2s.more (hear n s)"
    using i2s_slc_isr_ring[OF J(1), of ms "hear n s"] h room by auto
  have le: "length (slc_queue s) \<le> ?N" using J(3) by (simp add: ring_ok_def)
  have P: "Suc ?N - length (slc_queue t) = ?P" using t(4) by simp
  have N: "length (audio w) \<le> 64 * (?N + 8)" "64 * Suc ?N \<le> length (audio w)"
  proof -
    show "length (audio w) \<le> 64 * (?N + 8)"
      using F J(3) by (cases "?P = 0") (auto simp: flow_ok_def audio_def ring_ok_def Let_def)
    show "64 * Suc ?N \<le> length (audio w)"
      using F room le by (cases "?P = 0") (auto simp: flow_ok_def audio_def Let_def)
  qed
  have blk: "slc_bufs s (ring_buf ms k) = Some (audio_block k (audio w))" if "?N \<le> k" "k < ?N + 8" for k
    using F that by (simp add: flow_ok_def Let_def)
  have "i2s_played t = i2s_played (hear n s)"
    using t(8) by (rule more_played)
  moreover have "si_buf_ptr (i2s_slc_items s ! (?N mod 8)) = ring_buf ms ?N"
    using J(3) by (simp add: ring_ok_def slc_item_def ring_buf_def)
  ultimately have "i2s_played t = take (64 * ?N) (audio w) @ take 64 (drop (64 * ?N) (audio w))"
    using F blk[of ?N] N(2) by (simp add: hear_def flow_ok_def Let_def audio_block_full)
  then have played: "i2s_played t = take (64 * Suc ?N) (audio w)"
    using take_add[of "64 * ?N" 64 "audio w"] by (simp add: add.commute)
  have "slc_bufs t (ring_buf ms k) = Some (audio_block k (audio w))" if "Suc ?N \<le> k" "k < Suc ?N + 8" for k
  proof (cases "k = ?N + 8")
    case True
    then have "ring_buf ms k = ring_buf ms ?N" by (simp add: ring_buf_def)
    then show ?thesis using t(5) N(1) True by (simp add: audio_block_silent)
  next
    case False
    then have "ring_buf ms k \<noteq> ring_buf ms ?N" using ring_buf_near[OF J(2), of ?N k] that by auto
    then show ?thesis using t(5) blk[of k] that False by simp
  qed
  then have "flow_ok ms (n (io t)) w t" using F t P played by (simp add: flow_ok_def Let_def)
  moreover have "ring_inv ldesc c n ms t" using J t(2) by (simp add: ring_inv_def)
  ultimately show ?thesis using t by (auto simp: i2s_needs_buf_def)
qed

lemma flow_irqs:
  "ring_inv ldesc c n ms s \<Longrightarrow> flow_ok ms (n (io s)) w s \<Longrightarrow> k + length (slc_queue s) \<le> 7 \<Longrightarrow>
   \<exists>s'. isr_times ldesc c (hear n) k s = Some s' \<and> ring_inv ldesc c n ms s' \<and> flow_ok ms (n (io s')) w s' \<and>
        i2s_needs_buf s' = i2s_needs_buf s \<and> length (slc_queue s') = k + length (slc_queue s)"
proof (induction k arbitrary: s)
  case (Suc k)
  obtain t where t: "i2s_slc_isr ldesc c (hear n s) = Some t" "ring_inv ldesc c n ms t" "flow_ok ms (n (io t)) w t"
      "length (slc_queue t) = Suc (length (slc_queue s))" "i2s_needs_buf t = i2s_needs_buf s"
    using flow_isr[OF Suc.prems(1,2)] Suc.prems(3) by auto
  show ?case using Suc.IH[OF t(2,3)] t Suc.prems(3) by simp
qed simp

lemma flow_take:
  assumes I: "ring_inv ldesc c n ms s" and F: "flow_ok ms (n (io s)) w s" and full: "i2s_needs_buf s"
    and take: "i2s_take c s = Some s'"
  shows "flow_ok ms (n (io s')) w s'"
proof -
  have J: "slc_dma ldesc c n" "good_bufs ms" "ring_ok ldesc ms (n (io s)) s" using I by (simp_all add: ring_inv_def)
  have ne: "slc_queue s \<noteq> []" using i2s_take_empty[of s c] J(3) take by (auto simp: ring_ok_def)
  let ?P = "n (io s) - length (slc_queue s)"
  have t: "n (io s') = n (io s)" "length (slc_queue s') = length (slc_queue s) - 1" "i2s_curr_slc_buf s' = ring_buf ms ?P"
      "i2s_curr_slc_buf_pos s' = 0" "slc_bufs s' = slc_bufs s" "i2s.more s' = i2s.more s"
    using i2s_take_ring[OF J(1,3) ne] take by auto
  have "length (slc_queue s) \<le> n (io s)" "0 < length (slc_queue s)" using J(3) ne by (simp_all add: ring_ok_def)
  then have P: "n (io s) - length (slc_queue s') = Suc ?P" using t(2) by linarith
  have "length w = 64 * ?P"
  proof (cases "?P = 0")
    case False
    then have "i2s_curr_slc_buf s \<noteq> 0" using F ring_buf_not_0[OF J(2)] by (simp add: flow_ok_def Let_def)
    then have "i2s_curr_slc_buf_pos s = 64" using full by (simp add: i2s_needs_buf_def SLC_BUF_LEN_def)
    then show ?thesis using F False by (auto simp: flow_ok_def Let_def)
  qed (use F in \<open>simp add: flow_ok_def Let_def\<close>)
  then show ?thesis using F t(3-5) more_played[OF t(6)] unfolding flow_ok_def Let_def t(1) P by simp
qed

lemma flow_store:
  assumes I: "ring_inv ldesc c n ms s" and F: "flow_ok ms (n (io s)) w s" and room: "\<not> i2s_needs_buf s"
    and store: "i2s_store x s = Some s'"
  shows "flow_ok ms (n (io s')) (w @ [x]) s'"
proof -
  have J: "slc_dma ldesc c n" "good_bufs ms" "ring_ok ldesc ms (n (io s)) s" using I by (simp_all add: ring_inv_def)
  let ?N = "n (io s)" and ?P = "n (io s) - length (slc_queue s)" and ?i = "nat (i2s_curr_slc_buf_pos s)"
  obtain ws where t: "slc_bufs s (i2s_curr_slc_buf s) = Some ws" "slc_bufs s' = (slc_bufs s)(i2s_curr_slc_buf s \<mapsto> ws[?i := x])"
      "i2s_curr_slc_buf s' = i2s_curr_slc_buf s" "i2s_curr_slc_buf_pos s' = i2s_curr_slc_buf_pos s + 1"
      "slc_queue s' = slc_queue s" "io s' = io s" "i2s.more s' = i2s.more s"
    using i2s_store_ring[OF J(3,2) room, of x] store by auto
  have P0: "0 < ?P" using F room by (cases "?P = 0") (auto simp: flow_ok_def Let_def i2s_needs_buf_def)
  then have cur: "i2s_curr_slc_buf s = ring_buf ms (?P - 1)" "length w + 64 = 64 * ?P + ?i" using F by (simp_all add: flow_ok_def Let_def)
  have i: "0 \<le> i2s_curr_slc_buf_pos s" "?i < 64" using room J(3) by (auto simp: ring_ok_def i2s_needs_buf_def SLC_BUF_LEN_def)
  let ?j = "?P + 7"
  have len: "length (audio w) = 64 * ?j + ?i" using cur(2) by (simp add: audio_def)
  have j: "?N \<le> ?j" "?j < ?N + 8" using ring_room[OF J(3)] J(3) P0 by (auto simp: ring_ok_def)
  have curj: "i2s_curr_slc_buf s = ring_buf ms ?j"
  proof -
    have "?j = ?P - 1 + 8" using P0 by simp
    then show ?thesis unfolding cur(1) ring_buf_def by (simp only: mod_add_self2)
  qed
  have blk: "slc_bufs s (ring_buf ms k) = Some (audio_block k (audio w))" if "?N \<le> k" "k < ?N + 8" for k
    using F that by (simp add: flow_ok_def Let_def)
  have "slc_bufs s' (ring_buf ms k) = Some (audio_block k (audio w @ [x]))" if "?N \<le> k" "k < ?N + 8" for k
  proof (cases "k = ?j")
    case True
    then show ?thesis using t(1,2) curj blk[OF j] audio_block_at[OF len i(2)] by simp
  next
    case False
    have "ring_buf ms k \<noteq> ring_buf ms ?j"
      using ring_buf_near[OF J(2), of k ?j] ring_buf_near[OF J(2), of ?j k] False that j by (cases "k \<le> ?j") auto
    then show ?thesis using t(2) curj blk[OF that] audio_block_other[OF len i(2) False] by simp
  qed
  moreover have "take (64 * ?N) (audio w) = take (64 * ?N) (audio w @ [x])" using len j(1) by simp
  moreover have "audio w @ [x] = audio (w @ [x])" by (simp add: audio_def)
  ultimately show ?thesis
    using F t P0 cur i more_played[OF t(7)] unfolding flow_ok_def Let_def t(5,6) by (simp add: nat_add_distrib)
qed

lemma heard_room:
  assumes "heard_inv ldesc c n ms arrivals w s" "ring_ok ldesc ms (n (io s)) s"
  shows "arrivals s + length (slc_queue s) \<le> 7"
proof -
  have "length (slc_queue s) = unat (i2s_slc_queue_len s)" using assms(2) by (simp add: ring_ok_def slc_queue_length)
  moreover have "arrivals s \<le> 7 - unat (i2s_slc_queue_len s)" using assms(1) by (simp add: heard_inv_def)
  ultimately show ?thesis using ring_room[OF assms(2)] by linarith
qed

interpretation heard_run: i2s_writer ldesc c "slc_irqs ldesc c (hear n) arrivals" "heard_inv ldesc c n ms arrivals"
  for ldesc c n arrivals ms
proof
  fix s s' :: "'a i2s_heard" and w :: "u32 list" and x k
  assume I: "heard_inv ldesc c n ms arrivals w s"
  then have I': "ring_inv ldesc c n ms s" "flow_ok ms (n (io s)) w s" by (simp_all add: heard_inv_def)
  then have J: "slc_dma ldesc c n" "ring_ok ldesc ms (n (io s)) s" by (simp_all add: ring_inv_def)
  show "heard_inv ldesc c n ms arrivals w s' \<and> i2s_needs_buf s' = i2s_needs_buf s"
    if "slc_irqs ldesc c (hear n) arrivals s = Some s'"
  proof -
    have "arrivals s + length (slc_queue s) \<le> 7" using I J(2) by (rule heard_room)
    then show ?thesis using flow_irqs[OF I'] that I by (fastforce simp: heard_inv_def slc_irqs_def)
  qed
  show "heard_inv ldesc c n ms arrivals w (call_soc c k s)"
    using ring_run.keep_io[OF I'(1), of k] I slc_dmaD(6)[OF J(1)]
    by (simp add: heard_inv_def flow_ok_def call_soc_def) (simp add: do_io_def)
  show "heard_inv ldesc c n ms arrivals w s' \<and> \<not> i2s_needs_buf s'" if "i2s_needs_buf s" "i2s_take c s = Some s'"
    using ring_run.keep_take[OF I'(1) that] flow_take[OF I' that] I by (simp add: heard_inv_def)
  show "heard_inv ldesc c n ms arrivals (w @ [x]) s'" if "\<not> i2s_needs_buf s" "i2s_store x s = Some s'"
    using ring_run.keep_store[OF I'(1) that] flow_store[OF I' that] I by (simp add: heard_inv_def)
qed

interpretation heard_live: i2s_live_writer ldesc c "slc_irqs ldesc c (hear n) arrivals" "heard_inv ldesc c n ms arrivals"
  for ldesc c n arrivals ms
proof
  fix s :: "'a i2s_heard" and w :: "u32 list" and x
  assume I: "heard_inv ldesc c n ms arrivals w s"
  then have I': "ring_inv ldesc c n ms s" "flow_ok ms (n (io s)) w s" by (simp_all add: heard_inv_def)
  then have R: "ring_ok ldesc ms (n (io s)) s" by (simp add: ring_inv_def)
  note len = ring_inv_steps(4)[OF I'(1)]
  have "arrivals s + length (slc_queue s) \<le> 7" using I R by (rule heard_room)
  then obtain s' where s': "slc_irqs ldesc c (hear n) arrivals s = Some s'" "ring_inv ldesc c n ms s'"
      "length (slc_queue s') = arrivals s + length (slc_queue s)"
    using flow_irqs[OF I'] by (auto simp: slc_irqs_def)
  then show "\<exists>s'. slc_irqs ldesc c (hear n) arrivals s = Some s' \<and> (i2s_slc_queue_len s \<noteq> 0 \<longrightarrow> i2s_slc_queue_len s' \<noteq> 0)"
    using len ring_inv_steps(4)[OF s'(2)] by auto
  show "\<exists>s'. i2s_take c s = Some s'" if "i2s_slc_queue_len s \<noteq> 0" using ring_inv_steps(2)[OF I'(1)] that len by blast
  show "\<exists>s'. i2s_store x s = Some s'" if "\<not> i2s_needs_buf s" using ring_inv_steps(3)[OF I'(1) that] .
qed

lemma heard_start:
  assumes dma: "slc_dma ldesc c n" and good: "good_bufs ms" and fresh: "i2s_fresh n s0" "i2s_played s0 = []"
    and slow: "\<forall>s. arrivals s \<le> 7 - unat (i2s_slc_queue_len s)" and b: "i2s_slc_begin ldesc c ms s0 = Some t"
  shows "heard_inv ldesc c n ms arrivals [] t"
proof -
  have t: "ring_ok ldesc ms 0 t" "n (io t) = 0" "i2s_curr_slc_buf t = 0" "slc_queue t = []"
      "\<forall>k. slc_bufs t (ring_buf ms k) = Some (replicate 64 0)" "i2s.more t = i2s.more s0"
    using i2s_begin_ring[OF dma good fresh(1)] b by auto
  have "audio_block k (audio []) = replicate 64 0" if "k < 8" for k
    using that by (simp add: audio_block_def audio_def min_def)
  then show ?thesis using t more_played[OF t(6)] fresh(2) dma good slow
    by (simp add: heard_inv_def ring_inv_def flow_ok_def)
qed

text \<open>If interrupts arrive while the queue is empty, the observed writer is fed too.\<close>

lemma heard_irq_feeds:
  assumes I: "heard_inv ldesc c n ms arrivals w s" and "0 < arrivals s" "slc_irqs ldesc c (hear n) arrivals s = Some s'"
  shows "i2s_slc_queue_len s' \<noteq> 0"
proof -
  have I': "ring_inv ldesc c n ms s" "flow_ok ms (n (io s)) w s" using I by (simp_all add: heard_inv_def)
  then have room: "arrivals s + length (slc_queue s) \<le> 7" using heard_room[OF I] by (simp add: ring_inv_def)
  have s': "ring_inv ldesc c n ms s'" "length (slc_queue s') = arrivals s + length (slc_queue s)"
    using flow_irqs[OF I' room] assms(3) by (auto simp: slc_irqs_def)
  have "slc_queue s' \<noteq> []" using s'(2) assms(2) by auto
  then show ?thesis using ring_inv_steps(4)[OF s'(1)] by simp
qed



section \<open>A concrete DMA\<close>

text \<open>The outside world is the number of buffers finished; registers other than the two read zero.\<close>

definition demo_dma :: "nat soc" where
  "demo_dma =
     \<lparr>soc_gpio = \<lparr>gp_read = (\<lambda>r h. if r = SLCIS then (SLCIRXEOF, h) else if r = SLCRXEDA then (12 * of_nat (h mod 8), Suc h) else (0, h)),
                  gp_write = (\<lambda>r v h. h)\<rparr>,
      soc_do = (\<lambda>k h. h), soc_rsil = (\<lambda>h. (0, h))\<rparr>"

definition demo_i2s :: "nat i2s_heard" where
  "demo_i2s =
     \<lparr>timer1_user_cb = None, timer0_user_cb = None, io = 0, pwm_tables = [], pwm_active = 0, current_step = 0, pwm_mask = 0,
      pwm_values = [], pwm_freq = 0, pwm_range = 0, pwm_steps_changed = 0, pwm_multiplier = 0,
      interrupt_handlers = [], interrupt_reg = 0,
      i2s_slc_queue = replicate 7 0, i2s_slc_queue_len = 0, i2s_slc_buf_pntr = replicate 8 0,
      i2s_slc_items = replicate 8 (slc_item 0 0 0), i2s_curr_slc_buf = 0, i2s_curr_slc_buf_pos = 0, i2s_sample_rate = 0,
      slc_bufs = (\<lambda>_. None), i2s_played = []\<rparr>"

definition demo_ms :: "nat \<Rightarrow> u32" where "demo_ms x = of_nat (256 * x + 256)"

definition demo_arrivals :: "('h, 'm) i2s_scheme \<Rightarrow> nat" where
  "demo_arrivals s = (if i2s_slc_queue_len s = 0 then 1 else 0)"

lemma demo_facts:
  "slc_dma 0 demo_dma (\<lambda>h. h)" "good_bufs demo_ms" "i2s_fresh (\<lambda>h. h) demo_i2s" "i2s_played demo_i2s = []"
proof -
  show "slc_dma 0 demo_dma (\<lambda>h. h)" by (simp add: slc_dma_def demo_dma_def SLCIRXEOF_def)
  have "demo_ms x = demo_ms y \<longleftrightarrow> x = y" "demo_ms x \<noteq> 0" if "x < 8" "y < 8" for x y
  proof -
    have "unat (demo_ms x) = 256 * x + 256" "unat (demo_ms y) = 256 * y + 256"
      using that by (simp_all only: demo_ms_def unat_of_nat) simp_all
    then show "demo_ms x = demo_ms y \<longleftrightarrow> x = y" "demo_ms x \<noteq> 0" by (auto simp: word_unat_eq_iff)
  qed
  then show "good_bufs demo_ms" by (auto simp: good_bufs_def inj_on_def)
qed (simp_all add: i2s_fresh_def demo_i2s_def)

lemma demo_arrivals_ok:
  "i2s_slc_queue_len s = 0 \<longrightarrow> 0 < demo_arrivals s" "demo_arrivals s \<le> 7 - unat (i2s_slc_queue_len s)"
  by (simp_all add: demo_arrivals_def)



section \<open>The sample rate\<close>

lemma quotient_bounds:
  fixes n k :: nat
  assumes "0 < k"
  shows "k * (n div k) \<le> n" "n < k * (n div k + 1)"
  using assms by simp (metis Suc_eq_plus1 assms dividend_less_times_div mult_Suc_right)

lemma and63: "x < 64 \<Longrightarrow> of_nat x AND 0x3F = (of_nat x :: u32)"
proof -
  assume "x < 64"
  then have "take_bit 6 (of_nat x :: u32) = of_nat x" by (simp add: take_bit_of_nat take_bit_nat_eq_self)
  then show ?thesis by (simp add: take_bit_eq_mask mask_eq_exp_minus_1)
qed

lemma i2s_divisors_exact:
  assumes "5860 \<le> r" "r \<le> 375000"
  shows "\<exists>d b. i2s_divisors (of_nat r) = Some (of_nat d, of_nat b) \<and> 1 \<le> d \<and> d < 64 \<and> 16 \<le> b \<and> b < 64 \<and>
           2 * r * d * b \<le> 12000000 \<and> 12000000 < 2 * r * d * (b + 1)"
proof -
  define d where "d = 12000000 div (32 * r)"
  define b where "b = 12000000 div (2 * r * d)"
  have d2: "32 * r * d \<le> 12000000" "12000000 < 32 * r * (d + 1)"
    using quotient_bounds[of "32 * r" 12000000] assms by (simp_all add: d_def)
  have d1: "1 \<le> d" using assms by (simp add: d_def less_eq_div_iff_mult_less_eq)
  have d64: "d < 64"
  proof (rule ccontr)
    assume "\<not> d < 64"
    then have "5860 * 64 \<le> r * d" using assms(1) by (intro mult_le_mono) auto
    then show False using d2(1) by simp
  qed
  have rd: "0 < 2 * r * d" using assms d1 by simp
  have b2: "2 * r * d * b \<le> 12000000" "12000000 < 2 * r * d * (b + 1)"
    using quotient_bounds[OF rd, of 12000000] by (simp_all add: b_def)
  have b1: "16 \<le> b" using d2(1) rd by (simp add: b_def less_eq_div_iff_mult_less_eq mult.assoc)
  have b64: "b < 64"
  proof (rule ccontr)
    assume "\<not> b < 64"
    then have "2 * r * d * 64 \<le> 2 * r * d * b" by simp
    moreover have "32 * r * (d + 1) \<le> 32 * r * (2 * d)" using d1 by simp
    ultimately show False using b2(1) d2(2) by linarith
  qed
  have r32: "unat (of_nat r * 32 :: u32) = 32 * r"
    using assms by (simp add: unat_word_ariths unat_of_nat)
  have rd2: "unat (of_nat r * of_nat d * 2 :: u32) = 2 * r * d"
  proof -
    have "of_nat r * of_nat d * 2 = (of_nat (2 * r * d) :: u32)" by simp
    moreover have "2 * r * d < 2 ^ 32" using d2(1) by simp
    ultimately show ?thesis by (simp only: unat_of_nat) simp
  qed
  have D: "I2SBASEFREQ div (of_nat r * 32) = of_nat d"
    by (rule word_unat_eq_iff[THEN iffD2]) (use d64 in \<open>simp add: unat_div r32 I2SBASEFREQ_def unat_of_nat d_def\<close>)
  have B: "I2SBASEFREQ div (of_nat r * of_nat d * 2) = of_nat b"
    by (rule word_unat_eq_iff[THEN iffD2]) (use b64 in \<open>simp add: unat_div rd2 I2SBASEFREQ_def unat_of_nat b_def\<close>)
  have nz: "of_nat r * 32 \<noteq> (0 :: u32)" "of_nat r * of_nat d * 2 \<noteq> (0 :: u32)"
    using r32 rd2 rd assms by (metis less_irrefl mult_is_0 unat_0 zero_neq_numeral not_numeral_le_zero) (metis rd2 rd less_irrefl unat_0)
  have "ucast (of_nat b :: u32) = (of_nat b :: u8)" using b64 by (simp add: unsigned_of_nat take_bit_nat_eq_self)
  then have "i2s_divisors (of_nat r) = Some (of_nat d, of_nat b)"
    by (simp only: i2s_divisors_def I2SCDM_def I2SBDM_def D nz if_False Let_def and63[OF d64] B and63[OF b64])
  then show ?thesis using d1 d64 b1 b64 b2 by blast
qed

lemma rate_fields:
  assumes "1 \<le> d" "d < 64" "1 \<le> b" "b < 64"
  shows "take_bit 6 (drop_bit 16 ((v AND i2s_rate_clear) OR i2s_rate_set (of_nat d) (of_nat b))) = of_nat (d - 1)"
    and "take_bit 6 (drop_bit 22 ((v AND i2s_rate_clear) OR i2s_rate_set (of_nat d) (of_nat b))) = of_nat (b - 1)"
proof -
  have m: "I2SBDM = mask 6" "I2SCDM = mask 6" "I2SBMM = mask 4"
    by (simp_all add: I2SBDM_def I2SCDM_def I2SBMM_def mask_eq_exp_minus_1)
  have small: "\<not> bit (of_nat x :: u32) i" if "x < 64" "6 \<le> i" for x i
  proof -
    have "of_nat x = take_bit 6 (of_nat x :: u32)" using that(1) by (simp add: take_bit_of_nat take_bit_nat_eq_self)
    then show ?thesis using that(2) by (metis bit_take_bit_iff not_less)
  qed
  have db: "of_nat d - 1 = (of_nat (d - 1) :: u32)" "ucast (of_nat b :: u8) - 1 = (of_nat (b - 1) :: u32)"
    using assms by (simp_all add: of_nat_diff unsigned_of_nat take_bit_nat_eq_self)
  have small': "\<not> bit (of_nat (d - 1) :: u32) i" "\<not> bit (of_nat (b - 1) :: u32) i" if "6 \<le> i" for i
    by (rule small; use assms that in simp)+
  note defs = i2s_rate_clear_def i2s_rate_set_def db m I2SRF_def I2SMR_def I2SRSM_def I2SRMS_def I2SBD_def I2SCD_def I2STSM_def I2SBM_def
  show "take_bit 6 (drop_bit 16 ((v AND i2s_rate_clear) OR i2s_rate_set (of_nat d) (of_nat b))) = of_nat (d - 1)"
    by (rule bit_word_eqI) (use small' in \<open>auto simp: defs bit_simps\<close>)
  show "take_bit 6 (drop_bit 22 ((v AND i2s_rate_clear) OR i2s_rate_set (of_nat d) (of_nat b))) = of_nat (b - 1)"
    by (rule bit_word_eqI) (use small' in \<open>auto simp: defs bit_simps\<close>)
qed
lemma i2s_divisors_too_fast:
  assumes "375000 < r" "r < 134217728"
  shows "i2s_divisors (of_nat r) = None"
proof -
  have "unat (of_nat r * 32 :: u32) = 32 * r" using assms by (simp add: unat_word_ariths unat_of_nat)
  then have "I2SBASEFREQ div (of_nat r * 32) = 0"
    using assms by (intro word_unat_eq_iff[THEN iffD2]) (simp add: unat_div I2SBASEFREQ_def)
  then show ?thesis by (simp add: i2s_divisors_def Let_def)
qed
lemma i2s_divisors_truncated:
  assumes "5770 \<le> r" "r \<le> 5859"
  shows "i2s_divisors (of_nat r) = None"
proof -
  have "unat (of_nat r * 32 :: u32) = 32 * r" using assms by (simp add: unat_word_ariths unat_of_nat)
  moreover have "12000000 div (32 * r) = 64" using assms by (intro div_nat_eqI) simp_all
  ultimately have "I2SBASEFREQ div (of_nat r * 32) = 64"
    by (intro word_unat_eq_iff[THEN iffD2]) (simp add: unat_div I2SBASEFREQ_def)
  then show ?thesis by (simp add: i2s_divisors_def Let_def I2SCDM_def)
qed
text \<open>
  C33.  For every sample rate from 5860 to 375000 Hz the divisors fit their six-bit fields in the
  configuration register, whatever was in it, and give a bit clock of 32 bits per
  stereo frame that is at least the rate asked for and less than one part in the bit divisor (at least 16) above it.
\<close>

theorem i2s_rate_exact:
  assumes "5860 \<le> r" "r \<le> 375000" "of_nat r \<noteq> i2s_sample_rate s"
  shows "\<exists>d b. i2s_set_rate c (of_nat r) s =
           Some (or_reg c I2SC (i2s_rate_set (of_nat d) (of_nat b)) (and_reg c I2SC i2s_rate_clear (s\<lparr>i2s_sample_rate := of_nat r\<rparr>))) \<and>
         (\<forall>v. take_bit 6 (drop_bit 16 ((v AND i2s_rate_clear) OR i2s_rate_set (of_nat d) (of_nat b))) = of_nat (d - 1) \<and>
              take_bit 6 (drop_bit 22 ((v AND i2s_rate_clear) OR i2s_rate_set (of_nat d) (of_nat b))) = of_nat (b - 1)) \<and>
         1 \<le> d \<and> d < 64 \<and> 16 \<le> b \<and> b < 64 \<and> r * (2 * d * b) \<le> 12000000 \<and> 12000000 < r * (2 * d * (b + 1))"
proof -
  obtain d b where db: "i2s_divisors (of_nat r) = Some (of_nat d, of_nat b)" "1 \<le> d" "d < 64" "16 \<le> b" "b < 64"
      "2 * r * d * b \<le> 12000000" "12000000 < 2 * r * d * (b + 1)"
    using i2s_divisors_exact[OF assms(1,2)] by blast
  have "r * (2 * d * b) \<le> 12000000" "12000000 < r * (2 * d * (b + 1))" using db(6,7) by (simp_all only: ac_simps)
  moreover have "1 \<le> b" using db(4) by simp
  ultimately show ?thesis
    using db assms(3) rate_fields[OF db(2,3) _ db(5)] by (intro exI[of _ d] exI[of _ b]) (simp add: i2s_set_rate_def)
qed

text \<open>
  Setting a rate of 5770 to 5859 Hz, where the clock divisor 64 loses its only bit, or above 375000 Hz, where it is
  zero, divides by zero.
\<close>

theorem i2s_rate_divides_by_zero:
  assumes "5770 \<le> r \<and> r \<le> 5859 \<or> 375000 < r \<and> r < 134217728" "of_nat r \<noteq> i2s_sample_rate s"
  shows "i2s_set_rate c (of_nat r) s = None"
  using assms i2s_divisors_too_fast[of r] i2s_divisors_truncated[of r] by (auto simp: i2s_set_rate_def)

text \<open>At CD rate the base clock is divided by 8 and 17.\<close>

theorem i2s_rate_exact_witness:
  "\<exists>d b. i2s_set_rate demo_dma (of_nat 44100) demo_i2s =
     Some (or_reg demo_dma I2SC (i2s_rate_set (of_nat d) (of_nat b)) (and_reg demo_dma I2SC i2s_rate_clear (demo_i2s\<lparr>i2s_sample_rate := of_nat 44100\<rparr>))) \<and>
     44100 * (2 * d * b) \<le> 12000000 \<and> 12000000 < 44100 * (2 * d * (b + 1))"
  using i2s_rate_exact[of 44100 demo_i2s demo_dma] by (auto simp: demo_i2s_def)

theorem i2s_rate_divides_by_zero_witness: "i2s_set_rate demo_dma (of_nat 5800) demo_i2s = None"
  using i2s_rate_divides_by_zero[of 5800 demo_i2s demo_dma] by (simp add: demo_i2s_def)

end
