(* ===== verification/Clock.thy ===== *)
theory Clock
  imports Prelude "HOL-Library.Signed_Division"
begin

text \<open>
  Time: delays, the microsecond overflow counter and \<open>millis\<close> of core_esp8266_wiring.c, and the
  calendar functions of time.c.  The SDK's clock, timers and SNTP client are the argument
  \<open>sdk\<close>; \<open>time_t\<close> is 32 bits wide.
\<close>

section \<open>The SDK and the state\<close>

datatype os_timer = Delay_timer | Micros_overflow_timer
datatype os_timer_func = Delay_end | Micros_overflow_tick

datatype sdk_call =
  Esp_schedule
| Esp_yield
| Os_timer_setfn os_timer os_timer_func
| Os_timer_arm os_timer u32 bool
| Os_timer_disarm os_timer
| Os_delay_us u32
| Init_pins
| Timer1_isr_init
| Sntp_stop
| Sntp_init
| Sntp_setservername nat string
| Sntp_set_timezone int

record 'h sdk =
  system_get_time :: "'h \<Rightarrow> u32 \<times> 'h"
  sntp_get_current_timestamp :: "'h \<Rightarrow> u32 \<times> 'h"
  sdk_do :: "sdk_call \<Rightarrow> 'h \<Rightarrow> 'h"

record 'h clock =
  micros_at_last_overflow_tick :: u32
  micros_overflow_count :: u32
  s_daylightOffset_sec :: int
  s_timezone_sec :: int
  s_bootTime :: u32
  clk_io :: 'h

definition on_sdk :: "'h sdk \<Rightarrow> sdk_call \<Rightarrow> 'h clock \<Rightarrow> 'h clock" where
  "on_sdk sdk k s = s\<lparr>clk_io := sdk_do sdk k (clk_io s)\<rparr>"

section \<open>Delays and elapsed time\<close>

definition delay_end :: "'h sdk \<Rightarrow> 'h clock \<Rightarrow> 'h clock" where
  "delay_end sdk s = on_sdk sdk Esp_schedule s"

definition delay :: "'h sdk \<Rightarrow> u32 \<Rightarrow> 'h clock \<Rightarrow> 'h clock" where
  "delay sdk ms s =
     (let s = (if ms \<noteq> 0
               then on_sdk sdk (Os_timer_arm Delay_timer ms False) (on_sdk sdk (Os_timer_setfn Delay_timer Delay_end) s)
               else on_sdk sdk Esp_schedule s);
          s = on_sdk sdk Esp_yield s
      in if ms \<noteq> 0 then on_sdk sdk (Os_timer_disarm Delay_timer) s else s)"

definition micros_overflow_tick :: "'h sdk \<Rightarrow> 'h clock \<Rightarrow> 'h clock" where
  "micros_overflow_tick sdk s =
     (case system_get_time sdk (clk_io s) of (m, h) \<Rightarrow>
        let s = s\<lparr>clk_io := h\<rparr>;
            s = (if m < micros_at_last_overflow_tick s then s\<lparr>micros_overflow_count := micros_overflow_count s + 1\<rparr> else s)
        in s\<lparr>micros_at_last_overflow_tick := m\<rparr>)"

definition millis :: "'h sdk \<Rightarrow> 'h clock \<Rightarrow> u32 \<times> 'h clock" where
  "millis sdk s =
     (case system_get_time sdk (clk_io s) of (m, h) \<Rightarrow>
        let c = micros_overflow_count s + (if m < micros_at_last_overflow_tick s then 1 else 0)
        in (c * 4294967 + m div 1000, s\<lparr>clk_io := h\<rparr>))"

definition micros :: "'h sdk \<Rightarrow> 'h clock \<Rightarrow> u32 \<times> 'h clock" where
  "micros sdk s = (case system_get_time sdk (clk_io s) of (m, h) \<Rightarrow> (m, s\<lparr>clk_io := h\<rparr>))"

definition delayMicroseconds :: "'h sdk \<Rightarrow> u32 \<Rightarrow> 'h clock \<Rightarrow> 'h clock" where
  "delayMicroseconds sdk us s = on_sdk sdk (Os_delay_us us) s"

definition init_wiring :: "'h sdk \<Rightarrow> 'h clock \<Rightarrow> 'h clock" where
  "init_wiring sdk s =
     on_sdk sdk (Os_timer_arm Micros_overflow_timer 60000 True)
       (on_sdk sdk (Os_timer_setfn Micros_overflow_timer Micros_overflow_tick)
         (on_sdk sdk Timer1_isr_init (on_sdk sdk Init_pins s)))"

section \<open>Calendar time\<close>

definition ensureBootTimeIsSet :: "'h sdk \<Rightarrow> 'h clock \<Rightarrow> 'h clock" where
  "ensureBootTimeIsSet sdk s =
     (if s_bootTime s = 0 then
        case sntp_get_current_timestamp sdk (clk_io s) of (now, h) \<Rightarrow>
          let s = s\<lparr>clk_io := h\<rparr>
          in if now \<noteq> 0 then case millis sdk s of (ms, s) \<Rightarrow> s\<lparr>s_bootTime := now - ms div 1000\<rparr> else s
      else s)"

definition setServer :: "'h sdk \<Rightarrow> nat \<Rightarrow> string option \<Rightarrow> 'h clock \<Rightarrow> 'h clock" where
  "setServer sdk i name s = (case name of None \<Rightarrow> s | Some n \<Rightarrow> on_sdk sdk (Sntp_setservername i n) s)"

definition configTime ::
  "'h sdk \<Rightarrow> int \<Rightarrow> int \<Rightarrow> string option \<Rightarrow> string option \<Rightarrow> string option \<Rightarrow> 'h clock \<Rightarrow> 'h clock" where
  "configTime sdk timezone daylightOffset_sec server1 server2 server3 s =
     (let s = on_sdk sdk Sntp_stop s;
          s = setServer sdk 2 server3 (setServer sdk 1 server2 (setServer sdk 0 server1 s));
          s = s\<lparr>s_timezone_sec := timezone, s_daylightOffset_sec := daylightOffset_sec\<rparr>
      in on_sdk sdk Sntp_init (on_sdk sdk (Sntp_set_timezone (timezone sdiv 3600)) s))"

text \<open>The results are seconds and nanoseconds (microseconds).\<close>

definition clock_gettime :: "'h sdk \<Rightarrow> 'h clock \<Rightarrow> (u32 \<times> u32) \<times> 'h clock" where
  "clock_gettime sdk s = (case millis sdk s of (ms, s) \<Rightarrow> case micros sdk s of (us, s) \<Rightarrow> ((ms div 1000, us * 1000), s))"

definition time_c :: "'h sdk \<Rightarrow> 'h clock \<Rightarrow> u32 \<times> 'h clock" where
  "time_c sdk s = (case sntp_get_current_timestamp sdk (clk_io s) of (seconds, h) \<Rightarrow> (seconds, s\<lparr>clk_io := h\<rparr>))"

text \<open>\<open>tp\<close> says whether the caller passed a place for the result.\<close>

definition gettimeofday :: "'h sdk \<Rightarrow> bool \<Rightarrow> 'h clock \<Rightarrow> (u32 \<times> u32) option \<times> 'h clock" where
  "gettimeofday sdk tp s =
     (if tp then
        let s = ensureBootTimeIsSet sdk s
        in case millis sdk s of (ms, s) \<Rightarrow> case micros sdk s of (us, s) \<Rightarrow>
             (Some (s_bootTime s + ms div 1000, us * 1000), s)
      else (None, s))"

section \<open>Elapsed milliseconds\<close>

text \<open>
  A chip whose state is the true time since the start in microseconds, not wrapped: its clock
  shows it modulo \<open>2 ^ 32\<close>.  Setting the time lets time pass.
\<close>

definition true_time_sdk :: "nat sdk" where
  "true_time_sdk = \<lparr>system_get_time = (\<lambda>T. (of_nat T, T)), sntp_get_current_timestamp = (\<lambda>T. (0, T)), sdk_do = (\<lambda>k T. T)\<rparr>"

definition tick_at :: "nat \<Rightarrow> nat clock \<Rightarrow> nat clock" where
  "tick_at T s = micros_overflow_tick true_time_sdk (s\<lparr>clk_io := T\<rparr>)"

fun ticks_spaced :: "nat \<Rightarrow> nat list \<Rightarrow> nat \<Rightarrow> bool" where
  "ticks_spaced T0 [] T \<longleftrightarrow> T0 \<le> T \<and> T < T0 + 4294967296"
| "ticks_spaced T0 (T1 # Ts) T \<longleftrightarrow> T0 \<le> T1 \<and> T1 < T0 + 4294967296 \<and> ticks_spaced T1 Ts T"

definition counts :: "nat clock \<Rightarrow> nat \<Rightarrow> bool" where
  "counts s T \<longleftrightarrow> micros_overflow_count s = of_nat (T div 4294967296) \<and> micros_at_last_overflow_tick s = of_nat T"

lemma unat_now: "unat (of_nat T :: u32) = T mod 4294967296"
  by (simp add: unat_of_nat)

lemma div_within:
  assumes "T0 \<le> T" "T < T0 + (4294967296 :: nat)"
  shows "T div 4294967296 = T0 div 4294967296 + (if T mod 4294967296 < T0 mod 4294967296 then 1 else 0)"
proof -
  define a b k where "a = T0 div 4294967296" and "b = T0 mod 4294967296" and "k = T - T0"
  have b: "b < 4294967296" and T0: "T0 = b + 4294967296 * a" by (simp_all add: a_def b_def)
  have k: "k < 4294967296" and T: "T = (b + k) + 4294967296 * a" using assms T0 by (simp_all add: k_def)
  show ?thesis
  proof (cases "b + k < 4294967296")
    case True
    then show ?thesis using b by (simp add: T T0)
  next
    case False
    then obtain r where r: "b + k = r + 4294967296" by (metis add.commute le_Suc_ex not_less)
    then have "T = r + 4294967296 * (a + 1)" "r < b" using b k T by simp_all
    then have "T div 4294967296 = a + 1" "T mod 4294967296 < b" using b by (simp_all del: mult_Suc_right)
    moreover have "T0 div 4294967296 = a" "T0 mod 4294967296 = b" by (simp_all add: a_def b_def)
    ultimately show ?thesis by simp
  qed
qed

lemma overflow_count:
  assumes "counts s T0" "T0 \<le> T" "T < T0 + 4294967296"
  shows "micros_overflow_count s + (if (of_nat T :: u32) < micros_at_last_overflow_tick s then 1 else 0) = of_nat (T div 4294967296)"
  using assms div_within [OF assms(2,3)] by (simp add: counts_def word_less_nat_alt unat_now)

lemma tick_counts: "counts s T0 \<Longrightarrow> T0 \<le> T \<Longrightarrow> T < T0 + 4294967296 \<Longrightarrow> counts (tick_at T s) T"
  using overflow_count [of s T0 T]
  by (auto simp: counts_def tick_at_def micros_overflow_tick_def true_time_sdk_def Let_def)

lemma ticks_count:
  "counts s T0 \<Longrightarrow> ticks_spaced T0 Ts T \<Longrightarrow> \<exists>T1. counts (fold tick_at Ts s) T1 \<and> T1 \<le> T \<and> T < T1 + 4294967296"
proof (induction Ts arbitrary: s T0)
  case (Cons T1 Ts)
  then show ?case using tick_counts [of s T0 T1] by auto
qed auto



end
