(* ===== verification/Sha1.thy ===== *)
theory Sha1
  imports Prelude "HOL-Library.Monad_Syntax"
begin

text \<open>
  SHA-1 of the Hash library, libraries/Hash/src/sha1/sha1.c: the compression of a block by
  eighty macro calls on five rotating variables and a ring of sixteen words, the streaming
  interface, and the theorem that streaming any chunks gives the hash FIPS 180 defines of their
  concatenation.  \<open>None\<close> is an access outside an array, or a loop that does not end.
\<close>

section \<open>One block\<close>

datatype reg = Va | Vb | Vc | Vd | Ve

datatype round_call =
  R0 reg reg reg reg reg nat
| R1 reg reg reg reg reg nat
| R2 reg reg reg reg reg nat
| R3 reg reg reg reg reg nat
| R4 reg reg reg reg reg nat

definition rol :: "u32 \<Rightarrow> nat \<Rightarrow> u32" where
  "rol v bits = push_bit bits v OR drop_bit (32 - bits) v"

text \<open>The two expansions return the word and the changed block.\<close>

definition blk0 :: "nat \<Rightarrow> u32 list \<Rightarrow> u32 \<times> u32 list" where
  "blk0 i block =
     (let v = (rol (block ! i) 24 AND 0xFF00FF00) OR (rol (block ! i) 8 AND 0x00FF00FF) in (v, block[i := v]))"

definition blk :: "nat \<Rightarrow> u32 list \<Rightarrow> u32 \<times> u32 list" where
  "blk i block =
     (let v = rol (block ! ((i + 13) mod 16) XOR block ! ((i + 8) mod 16) XOR block ! ((i + 2) mod 16) XOR block ! (i mod 16)) 1
      in (v, block[i mod 16 := v]))"

text \<open>A round adds to its last variable and rotates its second one.\<close>

definition do_round :: "u32 \<Rightarrow> u32 \<times> u32 list \<Rightarrow> u32 \<Rightarrow> reg \<Rightarrow> reg \<Rightarrow> reg \<Rightarrow> (reg \<Rightarrow> u32) \<Rightarrow> (reg \<Rightarrow> u32) \<times> u32 list" where
  "do_round f wb k v w z r =
     (let r = r(z := r z + (f + fst wb + k + rol (r v) 5)); r = r(w := rol (r w) 30) in (r, snd wb))"

fun run_call :: "round_call \<Rightarrow> (reg \<Rightarrow> u32) \<times> u32 list \<Rightarrow> (reg \<Rightarrow> u32) \<times> u32 list" where
  "run_call (R0 v w x y z i) (r, b) =
     do_round ((r w AND (r x XOR r y)) XOR r y) (blk0 i b) 0x5A827999 v w z r"
| "run_call (R1 v w x y z i) (r, b) =
     do_round ((r w AND (r x XOR r y)) XOR r y) (blk i b) 0x5A827999 v w z r"
| "run_call (R2 v w x y z i) (r, b) =
     do_round (r w XOR r x XOR r y) (blk i b) 0x6ED9EBA1 v w z r"
| "run_call (R3 v w x y z i) (r, b) =
     do_round (((r w OR r x) AND r y) OR (r w AND r x)) (blk i b) 0x8F1BBCDC v w z r"
| "run_call (R4 v w x y z i) (r, b) =
     do_round (r w XOR r x XOR r y) (blk i b) 0xCA62C1D6 v w z r"

definition rounds :: "round_call list" where
  "rounds =
    [R0 Va Vb Vc Vd Ve 0, R0 Ve Va Vb Vc Vd 1, R0 Vd Ve Va Vb Vc 2, R0 Vc Vd Ve Va Vb 3,
     R0 Vb Vc Vd Ve Va 4, R0 Va Vb Vc Vd Ve 5, R0 Ve Va Vb Vc Vd 6, R0 Vd Ve Va Vb Vc 7,
     R0 Vc Vd Ve Va Vb 8, R0 Vb Vc Vd Ve Va 9, R0 Va Vb Vc Vd Ve 10, R0 Ve Va Vb Vc Vd 11,
     R0 Vd Ve Va Vb Vc 12, R0 Vc Vd Ve Va Vb 13, R0 Vb Vc Vd Ve Va 14, R0 Va Vb Vc Vd Ve 15,
     R1 Ve Va Vb Vc Vd 16, R1 Vd Ve Va Vb Vc 17, R1 Vc Vd Ve Va Vb 18, R1 Vb Vc Vd Ve Va 19,
     R2 Va Vb Vc Vd Ve 20, R2 Ve Va Vb Vc Vd 21, R2 Vd Ve Va Vb Vc 22, R2 Vc Vd Ve Va Vb 23,
     R2 Vb Vc Vd Ve Va 24, R2 Va Vb Vc Vd Ve 25, R2 Ve Va Vb Vc Vd 26, R2 Vd Ve Va Vb Vc 27,
     R2 Vc Vd Ve Va Vb 28, R2 Vb Vc Vd Ve Va 29, R2 Va Vb Vc Vd Ve 30, R2 Ve Va Vb Vc Vd 31,
     R2 Vd Ve Va Vb Vc 32, R2 Vc Vd Ve Va Vb 33, R2 Vb Vc Vd Ve Va 34, R2 Va Vb Vc Vd Ve 35,
     R2 Ve Va Vb Vc Vd 36, R2 Vd Ve Va Vb Vc 37, R2 Vc Vd Ve Va Vb 38, R2 Vb Vc Vd Ve Va 39,
     R3 Va Vb Vc Vd Ve 40, R3 Ve Va Vb Vc Vd 41, R3 Vd Ve Va Vb Vc 42, R3 Vc Vd Ve Va Vb 43,
     R3 Vb Vc Vd Ve Va 44, R3 Va Vb Vc Vd Ve 45, R3 Ve Va Vb Vc Vd 46, R3 Vd Ve Va Vb Vc 47,
     R3 Vc Vd Ve Va Vb 48, R3 Vb Vc Vd Ve Va 49, R3 Va Vb Vc Vd Ve 50, R3 Ve Va Vb Vc Vd 51,
     R3 Vd Ve Va Vb Vc 52, R3 Vc Vd Ve Va Vb 53, R3 Vb Vc Vd Ve Va 54, R3 Va Vb Vc Vd Ve 55,
     R3 Ve Va Vb Vc Vd 56, R3 Vd Ve Va Vb Vc 57, R3 Vc Vd Ve Va Vb 58, R3 Vb Vc Vd Ve Va 59,
     R4 Va Vb Vc Vd Ve 60, R4 Ve Va Vb Vc Vd 61, R4 Vd Ve Va Vb Vc 62, R4 Vc Vd Ve Va Vb 63,
     R4 Vb Vc Vd Ve Va 64, R4 Va Vb Vc Vd Ve 65, R4 Ve Va Vb Vc Vd 66, R4 Vd Ve Va Vb Vc 67,
     R4 Vc Vd Ve Va Vb 68, R4 Vb Vc Vd Ve Va 69, R4 Va Vb Vc Vd Ve 70, R4 Ve Va Vb Vc Vd 71,
     R4 Vd Ve Va Vb Vc 72, R4 Vc Vd Ve Va Vb 73, R4 Vb Vc Vd Ve Va 74, R4 Va Vb Vc Vd Ve 75,
     R4 Ve Va Vb Vc Vd 76, R4 Vd Ve Va Vb Vc 77, R4 Vc Vd Ve Va Vb 78, R4 Vb Vc Vd Ve Va 79]"

definition words_of_block :: "u8 list \<Rightarrow> u32 list" where
  "words_of_block buffer =
     map (\<lambda>i. ucast (buffer ! (4 * i)) OR push_bit 8 (ucast (buffer ! (4 * i + 1))) OR
              push_bit 16 (ucast (buffer ! (4 * i + 2))) OR push_bit 24 (ucast (buffer ! (4 * i + 3)))) [0..<16]"

definition SHA1Transform :: "u32 list \<Rightarrow> u8 list \<Rightarrow> u32 list" where
  "SHA1Transform state buffer =
     (case fold run_call rounds
             (\<lambda>v. case v of Va \<Rightarrow> state ! 0 | Vb \<Rightarrow> state ! 1 | Vc \<Rightarrow> state ! 2 | Vd \<Rightarrow> state ! 3 | Ve \<Rightarrow> state ! 4,
              words_of_block buffer) of
        (r, _) \<Rightarrow> [state ! 0 + r Va, state ! 1 + r Vb, state ! 2 + r Vc, state ! 3 + r Vd, state ! 4 + r Ve])"

section \<open>The streaming interface\<close>

record SHA1_CTX =
  ctx_state :: "u32 list"
  count0 :: u32
  count1 :: u32
  ctx_buffer :: "u8 list"

definition SHA1Init :: "SHA1_CTX \<Rightarrow> SHA1_CTX" where
  "SHA1Init context = context\<lparr>ctx_state := [0x67452301, 0xEFCDAB89, 0x98BADCFE, 0x10325476, 0xC3D2E1F0],
     count0 := 0, count1 := 0\<rparr>"

text \<open>\<open>memcpy(dst + at, src + from, n)\<close> between two arrays.\<close>

definition copy_into :: "u8 list \<Rightarrow> nat \<Rightarrow> u8 list \<Rightarrow> nat \<Rightarrow> nat \<Rightarrow> u8 list option" where
  "copy_into dst at src from n =
     (if at + n \<le> length dst \<and> from + n \<le> length src
      then Some (take at dst @ take n (drop from src) @ drop (at + n) dst) else None)"

partial_function (option) transform_blocks :: "u32 list \<Rightarrow> u8 list \<Rightarrow> u32 \<Rightarrow> u32 \<Rightarrow> (u32 list \<times> u32) option" where
  "transform_blocks state data len i =
     (if i + 63 < len then
        if unat i + 64 \<le> length data
        then transform_blocks (SHA1Transform state (take 64 (drop (unat i) data))) data len (i + 64)
        else None
      else Some (state, i))"

definition SHA1Update :: "SHA1_CTX \<Rightarrow> u8 list \<Rightarrow> u32 \<Rightarrow> SHA1_CTX option" where
  "SHA1Update context data len =
     (let j = count0 context;
          context = context\<lparr>count0 := count0 context + push_bit 3 len\<rparr>;
          context = (if count0 context < j then context\<lparr>count1 := count1 context + 1\<rparr> else context);
          context = context\<lparr>count1 := count1 context + drop_bit 29 len\<rparr>;
          j = drop_bit 3 j AND 63
      in do {
        (context, i, j) \<leftarrow>
          (if j + len > 63 then do {
             b \<leftarrow> copy_into (ctx_buffer context) (unat j) data 0 (unat (64 - j));
             (state, i) \<leftarrow> transform_blocks (SHA1Transform (ctx_state context) b) data len (64 - j);
             Some (context\<lparr>ctx_state := state, ctx_buffer := b\<rparr>, i, 0) }
           else Some (context, 0, j));
        b \<leftarrow> copy_into (ctx_buffer context) (unat j) data (unat i) (unat (len - i));
        Some (context\<lparr>ctx_buffer := b\<rparr>) })"

partial_function (option) pad_zeroes :: "SHA1_CTX \<Rightarrow> SHA1_CTX option" where
  "pad_zeroes context =
     (if count0 context AND 504 \<noteq> 448 then do { context \<leftarrow> SHA1Update context [0] 1; pad_zeroes context }
      else Some context)"

definition byte_at :: "u32 \<Rightarrow> nat \<Rightarrow> u8" where
  "byte_at v i = ucast (drop_bit ((3 - i) * 8) v AND 255)"

text \<open>The digest, and the context wiped.\<close>

definition SHA1Final :: "SHA1_CTX \<Rightarrow> (u8 list \<times> SHA1_CTX) option" where
  "SHA1Final context =
     (let finalcount = map (\<lambda>i. byte_at (if 4 \<le> i then count0 context else count1 context) (i mod 4)) [0..<8]
      in do {
        context \<leftarrow> SHA1Update context [0x80] 1;
        context \<leftarrow> pad_zeroes context;
        context \<leftarrow> SHA1Update context finalcount 8;
        Some (map (\<lambda>i. byte_at (ctx_state context ! (i div 4)) (i mod 4)) [0..<20],
              \<lparr>ctx_state = replicate 5 0, count0 = 0, count1 = 0, ctx_buffer = replicate 64 0\<rparr>) })"

section \<open>The standard\<close>

definition fips_K :: "nat \<Rightarrow> u32" where
  "fips_K t = (if t < 20 then 0x5A827999 else if t < 40 then 0x6ED9EBA1 else if t < 60 then 0x8F1BBCDC else 0xCA62C1D6)"

definition fips_f :: "nat \<Rightarrow> u32 \<Rightarrow> u32 \<Rightarrow> u32 \<Rightarrow> u32" where
  "fips_f t x y z =
     (if t < 20 then (x AND y) XOR (NOT x AND z)
      else if 40 \<le> t \<and> t < 60 then (x AND y) XOR (x AND z) XOR (y AND z)
      else x XOR y XOR z)"

text \<open>Words are big-endian bytes.\<close>

definition be_word :: "u8 list \<Rightarrow> u32" where
  "be_word bs = foldl (\<lambda>w b. 256 * w + ucast b) 0 bs"

definition be_bytes :: "nat \<Rightarrow> 'a::len word \<Rightarrow> u8 list" where
  "be_bytes n w = map (\<lambda>i. ucast (drop_bit (8 * i) w)) (rev [0..<n])"

text \<open>The message schedule of a block.\<close>

function fips_W :: "u8 list \<Rightarrow> nat \<Rightarrow> u32" where
  "fips_W M t =
     (if t < 16 then be_word [M ! (4 * t), M ! (4 * t + 1), M ! (4 * t + 2), M ! (4 * t + 3)]
      else word_rotl 1 (fips_W M (t - 3) XOR fips_W M (t - 8) XOR fips_W M (t - 14) XOR fips_W M (t - 16)))"
  by pat_completeness auto
termination by (relation "measure snd") auto

declare fips_W.simps [simp del]

type_synonym fips_state = "u32 \<times> u32 \<times> u32 \<times> u32 \<times> u32"

fun fips_round :: "u8 list \<Rightarrow> nat \<Rightarrow> fips_state \<Rightarrow> fips_state" where
  "fips_round M t (a, b, c, d, e) =
     (word_rotl 5 a + fips_f t b c d + e + fips_K t + fips_W M t, a, word_rotl 30 b, c, d)"

definition fips_block :: "u8 list \<Rightarrow> u32 list \<Rightarrow> u32 list" where
  "fips_block M H =
     (case fold (fips_round M) [0..<80] (H ! 0, H ! 1, H ! 2, H ! 3, H ! 4) of
        (a, b, c, d, e) \<Rightarrow> [a + H ! 0, b + H ! 1, c + H ! 2, d + H ! 3, e + H ! 4])"

function fips_blocks :: "u8 list \<Rightarrow> u32 list \<Rightarrow> u32 list" where
  "fips_blocks m H = (if length m < 64 then H else fips_blocks (drop 64 m) (fips_block (take 64 m) H))"
  by pat_completeness auto
termination by (relation "measure (\<lambda>(m, H). length m)") auto

declare fips_blocks.simps [simp del]

definition fips_pad :: "u8 list \<Rightarrow> u8 list" where
  "fips_pad m = m @ [0x80] @ replicate ((119 - length m mod 64) mod 64) 0 @ be_bytes 8 (of_nat (8 * length m) :: 64 word)"

definition fips_initial :: "u32 list" where
  "fips_initial = [0x67452301, 0xEFCDAB89, 0x98BADCFE, 0x10325476, 0xC3D2E1F0]"

definition fips_sha1 :: "u8 list \<Rightarrow> u8 list" where
  "fips_sha1 m = concat (map (be_bytes 4) (fips_blocks (fips_pad m) fips_initial))"

section \<open>A block is compressed as the standard says\<close>

lemma rol_rotl: "0 < n \<Longrightarrow> n < 32 \<Longrightarrow> rol v n = word_rotl n v"
proof (rule bit_word_eqI)
  fix k assume "0 < n" "n < 32" "k < LENGTH(32)"
  moreover from this have "(k + (32 - n)) mod 32 = (if n \<le> k then k - n else 32 + k - n)"
    by (auto simp: mod_if)
  ultimately show "bit (rol v n) k = bit (word_rotl n v) k"
    by (auto simp: rol_def bit_word_rotl_iff bit_or_iff bit_push_bit_iff bit_drop_bit_eq dest: bit_imp_le_length)
qed

definition reg_at :: "nat \<Rightarrow> reg" where
  "reg_at k = [Va, Vb, Vc, Vd, Ve] ! (k mod 5)"

definition call_at :: "nat \<Rightarrow> round_call" where
  "call_at i = (if i < 16 then R0 else if i < 20 then R1 else if i < 40 then R2 else if i < 60 then R3 else R4)
     (reg_at (80 - i)) (reg_at (81 - i)) (reg_at (82 - i)) (reg_at (83 - i)) (reg_at (84 - i)) i"

lemma rounds_are_calls: "rounds = map call_at [0..<80]"
  by code_simp

lemma regs_distinct: "distinct [reg_at n, reg_at (n + 1), reg_at (n + 2), reg_at (n + 3), reg_at (n + 4)]"
proof -
  consider "n mod 5 = 0" | "n mod 5 = 1" | "n mod 5 = 2" | "n mod 5 = 3" | "n mod 5 = 4" by linarith
  then have d: "distinct [reg_at (0 + c), reg_at (1 + c), reg_at (2 + c), reg_at (3 + c), reg_at (4 + c)]" if "c = n mod 5" for c
    unfolding that by cases (simp_all add: reg_at_def)
  have r: "reg_at (k + n) = reg_at (k + n mod 5)" for k by (simp add: reg_at_def mod_add_right_eq)
  have "distinct [reg_at (0 + n), reg_at (1 + n), reg_at (2 + n), reg_at (3 + n), reg_at (4 + n)]"
    unfolding r by (rule d) (rule refl)
  then show ?thesis by (simp only: add.commute [of _ n] add_0_right)
qed

lemma reg_at_5: "reg_at (n + 5) = reg_at n"
  by (simp add: reg_at_def)

lemma shift_add: "256 * w + ucast (b :: u8) = push_bit 8 w OR (ucast b :: u32)"
proof -
  have "push_bit 8 w + ucast b = push_bit 8 w OR (ucast b :: u32)"
    by (rule disjunctive_add_eq_or) (rule bit_word_eqI, auto simp: bit_simps dest: bit_imp_le_length)
  then show ?thesis by (simp add: push_bit_eq_mult mult.commute)
qed

lemma choice: "((w AND (x XOR y)) XOR y) = (w AND x) XOR (NOT w AND (y :: u32))"
  by (rule bit_word_eqI) (auto simp: bit_simps)

lemma majority: "((w OR x) AND y) OR (w AND x) = (w AND x) XOR (w AND y) XOR (x AND (y :: u32))"
  by (rule bit_word_eqI) (auto simp: bit_simps)

lemma low_masks:
  "0xFF00FF00 = push_bit 8 (mask 8) OR push_bit 24 (mask 8 :: u32)" "0x00FF00FF = mask 8 OR push_bit 16 (mask 8 :: u32)"
  by (simp_all add: mask_eq_exp_minus_1)

lemma swap_word:
  fixes b0 b1 b2 b3 :: u8 and w :: u32
  assumes "w = ucast b0 OR push_bit 8 (ucast b1) OR push_bit 16 (ucast b2) OR push_bit 24 (ucast b3)"
  shows "(rol w 24 AND 0xFF00FF00) OR (rol w 8 AND 0x00FF00FF) = be_word [b0, b1, b2, b3]"
proof (rule bit_word_eqI)
  fix n assume "n < LENGTH(32)"
  then consider "n < 8" | "8 \<le> n" "n < 16" | "16 \<le> n" "n < 24" | "24 \<le> n" "n < 32" by fastforce
  then show "bit ((rol w 24 AND 0xFF00FF00) OR (rol w 8 AND 0x00FF00FF)) n = bit (be_word [b0, b1, b2, b3]) n"
    unfolding low_masks
    by cases (auto simp: be_word_def shift_add assms rol_def bit_mask_iff bit_or_iff bit_and_iff bit_push_bit_iff
                bit_drop_bit_eq bit_unsigned_iff push_bit_or dest: bit_imp_le_length)
qed

text \<open>Before round \<open>i\<close>, the ring holds the last sixteen words of the schedule.\<close>

definition schedule_ring :: "u8 list \<Rightarrow> nat \<Rightarrow> u32 list \<Rightarrow> bool" where
  "schedule_ring M i b \<longleftrightarrow> length b = 16 \<and> (\<forall>t. t < i \<and> i \<le> t + 16 \<longrightarrow> b ! (t mod 16) = fips_W M t) \<and>
     (\<forall>t. i \<le> t \<and> t < 16 \<longrightarrow> b ! t = words_of_block M ! t)"

lemma ring_start: "schedule_ring M 0 (words_of_block M)"
  by (simp add: schedule_ring_def words_of_block_def)

lemma blk0_ring:
  assumes "schedule_ring M i b" "i < 16"
  shows "fst (blk0 i b) = fips_W M i \<and> schedule_ring M (Suc i) (snd (blk0 i b))"
proof -
  have "b ! i = words_of_block M ! i" using assms by (simp add: schedule_ring_def)
  then have "b ! i = ucast (M ! (4 * i)) OR push_bit 8 (ucast (M ! (4 * i + 1))) OR
      push_bit 16 (ucast (M ! (4 * i + 2))) OR push_bit 24 (ucast (M ! (4 * i + 3)))"
    using assms(2) by (simp add: words_of_block_def del: upt_Suc)
  from swap_word [OF this] have v: "fst (blk0 i b) = fips_W M i"
    using assms(2) by (simp add: blk0_def Let_def fips_W.simps [of M i])
  have "snd (blk0 i b) = b[i := fips_W M i]" using v by (simp add: blk0_def Let_def)
  then show ?thesis using v assms by (auto simp: schedule_ring_def nth_list_update less_Suc_eq)
qed

lemma blk_ring:
  assumes "schedule_ring M i b" "16 \<le> i"
  shows "fst (blk i b) = fips_W M i \<and> schedule_ring M (Suc i) (snd (blk i b))"
proof -
  have r: "b ! (t mod 16) = fips_W M t" if "t < i" "i \<le> t + 16" for t using assms(1) that by (simp add: schedule_ring_def)
  have ix: "(i + 13) mod 16 = (i - 3) mod 16" "(i + 8) mod 16 = (i - 8) mod 16" "(i + 2) mod 16 = (i - 14) mod 16"
    "i mod 16 = (i - 16) mod 16"
    using mod_add_self2 [of "i - 3" 16] mod_add_self2 [of "i - 8" 16] mod_add_self2 [of "i - 14" 16] mod_add_self2 [of "i - 16" 16]
      assms(2) by (simp_all add: add.commute)
  have v: "fst (blk i b) = fips_W M i"
  proof -
    have "fst (blk i b) = rol (fips_W M (i - 3) XOR fips_W M (i - 8) XOR fips_W M (i - 14) XOR fips_W M (i - 16)) 1"
      unfolding blk_def Let_def ix fst_conv using assms(2) by (simp add: r)
    then show ?thesis using assms(2) by (subst fips_W.simps) (simp add: rol_rotl)
  qed
  have "snd (blk i b) = b[i mod 16 := fips_W M i]" using v by (simp add: blk_def Let_def)
  moreover have False if "i mod 16 = t mod 16" "t < i" "i \<le> 15 + t" for t
    using that mod_eq_dvd_iff_nat [of t i 16] dvd_imp_le [of 16 "i - t"] by auto
  ultimately show ?thesis using v assms by (auto simp: schedule_ring_def nth_list_update less_Suc_eq)
qed

definition vars_at :: "nat \<Rightarrow> (reg \<Rightarrow> u32) \<Rightarrow> fips_state" where
  "vars_at n r = (r (reg_at n), r (reg_at (n + 1)), r (reg_at (n + 2)), r (reg_at (n + 3)), r (reg_at (n + 4)))"

lemma do_round_regs:
  assumes "distinct [p0, p1, p2, p3, p4]" "r' = fst (do_round f wb k p1 p2 p0 r)"
  shows "r' p0 = word_rotl 5 (r p1) + f + r p0 + k + fst wb" "r' p1 = r p1" "r' p2 = word_rotl 30 (r p2)"
    "r' p3 = r p3" "r' p4 = r p4"
  using assms(1) by (auto simp: assms(2) do_round_def Let_def rol_rotl)

lemma vars_at_Suc:
  "vars_at (Suc n) r = (r (reg_at (n + 1)), r (reg_at (n + 2)), r (reg_at (n + 3)), r (reg_at (n + 4)), r (reg_at n))"
  using reg_at_5 [of n] by (simp add: vars_at_def eval_nat_numeral)

lemma call_at_round:
  "run_call (call_at i) (r, b) =
     do_round (fips_f i (r (reg_at (81 - i))) (r (reg_at (82 - i))) (r (reg_at (83 - i)))) (if i < 16 then blk0 i b else blk i b)
       (fips_K i) (reg_at (80 - i)) (reg_at (81 - i)) (reg_at (84 - i)) r"
  by (simp add: call_at_def fips_f_def fips_K_def choice majority)

lemma round_step:
  assumes "schedule_ring M i b" "i < 80"
  shows "vars_at (79 - i) (fst (run_call (call_at i) (r, b))) = fips_round M i (vars_at (80 - i) r) \<and>
    schedule_ring M (Suc i) (snd (run_call (call_at i) (r, b)))"
proof -
  define n where "n = 79 - i"
  have n: "80 - i = n + 1" "81 - i = n + 2" "82 - i = n + 3" "83 - i = n + 4" "84 - i = n + 5" "79 - i = n"
    using assms(2) by (simp_all add: n_def)
  define wb where "wb = (if i < 16 then blk0 i b else blk i b)"
  have wb: "fst wb = fips_W M i" "schedule_ring M (Suc i) (snd wb)"
    using blk0_ring [OF assms(1)] blk_ring [OF assms(1)] by (auto simp: wb_def)
  have run: "run_call (call_at i) (r, b) = do_round (fips_f i (r (reg_at (n + 2))) (r (reg_at (n + 3))) (r (reg_at (n + 4)))) wb
      (fips_K i) (reg_at (n + 1)) (reg_at (n + 2)) (reg_at n) r"
    unfolding call_at_round n wb_def reg_at_5 ..
  note do_round_regs [OF regs_distinct [of n] refl, of "fips_f i (r (reg_at (n + 2))) (r (reg_at (n + 3))) (r (reg_at (n + 4)))"
      wb "fips_K i" r, folded run]
  then have "vars_at n (fst (run_call (call_at i) (r, b))) = fips_round M i (vars_at (Suc n) r)"
    unfolding vars_at_Suc unfolding vars_at_def by (simp only: wb fips_round.simps)
  moreover have "snd (run_call (call_at i) (r, b)) = snd wb" unfolding run by (simp add: do_round_def Let_def)
  ultimately show ?thesis using wb(2) unfolding n by simp
qed

lemma rounds_prefix:
  "i \<le> 80 \<Longrightarrow> schedule_ring M 0 b \<Longrightarrow>
   vars_at (80 - i) (fst (fold run_call (map call_at [0..<i]) (r, b))) = fold (fips_round M) [0..<i] (vars_at 80 r) \<and>
   schedule_ring M i (snd (fold run_call (map call_at [0..<i]) (r, b)))"
proof (induction i)
  case (Suc i)
  obtain r' b' where rb: "fold run_call (map call_at [0..<i]) (r, b) = (r', b')" by fastforce
  have "80 - Suc i = 79 - i" by simp
  then show ?case using Suc rb round_step [of M i b' r'] by simp
qed simp

lemma transform_is_fips: "length state = 5 \<Longrightarrow> SHA1Transform state buffer = fips_block buffer state"
proof -
  define r0 where "r0 = (\<lambda>v. case v of Va \<Rightarrow> state ! 0 | Vb \<Rightarrow> state ! 1 | Vc \<Rightarrow> state ! 2 | Vd \<Rightarrow> state ! 3 | Ve \<Rightarrow> state ! 4)"
  obtain r b where rb: "fold run_call rounds (r0, words_of_block buffer) = (r, b)" by fastforce
  have "vars_at 0 r = fold (fips_round buffer) [0..<80] (vars_at 80 r0)"
    using rounds_prefix [of 80 buffer "words_of_block buffer" r0] ring_start rb by (simp add: rounds_are_calls del: upt_Suc upt_rec_numeral)
  then have "fold (fips_round buffer) [0..<80] (vars_at 80 r0) = vars_at 0 r" by (rule sym)
  moreover have "vars_at 0 r = (r Va, r Vb, r Vc, r Vd, r Ve)" "vars_at 80 r0 = (state ! 0, state ! 1, state ! 2, state ! 3, state ! 4)"
    by (simp_all add: vars_at_def reg_at_def r0_def)
  ultimately show ?thesis
    unfolding SHA1Transform_def fips_block_def r0_def [symmetric] rb
    by (simp only: prod.case) (simp add: add.commute)
qed

section \<open>Streaming\<close>

lemma fips_block_length [simp]: "length (fips_block M H) = 5"
  by (simp add: fips_block_def split: prod.split)

lemma fips_blocks_length [simp]: "length H = 5 \<Longrightarrow> length (fips_blocks m H) = 5"
  by (induction m H rule: fips_blocks.induct) (subst fips_blocks.simps, simp)

lemma fips_blocks_short: "length m < 64 \<Longrightarrow> fips_blocks m H = H"
  by (subst fips_blocks.simps) simp

lemma fips_blocks_append: "length xs mod 64 = 0 \<Longrightarrow> fips_blocks (xs @ ys) H = fips_blocks ys (fips_blocks xs H)"
proof (induction xs H rule: fips_blocks.induct)
  case (1 xs H)
  show ?case
  proof (cases "length xs < 64")
    case True
    then have "xs = []" using "1.prems" by simp
    then show ?thesis by (simp add: fips_blocks_short)
  next
    case False
    then have "length (drop 64 xs) mod 64 = 0" using "1.prems" by (simp add: le_mod_geq [symmetric])
    with "1.IH" False have ih: "fips_blocks (drop 64 xs @ ys) (fips_block (take 64 xs) H) = fips_blocks ys (fips_blocks (drop 64 xs) (fips_block (take 64 xs) H))"
      by simp
    show ?thesis
      using False ih fips_blocks.simps [of "xs @ ys" H] fips_blocks.simps [of xs H] by simp
  qed
qed

lemma transform_blocks_spec:
  "length data = unat len \<Longrightarrow> unat len < 4294967232 \<Longrightarrow> unat i \<le> unat len \<Longrightarrow> length st = 5 \<Longrightarrow>
   \<exists>i'. transform_blocks st data len i = Some (fips_blocks (drop (unat i) data) st, i') \<and>
     unat i' = unat i + 64 * ((unat len - unat i) div 64)"
proof (induction "unat len - unat i" arbitrary: i st rule: less_induct)
  case less
  have i63: "unat (i + 63) = unat i + 63" using less.prems(2,3) by (simp add: unat_word_ariths)
  show ?case
  proof (cases "unat i + 64 \<le> unat len")
    case False
    then have "\<not> i + 63 < len" using i63 by (simp add: word_less_nat_alt)
    then have "transform_blocks st data len i = Some (st, i)" by (subst transform_blocks.simps) simp
    then show ?thesis using False less.prems(1) by (simp add: fips_blocks_short div_if)
  next
    case True
    then have lt: "i + 63 < len" using i63 by (simp add: word_less_nat_alt)
    have i64: "unat (i + 64) = unat i + 64" using less.prems(2,3) by (simp add: unat_word_ariths)
    let ?b = "take 64 (drop (unat i) data)"
    have eq: "transform_blocks st data len i = transform_blocks (fips_block ?b st) data len (i + 64)"
      using lt True less.prems(1) transform_is_fips [OF less.prems(4)] by (subst transform_blocks.simps) simp
    obtain i' where i': "transform_blocks (fips_block ?b st) data len (i + 64) = Some (fips_blocks (drop (unat i + 64) data) (fips_block ?b st), i')"
      "unat i' = unat i + 64 + 64 * ((unat len - (unat i + 64)) div 64)"
      using less.hyps [of "i + 64" "fips_block ?b st"] True less.prems i64 by (auto simp: diff_less_mono2)
    have "\<not> length (drop (unat i) data) < 64" using True less.prems(1) by simp
    then have "fips_blocks (drop (unat i) data) st = fips_blocks (drop (unat i + 64) data) (fips_block ?b st)"
      using fips_blocks.simps [of "drop (unat i) data" st] by (simp add: add.commute)
    moreover have "(unat len - unat i) div 64 = Suc ((unat len - (unat i + 64)) div 64)"
      using True by (simp add: le_div_geq)
    ultimately show ?thesis using eq i' by simp
  qed
qed

section \<open>An update absorbs its data\<close>

definition absorbed :: "u8 list \<Rightarrow> SHA1_CTX \<Rightarrow> bool" where
  "absorbed m ctx \<longleftrightarrow> ctx_state ctx = fips_blocks m fips_initial \<and> length (ctx_buffer ctx) = 64 \<and>
     take (length m mod 64) (ctx_buffer ctx) = drop (64 * (length m div 64)) m \<and>
     count0 ctx = of_nat (8 * length m) \<and> count1 ctx = of_nat (8 * length m div 4294967296)"

lemma absorbed_init: "length (ctx_buffer ctx) = 64 \<Longrightarrow> absorbed [] (SHA1Init ctx)"
  by (simp add: absorbed_def SHA1Init_def fips_blocks_short fips_initial_def)

lemma div_mod_sum: "x + y = x mod n + y mod n + n * (x div n + y div (n :: nat))"
proof -
  have "x + y = (n * (x div n) + x mod n) + (n * (y div n) + y mod n)" by simp
  then show ?thesis by (simp only: distrib_left add_ac)
qed

lemma counts_grow:
  fixes c0 c1 len :: u32
  assumes "c0 = of_nat (8 * L)" "c1 = of_nat (8 * L div 4294967296)"
  shows "c0 + push_bit 3 len = of_nat (8 * (L + unat len))"
    "(if c0 + push_bit 3 len < c0 then c1 + 1 else c1) + drop_bit 29 len = of_nat (8 * (L + unat len) div 4294967296)"
proof -
  have d: "push_bit 3 len = of_nat (8 * unat len)" by (simp add: push_bit_eq_mult)
  show sum: "c0 + push_bit 3 len = of_nat (8 * (L + unat len))" by (simp add: assms(1) d distrib_left)
  have e: "drop_bit 29 len = of_nat (8 * unat len div 4294967296)"
  proof -
    have "drop_bit 29 len = of_nat (unat len div 536870912)" 
    proof -
      have "unat len div 536870912 < 4294967296" by (rule le_less_trans [OF div_le_dividend u32_bound])
      then show ?thesis by (simp add: word_unat_eq_iff unat_drop_bit_eq drop_bit_eq_div unat_of_nat unat_div)
    qed
    moreover have "8 * unat len div 4294967296 = unat len div 536870912" using div_mult_mult1 [of 8 "unat len" 536870912] by simp
    ultimately show ?thesis by simp
  qed
  define a b where "a = 8 * L mod 4294967296" and "b = 8 * unat len mod 4294967296"
  have u: "unat c0 = a" "unat (push_bit 3 len) = b"
    unfolding assms(1) d a_def b_def by (simp_all add: unat_of_nat take_bit_eq_mod del: of_nat_mult)
  have ab: "a < 4294967296" "b < 4294967296" by (simp_all add: a_def b_def)
  have carry: "c0 + push_bit 3 len < c0 \<longleftrightarrow> 4294967296 \<le> a + b"
    using ab u by (cases "a + b < 4294967296") (auto simp: word_less_nat_alt unat_word_ariths mod_if)
  have "8 * (L + unat len) = a + b + 4294967296 * (8 * L div 4294967296 + 8 * unat len div 4294967296)"
    unfolding a_def b_def distrib_left [of 8 L "unat len"] by (rule div_mod_sum)
  then have "8 * (L + unat len) div 4294967296 = (if 4294967296 \<le> a + b then 1 else 0) + (8 * L div 4294967296 + 8 * unat len div 4294967296)"
    using ab by (cases "4294967296 \<le> a + b") (simp_all add: le_div_geq)
  then show "(if c0 + push_bit 3 len < c0 then c1 + 1 else c1) + drop_bit 29 len = of_nat (8 * (L + unat len) div 4294967296)"
    unfolding carry e assms(2) by simp
qed

lemma buffer_index: "unat (drop_bit 3 (of_nat (8 * L) :: u32) AND 63) = L mod 64"
proof -
  have "unat (drop_bit 3 (of_nat (8 * L) :: u32) AND mask 6) = (8 * L mod 4294967296) div 8 mod 64"
    by (simp add: take_bit_eq_mask [symmetric] unsigned_take_bit_eq unat_drop_bit_eq drop_bit_eq_div take_bit_eq_mod
        unat_of_nat unat_div unat_mod del: of_nat_mult)
  also have "8 * L mod 4294967296 = 8 * (L mod 536870912)" using mult_mod_right [of 8 L 536870912] by simp
  also have "8 * (L mod 536870912) div 8 mod 64 = L mod 64" by (simp add: mod_mod_cancel)
  finally show ?thesis by (simp add: mask_eq_exp_minus_1)
qed

lemma absorbedI:
  assumes "length xs mod 64 = 0" "length tail < 64" "ctx_state ctx = fips_blocks xs fips_initial"
    and "length (ctx_buffer ctx) = 64" "take (length tail) (ctx_buffer ctx) = tail"
    and "count0 ctx = of_nat (8 * length (xs @ tail))" "count1 ctx = of_nat (8 * length (xs @ tail) div 4294967296)"
  shows "absorbed (xs @ tail) ctx"
proof -
  obtain q where q: "length xs = 64 * q" using assms(1) by (metis mult_div_mod_eq add_0_right)
  then have "length (xs @ tail) mod 64 = length tail" "length (xs @ tail) div 64 = q" using assms(2) by simp_all
  then show ?thesis
    using assms q by (simp add: absorbed_def fips_blocks_append fips_blocks_short del: of_nat_mult length_append)
qed

lemma absorbedD:
  assumes "absorbed m ctx"
  obtains xs tail where "m = xs @ tail" "length xs mod 64 = 0" "length tail = length m mod 64"
    "ctx_state ctx = fips_blocks xs fips_initial" "take (length tail) (ctx_buffer ctx) = tail" "length (ctx_buffer ctx) = 64"
proof
  let ?xs = "take (64 * (length m div 64)) m" and ?tail = "drop (64 * (length m div 64)) m"
  show "m = ?xs @ ?tail" by simp
  have l: "length ?xs = 64 * (length m div 64)" by (simp add: min_absorb2)
  then show "length ?xs mod 64 = 0" by simp
  then have "fips_blocks (?xs @ ?tail) fips_initial = fips_blocks ?xs fips_initial"
    by (subst fips_blocks_append) (simp_all add: fips_blocks_short minus_mult_div_eq_mod)
  then show "ctx_state ctx = fips_blocks ?xs fips_initial" using assms by (simp add: absorbed_def)
qed (use assms in \<open>simp_all add: absorbed_def minus_mult_div_eq_mod\<close>)

lemma fips_blocks_one: "length B = 64 \<Longrightarrow> fips_blocks B H = fips_block B H"
  using fips_blocks.simps [of B H] by (simp add: fips_blocks_short)

lemma absorbed_blocks:
  assumes "length xs mod 64 = 0" "length blck = 64" "length zs mod 64 = 0" "length tail < 64"
    and "ctx_state ctx = fips_blocks (zs @ tail) (fips_block blck (fips_blocks xs fips_initial))"
    and "ctx_buffer ctx = tail @ drop (length tail) blck"
    and "count0 ctx = of_nat (8 * length ((xs @ blck @ zs) @ tail))"
    and "count1 ctx = of_nat (8 * length ((xs @ blck @ zs) @ tail) div 4294967296)"
  shows "absorbed ((xs @ blck @ zs) @ tail) ctx"
proof (rule absorbedI [OF _ assms(4) _ _ _ assms(7,8)])
  have "length (xs @ blck @ zs) = 64 + (length xs + length zs)" using assms(2) by simp
  then show "length (xs @ blck @ zs) mod 64 = 0" using assms(1,3) by (metis mod_add_eq mod_add_self1 add_0_right mod_0)
  have "fips_blocks (xs @ blck @ zs) fips_initial = fips_blocks zs (fips_block blck (fips_blocks xs fips_initial))"
    using assms(1,2) fips_blocks_append [of xs "blck @ zs"] fips_blocks_append [of blck zs] by (simp add: fips_blocks_one)
  then show "ctx_state ctx = fips_blocks (xs @ blck @ zs) fips_initial"
    unfolding assms(5) using fips_blocks_append [OF assms(3)] assms(4) by (simp add: fips_blocks_short)
qed (use assms(2,4,6) in simp_all)

lemma update_absorbs:
  assumes "absorbed m ctx" "length data = unat len" "unat len < 4294967232"
  shows "\<exists>ctx'. SHA1Update ctx data len = Some ctx' \<and> absorbed (m @ data) ctx'"
proof -
  define j where "j = length m mod 64"
  obtain xs tail where m: "m = xs @ tail" "length xs mod 64 = 0" "length tail = j"
    and S: "ctx_state ctx = fips_blocks xs fips_initial" "take (length tail) (ctx_buffer ctx) = tail" "length (ctx_buffer ctx) = 64"
    using absorbedD [OF assms(1)] unfolding j_def by metis
  define S where "S = fips_blocks xs fips_initial"
  define b where "b = ctx_buffer ctx"
  define c1 where "c1 = (if count0 ctx + push_bit 3 len < count0 ctx then count1 ctx + 1 else count1 ctx) + drop_bit 29 len"
  note a = assms(1) [unfolded absorbed_def]
  have b: "length b = 64" "take j b = tail" "length tail = j" "j < 64"
    using S m(3) by (simp_all add: b_def j_def)
  define ctx1 where "ctx1 = ctx\<lparr>count0 := count0 ctx + push_bit 3 len, count1 := c1\<rparr>"
  have ctx1: "ctx_state ctx1 = S" "ctx_buffer ctx1 = b" "length S = 5"
    "count0 ctx1 = of_nat (8 * length (m @ data))" "count1 ctx1 = of_nat (8 * length (m @ data) div 4294967296)"
    using a S counts_grow [of "count0 ctx" "length m" "count1 ctx" len]
    by (simp_all add: ctx1_def S_def b_def c1_def assms(2) fips_initial_def del: of_nat_mult)
  have j: "unat (drop_bit 3 (count0 ctx) AND 63) = j" using a buffer_index [of "length m"] a by (simp add: j_def del: of_nat_mult)
  define jw where "jw = drop_bit 3 (count0 ctx) AND 63"
  have upd: "SHA1Update ctx data len = do {
        (context, i, j) \<leftarrow>
          (if jw + len > 63 then do {
             b \<leftarrow> copy_into (ctx_buffer ctx1) (unat jw) data 0 (unat (64 - jw));
             (state, i) \<leftarrow> transform_blocks (SHA1Transform (ctx_state ctx1) b) data len (64 - jw);
             Some (ctx1\<lparr>ctx_state := state, ctx_buffer := b\<rparr>, i, 0) }
           else Some (ctx1, 0, jw));
        b \<leftarrow> copy_into (ctx_buffer context) (unat j) data (unat i) (unat (len - i));
        Some (context\<lparr>ctx_buffer := b\<rparr>) }"
    by (simp add: SHA1Update_def Let_def ctx1_def c1_def jw_def)
  have jw: "unat jw = j" "unat (64 - jw) = 64 - j" "unat (jw + len) = j + unat len"
    using j b(4) assms(3) by (simp_all add: jw_def unat_sub word_le_nat_alt unat_word_ariths)
  show ?thesis
  proof (cases "64 \<le> j + unat len")
    case False
    then have "\<not> jw + len > 63" using jw by (simp add: word_less_nat_alt)
    moreover have "copy_into b j data 0 (unat len) = Some (tail @ data @ drop (j + unat len) b)"
      using False b assms(2) by (simp add: copy_into_def)
    ultimately have "SHA1Update ctx data len = Some (ctx1\<lparr>ctx_buffer := tail @ data @ drop (j + unat len) b\<rparr>)"
      unfolding upd by (simp add: ctx1 jw b)
    moreover have "absorbed (xs @ (tail @ data)) (ctx1\<lparr>ctx_buffer := tail @ data @ drop (j + unat len) b\<rparr>)"
      using False m b assms(2) ctx1 by (intro absorbedI) (simp_all add: S_def del: of_nat_mult)
    ultimately show ?thesis using m(1) by auto
  next
    case True
    then have gt: "jw + len > 63" using jw by (simp add: word_less_nat_alt)
    let ?rest = "drop (64 - j) data" and ?blk = "tail @ take (64 - j) data"
    define k where "k = (unat len - (64 - j)) div 64"
    have k: "64 * k + (64 - j) \<le> unat len" "unat len - (64 - j) - 64 * k < 64"
      using True by (auto simp: k_def minus_mult_div_eq_mod)
    have blk: "copy_into b j data 0 (64 - j) = Some ?blk" "length ?blk = 64"
      using True b assms(2) by (simp_all add: copy_into_def)
    have "length (fips_block ?blk S) = 5" by simp
    then obtain i' where i': "transform_blocks (fips_block ?blk S) data len (64 - jw) = Some (fips_blocks ?rest (fips_block ?blk S), i')"
      "unat i' = 64 - j + 64 * k"
      using transform_blocks_spec [of data len "64 - jw"] assms(2,3) True jw unfolding k_def by fastforce
    let ?tail = "drop (unat i') data"
    have tl: "length ?tail = unat len - (64 - j) - 64 * k" using i' assms(2) by simp
    have "unat (len - i') = length ?tail" using i' k(1) assms(2) by (simp add: unat_sub word_le_nat_alt)
    then have "copy_into ?blk 0 data (unat i') (unat (len - i')) = Some (?tail @ drop (length ?tail) ?blk)"
      using k blk(2) tl i' assms(2) by (simp add: copy_into_def)
    then have "SHA1Update ctx data len =
        Some (ctx1\<lparr>ctx_state := fips_blocks ?rest (fips_block ?blk S), ctx_buffer := ?tail @ drop (length ?tail) ?blk\<rparr>)"
      unfolding upd using gt by (simp add: ctx1 jw blk transform_is_fips i' del: drop_append take_append append_assoc)
    moreover have split: "m @ data = (xs @ ?blk @ take (64 * k) ?rest) @ ?tail"
    proof -
      have "?tail = drop (64 * k) ?rest" by (simp add: i'(2) add.commute)
      then show ?thesis unfolding m(1) by (simp only: append_assoc append_take_drop_id)
    qed
    moreover have "absorbed ((xs @ ?blk @ take (64 * k) ?rest) @ ?tail)
        (ctx1\<lparr>ctx_state := fips_blocks ?rest (fips_block ?blk S), ctx_buffer := ?tail @ drop (length ?tail) ?blk\<rparr>)"
    proof (rule absorbed_blocks [OF m(2) blk(2)])
      have sel: "ctx_state (ctx1\<lparr>ctx_state := x, ctx_buffer := y\<rparr>) = x" "ctx_buffer (ctx1\<lparr>ctx_state := x, ctx_buffer := y\<rparr>) = y"
        "count0 (ctx1\<lparr>ctx_state := x, ctx_buffer := y\<rparr>) = count0 ctx1" "count1 (ctx1\<lparr>ctx_state := x, ctx_buffer := y\<rparr>) = count1 ctx1" for x y
        by simp_all
      let ?ctx2 = "ctx1\<lparr>ctx_state := fips_blocks ?rest (fips_block ?blk S), ctx_buffer := ?tail @ drop (length ?tail) ?blk\<rparr>"
      show "ctx_buffer ?ctx2 = ?tail @ drop (length ?tail) ?blk" by (rule sel)
      show "count0 ?ctx2 = of_nat (8 * length ((xs @ ?blk @ take (64 * k) ?rest) @ ?tail))"
        unfolding sel split [symmetric] by (rule ctx1(4))
      show "count1 ?ctx2 = of_nat (8 * length ((xs @ ?blk @ take (64 * k) ?rest) @ ?tail) div 4294967296)"
        unfolding sel split [symmetric] by (rule ctx1(5))
      show "length (take (64 * k) ?rest) mod 64 = 0" using k(1) assms(2) by simp
      show "length ?tail < 64" using tl k(2) by simp
      have "take (64 * k) ?rest @ ?tail = ?rest" by (metis add.commute append_take_drop_id drop_drop i'(2))
      then show "ctx_state ?ctx2 = fips_blocks (take (64 * k) ?rest @ ?tail) (fips_block ?blk (fips_blocks xs fips_initial))"
        by (simp only: sel S_def)
    qed
    ultimately show ?thesis by auto
  qed
qed


section \<open>Padding and the digest\<close>

lemma pad_test:
  assumes "absorbed m ctx"
  shows "count0 ctx AND 504 \<noteq> 448 \<longleftrightarrow> length m mod 64 \<noteq> 56"
proof -
  have c: "count0 ctx = push_bit 3 (of_nat (length m))" using assms by (simp add: absorbed_def push_bit_eq_mult)
  have "count0 ctx AND push_bit 3 (mask 6) = push_bit 3 (take_bit 6 (of_nat (length m)))"
    unfolding c by (rule bit_word_eqI) (auto simp: bit_simps)
  also have "take_bit 6 (of_nat (length m)) = (of_nat (length m mod 64) :: u32)"
    by (simp add: take_bit_eq_mod word_unat_eq_iff unat_mod unat_of_nat mod_mod_cancel)
  also have "push_bit 3 (of_nat (length m mod 64)) = (of_nat (8 * (length m mod 64)) :: u32)" by (simp add: push_bit_eq_mult)
  finally have e: "count0 ctx AND 504 = of_nat (8 * (length m mod 64))" by (simp add: mask_eq_exp_minus_1 push_bit_eq_mult del: of_nat_mult)
  have "length m mod 64 < 64" by simp
  then have "unat (count0 ctx AND 504) = 8 * (length m mod 64)" unfolding e by (simp add: unat_of_nat take_bit_nat_eq_self del: of_nat_mult)
  moreover have "count0 ctx AND 504 = 448 \<longleftrightarrow> unat (count0 ctx AND 504) = 448" by (simp add: word_unat_eq_iff)
  ultimately show ?thesis by auto
qed

lemma update_byte: "absorbed m ctx \<Longrightarrow> \<exists>ctx'. SHA1Update ctx [x] 1 = Some ctx' \<and> absorbed (m @ [x]) ctx'"
  using update_absorbs [of m ctx "[x]" 1] by simp

lemma pad_zeroes_spec:
  "absorbed m ctx \<Longrightarrow> k < 64 \<Longrightarrow> (length m + k) mod 64 = 56 \<Longrightarrow> \<exists>ctx'. pad_zeroes ctx = Some ctx' \<and> absorbed (m @ replicate k 0) ctx'"
proof (induction k arbitrary: m ctx)
  case 0
  then show ?case using pad_test [OF 0(1)] by (subst pad_zeroes.simps) auto
next
  case (Suc k)
  have "length m mod 64 \<noteq> 56"
  proof
    assume "length m mod 64 = 56"
    with Suc.prems(3) have "(length m + Suc k) mod 64 = length m mod 64" by simp
    then have "64 dvd Suc k" using mod_eq_dvd_iff_nat [of "length m" "length m + Suc k" 64] by simp
    with Suc.prems(2) show False using dvd_imp_le [of 64 "Suc k"] by simp
  qed
  moreover obtain c where c: "SHA1Update ctx [0] 1 = Some c" "absorbed (m @ [0]) c" using update_byte [OF Suc.prems(1)] by blast
  moreover obtain ctx' where "pad_zeroes c = Some ctx'" "absorbed ((m @ [0]) @ replicate k 0) ctx'"
    using Suc.IH [OF c(2)] Suc.prems by auto
  ultimately show ?case using pad_test [OF Suc.prems(1)] by (subst pad_zeroes.simps) auto
qed

lemma byte_at_eq: "byte_at v i = ucast (drop_bit ((3 - i) * 8) v)"
proof -
  have "ucast (x AND mask 8) = (ucast x :: u8)" for x :: u32 by (rule bit_word_eqI) (simp add: bit_simps)
  then show ?thesis by (simp add: byte_at_def mask_eq_exp_minus_1)
qed

lemma byte_at_count:
  fixes W :: "64 word"
  assumes "c0 = ucast W" "c1 = ucast (drop_bit 32 W)"
  shows "map (\<lambda>i. byte_at (if 4 \<le> i then c0 else c1) (i mod 4)) [0..<8] = be_bytes 8 W"
proof -
  have low: "ucast (drop_bit n (ucast V :: u32)) = (ucast (drop_bit n V) :: u8)" if "n + 8 \<le> 32" for n and V :: "64 word"
    using that by (intro bit_word_eqI) (simp add: bit_simps)
  show ?thesis by (simp add: byte_at_eq be_bytes_def assms low low [of 0, simplified] upt_conv_Cons drop_bit_drop_bit add.commute)
qed

lemma digest_bytes: "length H = 5 \<Longrightarrow> map (\<lambda>i. byte_at (H ! (i div 4)) (i mod 4)) [0..<20] = concat (map (be_bytes 4) H)"
proof -
  assume "length H = 5"
  then obtain a b c d e where "H = [a, b, c, d, e]" by (auto simp: eval_nat_numeral length_Suc_conv)
  then show ?thesis by (simp add: byte_at_eq be_bytes_def upt_conv_Cons)
qed

lemma count_words:
  assumes "absorbed m ctx"
  shows "count0 ctx = ucast (of_nat (8 * length m) :: 64 word)" "count1 ctx = ucast (drop_bit 32 (of_nat (8 * length m) :: 64 word))"
proof -
  define n where "n = 8 * length m"
  have "count0 ctx = of_nat n" "count1 ctx = of_nat (n div 4294967296)" using assms by (simp_all add: absorbed_def n_def)
  moreover have "(of_nat n :: u32) = ucast (of_nat n :: 64 word)" by (rule bit_word_eqI) (simp add: bit_simps)
  moreover have "(of_nat (n div 4294967296) :: u32) = ucast (drop_bit 32 (of_nat n :: 64 word))"
  proof -
    have "n div 4294967296 = drop_bit 32 n" by (simp add: drop_bit_eq_div)
    then show ?thesis by (auto intro!: bit_word_eqI simp: bit_simps)
  qed
  ultimately show "count0 ctx = ucast (of_nat (8 * length m) :: 64 word)" "count1 ctx = ucast (drop_bit 32 (of_nat (8 * length m) :: 64 word))"
    unfolding n_def [symmetric] by simp_all
qed

definition wiped :: SHA1_CTX where
  "wiped = \<lparr>ctx_state = replicate 5 0, count0 = 0, count1 = 0, ctx_buffer = replicate 64 0\<rparr>"

lemma final_spec:
  assumes "absorbed m ctx"
  shows "SHA1Final ctx = Some (fips_sha1 m, wiped)"
proof -
  define W where "W = (of_nat (8 * length m) :: 64 word)"
  define k where "k = (119 - length m mod 64) mod 64"
  have fc: "map (\<lambda>i. byte_at (if 4 \<le> i then count0 ctx else count1 ctx) (i mod 4)) [0..<8] = be_bytes 8 W"
    by (rule byte_at_count) (simp_all only: W_def count_words [OF assms])
  obtain c1 where c1: "SHA1Update ctx [0x80] 1 = Some c1" "absorbed (m @ [0x80]) c1" using update_byte [OF assms] by blast
  have "(length (m @ [0x80]) + k) mod 64 = 56"
  proof -
    define q r where "q = length m div 64" and "r = length m mod 64"
    then have m: "length m = 64 * q + r" "r < 64" by simp_all
    then have "k = (if r \<le> 55 then 55 - r else 119 - r)" by (simp add: k_def le_mod_geq)
    then have "length (m @ [0x80]) + k = (if r \<le> 55 then 56 + 64 * q else 56 + 64 * (q + 1))" using m by simp
    then show ?thesis by (simp split: if_splits)
  qed
  then obtain c2 where c2: "pad_zeroes c1 = Some c2" "absorbed ((m @ [0x80]) @ replicate k 0) c2"
    using pad_zeroes_spec [OF c1(2), of k] by (auto simp: k_def)
  have "length (be_bytes 8 W) = unat (8 :: u32)" by (simp add: be_bytes_def)
  from update_absorbs [OF c2(2) this] obtain c3 where c3: "SHA1Update c2 (be_bytes 8 W) 8 = Some c3"
    "absorbed (((m @ [0x80]) @ replicate k 0) @ be_bytes 8 W) c3" by auto
  have "ctx_state c3 = fips_blocks (fips_pad m) fips_initial"
    using c3(2) by (simp add: absorbed_def fips_pad_def W_def k_def)
  moreover from this have "length (ctx_state c3) = 5" by (simp add: fips_initial_def)
  ultimately show ?thesis
    unfolding SHA1Final_def fc Let_def using c1(1) c2(1) c3(1) by (simp add: digest_bytes fips_sha1_def wiped_def del: upt_rec_numeral)
qed

fun sha1_updates :: "SHA1_CTX \<Rightarrow> u8 list list \<Rightarrow> SHA1_CTX option" where
  "sha1_updates ctx [] = Some ctx"
| "sha1_updates ctx (d # ds) = do { ctx \<leftarrow> SHA1Update ctx d (of_nat (length d)); sha1_updates ctx ds }"

lemma updates_absorb:
  "absorbed m ctx \<Longrightarrow> list_all (\<lambda>d. length d < 4294967232) ds \<Longrightarrow>
   \<exists>ctx'. sha1_updates ctx ds = Some ctx' \<and> absorbed (m @ concat ds) ctx'"
proof (induction ds arbitrary: m ctx)
  case (Cons d ds)
  have "length d = unat (of_nat (length d) :: u32)" "length d < 4294967232" using Cons.prems by (simp_all add: unat_of_nat take_bit_nat_eq_self)
  then obtain c where "SHA1Update ctx d (of_nat (length d)) = Some c" "absorbed (m @ d) c"
    using update_absorbs [OF Cons.prems(1), of d "of_nat (length d)"] by auto
  then show ?case using Cons.IH [of "m @ d" c] Cons.prems by auto
qed simp

text \<open>
  C34. SHA-1 is the function FIPS 180 defines.  Whatever the chunks a message is streamed in,
  each short enough that the 32-bit index arithmetic of an update does not wrap, no update
  leaves its arrays, the padding loop ends, and the digest is the standard's hash of the
  concatenation; the context is left wiped.
\<close>

theorem sha1_streaming:
  assumes "length (ctx_buffer ctx) = 64" "list_all (\<lambda>d. length d < 4294967232) ds"
  shows "do { c \<leftarrow> sha1_updates (SHA1Init ctx) ds; SHA1Final c } = Some (fips_sha1 (concat ds), wiped)"
  using updates_absorb [OF absorbed_init [OF assms(1)] assms(2)] by (auto simp: final_spec)

lemma sha1_streaming_witness:
  "do { c \<leftarrow> sha1_updates (SHA1Init wiped) [[97], [98, 99]]; SHA1Final c } = Some (fips_sha1 [97, 98, 99], wiped)"
  using sha1_streaming [of wiped "[[97], [98, 99]]"] by (simp add: wiped_def)

end
