(* ===== verification/IpAddr.thy ===== *)
theory IpAddr
  imports InetChksum
begin

text \<open>
  IPv4 addresses, tools/sdk/lwip/src/core/ipv4/ip_addr.c: the broadcast and netmask tests, the
  parser \<open>ipaddr_aton\<close> and the printer \<open>ipaddr_ntoa_r\<close>, with the theorems that every address
  survives printing and parsing and that a netmask is valid when it is a prefix mask.  An
  address is the 32-bit word in network order; a text is the characters before its NUL.
\<close>

section \<open>Tests\<close>

definition IPADDR_NONE :: u32 where "IPADDR_NONE = 0xffffffff"
definition IPADDR_ANY :: u32 where "IPADDR_ANY = 0"
definition IPADDR_BROADCAST :: u32 where "IPADDR_BROADCAST = 0xffffffff"
definition NETIF_FLAG_BROADCAST :: u8 where "NETIF_FLAG_BROADCAST = 2"

text \<open>The fields of an interface the test reads.\<close>

record netif =
  nif_ip_addr :: u32
  nif_netmask :: u32
  nif_flags :: u8

definition ip_addr_netcmp :: "u32 \<Rightarrow> u32 \<Rightarrow> u32 \<Rightarrow> bool" where
  "ip_addr_netcmp addr1 addr2 nm \<longleftrightarrow> addr1 AND nm = addr2 AND nm"

definition ip4_addr_isbroadcast :: "u32 \<Rightarrow> 'n netif_scheme \<Rightarrow> bool" where
  "ip4_addr_isbroadcast addr nif \<longleftrightarrow>
     (if NOT addr = IPADDR_ANY \<or> addr = IPADDR_ANY then True
      else if nif_flags nif AND NETIF_FLAG_BROADCAST = 0 then False
      else if addr = nif_ip_addr nif then False
      else if ip_addr_netcmp addr (nif_ip_addr nif) (nif_netmask nif) \<and>
              addr AND NOT (nif_netmask nif) = IPADDR_BROADCAST AND NOT (nif_netmask nif) then True
      else False)"

text \<open>The two loops walk one mask bit from the highest; the number counts the positions left.\<close>

fun first_zero :: "u32 \<Rightarrow> nat \<Rightarrow> nat" where
  "first_zero nm 0 = 0"
| "first_zero nm (Suc n) = (if nm AND push_bit n 1 = 0 then Suc n else first_zero nm n)"

fun no_ones :: "u32 \<Rightarrow> nat \<Rightarrow> bool" where
  "no_ones nm 0 \<longleftrightarrow> True"
| "no_ones nm (Suc n) \<longleftrightarrow> (if nm AND push_bit n 1 \<noteq> 0 then False else no_ones nm n)"

definition ip4_addr_netmask_valid :: "u32 \<Rightarrow> bool" where
  "ip4_addr_netmask_valid netmask =
     (let nm_hostorder = lwip_htonl netmask in no_ones nm_hostorder (first_zero nm_hostorder 32))"

section \<open>Parsing\<close>

definition code :: "char \<Rightarrow> nat" where "code = of_char"

definition in_range :: "char \<Rightarrow> char \<Rightarrow> char \<Rightarrow> bool" where
  "in_range c lo up \<longleftrightarrow> code lo \<le> code c \<and> code c \<le> code up"

definition isdigit :: "char \<Rightarrow> bool" where "isdigit c = in_range c CHR ''0'' CHR ''9''"
definition islower :: "char \<Rightarrow> bool" where "islower c = in_range c CHR ''a'' CHR ''z''"

definition isxdigit :: "char \<Rightarrow> bool" where
  "isxdigit c \<longleftrightarrow> isdigit c \<or> in_range c CHR ''a'' CHR ''f'' \<or> in_range c CHR ''A'' CHR ''F''"

definition isspace :: "char \<Rightarrow> bool" where
  "isspace c \<longleftrightarrow> c \<in> set [CHR '' '', CHR 0x0C, CHR 0x0A, CHR 0x0D, CHR 0x09, CHR 0x0B]"

text \<open>One number; a result that does not fit 32 bits is refused.\<close>

fun collect_number :: "u32 \<Rightarrow> u32 \<Rightarrow> char list \<Rightarrow> (u32 \<times> char list) option" where
  "collect_number base v [] = Some (v, [])"
| "collect_number base v (c # cp) =
     (let cutoff = 0xffffffff div base; cutlim = 0xffffffff mod base
      in if isdigit c then
           let ch = of_nat (code c - code CHR ''0'')
           in if v > cutoff \<or> (v = cutoff \<and> ch > cutlim) then None else collect_number base (v * base + ch) cp
         else if base = 16 \<and> isxdigit c then
           let ch = of_nat (code c + 10 - (if islower c then code CHR ''a'' else code CHR ''A''))
           in if v > cutoff \<or> (v = cutoff \<and> ch > cutlim) then None else collect_number base (push_bit 4 v OR ch) cp
         else Some (v, c # cp))"

definition number_base :: "char list \<Rightarrow> u32 \<times> char list" where
  "number_base cp =
     (case cp of c # rest \<Rightarrow>
        if c = CHR ''0'' then
          (case rest of x # r \<Rightarrow> if x = CHR ''x'' \<or> x = CHR ''X'' then (16, r) else (8, rest) | [] \<Rightarrow> (8, rest))
        else (10, cp)
      | [] \<Rightarrow> (10, cp))"

text \<open>The numbers before the last one, the last one, and the text that follows it.\<close>

function collect_parts :: "u32 list \<Rightarrow> char list \<Rightarrow> (u32 list \<times> u32 \<times> char list) option" where
  "collect_parts parts cp =
     (if cp = [] \<or> \<not> isdigit (hd cp) then None
      else case number_base cp of (base, cp) \<Rightarrow>
        (case collect_number base 0 cp of None \<Rightarrow> None
         | Some (v, rest) \<Rightarrow>
             if rest \<noteq> [] \<and> hd rest = CHR ''.'' then
               (if length parts \<ge> 3 then None else collect_parts (parts @ [v]) (tl rest))
             else Some (parts, v, rest)))"
  by pat_completeness auto
termination by (relation "measure (\<lambda>(parts, cp). 3 - length parts)") auto

declare collect_parts.simps [simp del]

definition ipaddr_aton :: "char list \<Rightarrow> u32 option" where
  "ipaddr_aton cp =
     (case collect_parts [] cp of None \<Rightarrow> None
      | Some (parts, v, rest) \<Rightarrow>
          if rest \<noteq> [] \<and> \<not> isspace (hd rest) then None
          else map_option lwip_htonl
            (case parts of
               [] \<Rightarrow> Some v
             | [a] \<Rightarrow> if v > 0xffffff \<or> a > 0xff then None else Some (v OR push_bit 24 a)
             | [a, b] \<Rightarrow> if v > 0xffff \<or> a > 0xff \<or> b > 0xff then None else Some (v OR (push_bit 24 a OR push_bit 16 b))
             | [a, b, c] \<Rightarrow> if v > 0xff \<or> a > 0xff \<or> b > 0xff \<or> c > 0xff then None
                 else Some (v OR (push_bit 24 a OR push_bit 16 b OR push_bit 8 c))
             | _ \<Rightarrow> Some v))"

definition ipaddr_addr :: "char list \<Rightarrow> u32" where
  "ipaddr_addr cp = (case ipaddr_aton cp of Some v \<Rightarrow> v | None \<Rightarrow> IPADDR_NONE)"

section \<open>Writing\<close>

text \<open>The digits of a byte, low digit first.\<close>

function byte_digits :: "u8 \<Rightarrow> char list" where
  "byte_digits ap =
     (let rem = ap mod 10; ap = ap div 10
      in char_of (48 + unat rem) # (if ap \<noteq> 0 then byte_digits ap else []))"
  by pat_completeness auto
termination
  by (relation "measure unat") (auto simp: unat_div unat_eq_0 intro!: div_less_dividend intro: gr0I)

declare byte_digits.simps [simp del]

definition put_char :: "int \<Rightarrow> char \<Rightarrow> char list option \<Rightarrow> char list option" where
  "put_char buflen c out =
     (case out of None \<Rightarrow> None | Some t \<Rightarrow> if int (length t) \<ge> buflen then None else Some (t @ [c]))"

definition ipaddr_ntoa_r :: "u32 \<Rightarrow> int \<Rightarrow> char list option" where
  "ipaddr_ntoa_r s_addr buflen =
     map_option butlast
       (fold (\<lambda>n out. put_char buflen CHR ''.'' (fold (put_char buflen) (rev (byte_digits (ucast (drop_bit (8 * n) s_addr)))) out))
         [0..<4] (Some []))"

definition ipaddr_ntoa :: "u32 \<Rightarrow> char list option" where
  "ipaddr_ntoa s_addr = ipaddr_ntoa_r s_addr 16"

section \<open>What is printed is parsed\<close>

lemma code_digit: "(d :: nat) < 10 \<Longrightarrow> code (char_of (48 + d)) = 48 + d"
  by (simp add: code_def)

lemma code_zero: "code CHR ''0'' = 48" "code CHR ''9'' = 57"
  by (simp_all add: code_def)

lemma isdigit_digit: "(d :: nat) < 10 \<Longrightarrow> isdigit (char_of (48 + d))"
  by (simp add: isdigit_def in_range_def code_digit code_zero)

lemma zero_digit: "char_of (48 + d) = CHR ''0'' \<longleftrightarrow> d = 0" if "d < 10" for d :: nat
  using code_digit [OF that] code_zero by (metis add.right_neutral add_left_cancel code_def char_of_char)

lemma not_digits: "\<not> isdigit CHR ''.''" "\<not> isdigit CHR ''x''" "\<not> isdigit CHR ''X''" "\<not> isxdigit CHR ''.''"
  by (simp_all add: isdigit_def isxdigit_def in_range_def code_def)

definition stops :: "char list \<Rightarrow> bool" where
  "stops r \<longleftrightarrow> r = [] \<or> hd r = CHR ''.''"

lemma collect_stops: "stops r \<Longrightarrow> collect_number base v r = Some (v, r)"
  by (cases r) (auto simp: stops_def not_digits Let_def)

lemma collect_digit:
  assumes "d < 10" "n < 1000"
  shows "collect_number 10 (of_nat n) (char_of (48 + d) # cp) = collect_number 10 (of_nat (n * 10 + d)) cp"
proof -
  have "unat (of_nat n :: u32) = n" using assms(2) by (simp add: unat_of_nat take_bit_nat_eq_self)
  then have "\<not> of_nat n > (0xffffffff div 10 :: u32)" "of_nat n \<noteq> (0xffffffff div 10 :: u32)"
    using assms(2) by (auto simp: word_less_nat_alt)
  then show ?thesis using assms by (simp add: Let_def isdigit_digit code_digit code_zero)
qed

definition byte_text :: "u8 \<Rightarrow> char list" where
  "byte_text b = rev (byte_digits b)"

lemma byte_text_cases:
  obtains d0 where "unat b = d0" "d0 < 10" "byte_text b = [char_of (48 + d0)]"
  | d1 d0 where "unat b = d1 * 10 + d0" "d0 < 10" "0 < d1" "d1 < 10" "byte_text b = [char_of (48 + d1), char_of (48 + d0)]"
  | d2 d1 d0 where "unat b = (d2 * 10 + d1) * 10 + d0" "d0 < 10" "d1 < 10" "0 < d2" "d2 < 10"
      "byte_text b = [char_of (48 + d2), char_of (48 + d1), char_of (48 + d0)]"
proof -
  have step: "byte_digits c = char_of (48 + unat c mod 10) # (if unat c < 10 then [] else byte_digits (c div 10))" for c :: u8
    by (subst byte_digits.simps) (auto simp: Let_def unat_mod unat_div word_unat_eq_iff div_eq_0_iff)
  have u: "unat (c div 10) = unat c div 10" for c :: u8 by (simp add: unat_div)
  have b: "unat b < 256" using unsigned_less [of b, where ?'a = nat] by simp
  consider "unat b < 10" | "10 \<le> unat b" "unat b < 100" | "100 \<le> unat b" by linarith
  then show ?thesis
  proof cases
    case 1
    then show ?thesis using that(1) [of "unat b"] step [of b] by (simp add: byte_text_def)
  next
    case 2
    then show ?thesis using that(2) [of "unat b div 10" "unat b mod 10"] step [of b] step [of "b div 10"]
      by (simp add: byte_text_def u)
  next
    case 3
    then have "10 \<le> unat b div 10" "unat b div 10 < 26" using b by (simp_all add: less_eq_div_iff_mult_less_eq div_less_iff_less_mult)
    then have "0 < unat b div 10 div 10" "unat b div 10 div 10 < 10" by (simp_all add: div_greater_zero_iff div_less_iff_less_mult)
    then show ?thesis
      using 3 \<open>10 \<le> unat b div 10\<close> that(3) [of "unat b div 10 div 10" "unat b div 10 mod 10" "unat b mod 10"] step [of b] step [of "b div 10"] step [of "b div 10 div 10"]
      by (simp add: byte_text_def u)
  qed
qed

lemma byte_text_nonempty: "byte_text b \<noteq> []" "isdigit (hd (byte_text b))" "length (byte_text b) \<le> 3"
  by (cases b rule: byte_text_cases; simp add: isdigit_digit)+

lemma collect_byte:
  assumes "stops r"
  obtains base cp where "number_base (byte_text b @ r) = (base, cp)" "collect_number base 0 cp = Some (ucast b, r)"
proof -
  have ub: "(ucast b :: u32) = of_nat (unat b)" by (simp add: word_unat_eq_iff unsigned_ucast_eq)
  have hd_r: "r = [] \<or> hd r \<noteq> CHR ''x'' \<and> hd r \<noteq> CHR ''X''" using assms by (auto simp: stops_def)
  have c0: "collect_number 10 0 cp = collect_number 10 (of_nat 0) cp" for cp by simp
  show ?thesis
  proof (cases b rule: byte_text_cases)
    case (1 d0)
    show ?thesis
    proof (cases "d0 = 0")
      case True
      then have "number_base (byte_text b @ r) = (8, r)" using 1 hd_r zero_digit [of 0] by (auto simp: number_base_def split: list.splits)
      then show ?thesis using that [of 8 r] collect_stops [OF assms] 1 True by (simp add: ub)
    next
      case False
      then have "number_base (byte_text b @ r) = (10, byte_text b @ r)" using 1 zero_digit [of d0] by (simp add: number_base_def)
      moreover have "collect_number 10 0 (byte_text b @ r) = Some (of_nat d0, r)"
        unfolding c0 1 append.simps using 1 collect_digit [of d0 0] collect_stops [OF assms] by (simp del: of_nat_add of_nat_mult)
      ultimately show ?thesis using that 1 ub by simp
    qed
  next
    case (2 d1 d0)
    then have "number_base (byte_text b @ r) = (10, byte_text b @ r)" using zero_digit [of d1] by (simp add: number_base_def)
    moreover have "collect_number 10 0 (byte_text b @ r) = Some (of_nat (d1 * 10 + d0), r)"
      unfolding c0 2 append.simps using 2 collect_digit [of d1 0] collect_digit [of d0 d1] collect_stops [OF assms] by (simp del: of_nat_add of_nat_mult)
    ultimately show ?thesis using that 2 ub by simp
  next
    case (3 d2 d1 d0)
    then have "number_base (byte_text b @ r) = (10, byte_text b @ r)" using zero_digit [of d2] by (simp add: number_base_def)
    moreover have "collect_number 10 0 (byte_text b @ r) = Some (of_nat ((d2 * 10 + d1) * 10 + d0), r)"
      unfolding c0 3 append.simps
      using 3 collect_digit [of d2 0] collect_digit [of d1 d2] collect_digit [of d0 "d2 * 10 + d1"] collect_stops [OF assms] by (simp del: of_nat_add of_nat_mult)
    ultimately show ?thesis using that 3 ub by simp
  qed
qed

lemma collect_part:
  assumes "stops r"
  shows "collect_parts ps (byte_text b @ r) =
    (if r \<noteq> [] then (if length ps \<ge> 3 then None else collect_parts (ps @ [ucast b]) (tl r)) else Some (ps, ucast b, r))"
proof -
  obtain base cp where "number_base (byte_text b @ r) = (base, cp)" "collect_number base 0 cp = Some (ucast b, r)"
    using collect_byte [OF assms] .
  then show ?thesis using byte_text_nonempty [of b] assms by (subst collect_parts.simps) (auto simp: stops_def)
qed

lemma fold_put_char:
  "int (length out + length cs) \<le> n \<Longrightarrow> fold (put_char n) cs (Some out) = Some (out @ cs)"
  by (induction cs arbitrary: out) (simp_all add: put_char_def)

definition dotted :: "u32 \<Rightarrow> char list" where
  "dotted a = byte_text (ucast a) @ CHR ''.'' # byte_text (ucast (drop_bit 8 a)) @ CHR ''.'' #
     byte_text (ucast (drop_bit 16 a)) @ CHR ''.'' # byte_text (ucast (drop_bit 24 a))"

lemma ntoa_dotted: "ipaddr_ntoa a = Some (dotted a)"
proof -
  note le = byte_text_nonempty(3) [of "ucast a"] byte_text_nonempty(3) [of "ucast (drop_bit 8 a)"]
    byte_text_nonempty(3) [of "ucast (drop_bit 16 a)"] byte_text_nonempty(3) [of "ucast (drop_bit 24 a)"]
  have "[0..<4] = [0, 1, 2, 3]" by (simp add: upt_conv_Cons)
  moreover have "put_char 16 CHR ''.'' (Some t) = Some (t @ ''.'')" if "length t < 16" for t using that by (simp add: put_char_def)
  ultimately show ?thesis
    unfolding ipaddr_ntoa_def ipaddr_ntoa_r_def byte_text_def [symmetric] dotted_def
    using le by (simp add: fold_put_char butlast_append)
qed

lemma htonl_masks:
  "(0xff :: u32) = mask 8" "(0xff00 :: u32) = push_bit 8 (mask 8)" "(0xff0000 :: u32) = push_bit 16 (mask 8)"
  "(0xff000000 :: u32) = push_bit 24 (mask 8)"
  by (simp_all add: mask_eq_exp_minus_1)

lemma of_bytes: "ucast (ucast (drop_bit 24 a) :: u8) OR (push_bit 24 (ucast (ucast a :: u8)) OR
    push_bit 16 (ucast (ucast (drop_bit 8 a) :: u8)) OR push_bit 8 (ucast (ucast (drop_bit 16 a) :: u8))) = (lwip_htonl a :: u32)"
  unfolding lwip_htonl_def htonl_masks
proof (rule bit_word_eqI)
    fix n assume "n < LENGTH(32)"
    then consider "n < 8" | "8 \<le> n" "n < 16" | "16 \<le> n" "n < 24" | "24 \<le> n" "n < 32" by fastforce
    then show "bit (ucast (ucast (drop_bit 24 a) :: u8) OR (push_bit 24 (ucast (ucast a :: u8)) OR
        push_bit 16 (ucast (ucast (drop_bit 8 a) :: u8)) OR push_bit 8 (ucast (ucast (drop_bit 16 a) :: u8))) :: u32) n =
        bit (push_bit 24 (a AND mask 8) OR push_bit 8 (a AND push_bit 8 (mask 8)) OR
          drop_bit 8 (a AND push_bit 16 (mask 8)) OR drop_bit 24 (a AND push_bit 24 (mask 8))) n"
      by cases (auto simp: bit_simps dest: bit_imp_le_length)
qed

lemma htonl_htonl: "lwip_htonl (lwip_htonl a) = a"
  unfolding lwip_htonl_def htonl_masks
proof (rule bit_word_eqI)
    fix n assume "n < LENGTH(32)"
    then consider "n < 8" | "8 \<le> n" "n < 16" | "16 \<le> n" "n < 24" | "24 \<le> n" "n < 32" by fastforce
    then show "bit (push_bit 24 ((push_bit 24 (a AND mask 8) OR push_bit 8 (a AND push_bit 8 (mask 8)) OR
          drop_bit 8 (a AND push_bit 16 (mask 8)) OR drop_bit 24 (a AND push_bit 24 (mask 8))) AND mask 8) OR
        push_bit 8 ((push_bit 24 (a AND mask 8) OR push_bit 8 (a AND push_bit 8 (mask 8)) OR
          drop_bit 8 (a AND push_bit 16 (mask 8)) OR drop_bit 24 (a AND push_bit 24 (mask 8))) AND push_bit 8 (mask 8)) OR
        drop_bit 8 ((push_bit 24 (a AND mask 8) OR push_bit 8 (a AND push_bit 8 (mask 8)) OR
          drop_bit 8 (a AND push_bit 16 (mask 8)) OR drop_bit 24 (a AND push_bit 24 (mask 8))) AND push_bit 16 (mask 8)) OR
        drop_bit 24 ((push_bit 24 (a AND mask 8) OR push_bit 8 (a AND push_bit 8 (mask 8)) OR
          drop_bit 8 (a AND push_bit 16 (mask 8)) OR drop_bit 24 (a AND push_bit 24 (mask 8))) AND push_bit 24 (mask 8))) n = bit a n"
      by cases (auto simp: bit_simps dest: bit_imp_le_length)
qed

text \<open>
  C35. Addresses survive the printer and the parser.  For every address \<open>ipaddr_ntoa\<close> fits its
  static 16-byte buffer, and \<open>ipaddr_aton\<close> accepts the text it wrote and returns the address.
\<close>

theorem ipaddr_roundtrip: "\<exists>t. ipaddr_ntoa a = Some t \<and> length t < 16 \<and> ipaddr_aton t = Some a"
proof (intro exI conjI)
  show "ipaddr_ntoa a = Some (dotted a)" by (rule ntoa_dotted)
  show "length (dotted a) < 16"
    using byte_text_nonempty(3) [of "ucast a"] byte_text_nonempty(3) [of "ucast (drop_bit 8 a)"]
      byte_text_nonempty(3) [of "ucast (drop_bit 16 a)"] byte_text_nonempty(3) [of "ucast (drop_bit 24 a)"]
    by (simp add: dotted_def)
  have stops: "stops (CHR ''.'' # r)" "stops []" for r by (simp_all add: stops_def)
  have small: "\<not> ucast (b :: u8) > (0xff :: u32)" for b
  proof -
    have "unat b < 256" using unsigned_less [of b, where ?'a = nat] by simp
    then show ?thesis by (simp add: word_less_nat_alt unsigned_ucast_eq)
  qed
  have "collect_parts [] (dotted a) =
      Some ([ucast (ucast a :: u8), ucast (ucast (drop_bit 8 a) :: u8), ucast (ucast (drop_bit 16 a) :: u8)], ucast (ucast (drop_bit 24 a) :: u8), [])"
    using collect_part [OF stops(2)] by (simp add: dotted_def collect_part stops)
  then have "ipaddr_aton (dotted a) = Some (lwip_htonl (lwip_htonl a))"
    by (simp add: ipaddr_aton_def small of_bytes)
  then show "ipaddr_aton (dotted a) = Some a" by (simp add: htonl_htonl)
qed

section \<open>Netmasks\<close>

lemma no_ones_iff: "n \<le> 32 \<Longrightarrow> no_ones nm n \<longleftrightarrow> (\<forall>i<n. \<not> bit nm i)"
  by (induction n) (auto simp: bit_iff_and_push_bit_not_eq_0 less_Suc_eq)

lemma first_zero_spec:
  "n \<le> 32 \<Longrightarrow> first_zero nm n \<le> n \<and> (\<forall>i. first_zero nm n \<le> i \<and> i < n \<longrightarrow> bit nm i) \<and> (0 < first_zero nm n \<longrightarrow> \<not> bit nm (first_zero nm n - 1))"
  by (induction n) (auto simp: bit_iff_and_push_bit_not_eq_0 less_Suc_eq)

text \<open>
  A netmask is accepted exactly when it is a prefix mask: in host order some number of
  ones from the highest bit, then zeroes.
\<close>

theorem netmask_valid_iff_prefix:
  "ip4_addr_netmask_valid netmask \<longleftrightarrow> (\<exists>len\<le>32. lwip_htonl netmask = push_bit (32 - len) (mask len))"
proof
  let ?nm = "lwip_htonl netmask"
  let ?z = "first_zero ?nm 32"
  assume "ip4_addr_netmask_valid netmask"
  then have "\<forall>i<?z. \<not> bit ?nm i" using no_ones_iff [of ?z ?nm] first_zero_spec [of 32 ?nm] by (simp add: ip4_addr_netmask_valid_def Let_def)
  then have "?nm = push_bit (32 - (32 - ?z)) (mask (32 - ?z))"
  proof (intro bit_word_eqI)
    fix n assume z: "\<forall>i<?z. \<not> bit ?nm i" "n < LENGTH(32)"
    then have "bit ?nm n \<longleftrightarrow> ?z \<le> n" using first_zero_spec [of 32 ?nm] by (cases "?z \<le> n") (simp_all add: not_le)
    then show "bit ?nm n = bit (push_bit (32 - (32 - ?z)) (mask (32 - ?z)) :: u32) n"
      using z(2) first_zero_spec [of 32 ?nm] by (auto simp: bit_simps)
  qed
  then show "\<exists>len\<le>32. ?nm = push_bit (32 - len) (mask len)" by (intro exI [of _ "32 - ?z"]) simp
next
  let ?nm = "lwip_htonl netmask"
  let ?z = "first_zero ?nm 32"
  assume "\<exists>len\<le>32. ?nm = push_bit (32 - len) (mask len)"
  then obtain len where l: "len \<le> 32" "?nm = push_bit (32 - len) (mask len)" by auto
  then have b: "bit ?nm i \<longleftrightarrow> 32 - len \<le> i \<and> i < 32" for i by (auto simp: bit_simps)
  have "\<not> bit ?nm i" if "i < ?z" for i
    using that first_zero_spec [of 32 ?nm] unfolding b by (cases "?z = 0") auto
  then show "ip4_addr_netmask_valid netmask"
    using no_ones_iff [of ?z ?nm] first_zero_spec [of 32 ?nm] by (simp add: ip4_addr_netmask_valid_def Let_def)
qed

end
