(* ===== verification/Pbuf.thy ===== *)
theory Pbuf
  imports Prelude "HOL-Library.Monad_Syntax"
begin

text \<open>
  Packet buffers, tools/sdk/lwip/src/core/pbuf.c, in the configuration of lwipopts.h: the
  reference-counted structures chained into packets, the store they live in, and the
  operations that walk a chain.  Structures live in \<open>pb_at\<close>, keyed by address, their data in
  the byte memory; the null pointer is 0.  The C heap lwIP allocates from and the SDK's
  recycling of receive buffers are the argument \<open>env\<close>.  \<open>None\<close> is an access outside a live
  structure, or a loop that does not end.
\<close>

section \<open>Structures\<close>

datatype pbuf_layer = PBUF_TRANSPORT | PBUF_IP | PBUF_LINK | PBUF_RAW

datatype pbuf_type = PBUF_RAM | PBUF_ROM | PBUF_REF | PBUF_POOL | PBUF_ESF_RX

record pbuf =
  pb_next :: nat
  pb_payload :: nat
  pb_tot_len :: u16
  pb_len :: u16
  pb_type :: pbuf_type
  pb_flags :: u8
  pb_ref :: u16
  pb_eb :: u32

record 'h pstore =
  pb_at :: "nat \<Rightarrow> pbuf option"
  pb_mem :: memory
  pb_heap :: 'h

record 'h pbuf_env =
  mem_malloc :: "nat \<Rightarrow> 'h \<Rightarrow> nat \<times> 'h"
  mem_free :: "nat \<Rightarrow> 'h \<Rightarrow> 'h"
  recycle_rx_pkt :: "u32 \<Rightarrow> 'h \<Rightarrow> 'h"

definition ERR_OK :: int where "ERR_OK = 0"
definition ERR_VAL :: int where "ERR_VAL = - 6"
definition ERR_ARG :: int where "ERR_ARG = - 12"

definition EP_OFFSET :: nat where "EP_OFFSET = 36"
definition PBUF_LINK_HLEN :: nat where "PBUF_LINK_HLEN = 14"
definition PBUF_IP_HLEN :: nat where "PBUF_IP_HLEN = 20"
definition PBUF_TRANSPORT_HLEN :: nat where "PBUF_TRANSPORT_HLEN = 20"

definition LWIP_MEM_ALIGN_SIZE :: "nat \<Rightarrow> nat" where
  "LWIP_MEM_ALIGN_SIZE n = (n + 3) div 4 * 4"

definition SIZEOF_STRUCT_PBUF :: nat where "SIZEOF_STRUCT_PBUF = LWIP_MEM_ALIGN_SIZE 20"
definition PBUF_POOL_BUFSIZE :: nat where "PBUF_POOL_BUFSIZE = LWIP_MEM_ALIGN_SIZE (1460 + 40 + PBUF_LINK_HLEN)"

definition live :: "nat \<Rightarrow> 'h pstore \<Rightarrow> pbuf option" where
  "live p S = (if p = 0 then None else pb_at S p)"

definition put :: "nat \<Rightarrow> pbuf \<Rightarrow> 'h pstore \<Rightarrow> 'h pstore" where
  "put p b S = S\<lparr>pb_at := (pb_at S)(p \<mapsto> b)\<rparr>"

definition modify :: "nat \<Rightarrow> (pbuf \<Rightarrow> pbuf) \<Rightarrow> 'h pstore \<Rightarrow> 'h pstore option" where
  "modify p f S = map_option (\<lambda>b. put p (f b) S) (live p S)"

definition mem_bytes :: "memory \<Rightarrow> nat \<Rightarrow> nat \<Rightarrow> u8 list" where
  "mem_bytes m a n = map m [a..<a + n]"

definition put_bytes :: "memory \<Rightarrow> nat \<Rightarrow> u8 list \<Rightarrow> memory" where
  "put_bytes m a bs = (\<lambda>x. if a \<le> x \<and> x < a + length bs then bs ! (x - a) else m x)"

section \<open>References and release\<close>

text \<open>Releasing a structure returns it to the heap; every type but RAM and pool ones recycles its \<open>eb\<close>.\<close>

definition release :: "'h pbuf_env \<Rightarrow> nat \<Rightarrow> pbuf \<Rightarrow> 'h pstore \<Rightarrow> 'h pstore" where
  "release env p b S =
     (let S = S\<lparr>pb_at := (pb_at S)(p := None)\<rparr>
      in if pb_type b = PBUF_POOL then S\<lparr>pb_heap := mem_free env p (pb_heap S)\<rparr>
         else if pb_type b = PBUF_ROM \<or> pb_type b = PBUF_REF \<or> pb_type b = PBUF_ESF_RX
         then S\<lparr>pb_heap := mem_free env p (recycle_rx_pkt env (pb_eb b) (pb_heap S))\<rparr>
         else S\<lparr>pb_heap := mem_free env p (pb_heap S)\<rparr>)"

partial_function (option) free_loop :: "'h pbuf_env \<Rightarrow> nat \<Rightarrow> u8 \<Rightarrow> 'h pstore \<Rightarrow> (u8 \<times> 'h pstore) option" where
  "free_loop env p count S =
     (if p = 0 then Some (count, S)
      else case live p S of
        None \<Rightarrow> None
      | Some b \<Rightarrow>
          let ref = pb_ref b - 1; b = b\<lparr>pb_ref := ref\<rparr>; S = put p b S
          in if ref = 0 then free_loop env (pb_next b) (count + 1) (release env p b S)
             else Some (count, S))"

definition pbuf_free :: "'h pbuf_env \<Rightarrow> nat \<Rightarrow> 'h pstore \<Rightarrow> (u8 \<times> 'h pstore) option" where
  "pbuf_free env p S = free_loop env p 0 S"

partial_function (option) clen_loop :: "nat \<Rightarrow> u8 \<Rightarrow> 'h pstore \<Rightarrow> u8 option" where
  "clen_loop p len S =
     (if p = 0 then Some len else case live p S of None \<Rightarrow> None | Some b \<Rightarrow> clen_loop (pb_next b) (len + 1) S)"

definition pbuf_clen :: "nat \<Rightarrow> 'h pstore \<Rightarrow> u8 option" where
  "pbuf_clen p S = clen_loop p 0 S"

definition pbuf_ref :: "nat \<Rightarrow> 'h pstore \<Rightarrow> 'h pstore option" where
  "pbuf_ref p S = (if p = 0 then Some S else modify p (\<lambda>b. b\<lparr>pb_ref := pb_ref b + 1\<rparr>) S)"

section \<open>Allocation\<close>

definition header_offset :: "pbuf_layer \<Rightarrow> nat" where
  "header_offset layer =
     (case layer of
        PBUF_TRANSPORT \<Rightarrow> PBUF_TRANSPORT_HLEN + PBUF_IP_HLEN + PBUF_LINK_HLEN + EP_OFFSET
      | PBUF_IP \<Rightarrow> PBUF_IP_HLEN + PBUF_LINK_HLEN + EP_OFFSET
      | PBUF_LINK \<Rightarrow> PBUF_LINK_HLEN + EP_OFFSET
      | PBUF_RAW \<Rightarrow> EP_OFFSET)"

definition take_memory :: "'h pbuf_env \<Rightarrow> nat \<Rightarrow> 'h pstore \<Rightarrow> nat \<times> 'h pstore" where
  "take_memory env n S = (case mem_malloc env n (pb_heap S) of (p, h) \<Rightarrow> (p, S\<lparr>pb_heap := h\<rparr>))"

text \<open>A new structure; its \<open>eb\<close> is what the memory holds unless the code sets it.\<close>

definition fresh :: "'h pstore \<Rightarrow> nat \<Rightarrow> nat \<Rightarrow> nat \<Rightarrow> nat \<Rightarrow> pbuf_type \<Rightarrow> pbuf" where
  "fresh S p payload tot_len len type =
     \<lparr>pb_next = 0, pb_payload = payload, pb_tot_len = of_nat tot_len, pb_len = of_nat len, pb_type = type,
      pb_flags = 0, pb_ref = 1, pb_eb = load32 (pb_mem S) (p + 16)\<rparr>"

text \<open>The tail of a pool chain, linked behind \<open>r\<close>; a failure frees the chain from \<open>p\<close>.\<close>

function pool_tail :: "'h pbuf_env \<Rightarrow> nat \<Rightarrow> nat \<Rightarrow> nat \<Rightarrow> 'h pstore \<Rightarrow> (nat \<times> 'h pstore) option" where
  "pool_tail env p r rem_len S =
     (if rem_len = 0 then Some (p, S)
      else case take_memory env (SIZEOF_STRUCT_PBUF + PBUF_POOL_BUFSIZE) S of (q, S) \<Rightarrow>
        if q = 0 then map_option (\<lambda>(_, S). (0, S)) (pbuf_free env p S)
        else let len = min rem_len PBUF_POOL_BUFSIZE
             in case modify r (\<lambda>b. b\<lparr>pb_next := q\<rparr>) (put q (fresh S q (q + SIZEOF_STRUCT_PBUF) rem_len len PBUF_POOL) S) of
                  None \<Rightarrow> None
                | Some S \<Rightarrow> pool_tail env p q (rem_len - len) S)"
  by pat_completeness auto
termination
  by (relation "measure (\<lambda>(env, p, r, rem_len, S). rem_len)")
     (auto simp: PBUF_POOL_BUFSIZE_def LWIP_MEM_ALIGN_SIZE_def PBUF_LINK_HLEN_def)

declare pool_tail.simps [simp del]

definition pbuf_alloc ::
  "'h pbuf_env \<Rightarrow> pbuf_layer \<Rightarrow> u16 \<Rightarrow> pbuf_type \<Rightarrow> 'h pstore \<Rightarrow> (nat \<times> 'h pstore) option" where
  "pbuf_alloc env layer req type S =
     (let offset = header_offset layer; length = unat req
      in case type of
        PBUF_POOL \<Rightarrow>
          (case take_memory env (SIZEOF_STRUCT_PBUF + PBUF_POOL_BUFSIZE) S of (p, S) \<Rightarrow>
             if p = 0 then Some (0, S)
             else let len = min length (PBUF_POOL_BUFSIZE - LWIP_MEM_ALIGN_SIZE offset);
                      S = put p (fresh S p (LWIP_MEM_ALIGN_SIZE (p + (SIZEOF_STRUCT_PBUF + offset))) length len type) S
                  in pool_tail env p p (length - len) S)
      | PBUF_RAM \<Rightarrow>
          (case take_memory env (LWIP_MEM_ALIGN_SIZE (SIZEOF_STRUCT_PBUF + offset) + LWIP_MEM_ALIGN_SIZE length) S of (p, S) \<Rightarrow>
             if p = 0 then Some (0, S)
             else Some (p, put p ((fresh S p (LWIP_MEM_ALIGN_SIZE (p + SIZEOF_STRUCT_PBUF + offset)) length length type)\<lparr>pb_eb := 0\<rparr>) S))
      | _ \<Rightarrow>
          (case take_memory env SIZEOF_STRUCT_PBUF S of (p, S) \<Rightarrow>
             if p = 0 then Some (0, S) else Some (p, put p (fresh S p 0 length length type) S)))"


section \<open>Chains\<close>

partial_function (option) cat_loop :: "nat \<Rightarrow> nat \<Rightarrow> 'h pstore \<Rightarrow> 'h pstore option" where
  "cat_loop p t S =
     do { b \<leftarrow> live p S;
          tb \<leftarrow> live t S;
          (if pb_next b \<noteq> 0
           then cat_loop (pb_next b) t (put p (b\<lparr>pb_tot_len := pb_tot_len b + pb_tot_len tb\<rparr>) S)
           else Some (put p (b\<lparr>pb_tot_len := pb_tot_len b + pb_tot_len tb, pb_next := t\<rparr>) S)) }"

definition pbuf_cat :: "nat \<Rightarrow> nat \<Rightarrow> 'h pstore \<Rightarrow> 'h pstore option" where
  "pbuf_cat h t S = (if h \<noteq> 0 \<and> t \<noteq> 0 then cat_loop h t S else Some S)"

definition pbuf_chain :: "nat \<Rightarrow> nat \<Rightarrow> 'h pstore \<Rightarrow> 'h pstore option" where
  "pbuf_chain h t S = do { S \<leftarrow> pbuf_cat h t S; pbuf_ref t S }"

definition pbuf_dechain :: "'h pbuf_env \<Rightarrow> nat \<Rightarrow> 'h pstore \<Rightarrow> (nat \<times> 'h pstore) option" where
  "pbuf_dechain env p S =
     do { b \<leftarrow> live p S;
          let q = pb_next b;
          (if q \<noteq> 0 then do {
             S \<leftarrow> modify q (\<lambda>c. c\<lparr>pb_tot_len := pb_tot_len b - pb_len b\<rparr>) S;
             S \<leftarrow> modify p (\<lambda>b. b\<lparr>pb_next := 0, pb_tot_len := pb_len b\<rparr>) S;
             (tail_gone, S) \<leftarrow> pbuf_free env q S;
             Some (if tail_gone > 0 then 0 else q, S) }
           else Some (0, S)) }"

text \<open>The change of the lengths is the same for every structure kept; memory is not trimmed.\<close>

partial_function (option) realloc_loop :: "nat \<Rightarrow> u16 \<Rightarrow> u16 \<Rightarrow> 'h pstore \<Rightarrow> (nat \<times> u16 \<times> 'h pstore) option" where
  "realloc_loop q rem_len grow S =
     do { b \<leftarrow> live q S;
          (if rem_len > pb_len b
           then realloc_loop (pb_next b) (rem_len - pb_len b) grow (put q (b\<lparr>pb_tot_len := pb_tot_len b + grow\<rparr>) S)
           else Some (q, rem_len, S)) }"

definition pbuf_realloc :: "'h pbuf_env \<Rightarrow> nat \<Rightarrow> u16 \<Rightarrow> 'h pstore \<Rightarrow> 'h pstore option" where
  "pbuf_realloc env p new_len S =
     do { b \<leftarrow> live p S;
          (if new_len \<ge> pb_tot_len b then Some S
           else do {
             (q, rem_len, S) \<leftarrow> realloc_loop p new_len (new_len - pb_tot_len b) S;
             S \<leftarrow> modify q (\<lambda>b. b\<lparr>pb_len := rem_len, pb_tot_len := rem_len\<rparr>) S;
             b \<leftarrow> live q S;
             S \<leftarrow> (if pb_next b \<noteq> 0 then map_option snd (pbuf_free env (pb_next b) S) else Some S);
             modify q (\<lambda>b. b\<lparr>pb_next := 0\<rparr>) S }) }"

text \<open>The result is nonzero on failure; moving the payload below address 0 is outside the model.\<close>

definition pbuf_header :: "nat \<Rightarrow> 16 word \<Rightarrow> 'h pstore \<Rightarrow> (u8 \<times> 'h pstore) option" where
  "pbuf_header p header_size_increment S =
     (let inc = sint header_size_increment
      in if inc = 0 \<or> p = 0 then Some (0, S)
         else do {
           b \<leftarrow> live p S;
           let magnitude = (if inc < 0 then - header_size_increment else header_size_increment);
           (if inc < 0 \<and> \<not> magnitude \<le> pb_len b then Some (1, S)
            else if int (pb_payload b) < inc then None
            else
              let payload = nat (int (pb_payload b) - inc);
                  ok = Some (0, put p (b\<lparr>pb_payload := payload, pb_len := pb_len b + header_size_increment,
                                        pb_tot_len := pb_tot_len b + header_size_increment\<rparr>) S)
              in case pb_type b of
                   PBUF_RAM \<Rightarrow> if payload < p + SIZEOF_STRUCT_PBUF + EP_OFFSET then Some (1, S) else ok
                 | PBUF_POOL \<Rightarrow> if payload < p + SIZEOF_STRUCT_PBUF + EP_OFFSET then Some (1, S) else ok
                 | PBUF_REF \<Rightarrow> ok
                 | PBUF_ROM \<Rightarrow> if inc < 0 then ok else Some (1, S)
                 | PBUF_ESF_RX \<Rightarrow> Some (1, S)) })"

section \<open>Data\<close>

text \<open>
  Application buffers are lists of bytes: \<open>pbuf_copy_partial\<close> returns what it wrote to its
  buffer, \<open>pbuf_take\<close> reads its argument.
\<close>

partial_function (option) copy_partial_loop :: "nat \<Rightarrow> u16 \<Rightarrow> u16 \<Rightarrow> u8 list \<Rightarrow> 'h pstore \<Rightarrow> u8 list option" where
  "copy_partial_loop p len offset out S =
     (if len \<noteq> 0 \<and> p \<noteq> 0 then
        case live p S of None \<Rightarrow> None | Some b \<Rightarrow>
          (if offset \<noteq> 0 \<and> offset \<ge> pb_len b then copy_partial_loop (pb_next b) len (offset - pb_len b) out S
           else let n = pb_len b - offset; n = (if n > len then len else n)
                in copy_partial_loop (pb_next b) (len - n) 0 (out @ mem_bytes (pb_mem S) (pb_payload b + unat offset) (unat n)) S)
      else Some out)"

definition pbuf_copy_partial :: "nat \<Rightarrow> u16 \<Rightarrow> u16 \<Rightarrow> 'h pstore \<Rightarrow> u8 list option" where
  "pbuf_copy_partial buf len offset S = (if buf = 0 then Some [] else copy_partial_loop buf len offset [] S)"

partial_function (option) take_loop :: "nat \<Rightarrow> u8 list \<Rightarrow> u16 \<Rightarrow> u16 \<Rightarrow> 'h pstore \<Rightarrow> 'h pstore option" where
  "take_loop p data todo copied S =
     (if todo \<noteq> 0 then
        case live p S of None \<Rightarrow> None | Some b \<Rightarrow>
          let n = (if todo > pb_len b then pb_len b else todo)
          in if unat copied + unat n \<le> length data
             then take_loop (pb_next b) data (todo - n) (copied + n)
                    (S\<lparr>pb_mem := put_bytes (pb_mem S) (pb_payload b) (take (unat n) (drop (unat copied) data))\<rparr>)
             else None
      else Some S)"

definition pbuf_take :: "nat \<Rightarrow> u8 list \<Rightarrow> u16 \<Rightarrow> 'h pstore \<Rightarrow> (int \<times> 'h pstore) option" where
  "pbuf_take buf data len S =
     (if buf = 0 then Some (0, S)
      else do { b \<leftarrow> live buf S;
                (if pb_tot_len b < len then Some (ERR_ARG, S)
                 else map_option (Pair ERR_OK) (take_loop buf data len 0 S)) })"

partial_function (option) pbuf_copy_loop :: "nat \<Rightarrow> u16 \<Rightarrow> nat \<Rightarrow> u16 \<Rightarrow> 'h pstore \<Rightarrow> (int \<times> 'h pstore) option" where
  "pbuf_copy_loop p_to offset_to p_from offset_from S =
     do { t \<leftarrow> live p_to S;
          f \<leftarrow> live p_from S;
          let room = uint (pb_len t) - uint offset_to;
          let left = uint (pb_len f) - uint offset_from;
          let len = (if room \<ge> left then pb_len f - offset_from else pb_len t - offset_to);
          let S = S\<lparr>pb_mem := memmove (pb_mem S) (pb_payload t + unat offset_to) (pb_payload f + unat offset_from) (unat len)\<rparr>;
          let offset_to = offset_to + len;
          let offset_from = offset_from + len;
          let (p_to, offset_to) = (if offset_to = pb_len t then (pb_next t, 0) else (p_to, offset_to));
          let (p_from, offset_from) = (if offset_from \<ge> pb_len f then (pb_next f, 0) else (p_from, offset_from));
          from_queue \<leftarrow> (if p_from = 0 then Some False
                         else map_option (\<lambda>f. pb_len f = pb_tot_len f \<and> pb_next f \<noteq> 0) (live p_from S));
          to_queue \<leftarrow> (if p_to = 0 then Some False
                       else map_option (\<lambda>t. pb_len t = pb_tot_len t \<and> pb_next t \<noteq> 0) (live p_to S));
          (if from_queue \<or> to_queue then Some (ERR_VAL, S)
           else if p_from \<noteq> 0 then pbuf_copy_loop p_to offset_to p_from offset_from S
           else Some (ERR_OK, S)) }"

definition pbuf_copy :: "nat \<Rightarrow> nat \<Rightarrow> 'h pstore \<Rightarrow> (int \<times> 'h pstore) option" where
  "pbuf_copy p_to p_from S =
     (if p_to = 0 \<or> p_from = 0 then Some (ERR_ARG, S)
      else do { t \<leftarrow> live p_to S; f \<leftarrow> live p_from S;
                (if pb_tot_len t < pb_tot_len f then Some (ERR_ARG, S) else pbuf_copy_loop p_to 0 p_from 0 S) })"

definition pbuf_coalesce :: "'h pbuf_env \<Rightarrow> nat \<Rightarrow> pbuf_layer \<Rightarrow> 'h pstore \<Rightarrow> (nat \<times> 'h pstore) option" where
  "pbuf_coalesce env p layer S =
     do { b \<leftarrow> live p S;
          (if pb_next b = 0 then Some (p, S)
           else do {
             (q, S) \<leftarrow> pbuf_alloc env layer (pb_tot_len b) PBUF_RAM S;
             (if q = 0 then Some (p, S)
              else do {
                (err, S) \<leftarrow> pbuf_copy q p S;
                (n, S) \<leftarrow> pbuf_free env p S;
                Some (q, S) }) }) }"

section \<open>Searching\<close>

partial_function (option) seek :: "nat \<Rightarrow> u16 \<Rightarrow> 'h pstore \<Rightarrow> (nat \<times> u16) option" where
  "seek q pos S =
     (if q = 0 then Some (0, pos)
      else case live q S of None \<Rightarrow> None | Some b \<Rightarrow>
        if pb_len b \<le> pos then seek (pb_next b) (pos - pb_len b) S else Some (q, pos))"

definition pbuf_get_at :: "nat \<Rightarrow> u16 \<Rightarrow> 'h pstore \<Rightarrow> u8 option" where
  "pbuf_get_at p offset S =
     do { (q, copy_from) \<leftarrow> seek p offset S;
          (if q = 0 then Some 0 else do { b \<leftarrow> live q S; Some (pb_mem S (pb_payload b + unat copy_from)) }) }"

fun memcmp_loop :: "nat \<Rightarrow> u16 \<Rightarrow> u8 list \<Rightarrow> nat \<Rightarrow> nat \<Rightarrow> 'h pstore \<Rightarrow> u16 option" where
  "memcmp_loop q start s2 i 0 S = Some 0"
| "memcmp_loop q start s2 i (Suc n) S =
     do { a \<leftarrow> pbuf_get_at q (start + of_nat i) S;
          (if i < length s2 then if a \<noteq> s2 ! i then Some (of_nat i + 1) else memcmp_loop q start s2 (Suc i) n S else None) }"

definition pbuf_memcmp :: "nat \<Rightarrow> u16 \<Rightarrow> u8 list \<Rightarrow> u16 \<Rightarrow> 'h pstore \<Rightarrow> u16 option" where
  "pbuf_memcmp p offset s2 n S =
     do { (q, start) \<leftarrow> seek p offset S;
          (if q = 0 then Some 0xffff else memcmp_loop q start s2 0 (unat n) S) }"

partial_function (option) memfind_loop :: "nat \<Rightarrow> u8 list \<Rightarrow> u16 \<Rightarrow> u16 \<Rightarrow> u16 \<Rightarrow> 'h pstore \<Rightarrow> u16 option" where
  "memfind_loop p pat pat_len i mx S =
     (if i \<le> mx then
        case pbuf_memcmp p i pat pat_len S of None \<Rightarrow> None | Some skip \<Rightarrow>
          if skip = 0 then Some i else memfind_loop p pat pat_len (i + skip) mx S
      else Some 0xFFFF)"

definition pbuf_memfind :: "nat \<Rightarrow> u8 list \<Rightarrow> u16 \<Rightarrow> u16 \<Rightarrow> 'h pstore \<Rightarrow> u16 option" where
  "pbuf_memfind p pat pat_len start_offset S =
     do { b \<leftarrow> live p S;
          (if uint (pb_tot_len b) \<ge> uint pat_len + uint start_offset
           then memfind_loop p pat pat_len start_offset (pb_tot_len b - pat_len) S
           else Some 0xFFFF) }"

text \<open>The string is the bytes before its NUL.\<close>

definition pbuf_strstr :: "nat \<Rightarrow> u8 list option \<Rightarrow> 'h pstore \<Rightarrow> u16 option" where
  "pbuf_strstr p substr S =
     (case substr of None \<Rightarrow> Some 0xFFFF
      | Some s \<Rightarrow> if s = [] then Some 0xFFFF
          else do { b \<leftarrow> live p S;
                    (if pb_tot_len b = 0xFFFF then Some 0xFFFF
                     else if length s \<ge> 0xFFFF then Some 0xFFFF
                     else pbuf_memfind p s (of_nat (length s)) 0 S) })"

section \<open>Chains as lists\<close>

fun chain :: "'h pstore \<Rightarrow> nat \<Rightarrow> nat list \<Rightarrow> bool" where
  "chain S p [] \<longleftrightarrow> p = 0"
| "chain S p (x # xs) \<longleftrightarrow> p = x \<and> (case live x S of None \<Rightarrow> False | Some b \<Rightarrow> chain S (pb_next b) xs)"

definition data_of :: "'h pstore \<Rightarrow> nat \<Rightarrow> u8 list" where
  "data_of S x = (case live x S of None \<Rightarrow> [] | Some b \<Rightarrow> mem_bytes (pb_mem S) (pb_payload b) (unat (pb_len b)))"

definition flat :: "'h pstore \<Rightarrow> nat list \<Rightarrow> u8 list" where
  "flat S xs = concat (map (data_of S) xs)"

lemma flat_simps [simp]: "flat S [] = []" "flat S (x # xs) = data_of S x @ flat S xs"
  "flat S (xs @ ys) = flat S xs @ flat S ys"
  by (simp_all add: flat_def)

lemma length_mem_bytes [simp]: "length (mem_bytes m a n) = n"
  by (simp add: mem_bytes_def)

lemma mem_bytes_part: "i + n \<le> l \<Longrightarrow> mem_bytes m (a + i) n = take n (drop i (mem_bytes m a l))"
  by (rule nth_equalityI) (simp_all add: mem_bytes_def add.assoc)

lemma data_of_live: "live x S = Some b \<Longrightarrow> data_of S x = mem_bytes (pb_mem S) (pb_payload b) (unat (pb_len b))"
  by (simp add: data_of_def)

lemma live_null [simp]: "live 0 S = None"
  by (simp add: live_def)

lemma chain_ConsD:
  assumes "chain S p (x # xs)"
  obtains b where "p = x" "x \<noteq> 0" "live x S = Some b" "chain S (pb_next b) xs"
  using assms by (cases "live x S") (auto intro: that simp: live_def split: if_splits)

lemma chain_unique: "chain S p xs \<Longrightarrow> chain S p ys \<Longrightarrow> xs = ys"
proof (induction xs arbitrary: p ys)
  case Nil
  then show ?case by (cases ys) auto
next
  case (Cons x xs)
  then show ?case by (cases ys) (auto split: option.splits)
qed

lemma chain_suffix: "chain S p (xs @ y # ys) \<Longrightarrow> chain S y (y # ys)"
proof (induction xs arbitrary: p)
  case (Cons x xs)
  then have "chain S p (x # (xs @ y # ys))" by simp
  then obtain b :: pbuf where "chain S (pb_next b) (xs @ y # ys)" by (rule chain_ConsD)
  then show ?case by (rule Cons.IH)
qed auto

lemma chain_distinct: "chain S p xs \<Longrightarrow> distinct xs"
proof (induction xs arbitrary: p)
  case (Cons x xs)
  obtain b :: pbuf where "chain S (pb_next b) xs" using Cons.prems by (rule chain_ConsD)
  moreover have "x \<notin> set xs"
  proof
    assume "x \<in> set xs"
    then obtain us vs where xs: "xs = us @ x # vs" by (auto simp: in_set_conv_decomp)
    have "chain S x (x # vs)" using Cons.prems chain_suffix [of S p "x # us" x vs] by (simp add: xs)
    moreover have "chain S x (x # xs)" using Cons.prems by simp
    ultimately show False using chain_unique [of S x "x # vs" "x # xs"] by (simp add: xs)
  qed
  ultimately show ?case using Cons.IH by simp
qed simp

section \<open>Reading\<close>

lemma copy_partial_loop_flat:
  "chain S p xs \<Longrightarrow> copy_partial_loop p len offset out S = Some (out @ take (unat len) (drop (unat offset) (flat S xs)))"
proof (induction xs arbitrary: p len offset out)
  case Nil
  then show ?case by (subst copy_partial_loop.simps) simp
next
  case (Cons x xs)
  show ?case
  proof (cases "len = 0")
    case True
    then show ?thesis by (subst copy_partial_loop.simps) simp
  next
    case len: False
    from Cons.prems obtain b where b: "p = x" "x \<noteq> 0" "live x S = Some b" "chain S (pb_next b) xs" by (rule chain_ConsD)
    define D where "D = data_of S x"
    have D: "D = mem_bytes (pb_mem S) (pb_payload b) (unat (pb_len b))" "length D = unat (pb_len b)"
      using data_of_live [OF b(3)] by (simp_all add: D_def)
    note IH = Cons.IH [OF b(4)]
    show ?thesis
    proof (cases "offset \<noteq> 0 \<and> offset \<ge> pb_len b")
      case True
      then have "unat (offset - pb_len b) = unat offset - unat (pb_len b)" "unat (pb_len b) \<le> unat offset"
        by (simp_all add: unat_sub word_le_nat_alt)
      then show ?thesis using True len b IH D by (subst copy_partial_loop.simps) (simp add: flip: D_def)
    next
      case False
      then have off: "unat offset \<le> unat (pb_len b)" by (auto simp: word_le_nat_alt)
      define n where "n = (if pb_len b - offset > len then len else pb_len b - offset)"
      have sub: "unat (pb_len b - offset) = unat (pb_len b) - unat offset" using off by (simp add: unat_sub word_le_nat_alt)
      have n: "unat n = min (unat len) (length D - unat offset)" using sub D(2) by (auto simp: n_def word_less_nat_alt)
      have rest: "unat (len - n) = unat len - unat n" using n by (simp add: unat_sub word_le_nat_alt)
      have "unat offset + unat n \<le> unat (pb_len b)" using n off D(2) by simp
      then have rd: "mem_bytes (pb_mem S) (pb_payload b + unat offset) (unat n) = take (unat n) (drop (unat offset) D)"
        unfolding D(1) by (rule mem_bytes_part)
      have "copy_partial_loop p len offset out S =
          copy_partial_loop (pb_next b) (len - n) 0 (out @ take (unat n) (drop (unat offset) D)) S"
        using False len b rd by (subst copy_partial_loop.simps) (auto simp: Let_def n_def)
      also have "\<dots> = Some (out @ take (unat n) (drop (unat offset) D) @ take (unat len - unat n) (flat S xs))"
        by (simp add: IH rest)
      also have "take (unat n) (drop (unat offset) D) @ take (unat len - unat n) (flat S xs) = take (unat len) (drop (unat offset) (flat S (x # xs)))"
        using off D(2) by (auto simp: n D_def [symmetric] min_def)
      finally show ?thesis .
    qed
  qed
qed

lemma copy_partial_flat:
  "chain S p xs \<Longrightarrow> pbuf_copy_partial p len offset S = Some (take (unat len) (drop (unat offset) (flat S xs)))"
  using copy_partial_loop_flat [of S p xs len offset "[]"] by (cases xs) (auto simp: pbuf_copy_partial_def)

lemma seek_spec:
  assumes "chain S p xs"
  obtains q pos' ys zs where "seek p pos S = Some (q, pos')" "xs = ys @ zs" "chain S q zs"
    "unat pos = length (flat S ys) + unat pos'" "zs \<noteq> [] \<longrightarrow> unat pos' < length (data_of S q)"
  using assms
proof (induction xs arbitrary: p pos thesis)
  case Nil
  have "seek p pos S = Some (0, pos)" using Nil(2) by (subst seek.simps) simp
  then show ?case using Nil(1) [of 0 pos "[]" "[]"] by simp
next
  case (Cons x xs)
  from Cons.prems(2) obtain b where b: "p = x" "x \<noteq> 0" "live x S = Some b" "chain S (pb_next b) xs" by (rule chain_ConsD)
  have l: "length (data_of S x) = unat (pb_len b)" using data_of_live [OF b(3)] by simp
  show ?case
  proof (cases "pb_len b \<le> pos")
    case True
    then have s: "seek p pos S = seek (pb_next b) (pos - pb_len b) S" using b by (subst seek.simps) simp
    have u: "unat (pos - pb_len b) = unat pos - unat (pb_len b)" "unat (pb_len b) \<le> unat pos" using True by (simp_all add: unat_sub word_le_nat_alt)
    obtain q pos' ys zs where "seek (pb_next b) (pos - pb_len b) S = Some (q, pos')" "xs = ys @ zs" "chain S q zs"
      "unat (pos - pb_len b) = length (flat S ys) + unat pos'" "zs \<noteq> [] \<longrightarrow> unat pos' < length (data_of S q)"
      using Cons.IH [OF _ b(4)] by metis
    then show ?thesis using Cons.prems(1) [of q pos' "x # ys" zs] s u l by simp
  next
    case False
    then have "seek p pos S = Some (p, pos)" using b by (subst seek.simps) simp
    then show ?thesis using Cons.prems(1) [of p pos "[]" "x # xs"] Cons.prems(2) False b l by (simp add: word_le_nat_alt)
  qed
qed

lemma get_at_flat:
  assumes "chain S p xs"
  shows "pbuf_get_at p offset S = Some (if unat offset < length (flat S xs) then flat S xs ! unat offset else 0)"
proof -
  from assms obtain q pos ys zs where s: "seek p offset S = Some (q, pos)" "xs = ys @ zs" "chain S q zs"
    "unat offset = length (flat S ys) + unat pos" "zs \<noteq> [] \<longrightarrow> unat pos < length (data_of S q)"
    by (rule seek_spec)
  show ?thesis
  proof (cases zs)
    case Nil
    then show ?thesis using s by (simp add: pbuf_get_at_def)
  next
    case (Cons z zs')
    with s(3) obtain b where b: "q = z" "z \<noteq> 0" "live z S = Some b" by (metis chain_ConsD)
    have "data_of S z ! unat pos = pb_mem S (pb_payload b + unat pos)"
      using s(5) Cons data_of_live [OF b(3)] b(1) by (simp add: mem_bytes_def)
    then show ?thesis using s b Cons by (simp add: pbuf_get_at_def nth_append)
  qed
qed

text \<open>A chain of one packet: its total lengths are right at every structure.\<close>

fun packet :: "'h pstore \<Rightarrow> nat \<Rightarrow> nat list \<Rightarrow> bool" where
  "packet S p [] \<longleftrightarrow> p = 0"
| "packet S p (x # xs) \<longleftrightarrow> p = x \<and>
     (case live x S of None \<Rightarrow> False
      | Some b \<Rightarrow> packet S (pb_next b) xs \<and> unat (pb_tot_len b) = length (flat S (x # xs)))"

lemma packet_chain: "packet S p xs \<Longrightarrow> chain S p xs"
  by (induction xs arbitrary: p) (auto split: option.splits)

lemma packet_ConsD:
  assumes "packet S p (x # xs)"
  obtains b where "p = x" "x \<noteq> 0" "live x S = Some b" "packet S (pb_next b) xs" "unat (pb_tot_len b) = length (flat S (x # xs))"
    "length (data_of S x) = unat (pb_len b)"
  using assms by (cases "live x S") (auto intro: that simp: live_def data_of_def split: if_splits)

lemma packet_hd:
  assumes "packet S p xs" "xs \<noteq> []"
  obtains b where "p \<noteq> 0" "p \<in> set xs" "live p S = Some b" "unat (pb_tot_len b) = length (flat S xs)"
proof -
  obtain x xs' where xs: "xs = x # xs'" using assms(2) by (cases xs) auto
  from assms(1) obtain b where "p = x" "x \<noteq> 0" "live x S = Some b" "unat (pb_tot_len b) = length (flat S xs)"
    unfolding xs by (rule packet_ConsD)
  then show thesis by (intro that) (simp_all add: xs)
qed

section \<open>Writing\<close>

definition extent :: "'h pstore \<Rightarrow> nat \<Rightarrow> nat set" where
  "extent S x = (case live x S of None \<Rightarrow> {} | Some b \<Rightarrow> {pb_payload b..<pb_payload b + unat (pb_len b)})"

fun apart :: "'h pstore \<Rightarrow> nat list \<Rightarrow> bool" where
  "apart S [] \<longleftrightarrow> True"
| "apart S (x # xs) \<longleftrightarrow> extent S x \<inter> \<Union> (extent S ` set xs) = {} \<and> apart S xs"

lemma read_written: "n \<le> length bs \<Longrightarrow> mem_bytes (put_bytes m a bs) a n = take n bs"
  by (rule nth_equalityI) (simp_all add: mem_bytes_def put_bytes_def)

lemma mem_bytes_split: "n \<le> l \<Longrightarrow> mem_bytes m a l = mem_bytes m a n @ mem_bytes m (a + n) (l - n)"
  by (rule nth_equalityI) (auto simp: mem_bytes_def nth_append)

lemma mem_bytes_cong: "(\<And>x. a \<le> x \<Longrightarrow> x < a + n \<Longrightarrow> m x = m' x) \<Longrightarrow> mem_bytes m a n = mem_bytes m' a n"
  by (simp add: mem_bytes_def)

lemma write_outside: "x \<notin> {a..<a + length bs} \<Longrightarrow> put_bytes m a bs x = m x"
  by (auto simp: put_bytes_def)

lemma live_mem [simp]: "live x (S\<lparr>pb_mem := m\<rparr>) = live x S"
  by (simp add: live_def)

lemma extent_mem [simp]: "extent (S\<lparr>pb_mem := m\<rparr>) x = extent S x"
  by (simp add: extent_def)

lemma apart_mem [simp]: "apart (S\<lparr>pb_mem := m\<rparr>) xs = apart S xs"
  by (induction xs) simp_all

lemma chain_mem [simp]: "chain (S\<lparr>pb_mem := m\<rparr>) p xs = chain S p xs"
  by (induction xs arbitrary: p) (simp_all split: option.split)

lemma data_of_mem_cong: "(\<And>a. a \<in> extent S x \<Longrightarrow> m a = pb_mem S a) \<Longrightarrow> data_of (S\<lparr>pb_mem := m\<rparr>) x = data_of S x"
  by (auto simp: data_of_def extent_def intro!: mem_bytes_cong split: option.split)

lemma flat_mem_cong:
  "(\<And>a. a \<in> \<Union> (extent S ` set xs) \<Longrightarrow> m a = pb_mem S a) \<Longrightarrow> flat (S\<lparr>pb_mem := m\<rparr>) xs = flat S xs"
  by (induction xs) (simp_all add: data_of_mem_cong)

lemma take_loop_spec:
  "chain S p xs \<Longrightarrow> apart S xs \<Longrightarrow> unat n \<le> length (flat S xs) \<Longrightarrow> unat copied + unat n \<le> length data \<Longrightarrow> length data < 65536 \<Longrightarrow>
   \<exists>m. take_loop p data n copied S = Some (S\<lparr>pb_mem := m\<rparr>) \<and>
     flat (S\<lparr>pb_mem := m\<rparr>) xs = take (unat n) (drop (unat copied) data) @ drop (unat n) (flat S xs) \<and>
     (\<forall>a. a \<notin> \<Union> (extent S ` set xs) \<longrightarrow> m a = pb_mem S a)"
proof (induction xs arbitrary: S p n copied)
  case Nil
  then have "n = 0" by (simp add: unat_eq_0 [symmetric])
  then show ?case by (intro exI [of _ "pb_mem S"]) (subst take_loop.simps, simp)
next
  case (Cons x xs)
  show ?case
  proof (cases "n = 0")
    case True
    then show ?thesis by (intro exI [of _ "pb_mem S"]) (subst take_loop.simps, simp)
  next
    case n0: False
    from Cons.prems(1) obtain b where b: "p = x" "x \<noteq> 0" "live x S = Some b" "chain S (pb_next b) xs" by (rule chain_ConsD)
    define k where "k = (if n > pb_len b then pb_len b else n)"
    have k: "unat k = min (unat n) (unat (pb_len b))" by (auto simp: k_def word_less_nat_alt)
    define bs where "bs = take (unat k) (drop (unat copied) data)"
    have bs: "length bs = unat k" using Cons.prems(4) k by (simp add: bs_def)
    define m1 where "m1 = put_bytes (pb_mem S) (pb_payload b) bs"
    define S1 where "S1 = S\<lparr>pb_mem := m1\<rparr>"
    have step: "take_loop p data n copied S = take_loop (pb_next b) data (n - k) (copied + k) S1"
    proof -
      have "unat copied + unat k \<le> length data" using Cons.prems(4) k by simp
      then show ?thesis
        unfolding take_loop.simps [of p data n copied S] S1_def m1_def bs_def k_def using n0 b(1,3)
        by (simp add: Let_def)
    qed
    have ex: "{pb_payload b..<pb_payload b + unat k} \<subseteq> extent S x" using k b(3) by (auto simp: extent_def)
    have keep: "m1 a = pb_mem S a" if "a \<notin> extent S x" for a
      unfolding m1_def by (rule write_outside) (use that ex bs in auto)
    have fl: "flat S1 xs = flat S xs"
      unfolding S1_def by (rule flat_mem_cong, rule keep) (use Cons.prems(2) in auto)
    have d1: "data_of S1 x = bs @ drop (unat k) (data_of S x)"
    proof -
      have kl: "unat k \<le> unat (pb_len b)" using k by simp
      have "data_of S1 x = mem_bytes m1 (pb_payload b) (unat k) @ mem_bytes m1 (pb_payload b + unat k) (unat (pb_len b) - unat k)"
        using b(3) mem_bytes_split [OF kl] by (simp add: data_of_def S1_def)
      also have "mem_bytes m1 (pb_payload b) (unat k) = bs" using bs by (simp add: m1_def read_written)
      also have "mem_bytes m1 (pb_payload b + unat k) (unat (pb_len b) - unat k) =
          mem_bytes (pb_mem S) (pb_payload b + unat k) (unat (pb_len b) - unat k)"
        unfolding m1_def by (rule mem_bytes_cong, rule write_outside) (use bs in auto)
      also have "\<dots> = drop (unat k) (data_of S x)"
        using kl mem_bytes_part [of "unat k" "unat (pb_len b) - unat k" "unat (pb_len b)" "pb_mem S" "pb_payload b"]
        by (simp add: data_of_live [OF b(3)])
      finally show ?thesis .
    qed
    have u: "unat (n - k) = unat n - unat k" using k by (simp add: unat_sub word_le_nat_alt)
    have uc: "unat (copied + k) = unat copied + unat k" using Cons.prems(4,5) k by (simp add: unat_word_ariths)
    have "unat (n - k) \<le> length (flat S1 xs)"
      using Cons.prems(3) data_of_live [OF b(3)] by (simp add: u fl k)
    moreover have "chain S1 (pb_next b) xs" "apart S1 xs" using b(4) Cons.prems(2) by (simp_all add: S1_def)
    moreover have "unat (copied + k) + unat (n - k) \<le> length data" using Cons.prems(4) k by (simp add: u uc)
    ultimately obtain m where m: "take_loop (pb_next b) data (n - k) (copied + k) S1 = Some (S1\<lparr>pb_mem := m\<rparr>)"
      "flat (S1\<lparr>pb_mem := m\<rparr>) xs = take (unat (n - k)) (drop (unat (copied + k)) data) @ drop (unat (n - k)) (flat S1 xs)"
      "\<forall>a. a \<notin> \<Union> (extent S1 ` set xs) \<longrightarrow> m a = pb_mem S1 a"
      using Cons.IH [of S1 "pb_next b" "n - k" "copied + k"] Cons.prems(5) by auto
    have S1m: "S1\<lparr>pb_mem := m\<rparr> = S\<lparr>pb_mem := m\<rparr>" by (simp add: S1_def)
    have ext1: "extent S1 y = extent S y" for y by (simp add: S1_def)
    have "data_of (S1\<lparr>pb_mem := m\<rparr>) x = data_of S1 x"
      by (rule data_of_mem_cong) (use m(3) Cons.prems(2) in \<open>auto simp: ext1 disjoint_iff\<close>)
    then have "flat (S\<lparr>pb_mem := m\<rparr>) (x # xs) =
        bs @ drop (unat k) (data_of S x) @ take (unat n - unat k) (drop (unat copied + unat k) data) @ drop (unat n - unat k) (flat S xs)"
      using m(2) d1 fl by (simp add: S1m u uc)
    also have "\<dots> = take (unat n) (drop (unat copied) data) @ drop (unat n) (flat S (x # xs))"
    proof (cases "unat n \<le> unat (pb_len b)")
      case True
      then show ?thesis using k b(3) data_of_live [OF b(3)] by (simp add: bs_def)
    next
      case False
      then have kk: "unat k = unat (pb_len b)" "unat k \<le> unat n" using k by simp_all
      have "take (unat n) (drop (unat copied) data) = bs @ take (unat n - unat k) (drop (unat k) (drop (unat copied) data))"
        using kk(2) take_add [of "unat k" "unat n - unat k" "drop (unat copied) data"] by (simp add: bs_def)
      then show ?thesis using kk data_of_live [OF b(3)] by (simp add: add.commute)
    qed
    finally have "flat (S\<lparr>pb_mem := m\<rparr>) (x # xs) = take (unat n) (drop (unat copied) data) @ drop (unat n) (flat S (x # xs))" .
    moreover have "m a = pb_mem S a" if "a \<notin> \<Union> (extent S ` set (x # xs))" for a
      using that m(3) keep by (auto simp: ext1 S1_def)
    ultimately show ?thesis using step m(1) S1m by auto
  qed
qed

text \<open>
  C39. What \<open>pbuf_take\<close> writes is what \<open>pbuf_copy_partial\<close> reads.  On a packet whose buffers do
  not overlap, taking data that fits replaces the front of the packet's bytes by the data across
  however many structures it spans, leaves the rest of the packet and all other memory alone, and
  copying out any range then gives that range; data that does not fit is refused and nothing
  changes.
\<close>

theorem pbuf_take_copy:
  assumes "packet S p xs" "xs \<noteq> []" "apart S xs" "length data = unat len"
  shows "if unat len \<le> length (flat S xs)
    then \<exists>m. pbuf_take p data len S = Some (ERR_OK, S\<lparr>pb_mem := m\<rparr>) \<and>
      flat (S\<lparr>pb_mem := m\<rparr>) xs = data @ drop (unat len) (flat S xs) \<and>
      pbuf_copy_partial p n offset (S\<lparr>pb_mem := m\<rparr>) = Some (take (unat n) (drop (unat offset) (data @ drop (unat len) (flat S xs)))) \<and>
      {a. m a \<noteq> pb_mem S a} \<subseteq> \<Union> (extent S ` set xs)
    else pbuf_take p data len S = Some (ERR_ARG, S)"
proof -
  from assms(1,2) obtain b where b: "p \<noteq> 0" "live p S = Some b" "unat (pb_tot_len b) = length (flat S xs)"
    by (rule packet_hd)
  have take: "pbuf_take p data len S = (if length (flat S xs) < unat len then Some (ERR_ARG, S) else map_option (Pair ERR_OK) (take_loop p data len 0 S))"
    using b by (simp add: pbuf_take_def word_less_nat_alt)
  show ?thesis
  proof (cases "unat len \<le> length (flat S xs)")
    case True
    have "length data < 65536" using assms(4) by simp
    then obtain m where m: "take_loop p data len 0 S = Some (S\<lparr>pb_mem := m\<rparr>)"
      "flat (S\<lparr>pb_mem := m\<rparr>) xs = data @ drop (unat len) (flat S xs)" "\<forall>a. a \<notin> \<Union> (extent S ` set xs) \<longrightarrow> m a = pb_mem S a"
      using take_loop_spec [OF packet_chain [OF assms(1)] assms(3) True, of 0 data] assms(4) by auto
    have "chain (S\<lparr>pb_mem := m\<rparr>) p xs" using packet_chain [OF assms(1)] by simp
    from copy_partial_flat [OF this] have "pbuf_copy_partial p n offset (S\<lparr>pb_mem := m\<rparr>) =
        Some (take (unat n) (drop (unat offset) (data @ drop (unat len) (flat S xs))))"
      unfolding m(2) .
    moreover have "pbuf_take p data len S = Some (ERR_OK, S\<lparr>pb_mem := m\<rparr>)" using True m(1) by (simp add: take)
    moreover have "{a. m a \<noteq> pb_mem S a} \<subseteq> \<Union> (extent S ` set xs)" using m(3) by auto
    ultimately show ?thesis using True m(2) by auto
  qed (simp add: take)
qed

section \<open>Comparing and finding\<close>

definition byte_or_zero :: "u8 list \<Rightarrow> nat \<Rightarrow> u8" where
  "byte_or_zero bs k = (if k < length bs then bs ! k else 0)"

lemma memcmp_loop_spec:
  "chain S q zs \<Longrightarrow> unat start + i + n < 65536 \<Longrightarrow> i + n \<le> length s2 \<Longrightarrow>
   (\<forall>k. i \<le> k \<and> k < i + n \<longrightarrow> byte_or_zero (flat S zs) (unat start + k) = s2 ! k) \<and> memcmp_loop q start s2 i n S = Some 0 \<or>
   (\<exists>k. i \<le> k \<and> k < i + n \<and> byte_or_zero (flat S zs) (unat start + k) \<noteq> s2 ! k \<and> memcmp_loop q start s2 i n S = Some (of_nat (k + 1)))"
proof (induction n arbitrary: i)
  case (Suc n)
  have "unat (start + of_nat i) = unat start + i" using Suc.prems(2) by (simp add: unat_word_ariths)
  then have a: "pbuf_get_at q (start + of_nat i) S = Some (byte_or_zero (flat S zs) (unat start + i))"
    using get_at_flat [OF Suc.prems(1)] by (simp add: byte_or_zero_def)
  show ?case
  proof (cases "byte_or_zero (flat S zs) (unat start + i) = s2 ! i")
    case True
    then have eq: "memcmp_loop q start s2 i (Suc n) S = memcmp_loop q start s2 (Suc i) n S" using a Suc.prems(3) by simp
    from Suc.IH [of "Suc i"] Suc.prems consider
      "\<And>k. Suc i \<le> k \<Longrightarrow> k < i + Suc n \<Longrightarrow> byte_or_zero (flat S zs) (unat start + k) = s2 ! k" "memcmp_loop q start s2 (Suc i) n S = Some 0"
    | k where "Suc i \<le> k" "k < i + Suc n" "byte_or_zero (flat S zs) (unat start + k) \<noteq> s2 ! k" "memcmp_loop q start s2 (Suc i) n S = Some (of_nat (k + 1))"
      by auto
    then show ?thesis
    proof cases
      case 1
      then have "byte_or_zero (flat S zs) (unat start + k) = s2 ! k" if "i \<le> k" "k < i + Suc n" for k
        using that True by (cases "k = i") auto
      then show ?thesis using 1(2) eq by simp
    next
      case (2 k)
      then show ?thesis using eq by (intro disjI2 exI [of _ k]) simp
    qed
  next
    case False
    then show ?thesis using a Suc.prems(3) by (intro disjI2 exI [of _ i]) simp
  qed
qed auto

lemma memcmp_spec:
  assumes "chain S p xs" "unat offset + length pat \<le> length (flat S xs)" "pat \<noteq> []" "length pat = unat n" "length (flat S xs) < 65536"
  shows "take (length pat) (drop (unat offset) (flat S xs)) = pat \<and> pbuf_memcmp p offset pat n S = Some 0 \<or>
    (\<exists>k. k < length pat \<and> pbuf_memcmp p offset pat n S = Some (of_nat (k + 1)))"
proof -
  from assms(1) obtain q start ys zs where s: "seek p offset S = Some (q, start)" "xs = ys @ zs" "chain S q zs"
    "unat offset = length (flat S ys) + unat start"
    by (rule seek_spec)
  have "zs \<noteq> []" using s assms(2,3) by (cases zs) auto
  then have "q \<noteq> 0" using s(3) by (cases zs; cases "q = 0") auto
  then have m: "pbuf_memcmp p offset pat n S = memcmp_loop q start pat 0 (unat n) S" using s(1) by (simp add: pbuf_memcmp_def)
  have b: "byte_or_zero (flat S zs) (unat start + k) = flat S xs ! (unat offset + k)" if "k < unat n" for k
    using that s assms(2,4) by (simp add: byte_or_zero_def nth_append)
  have "unat start + 0 + unat n < 65536" using s assms(2,4,5) by simp
  from memcmp_loop_spec [OF s(3) this, of pat] assms(4) consider
    "\<forall>k. k < unat n \<longrightarrow> byte_or_zero (flat S zs) (unat start + k) = pat ! k" "pbuf_memcmp p offset pat n S = Some 0"
  | k where "k < unat n" "pbuf_memcmp p offset pat n S = Some (of_nat (k + 1))" unfolding m by auto
  then show ?thesis
  proof cases
    case 1
    have "take (length pat) (drop (unat offset) (flat S xs)) = pat"
      using assms(2,4) 1(1) b by (intro nth_equalityI) auto
    then show ?thesis using 1(2) by simp
  qed (use assms(4) in auto)
qed

lemma memfind_loop_sound:
  assumes "chain S p xs" "pat \<noteq> []" "length pat = unat n" "length (flat S xs) < 65536" "unat mx + length pat = length (flat S xs)"
  shows "\<exists>r. memfind_loop p pat n i mx S = Some r \<and>
    (r = 0xFFFF \<or> unat i \<le> unat r \<and> take (length pat) (drop (unat r) (flat S xs)) = pat)"
proof (induction "65536 - unat i" arbitrary: i rule: less_induct)
  case less
  show ?case
  proof (cases "i \<le> mx")
    case False
    then show ?thesis by (subst memfind_loop.simps) simp
  next
    case True
    then have fits: "unat i + length pat \<le> length (flat S xs)" using assms(5) by (simp add: word_le_nat_alt)
    from memcmp_spec [OF assms(1) fits assms(2,3,4)] consider
      "take (length pat) (drop (unat i) (flat S xs)) = pat" "pbuf_memcmp p i pat n S = Some 0"
    | k where "k < length pat" "pbuf_memcmp p i pat n S = Some (of_nat (k + 1))" by auto
    then show ?thesis
    proof cases
      case 1
      then show ?thesis using True by (subst memfind_loop.simps) simp
    next
      case (2 k)
      define d :: u16 where "d = of_nat (k + 1)"
      have d: "unat d = k + 1" using 2(1) assms(3) unat_u16_bound [of n] by (simp only: d_def unat_of_nat_u16)
      then have "d \<noteq> 0" by auto
      then have step: "memfind_loop p pat n i mx S = memfind_loop p pat n (i + d) mx S"
        using True 2(2) by (subst memfind_loop.simps) (simp add: d_def)
      have u: "unat (i + d) = unat i + k + 1" using fits 2(1) assms(4) d by (simp add: unat_word_ariths)
      have lt: "65536 - unat (i + d) < 65536 - unat i" using u unat_u16_bound [of "i + d"] by linarith
      obtain r where "memfind_loop p pat n (i + d) mx S = Some r"
        "r = 0xFFFF \<or> unat (i + d) \<le> unat r \<and> take (length pat) (drop (unat r) (flat S xs)) = pat"
        using less.hyps [OF lt] by blast
      then show ?thesis using step u by auto
    qed
  qed
qed

text \<open>
  \<open>pbuf_memfind\<close> never reports a wrong place.  In a packet of less than 64 KiB it always
  ends, and an index other than 0xFFFF is not before the start asked for and the pattern stands
  there, even across structures.
\<close>

theorem pbuf_memfind_sound:
  assumes "packet S p xs" "xs \<noteq> []" "pat \<noteq> []" "length pat = unat n"
  shows "\<exists>r. pbuf_memfind p pat n start S = Some r \<and>
    (r = 0xFFFF \<or> unat start \<le> unat r \<and> take (length pat) (drop (unat r) (flat S xs)) = pat)"
proof -
  from assms(1,2) obtain b where b: "live p S = Some b" "unat (pb_tot_len b) = length (flat S xs)" by (rule packet_hd)
  have uint_le: "uint n + uint start \<le> uint (pb_tot_len b) \<longleftrightarrow> length pat + unat start \<le> length (flat S xs)"
    unfolding assms(4) b(2) [symmetric] by (simp only: uint_nat of_nat_add [symmetric] of_nat_le_iff)
  show ?thesis
  proof (cases "length pat + unat start \<le> length (flat S xs)")
    case True
    then have "pbuf_memfind p pat n start S = memfind_loop p pat n start (pb_tot_len b - n) S" using b uint_le by (simp add: pbuf_memfind_def)
    moreover have "unat (pb_tot_len b - n) + length pat = length (flat S xs)"
      using True assms(4) b(2) by (simp add: unat_sub word_le_nat_alt)
    moreover have "length (flat S xs) < 65536" using b(2) unat_u16_bound [of "pb_tot_len b"] by simp
    ultimately show ?thesis using memfind_loop_sound [OF packet_chain [OF assms(1)] assms(3,4)] by simp
  next
    case False
    then show ?thesis using b uint_le by (simp add: pbuf_memfind_def)
  qed
qed

text \<open>But it misses places: after a difference it skips the byte that differed.\<close>

lemma pbuf_memfind_misses:
  assumes "packet S p xs" "flat S xs = [u, u, v]" "u \<noteq> v"
  shows "pbuf_memfind p [u, v] 2 0 S = Some 0xFFFF"
proof -
  have c: "chain S p xs" by (rule packet_chain [OF assms(1)])
  have "xs \<noteq> []" using assms(2) by auto
  with assms(1) obtain b where b: "live p S = Some b" "unat (pb_tot_len b) = length (flat S xs)" by (rule packet_hd)
  have tot: "pb_tot_len b = 3" using b(2) assms(2) by (simp add: word_unat_eq_iff)
  from c obtain q start ys zs where s: "seek p 0 S = Some (q, start)" "xs = ys @ zs" "chain S q zs" "0 = length (flat S ys) + unat start"
    by (rule seek_spec [of S p xs 0]) auto
  have zs: "flat S zs = [u, u, v]" "start = 0" using s(2,4) assms(2) by (simp_all add: unat_eq_0)
  have "q \<noteq> 0" using s(3) zs(1) by (cases zs; cases "q = 0") auto
  then have "pbuf_memcmp p 0 [u, v] 2 S = memcmp_loop q 0 [u, v] 0 (Suc (Suc 0)) S" using s(1) zs(2) by (simp add: pbuf_memcmp_def del: memcmp_loop.simps) (simp only: numeral_2_eq_2)
  also have "\<dots> = Some 2" using get_at_flat [OF s(3)] zs(1) assms(3) by simp
  finally have "pbuf_memcmp p 0 [u, v] 2 S = Some 2" .
  then show ?thesis
    using b tot memfind_loop.simps [of p "[u, v]" 2 0 1 S] memfind_loop.simps [of p "[u, v]" 2 2 1 S]
    by (simp add: pbuf_memfind_def word_le_nat_alt)
qed

section \<open>Releasing a chain\<close>

lemma live_put [simp]: "live y (put x b S) = (if x = y \<and> y \<noteq> 0 then Some b else live y S)"
  by (simp add: live_def put_def)

lemma live_release [simp]: "live y (release env x b S) = (if x = y then None else live y S)"
  by (simp add: live_def release_def Let_def)

lemma mem_put [simp]: "pb_mem (put x b S) = pb_mem S" "pb_heap (put x b S) = pb_heap S"
  by (simp_all add: put_def)

lemma mem_release [simp]: "pb_mem (release env x b S) = pb_mem S"
  by (simp add: release_def Let_def)

lemma chain_cong: "(\<And>x. x \<in> set xs \<Longrightarrow> live x S' = live x S) \<Longrightarrow> chain S' p xs = chain S p xs"
  by (induction xs arbitrary: p) (simp_all split: option.split)

definition ref_of :: "'h pstore \<Rightarrow> nat \<Rightarrow> u16" where
  "ref_of S x = (case live x S of None \<Rightarrow> 0 | Some b \<Rightarrow> pb_ref b)"

text \<open>The structures that die: those before the first that is referenced more than once.\<close>

definition dying :: "'h pstore \<Rightarrow> nat list \<Rightarrow> nat list" where
  "dying S xs = takeWhile (\<lambda>x. ref_of S x = 1) xs"

definition survivors :: "'h pstore \<Rightarrow> nat list \<Rightarrow> nat list" where
  "survivors S xs = dropWhile (\<lambda>x. ref_of S x = 1) xs"

definition heap_release :: "'h pbuf_env \<Rightarrow> 'h pstore \<Rightarrow> nat \<Rightarrow> 'h \<Rightarrow> 'h" where
  "heap_release env S x h = (case live x S of None \<Rightarrow> h
     | Some b \<Rightarrow> mem_free env x (if pb_type b = PBUF_RAM \<or> pb_type b = PBUF_POOL then h else recycle_rx_pkt env (pb_eb b) h))"

definition live_after_free :: "'h pstore \<Rightarrow> nat list \<Rightarrow> nat \<Rightarrow> pbuf option" where
  "live_after_free S xs x =
     (if x \<in> set (dying S xs) then None
      else if survivors S xs \<noteq> [] \<and> x = hd (survivors S xs) then map_option (\<lambda>b. b\<lparr>pb_ref := pb_ref b - 1\<rparr>) (live x S)
      else live x S)"

lemma free_loop_spec:
  "chain S p xs \<Longrightarrow> \<exists>S'. free_loop env p count S = Some (count + of_nat (length (dying S xs)), S') \<and>
     (\<forall>x. live x S' = live_after_free S xs x) \<and> pb_mem S' = pb_mem S \<and> pb_heap S' = fold (heap_release env S) (dying S xs) (pb_heap S)"
proof (induction xs arbitrary: S p count)
  case Nil
  then show ?case by (subst free_loop.simps) (simp add: dying_def survivors_def live_after_free_def)
next
  case (Cons x xs)
  from Cons.prems obtain b where b: "p = x" "x \<noteq> 0" "live x S = Some b" "chain S (pb_next b) xs" by (rule chain_ConsD)
  have x: "x \<notin> set xs" using chain_distinct [OF Cons.prems] by simp
  define b' where "b' = b\<lparr>pb_ref := pb_ref b - 1\<rparr>"
  show ?case
  proof (cases "pb_ref b = 1")
    case False
    then have "pb_ref b - 1 \<noteq> 0" by simp
    then have "free_loop env p count S = Some (count, put x b' S)"
      using b by (subst free_loop.simps) (simp add: Let_def b'_def)
    moreover have "ref_of S x \<noteq> 1" using False b(3) by (simp add: ref_of_def)
    ultimately show ?thesis using b by (simp add: dying_def survivors_def live_after_free_def b'_def)
  next
    case True
    define S1 where "S1 = release env x b' (put x b' S)"
    have step: "free_loop env p count S = free_loop env (pb_next b) (count + 1) S1"
      using b True by (subst free_loop.simps) (simp add: Let_def b'_def S1_def)
    have same: "live y S1 = live y S" if "y \<noteq> x" for y using that by (simp add: S1_def)
    then have "chain S1 (pb_next b) xs" using b(4) x chain_cong [of xs S1 S] by metis
    from Cons.IH [OF this, of "count + 1"] obtain S' where S': "free_loop env p count S = Some (count + 1 + of_nat (length (dying S1 xs)), S')"
      "\<forall>x. live x S' = live_after_free S1 xs x" "pb_mem S' = pb_mem S1" "pb_heap S' = fold (heap_release env S1) (dying S1 xs) (pb_heap S1)"
      unfolding step by auto
    have r1: "ref_of S x = 1" using True b(3) by (simp add: ref_of_def)
    have refs: "ref_of S1 y = ref_of S y" if "y \<in> set xs" for y using that x same by (metis ref_of_def)
    have d: "dying S (x # xs) = x # dying S1 xs" "survivors S (x # xs) = survivors S1 xs"
      using r1 refs by (auto simp: dying_def survivors_def cong: takeWhile_cong dropWhile_cong)
    have sub: "set (dying S1 xs) \<subseteq> set xs" "survivors S1 xs \<noteq> [] \<longrightarrow> hd (survivors S1 xs) \<in> set xs"
      by (auto simp: dying_def survivors_def dest: set_takeWhileD intro: set_dropWhileD [OF hd_in_set])
    have "live y S' = live_after_free S (x # xs) y" for y
      using S'(2) sub x same [of y] by (cases "y = x") (auto simp: live_after_free_def d S1_def)
    moreover have "pb_heap S1 = heap_release env S x (pb_heap S)"
      using b(3) by (cases "pb_type b") (simp_all add: S1_def release_def heap_release_def b'_def Let_def)
    moreover have "fold (heap_release env S1) (dying S1 xs) h = fold (heap_release env S) (dying S1 xs) h" for h
    proof (rule fold_cong [OF refl refl])
      fix z assume "z \<in> set (dying S1 xs)"
      then have "z \<noteq> x" using sub(1) x by auto
      then show "heap_release env S1 z = heap_release env S z" using same [of z] by (simp add: heap_release_def fun_eq_iff)
    qed
    ultimately show ?thesis using S' by (simp add: d S1_def)
  qed
qed

text \<open>
  C38. Releasing a packet.  On a chain \<open>pbuf_free\<close> ends, frees exactly the structures before the
  first one that is referenced more than once, in order, each going back to the heap once, takes
  one reference from that one, touches no other structure and no data, and returns the number
  freed.
\<close>

theorem pbuf_free_releases:
  assumes "chain S p xs"
  shows "\<exists>S'. pbuf_free env p S = Some (of_nat (length (dying S xs)), S') \<and> (\<lambda>x. live x S') = live_after_free S xs \<and>
     pb_mem S' = pb_mem S \<and> pb_heap S' = fold (heap_release env S) (dying S xs) (pb_heap S)"
  using free_loop_spec [OF assms, of env 0] by (auto simp: pbuf_free_def fun_eq_iff)

section \<open>Joining chains\<close>

lemma flat_cong:
  "(\<And>x. x \<in> set xs \<Longrightarrow> data_of S' x = data_of S x) \<Longrightarrow> flat S' xs = flat S xs"
  by (induction xs) simp_all

lemma packet_cong:
  "(\<And>x. x \<in> set xs \<Longrightarrow> live x S' = live x S) \<Longrightarrow> pb_mem S' = pb_mem S \<Longrightarrow> packet S' p xs = packet S p xs"
proof (induction xs arbitrary: p)
  case (Cons x xs)
  have "data_of S' z = data_of S z" if "z \<in> set (x # xs)" for z
    using Cons.prems(1) [OF that] Cons.prems(2) by (simp only: data_of_def)
  then have "flat S' (x # xs) = flat S (x # xs)" by (rule flat_cong)
  then show ?case using Cons by (simp split: option.split)
qed simp

lemma data_of_lengths: "live x S' = Some (b\<lparr>pb_tot_len := n, pb_next := q\<rparr>) \<Longrightarrow> live x S = Some b \<Longrightarrow> pb_mem S' = pb_mem S \<Longrightarrow> data_of S' x = data_of S x"
  by (simp add: data_of_def)

lemma cat_loop_spec:
  "packet S p xs \<Longrightarrow> xs \<noteq> [] \<Longrightarrow> packet S t ts \<Longrightarrow> ts \<noteq> [] \<Longrightarrow> set xs \<inter> set ts = {} \<Longrightarrow>
   length (flat S xs) + length (flat S ts) < 65536 \<Longrightarrow>
   \<exists>S'. cat_loop p t S = Some S' \<and> packet S' p (xs @ ts) \<and> flat S' (xs @ ts) = flat S xs @ flat S ts \<and>
     (\<forall>x. x \<notin> set xs \<longrightarrow> live x S' = live x S) \<and> (\<forall>x. ref_of S' x = ref_of S x) \<and> pb_mem S' = pb_mem S \<and> pb_heap S' = pb_heap S"
proof (induction xs arbitrary: S p)
  case (Cons x xs)
  from Cons.prems(1) obtain b where b: "p = x" "x \<noteq> 0" "live x S = Some b" "packet S (pb_next b) xs"
    "unat (pb_tot_len b) = length (flat S (x # xs))" "length (data_of S x) = unat (pb_len b)" by (rule packet_ConsD)
  obtain tb where tb: "t \<noteq> 0" "live t S = Some tb" "unat (pb_tot_len tb) = length (flat S ts)" "t \<in> set ts"
    by (rule packet_hd [OF Cons.prems(3,4)])
  define tot where "tot = pb_tot_len b + pb_tot_len tb"
  have tot: "unat tot = length (flat S (x # xs)) + length (flat S ts)"
    using Cons.prems(6) b(5) tb(3) by (simp add: tot_def unat_word_ariths)
  have x: "x \<notin> set xs" "x \<notin> set ts" using chain_distinct [OF packet_chain [OF Cons.prems(1)]] Cons.prems(5) by auto
  show ?case
  proof (cases xs)
    case Nil
    then have nx: "pb_next b = 0" using b(4) by simp
    define b' where "b' = b\<lparr>pb_tot_len := tot, pb_next := t\<rparr>"
    define S' where "S' = put x b' S"
    have "cat_loop p t S = Some S'" using b tb nx by (subst cat_loop.simps) (simp add: S'_def b'_def tot_def)
    moreover have dx: "data_of S' x = data_of S x" using b(2,3) by (simp add: data_of_def S'_def b'_def)
    moreover have "data_of S' z = data_of S z" for z using b(2,3) by (auto simp: data_of_def S'_def b'_def split: option.split)
    then have ts: "packet S' t ts" "flat S' ts = flat S ts"
    proof -
      have "live z S' = live z S" if "z \<in> set ts" for z using that x(2) by (auto simp: S'_def)
      from packet_cong [OF this] show "packet S' t ts" using Cons.prems(3) by (simp add: S'_def)
    qed (auto intro: flat_cong)
    moreover have "packet S' p ((x # xs) @ ts)" using b(1,2) ts tot Nil dx by (simp add: S'_def b'_def)
    moreover have "ref_of S' y = ref_of S y" for y using b(2,3) by (auto simp: ref_of_def S'_def b'_def)
    ultimately show ?thesis using Nil by (auto simp: S'_def)
  next
    case Cons': (Cons y ys)
    then have nx: "pb_next b \<noteq> 0" using packet_hd [OF b(4)] by blast
    define b' where "b' = b\<lparr>pb_tot_len := tot\<rparr>"
    define S1 where "S1 = put x b' S"
    have step: "cat_loop p t S = cat_loop (pb_next b) t S1" using b tb nx by (subst cat_loop.simps) (simp add: S1_def b'_def tot_def)
    have keep: "live z S1 = live z S" if "z \<noteq> x" for z using that by (simp add: S1_def)
    have data1: "data_of S1 z = data_of S z" for z using b(2,3) by (auto simp: data_of_def S1_def b'_def split: option.split)
    then have flat1: "flat S1 zs = flat S zs" for zs by (intro flat_cong)
    have "packet S1 q zs = packet S q zs" if "x \<notin> set zs" for q zs
    proof (rule packet_cong)
      show "live z S1 = live z S" if "z \<in> set zs" for z using \<open>x \<notin> set zs\<close> that by (intro keep) auto
    qed (simp add: S1_def)
    then have "packet S1 (pb_next b) xs" "packet S1 t ts" using b(4) Cons.prems(3) x by simp_all
    then obtain S' where S': "cat_loop p t S = Some S'" "packet S' (pb_next b) (xs @ ts)" "flat S' (xs @ ts) = flat S xs @ flat S ts"
      "\<forall>z. z \<notin> set xs \<longrightarrow> live z S' = live z S1" "\<forall>z. ref_of S' z = ref_of S1 z" "pb_mem S' = pb_mem S" "pb_heap S' = pb_heap S"
      using Cons.IH [of S1 "pb_next b"] Cons' Cons.prems(4,5,6) step unfolding flat1 by (auto simp: S1_def)
    have lx: "live x S' = Some b'" using S'(4) x(1) b(2) by (simp add: S1_def)
    then have dx: "data_of S' x = data_of S x" using b(3) S'(6) by (simp add: data_of_def b'_def)
    have "packet S' p ((x # xs) @ ts)" using lx S'(2,3) b(1) tot dx by (simp add: b'_def)
    moreover have "ref_of S1 z = ref_of S z" for z using b(2,3) by (auto simp: ref_of_def S1_def b'_def)
    ultimately show ?thesis using S' dx keep by auto
  qed
qed simp

text \<open>
  C40. Joining two packets.  When their structures are disjoint and their bytes fit 16 bits
  together, \<open>pbuf_cat\<close> makes one packet whose total lengths are right at every structure and whose
  bytes are the one's followed by the other's; no reference count, no other structure and no data
  changes.
\<close>

theorem pbuf_cat_joins:
  assumes "packet S h hs" "hs \<noteq> []" "packet S t ts" "ts \<noteq> []" "set hs \<inter> set ts = {}" "length (flat S hs) + length (flat S ts) < 65536"
  shows "\<exists>S'. pbuf_cat h t S = Some S' \<and> packet S' h (hs @ ts) \<and> flat S' (hs @ ts) = flat S hs @ flat S ts \<and>
     {x. live x S' \<noteq> live x S} \<subseteq> set hs \<and> ref_of S' = ref_of S \<and> pb_mem S' = pb_mem S \<and> pb_heap S' = pb_heap S"
proof -
  have "h \<noteq> 0" "t \<noteq> 0" using packet_hd [OF assms(1,2)] packet_hd [OF assms(3,4)] by blast+
  then have "pbuf_cat h t S = cat_loop h t S" by (simp add: pbuf_cat_def)
  then show ?thesis using cat_loop_spec [OF assms] by (auto simp: fun_eq_iff)
qed

text \<open>The witnesses: two structures with two and three bytes, chained or not.\<close>

definition pbuf_demo :: "nat \<Rightarrow> u16 \<Rightarrow> u16 \<Rightarrow> unit pstore" where
  "pbuf_demo nxt tot r =
     \<lparr>pb_at = [100 \<mapsto> \<lparr>pb_next = nxt, pb_payload = 1000, pb_tot_len = tot, pb_len = 2, pb_type = PBUF_POOL,
                      pb_flags = 0, pb_ref = 1, pb_eb = 0\<rparr>,
               200 \<mapsto> \<lparr>pb_next = 0, pb_payload = 2000, pb_tot_len = 3, pb_len = 3, pb_type = PBUF_POOL,
                      pb_flags = 0, pb_ref = r, pb_eb = 0\<rparr>],
      pb_mem = (\<lambda>a. of_nat a), pb_heap = ()\<rparr>"

lemma demo_live:
  "live 100 (pbuf_demo nxt tot r) = Some \<lparr>pb_next = nxt, pb_payload = 1000, pb_tot_len = tot, pb_len = 2, pb_type = PBUF_POOL,
     pb_flags = 0, pb_ref = 1, pb_eb = 0\<rparr>"
  "live 200 (pbuf_demo nxt tot r) = Some \<lparr>pb_next = 0, pb_payload = 2000, pb_tot_len = 3, pb_len = 3, pb_type = PBUF_POOL,
     pb_flags = 0, pb_ref = r, pb_eb = 0\<rparr>"
  by (simp_all add: live_def pbuf_demo_def)

lemma demo_data: "length (data_of (pbuf_demo nxt tot r) 100) = 2" "length (data_of (pbuf_demo nxt tot r) 200) = 3"
  by (simp_all add: data_of_live demo_live)

lemma demo_packets: "packet (pbuf_demo 200 5 r) 100 [100, 200]" "packet (pbuf_demo 0 2 r) 100 [100]" "packet (pbuf_demo 0 2 r) 200 [200]"
  by (simp_all add: demo_live demo_data)

lemma demo_apart: "apart (pbuf_demo 200 5 r) [100, 200]"
  by (simp add: extent_def demo_live)

lemma pbuf_take_copy_witness:
  "\<exists>m. pbuf_take 100 [1, 2, 3, 4] 4 (pbuf_demo 200 5 1) = Some (ERR_OK, (pbuf_demo 200 5 1)\<lparr>pb_mem := m\<rparr>) \<and>
     pbuf_copy_partial 100 2 1 ((pbuf_demo 200 5 1)\<lparr>pb_mem := m\<rparr>) = Some [2, 3]"
proof -
  let ?S = "pbuf_demo 200 5 1" and ?d = "[1, 2, 3, 4] :: u8 list"
  have "length ?d = unat (4 :: u16)" "[100, 200] \<noteq> ([] :: nat list)" by simp_all
  note T = pbuf_take_copy [OF demo_packets(1) [of 1] this(2) demo_apart this(1), where n = 2 and offset = 1]
  have le: "unat (4 :: u16) \<le> length (flat ?S [100, 200])" by (simp add: demo_data)
  obtain m where m: "pbuf_take 100 ?d 4 ?S = Some (ERR_OK, ?S\<lparr>pb_mem := m\<rparr>)"
    "pbuf_copy_partial 100 2 1 (?S\<lparr>pb_mem := m\<rparr>) =
       Some (take (unat (2 :: u16)) (drop (unat (1 :: u16)) (?d @ drop (unat (4 :: u16)) (flat ?S [100, 200]))))"
    using T [unfolded if_P [OF le]] by blast
  have "take (unat (2 :: u16)) (drop (unat (1 :: u16)) (?d @ D)) = [2, 3]" for D by simp
  then show ?thesis using m by (simp only:) blast
qed

lemma pbuf_memfind_sound_witness: "\<exists>r. pbuf_memfind 100 [7, 8] 2 0 (pbuf_demo 200 5 1) = Some r"
  using pbuf_memfind_sound [OF demo_packets(1) [of 1], of "[7, 8]" 2 0] by auto

lemma pbuf_free_releases_witness:
  "\<exists>S'. pbuf_free \<lparr>mem_malloc = (\<lambda>n h. (0, h)), mem_free = (\<lambda>p h. h), recycle_rx_pkt = (\<lambda>e h. h)\<rparr> 100 (pbuf_demo 200 5 2) = Some (1, S')"
    (is "\<exists>S'. pbuf_free ?env 100 _ = _")
proof -
  have "dying (pbuf_demo 200 5 2) [100, 200] = [100]" by (simp add: dying_def ref_of_def demo_live)
  then show ?thesis using pbuf_free_releases [OF packet_chain [OF demo_packets(1) [of 2]], of ?env] by auto
qed

lemma pbuf_cat_joins_witness: "\<exists>S'. pbuf_cat 100 200 (pbuf_demo 0 2 1) = Some S' \<and> packet S' 100 [100, 200]"
  using pbuf_cat_joins [OF demo_packets(2) [of 1] _ demo_packets(3) [of 1]] by (auto simp: demo_data)

end
