(* ===== verification/Etharp.thy ===== *)
theory Etharp
  imports IpAddr Pbuf
begin

text \<open>
  The address resolution protocol, tools/sdk/lwip/src/netif/etharp.c, in the configuration of
  lwipopts.h (ten entries, packet queues, no static entries, no VLAN): the table, its timer, the
  choice of the entry to recycle, and the packets that are queued, sent and answered.  The
  table's packets live in the store of theory Pbuf.  The driver's \<open>linkoutput\<close>, the IP layer's
  \<open>ip_input\<close> and DHCP's \<open>dhcp_arp_reply\<close> are arguments; the last two may call back into this
  module, so they act on its whole state.  A queue is the list its links spell.
\<close>

section \<open>Constants and data\<close>

definition ERR_MEM :: int where "ERR_MEM = - 1"
definition ERR_BUF :: int where "ERR_BUF = - 2"
definition ERR_RTE :: int where "ERR_RTE = - 4"

definition ARP_TABLE_SIZE :: nat where "ARP_TABLE_SIZE = 10"
definition ARP_MAXAGE :: u8 where "ARP_MAXAGE = 240"
definition ARP_AGE_REREQUEST_USED :: u8 where "ARP_AGE_REREQUEST_USED = ARP_MAXAGE - 12"
definition ARP_MAXPENDING :: u8 where "ARP_MAXPENDING = 2"

definition ETHARP_FLAG_TRY_HARD :: u8 where "ETHARP_FLAG_TRY_HARD = 1"
definition ETHARP_FLAG_FIND_ONLY :: u8 where "ETHARP_FLAG_FIND_ONLY = 2"
definition NETIF_FLAG_ETHARP :: u8 where "NETIF_FLAG_ETHARP = 0x20"

definition HWTYPE_ETHERNET :: u16 where "HWTYPE_ETHERNET = 1"
definition ETHTYPE_ARP :: u16 where "ETHTYPE_ARP = 0x0806"
definition ETHTYPE_IP :: u16 where "ETHTYPE_IP = 0x0800"
definition ARP_REQUEST :: u16 where "ARP_REQUEST = 1"
definition ARP_REPLY :: u16 where "ARP_REPLY = 2"
definition ETHARP_HWADDR_LEN :: nat where "ETHARP_HWADDR_LEN = 6"
definition SIZEOF_ETH_HDR :: nat where "SIZEOF_ETH_HDR = 14"
definition SIZEOF_ETHARP_PACKET :: nat where "SIZEOF_ETHARP_PACKET = SIZEOF_ETH_HDR + 28"
definition SIZEOF_ETHARP_Q_ENTRY :: nat where "SIZEOF_ETHARP_Q_ENTRY = 8"

text \<open>An Ethernet address is its six bytes.\<close>

definition ethbroadcast :: "u8 list" where "ethbroadcast = [0xff, 0xff, 0xff, 0xff, 0xff, 0xff]"
definition ethzero :: "u8 list" where "ethzero = [0, 0, 0, 0, 0, 0]"

datatype etharp_state =
  ETHARP_STATE_EMPTY | ETHARP_STATE_PENDING | ETHARP_STATE_STABLE | ETHARP_STATE_STABLE_REREQUESTING

text \<open>A queue entry: where it lies in the heap, and its packet.\<close>

record etharp_q_entry =
  aq_at :: nat
  aq_p :: nat

record etharp_entry =
  ae_q :: "etharp_q_entry list"
  ae_ipaddr :: u32
  ae_ethaddr :: "u8 list"
  ae_netif :: nat
  ae_state :: etharp_state
  ae_ctime :: u8

text \<open>The interface, with its own address and the fields this module reads beside the tests'.\<close>

record eth_netif = netif +
  nif_at :: nat
  nif_gw :: u32
  nif_hwaddr :: "u8 list"

record 'h arp_state =
  arp_table :: "etharp_entry list"
  etharp_cached_entry :: nat
  arp_store :: "'h pstore"

record 'h arp_env =
  heap_env :: "'h pbuf_env"
  linkoutput :: "nat \<Rightarrow> 'h pstore \<Rightarrow> int \<times> 'h pstore"
  ip_input :: "nat \<Rightarrow> 'h arp_state \<Rightarrow> 'h arp_state option"
  dhcp_arp_reply :: "u32 \<Rightarrow> 'h arp_state \<Rightarrow> 'h arp_state option"

text \<open>The table at start-up: C's zeros.\<close>

definition etharp_entry_0 :: etharp_entry where
  "etharp_entry_0 = \<lparr>ae_q = [], ae_ipaddr = 0, ae_ethaddr = ethzero, ae_netif = 0,
     ae_state = ETHARP_STATE_EMPTY, ae_ctime = 0\<rparr>"

definition arp_boot :: "'h pstore \<Rightarrow> 'h arp_state" where
  "arp_boot S = \<lparr>arp_table = replicate ARP_TABLE_SIZE etharp_entry_0, etharp_cached_entry = 0, arp_store = S\<rparr>"

definition is_stable :: "etharp_entry \<Rightarrow> bool" where
  "is_stable e \<longleftrightarrow> ae_state e = ETHARP_STATE_STABLE \<or> ae_state e = ETHARP_STATE_STABLE_REREQUESTING"

definition upd_entry :: "nat \<Rightarrow> (etharp_entry \<Rightarrow> etharp_entry) \<Rightarrow> 'h arp_state \<Rightarrow> 'h arp_state" where
  "upd_entry i f A = A\<lparr>arp_table := (arp_table A)[i := f (arp_table A ! i)]\<rparr>"

definition on_store :: "('h pstore \<Rightarrow> ('a \<times> 'h pstore) option) \<Rightarrow> 'h arp_state \<Rightarrow> ('a \<times> 'h arp_state) option" where
  "on_store f A = map_option (\<lambda>(r, S). (r, A\<lparr>arp_store := S\<rparr>)) (f (arp_store A))"

section \<open>Address classes\<close>

definition PP_HTONS :: "u16 \<Rightarrow> u16" where
  "PP_HTONS x = push_bit 8 (x AND 0xff) OR drop_bit 8 (x AND 0xff00)"

definition PP_HTONL :: "u32 \<Rightarrow> u32" where
  "PP_HTONL x = push_bit 24 (x AND 0xff) OR push_bit 8 (x AND 0xff00) OR
     drop_bit 8 (x AND 0xff0000) OR drop_bit 24 (x AND 0xff000000)"

definition ip_addr_isany :: "u32 \<Rightarrow> bool" where "ip_addr_isany a \<longleftrightarrow> a = IPADDR_ANY"

definition ip_addr_ismulticast :: "u32 \<Rightarrow> bool" where
  "ip_addr_ismulticast a \<longleftrightarrow> a AND PP_HTONL 0xf0000000 = PP_HTONL 0xe0000000"

definition ip_addr_islinklocal :: "u32 \<Rightarrow> bool" where
  "ip_addr_islinklocal a \<longleftrightarrow> a AND PP_HTONL 0xffff0000 = PP_HTONL 0xa9fe0000"

definition ip4_addr_byte :: "nat \<Rightarrow> u32 \<Rightarrow> u8" where
  "ip4_addr_byte n a = ucast (drop_bit (8 * n) a)"

section \<open>Entries and their age\<close>

fun free_etharp_q :: "'h arp_env \<Rightarrow> etharp_q_entry list \<Rightarrow> 'h pstore \<Rightarrow> 'h pstore option" where
  "free_etharp_q env [] S = Some S"
| "free_etharp_q env (r # q) S =
     do { (n, S) \<leftarrow> pbuf_free (heap_env env) (aq_p r) S;
          free_etharp_q env q (S\<lparr>pb_heap := mem_free (heap_env env) (aq_at r) (pb_heap S)\<rparr>) }"

definition free_entry :: "'h arp_env \<Rightarrow> nat \<Rightarrow> 'h arp_state \<Rightarrow> 'h arp_state option" where
  "free_entry env i A =
     do { S \<leftarrow> free_etharp_q env (ae_q (arp_table A ! i)) (arp_store A);
          Some (upd_entry i (\<lambda>e. e\<lparr>ae_q := [], ae_state := ETHARP_STATE_EMPTY\<rparr>) (A\<lparr>arp_store := S\<rparr>)) }"

fun for_each :: "(nat \<Rightarrow> 's \<Rightarrow> 's option) \<Rightarrow> nat list \<Rightarrow> 's \<Rightarrow> 's option" where
  "for_each f [] s = Some s"
| "for_each f (i # is) s = do { s \<leftarrow> f i s; for_each f is s }"

definition tmr_entry :: "'h arp_env \<Rightarrow> nat \<Rightarrow> 'h arp_state \<Rightarrow> 'h arp_state option" where
  "tmr_entry env i A =
     (if ae_state (arp_table A ! i) = ETHARP_STATE_EMPTY then Some A
      else let A = upd_entry i (\<lambda>e. e\<lparr>ae_ctime := ae_ctime e + 1\<rparr>) A; e = arp_table A ! i
           in if ae_ctime e \<ge> ARP_MAXAGE \<or> ae_state e = ETHARP_STATE_PENDING \<and> ae_ctime e \<ge> ARP_MAXPENDING
              then free_entry env i A
              else if ae_state e = ETHARP_STATE_STABLE_REREQUESTING
              then Some (upd_entry i (\<lambda>e. e\<lparr>ae_state := ETHARP_STATE_STABLE\<rparr>) A)
              else Some A)"

definition etharp_tmr :: "'h arp_env \<Rightarrow> 'h arp_state \<Rightarrow> 'h arp_state option" where
  "etharp_tmr env A = for_each (tmr_entry env) [0..<ARP_TABLE_SIZE] A"

definition etharp_cleanup_netif :: "'h arp_env \<Rightarrow> nat \<Rightarrow> 'h arp_state \<Rightarrow> 'h arp_state option" where
  "etharp_cleanup_netif env nif =
     for_each (\<lambda>i A. if ae_state (arp_table A ! i) \<noteq> ETHARP_STATE_EMPTY \<and> ae_netif (arp_table A ! i) = nif
                     then free_entry env i A else Some A) [0..<ARP_TABLE_SIZE]"

section \<open>Finding an entry\<close>

text \<open>The candidates for recycling; an index of \<open>ARP_TABLE_SIZE\<close> is none.\<close>

record candidates =
  c_empty :: nat
  c_old_pending :: nat
  c_age_pending :: u8
  c_old_queue :: nat
  c_age_queue :: u8
  c_old_stable :: nat
  c_age_stable :: u8

definition no_candidates :: candidates where
  "no_candidates = \<lparr>c_empty = ARP_TABLE_SIZE, c_old_pending = ARP_TABLE_SIZE, c_age_pending = 0,
     c_old_queue = ARP_TABLE_SIZE, c_age_queue = 0, c_old_stable = ARP_TABLE_SIZE, c_age_stable = 0\<rparr>"

definition note_entry :: "nat \<Rightarrow> etharp_entry \<Rightarrow> candidates \<Rightarrow> candidates" where
  "note_entry i e c =
     (if ae_state e = ETHARP_STATE_PENDING then
        (if ae_q e \<noteq> [] then
           (if ae_ctime e \<ge> c_age_queue c then c\<lparr>c_old_queue := i, c_age_queue := ae_ctime e\<rparr> else c)
         else (if ae_ctime e \<ge> c_age_pending c then c\<lparr>c_old_pending := i, c_age_pending := ae_ctime e\<rparr> else c))
      else (if ae_ctime e \<ge> c_age_stable c then c\<lparr>c_old_stable := i, c_age_stable := ae_ctime e\<rparr> else c))"

text \<open>The sweep from entry \<open>i\<close> on: the matching index, or the candidates.\<close>

fun sweep :: "u32 option \<Rightarrow> nat \<Rightarrow> etharp_entry list \<Rightarrow> candidates \<Rightarrow> nat + candidates" where
  "sweep ipaddr i [] c = Inr c"
| "sweep ipaddr i (e # es) c =
     (if c_empty c = ARP_TABLE_SIZE \<and> ae_state e = ETHARP_STATE_EMPTY then sweep ipaddr (Suc i) es (c\<lparr>c_empty := i\<rparr>)
      else if ae_state e \<noteq> ETHARP_STATE_EMPTY then
        (if ipaddr = Some (ae_ipaddr e) then Inl i else sweep ipaddr (Suc i) es (note_entry i e c))
      else sweep ipaddr (Suc i) es c)"

text \<open>The entry to recycle when none is empty, and whether there is one.\<close>

definition least_destructive :: "candidates \<Rightarrow> nat option" where
  "least_destructive c =
     (if c_old_stable c < ARP_TABLE_SIZE then Some (c_old_stable c)
      else if c_old_pending c < ARP_TABLE_SIZE then Some (c_old_pending c)
      else if c_old_queue c < ARP_TABLE_SIZE then Some (c_old_queue c)
      else None)"

definition find_entry :: "'h arp_env \<Rightarrow> u32 option \<Rightarrow> u8 \<Rightarrow> 'h arp_state \<Rightarrow> (int \<times> 'h arp_state) option" where
  "find_entry env ipaddr flags A =
     (case sweep ipaddr 0 (arp_table A) no_candidates of
        Inl i \<Rightarrow> Some (int i, A)
      | Inr c \<Rightarrow>
          if flags AND ETHARP_FLAG_FIND_ONLY \<noteq> 0 \<or> c_empty c = ARP_TABLE_SIZE \<and> flags AND ETHARP_FLAG_TRY_HARD = 0
          then Some (ERR_MEM, A)
          else
            let create = (\<lambda>i. upd_entry i (\<lambda>e. e\<lparr>ae_ipaddr := (case ipaddr of None \<Rightarrow> ae_ipaddr e | Some a \<Rightarrow> a), ae_ctime := 0\<rparr>))
            in if c_empty c < ARP_TABLE_SIZE then Some (int (c_empty c), create (c_empty c) A)
               else case least_destructive c of
                 None \<Rightarrow> Some (ERR_MEM, A)
               | Some i \<Rightarrow> do { A \<leftarrow> free_entry env i A; Some (int i, create i A) })"

definition etharp_find_addr ::
  "'h arp_env \<Rightarrow> u32 \<Rightarrow> 'h arp_state \<Rightarrow> (int \<times> (u8 list \<times> u32) option \<times> 'h arp_state) option" where
  "etharp_find_addr env ipaddr A =
     do { (i, A) \<leftarrow> find_entry env (Some ipaddr) ETHARP_FLAG_FIND_ONLY A;
          let e = arp_table A ! nat i;
          (if i \<ge> 0 \<and> is_stable e then Some (i, Some (ae_ethaddr e, ae_ipaddr e), A) else Some (- 1, None, A)) }"

section \<open>Sending\<close>

definition etharp_send_ip ::
  "'h arp_env \<Rightarrow> nat \<Rightarrow> u8 list \<Rightarrow> u8 list \<Rightarrow> 'h pstore \<Rightarrow> (int \<times> 'h pstore) option" where
  "etharp_send_ip env p src dst S =
     do { b \<leftarrow> live p S;
          let ethhdr = pb_payload b;
          let m = put_bytes (pb_mem S) ethhdr dst;
          let m = put_bytes m (ethhdr + 6) src;
          let m = store16 m (ethhdr + 12) (PP_HTONS ETHTYPE_IP);
          Some (linkoutput env p (S\<lparr>pb_mem := m\<rparr>)) }"

text \<open>The request or reply, built in a new packet.\<close>

definition etharp_raw ::
  "'h arp_env \<Rightarrow> u8 list \<Rightarrow> u8 list \<Rightarrow> u8 list \<Rightarrow> u32 \<Rightarrow> u8 list \<Rightarrow> u32 \<Rightarrow> u16 \<Rightarrow> 'h pstore \<Rightarrow> (int \<times> 'h pstore) option" where
  "etharp_raw env ethsrc ethdst hwsrc ipsrc hwdst ipdst opcode S =
     do { (p, S) \<leftarrow> pbuf_alloc (heap_env env) PBUF_RAW (of_nat SIZEOF_ETHARP_PACKET) PBUF_RAM S;
          (if p = 0 then Some (ERR_MEM, S)
           else do {
             b \<leftarrow> live p S;
             let ethhdr = pb_payload b;
             let hdr = ethhdr + SIZEOF_ETH_HDR;
             let m = store16 (pb_mem S) (hdr + 6) (lwip_htons opcode);
             let m = put_bytes m (hdr + 8) hwsrc;
             let m = put_bytes m (hdr + 18) hwdst;
             let m = put_bytes m ethhdr ethdst;
             let m = put_bytes m (ethhdr + 6) ethsrc;
             let m = store32 m (hdr + 14) ipsrc;
             let m = store32 m (hdr + 24) ipdst;
             let m = store16 m hdr (PP_HTONS HWTYPE_ETHERNET);
             let m = store16 m (hdr + 2) (PP_HTONS ETHTYPE_IP);
             let m = m(hdr + 4 := of_nat ETHARP_HWADDR_LEN);
             let m = m(hdr + 5 := 4);
             let m = store16 m (ethhdr + 12) (PP_HTONS ETHTYPE_ARP);
             let (result, S) = linkoutput env p (S\<lparr>pb_mem := m\<rparr>);
             (n, S) \<leftarrow> pbuf_free (heap_env env) p S;
             Some (result, S) }) }"

definition etharp_request :: "'h arp_env \<Rightarrow> eth_netif \<Rightarrow> u32 \<Rightarrow> 'h pstore \<Rightarrow> (int \<times> 'h pstore) option" where
  "etharp_request env nif ipaddr =
     etharp_raw env (nif_hwaddr nif) ethbroadcast (nif_hwaddr nif) (nif_ip_addr nif) ethzero ipaddr ARP_REQUEST"

section \<open>Learning an address\<close>

text \<open>The queue goes out first in, first out; each queue entry is freed before its packet is sent.\<close>

fun send_queue :: "'h arp_env \<Rightarrow> eth_netif \<Rightarrow> nat \<Rightarrow> u8 list \<Rightarrow> etharp_q_entry list \<Rightarrow> 'h arp_state \<Rightarrow> 'h arp_state option" where
  "send_queue env nif i ethaddr [] A = Some A"
| "send_queue env nif i ethaddr (q # qs) A =
     do { let A = upd_entry i (\<lambda>e. e\<lparr>ae_q := qs\<rparr>) A;
          let S = arp_store A;
          let S = S\<lparr>pb_heap := mem_free (heap_env env) (aq_at q) (pb_heap S)\<rparr>;
          (err, S) \<leftarrow> etharp_send_ip env (aq_p q) (nif_hwaddr nif) ethaddr S;
          (n, S) \<leftarrow> pbuf_free (heap_env env) (aq_p q) S;
          send_queue env nif i ethaddr qs (A\<lparr>arp_store := S\<rparr>) }"

definition update_arp_entry ::
  "'h arp_env \<Rightarrow> eth_netif \<Rightarrow> u32 \<Rightarrow> u8 list \<Rightarrow> u8 \<Rightarrow> 'h arp_state \<Rightarrow> (int \<times> 'h arp_state) option" where
  "update_arp_entry env nif ipaddr ethaddr flags A =
     (if ip_addr_isany ipaddr \<or> ip4_addr_isbroadcast ipaddr nif \<or> ip_addr_ismulticast ipaddr then Some (ERR_ARG, A)
      else do {
        (i, A) \<leftarrow> find_entry env (Some ipaddr) flags A;
        (if i < 0 then Some (i, A)
         else do {
           let i = nat i;
           let A = upd_entry i (\<lambda>e. e\<lparr>ae_state := ETHARP_STATE_STABLE, ae_ethaddr := ethaddr, ae_ctime := 0\<rparr>) A;
           A \<leftarrow> send_queue env nif i ethaddr (ae_q (arp_table A ! i)) A;
           Some (ERR_OK, A) }) })"

section \<open>Received packets\<close>

definition etharp_ip_input :: "'h arp_env \<Rightarrow> eth_netif \<Rightarrow> nat \<Rightarrow> 'h arp_state \<Rightarrow> 'h arp_state option" where
  "etharp_ip_input env nif p A =
     do { b \<leftarrow> live p (arp_store A);
          let m = pb_mem (arp_store A);
          let ethhdr = pb_payload b;
          let iphdr_src = load32 m (ethhdr + SIZEOF_ETH_HDR + 12);
          (if \<not> ip_addr_netcmp iphdr_src (nif_ip_addr nif) (nif_netmask nif) then Some A
           else map_option snd
             (update_arp_entry env nif iphdr_src (mem_bytes m (ethhdr + 6) ETHARP_HWADDR_LEN) ETHARP_FLAG_FIND_ONLY A)) }"

definition drop_packet :: "'h arp_env \<Rightarrow> nat \<Rightarrow> 'h arp_state \<Rightarrow> 'h arp_state option" where
  "drop_packet env p A = map_option snd (on_store (pbuf_free (heap_env env) p) A)"

text \<open>A request for us is turned into the reply in place, and a copy of it is sent.\<close>

definition arp_reply_in_place :: "eth_netif \<Rightarrow> nat \<Rightarrow> memory \<Rightarrow> memory" where
  "arp_reply_in_place nif ethhdr m =
     (let hdr = ethhdr + SIZEOF_ETH_HDR;
          m = store16 m (hdr + 6) (lwip_htons ARP_REPLY);
          m = memmove m (hdr + 24) (hdr + 14) 4;
          m = store32 m (hdr + 14) (nif_ip_addr nif);
          m = memmove m (hdr + 18) (hdr + 8) ETHARP_HWADDR_LEN;
          m = memmove m ethhdr (hdr + 8) ETHARP_HWADDR_LEN;
          m = put_bytes m (hdr + 8) (nif_hwaddr nif)
      in put_bytes m (ethhdr + 6) (nif_hwaddr nif))"

definition send_arp_reply :: "'h arp_env \<Rightarrow> eth_netif \<Rightarrow> nat \<Rightarrow> 'h pstore \<Rightarrow> (unit \<times> 'h pstore) option" where
  "send_arp_reply env nif p S =
     do { b \<leftarrow> live p S;
          let S = S\<lparr>pb_mem := arp_reply_in_place nif (pb_payload b) (pb_mem S)\<rparr>;
          (q, S) \<leftarrow> pbuf_alloc (heap_env env) PBUF_RAW (pb_tot_len b) PBUF_RAM S;
          S \<leftarrow> (if q \<noteq> 0 then map_option snd (pbuf_copy q p S) else Some S);
          let (err, S) = linkoutput env q S;
          (n, S) \<leftarrow> pbuf_free (heap_env env) q S;
          Some ((), S) }"

definition etharp_arp_input :: "'h arp_env \<Rightarrow> eth_netif \<Rightarrow> nat \<Rightarrow> 'h arp_state \<Rightarrow> 'h arp_state option" where
  "etharp_arp_input env nif p A =
     do { b \<leftarrow> live p (arp_store A);
          (if pb_len b < of_nat SIZEOF_ETHARP_PACKET then drop_packet env p A
           else
             let m = pb_mem (arp_store A); ethhdr = pb_payload b; hdr = ethhdr + SIZEOF_ETH_HDR
             in if load16 m hdr \<noteq> PP_HTONS HWTYPE_ETHERNET \<or> m (hdr + 4) \<noteq> of_nat ETHARP_HWADDR_LEN \<or> m (hdr + 5) \<noteq> 4 \<or>
                   load16 m (hdr + 2) \<noteq> PP_HTONS ETHTYPE_IP \<or> load16 m (ethhdr + 12) \<noteq> PP_HTONS ETHTYPE_ARP
                then drop_packet env p A
                else do {
                  let sipaddr = load32 m (hdr + 14);
                  let dipaddr = load32 m (hdr + 24);
                  let for_us = (if ip_addr_isany (nif_ip_addr nif) then False else dipaddr = nif_ip_addr nif);
                  (err, A) \<leftarrow> update_arp_entry env nif sipaddr (mem_bytes m (hdr + 8) ETHARP_HWADDR_LEN)
                    (if for_us then ETHARP_FLAG_TRY_HARD else ETHARP_FLAG_FIND_ONLY) A;
                  let opcode = load16 (pb_mem (arp_store A)) (hdr + 6);
                  A \<leftarrow> (if opcode = PP_HTONS ARP_REQUEST
                        then if for_us then map_option snd (on_store (send_arp_reply env nif p) A) else Some A
                        else if opcode = PP_HTONS ARP_REPLY then dhcp_arp_reply env sipaddr A
                        else Some A);
                  drop_packet env p A }) }"

definition ethernet_input :: "'h arp_env \<Rightarrow> eth_netif \<Rightarrow> nat \<Rightarrow> 'h arp_state \<Rightarrow> 'h arp_state option" where
  "ethernet_input env nif p A =
     do { b \<leftarrow> live p (arp_store A);
          (if pb_len b \<le> of_nat SIZEOF_ETH_HDR then drop_packet env p A
           else
             let type = load16 (pb_mem (arp_store A)) (pb_payload b + 12)
             in if type = PP_HTONS ETHTYPE_IP then
                  (if nif_flags nif AND NETIF_FLAG_ETHARP = 0 then drop_packet env p A
                   else do {
                     A \<leftarrow> etharp_ip_input env nif p A;
                     (failed, A) \<leftarrow> on_store (pbuf_header p (- of_nat SIZEOF_ETH_HDR)) A;
                     (if failed \<noteq> 0 then drop_packet env p A else ip_input env p A) })
                else if type = PP_HTONS ETHTYPE_ARP then
                  (if nif_flags nif AND NETIF_FLAG_ETHARP = 0 then drop_packet env p A
                   else etharp_arp_input env nif p A)
                else drop_packet env p A) }"

section \<open>Packets to send\<close>

definition etharp_output_to_arp_index ::
  "'h arp_env \<Rightarrow> eth_netif \<Rightarrow> nat \<Rightarrow> nat \<Rightarrow> 'h arp_state \<Rightarrow> (int \<times> 'h arp_state) option" where
  "etharp_output_to_arp_index env nif q arp_idx A =
     do { let e = arp_table A ! arp_idx;
          A \<leftarrow> (if ae_state e = ETHARP_STATE_STABLE \<and> ae_ctime e \<ge> ARP_AGE_REREQUEST_USED
                then do {
                  (err, A) \<leftarrow> on_store (etharp_request env nif (ae_ipaddr e)) A;
                  Some (if err = ERR_OK
                        then upd_entry arp_idx (\<lambda>e. e\<lparr>ae_state := ETHARP_STATE_STABLE_REREQUESTING\<rparr>) A
                        else A) }
                else Some A);
          on_store (etharp_send_ip env q (nif_hwaddr nif) (ae_ethaddr (arp_table A ! arp_idx))) A }"

text \<open>Where the search for a structure outside ROM stops; null when the packet need not be copied.\<close>

partial_function (option) copy_needed :: "nat \<Rightarrow> 'h pstore \<Rightarrow> nat option" where
  "copy_needed p S =
     (if p = 0 then Some 0
      else case live p S of None \<Rightarrow> None
        | Some b \<Rightarrow> if pb_type b \<noteq> PBUF_ROM then Some p else copy_needed (pb_next b) S)"

text \<open>
  The packet to queue, null when it cannot be had.  The copy has the length that is left at the
  structure where the search stopped.
\<close>

definition take_over :: "'h arp_env \<Rightarrow> nat \<Rightarrow> 'h pstore \<Rightarrow> (nat \<times> 'h pstore) option" where
  "take_over env q S =
     do { p \<leftarrow> copy_needed q S;
          (if p \<noteq> 0 then do {
             b \<leftarrow> live p S;
             (p, S) \<leftarrow> pbuf_alloc (heap_env env) PBUF_RAW (pb_tot_len b) PBUF_RAM S;
             (if p \<noteq> 0 then do {
                (err, S) \<leftarrow> pbuf_copy p q S;
                (if err \<noteq> ERR_OK then do { (n, S) \<leftarrow> pbuf_free (heap_env env) p S; Some (0, S) } else Some (p, S)) }
              else Some (p, S)) }
           else do { S \<leftarrow> pbuf_ref q S; Some (q, S) }) }"

text \<open>Appending a packet to entry \<open>i\<close>: a queue that had three entries loses its first one.\<close>

definition enqueue :: "'h arp_env \<Rightarrow> nat \<Rightarrow> nat \<Rightarrow> 'h arp_state \<Rightarrow> (int \<times> 'h arp_state) option" where
  "enqueue env i p A =
     do { let (new_entry, S) = take_memory (heap_env env) SIZEOF_ETHARP_Q_ENTRY (arp_store A);
          (if new_entry \<noteq> 0 then do {
             let qlen = length (ae_q (arp_table A ! i));
             let A = upd_entry i (\<lambda>e. e\<lparr>ae_q := ae_q e @ [\<lparr>aq_at = new_entry, aq_p = p\<rparr>]\<rparr>) (A\<lparr>arp_store := S\<rparr>);
             (if qlen \<ge> 3 then do {
                let old = hd (ae_q (arp_table A ! i));
                let A = upd_entry i (\<lambda>e. e\<lparr>ae_q := tl (ae_q e)\<rparr>) A;
                (n, S) \<leftarrow> pbuf_free (heap_env env) (aq_p old) (arp_store A);
                Some (ERR_OK, A\<lparr>arp_store := S\<lparr>pb_heap := mem_free (heap_env env) (aq_at old) (pb_heap S)\<rparr>\<rparr>) }
              else Some (ERR_OK, A)) }
           else do { (n, S) \<leftarrow> pbuf_free (heap_env env) p S; Some (ERR_MEM, A\<lparr>arp_store := S\<rparr>) }) }"

definition etharp_query :: "'h arp_env \<Rightarrow> eth_netif \<Rightarrow> u32 \<Rightarrow> nat \<Rightarrow> 'h arp_state \<Rightarrow> (int \<times> 'h arp_state) option" where
  "etharp_query env nif ipaddr q A =
     (if ip4_addr_isbroadcast ipaddr nif \<or> ip_addr_ismulticast ipaddr \<or> ip_addr_isany ipaddr then Some (ERR_ARG, A)
      else do {
        (i, A) \<leftarrow> find_entry env (Some ipaddr) ETHARP_FLAG_TRY_HARD A;
        (if i < 0 then Some (i, A)
         else do {
           let i = nat i;
           let A = (if ae_state (arp_table A ! i) = ETHARP_STATE_EMPTY
                    then upd_entry i (\<lambda>e. e\<lparr>ae_state := ETHARP_STATE_PENDING\<rparr>) A else A);
           (result, A) \<leftarrow> (if ae_state (arp_table A ! i) = ETHARP_STATE_PENDING \<or> q = 0
                           then on_store (etharp_request env nif ipaddr) A else Some (ERR_MEM, A));
           (if q = 0 then Some (result, A)
            else if is_stable (arp_table A ! i) then
              on_store (etharp_send_ip env q (nif_hwaddr nif) (ae_ethaddr (arp_table A ! i))) (A\<lparr>etharp_cached_entry := i\<rparr>)
            else if ae_state (arp_table A ! i) = ETHARP_STATE_PENDING then do {
              (p, A) \<leftarrow> on_store (take_over env q) A;
              (if p \<noteq> 0 then enqueue env i p A else Some (ERR_MEM, A)) }
            else Some (result, A)) }) })"

text \<open>The first stable entry for an address, from entry \<open>i\<close> on.\<close>

fun find_stable :: "u32 \<Rightarrow> nat \<Rightarrow> etharp_entry list \<Rightarrow> nat option" where
  "find_stable ipaddr i [] = None"
| "find_stable ipaddr i (e # es) =
     (if is_stable e \<and> ipaddr = ae_ipaddr e then Some i else find_stable ipaddr (Suc i) es)"

definition etharp_output :: "'h arp_env \<Rightarrow> eth_netif \<Rightarrow> nat \<Rightarrow> u32 \<Rightarrow> 'h arp_state \<Rightarrow> (int \<times> 'h arp_state) option" where
  "etharp_output env nif q ipaddr A =
     do { (failed, A) \<leftarrow> on_store (pbuf_header q (of_nat SIZEOF_ETH_HDR)) A;
          (if failed \<noteq> 0 then Some (ERR_BUF, A)
           else if ip4_addr_isbroadcast ipaddr nif then on_store (etharp_send_ip env q (nif_hwaddr nif) ethbroadcast) A
           else if ip_addr_ismulticast ipaddr then
             on_store (etharp_send_ip env q (nif_hwaddr nif)
               [0x01, 0x00, 0x5e, ip4_addr_byte 1 ipaddr AND 0x7f, ip4_addr_byte 2 ipaddr, ip4_addr_byte 3 ipaddr]) A
           else
             let off_link = \<not> ip_addr_netcmp ipaddr (nif_ip_addr nif) (nif_netmask nif) \<and> \<not> ip_addr_islinklocal ipaddr
             in if off_link \<and> ip_addr_isany (nif_gw nif) then Some (ERR_RTE, A)
                else
                  let ipaddr = (if off_link then nif_gw nif else ipaddr);
                      cached = arp_table A ! etharp_cached_entry A
                  in if is_stable cached \<and> ipaddr = ae_ipaddr cached
                     then etharp_output_to_arp_index env nif q (etharp_cached_entry A) A
                     else case find_stable ipaddr 0 (arp_table A) of
                       Some i \<Rightarrow> etharp_output_to_arp_index env nif q i (A\<lparr>etharp_cached_entry := i\<rparr>)
                     | None \<Rightarrow> etharp_query env nif ipaddr q A) }"

end
