(* ===== verification/EtharpTable.thy ===== *)
theory EtharpTable
  imports Etharp
begin

text \<open>
  The ARP table as a cache: its well-formedness, what a sweep of it finds, and the abstract
  cache, a map from addresses to lines, that the entries represent.
\<close>

section \<open>Well-formed tables\<close>

definition in_use :: "etharp_entry \<Rightarrow> bool" where
  "in_use e \<longleftrightarrow> ae_state e \<noteq> ETHARP_STATE_EMPTY"

definition unicast :: "'n netif_scheme \<Rightarrow> u32 \<Rightarrow> bool" where
  "unicast nif a \<longleftrightarrow> \<not> ip_addr_isany a \<and> \<not> ip4_addr_isbroadcast a nif \<and> \<not> ip_addr_ismulticast a"

text \<open>Only a pending entry has packets, three at most; an entry is younger than its expiry.\<close>

definition entry_wf :: "'n netif_scheme \<Rightarrow> etharp_entry \<Rightarrow> bool" where
  "entry_wf nif e \<longleftrightarrow>
     (case ae_state e of
        ETHARP_STATE_EMPTY \<Rightarrow> ae_q e = []
      | ETHARP_STATE_PENDING \<Rightarrow> unicast nif (ae_ipaddr e) \<and> length (ae_q e) \<le> 3 \<and> ae_ctime e < ARP_MAXPENDING
      | _ \<Rightarrow> unicast nif (ae_ipaddr e) \<and> ae_q e = [] \<and> ae_ctime e < ARP_MAXAGE \<and> length (ae_ethaddr e) = ETHARP_HWADDR_LEN)"

definition one_per_address :: "etharp_entry list \<Rightarrow> bool" where
  "one_per_address t \<longleftrightarrow> distinct (map ae_ipaddr (filter in_use t))"

definition table_wf :: "'n netif_scheme \<Rightarrow> etharp_entry list \<Rightarrow> bool" where
  "table_wf nif t \<longleftrightarrow> length t = ARP_TABLE_SIZE \<and> one_per_address t \<and> (\<forall>e\<in>set t. entry_wf nif e)"

lemma entry_wf_empty [simp]: "ae_state e = ETHARP_STATE_EMPTY \<Longrightarrow> entry_wf nif e \<longleftrightarrow> ae_q e = []"
  by (simp add: entry_wf_def)

lemma entry_wf_pending: "ae_state e = ETHARP_STATE_PENDING \<Longrightarrow>
    entry_wf nif e \<longleftrightarrow> unicast nif (ae_ipaddr e) \<and> length (ae_q e) \<le> 3 \<and> ae_ctime e < ARP_MAXPENDING"
  by (simp add: entry_wf_def)

lemma entry_wf_stable: "is_stable e \<Longrightarrow>
    entry_wf nif e \<longleftrightarrow> unicast nif (ae_ipaddr e) \<and> ae_q e = [] \<and> ae_ctime e < ARP_MAXAGE \<and> length (ae_ethaddr e) = ETHARP_HWADDR_LEN"
  by (auto simp: entry_wf_def is_stable_def)

lemma in_use_cases: "in_use e \<longleftrightarrow> ae_state e = ETHARP_STATE_PENDING \<or> is_stable e"
  by (cases "ae_state e") (auto simp: in_use_def is_stable_def)

lemma entry_wf_unicast: "entry_wf nif e \<Longrightarrow> in_use e \<Longrightarrow> unicast nif (ae_ipaddr e)"
  by (auto simp: in_use_cases entry_wf_pending entry_wf_stable)

lemma one_per_addressI:
  "(\<And>i j. i < length t \<Longrightarrow> j < length t \<Longrightarrow> in_use (t ! i) \<Longrightarrow> in_use (t ! j) \<Longrightarrow> ae_ipaddr (t ! i) = ae_ipaddr (t ! j) \<Longrightarrow> i = j) \<Longrightarrow> one_per_address t"
  unfolding one_per_address_def
proof (induction t)
  case (Cons e t)
  have "i = j" if "i < length t" "j < length t" "in_use (t ! i)" "in_use (t ! j)" "ae_ipaddr (t ! i) = ae_ipaddr (t ! j)" for i j
    using Cons.prems [of "Suc i" "Suc j"] that by simp
  then have "distinct (map ae_ipaddr (filter in_use t))" by (rule Cons.IH)
  moreover have "ae_ipaddr e \<notin> ae_ipaddr ` {x \<in> set t. in_use x}" if "in_use e"
    using Cons.prems [of 0 "Suc j" for j] that by (fastforce simp: in_set_conv_nth)
  ultimately show ?case by simp
qed simp

lemma one_per_addressD:
  "one_per_address t \<Longrightarrow> i < length t \<Longrightarrow> j < length t \<Longrightarrow> in_use (t ! i) \<Longrightarrow> in_use (t ! j) \<Longrightarrow> ae_ipaddr (t ! i) = ae_ipaddr (t ! j) \<Longrightarrow> i = j"
  unfolding one_per_address_def
proof (induction t arbitrary: i j)
  case (Cons e t)
  have *: "\<not> in_use e \<or> ae_ipaddr (t ! k) \<noteq> ae_ipaddr e" if "k < length t" "in_use (t ! k)" for k
    using Cons.prems(1) that by (auto split: if_splits) (metis (mono_tags, lifting) imageI mem_Collect_eq nth_mem)
  show ?case
    using Cons.prems Cons.IH [of "i - 1" "j - 1"] * [of "i - 1"] * [of "j - 1"]
    by (cases i; cases j) (auto split: if_splits)
qed simp

text \<open>Replacing an entry by one that claims no new address, or one no other entry has.\<close>

lemma one_per_address_update:
  assumes "one_per_address t" "i < length t"
    and "in_use e \<Longrightarrow> (in_use (t ! i) \<and> ae_ipaddr (t ! i) = ae_ipaddr e) \<or> (\<forall>x\<in>set t. in_use x \<longrightarrow> ae_ipaddr x \<noteq> ae_ipaddr e)"
  shows "one_per_address (t[i := e])"
proof (rule one_per_addressI)
  fix j k assume jk: "j < length (t[i := e])" "k < length (t[i := e])" "in_use (t[i := e] ! j)" "in_use (t[i := e] ! k)"
    "ae_ipaddr (t[i := e] ! j) = ae_ipaddr (t[i := e] ! k)"
  show "j = k"
  proof (cases "j = i \<or> k = i")
    case False
    then show ?thesis using jk one_per_addressD [OF assms(1), of j k] by simp
  next
    case True
    then have "in_use e" using jk assms(2) by auto
    note d = assms(3) [OF this]
    show ?thesis
      using True jk assms(2) d one_per_addressD [OF assms(1), of i k] one_per_addressD [OF assms(1), of i j]
      by (cases "j = i"; cases "k = i") (auto simp: all_set_conv_all_nth)
  qed
qed

lemma table_wf_update:
  assumes "table_wf nif t" "i < ARP_TABLE_SIZE" "entry_wf nif e"
    and "in_use e \<Longrightarrow> (in_use (t ! i) \<and> ae_ipaddr (t ! i) = ae_ipaddr e) \<or> (\<forall>x\<in>set t. in_use x \<longrightarrow> ae_ipaddr x \<noteq> ae_ipaddr e)"
  shows "table_wf nif (t[i := e])"
  using assms one_per_address_update [of t i e] set_update_subset_insert [of t i e] by (auto simp: table_wf_def)

lemma table_wf_entry: "table_wf nif t \<Longrightarrow> i < ARP_TABLE_SIZE \<Longrightarrow> entry_wf nif (t ! i)"
  by (simp add: table_wf_def)

section \<open>The sweep\<close>

definition oldest :: "(etharp_entry \<Rightarrow> bool) \<Rightarrow> etharp_entry list \<Rightarrow> nat \<Rightarrow> bool" where
  "oldest P t i \<longleftrightarrow> i < length t \<and> P (t ! i) \<and>
     (\<forall>j<length t. P (t ! j) \<longrightarrow> ae_ctime (t ! j) < ae_ctime (t ! i) \<or> ae_ctime (t ! j) = ae_ctime (t ! i) \<and> j \<le> i)"

definition candidate :: "(etharp_entry \<Rightarrow> bool) \<Rightarrow> etharp_entry list \<Rightarrow> nat \<Rightarrow> u8 \<Rightarrow> bool" where
  "candidate P t i age \<longleftrightarrow>
     (if \<exists>e\<in>set t. P e then oldest P t i \<and> age = ae_ctime (t ! i) else i = ARP_TABLE_SIZE \<and> age = 0)"

definition queueless :: "etharp_entry \<Rightarrow> bool" where
  "queueless e \<longleftrightarrow> ae_state e = ETHARP_STATE_PENDING \<and> ae_q e = []"

definition with_queue :: "etharp_entry \<Rightarrow> bool" where
  "with_queue e \<longleftrightarrow> ae_state e = ETHARP_STATE_PENDING \<and> ae_q e \<noteq> []"

definition first_empty :: "etharp_entry list \<Rightarrow> nat \<Rightarrow> bool" where
  "first_empty t i \<longleftrightarrow>
     (if \<exists>e\<in>set t. \<not> in_use e then i < length t \<and> \<not> in_use (t ! i) \<and> (\<forall>j<i. in_use (t ! j)) else i = ARP_TABLE_SIZE)"

definition swept :: "etharp_entry list \<Rightarrow> candidates \<Rightarrow> bool" where
  "swept t c \<longleftrightarrow> first_empty t (c_empty c) \<and> candidate queueless t (c_old_pending c) (c_age_pending c) \<and>
     candidate with_queue t (c_old_queue c) (c_age_queue c) \<and> candidate is_stable t (c_old_stable c) (c_age_stable c)"

lemma candidate_skip: "candidate P t i age \<Longrightarrow> \<not> P e \<Longrightarrow> candidate P (t @ [e]) i age"
  by (auto simp: candidate_def oldest_def nth_append less_Suc_eq split: if_splits)

lemma oldest_snoc_new: "P e \<Longrightarrow> (\<And>x. x \<in> set t \<Longrightarrow> P x \<Longrightarrow> ae_ctime x \<le> ae_ctime e) \<Longrightarrow> oldest P (t @ [e]) (length t)"
  by (auto simp: oldest_def nth_append less_Suc_eq le_less)

lemma oldest_snoc_old: "oldest P t i \<Longrightarrow> ae_ctime e < ae_ctime (t ! i) \<Longrightarrow> oldest P (t @ [e]) i"
  by (auto simp: oldest_def nth_append less_Suc_eq)

lemma oldest_le: "oldest P t i \<Longrightarrow> x \<in> set t \<Longrightarrow> P x \<Longrightarrow> ae_ctime x \<le> ae_ctime (t ! i)"
  by (force simp: oldest_def in_set_conv_nth)

lemma candidate_note:
  assumes "candidate P t i age" "P e"
  shows "candidate P (t @ [e]) (if age \<le> ae_ctime e then length t else i) (if age \<le> ae_ctime e then ae_ctime e else age)"
proof (cases "\<exists>x\<in>set t. P x")
  case True
  then have o: "oldest P t i" "age = ae_ctime (t ! i)" "i < length t" using assms(1) by (auto simp: candidate_def oldest_def)
  show ?thesis
  proof (cases "age \<le> ae_ctime e")
    case new: True
    have "oldest P (t @ [e]) (length t)"
      by (rule oldest_snoc_new [where P = P, OF assms(2)]) (use oldest_le [OF o(1)] new o(2) in \<open>auto intro: order_trans\<close>)
    then show ?thesis using new assms(2) by (simp add: candidate_def)
  next
    case False
    then have "oldest P (t @ [e]) i" using oldest_snoc_old [OF o(1)] o(2) by simp
    then show ?thesis using False assms(2) o(2,3) by (simp add: candidate_def nth_append)
  qed
next
  case False
  then have "age = 0" using assms(1) by (simp add: candidate_def)
  moreover have "oldest P (t @ [e]) (length t)" by (rule oldest_snoc_new [where P = P, OF assms(2)]) (use False in auto)
  ultimately show ?thesis using assms(2) by (simp add: candidate_def)
qed

lemma first_empty_snoc:
  assumes "first_empty t i" "length t < ARP_TABLE_SIZE"
  shows "first_empty (t @ [e]) (if i = ARP_TABLE_SIZE \<and> \<not> in_use e then length t else i)"
proof (cases "\<exists>x\<in>set t. \<not> in_use x")
  case True
  then have "i < length t" "\<not> in_use (t ! i)" "\<forall>j<i. in_use (t ! j)" using assms(1) by (simp_all add: first_empty_def)
  then show ?thesis using True assms(2) by (simp add: first_empty_def nth_append)
next
  case False
  then have "i = ARP_TABLE_SIZE" "\<forall>j<length t. in_use (t ! j)" using assms(1) by (simp_all add: first_empty_def all_set_conv_all_nth)
  then show ?thesis using False by (auto simp: first_empty_def nth_append)
qed

lemma swept_nil: "swept [] no_candidates"
  by (simp add: swept_def no_candidates_def first_empty_def candidate_def)

lemma swept_empty:
  assumes "swept t c" "\<not> in_use e" "length t < ARP_TABLE_SIZE"
  shows "swept (t @ [e]) (if c_empty c = ARP_TABLE_SIZE then c\<lparr>c_empty := length t\<rparr> else c)"
proof -
  have "\<not> queueless e" "\<not> with_queue e" "\<not> is_stable e" using assms(2) by (auto simp: in_use_def queueless_def with_queue_def is_stable_def)
  then show ?thesis using assms first_empty_snoc [of t "c_empty c" e] by (auto simp: swept_def intro: candidate_skip)
qed

lemma swept_note:
  assumes "swept t c" "in_use e" "length t < ARP_TABLE_SIZE"
  shows "swept (t @ [e]) (note_entry (length t) e c)"
proof -
  consider "with_queue e" "\<not> queueless e" "\<not> is_stable e" "ae_state e = ETHARP_STATE_PENDING" "ae_q e \<noteq> []"
    | "queueless e" "\<not> with_queue e" "\<not> is_stable e" "ae_state e = ETHARP_STATE_PENDING" "ae_q e = []"
    | "is_stable e" "\<not> with_queue e" "\<not> queueless e" "ae_state e \<noteq> ETHARP_STATE_PENDING"
    using assms(2) by (auto simp: in_use_cases with_queue_def queueless_def is_stable_def)
  then show ?thesis
    using assms first_empty_snoc [of t "c_empty c" e] candidate_note [of _ t _ _ e]
    by cases (auto simp: swept_def note_entry_def intro: candidate_skip dest: candidate_note)
qed

lemma sweep_spec:
  "swept pre c \<Longrightarrow> length pre + length t \<le> ARP_TABLE_SIZE \<Longrightarrow>
   (case sweep ipaddr (length pre) t c of
      Inl i \<Rightarrow> length pre \<le> i \<and> i < length pre + length t \<and> in_use ((pre @ t) ! i) \<and> ipaddr = Some (ae_ipaddr ((pre @ t) ! i))
    | Inr c' \<Rightarrow> swept (pre @ t) c' \<and> (\<forall>e\<in>set t. in_use e \<longrightarrow> ipaddr \<noteq> Some (ae_ipaddr e)))"
proof (induction t arbitrary: pre c)
  case (Cons e t)
  have le: "length pre < ARP_TABLE_SIZE" using Cons.prems(2) by simp
  have step: "length (pre @ [e]) + length t \<le> ARP_TABLE_SIZE" using Cons.prems(2) by simp
  show ?case
  proof (cases "in_use e")
    case False
    define c1 where "c1 = (if c_empty c = ARP_TABLE_SIZE then c\<lparr>c_empty := length pre\<rparr> else c)"
    have "sweep ipaddr (length pre) (e # t) c = sweep ipaddr (length (pre @ [e])) t c1"
      using False by (simp add: in_use_def c1_def)
    moreover have "swept (pre @ [e]) c1" unfolding c1_def by (rule swept_empty [OF Cons.prems(1) False le])
    ultimately show ?thesis
      using Cons.IH [OF _ step] False by (cases "sweep ipaddr (length (pre @ [e])) t c1") fastforce+
  next
    case True
    show ?thesis
    proof (cases "ipaddr = Some (ae_ipaddr e)")
      case match: True
      then show ?thesis using True by (auto simp: in_use_def)
    next
      case other: False
      then have "sweep ipaddr (length pre) (e # t) c = sweep ipaddr (length (pre @ [e])) t (note_entry (length pre) e c)"
        using True by (simp add: in_use_def)
      then show ?thesis
        using Cons.IH [OF swept_note [OF Cons.prems(1) True le] step] other
        by (cases "sweep ipaddr (length (pre @ [e])) t (note_entry (length pre) e c)") fastforce+
    qed
  qed
qed simp

lemma sweep_table:
  assumes "length t = ARP_TABLE_SIZE"
  obtains (found) i where "sweep ipaddr 0 t no_candidates = Inl i" "i < ARP_TABLE_SIZE" "in_use (t ! i)" "ipaddr = Some (ae_ipaddr (t ! i))"
  | (missing) c where "sweep ipaddr 0 t no_candidates = Inr c" "swept t c" "\<forall>e\<in>set t. in_use e \<longrightarrow> ipaddr \<noteq> Some (ae_ipaddr e)"
  using sweep_spec [OF swept_nil, of t ipaddr] assms by (cases "sweep ipaddr 0 t no_candidates") auto

section \<open>What freeing and a tick do to an entry\<close>

definition emptied :: "etharp_entry \<Rightarrow> etharp_entry" where
  "emptied e = e\<lparr>ae_q := [], ae_state := ETHARP_STATE_EMPTY\<rparr>"

lemma emptied_simps [simp]: "ae_q (emptied e) = []" "ae_state (emptied e) = ETHARP_STATE_EMPTY" "\<not> in_use (emptied e)"
  "entry_wf nif (emptied e)" "\<not> is_stable (emptied e)"
  by (simp_all add: emptied_def in_use_def is_stable_def)

lemma table_wf_emptied: "table_wf nif t \<Longrightarrow> i < ARP_TABLE_SIZE \<Longrightarrow> table_wf nif (t[i := emptied (t ! i)])"
  by (rule table_wf_update) simp_all

text \<open>What a tick does to an entry.\<close>

definition aged :: "etharp_entry \<Rightarrow> etharp_entry" where
  "aged e =
     (if \<not> in_use e then e
      else let e = e\<lparr>ae_ctime := ae_ctime e + 1\<rparr>
           in if ae_ctime e \<ge> ARP_MAXAGE \<or> ae_state e = ETHARP_STATE_PENDING \<and> ae_ctime e \<ge> ARP_MAXPENDING then emptied e
              else if ae_state e = ETHARP_STATE_STABLE_REREQUESTING then e\<lparr>ae_state := ETHARP_STATE_STABLE\<rparr> else e)"

lemma table_wf_aged:
  assumes "table_wf nif t" "i < ARP_TABLE_SIZE"
  shows "table_wf nif (t[i := aged (t ! i)])"
proof (rule table_wf_update [OF assms])
  have w: "entry_wf nif (t ! i)" using assms by (rule table_wf_entry)
  show "entry_wf nif (aged (t ! i))"
  proof (cases "in_use (t ! i)")
    case True
    then show ?thesis using w
      by (auto simp: in_use_cases aged_def Let_def entry_wf_pending entry_wf_stable is_stable_def not_le)
  qed (use w in \<open>simp add: aged_def\<close>)
  show "in_use (t ! i) \<and> ae_ipaddr (t ! i) = ae_ipaddr (aged (t ! i)) \<or> (\<forall>x\<in>set t. in_use x \<longrightarrow> ae_ipaddr x \<noteq> ae_ipaddr (aged (t ! i)))"
    if "in_use (aged (t ! i))"
    using that by (auto simp: aged_def Let_def split: if_splits)
qed

lemma aged_queue: "aged e = emptied (e\<lparr>ae_ctime := ae_ctime e + 1\<rparr>) \<or> ae_q (aged e) = ae_q e"
  by (auto simp: aged_def Let_def)

end
