(* ===== verification/LwipHeap.thy ===== *)
theory LwipHeap
  imports Pbuf UmmInfo
begin

text \<open>
  The heap lwIP's packet buffers live in.  The SDK's heap functions of cores/esp8266/heap.c are
  forwards to umm_malloc, and lwIP's \<open>mem_malloc\<close> and \<open>mem_free\<close> (mem.h) are forwards to those.
  The locale \<open>lwip_heap\<close> is what the packet code needs of its heap, proved of umm_malloc in the
  interpretation; its lemmas say that the packet operations keep the store consistent with it.
  The store's bytes stand apart from the heap's block headers, as the blocks' data does.
\<close>

section \<open>heap.c\<close>

definition malloc_r :: "umm_state \<Rightarrow> u32 \<Rightarrow> umm_outcome" where
  "malloc_r s wanted = umm_malloc s wanted"

definition free_r :: "umm_state \<Rightarrow> vptr \<Rightarrow> umm_state" where
  "free_r s ptr = umm_free s ptr"

definition realloc_r :: "umm_state \<Rightarrow> vptr \<Rightarrow> u32 \<Rightarrow> umm_outcome" where
  "realloc_r s ptr wanted = umm_realloc s ptr wanted"

definition calloc_r :: "umm_state \<Rightarrow> u32 \<Rightarrow> u32 \<Rightarrow> umm_outcome" where
  "calloc_r s count wanted = umm_calloc s count wanted"

definition pvPortMalloc :: "umm_state \<Rightarrow> u32 \<Rightarrow> umm_outcome" where
  "pvPortMalloc s wanted = umm_malloc s wanted"

definition vPortFree :: "umm_state \<Rightarrow> vptr \<Rightarrow> umm_state" where
  "vPortFree s ptr = umm_free s ptr"

definition pvPortCalloc :: "umm_state \<Rightarrow> u32 \<Rightarrow> u32 \<Rightarrow> umm_outcome" where
  "pvPortCalloc s count wanted = umm_calloc s count wanted"

definition pvPortRealloc :: "umm_state \<Rightarrow> vptr \<Rightarrow> u32 \<Rightarrow> umm_outcome" where
  "pvPortRealloc s ptr wanted = umm_realloc s ptr wanted"

definition pvPortZalloc :: "umm_state \<Rightarrow> u32 \<Rightarrow> umm_outcome" where
  "pvPortZalloc s wanted = umm_calloc s 1 wanted"

definition xPortGetFreeHeapSize :: "umm_state \<Rightarrow> (umm_state \<times> u32) option" where
  "xPortGetFreeHeapSize s = umm_free_heap_size s"

definition xPortWantedSizeAlign :: "u32 \<Rightarrow> u32" where
  "xPortWantedSizeAlign wanted = (wanted + 3) AND NOT 3"

definition system_show_malloc :: "umm_state \<Rightarrow> umm_state option" where
  "system_show_malloc s = map_option fst (umm_info s NULL)"

text \<open>
  mem.h: an address is the heap's start \<open>heap_start\<close> plus the offset of the pointer.  On the
  heaps a client can reach every request returns (\<open>umm_heap_mallocs\<close>), so the last case does
  not arise there.
\<close>

definition umm_mem_malloc :: "nat \<Rightarrow> nat \<Rightarrow> umm_state \<Rightarrow> nat \<times> umm_state" where
  "umm_mem_malloc heap_start n s =
     (case pvPortMalloc s (of_nat n) of
        Returns s' (Ptr off) \<Rightarrow> (heap_start + off, s')
      | Returns s' NULL \<Rightarrow> (0, s')
      | _ \<Rightarrow> (0, s))"

definition umm_mem_free :: "nat \<Rightarrow> nat \<Rightarrow> umm_state \<Rightarrow> umm_state" where
  "umm_mem_free heap_start p s = vPortFree s (if p = 0 then NULL else Ptr (p - heap_start))"

text \<open>The SDK's own state is beside the heap; recycling a receive buffer acts on it alone.\<close>

definition umm_pbuf_env :: "nat \<Rightarrow> (u32 \<Rightarrow> 'r \<Rightarrow> 'r) \<Rightarrow> (umm_state \<times> 'r) pbuf_env" where
  "umm_pbuf_env heap_start recycle =
     \<lparr>mem_malloc = (\<lambda>n (s, r). case umm_mem_malloc heap_start n s of (p, s) \<Rightarrow> (p, (s, r))),
      mem_free = (\<lambda>p (s, r). (umm_mem_free heap_start p s, r)),
      recycle_rx_pkt = (\<lambda>e (s, r). (s, recycle e r))\<rparr>"

section \<open>What the packet code needs of its heap\<close>

definition structures :: "'h pstore \<Rightarrow> nat set" where
  "structures S = {x. live x S \<noteq> None}"

text \<open>The types whose data lies in the block of the structure.\<close>

definition in_block :: "pbuf \<Rightarrow> bool" where
  "in_block b \<longleftrightarrow> pb_type b = PBUF_RAM \<or> pb_type b = PBUF_POOL"

definition data_in_blocks :: "(nat \<rightharpoonup> nat) \<Rightarrow> 'h pstore \<Rightarrow> bool" where
  "data_in_blocks R S \<longleftrightarrow>
     (\<forall>x b n. live x S = Some b \<longrightarrow> in_block b \<longrightarrow> R x = Some n \<longrightarrow> x \<le> pb_payload b \<and> pb_payload b + unat (pb_len b) \<le> x + n)"

text \<open>
  \<open>owns R h\<close>: the blocks of \<open>R\<close> (an address to its bytes) are allocated in \<open>h\<close>.  The store's
  structures are allocated blocks that hold their data, apart from the blocks \<open>B\<close> in other use.
\<close>

definition store_ok :: "((nat \<rightharpoonup> nat) \<Rightarrow> 'h \<Rightarrow> bool) \<Rightarrow> nat set \<Rightarrow> 'h pstore \<Rightarrow> bool" where
  "store_ok owns B S \<longleftrightarrow> B \<inter> structures S = {} \<and>
     (\<exists>R. dom R = B \<union> structures S \<and> owns R (pb_heap S) \<and> data_in_blocks R S)"

lemma live_heap [simp]: "live x (S\<lparr>pb_heap := h\<rparr>) = live x S"
  by (simp add: live_def)

lemma structures_mem [simp]: "structures (S\<lparr>pb_mem := m\<rparr>) = structures S" "data_in_blocks R (S\<lparr>pb_mem := m\<rparr>) = data_in_blocks R S"
  by (simp_all add: structures_def data_in_blocks_def)

lemma structures_heap [simp]: "structures (S\<lparr>pb_heap := h\<rparr>) = structures S" "data_in_blocks R (S\<lparr>pb_heap := h\<rparr>) = data_in_blocks R S"
  by (simp_all add: structures_def data_in_blocks_def)

lemma store_ok_mem [simp]: "store_ok owns B (S\<lparr>pb_mem := m\<rparr>) \<longleftrightarrow> store_ok owns B S"
  by (simp add: store_ok_def)

lemma chain_structures: "chain S p xs \<Longrightarrow> set xs \<subseteq> structures S"
  by (induction xs arbitrary: p) (auto simp: structures_def split: option.splits)

locale lwip_heap =
  fixes env :: "'h pbuf_env"
    and owns :: "(nat \<rightharpoonup> nat) \<Rightarrow> 'h \<Rightarrow> bool"
  assumes owns_apart: "owns R h \<Longrightarrow> R a = Some n \<Longrightarrow> R b = Some m \<Longrightarrow> a \<noteq> b \<Longrightarrow> {a..<a + n} \<inter> {b..<b + m} = {}"
    and malloc_ok: "owns R h \<Longrightarrow> 0 < n \<Longrightarrow> n < 524276 \<Longrightarrow> mem_malloc env n h = (p, h') \<Longrightarrow>
      if p = 0 then owns R h' else p mod 4 = 0 \<and> R p = None \<and> owns (R(p \<mapsto> n)) h'"
    and free_ok: "owns R h \<Longrightarrow> p \<in> dom R \<Longrightarrow> owns (R(p := None)) (mem_free env p h)"
    and recycle_ok: "owns R h \<Longrightarrow> owns R (recycle_rx_pkt env e h)"
begin

lemma extents_apart:
  assumes "store_ok owns B S" "x \<noteq> y" "live x S = Some b" "in_block b" "live y S = Some c" "in_block c"
  shows "extent S x \<inter> extent S y = {}"
proof -
  obtain R where R: "dom R = B \<union> structures S" "owns R (pb_heap S)" "data_in_blocks R S" using assms(1) by (auto simp: store_ok_def)
  have "x \<in> dom R" "y \<in> dom R" using assms(3,5) R(1) by (auto simp: structures_def)
  then obtain n m where nm: "R x = Some n" "R y = Some m" by blast
  have "extent S x \<subseteq> {x..<x + n}" "extent S y \<subseteq> {y..<y + m}"
    using R(3) assms(3-6) nm by (auto simp: extent_def data_in_blocks_def)
  then show ?thesis using owns_apart [OF R(2) nm assms(2)] by blast
qed

lemma releases_ok:
  "owns R h \<Longrightarrow> set ds \<subseteq> dom R \<Longrightarrow> distinct ds \<Longrightarrow> set ds \<subseteq> structures S \<Longrightarrow> owns (R |` (- set ds)) (fold (heap_release env S) ds h)"
proof (induction ds arbitrary: R h)
  case (Cons d ds)
  obtain b where b: "live d S = Some b" using Cons.prems(4) by (auto simp: structures_def)
  have "owns (R(d := None)) (heap_release env S d h)"
    using free_ok [OF recycle_ok [OF Cons.prems(1)], of d] free_ok [OF Cons.prems(1), of d] Cons.prems(2)
    by (simp add: heap_release_def b)
  moreover have "set ds \<subseteq> dom (R(d := None))" "distinct ds" "set ds \<subseteq> structures S" using Cons.prems(2-4) by auto
  ultimately have "owns (R(d := None) |` (- set ds)) (fold (heap_release env S) ds (heap_release env S d h))"
    by (rule Cons.IH)
  moreover have "R(d := None) |` (- set ds) = R |` (- set (d # ds))" by (auto simp: restrict_map_def fun_eq_iff)
  ultimately show ?case by simp
qed (simp add: restrict_map_def)

lemma pbuf_free_ok:
  assumes "store_ok owns B S" "chain S p xs"
  obtains n S' where "pbuf_free env p S = Some (n, S')" "store_ok owns B S'" "pb_mem S' = pb_mem S"
    "\<And>x. x \<notin> set xs \<Longrightarrow> live x S' = live x S" "structures S' = structures S - set (dying S xs)"
proof -
  obtain S' where S': "pbuf_free env p S = Some (of_nat (length (dying S xs)), S')" "(\<lambda>x. live x S') = live_after_free S xs"
    "pb_mem S' = pb_mem S" "pb_heap S' = fold (heap_release env S) (dying S xs) (pb_heap S)"
    using free_loop_spec [OF assms(2), of env 0] by (auto simp: pbuf_free_def fun_eq_iff)
  obtain R where R: "dom R = B \<union> structures S" "owns R (pb_heap S)" "data_in_blocks R S" "B \<inter> structures S = {}"
    using assms(1) by (auto simp: store_ok_def)
  have sub: "set (dying S xs) \<subseteq> set xs" "set (survivors S xs) \<subseteq> set xs" by (auto simp: dying_def survivors_def dest: set_takeWhileD set_dropWhileD)
  have dist: "distinct (dying S xs)" using chain_distinct [OF assms(2)] by (simp add: dying_def distinct_takeWhile)
  have same: "live x S' = live x S" if "x \<notin> set xs" for x
  proof -
    have "x \<notin> set (dying S xs)" "survivors S xs = [] \<or> x \<noteq> hd (survivors S xs)"
      using that sub hd_in_set [of "survivors S xs"] by blast+
    then show ?thesis using fun_cong [OF S'(2), of x] by (auto simp: live_after_free_def)
  qed
  have st: "structures S' = structures S - set (dying S xs)"
    using fun_cong [OF S'(2)] by (auto simp: structures_def live_after_free_def)
  have dy: "set (dying S xs) \<subseteq> structures S" using sub(1) chain_structures [OF assms(2)] by blast
  have "owns (R |` (- set (dying S xs))) (pb_heap S')"
    unfolding S'(4) using R dy dist by (intro releases_ok) auto
  moreover have "dom (R |` (- set (dying S xs))) = B \<union> structures S'" using R(1,4) dy st by auto
  moreover have "data_in_blocks (R |` (- set (dying S xs))) S'"
    using R(3) fun_cong [OF S'(2)]
    by (auto simp: data_in_blocks_def live_after_free_def restrict_map_def in_block_def split: if_splits)
  ultimately have "store_ok owns B S'" using R(4) st by (auto simp: store_ok_def)
  then show thesis using S'(1,3) same st by (intro that)
qed

lemma pbuf_free_null: "pbuf_free env 0 S = Some (0, S)"
  unfolding pbuf_free_def by (subst free_loop.simps) simp

lemma memp_free_ok:
  assumes "store_ok owns B S" "q \<in> B"
  shows "store_ok owns (B - {q}) (S\<lparr>pb_heap := mem_free env q (pb_heap S)\<rparr>)"
proof -
  obtain R where R: "dom R = B \<union> structures S" "owns R (pb_heap S)" "data_in_blocks R S" "B \<inter> structures S = {}"
    using assms(1) by (auto simp: store_ok_def)
  have "owns (R(q := None)) (mem_free env q (pb_heap S))" using free_ok [OF R(2), of q] R(1) assms(2) by simp
  moreover have "dom (R(q := None)) = B - {q} \<union> structures S" using R(1,4) assms(2) by auto
  moreover have "data_in_blocks (R(q := None)) S" using R(3) by (auto simp: data_in_blocks_def)
  ultimately show ?thesis using R(4) by (auto simp: store_ok_def)
qed

lemma memp_malloc_ok:
  assumes "store_ok owns B S" "0 < n" "n < 524276" "take_memory env n S = (q, S')"
  shows "pb_mem S' = pb_mem S" "live x S' = live x S" "q = 0 \<Longrightarrow> store_ok owns B S'"
    "q \<noteq> 0 \<Longrightarrow> q \<notin> B \<and> live q S = None \<and> q mod 4 = 0 \<and>
       (\<exists>R. dom R = B \<union> structures S \<and> owns (R(q \<mapsto> n)) (pb_heap S') \<and> data_in_blocks R S)"
proof -
  obtain h where h: "mem_malloc env n (pb_heap S) = (q, h)" "S' = S\<lparr>pb_heap := h\<rparr>"
    using assms(4) by (auto simp: take_memory_def split: prod.splits)
  obtain R where R: "dom R = B \<union> structures S" "owns R (pb_heap S)" "data_in_blocks R S" "B \<inter> structures S = {}"
    using assms(1) by (auto simp: store_ok_def)
  note m = malloc_ok [OF R(2) assms(2,3) h(1)]
  show "pb_mem S' = pb_mem S" "live x S' = live x S" by (simp_all add: h(2))
  show "q = 0 \<Longrightarrow> store_ok owns B S'" using m R by (auto simp: store_ok_def h(2))
  assume q: "q \<noteq> 0"
  then have "q \<notin> dom R" using m by auto
  then have "q \<notin> B \<and> live q S = None" using R(1) by (auto simp: structures_def)
  then show "q \<notin> B \<and> live q S = None \<and> q mod 4 = 0 \<and>
       (\<exists>R. dom R = B \<union> structures S \<and> owns (R(q \<mapsto> n)) (pb_heap S') \<and> data_in_blocks R S)"
    using m q R by (auto simp: h(2))
qed

lemma memp_malloc_block:
  assumes "store_ok owns B S" "0 < n" "n < 524276" "take_memory env n S = (q, S')" "q \<noteq> 0"
  shows "store_ok owns (insert q B) S'"
proof -
  note M = memp_malloc_ok [OF assms(1-4)]
  from M(4) [OF assms(5)] obtain R where R: "q \<notin> B" "live q S = None" "dom R = B \<union> structures S"
    "owns (R(q \<mapsto> n)) (pb_heap S')" "data_in_blocks R S" by blast
  have st: "structures S' = structures S" using M(2) by (simp add: structures_def)
  have "data_in_blocks (R(q \<mapsto> n)) S'" using R(2,5) M(2) by (auto simp: data_in_blocks_def)
  moreover have "dom (R(q \<mapsto> n)) = insert q B \<union> structures S'" using R(3) st by auto
  moreover have "insert q B \<inter> structures S' = {}" using R(2) st assms(1) by (auto simp: store_ok_def structures_def)
  ultimately show ?thesis using R(4) unfolding store_ok_def by blast
qed

text \<open>A new packet of one structure, or the null pointer and no change of the structures.\<close>

lemma pbuf_alloc_ram_ok:
  assumes "store_ok owns B S"
  obtains (full) S' where "pbuf_alloc env layer req PBUF_RAM S = Some (0, S')" "store_ok owns B S'" "pb_mem S' = pb_mem S"
      "\<And>x. live x S' = live x S"
  | (granted) p b S' where "pbuf_alloc env layer req PBUF_RAM S = Some (p, S')" "p \<noteq> 0" "p \<notin> B" "live p S = None"
      "store_ok owns B S'" "pb_mem S' = pb_mem S" "\<And>x. live x S' = (if x = p then Some b else live x S)"
      "pb_next b = 0" "pb_len b = req" "pb_tot_len b = req" "pb_ref b = 1" "pb_type b = PBUF_RAM"
      "pb_payload b = p + SIZEOF_STRUCT_PBUF + LWIP_MEM_ALIGN_SIZE (header_offset layer)"
proof -
  let ?n = "LWIP_MEM_ALIGN_SIZE (SIZEOF_STRUCT_PBUF + header_offset layer) + LWIP_MEM_ALIGN_SIZE (unat req)"
  obtain p S1 where m: "take_memory env ?n S = (p, S1)" by (cases "take_memory env ?n S")
  have sz: "SIZEOF_STRUCT_PBUF = 20" by (simp add: SIZEOF_STRUCT_PBUF_def LWIP_MEM_ALIGN_SIZE_def)
  have al: "n \<le> LWIP_MEM_ALIGN_SIZE n \<and> LWIP_MEM_ALIGN_SIZE n \<le> n + 3" for n by (simp add: LWIP_MEM_ALIGN_SIZE_def)
  have "header_offset layer \<le> 90"
    by (cases layer; simp add: header_offset_def EP_OFFSET_def PBUF_LINK_HLEN_def PBUF_IP_HLEN_def PBUF_TRANSPORT_HLEN_def)
  then have n: "0 < ?n" "?n < 524276"
    using unat_u16_bound [of req] al [of "SIZEOF_STRUCT_PBUF + header_offset layer"] al [of "unat req"] sz by linarith+
  note M = memp_malloc_ok [OF assms n m]
  show thesis
  proof (cases "p = 0")
    case True
    then show thesis using m M by (intro full [of S1]) (simp_all add: pbuf_alloc_def)
  next
    case False
    let ?b = "(fresh S1 p (LWIP_MEM_ALIGN_SIZE (p + SIZEOF_STRUCT_PBUF + header_offset layer)) (unat req) (unat req) PBUF_RAM)\<lparr>pb_eb := 0\<rparr>"
    obtain R where R: "p \<notin> B" "live p S = None" "p mod 4 = 0" "dom R = B \<union> structures S"
      "owns (R(p \<mapsto> ?n)) (pb_heap S1)" "data_in_blocks R S" using M(4) [OF False] by (elim conjE exE) (rule that)
    have pay: "LWIP_MEM_ALIGN_SIZE (p + SIZEOF_STRUCT_PBUF + header_offset layer) = p + SIZEOF_STRUCT_PBUF + LWIP_MEM_ALIGN_SIZE (header_offset layer)"
      "LWIP_MEM_ALIGN_SIZE (SIZEOF_STRUCT_PBUF + header_offset layer) = SIZEOF_STRUCT_PBUF + LWIP_MEM_ALIGN_SIZE (header_offset layer)"
      using R(3) unfolding sz LWIP_MEM_ALIGN_SIZE_def by presburger+
    have lv: "live x (put p ?b S1) = (if x = p then Some ?b else live x S)" for x using M(2) False by simp
    then have st: "structures (put p ?b S1) = insert p (structures S)" by (auto simp: structures_def)
    have "data_in_blocks (R(p \<mapsto> ?n)) (put p ?b S1)"
      using R(2,6) al [of "unat req"] unfolding data_in_blocks_def lv
      by (auto simp: fresh_def pay)
    moreover have "dom (R(p \<mapsto> ?n)) = B \<union> structures (put p ?b S1)" using R(4) st by auto
    ultimately have "store_ok owns B (put p ?b S1)" using R(1,5) assms st by (auto simp: store_ok_def simp del: fun_upd_apply)
    then show thesis
      using m M(1) R(1,2) False lv by (intro granted [of p "put p ?b S1" ?b]) (simp_all add: pbuf_alloc_def fresh_def pay)
  qed
qed

end

section \<open>umm_malloc provides it\<close>

text \<open>
  The lwIP blocks are some of the allocations of a reachable heap.  The heap starts at a multiple
  of 4, as the linker places it: at word \<open>w\<close>.
\<close>

definition umm_address :: "nat \<Rightarrow> nat \<Rightarrow> nat" where
  "umm_address w c = 4 * w + (8 * c + 4)"

definition umm_owns :: "nat \<Rightarrow> (nat \<rightharpoonup> nat) \<Rightarrow> umm_state \<times> 'r \<Rightarrow> bool" where
  "umm_owns w R h \<longleftrightarrow> (\<exists>A. umm_run (fst h) A \<and>
     (\<forall>a n. R a = Some n \<longrightarrow> (\<exists>c k. a = umm_address w c \<and> A c = Some k \<and> n \<le> 8 * k - 4)))"

lemma umm_heap_mallocs:
  assumes "umm_run s A" "0 < n" "n < 524276"
  obtains (null) s' where "umm_mem_malloc (4 * w) n s = (0, s')" "umm_run s' A"
  | (block) s' c k where "umm_mem_malloc (4 * w) n s = (umm_address w c, s')" "A c = None" "umm_run s' (A(c \<mapsto> k))" "n \<le> 8 * k - 4"
proof -
  have u: "unat (of_nat n :: u32) = n" using assms(3) by (simp add: unat_of_nat take_bit_nat_eq_self)
  then have ok: "umm_request_ok (of_nat n)" using assms(2,3) by (simp add: umm_request_ok_def word_unat_eq_iff word_less_nat_alt)
  have R: "umm_rep s A" using umm_run_rep [OF assms(1)] by simp
  from umm_malloc_step [OF R ok] obtain s' p where m: "umm_malloc s (of_nat n) = Returns s' p"
    "\<And>off. p = Ptr off \<Longrightarrow> \<exists>c. off = 8 * c + 4 \<and> A c = None" by metis
  note run = run_malloc [OF assms(1) ok m(1)]
  show thesis
  proof (cases p)
    case NULL
    then show thesis using m run by (intro null [of s']) (simp_all add: umm_mem_malloc_def pvPortMalloc_def)
  next
    case (Ptr off)
    then obtain c where c: "off = 8 * c + 4" "A c = None" using m(2) by auto
    then have p: "p = UMM_DATA c" by (simp add: Ptr UMM_DATA_off)
    then have "umm_run s' (A(c \<mapsto> blocks_needed (of_nat n)))" using run by (simp only: umm_grant_simps)
    then show thesis
      using m(1) c p blocks_needed_fits [of "of_nat n"] u
      by (intro block [of c s' "blocks_needed (of_nat n)"]) (simp_all add: umm_mem_malloc_def pvPortMalloc_def umm_address_def UMM_DATA_off)
  qed
qed

interpretation umm_lwip: lwip_heap "umm_pbuf_env (4 * w) recycle" "umm_owns w" for w recycle
proof (unfold_locales, goal_cases)
  case (1 R h a n b m)
  obtain A c k d l where A: "umm_run (fst h) A" "a = umm_address w c" "A c = Some k" "n \<le> 8 * k - 4"
    "b = umm_address w d" "A d = Some l" "m \<le> 8 * l - 4"
  proof -
    from 1(1) obtain A where A: "umm_run (fst h) A" "\<And>a n. R a = Some n \<Longrightarrow> \<exists>c k. a = umm_address w c \<and> A c = Some k \<and> n \<le> 8 * k - 4"
      by (auto simp: umm_owns_def)
    show thesis using A(2) [OF 1(2)] A(2) [OF 1(3)] A(1) that by blast
  qed
  then have "c \<noteq> d" using 1(4) by auto
  moreover have sep: "separated (umm_last (fst h)) A" using umm_run_rep [OF A(1)] umm_heap.rep_separated by blast
  ultimately have "c + k \<le> d \<or> d + l \<le> c" using separatedD(1) [OF sep A(3,6)] by blast
  then show ?case using A(2,4,5,7) by (auto simp: umm_address_def)
next
  case (2 R h n p h')
  obtain s r where h: "h = (s, r)" by (cases h)
  from 2(1) obtain A where A: "umm_run s A" "\<And>a n. R a = Some n \<Longrightarrow> \<exists>c k. a = umm_address w c \<and> A c = Some k \<and> n \<le> 8 * k - 4"
    by (auto simp: umm_owns_def h)
  from A(1) 2(2,3) show ?case
  proof (cases rule: umm_heap_mallocs [of s A n w])
    case (null s')
    then show ?thesis using 2(4) A(2) by (auto simp: umm_pbuf_env_def umm_owns_def h)
  next
    case (block s' c k)
    have new: "R (umm_address w c) = None"
      using A(2) [of "umm_address w c"] block(2) by (cases "R (umm_address w c)") (auto simp: umm_address_def)
    have "\<exists>d l. a = umm_address w d \<and> (A(c \<mapsto> k)) d = Some l \<and> x \<le> 8 * l - 4" if "(R(umm_address w c \<mapsto> n)) a = Some x" for a x
    proof (cases "a = umm_address w c")
      case True
      then show ?thesis using that block(4) by (intro exI [of _ c] exI [of _ k]) simp
    next
      case False
      then obtain d l where "a = umm_address w d" "A d = Some l" "x \<le> 8 * l - 4" using A(2) [of a x] \<open>(R(umm_address w c \<mapsto> n)) a = Some x\<close> by auto
      then show ?thesis using False by (intro exI [of _ d] exI [of _ l]) auto
    qed
    then have "umm_owns w (R(umm_address w c \<mapsto> n)) (s', r)" using block(3) unfolding umm_owns_def fst_conv by blast
    moreover have "p = umm_address w c" "h' = (s', r)" "p \<noteq> 0" "p mod 4 = 0"
    proof -
      show p: "p = umm_address w c" and "h' = (s', r)" using 2(4) block(1) by (simp_all add: umm_pbuf_env_def h)
      show "p \<noteq> 0" "p mod 4 = 0" unfolding p umm_address_def by (simp, presburger)
    qed
    ultimately show ?thesis using new by simp
  qed
next
  case (3 R h p)
  obtain s r where h: "h = (s, r)" by (cases h)
  from 3 obtain n where n: "R p = Some n" by blast
  from 3(1) obtain A where A: "umm_run s A" "\<And>a n. R a = Some n \<Longrightarrow> \<exists>c k. a = umm_address w c \<and> A c = Some k \<and> n \<le> 8 * k - 4"
    by (auto simp: umm_owns_def h)
  from A(2) [OF n] obtain c k where c: "p = umm_address w c" "A c = Some k" by blast
  have "umm_mem_free (4 * w) p s = umm_free s (UMM_DATA c)"
    by (simp add: umm_mem_free_def vPortFree_def c(1) umm_address_def UMM_DATA_off)
  then have run: "umm_run (umm_mem_free (4 * w) p s) (A(c := None))" using run_free [OF A(1) c(2)] by simp
  have "\<exists>d l. a = umm_address w d \<and> (A(c := None)) d = Some l \<and> x \<le> 8 * l - 4" if "(R(p := None)) a = Some x" for a x
  proof -
    have "a \<noteq> p" "R a = Some x" using that by (auto split: if_splits)
    with A(2) [of a x] c(1) show ?thesis by (metis fun_upd_other)
  qed
  then have "umm_owns w (R(p := None)) (umm_mem_free (4 * w) p s, r)" using run unfolding umm_owns_def fst_conv by blast
  then show ?case by (simp add: umm_pbuf_env_def h)
next
  case (4 R h e)
  then show ?case by (auto simp: umm_pbuf_env_def umm_owns_def split: prod.splits)
qed

end
