(* ===== verification/PbufCopy.thy ===== *)
theory PbufCopy
  imports Pbuf
begin

text \<open>
  Copying a packet into one structure, the way lwIP's callers of \<open>pbuf_copy\<close> do it: the target is
  a new packet of one structure that has exactly the room.
\<close>

section \<open>One structure as the target\<close>

lemma mem_bytes_memmove: "mem_bytes (memmove m dst src n) dst n = mem_bytes m src n"
  by (rule nth_equalityI) (simp_all add: mem_bytes_def memmove_inside)

text \<open>A packet none of whose structures is empty.\<close>

definition full_packet :: "'h pstore \<Rightarrow> nat \<Rightarrow> nat list \<Rightarrow> bool" where
  "full_packet S p xs \<longleftrightarrow> packet S p xs \<and> xs \<noteq> [] \<and> (\<forall>x\<in>set xs. data_of S x \<noteq> [])"

lemma packet_mem [simp]: "packet (S\<lparr>pb_mem := m\<rparr>) p xs = packet S p xs"
proof (induction xs arbitrary: p)
  case (Cons x xs)
  have "length (flat (S\<lparr>pb_mem := m\<rparr>) ys) = length (flat S ys)" for ys
    by (induction ys) (auto simp: data_of_def split: option.split)
  then show ?case using Cons by (simp split: option.split del: flat_simps)
qed simp

lemma data_of_nonempty_mem [simp]: "data_of (S\<lparr>pb_mem := m\<rparr>) x = [] \<longleftrightarrow> data_of S x = []"
  by (auto simp: data_of_def mem_bytes_def split: option.split)

lemma no_queue_ahead:
  assumes "packet S p xs" "\<And>x. x \<in> set xs \<Longrightarrow> data_of S x \<noteq> []"
  shows "p = 0 \<or> (\<exists>b. live p S = Some b \<and> \<not> (pb_len b = pb_tot_len b \<and> pb_next b \<noteq> 0))"
proof (cases xs)
  case (Cons x ys)
  with assms(1) obtain b where b: "p = x" "live x S = Some b" "packet S (pb_next b) ys" "unat (pb_tot_len b) = length (flat S (x # ys))"
    "length (data_of S x) = unat (pb_len b)" using packet_ConsD by metis
  have "pb_len b \<noteq> pb_tot_len b" if "pb_next b \<noteq> 0"
  proof -
    obtain y zs where ys: "ys = y # zs" using b(3) \<open>pb_next b \<noteq> 0\<close> by (cases ys) auto
    then have "data_of S y \<noteq> []" using assms(2) Cons by simp
    then show ?thesis using b(4,5) ys by auto
  qed
  then show ?thesis using b by auto
qed (use assms in simp)

lemma pbuf_copy_loop_one:
  "packet S f fs \<Longrightarrow> fs \<noteq> [] \<Longrightarrow> (\<And>x. x \<in> set fs \<Longrightarrow> data_of S x \<noteq> []) \<Longrightarrow> live t S = Some tb \<Longrightarrow> pb_next tb = 0 \<Longrightarrow>
   unat off + length (flat S fs) = unat (pb_len tb) \<Longrightarrow>
   \<exists>m. pbuf_copy_loop t off f 0 S = Some (ERR_OK, S\<lparr>pb_mem := m\<rparr>) \<and>
     (\<forall>a. a \<notin> {pb_payload tb + unat off..<pb_payload tb + unat (pb_len tb)} \<longrightarrow> m a = pb_mem S a) \<and>
     ((\<forall>x\<in>set (tl fs). extent S x \<inter> {pb_payload tb + unat off..<pb_payload tb + unat (pb_len tb)} = {}) \<longrightarrow>
      mem_bytes m (pb_payload tb + unat off) (length (flat S fs)) = flat S fs)"
proof (induction fs arbitrary: S f off)
  case (Cons x xs)
  from Cons.prems(1) obtain b where b: "f = x" "x \<noteq> 0" "live x S = Some b" "packet S (pb_next b) xs"
    "unat (pb_tot_len b) = length (flat S (x # xs))" "length (data_of S x) = unat (pb_len b)" by (rule packet_ConsD)
  define k where "k = pb_len b"
  define dst where "dst = pb_payload tb + unat off"
  define m1 where "m1 = memmove (pb_mem S) dst (pb_payload b) (unat k)"
  define S1 where "S1 = S\<lparr>pb_mem := m1\<rparr>"
  have room: "unat off + unat k + length (flat S xs) = unat (pb_len tb)" using Cons.prems(6) b(6) by (simp add: k_def)
  then have "unat off + unat k < 65536" using unat_u16_bound [of "pb_len tb"] by linarith
  then have u: "unat (off + k) = unat off + unat k" by (simp add: unat_word_ariths)
  have fits: "uint (pb_len tb) - uint off \<ge> uint (pb_len b)"
  proof -
    have "int (unat off) + int (unat (pb_len b)) \<le> int (unat (pb_len tb))" using room by (simp add: k_def del: of_nat_unat)
    then show ?thesis by (simp add: uint_nat [symmetric])
  qed
  have len1: "length (flat S1 xs) = length (flat S xs)" unfolding S1_def
    by (induction xs) (auto simp: data_of_def split: option.split)
  have ahead: "pb_next b = 0 \<or> (\<exists>b'. live (pb_next b) S1 = Some b' \<and> \<not> (pb_len b' = pb_tot_len b' \<and> pb_next b' \<noteq> 0))"
    using no_queue_ahead [of S "pb_next b" xs] b(4) Cons.prems(3) by (simp add: S1_def)
  have d1: "mem_bytes m1 dst (unat k) = data_of S x"
    using b(3) by (simp add: m1_def mem_bytes_memmove data_of_def k_def)
  have out1: "m1 a = pb_mem S a" if "a \<notin> {dst..<dst + unat k}" for a
    unfolding m1_def by (rule memmove_outside) (use that in auto)
  show ?case
  proof (cases xs)
    case Nil
    then have "pb_next b = 0" "off + k = pb_len tb" using b(4) room u by (simp_all add: word_unat_eq_iff)
    then have "pbuf_copy_loop t off f 0 S = Some (ERR_OK, S1)"
      using b(1-3) Cons.prems(4,5) fits by (subst pbuf_copy_loop.simps) (simp add: Let_def S1_def m1_def dst_def k_def)
    then show ?thesis using d1 out1 room b(6) Nil by (intro exI [of _ m1]) (simp add: S1_def dst_def k_def add.assoc)
  next
    case Cons': (Cons y ys)
    then have ne: "data_of S y \<noteq> []" "pb_next b \<noteq> 0" using Cons.prems(3) b(4) packet_hd [OF b(4)] by auto
    then have "off + k \<noteq> pb_len tb" using room u Cons' by (auto simp: word_unat_eq_iff)
    then have step: "pbuf_copy_loop t off f 0 S = pbuf_copy_loop t (off + k) (pb_next b) 0 S1"
      using b(1-3) Cons.prems(4,5) fits ahead ne(2)
      by (subst pbuf_copy_loop.simps) (auto simp: Let_def S1_def m1_def dst_def k_def)
    have "data_of S1 z \<noteq> []" if "z \<in> set xs" for z using that Cons.prems(3) by (simp add: S1_def)
    moreover have "packet S1 (pb_next b) xs" "live t S1 = Some tb" "xs \<noteq> []"
      using b(4) Cons.prems(4) by (simp_all add: S1_def Cons' del: packet.simps)
    moreover have "unat (off + k) + length (flat S1 xs) = unat (pb_len tb)" using room by (simp add: u len1)
    ultimately have "\<exists>m. pbuf_copy_loop t (off + k) (pb_next b) 0 S1 = Some (ERR_OK, S1\<lparr>pb_mem := m\<rparr>) \<and>
      (\<forall>a. a \<notin> {dst + unat k..<pb_payload tb + unat (pb_len tb)} \<longrightarrow> m a = pb_mem S1 a) \<and>
      ((\<forall>x\<in>set (tl xs). extent S1 x \<inter> {dst + unat k..<pb_payload tb + unat (pb_len tb)} = {}) \<longrightarrow>
        mem_bytes m (dst + unat k) (length (flat S1 xs)) = flat S1 xs)"
      using Cons.IH [of S1 "pb_next b" "off + k"] Cons.prems(5) unfolding u dst_def add.assoc by blast
    then obtain m where m: "pbuf_copy_loop t (off + k) (pb_next b) 0 S1 = Some (ERR_OK, S1\<lparr>pb_mem := m\<rparr>)"
      "\<forall>a. a \<notin> {dst + unat k..<pb_payload tb + unat (pb_len tb)} \<longrightarrow> m a = pb_mem S1 a"
      "(\<forall>x\<in>set (tl xs). extent S1 x \<inter> {dst + unat k..<pb_payload tb + unat (pb_len tb)} = {}) \<longrightarrow>
        mem_bytes m (dst + unat k) (length (flat S1 xs)) = flat S1 xs"
      by blast
    have S1m: "S1\<lparr>pb_mem := m\<rparr> = S\<lparr>pb_mem := m\<rparr>" by (simp add: S1_def)
    have "m a = pb_mem S a" if "a \<notin> {dst..<pb_payload tb + unat (pb_len tb)}" for a
      using that m(2) out1 [of a] room by (auto simp: S1_def dst_def)
    moreover have "mem_bytes m dst (length (flat S (x # xs))) = flat S (x # xs)"
      if sep: "\<forall>z\<in>set xs. extent S z \<inter> {dst..<pb_payload tb + unat (pb_len tb)} = {}"
    proof -
      have "flat S1 xs = flat S xs"
        unfolding S1_def
      proof (rule flat_mem_cong, rule out1)
        fix a assume "a \<in> \<Union> (extent S ` set xs)"
        then obtain z where "z \<in> set xs" "a \<in> extent S z" by blast
        then have "a \<notin> {dst..<pb_payload tb + unat (pb_len tb)}" using sep by blast
        then show "a \<notin> {dst..<dst + unat k}" using room by (auto simp: dst_def)
      qed
      moreover have "\<forall>z\<in>set (tl xs). extent S1 z \<inter> {dst + unat k..<pb_payload tb + unat (pb_len tb)} = {}"
      proof
        fix z assume "z \<in> set (tl xs)"
        then have "z \<in> set xs" by (rule list.set_sel(2) [rotated]) (use Cons' in simp)
        then have "extent S z \<inter> {dst..<pb_payload tb + unat (pb_len tb)} = {}" using sep by blast
        then show "extent S1 z \<inter> {dst + unat k..<pb_payload tb + unat (pb_len tb)} = {}" by (auto simp: S1_def disjoint_iff)
      qed
      ultimately have "mem_bytes m (dst + unat k) (length (flat S xs)) = flat S xs" using m(3) by simp
      moreover have "mem_bytes m dst (unat k) = mem_bytes m1 dst (unat k)"
        by (rule mem_bytes_cong) (use m(2) in \<open>auto simp: S1_def\<close>)
      ultimately show ?thesis
        using d1 b(6) mem_bytes_split [of "unat k" "unat k + length (flat S xs)" m dst] by (simp add: k_def)
    qed
    ultimately show ?thesis using step m(1) S1m by (intro exI [of _ m]) (simp add: dst_def)
  qed
qed simp

text \<open>Copying a packet into one structure with exactly its room: its bytes, and nothing else.\<close>

lemma pbuf_copy_one:
  assumes "full_packet S p xs" "live t S = Some tb" "pb_next tb = 0" "t \<noteq> 0" "pb_len tb = pb_tot_len tb"
    and "unat (pb_len tb) = length (flat S xs)"
  obtains m where "pbuf_copy t p S = Some (ERR_OK, S\<lparr>pb_mem := m\<rparr>)" "\<And>a. a \<notin> extent S t \<Longrightarrow> m a = pb_mem S a"
    "(\<And>x. x \<in> set (tl xs) \<Longrightarrow> extent S x \<inter> extent S t = {}) \<Longrightarrow> data_of (S\<lparr>pb_mem := m\<rparr>) t = flat S xs"
proof -
  have P: "packet S p xs" "xs \<noteq> []" "\<And>x. x \<in> set xs \<Longrightarrow> data_of S x \<noteq> []" using assms(1) by (auto simp: full_packet_def)
  obtain b where b: "p \<noteq> 0" "live p S = Some b" "unat (pb_tot_len b) = length (flat S xs)" using packet_hd [OF P(1,2)] by metis
  have len: "unat (0 :: u16) + length (flat S xs) = unat (pb_len tb)" using assms(6) by simp
  obtain m where m: "pbuf_copy_loop t 0 p 0 S = Some (ERR_OK, S\<lparr>pb_mem := m\<rparr>)"
    "\<forall>a. a \<notin> extent S t \<longrightarrow> m a = pb_mem S a"
    "(\<forall>x\<in>set (tl xs). extent S x \<inter> extent S t = {}) \<longrightarrow> mem_bytes m (pb_payload tb) (length (flat S xs)) = flat S xs"
    using pbuf_copy_loop_one [OF P assms(2,3) len] assms(2) by (auto simp: extent_def)
  have "\<not> pb_tot_len tb < pb_tot_len b" using assms(5,6) b(3) by (simp add: word_less_nat_alt)
  then have "pbuf_copy t p S = Some (ERR_OK, S\<lparr>pb_mem := m\<rparr>)"
    using m(1) b(1,2) assms(2,4) by (simp add: pbuf_copy_def)
  then show thesis using m(2,3) assms(2,6) by (intro that [of m]) (simp_all add: data_of_def)
qed

end
