(* ===== verification/EtharpSafe.thy ===== *)
theory EtharpSafe
  imports EtharpTable LwipHeap PbufCopy "HOL-Library.Multiset"
begin

text \<open>
  The ARP module on its heap: every entry point returns on every state the module can be in,
  keeps the table well formed, and keeps the account of its memory: the structures of the store
  are those of others (the set \<open>X\<close>) and the packets on the queues, and the blocks of the queue
  entries are allocated.  The proofs follow the programs with the rules for \<open>runs\<close>.
\<close>

section \<open>The account of the queues\<close>

definition queued :: "'h arp_state \<Rightarrow> etharp_q_entry list" where
  "queued A = concat (map ae_q (arp_table A))"

text \<open>
  A waiting packet is one structure in a block of its own that only its queue refers to, with
  room for the Ethernet header in front.
\<close>

definition single :: "'h pstore \<Rightarrow> nat \<Rightarrow> bool" where
  "single S p \<longleftrightarrow>
     (case live p S of None \<Rightarrow> False
      | Some b \<Rightarrow> pb_next b = 0 \<and> pb_ref b = 1 \<and> pb_tot_len b = pb_len b \<and> in_block b)"

definition waiting :: "'h pstore \<Rightarrow> nat \<Rightarrow> bool" where
  "waiting S p \<longleftrightarrow>
     (case live p S of None \<Rightarrow> False
      | Some b \<Rightarrow> pb_next b = 0 \<and> pb_ref b = 1 \<and> pb_tot_len b = pb_len b \<and> in_block b \<and> SIZEOF_ETH_HDR \<le> unat (pb_len b))"

definition queue_ok :: "((nat \<rightharpoonup> nat) \<Rightarrow> 'h \<Rightarrow> bool) \<Rightarrow> nat set \<Rightarrow> etharp_q_entry list \<Rightarrow> 'h pstore \<Rightarrow> bool" where
  "queue_ok owns X Q S \<longleftrightarrow> distinct (map aq_at Q) \<and> distinct (map aq_p Q) \<and> (\<forall>r\<in>set Q. waiting S (aq_p r)) \<and>
     X \<inter> aq_p ` set Q = {} \<and> structures S = X \<union> aq_p ` set Q \<and> store_ok owns (aq_at ` set Q) S"

definition arp_ok :: "((nat \<rightharpoonup> nat) \<Rightarrow> 'h \<Rightarrow> bool) \<Rightarrow> 'n netif_scheme \<Rightarrow> nat set \<Rightarrow> 'h arp_state \<Rightarrow> bool" where
  "arp_ok owns nif X A \<longleftrightarrow> table_wf nif (arp_table A) \<and> etharp_cached_entry A < ARP_TABLE_SIZE \<and>
     queue_ok owns X (queued A) (arp_store A)"

definition leaves :: "nat set \<Rightarrow> 'h pstore \<Rightarrow> 'h pstore \<Rightarrow> bool" where
  "leaves X S S' \<longleftrightarrow> (\<forall>x\<in>X. live x S' = live x S)"

text \<open>A packet a caller hands in: no structure is empty, and nobody else refers to them.\<close>

definition guest :: "'h pstore \<Rightarrow> nat \<Rightarrow> nat list \<Rightarrow> bool" where
  "guest S p xs \<longleftrightarrow> full_packet S p xs \<and> (\<forall>x\<in>set xs. ref_of S x = 1)"

lemma leaves_refl [simp]: "leaves X S S"
  by (simp add: leaves_def)

lemma leaves_trans: "leaves X S S' \<Longrightarrow> leaves X S' S'' \<Longrightarrow> leaves X S S''"
  by (simp add: leaves_def)

lemma leaves_subset: "leaves X S S' \<Longrightarrow> Y \<subseteq> X \<Longrightarrow> leaves Y S S'"
  by (auto simp: leaves_def)

lemma leaves_mem [simp]: "leaves X S (S'\<lparr>pb_mem := m\<rparr>) = leaves X S S'" "leaves X S (S'\<lparr>pb_heap := h\<rparr>) = leaves X S S'"
  by (simp_all add: leaves_def)

lemma single_cong: "live p S' = live p S \<Longrightarrow> single S' p = single S p"
  by (simp add: single_def)

lemma waiting_mem [simp]: "waiting (S\<lparr>pb_mem := m\<rparr>) p = waiting S p" "waiting (S\<lparr>pb_heap := h\<rparr>) p = waiting S p"
  by (simp_all add: waiting_def)

lemma waiting_single: "waiting S p \<Longrightarrow> single S p"
  by (auto simp: waiting_def single_def split: option.splits)

lemma queue_ok_mem [simp]: "queue_ok owns X Q (S\<lparr>pb_mem := m\<rparr>) = queue_ok owns X Q S"
  by (simp add: queue_ok_def)

lemma singleD: "single S p \<Longrightarrow> chain S p [p] \<and> dying S [p] = [p] \<and> p \<noteq> 0"
  by (cases "p = 0") (auto simp: single_def dying_def ref_of_def split: option.splits)

lemma queue_ok_mset:
  assumes "mset Q = mset Q'"
  shows "queue_ok owns X Q S \<longleftrightarrow> queue_ok owns X Q' S"
proof -
  have "set Q = set Q'" using assms by (rule mset_eq_setD)
  moreover have "distinct (map f Q) \<longleftrightarrow> distinct (map f Q')" for f :: "etharp_q_entry \<Rightarrow> nat"
    using assms by (intro mset_eq_imp_distinct_iff) simp
  ultimately show ?thesis by (simp add: queue_ok_def)
qed

lemma table_queue_update:
  assumes "i < length t"
  shows "mset (concat (map ae_q (t[i := e]))) + mset (ae_q (t ! i)) = mset (concat (map ae_q t)) + mset (ae_q e)"
proof -
  have "t = take i t @ t ! i # drop (Suc i) t" using assms by (rule id_take_nth_drop)
  then have "mset (concat (map ae_q t)) = mset (concat (map ae_q (take i t))) + mset (ae_q (t ! i)) + mset (concat (map ae_q (drop (Suc i) t)))"
    by (metis (no_types, lifting) add.assoc concat.simps(2) concat_append list.simps(9) map_append mset_append)
  then show ?thesis using assms by (simp add: upd_conv_take_nth_drop)
qed

text \<open>The entries on the other queues, when entry \<open>i\<close> has the queue it has.\<close>

lemma other_queues:
  assumes "i < length t" "ae_q e = []"
  shows "mset (concat (map ae_q t)) = mset (ae_q (t ! i) @ concat (map ae_q (t[i := e])))"
  using table_queue_update [OF assms(1), of e] assms(2) by (simp add: add.commute)

lemma same_queues: "ae_q e = ae_q (t ! i) \<Longrightarrow> map ae_q (t[i := e]) = map ae_q t"
  by (cases "i < length t") (simp_all add: map_update list_update_same_conv list_update_beyond)

lemma arp_okD:
  assumes "arp_ok owns nif X A"
  shows "table_wf nif (arp_table A)" "length (arp_table A) = ARP_TABLE_SIZE" "etharp_cached_entry A < ARP_TABLE_SIZE"
    "queue_ok owns X (queued A) (arp_store A)" "one_per_address (arp_table A)"
    "i < ARP_TABLE_SIZE \<Longrightarrow> entry_wf nif (arp_table A ! i)"
  using assms by (simp_all add: arp_ok_def table_wf_def)

lemma for_each_append: "for_each f (xs @ ys) s = Option.bind (for_each f xs s) (for_each f ys)"
proof (induction xs arbitrary: s)
  case (Cons x xs)
  then show ?case by (cases "f x s") simp_all
qed simp

lemma for_each_inv: "(\<And>i s. i \<in> set is \<Longrightarrow> P s \<Longrightarrow> runs (f i s) P) \<Longrightarrow> P s \<Longrightarrow> runs (for_each f is s) P"
proof (induction "is" arbitrary: s)
  case (Cons i "is")
  show ?case unfolding for_each.simps by (rule runs_bindI [OF Cons.prems(1)]) (use Cons in auto)
qed simp

lemma full_packet_live_cong: "leaves (set xs) S S' \<Longrightarrow> full_packet S' p xs = full_packet S p xs"
proof -
  assume k: "leaves (set xs) S S'"
  have len: "length (data_of S' x) = length (data_of S x)" if "x \<in> set xs" for x
    using k that by (simp add: leaves_def data_of_def split: option.split)
  have "packet S' p ys = packet S p ys" if "set ys \<subseteq> set xs" for ys
    using that
  proof (induction ys arbitrary: p)
    case (Cons y ys)
    have "length (flat S' zs) = length (flat S zs)" if "set zs \<subseteq> set xs" for zs
      using that by (induction zs) (simp_all add: len)
    from this [of "y # ys"] Cons show ?case using k by (simp add: leaves_def split: option.split)
  qed simp
  then show ?thesis using len unfolding full_packet_def by (metis length_0_conv subset_refl)
qed

lemma guest_cong: "leaves (set xs) S S' \<Longrightarrow> guest S' p xs = guest S p xs"
  by (simp add: guest_def full_packet_live_cong) (simp add: leaves_def ref_of_def)

lemma guest_chain: "guest S p xs \<Longrightarrow> chain S p xs \<and> dying S xs = xs \<and> xs \<noteq> []"
  by (auto simp: guest_def full_packet_def dying_def packet_chain takeWhile_eq_all_conv)

section \<open>Packets and queue entries\<close>

context lwip_heap
begin

text \<open>A caller's packet is freed whole.\<close>

lemma guest_free:
  assumes "queue_ok owns X Q S" "chain S p xs" "dying S xs = xs" "set xs \<subseteq> X"
  shows "runs (pbuf_free env p S) (\<lambda>(n, S'). queue_ok owns (X - set xs) Q S' \<and>
    leaves ((X - set xs) \<union> aq_p ` set Q) S S' \<and> pb_mem S' = pb_mem S)"
proof -
  have st: "store_ok owns (aq_at ` set Q) S" using assms(1) by (simp add: queue_ok_def)
  obtain n S' where S': "pbuf_free env p S = Some (n, S')" "store_ok owns (aq_at ` set Q) S'" "pb_mem S' = pb_mem S"
    "\<And>x. x \<notin> set xs \<Longrightarrow> live x S' = live x S" "structures S' = structures S - set xs"
    using pbuf_free_ok [OF st assms(2)] assms(3) by metis
  have "r \<in> set Q \<Longrightarrow> aq_p r \<notin> set xs" for r using assms(1,4) by (auto simp: queue_ok_def)
  then have "queue_ok owns (X - set xs) Q S'" using assms(1) S'(2,4,5) by (auto simp: queue_ok_def waiting_def)
  moreover have "leaves ((X - set xs) \<union> aq_p ` set Q) S S'"
    unfolding leaves_def using S'(4) \<open>\<And>r. r \<in> set Q \<Longrightarrow> aq_p r \<notin> set xs\<close> by blast
  ultimately show ?thesis using S'(1,3) by simp
qed

lemma single_free:
  assumes "queue_ok owns X Q S" "single S p" "p \<in> X"
  shows "runs (pbuf_free env p S) (\<lambda>(n, S'). queue_ok owns (X - {p}) Q S' \<and>
    leaves ((X - {p}) \<union> aq_p ` set Q) S S' \<and> pb_mem S' = pb_mem S)"
  using guest_free [OF assms(1), of p "[p]"] singleD [OF assms(2)] assms(3) by simp

end

locale arp_heap = lwip_heap "heap_env env" owns
  for env :: "'h arp_env" and owns :: "(nat \<rightharpoonup> nat) \<Rightarrow> 'h \<Rightarrow> bool" +
  fixes nif :: eth_netif
begin

text \<open>A queue entry's block becomes free and its packet the caller's.\<close>

lemma entry_free:
  assumes "queue_ok owns X (r # Q) S"
  shows "queue_ok owns (insert (aq_p r) X) Q (S\<lparr>pb_heap := mem_free (heap_env env) (aq_at r) (pb_heap S)\<rparr>)"
proof -
  have "store_ok owns (aq_at ` set (r # Q)) S" "aq_at r \<in> aq_at ` set (r # Q)" using assms by (simp_all add: queue_ok_def)
  note memp_free_ok [OF this]
  moreover have "aq_at ` set (r # Q) - {aq_at r} = aq_at ` set Q" using assms by (auto simp: queue_ok_def)
  ultimately show ?thesis using assms by (auto simp: queue_ok_def waiting_def)
qed

lemma free_queued:
  assumes "queue_ok owns X (r # Q) S"
  shows "runs (pbuf_free (heap_env env) (aq_p r) S) (\<lambda>(n, S').
    queue_ok owns X Q (S'\<lparr>pb_heap := mem_free (heap_env env) (aq_at r) (pb_heap S')\<rparr>) \<and>
    leaves (X \<union> aq_p ` set Q) S S' \<and> pb_mem S' = pb_mem S)"
proof -
  have st: "store_ok owns (aq_at ` set (r # Q)) S" and s: "single S (aq_p r)" using assms by (simp_all add: queue_ok_def waiting_single)
  obtain n S' where S': "pbuf_free (heap_env env) (aq_p r) S = Some (n, S')" "store_ok owns (aq_at ` set (r # Q)) S'"
    "pb_mem S' = pb_mem S" "\<And>x. x \<noteq> aq_p r \<Longrightarrow> live x S' = live x S" "structures S' = structures S - {aq_p r}"
    using pbuf_free_ok [OF st] singleD [OF s] by (metis (no_types, lifting) empty_set list.simps(15) singletonD)
  have "aq_at ` set (r # Q) - {aq_at r} = aq_at ` set Q" using assms by (auto simp: queue_ok_def)
  then have "store_ok owns (aq_at ` set Q) (S'\<lparr>pb_heap := mem_free (heap_env env) (aq_at r) (pb_heap S')\<rparr>)"
    using memp_free_ok [OF S'(2), of "aq_at r"] by simp
  moreover have ne: "x \<noteq> aq_p r" if "x \<in> X \<union> aq_p ` set Q" for x using that assms by (auto simp: queue_ok_def)
  ultimately have "queue_ok owns X Q (S'\<lparr>pb_heap := mem_free (heap_env env) (aq_at r) (pb_heap S')\<rparr>)"
    using assms S'(4,5) by (auto simp: queue_ok_def waiting_def)
  then show ?thesis using S'(1,3,4) ne by (simp add: leaves_def)
qed

lemma free_etharp_q_runs:
  "queue_ok owns X (q @ Q) S \<Longrightarrow> runs (free_etharp_q env q S) (\<lambda>S'. queue_ok owns X Q S' \<and>
     leaves (X \<union> aq_p ` set Q) S S' \<and> pb_mem S' = pb_mem S)"
proof (induction q arbitrary: S)
  case (Cons r q)
  have "queue_ok owns X (r # q @ Q) S" using Cons.prems by simp
  from free_queued [OF this] show ?case
    unfolding free_etharp_q.simps
  proof (rule runs_bindI, clarify)
    fix n S'
    assume S': "queue_ok owns X (q @ Q) (S'\<lparr>pb_heap := mem_free (heap_env env) (aq_at r) (pb_heap S')\<rparr>)"
      "leaves (X \<union> aq_p ` set (q @ Q)) S S'" "pb_mem S' = pb_mem S"
    have le: "leaves (X \<union> aq_p ` set Q) S S'" using S'(2) by (rule leaves_subset) auto
    show "runs (free_etharp_q env q (S'\<lparr>pb_heap := mem_free (heap_env env) (aq_at r) (pb_heap S')\<rparr>))
       (\<lambda>S'. queue_ok owns X Q S' \<and> leaves (X \<union> aq_p ` set Q) S S' \<and> pb_mem S' = pb_mem S)"
      by (rule runs_mono [OF Cons.IH [OF S'(1)]]) (use S'(3) le in \<open>auto simp: leaves_def\<close>)
  qed
qed simp

lemma alloc_runs:
  assumes "queue_ok owns X Q S"
  shows "runs (pbuf_alloc (heap_env env) layer req PBUF_RAM S) (\<lambda>(p, S'). leaves (X \<union> aq_p ` set Q) S S' \<and> pb_mem S' = pb_mem S \<and>
    (if p = 0 then queue_ok owns X Q S'
     else p \<notin> X \<union> aq_p ` set Q \<and> queue_ok owns (insert p X) Q S' \<and> single S' p \<and>
       (\<exists>b. live p S' = Some b \<and> pb_next b = 0 \<and> pb_len b = req \<and> pb_tot_len b = req \<and>
          pb_payload b = p + SIZEOF_STRUCT_PBUF + LWIP_MEM_ALIGN_SIZE (header_offset layer))))"
proof -
  have st: "store_ok owns (aq_at ` set Q) S" and X: "structures S = X \<union> aq_p ` set Q" using assms by (simp_all add: queue_ok_def)
  from st show ?thesis
  proof (cases rule: pbuf_alloc_ram_ok [of _ _ layer req])
    case (full S')
    have "structures S' = structures S" using full(4) by (simp add: structures_def)
    then have "queue_ok owns X Q S'" using assms full by (simp add: queue_ok_def waiting_def)
    then show ?thesis using full by (simp add: leaves_def)
  next
    case (granted p b S')
    have "p \<notin> structures S" using granted(4) by (simp add: structures_def)
    then have new: "p \<notin> X \<union> aq_p ` set Q" by (simp only: X) simp
    then have same: "live x S' = live x S" if "x \<in> X \<union> aq_p ` set Q" for x using that granted(7) by auto
    have "structures S' = insert p (structures S)" using granted(7) by (auto simp: structures_def)
    then have "queue_ok owns (insert p X) Q S'" using assms new same granted(5) by (auto simp: queue_ok_def waiting_def)
    moreover have "single S' p" using granted by (simp add: single_def in_block_def)
    ultimately show ?thesis using granted new same by (simp add: leaves_def)
  qed
qed

section \<open>Entries\<close>

lemma free_entry_runs:
  assumes "table_wf nif ((arp_table A)[i := emptied (arp_table A ! i)])" "i < ARP_TABLE_SIZE"
    "etharp_cached_entry A < ARP_TABLE_SIZE" "queue_ok owns X (queued A) (arp_store A)"
  shows "runs (free_entry env i A) (\<lambda>A'. arp_ok owns nif X A' \<and> leaves (X \<union> aq_p ` set (queued A')) (arp_store A) (arp_store A') \<and>
    A' = A\<lparr>arp_table := (arp_table A)[i := emptied (arp_table A ! i)], arp_store := arp_store A'\<rparr> \<and>
    pb_mem (arp_store A') = pb_mem (arp_store A))"
proof -
  let ?t = "(arp_table A)[i := emptied (arp_table A ! i)]"
  have i: "i < length (arp_table A)" using assms(1,2) by (simp add: table_wf_def)
  have q: "queue_ok owns X (ae_q (arp_table A ! i) @ concat (map ae_q ?t)) (arp_store A)"
    using assms(4) unfolding queued_def by (simp add: queue_ok_mset [OF other_queues [OF i, of "emptied (arp_table A ! i)"]])
  show ?thesis
    unfolding free_entry_def
    by (rule runs_bindI [OF free_etharp_q_runs [OF q]])
       (use assms(1,3) in \<open>auto simp: arp_ok_def queued_def upd_entry_def emptied_def leaves_def\<close>)
qed

lemma tmr_entry_runs:
  assumes "arp_ok owns nif X A" "i < ARP_TABLE_SIZE"
  shows "runs (tmr_entry env i A) (\<lambda>A'. arp_ok owns nif X A' \<and> leaves (X \<union> aq_p ` set (queued A')) (arp_store A) (arp_store A') \<and>
    set (queued A') \<subseteq> set (queued A) \<and>
    A' = A\<lparr>arp_table := (arp_table A)[i := aged (arp_table A ! i)], arp_store := arp_store A'\<rparr> \<and>
    pb_mem (arp_store A') = pb_mem (arp_store A))"
proof -
  let ?e = "arp_table A ! i"
  let ?e1 = "?e\<lparr>ae_ctime := ae_ctime ?e + 1\<rparr>"
  note D = arp_okD [OF assms(1)]
  have i: "i < length (arp_table A)" using assms(2) D(2) by simp
  have sub: "set (concat (map ae_q ((arp_table A)[i := aged ?e]))) \<subseteq> set (queued A)"
    using aged_queue [of ?e] nth_mem [OF i] set_update_subset_insert [of "arp_table A" i "aged ?e"]
    by (fastforce simp: queued_def)
  have wf: "table_wf nif ((arp_table A)[i := aged ?e])" by (rule table_wf_aged [OF D(1) assms(2)])
  show ?thesis
  proof (cases "in_use ?e")
    case False
    then show ?thesis using assms(1) i by (simp add: tmr_entry_def aged_def in_use_def)
  next
    case True
    let ?A = "upd_entry i (\<lambda>e. e\<lparr>ae_ctime := ae_ctime e + 1\<rparr>) A"
    have A1: "arp_table ?A = (arp_table A)[i := ?e1]" "arp_store ?A = arp_store A" "etharp_cached_entry ?A = etharp_cached_entry A"
      by (simp_all add: upd_entry_def)
    have "map ae_q ((arp_table A)[i := ?e1]) = map ae_q (arp_table A)" by (rule same_queues) simp
    then have q: "queue_ok owns X (queued ?A) (arp_store ?A)" using D(4) by (simp only: queued_def A1)
    show ?thesis
    proof (cases "ae_ctime ?e1 \<ge> ARP_MAXAGE \<or> ae_state ?e1 = ETHARP_STATE_PENDING \<and> ae_ctime ?e1 \<ge> ARP_MAXPENDING")
      case expired: True
      then have a: "aged ?e = emptied ?e1" using True by (simp add: aged_def Let_def)
      have "tmr_entry env i A = free_entry env i ?A" using True expired i by (auto simp: tmr_entry_def in_use_def Let_def A1)
      moreover have "table_wf nif ((arp_table ?A)[i := emptied (arp_table ?A ! i)])" using wf i by (simp add: A1 a)
      ultimately have "runs (tmr_entry env i A) (\<lambda>A'. arp_ok owns nif X A' \<and> leaves (X \<union> aq_p ` set (queued A')) (arp_store A) (arp_store A') \<and>
          A' = A\<lparr>arp_table := (arp_table A)[i := aged ?e], arp_store := arp_store A'\<rparr> \<and> pb_mem (arp_store A') = pb_mem (arp_store A))"
        using free_entry_runs [of ?A i X] assms(2) D(3) q i by (auto simp: A1 a upd_entry_def)
      then show ?thesis
      proof (rule runs_mono, elim conjE)
        fix A' assume A': "arp_ok owns nif X A'" "leaves (X \<union> aq_p ` set (queued A')) (arp_store A) (arp_store A')"
          "A' = A\<lparr>arp_table := (arp_table A)[i := aged ?e], arp_store := arp_store A'\<rparr>" "pb_mem (arp_store A') = pb_mem (arp_store A)"
        have "arp_table A' = (arp_table A)[i := aged ?e]" by (subst A'(3)) simp
        then show "arp_ok owns nif X A' \<and> leaves (X \<union> aq_p ` set (queued A')) (arp_store A) (arp_store A') \<and> set (queued A') \<subseteq> set (queued A) \<and>
            A' = A\<lparr>arp_table := (arp_table A)[i := aged ?e], arp_store := arp_store A'\<rparr> \<and> pb_mem (arp_store A') = pb_mem (arp_store A)"
          using A' sub by (simp add: queued_def [of A'])
      qed
    next
      case False
      let ?e2 = "if ae_state ?e1 = ETHARP_STATE_STABLE_REREQUESTING then ?e1\<lparr>ae_state := ETHARP_STATE_STABLE\<rparr> else ?e1"
      have a: "aged ?e = ?e2" using True False by (auto simp: aged_def Let_def)
      have "tmr_entry env i A = Some (A\<lparr>arp_table := (arp_table A)[i := ?e2]\<rparr>)"
        using True False i unfolding tmr_entry_def Let_def A1 by (auto simp: in_use_def upd_entry_def)
      moreover have "map ae_q ((arp_table A)[i := ?e2]) = map ae_q (arp_table A)" by (rule same_queues) simp
      then have "queue_ok owns X (concat (map ae_q ((arp_table A)[i := ?e2]))) (arp_store A)" using D(4) by (simp only: queued_def)
      ultimately show ?thesis using wf D(3) sub by (simp add: a arp_ok_def queued_def)
    qed
  qed
qed

lemma tmr_runs:
  assumes "arp_ok owns nif X A"
  shows "runs (etharp_tmr env A) (\<lambda>A'. arp_ok owns nif X A' \<and> leaves (X \<union> aq_p ` set (queued A')) (arp_store A) (arp_store A') \<and>
    A' = A\<lparr>arp_table := map aged (arp_table A), arp_store := arp_store A'\<rparr> \<and> pb_mem (arp_store A') = pb_mem (arp_store A))"
proof -
  note D = arp_okD [OF assms]
  have "runs (for_each (tmr_entry env) [0..<k] A) (\<lambda>A'. arp_ok owns nif X A' \<and> leaves (X \<union> aq_p ` set (queued A')) (arp_store A) (arp_store A') \<and>
    A' = A\<lparr>arp_table := map aged (take k (arp_table A)) @ drop k (arp_table A), arp_store := arp_store A'\<rparr> \<and>
    pb_mem (arp_store A') = pb_mem (arp_store A))" if "k \<le> ARP_TABLE_SIZE" for k
    using that
  proof (induction k)
    case 0
    then show ?case using assms by simp
  next
    case (Suc k)
    then have k: "k < ARP_TABLE_SIZE" "k < length (arp_table A)" using D(2) by simp_all
    have shift: "(map aged (take k (arp_table A)) @ drop k (arp_table A))[k := aged (arp_table A ! k)] =
        map aged (take (Suc k) (arp_table A)) @ drop (Suc k) (arp_table A)"
      using k(2) by (simp add: list_update_append take_Suc_conv_app_nth flip: Cons_nth_drop_Suc)
    have IH: "runs (for_each (tmr_entry env) [0..<k] A) (\<lambda>A'. arp_ok owns nif X A' \<and> leaves (X \<union> aq_p ` set (queued A')) (arp_store A) (arp_store A') \<and>
      A' = A\<lparr>arp_table := map aged (take k (arp_table A)) @ drop k (arp_table A), arp_store := arp_store A'\<rparr> \<and>
      pb_mem (arp_store A') = pb_mem (arp_store A))" using Suc by simp
    show ?case
      unfolding upt_Suc_append [OF le0] for_each_append
    proof (rule runs_bindI [OF IH], elim conjE)
      fix A1
      assume ok: "arp_ok owns nif X A1" and le: "leaves (X \<union> aq_p ` set (queued A1)) (arp_store A) (arp_store A1)" and mem: "pb_mem (arp_store A1) = pb_mem (arp_store A)"
        and A1: "A1 = A\<lparr>arp_table := map aged (take k (arp_table A)) @ drop k (arp_table A), arp_store := arp_store A1\<rparr>"
      have tb: "arp_table A1 = map aged (take k (arp_table A)) @ drop k (arp_table A)" by (subst A1) simp
      have "arp_table A1 ! k = arp_table A ! k" using k by (simp add: tb nth_append)
      with tmr_entry_runs [OF ok k(1)] have r: "runs (tmr_entry env k A1) (\<lambda>A'. arp_ok owns nif X A' \<and> leaves (X \<union> aq_p ` set (queued A')) (arp_store A1) (arp_store A') \<and> set (queued A') \<subseteq> set (queued A1) \<and>
        A' = A1\<lparr>arp_table := map aged (take (Suc k) (arp_table A)) @ drop (Suc k) (arp_table A), arp_store := arp_store A'\<rparr> \<and>
        pb_mem (arp_store A') = pb_mem (arp_store A1))"
        by (simp only: tb shift)
      have eq: "A1\<lparr>arp_table := t, arp_store := S\<rparr> = A\<lparr>arp_table := t, arp_store := S\<rparr>" for t S by (subst A1) simp
      show "runs (for_each (tmr_entry env) [k] A1) (\<lambda>A'. arp_ok owns nif X A' \<and> leaves (X \<union> aq_p ` set (queued A')) (arp_store A) (arp_store A') \<and>
        A' = A\<lparr>arp_table := map aged (take (Suc k) (arp_table A)) @ drop (Suc k) (arp_table A), arp_store := arp_store A'\<rparr> \<and>
        pb_mem (arp_store A') = pb_mem (arp_store A))"
        unfolding for_each.simps Option.bind_runit
        using r
      proof (rule runs_mono, elim conjE, intro conjI)
        fix A' assume le': "leaves (X \<union> aq_p ` set (queued A')) (arp_store A1) (arp_store A')" "set (queued A') \<subseteq> set (queued A1)"
        then have "X \<union> aq_p ` set (queued A') \<subseteq> X \<union> aq_p ` set (queued A1)" by auto
        from leaves_trans [OF leaves_subset [OF le this] le'(1)]
        show "leaves (X \<union> aq_p ` set (queued A')) (arp_store A) (arp_store A')" .
      qed (use mem eq in auto)
    qed
  qed
  from this [OF order_refl] show ?thesis using D(2) by (simp add: etharp_tmr_def)
qed

lemma cleanup_runs:
  assumes "arp_ok owns nif X A"
  shows "runs (etharp_cleanup_netif env at A) (\<lambda>A'. arp_ok owns nif X A' \<and> leaves X (arp_store A) (arp_store A'))"
  unfolding etharp_cleanup_netif_def
proof (rule for_each_inv)
  fix i A1
  assume i: "i \<in> set [0..<ARP_TABLE_SIZE]" and ok: "arp_ok owns nif X A1 \<and> leaves X (arp_store A) (arp_store A1)"
  then have D: "table_wf nif (arp_table A1)" "etharp_cached_entry A1 < ARP_TABLE_SIZE" "queue_ok owns X (queued A1) (arp_store A1)"
    using arp_okD by blast+
  have i': "i < ARP_TABLE_SIZE" using i by simp
  have "runs (free_entry env i A1) (\<lambda>A'. arp_ok owns nif X A' \<and> leaves X (arp_store A) (arp_store A'))"
    by (rule runs_mono [OF free_entry_runs [OF table_wf_emptied [OF D(1) i'] i' D(2,3)]]) (use ok in \<open>auto simp: leaves_def\<close>)
  then show "runs (if ae_state (arp_table A1 ! i) \<noteq> ETHARP_STATE_EMPTY \<and> ae_netif (arp_table A1 ! i) = at then free_entry env i A1 else Some A1)
      (\<lambda>A'. arp_ok owns nif X A' \<and> leaves X (arp_store A) (arp_store A'))"
    using ok by simp
qed (use assms in simp)

end

section \<open>Sending\<close>

locale arp_world = arp_heap env owns nif
  for env :: "'h arp_env" and owns :: "(nat \<rightharpoonup> nat) \<Rightarrow> 'h \<Rightarrow> bool" and nif :: eth_netif +
  assumes link_ok: "linkoutput env p S = (e, S') \<Longrightarrow> \<exists>h. S' = S\<lparr>pb_heap := h\<rparr> \<and> (\<forall>R. owns R (pb_heap S) \<longrightarrow> owns R h)"
    and ip_input_ok: "arp_ok owns nif X A \<Longrightarrow> guest (arp_store A) p xs \<Longrightarrow> set xs \<subseteq> X \<Longrightarrow>
      runs (ip_input env p A) (\<lambda>A'. arp_ok owns nif (X - set xs) A' \<and> leaves (X - set xs) (arp_store A) (arp_store A'))"
    and dhcp_ok: "arp_ok owns nif X A \<Longrightarrow>
      runs (dhcp_arp_reply env a A) (\<lambda>A'. arp_ok owns nif X A' \<and> leaves X (arp_store A) (arp_store A'))"
begin

lemma link_runs:
  assumes "queue_ok owns X Q S" "linkoutput env p S = (e, S')"
  shows "queue_ok owns X Q S'" "leaves X S S'" "live x S' = live x S" "pb_mem S' = pb_mem S"
proof -
  obtain h where h: "S' = S\<lparr>pb_heap := h\<rparr>" "\<forall>R. owns R (pb_heap S) \<longrightarrow> owns R h" using link_ok [OF assms(2)] by blast
  show "queue_ok owns X Q S'" using assms(1) h(2) by (auto simp: h(1) queue_ok_def store_ok_def waiting_def)
qed (use link_ok [OF assms(2)] in auto)

lemma send_ip_runs:
  assumes "queue_ok owns X Q S" "live p S = Some b"
  shows "runs (etharp_send_ip env p src dst S) (\<lambda>(e, S'). queue_ok owns X Q S' \<and> (\<forall>x. live x S' = live x S))"
proof -
  let ?S = "S\<lparr>pb_mem := store16 (put_bytes (put_bytes (pb_mem S) (pb_payload b) dst) (pb_payload b + 6) src) (pb_payload b + 12) (PP_HTONS ETHTYPE_IP)\<rparr>"
  obtain e S' where l: "linkoutput env p ?S = (e, S')" by (cases "linkoutput env p ?S")
  have "queue_ok owns X Q ?S" using assms(1) by simp
  from link_runs(1,3) [OF this l] show ?thesis using assms(2) l by (simp add: etharp_send_ip_def)
qed

lemma raw_runs:
  assumes "queue_ok owns X Q S"
  shows "runs (etharp_raw env ethsrc ethdst hwsrc ipsrc hwdst ipdst opcode S)
    (\<lambda>(e, S'). queue_ok owns X Q S' \<and> leaves (X \<union> aq_p ` set Q) S S')"
  unfolding etharp_raw_def
proof (rule runs_bindI [OF alloc_runs [OF assms]], clarify)
  fix p S1
  assume le: "leaves (X \<union> aq_p ` set Q) S S1" and
    p: "if p = 0 then queue_ok owns X Q S1
     else p \<notin> X \<union> aq_p ` set Q \<and> queue_ok owns (insert p X) Q S1 \<and> single S1 p \<and>
       (\<exists>b. live p S1 = Some b \<and> pb_next b = 0 \<and> pb_len b = of_nat SIZEOF_ETHARP_PACKET \<and> pb_tot_len b = of_nat SIZEOF_ETHARP_PACKET \<and>
          pb_payload b = p + SIZEOF_STRUCT_PBUF + LWIP_MEM_ALIGN_SIZE (header_offset PBUF_RAW))"
  have send: "runs (case linkoutput env p (S1\<lparr>pb_mem := m\<rparr>) of (e, S2) \<Rightarrow> Option.bind (pbuf_free (heap_env env) p S2) (\<lambda>(n, S). Some (e, S)))
      (\<lambda>(e, S'). queue_ok owns X Q S' \<and> leaves (X \<union> aq_p ` set Q) S S')" if "p \<noteq> 0" for m
  proof -
    obtain e S2 where l: "linkoutput env p (S1\<lparr>pb_mem := m\<rparr>) = (e, S2)" by (cases "linkoutput env p (S1\<lparr>pb_mem := m\<rparr>)")
    have q: "queue_ok owns (insert p X) Q (S1\<lparr>pb_mem := m\<rparr>)" using p that by simp
    note L = link_runs [OF q l]
    have "single S2 p" using p that L(3) by (simp add: single_def)
    from single_free [OF L(1) this] have f: "runs (pbuf_free (heap_env env) p S2) (\<lambda>(n, S'). queue_ok owns (insert p X - {p}) Q S' \<and>
      leaves ((insert p X - {p}) \<union> aq_p ` set Q) S2 S' \<and> pb_mem S' = pb_mem S2)" by simp
    have "insert p X - {p} = X" using p that by auto
    then show ?thesis using f le L(3) unfolding l prod.case
      by (elim runs_bindI) (auto simp: leaves_def)
  qed
  show "runs (if p = 0 then Some (ERR_MEM, S1)
      else Option.bind (live p S1)
        (\<lambda>b. let ethhdr = pb_payload b; hdr = ethhdr + SIZEOF_ETH_HDR; m = store16 (pb_mem S1) (hdr + 6) (lwip_htons opcode);
                m = put_bytes m (hdr + 8) hwsrc; m = put_bytes m (hdr + 18) hwdst; m = put_bytes m ethhdr ethdst;
                m = put_bytes m (ethhdr + 6) ethsrc; m = store32 m (hdr + 14) ipsrc; m = store32 m (hdr + 24) ipdst;
                m = store16 m hdr (PP_HTONS HWTYPE_ETHERNET); m = store16 m (hdr + 2) (PP_HTONS ETHTYPE_IP);
                m = m(hdr + 4 := of_nat ETHARP_HWADDR_LEN); m = m(hdr + 5 := 4);
                m = store16 m (ethhdr + 12) (PP_HTONS ETHTYPE_ARP); (result, S) = linkoutput env p (S1\<lparr>pb_mem := m\<rparr>)
            in Option.bind (pbuf_free (heap_env env) p S) (\<lambda>(n, S). Some (result, S))))
     (\<lambda>(e, S'). queue_ok owns X Q S' \<and> leaves (X \<union> aq_p ` set Q) S S')"
  proof (cases "p = 0")
    case True
    then show ?thesis using p le by simp
  next
    case False
    then obtain b where "live p S1 = Some b" using p by auto
    then show ?thesis using False send by (simp add: Let_def)
  qed
qed

lemma request_runs:
  "queue_ok owns X Q S \<Longrightarrow> runs (etharp_request env nif' a S) (\<lambda>(e, S'). queue_ok owns X Q S' \<and> leaves (X \<union> aq_p ` set Q) S S')"
  unfolding etharp_request_def by (rule raw_runs)

end

end
