(* ===== verification/EtharpCalls.thy ===== *)
theory EtharpCalls
  imports EtharpSafe
begin

text \<open>
  The entry points of the ARP module on its heap, one lemma each: finding an entry, learning an
  address, received packets and packets to send.
\<close>

section \<open>Finding an entry\<close>

definition created :: "u32 \<Rightarrow> etharp_entry \<Rightarrow> etharp_entry" where
  "created a e = e\<lparr>ae_ipaddr := a, ae_ctime := 0\<rparr>"

lemma created_simps [simp]: "ae_q (created a e) = ae_q e" "ae_state (created a e) = ae_state e" "in_use (created a e) = in_use e"
  "ae_ipaddr (created a e) = a" "ae_ctime (created a e) = 0" "is_stable (created a e) = is_stable e"
  by (simp_all add: created_def in_use_def is_stable_def)

text \<open>
  What \<open>find_entry\<close> promises, on the table \<open>t\<close>: the entry in use for the address; or nothing when
  only searching; or the first empty entry; or nothing when not allowed to recycle; or the entry
  whose loss does least harm, emptied.  A new entry has the address and age 0.
\<close>

definition found_entry :: "u32 \<Rightarrow> u8 \<Rightarrow> etharp_entry list \<Rightarrow> int \<Rightarrow> etharp_entry list \<Rightarrow> bool" where
  "found_entry a flags t i t' \<longleftrightarrow>
     (if \<exists>e\<in>set t. in_use e \<and> ae_ipaddr e = a
      then t' = t \<and> 0 \<le> i \<and> nat i < length t \<and> in_use (t ! nat i) \<and> ae_ipaddr (t ! nat i) = a
      else if flags AND ETHARP_FLAG_FIND_ONLY \<noteq> 0 then i = ERR_MEM \<and> t' = t
      else if \<exists>e\<in>set t. \<not> in_use e then 0 \<le> i \<and> first_empty t (nat i) \<and> t' = t[nat i := created a (t ! nat i)]
      else if flags AND ETHARP_FLAG_TRY_HARD = 0 then i = ERR_MEM \<and> t' = t
      else 0 \<le> i \<and> t' = t[nat i := created a (emptied (t ! nat i))] \<and>
           (if \<exists>e\<in>set t. is_stable e then oldest is_stable t (nat i)
            else if \<exists>e\<in>set t. queueless e then oldest queueless t (nat i)
            else oldest with_queue t (nat i)))"

definition holds_entry :: "u32 \<Rightarrow> etharp_entry list \<Rightarrow> nat \<Rightarrow> bool" where
  "holds_entry a t i \<longleftrightarrow> i < ARP_TABLE_SIZE \<and> ae_ipaddr (t ! i) = a \<and>
     (in_use (t ! i) \<or> ae_ctime (t ! i) = 0 \<and> (\<forall>x\<in>set t. in_use x \<longrightarrow> ae_ipaddr x \<noteq> a))"

lemma swept_least:
  assumes "swept t c" "length t = ARP_TABLE_SIZE" "\<forall>e\<in>set t. in_use e"
  obtains i where "least_destructive c = Some i" "i < ARP_TABLE_SIZE"
    "if \<exists>e\<in>set t. is_stable e then oldest is_stable t i
     else if \<exists>e\<in>set t. queueless e then oldest queueless t i else oldest with_queue t i"
proof -
  have c: "candidate queueless t (c_old_pending c) (c_age_pending c)" "candidate with_queue t (c_old_queue c) (c_age_queue c)"
    "candidate is_stable t (c_old_stable c) (c_age_stable c)" using assms(1) by (simp_all add: swept_def)
  have lt: "(if \<exists>e\<in>set t. P e then oldest P t i \<and> i < ARP_TABLE_SIZE else i = ARP_TABLE_SIZE)" if "candidate P t i age" for P i age
    using that assms(2) by (cases "\<exists>e\<in>set t. P e") (auto simp: candidate_def oldest_def)
  obtain e where e: "e \<in> set t" using assms(2) by (cases t) (auto simp: ARP_TABLE_SIZE_def)
  then have "is_stable e \<or> queueless e \<or> with_queue e" using assms(3) by (auto simp: in_use_cases queueless_def with_queue_def)
  then have some: "(\<exists>e\<in>set t. is_stable e) \<or> (\<exists>e\<in>set t. queueless e) \<or> (\<exists>e\<in>set t. with_queue e)" using e by blast
  show thesis
    using lt [OF c(1)] lt [OF c(2)] lt [OF c(3)] some that by (auto simp: least_destructive_def split: if_splits)
qed

lemma first_empty_lt: "first_empty t i \<Longrightarrow> length t = ARP_TABLE_SIZE \<Longrightarrow> \<exists>e\<in>set t. \<not> in_use e \<Longrightarrow> i < ARP_TABLE_SIZE \<and> \<not> in_use (t ! i)"
  by (simp add: first_empty_def)

lemma table_wf_created: "table_wf nif t \<Longrightarrow> i < ARP_TABLE_SIZE \<Longrightarrow> \<not> in_use (t ! i) \<Longrightarrow> table_wf nif (t[i := created a (t ! i)])"
  using table_wf_entry [of nif t i] by (intro table_wf_update) (auto simp: in_use_def)

text \<open>Marking the entry for an address stable or pending keeps the table well formed.\<close>

lemma table_wf_mark:
  assumes "table_wf nif t" "holds_entry a t i" "entry_wf nif e" "ae_ipaddr e = a"
  shows "table_wf nif (t[i := e])"
  using assms by (intro table_wf_update) (auto simp: holds_entry_def)

context arp_heap
begin

lemma created_ok:
  assumes "arp_ok owns nif X A" "i < ARP_TABLE_SIZE" "\<not> in_use (arp_table A ! i)"
  shows "arp_ok owns nif X (upd_entry i (created a) A)"
proof -
  have "map ae_q ((arp_table A)[i := created a (arp_table A ! i)]) = map ae_q (arp_table A)" by (rule same_queues) simp
  then show ?thesis using assms table_wf_created [of nif "arp_table A" i a] by (simp add: arp_ok_def upd_entry_def queued_def)
qed

lemma queued_created: "queued (upd_entry i (created a) A) = queued A"
  by (simp add: queued_def upd_entry_def same_queues)

lemma find_entry_spec:
  assumes "arp_ok owns nif X A"
  shows "runs (find_entry env (Some a) flags A) (\<lambda>(i, A'). arp_ok owns nif X A' \<and>
    leaves (X \<union> aq_p ` set (queued A')) (arp_store A) (arp_store A') \<and> set (queued A') \<subseteq> set (queued A) \<and> found_entry a flags (arp_table A) i (arp_table A') \<and> etharp_cached_entry A' = etharp_cached_entry A \<and>
    pb_mem (arp_store A') = pb_mem (arp_store A))"
proof -
  let ?t = "arp_table A"
  note D = arp_okD [OF assms]
  from D(2) show ?thesis
  proof (cases rule: sweep_table [of ?t "Some a"])
    case (found i)
    then have "\<exists>e\<in>set ?t. in_use e \<and> ae_ipaddr e = a" using D(2) nth_mem [of i ?t] by auto
    then show ?thesis using found assms D(2) by (simp add: find_entry_def found_entry_def)
  next
    case (missing c)
    then have no: "\<not> (\<exists>e\<in>set ?t. in_use e \<and> ae_ipaddr e = a)" by auto
    have fe: "first_empty ?t (c_empty c)" using missing(2) by (simp add: swept_def)
    have step: "(\<lambda>e. e\<lparr>ae_ipaddr := (case Some a of None \<Rightarrow> ae_ipaddr e | Some a \<Rightarrow> a), ae_ctime := 0\<rparr>) = created a"
      by (simp add: created_def fun_eq_iff)
    show ?thesis
    proof (cases "flags AND ETHARP_FLAG_FIND_ONLY \<noteq> 0")
      case True
      then show ?thesis using missing no assms by (auto simp: find_entry_def found_entry_def)
    next
      case create: False
      show ?thesis
      proof (cases "\<exists>e\<in>set ?t. \<not> in_use e")
        case True
        then have i: "c_empty c < ARP_TABLE_SIZE" "\<not> in_use (?t ! c_empty c)" using first_empty_lt [OF fe D(2)] by simp_all
        have "find_entry env (Some a) flags A = Some (int (c_empty c), upd_entry (c_empty c) (created a) A)"
          using create missing(1) i(1) step by (simp add: find_entry_def Let_def)
        then show ?thesis using create no True fe created_ok [OF assms i]
queued_created [of "c_empty c" a A]
          by (auto simp: found_entry_def upd_entry_def)
      next
        case full: False
        then have e: "c_empty c = ARP_TABLE_SIZE" using fe by (simp add: first_empty_def)
        show ?thesis
        proof (cases "flags AND ETHARP_FLAG_TRY_HARD = 0")
          case True
          then show ?thesis using create missing no e full assms by (auto simp: find_entry_def found_entry_def)
        next
          case hard: False
          obtain i where i: "least_destructive c = Some i" "i < ARP_TABLE_SIZE"
            "if \<exists>e\<in>set ?t. is_stable e then oldest is_stable ?t i
             else if \<exists>e\<in>set ?t. queueless e then oldest queueless ?t i else oldest with_queue ?t i"
            by (rule swept_least [OF missing(2) D(2)]) (use full in auto)
          have eq: "find_entry env (Some a) flags A = Option.bind (free_entry env i A) (\<lambda>A. Some (int i, upd_entry i (created a) A))"
            using create missing(1) e hard i(1) step by (simp add: find_entry_def Let_def)
          have "runs (free_entry env i A) (\<lambda>A'. arp_ok owns nif X A' \<and> leaves (X \<union> aq_p ` set (queued A')) (arp_store A) (arp_store A') \<and>
              A' = A\<lparr>arp_table := ?t[i := emptied (?t ! i)], arp_store := arp_store A'\<rparr> \<and> pb_mem (arp_store A') = pb_mem (arp_store A))"
            by (rule free_entry_runs [OF table_wf_emptied [OF D(1) i(2)] i(2) D(3,4)])
          then show ?thesis
            unfolding eq
          proof (rule runs_bindI, elim conjE)
            fix A1
            assume ok: "arp_ok owns nif X A1" and le: "leaves (X \<union> aq_p ` set (queued A1)) (arp_store A) (arp_store A1)" and mem: "pb_mem (arp_store A1) = pb_mem (arp_store A)"
              and A1: "A1 = A\<lparr>arp_table := ?t[i := emptied (?t ! i)], arp_store := arp_store A1\<rparr>"
            have tb: "arp_table A1 = ?t[i := emptied (?t ! i)]" "etharp_cached_entry A1 = etharp_cached_entry A" by (subst A1, simp)+
            have sub: "set (queued A1) \<subseteq> set (queued A)"
              using i(2) D(2) set_update_subset_insert [of ?t i "emptied (?t ! i)"] by (fastforce simp: queued_def tb)
            have at: "arp_table A1 ! i = emptied (?t ! i)" using i(2) D(2) by (simp add: tb)
            have "arp_ok owns nif X (upd_entry i (created a) A1)" by (rule created_ok [OF ok i(2)]) (simp add: at)
            moreover have "found_entry a flags ?t (int i) (arp_table (upd_entry i (created a) A1))"
              using create no full hard i(3) i(2) D(2) by (auto simp: found_entry_def upd_entry_def at tb)
            ultimately show "runs (Some (int i, upd_entry i (created a) A1)) (\<lambda>(i, A'). arp_ok owns nif X A' \<and>
                leaves (X \<union> aq_p ` set (queued A')) (arp_store A) (arp_store A') \<and> set (queued A') \<subseteq> set (queued A) \<and> found_entry a flags ?t i (arp_table A') \<and>
                etharp_cached_entry A' = etharp_cached_entry A \<and> pb_mem (arp_store A') = pb_mem (arp_store A))"
              using le mem tb(2) sub by (simp add: queued_created) (simp add: upd_entry_def)
          qed
        qed
      qed
    qed
  qed
qed

lemma found_entry_holds:
  assumes "found_entry a flags t i t'" "length t = ARP_TABLE_SIZE" "one_per_address t"
  shows "i = ERR_MEM \<or> 0 \<le> i \<and> holds_entry a t' (nat i)"
proof -
  have new: "holds_entry a (t[k := created a e]) k" if "k < ARP_TABLE_SIZE" "\<not> in_use e" "\<not> (\<exists>x\<in>set t. in_use x \<and> ae_ipaddr x = a)" for k e
  proof -
    have "x = created a e \<or> x \<in> set t" if "x \<in> set (t[k := created a e])" for x
      using that set_update_subset_insert [of t k "created a e"] by blast
    moreover have "\<not> in_use (created a e)" using that(2) by simp
    ultimately have "\<forall>x\<in>set (t[k := created a e]). in_use x \<longrightarrow> ae_ipaddr x \<noteq> a" using that(3) by metis
    then show ?thesis using that(1) assms(2) by (simp add: holds_entry_def)
  qed
  consider "\<exists>e\<in>set t. in_use e \<and> ae_ipaddr e = a" | "i = ERR_MEM"
    | "\<not> (\<exists>e\<in>set t. in_use e \<and> ae_ipaddr e = a)" "0 \<le> i" "nat i < ARP_TABLE_SIZE" "\<not> in_use (t ! nat i)" "t' = t[nat i := created a (t ! nat i)]"
    | "\<not> (\<exists>e\<in>set t. in_use e \<and> ae_ipaddr e = a)" "0 \<le> i" "nat i < ARP_TABLE_SIZE" "t' = t[nat i := created a (emptied (t ! nat i))]"
    using assms(1,2) unfolding found_entry_def by (auto simp: first_empty_def oldest_def split: if_splits)
  then show ?thesis
  proof cases
    case 1
    then show ?thesis using assms(1,2) by (simp add: found_entry_def holds_entry_def)
  qed (use new in auto)
qed

lemma find_entry_runs:
  assumes "arp_ok owns nif X A"
  shows "runs (find_entry env (Some a) flags A) (\<lambda>(i, A'). arp_ok owns nif X A' \<and> leaves X (arp_store A) (arp_store A') \<and>
    pb_mem (arp_store A') = pb_mem (arp_store A) \<and> (i = ERR_MEM \<or> 0 \<le> i \<and> holds_entry a (arp_table A') (nat i)))"
proof (rule runs_mono [OF find_entry_spec [OF assms]])
  fix r assume r: "case r of (i, A') \<Rightarrow> arp_ok owns nif X A' \<and> leaves (X \<union> aq_p ` set (queued A')) (arp_store A) (arp_store A') \<and>
    set (queued A') \<subseteq> set (queued A) \<and> found_entry a flags (arp_table A) i (arp_table A') \<and>
    etharp_cached_entry A' = etharp_cached_entry A \<and> pb_mem (arp_store A') = pb_mem (arp_store A)"
  then show "case r of (i, A') \<Rightarrow> arp_ok owns nif X A' \<and> leaves X (arp_store A) (arp_store A') \<and>
    pb_mem (arp_store A') = pb_mem (arp_store A) \<and> (i = ERR_MEM \<or> 0 \<le> i \<and> holds_entry a (arp_table A') (nat i))"
    using found_entry_holds [of a flags "arp_table A" "fst r" "arp_table (snd r)"] arp_okD(2,5) [OF assms]
    by (auto simp: leaves_def)
qed

end

section \<open>Learning an address\<close>

context arp_world
begin

lemma send_queue_runs:
  "ae_q (arp_table A ! i) = qs \<Longrightarrow> i < length (arp_table A) \<Longrightarrow> queue_ok owns X (qs @ Q) (arp_store A) \<Longrightarrow>
   runs (send_queue env nif i ethaddr qs A) (\<lambda>A'. queue_ok owns X Q (arp_store A') \<and> leaves X (arp_store A) (arp_store A') \<and>
     A' = A\<lparr>arp_table := (arp_table A)[i := (arp_table A ! i)\<lparr>ae_q := []\<rparr>], arp_store := arp_store A'\<rparr>)"
proof (induction qs arbitrary: A)
  case Nil
  then have "(arp_table A)[i := (arp_table A ! i)\<lparr>ae_q := []\<rparr>] = arp_table A"
    by (cases "arp_table A ! i") (simp add: list_update_same_conv)
  then show ?case using Nil by simp
next
  case (Cons q qs)
  let ?S = "(arp_store A)\<lparr>pb_heap := mem_free (heap_env env) (aq_at q) (pb_heap (arp_store A))\<rparr>"
  let ?A1 = "\<lambda>S. A\<lparr>arp_table := (arp_table A)[i := (arp_table A ! i)\<lparr>ae_q := qs\<rparr>], arp_store := S\<rparr>"
  have q0: "queue_ok owns X (q # qs @ Q) (arp_store A)" using Cons.prems(3) by simp
  have nX: "aq_p q \<notin> X" and sg: "single (arp_store A) (aq_p q)" using q0 by (auto simp: queue_ok_def waiting_single)
  have q1: "queue_ok owns (insert (aq_p q) X) (qs @ Q) ?S" by (rule entry_free [OF q0])
  obtain b where b: "live (aq_p q) ?S = Some b" using sg by (auto simp: single_def split: option.splits)
  have eq: "send_queue env nif i ethaddr (q # qs) A =
      Option.bind (etharp_send_ip env (aq_p q) (nif_hwaddr nif) ethaddr ?S)
        (\<lambda>(err, S). Option.bind (pbuf_free (heap_env env) (aq_p q) S) (\<lambda>(n, S). send_queue env nif i ethaddr qs (?A1 S)))"
    by (simp add: upd_entry_def Let_def)
  show ?case
    unfolding eq
  proof (rule runs_bindI [OF send_ip_runs [OF q1 b]], clarify)
    fix e S1 assume S1: "queue_ok owns (insert (aq_p q) X) (qs @ Q) S1" "\<forall>x. live x S1 = live x ?S"
    have s1: "single S1 (aq_p q)" using sg S1(2) by (simp add: single_def)
    show "runs (Option.bind (pbuf_free (heap_env env) (aq_p q) S1) (\<lambda>(n, S). send_queue env nif i ethaddr qs (?A1 S)))
      (\<lambda>A'. queue_ok owns X Q (arp_store A') \<and> leaves X (arp_store A) (arp_store A') \<and>
        A' = A\<lparr>arp_table := (arp_table A)[i := (arp_table A ! i)\<lparr>ae_q := []\<rparr>], arp_store := arp_store A'\<rparr>)"
    proof (rule runs_bindI [OF single_free [OF S1(1) s1 insertI1]], clarify)
      fix n S2 assume S2: "queue_ok owns (insert (aq_p q) X - {aq_p q}) (qs @ Q) S2"
        "leaves (insert (aq_p q) X - {aq_p q} \<union> aq_p ` set (qs @ Q)) S1 S2"
      have X: "insert (aq_p q) X - {aq_p q} = X" using nX by auto
      have le: "leaves X (arp_store A) S2" using S1(2) S2(2) unfolding X by (auto simp: leaves_def)
      have "runs (send_queue env nif i ethaddr qs (?A1 S2)) (\<lambda>A'. queue_ok owns X Q (arp_store A') \<and> leaves X (arp_store (?A1 S2)) (arp_store A') \<and>
        A' = (?A1 S2)\<lparr>arp_table := (arp_table (?A1 S2))[i := (arp_table (?A1 S2) ! i)\<lparr>ae_q := []\<rparr>], arp_store := arp_store A'\<rparr>)"
        by (rule Cons.IH) (use Cons.prems(2) S2(1) X in simp_all)
      then show "runs (send_queue env nif i ethaddr qs (?A1 S2)) (\<lambda>A'. queue_ok owns X Q (arp_store A') \<and> leaves X (arp_store A) (arp_store A') \<and>
          A' = A\<lparr>arp_table := (arp_table A)[i := (arp_table A ! i)\<lparr>ae_q := []\<rparr>], arp_store := arp_store A'\<rparr>)"
        by (rule runs_mono) (use le Cons.prems(2) in \<open>auto intro: leaves_trans\<close>)
    qed
  qed
qed

lemma update_runs:
  assumes "arp_ok owns nif X A" "length ethaddr = ETHARP_HWADDR_LEN"
  shows "runs (update_arp_entry env nif a ethaddr flags A) (\<lambda>(e, A'). arp_ok owns nif X A' \<and> leaves X (arp_store A) (arp_store A'))"
proof (cases "unicast nif a")
  case False
  then show ?thesis using assms by (auto simp: update_arp_entry_def unicast_def)
next
  case uni: True
  have eq: "update_arp_entry env nif a ethaddr flags A = Option.bind (find_entry env (Some a) flags A) (\<lambda>(i, A).
      if i < 0 then Some (i, A)
      else let A = upd_entry (nat i) (\<lambda>e. e\<lparr>ae_state := ETHARP_STATE_STABLE, ae_ethaddr := ethaddr, ae_ctime := 0\<rparr>) A
           in Option.bind (send_queue env nif (nat i) ethaddr (ae_q (arp_table A ! nat i)) A) (\<lambda>A. Some (ERR_OK, A)))"
    using uni unfolding update_arp_entry_def Let_def by (simp add: unicast_def)
  show ?thesis
    unfolding eq
  proof (rule runs_bindI [OF find_entry_runs [OF assms(1)]], clarify)
    fix i A1
    assume ok: "arp_ok owns nif X A1" and le: "leaves X (arp_store A) (arp_store A1)"
      and i: "i = ERR_MEM \<or> 0 \<le> i \<and> holds_entry a (arp_table A1) (nat i)"
    note D = arp_okD [OF ok]
    show "runs (if i < 0 then Some (i, A1)
        else let A = upd_entry (nat i) (\<lambda>e. e\<lparr>ae_state := ETHARP_STATE_STABLE, ae_ethaddr := ethaddr, ae_ctime := 0\<rparr>) A1
             in Option.bind (send_queue env nif (nat i) ethaddr (ae_q (arp_table A ! nat i)) A) (\<lambda>A. Some (ERR_OK, A)))
       (\<lambda>(e, A'). arp_ok owns nif X A' \<and> leaves X (arp_store A) (arp_store A'))"
    proof (cases "i < 0")
      case True
      then show ?thesis using ok le by simp
    next
      case False
      then have h: "holds_entry a (arp_table A1) (nat i)" "nat i < length (arp_table A1)" using i D(2) by (auto simp: ERR_MEM_def holds_entry_def)
      let ?k = "nat i"
      let ?e = "(arp_table A1 ! ?k)\<lparr>ae_state := ETHARP_STATE_STABLE, ae_ethaddr := ethaddr, ae_ctime := 0\<rparr>"
      let ?A2 = "A1\<lparr>arp_table := (arp_table A1)[?k := ?e]\<rparr>"
      have st: "is_stable (?e\<lparr>ae_q := []\<rparr>)" by (simp add: is_stable_def)
      have wf: "table_wf nif ((arp_table A1)[?k := ?e\<lparr>ae_q := []\<rparr>])"
        by (rule table_wf_mark [OF D(1) h(1)]) (use h(1) uni assms(2) st in \<open>simp_all add: entry_wf_stable holds_entry_def ARP_MAXAGE_def\<close>)
      have m: "mset (queued A1) = mset (ae_q (arp_table A1 ! ?k) @ concat (map ae_q ((arp_table A1)[?k := ?e\<lparr>ae_q := []\<rparr>])))"
        unfolding queued_def by (rule other_queues [OF h(2)]) simp
      have "queue_ok owns X (ae_q (arp_table ?A2 ! ?k) @ concat (map ae_q ((arp_table A1)[?k := ?e\<lparr>ae_q := []\<rparr>]))) (arp_store ?A2)"
        using D(4) h(2) by (simp add: queue_ok_mset [OF m])
      from send_queue_runs [OF refl _ this, of ethaddr] h(2)
      have r: "runs (send_queue env nif ?k ethaddr (ae_q (arp_table ?A2 ! ?k)) ?A2) (\<lambda>A'.
          queue_ok owns X (concat (map ae_q ((arp_table A1)[?k := ?e\<lparr>ae_q := []\<rparr>]))) (arp_store A') \<and> leaves X (arp_store ?A2) (arp_store A') \<and>
          A' = ?A2\<lparr>arp_table := (arp_table ?A2)[?k := (arp_table ?A2 ! ?k)\<lparr>ae_q := []\<rparr>], arp_store := arp_store A'\<rparr>)" by simp
      have "runs (Option.bind (send_queue env nif ?k ethaddr (ae_q (arp_table ?A2 ! ?k)) ?A2) (\<lambda>A. Some (ERR_OK, A)))
         (\<lambda>(e, A'). arp_ok owns nif X A' \<and> leaves X (arp_store A) (arp_store A'))"
      proof (rule runs_bindI [OF r], elim conjE)
        fix A3
        assume q: "queue_ok owns X (concat (map ae_q ((arp_table A1)[?k := ?e\<lparr>ae_q := []\<rparr>]))) (arp_store A3)"
          and le3: "leaves X (arp_store ?A2) (arp_store A3)"
          and A3: "A3 = ?A2\<lparr>arp_table := (arp_table ?A2)[?k := (arp_table ?A2 ! ?k)\<lparr>ae_q := []\<rparr>], arp_store := arp_store A3\<rparr>"
        have "arp_table A3 = (arp_table A1)[?k := ?e\<lparr>ae_q := []\<rparr>]" "etharp_cached_entry A3 = etharp_cached_entry A1"
          using h(2) by (subst A3, simp)+
        then have "arp_ok owns nif X A3" using wf D(3) q by (simp add: arp_ok_def queued_def)
        then show "runs (Some (ERR_OK, A3)) (\<lambda>(e, A'). arp_ok owns nif X A' \<and> leaves X (arp_store A) (arp_store A'))"
          using le le3 by (auto intro: leaves_trans)
      qed
      then show ?thesis using False by (simp add: upd_entry_def Let_def)
    qed
  qed
qed

end

end
