(* ===== verification/EtharpPackets.thy ===== *)
theory EtharpPackets
  imports EtharpCalls
begin

text \<open>
  Received packets and packets to send, on the heap: every one of these entry points returns,
  and what it consumes, keeps and leaves alone.
\<close>

definition kept :: "((nat \<rightharpoonup> nat) \<Rightarrow> 'h \<Rightarrow> bool) \<Rightarrow> 'n netif_scheme \<Rightarrow> nat set \<Rightarrow> 'h arp_state \<Rightarrow> 'h arp_state \<Rightarrow> bool" where
  "kept owns nif X A A' \<longleftrightarrow> arp_ok owns nif X A' \<and> leaves X (arp_store A) (arp_store A')"

lemma kept_trans: "leaves X (arp_store A) (arp_store A1) \<Longrightarrow> kept owns nif X A1 A' \<Longrightarrow> kept owns nif X A A'"
  by (auto simp: kept_def intro: leaves_trans)

lemma arp_ok_store:
  assumes "arp_ok owns nif X0 A" "queue_ok owns X (queued A) S"
  shows "arp_ok owns nif X (A\<lparr>arp_store := S\<rparr>)"
  using assms by (simp add: arp_ok_def queued_def)

lemma guest_live:
  assumes "guest S p xs"
  obtains b ys where "xs = p # ys" "p \<noteq> 0" "live p S = Some b" "packet S (pb_next b) ys" "unat (pb_tot_len b) = length (flat S xs)"
    "length (data_of S p) = unat (pb_len b)" "pb_len b \<noteq> 0" "chain S p xs"
proof -
  have g: "packet S p xs" "xs \<noteq> []" "\<forall>x\<in>set xs. data_of S x \<noteq> []" using assms by (simp_all add: guest_def full_packet_def)
  then obtain x ys where xs: "xs = x # ys" by (cases xs) auto
  obtain b where b: "p = x" "x \<noteq> 0" "live x S = Some b" "packet S (pb_next b) ys" "unat (pb_tot_len b) = length (flat S xs)"
    "length (data_of S x) = unat (pb_len b)" using g(1) unfolding xs by (rule packet_ConsD)
  have "pb_len b \<noteq> 0" using g(3) b(6) xs by auto
  then show thesis using b xs packet_chain [OF g(1)] by (intro that [of ys b]) simp_all
qed

lemma guest_mem [simp]: "guest (S\<lparr>pb_mem := m\<rparr>) p xs = guest S p xs"
  by (simp add: guest_def full_packet_def ref_of_def)

text \<open>Moving the payload of the first structure keeps the packet a packet.\<close>

lemma guest_header:
  assumes "guest S p xs" "live p S = Some b" "0 < unat len" "unat tot = unat len + (unat (pb_tot_len b) - unat (pb_len b))"
  shows "guest (put p (b\<lparr>pb_payload := a, pb_len := len, pb_tot_len := tot\<rparr>) S) p xs"
proof -
  obtain b' ys where "xs = p # ys" "p \<noteq> 0" "live p S = Some b'" "packet S (pb_next b') ys" "unat (pb_tot_len b') = length (flat S xs)"
    "length (data_of S p) = unat (pb_len b')" "chain S p xs" using assms(1) by (rule guest_live)
  then have g: "xs = p # ys" "p \<noteq> 0" "packet S (pb_next b) ys" "unat (pb_tot_len b) = length (flat S xs)"
    "length (data_of S p) = unat (pb_len b)" "p \<notin> set ys" using assms(2) chain_distinct [of S p xs] by auto
  let ?S = "put p (b\<lparr>pb_payload := a, pb_len := len, pb_tot_len := tot\<rparr>) S"
  have other: "data_of ?S x = data_of S x" if "x \<noteq> p" for x using that by (simp add: data_of_def split: option.split)
  have same: "live x ?S = live x S" if "x \<in> set ys" for x using that g(6) by auto
  have ys: "packet ?S (pb_next b) ys" using packet_cong [of ys ?S S] same g(3) by simp
  have fl: "flat ?S ys = flat S ys" by (rule flat_cong, rule other) (use g(6) in auto)
  have len: "length (data_of ?S p) = unat len" using g(2) by (simp add: data_of_def)
  have "packet ?S p xs" using g ys len fl assms(4) by simp
  moreover have "data_of ?S x \<noteq> []" if "x \<in> set xs" for x
    using that len assms(1,3) other [of x] by (cases "x = p") (auto simp: guest_def full_packet_def)
  moreover have "ref_of ?S x = ref_of S x" for x using assms(2) g(2) by (auto simp: ref_of_def split: option.split)
  ultimately show ?thesis using assms(1) by (simp add: guest_def full_packet_def)
qed

context arp_heap
begin

lemma on_store_runs:
  assumes "arp_ok owns nif X0 A" "runs (f (arp_store A)) (\<lambda>(r, S). queue_ok owns X (queued A) S \<and> leaves Y (arp_store A) S \<and> P r S)"
  shows "runs (on_store f A) (\<lambda>(r, A'). arp_ok owns nif X A' \<and> leaves Y (arp_store A) (arp_store A') \<and> P r (arp_store A') \<and>
    arp_table A' = arp_table A \<and> etharp_cached_entry A' = etharp_cached_entry A)"
  unfolding on_store_def runs_map
  by (rule runs_mono [OF assms(2)]) (use arp_ok_store [OF assms(1)] in auto)

lemma drop_packet_runs:
  assumes "arp_ok owns nif X A" "guest (arp_store A) p xs" "set xs \<subseteq> X"
  shows "runs (drop_packet env p A) (kept owns nif (X - set xs) A)"
proof -
  have "runs (pbuf_free (heap_env env) p (arp_store A)) (\<lambda>(n, S). queue_ok owns (X - set xs) (queued A) S \<and>
      leaves (X - set xs) (arp_store A) S \<and> True)"
    by (rule runs_mono [OF guest_free [OF arp_okD(4) [OF assms(1)], of p xs]])
      (use guest_chain [OF assms(2)] assms(3) in \<open>auto intro: leaves_subset\<close>)
  from on_store_runs [where f = "pbuf_free (heap_env env) p" and P = "\<lambda>_ _. True", OF assms(1) this] show ?thesis
    unfolding drop_packet_def runs_map by (rule runs_mono) (auto simp: kept_def)
qed

end

context arp_world
begin

lemma ip_input_runs:
  assumes "arp_ok owns nif X A" "live p (arp_store A) = Some b"
  shows "runs (etharp_ip_input env nif p A) (kept owns nif X A)"
proof -
  have "runs (update_arp_entry env nif a (mem_bytes m x ETHARP_HWADDR_LEN) flags A) (\<lambda>(e, A'). kept owns nif X A A')" for a m x flags
    unfolding kept_def by (rule update_runs [OF assms(1)]) simp
  then have u: "runs (update_arp_entry env nif a (mem_bytes m x ETHARP_HWADDR_LEN) flags A) (\<lambda>r. kept owns nif X A (snd r))" for a m x flags
    by (rule runs_mono) auto
  show ?thesis using assms u by (simp add: etharp_ip_input_def Let_def kept_def)
qed

lemma reply_runs:
  assumes "queue_ok owns X Q S" "guest S p xs" "set xs \<subseteq> X"
  shows "runs (send_arp_reply env nif p S) (\<lambda>(u, S'). queue_ok owns X Q S' \<and> leaves X S S')"
proof -
  obtain b ys where b: "live p S = Some b" "unat (pb_tot_len b) = length (flat S xs)" "chain S p xs" using assms(2) by (rule guest_live)
  define S1 where "S1 = S\<lparr>pb_mem := arp_reply_in_place nif (pb_payload b) (pb_mem S)\<rparr>"
  have q1: "queue_ok owns X Q S1" and g1: "guest S1 p xs" and l1: "live x S1 = live x S" for x
    using assms by (simp_all add: S1_def)
  have rest: "runs (case linkoutput env q S2 of (err, S) \<Rightarrow> Option.bind (pbuf_free (heap_env env) q S) (\<lambda>(n, S). Some ((), S)))
      (\<lambda>(u, S'). queue_ok owns X Q S' \<and> leaves X S S')"
    if "leaves X S S2" "if q = 0 then queue_ok owns X Q S2 else q \<notin> X \<and> queue_ok owns (insert q X) Q S2 \<and> single S2 q" for q S2
  proof -
    obtain e S3 where l: "linkoutput env q S2 = (e, S3)" by (cases "linkoutput env q S2")
    show ?thesis
    proof (cases "q = 0")
      case True
      then show ?thesis using that link_runs [OF _ l] pbuf_free_null l by (auto intro: leaves_trans)
    next
      case False
      then have q2: "queue_ok owns (insert q X) Q S2" "q \<notin> X" using that by simp_all
      note L = link_runs [OF q2(1) l]
      have s3: "single S3 q" using False that(2) L(3) by (simp add: single_def)
      have X: "insert q X - {q} = X" using q2(2) by auto
      have "leaves X S S3" using that(1) L(3) by (auto simp: leaves_def)
      then show ?thesis
        unfolding l prod.case
        by (intro runs_bindI [OF single_free [OF L(1) s3 insertI1]]) (auto simp: X leaves_def)
    qed
  qed
  have eq: "send_arp_reply env nif p S = Option.bind (pbuf_alloc (heap_env env) PBUF_RAW (pb_tot_len b) PBUF_RAM S1) (\<lambda>(q, S).
      Option.bind (if q \<noteq> 0 then map_option snd (pbuf_copy q p S) else Some S) (\<lambda>S.
        case linkoutput env q S of (err, S) \<Rightarrow> Option.bind (pbuf_free (heap_env env) q S) (\<lambda>(n, S). Some ((), S))))"
    by (simp add: send_arp_reply_def b(1) S1_def Let_def)
  show ?thesis
    unfolding eq
  proof (rule runs_bindI [OF alloc_runs [OF q1]], clarify)
    fix q S2
    assume le: "leaves (X \<union> aq_p ` set Q) S1 S2" and q: "if q = 0 then queue_ok owns X Q S2
       else q \<notin> X \<union> aq_p ` set Q \<and> queue_ok owns (insert q X) Q S2 \<and> single S2 q \<and>
         (\<exists>c. live q S2 = Some c \<and> pb_next c = 0 \<and> pb_len c = pb_tot_len b \<and> pb_tot_len c = pb_tot_len b \<and>
            pb_payload c = q + SIZEOF_STRUCT_PBUF + LWIP_MEM_ALIGN_SIZE (header_offset PBUF_RAW))"
    have leX: "leaves X S S2" using leaves_subset [OF le, of X] l1 by (simp add: leaves_def)
    show "runs (Option.bind (if q \<noteq> 0 then map_option snd (pbuf_copy q p S2) else Some S2) (\<lambda>S.
        case linkoutput env q S of (err, S) \<Rightarrow> Option.bind (pbuf_free (heap_env env) q S) (\<lambda>(n, S). Some ((), S))))
       (\<lambda>(u, S'). queue_ok owns X Q S' \<and> leaves X S S')"
    proof (cases "q = 0")
      case True
      then show ?thesis using rest [OF leX, of q] q by simp
    next
      case False
      then obtain c where c: "live q S2 = Some c" "pb_next c = 0" "pb_len c = pb_tot_len b" "pb_tot_len c = pb_tot_len b" using q by auto
      have g2: "guest S2 p xs" using g1 guest_cong [OF leaves_subset [OF le]] assms(3) by blast
      have "length (flat S2 xs) = length (flat S xs)"
      proof -
        have "\<forall>x\<in>set xs. length (data_of S2 x) = length (data_of S x)"
          using leX assms(3) by (auto simp: leaves_def data_of_def split: option.split)
        then show ?thesis by (induction xs) simp_all
      qed
      then have "unat (pb_len c) = length (flat S2 xs)" using c(3) b(2) by simp
      moreover have "full_packet S2 p xs" using g2 by (simp add: guest_def)
      ultimately obtain m where m: "pbuf_copy q p S2 = Some (ERR_OK, S2\<lparr>pb_mem := m\<rparr>)"
        using pbuf_copy_one [of S2 p xs q c] c False by auto
      have "leaves X S (S2\<lparr>pb_mem := m\<rparr>)" using leX by simp
      from rest [OF this, of q] q False show ?thesis by (simp add: m single_def)
    qed
  qed
qed

lemma arp_input_runs:
  assumes "arp_ok owns nif X A" "guest (arp_store A) p xs" "set xs \<subseteq> X"
  shows "runs (etharp_arp_input env nif p A) (kept owns nif (X - set xs) A)"
proof -
  obtain b where b: "live p (arp_store A) = Some b" using assms(2) by (rule guest_live)
  note drop = drop_packet_runs [OF assms]
  let ?m = "pb_mem (arp_store A)" and ?h = "pb_payload b + SIZEOF_ETH_HDR"
  let ?for_us = "if ip_addr_isany (nif_ip_addr nif) then False else load32 ?m (?h + 24) = nif_ip_addr nif"
  have cont: "runs (Option.bind (update_arp_entry env nif (load32 ?m (?h + 14)) (mem_bytes ?m (?h + 8) ETHARP_HWADDR_LEN) fl A) (\<lambda>(err, A).
      Option.bind (if load16 (pb_mem (arp_store A)) (?h + 6) = PP_HTONS ARP_REQUEST
                   then if ?for_us then map_option snd (on_store (send_arp_reply env nif p) A) else Some A
                   else if load16 (pb_mem (arp_store A)) (?h + 6) = PP_HTONS ARP_REPLY then dhcp_arp_reply env (load32 ?m (?h + 14)) A
                   else Some A) (drop_packet env p)))
    (kept owns nif (X - set xs) A)" for fl
  proof (rule runs_bindI [OF update_runs [OF assms(1)]], simp, clarify)
    fix e A1
    assume ok: "arp_ok owns nif X A1" and le: "leaves X (arp_store A) (arp_store A1)"
    have g1: "guest (arp_store A1) p xs" using assms(2) guest_cong [OF leaves_subset [OF le assms(3)]] by simp
    have "runs (send_arp_reply env nif p (arp_store A1)) (\<lambda>(u, S). queue_ok owns X (queued A1) S \<and> leaves X (arp_store A1) S \<and> True)"
      using reply_runs [OF arp_okD(4) [OF ok] g1 assms(3)] by simp
    note rep = on_store_runs [where f = "send_arp_reply env nif p" and P = "\<lambda>_ _. True", OF ok this]
    have act: "runs (if load16 (pb_mem (arp_store A1)) (?h + 6) = PP_HTONS ARP_REQUEST
                   then if ?for_us then map_option snd (on_store (send_arp_reply env nif p) A1) else Some A1
                   else if load16 (pb_mem (arp_store A1)) (?h + 6) = PP_HTONS ARP_REPLY then dhcp_arp_reply env (load32 ?m (?h + 14)) A1
                   else Some A1)
        (\<lambda>A'. arp_ok owns nif X A' \<and> leaves X (arp_store A1) (arp_store A'))"
      using ok dhcp_ok [OF ok] rep by (auto elim!: runs_mono)
    show "runs (Option.bind (if load16 (pb_mem (arp_store A1)) (?h + 6) = PP_HTONS ARP_REQUEST
                   then if ?for_us then map_option snd (on_store (send_arp_reply env nif p) A1) else Some A1
                   else if load16 (pb_mem (arp_store A1)) (?h + 6) = PP_HTONS ARP_REPLY then dhcp_arp_reply env (load32 ?m (?h + 14)) A1
                   else Some A1) (drop_packet env p))
        (kept owns nif (X - set xs) A)"
    proof (rule runs_bindI [OF act], elim conjE)
      fix A2 assume ok2: "arp_ok owns nif X A2" and le2: "leaves X (arp_store A1) (arp_store A2)"
      have le': "leaves X (arp_store A) (arp_store A2)" using le le2 by (rule leaves_trans)
      have "guest (arp_store A2) p xs" using assms(2) guest_cong [OF leaves_subset [OF le' assms(3)]] by simp
      from drop_packet_runs [OF ok2 this assms(3)] show "runs (drop_packet env p A2) (kept owns nif (X - set xs) A)"
        by (rule runs_mono) (rule kept_trans [OF leaves_subset [OF le']], auto)
    qed
  qed
  show ?thesis using drop cont unfolding etharp_arp_input_def b Let_def by simp
qed

end

section \<open>Headers\<close>

context arp_heap
begin

lemma put_ok:
  assumes "queue_ok owns X Q S" "p \<in> X" "live p S = Some b"
    "in_block b \<Longrightarrow> p \<le> a \<and> a + unat len = pb_payload b + unat (pb_len b)"
  shows "queue_ok owns X Q (put p (b\<lparr>pb_payload := a, pb_len := len, pb_tot_len := tot\<rparr>) S) \<and>
    leaves (X - {p}) S (put p (b\<lparr>pb_payload := a, pb_len := len, pb_tot_len := tot\<rparr>) S)"
proof -
  let ?b = "b\<lparr>pb_payload := a, pb_len := len, pb_tot_len := tot\<rparr>"
  have p0: "p \<noteq> 0" using assms(3) by (cases "p = 0") simp_all
  have nq: "aq_p r \<noteq> p" if "r \<in> set Q" for r using assms(1,2) that by (auto simp: queue_ok_def)
  have st: "structures (put p ?b S) = structures S" using assms(3) p0 by (auto simp: structures_def)
  have "data_in_blocks R (put p ?b S)" if "data_in_blocks R S" for R
    using that assms(3,4) p0 unfolding data_in_blocks_def by (auto simp: in_block_def)
  moreover have "store_ok owns (aq_at ` set Q) S" using assms(1) by (simp add: queue_ok_def)
  ultimately have "store_ok owns (aq_at ` set Q) (put p ?b S)" unfolding store_ok_def st mem_put by blast
  then have "queue_ok owns X Q (put p ?b S)" using assms(1) st nq by (auto simp: queue_ok_def waiting_def)
  then show ?thesis by (simp add: leaves_def)
qed

lemma header_pull:
  assumes "queue_ok owns X Q S" "guest S p xs" "set xs \<subseteq> X" "live p S = Some b" "SIZEOF_ETH_HDR < unat (pb_len b)"
  shows "runs (pbuf_header p (- of_nat SIZEOF_ETH_HDR) S) (\<lambda>(failed, S'). queue_ok owns X Q S' \<and> leaves (X - {p}) S S' \<and> guest S' p xs)"
proof -
  obtain ys b' where g: "xs = p # ys" "p \<noteq> 0" "live p S = Some b'" "unat (pb_tot_len b') = length (flat S xs)"
    "length (data_of S p) = unat (pb_len b')" using assms(2) by (rule guest_live)
  then have tot: "unat (pb_len b) \<le> unat (pb_tot_len b)" using assms(4) by simp
  let ?b = "b\<lparr>pb_payload := nat (int (pb_payload b) + 14), pb_len := pb_len b - 14, pb_tot_len := pb_tot_len b - 14\<rparr>"
  have l14: "(14 :: u16) \<le> pb_len b" "(14 :: u16) \<le> pb_tot_len b" using assms(5) tot by (simp_all add: word_le_nat_alt SIZEOF_ETH_HDR_def)
  have u: "unat (pb_len b - 14) = unat (pb_len b) - 14" "unat (pb_tot_len b - 14) = unat (pb_tot_len b) - 14"
    using l14 by (simp_all add: unat_sub)
  have bound: "14 < unat (pb_len b)" using assms(5) by (simp add: SIZEOF_ETH_HDR_def)
  have "pbuf_header p (- of_nat SIZEOF_ETH_HDR) S = Some (1, S) \<or> pbuf_header p (- of_nat SIZEOF_ETH_HDR) S = Some (0, put p ?b S)"
    using g(2) assms(4) l14(1) by (auto simp: pbuf_header_def SIZEOF_ETH_HDR_def Let_def add.commute split: pbuf_type.split)
  moreover have "guest (put p ?b S) p xs"
    by (rule guest_header [OF assms(2,4)]) (use u tot bound in simp_all)
  moreover have "queue_ok owns X Q (put p ?b S) \<and> leaves (X - {p}) S (put p ?b S)"
  proof (rule put_ok [OF assms(1) _ assms(4)])
    show "p \<in> X" using assms(3) g(1) by simp
    obtain R where R: "dom R = aq_at ` set Q \<union> structures S" "data_in_blocks R S" using assms(1) by (auto simp: queue_ok_def store_ok_def)
    then obtain n where "R p = Some n" using assms(4) by (auto simp: structures_def)
    then show "p \<le> nat (int (pb_payload b) + 14) \<and> nat (int (pb_payload b) + 14) + unat (pb_len b - 14) = pb_payload b + unat (pb_len b)"
      if "in_block b" using that R(2) assms(4) u(1) bound by (fastforce simp: data_in_blocks_def)
  qed
  ultimately show ?thesis using assms(1,2) by auto
qed

lemma header_push:
  assumes "queue_ok owns X Q S" "guest S p xs" "set xs \<subseteq> X" "live p S = Some b"
    "SIZEOF_ETH_HDR \<le> pb_payload b" "unat (pb_tot_len b) + SIZEOF_ETH_HDR < 65536"
  shows "pbuf_header p (of_nat SIZEOF_ETH_HDR) S = Some (1, S) \<or>
    (\<exists>b'. pbuf_header p (of_nat SIZEOF_ETH_HDR) S = Some (0, put p b' S) \<and> queue_ok owns X Q (put p b' S) \<and>
      leaves (X - {p}) S (put p b' S) \<and> guest (put p b' S) p xs \<and> pb_type b' \<noteq> PBUF_ROM \<and>
      b' = b\<lparr>pb_payload := pb_payload b - 14, pb_len := pb_len b + 14, pb_tot_len := pb_tot_len b + 14\<rparr>)"
proof -
  obtain ys b' where g: "xs = p # ys" "p \<noteq> 0" "live p S = Some b'" "unat (pb_tot_len b') = length (flat S xs)"
    "length (data_of S p) = unat (pb_len b')" using assms(2) by (rule guest_live)
  then have tot: "unat (pb_len b) \<le> unat (pb_tot_len b)" using assms(4) by simp
  let ?b = "b\<lparr>pb_payload := pb_payload b - 14, pb_len := pb_len b + 14, pb_tot_len := pb_tot_len b + 14\<rparr>"
  have u: "unat (pb_len b + 14) = unat (pb_len b) + 14" "unat (pb_tot_len b + 14) = unat (pb_tot_len b) + 14"
    using assms(6) tot by (simp_all add: unat_word_ariths SIZEOF_ETH_HDR_def)
  have pl: "14 \<le> pb_payload b" using assms(5) by (simp add: SIZEOF_ETH_HDR_def)
  have n: "nat (int (pb_payload b) - 14) = pb_payload b - 14" by simp
  have ok: "queue_ok owns X Q (put p ?b S) \<and> leaves (X - {p}) S (put p ?b S)" if "in_block b \<Longrightarrow> p \<le> pb_payload b - 14"
    by (rule put_ok [OF assms(1) _ assms(4)]) (use assms(3) g(1) u(1) pl that in auto)
  have "guest (put p ?b S) p xs"
    by (rule guest_header [OF assms(2,4)]) (use u tot in simp_all)
  then show ?thesis using ok g(2) assms(4) pl n
    by (cases "pb_type b") (auto simp: pbuf_header_def SIZEOF_ETH_HDR_def Let_def in_block_def not_less)
qed
end

context arp_world
begin


lemma ethernet_input_runs:
  assumes "arp_ok owns nif X A" "guest (arp_store A) p xs" "set xs \<subseteq> X"
  shows "runs (ethernet_input env nif p A) (kept owns nif (X - set xs) A)"
proof -
  obtain b ys where b: "live p (arp_store A) = Some b" "xs = p # ys" using assms(2) by (rule guest_live)
  note drop = drop_packet_runs [OF assms]
  show ?thesis
  proof (cases "pb_len b \<le> of_nat SIZEOF_ETH_HDR")
    case True
    then show ?thesis using drop b(1) by (simp add: ethernet_input_def)
  next
    case False
    then have len: "SIZEOF_ETH_HDR < unat (pb_len b)" by (simp add: word_le_nat_alt SIZEOF_ETH_HDR_def)
    have ip: "runs (Option.bind (etharp_ip_input env nif p A) (\<lambda>A. Option.bind (on_store (pbuf_header p (- of_nat SIZEOF_ETH_HDR)) A)
        (\<lambda>(failed, A). if failed \<noteq> 0 then drop_packet env p A else ip_input env p A))) (kept owns nif (X - set xs) A)"
    proof (rule runs_bindI [OF ip_input_runs [OF assms(1) b(1)]], unfold kept_def, elim conjE)
      fix A1 assume ok: "arp_ok owns nif X A1" and le: "leaves X (arp_store A) (arp_store A1)"
      have g1: "guest (arp_store A1) p xs" using assms(2) guest_cong [OF leaves_subset [OF le assms(3)]] by simp
      have "live p (arp_store A1) = Some b" using le b assms(3) by (auto simp: leaves_def)
      note h = header_pull [OF arp_okD(4) [OF ok] g1 assms(3) this len]
      show "runs (Option.bind (on_store (pbuf_header p (- of_nat SIZEOF_ETH_HDR)) A1)
          (\<lambda>(failed, A). if failed \<noteq> 0 then drop_packet env p A else ip_input env p A))
         (\<lambda>A'. arp_ok owns nif (X - set xs) A' \<and> leaves (X - set xs) (arp_store A) (arp_store A'))"
      proof (rule runs_bindI [OF on_store_runs [where f = "pbuf_header p (- of_nat SIZEOF_ETH_HDR)" and P = "\<lambda>_ S. guest S p xs", OF ok h]], clarify)
        fix f A2 assume ok2: "arp_ok owns nif X A2" and le2: "leaves (X - {p}) (arp_store A1) (arp_store A2)" and g2: "guest (arp_store A2) p xs"
        have le': "leaves (X - set xs) (arp_store A) (arp_store A2)" using le le2 b(2) by (auto simp: leaves_def)
        show "runs (if f \<noteq> 0 then drop_packet env p A2 else ip_input env p A2)
           (\<lambda>A'. arp_ok owns nif (X - set xs) A' \<and> leaves (X - set xs) (arp_store A) (arp_store A'))"
          using drop_packet_runs [OF ok2 g2 assms(3)] ip_input_ok [OF ok2 g2 assms(3)] le'
          by (auto simp: kept_def elim!: runs_mono intro: leaves_trans)
      qed
    qed
    show ?thesis
      using False b(1) drop ip arp_input_runs [OF assms] by (simp add: ethernet_input_def Let_def)
  qed
qed

end

end
