(* ===== verification/EtharpOutput.thy ===== *)
theory EtharpOutput
  imports EtharpPackets
begin

text \<open>
  Packets to send, on the heap: a packet is sent at once, or a copy of it waits for the address.
\<close>

section \<open>A resolved address\<close>

lemma table_wf_same_address:
  assumes "table_wf nif t" "i < ARP_TABLE_SIZE" "entry_wf nif e" "in_use (t ! i)" "ae_ipaddr e = ae_ipaddr (t ! i)"
  shows "table_wf nif (t[i := e])"
  using assms by (intro table_wf_update) auto

context arp_heap
begin

lemma mark_ok:
  assumes "arp_ok owns nif X A" "i < ARP_TABLE_SIZE" "entry_wf nif (f (arp_table A ! i))" "in_use (arp_table A ! i)"
    "ae_ipaddr (f (arp_table A ! i)) = ae_ipaddr (arp_table A ! i)" "ae_q (f (arp_table A ! i)) = ae_q (arp_table A ! i)"
  shows "arp_ok owns nif X (upd_entry i f A)"
proof -
  have "map ae_q ((arp_table A)[i := f (arp_table A ! i)]) = map ae_q (arp_table A)" by (rule same_queues) (rule assms(6))
  then show ?thesis using assms table_wf_same_address [of nif "arp_table A" i "f (arp_table A ! i)"] by (simp add: arp_ok_def upd_entry_def queued_def)
qed

end

context arp_world
begin

lemma send_on_store:
  assumes "arp_ok owns nif X A" "live q (arp_store A) \<noteq> None"
  shows "runs (on_store (etharp_send_ip env q src dst) A) (\<lambda>(e, A'). kept owns nif X A A')"
proof -
  obtain b where "live q (arp_store A) = Some b" using assms(2) by auto
  note s = send_ip_runs [OF arp_okD(4) [OF assms(1)] this, of src dst]
  have "runs (etharp_send_ip env q src dst (arp_store A)) (\<lambda>(e, S). queue_ok owns X (queued A) S \<and> leaves X (arp_store A) S \<and> True)"
    by (rule runs_mono [OF s]) (auto simp: leaves_def)
  from on_store_runs [where f = "etharp_send_ip env q src dst" and P = "\<lambda>_ _. True", OF assms(1) this] show ?thesis
    by (rule runs_mono) (auto simp: kept_def)
qed

lemma request_on_store:
  assumes "arp_ok owns nif X A"
  shows "runs (on_store (etharp_request env nif a) A) (\<lambda>(e, A'). kept owns nif X A A' \<and> arp_table A' = arp_table A)"
proof -
  have "runs (etharp_request env nif a (arp_store A)) (\<lambda>(e, S). queue_ok owns X (queued A) S \<and> leaves X (arp_store A) S \<and> True)"
    by (rule runs_mono [OF request_runs [OF arp_okD(4) [OF assms]]]) (auto simp: leaves_def)
  from on_store_runs [where f = "etharp_request env nif a" and P = "\<lambda>_ _. True", OF assms this] show ?thesis
    by (rule runs_mono) (auto simp: kept_def)
qed

lemma output_to_index_runs:
  assumes "arp_ok owns nif X A" "i < ARP_TABLE_SIZE" "is_stable (arp_table A ! i)" "q \<in> X" "live q (arp_store A) \<noteq> None"
  shows "runs (etharp_output_to_arp_index env nif q i A) (\<lambda>(e, A'). kept owns nif X A A')"
proof -
  let ?e = "arp_table A ! i"
  have send: "runs (on_store (etharp_send_ip env q (nif_hwaddr nif) dst) A1) (\<lambda>(e, A'). kept owns nif X A A')"
    if "kept owns nif X A A1" for A1 dst
  proof -
    have "live q (arp_store A1) \<noteq> None" using that assms(4,5) by (auto simp: kept_def leaves_def)
    with that have "runs (on_store (etharp_send_ip env q (nif_hwaddr nif) dst) A1) (\<lambda>(e, A'). kept owns nif X A1 A')"
      by (intro send_on_store) (simp_all add: kept_def)
    then show ?thesis by (rule runs_mono) (use that in \<open>auto simp: kept_def intro: leaves_trans\<close>)
  qed
  have req: "runs (Option.bind (on_store (etharp_request env nif (ae_ipaddr ?e)) A) (\<lambda>(err, A). Some (if err = ERR_OK
        then upd_entry i (\<lambda>e. e\<lparr>ae_state := ETHARP_STATE_STABLE_REREQUESTING\<rparr>) A else A))) (kept owns nif X A)"
  proof (rule runs_bindI [OF request_on_store [OF assms(1)]], clarify)
    fix err A1 assume k: "kept owns nif X A A1" and t: "arp_table A1 = arp_table A"
    have "arp_ok owns nif X (upd_entry i (\<lambda>e. e\<lparr>ae_state := ETHARP_STATE_STABLE_REREQUESTING\<rparr>) A1)"
    proof (rule mark_ok)
      show "entry_wf nif ((arp_table A1 ! i)\<lparr>ae_state := ETHARP_STATE_STABLE_REREQUESTING\<rparr>)"
        using assms(3) arp_okD(6) [OF assms(1,2)] by (simp add: t entry_wf_stable is_stable_def)
    qed (use k t assms(2,3) in \<open>auto simp: kept_def in_use_cases\<close>)
    then have "kept owns nif X A (upd_entry i (\<lambda>e. e\<lparr>ae_state := ETHARP_STATE_STABLE_REREQUESTING\<rparr>) A1)"
      using k by (simp add: kept_def upd_entry_def)
    then show "runs (Some (if err = ERR_OK then upd_entry i (\<lambda>e. e\<lparr>ae_state := ETHARP_STATE_STABLE_REREQUESTING\<rparr>) A1 else A1)) (kept owns nif X A)"
      using k by simp
  qed
  have self: "kept owns nif X A A" using assms(1) by (simp add: kept_def)
  show ?thesis
  proof (cases "ae_state ?e = ETHARP_STATE_STABLE \<and> ae_ctime ?e \<ge> ARP_AGE_REREQUEST_USED")
    case True
    then show ?thesis unfolding etharp_output_to_arp_index_def Let_def by (subst if_P [OF True]) (rule runs_bindI [OF req send])
  next
    case False
    then show ?thesis unfolding etharp_output_to_arp_index_def Let_def using send [OF self] by (subst if_not_P [OF False]) simp
  qed
qed

end

section \<open>An address to resolve\<close>

lemma find_stable_some: "find_stable a k t = Some i \<Longrightarrow> k \<le> i \<and> i < k + length t \<and> is_stable (t ! (i - k)) \<and> ae_ipaddr (t ! (i - k)) = a"
proof (induction a k t rule: find_stable.induct)
  case (2 a k e t)
  show ?case
  proof (cases "is_stable e \<and> a = ae_ipaddr e")
    case False
    then have "Suc k \<le> i \<and> i < Suc k + length t \<and> is_stable (t ! (i - Suc k)) \<and> ae_ipaddr (t ! (i - Suc k)) = a" using 2 by auto
    moreover from this have "(e # t) ! (i - k) = t ! (i - Suc k)" by (simp add: nth_Cons' Suc_diff_Suc)
    ultimately show ?thesis by auto
  qed (use 2 in auto)
qed simp

lemma find_stable_none: "find_stable a k t = None \<Longrightarrow> e \<in> set t \<Longrightarrow> is_stable e \<Longrightarrow> ae_ipaddr e \<noteq> a"
  by (induction a k t rule: find_stable.induct) (auto split: if_splits)

text \<open>The packets of entry \<open>i\<close> after a queue entry was had for the packet \<open>p\<close>: the newest three.\<close>

definition newest :: "'a list \<Rightarrow> 'a list" where
  "newest ps = (if length ps > 3 then tl ps else ps)"

definition pending :: "etharp_entry \<Rightarrow> etharp_entry" where
  "pending e = (if in_use e then e else e\<lparr>ae_state := ETHARP_STATE_PENDING\<rparr>)"

context arp_heap
begin

text \<open>The copy of a packet that will wait: one structure with the packet's bytes.\<close>

lemma take_over_runs:
  assumes "queue_ok owns X Q S" "guest S q xs" "set xs \<subseteq> X" "live q S = Some b" "pb_type b \<noteq> PBUF_ROM"
    "SIZEOF_ETH_HDR \<le> unat (pb_tot_len b)"
  shows "runs (take_over env q S) (\<lambda>(p, S'). leaves (X \<union> aq_p ` set Q) S S' \<and>
    (if p = 0 then queue_ok owns X Q S' \<and> pb_mem S' = pb_mem S
     else p \<notin> X \<union> aq_p ` set Q \<and> queue_ok owns (insert p X) Q S' \<and> waiting S' p \<and> (\<forall>a. a \<notin> extent S' p \<longrightarrow> pb_mem S' a = pb_mem S a) \<and>
       ((\<forall>x\<in>set xs. \<exists>c. live x S = Some c \<and> in_block c) \<longrightarrow> data_of S' p = flat S xs)))"
proof -
  have b: "q \<noteq> 0" "unat (pb_tot_len b) = length (flat S xs)" using guest_live [OF assms(2)] assms(4) by force+
  have "copy_needed q S = Some q" using assms(4,5) b(1) by (subst copy_needed.simps) simp
  then have eq: "take_over env q S = Option.bind (pbuf_alloc (heap_env env) PBUF_RAW (pb_tot_len b) PBUF_RAM S) (\<lambda>(p, S).
      if p \<noteq> 0 then Option.bind (pbuf_copy p q S) (\<lambda>(err, S).
        if err \<noteq> ERR_OK then Option.bind (pbuf_free (heap_env env) p S) (\<lambda>(n, S). Some (0, S)) else Some (p, S))
      else Some (p, S))"
    using assms(4) b(1) by (simp add: take_over_def)
  show ?thesis
    unfolding eq
  proof (rule runs_bindI [OF alloc_runs [OF assms(1)]], clarify)
    fix p S1
    assume le: "leaves (X \<union> aq_p ` set Q) S S1" and mem: "pb_mem S1 = pb_mem S" and p: "if p = 0 then queue_ok owns X Q S1
       else p \<notin> X \<union> aq_p ` set Q \<and> queue_ok owns (insert p X) Q S1 \<and> single S1 p \<and>
         (\<exists>c. live p S1 = Some c \<and> pb_next c = 0 \<and> pb_len c = pb_tot_len b \<and> pb_tot_len c = pb_tot_len b \<and>
            pb_payload c = p + SIZEOF_STRUCT_PBUF + LWIP_MEM_ALIGN_SIZE (header_offset PBUF_RAW))"
    show "runs (if p \<noteq> 0 then Option.bind (pbuf_copy p q S1) (\<lambda>(err, S).
          if err \<noteq> ERR_OK then Option.bind (pbuf_free (heap_env env) p S) (\<lambda>(n, S). Some (0, S)) else Some (p, S))
        else Some (p, S1))
       (\<lambda>(p, S'). leaves (X \<union> aq_p ` set Q) S S' \<and>
        (if p = 0 then queue_ok owns X Q S' \<and> pb_mem S' = pb_mem S
         else p \<notin> X \<union> aq_p ` set Q \<and> queue_ok owns (insert p X) Q S' \<and> waiting S' p \<and> (\<forall>a. a \<notin> extent S' p \<longrightarrow> pb_mem S' a = pb_mem S a) \<and>
           ((\<forall>x\<in>set xs. \<exists>c. live x S = Some c \<and> in_block c) \<longrightarrow> data_of S' p = flat S xs)))"
    proof (cases "p = 0")
      case True
      then show ?thesis using p le mem by simp
    next
      case False
      then obtain c where c: "live p S1 = Some c" "pb_next c = 0" "pb_len c = pb_tot_len b" "pb_tot_len c = pb_tot_len b" using p by auto
      have p1: "p \<notin> X \<union> aq_p ` set Q" "queue_ok owns (insert p X) Q S1" "single S1 p" using p False by simp_all
      have lx: "leaves (set xs) S S1" using leaves_subset [OF le, of "set xs"] assms(3) by blast
      have fp: "full_packet S1 q xs" using assms(2) full_packet_live_cong [OF lx] by (simp add: guest_def)
      have d: "data_of S1 x = data_of S x" if "x \<in> set xs" for x using lx that mem by (simp add: leaves_def data_of_def split: option.split)
      then have fl: "flat S1 xs = flat S xs" by (rule flat_cong)
      have ic: "in_block c" using p1(3) c(1) by (simp add: single_def)
      have wt: "waiting S1 p" using p1(3) c assms(6) by (simp add: single_def waiting_def)
      obtain m where m: "pbuf_copy p q S1 = Some (ERR_OK, S1\<lparr>pb_mem := m\<rparr>)" "\<And>a. a \<notin> extent S1 p \<Longrightarrow> m a = pb_mem S1 a"
        "(\<And>x. x \<in> set (tl xs) \<Longrightarrow> extent S1 x \<inter> extent S1 p = {}) \<Longrightarrow> data_of (S1\<lparr>pb_mem := m\<rparr>) p = flat S1 xs"
        using pbuf_copy_one [OF fp c(1,2) False] c(3,4) b(2) fl by auto
      have "data_of (S1\<lparr>pb_mem := m\<rparr>) p = flat S xs" if own: "\<forall>x\<in>set xs. \<exists>c. live x S = Some c \<and> in_block c"
        unfolding fl [symmetric]
      proof (rule m(3))
        fix x assume "x \<in> set (tl xs)"
        then have x: "x \<in> set xs" by (rule list.set_sel(2) [rotated]) (use fp in \<open>simp add: full_packet_def\<close>)
        then obtain e where e: "live x S1 = Some e" "in_block e" using own lx by (auto simp: leaves_def)
        have ne: "x \<noteq> p" using x assms(3) p1(1) by auto
        have "store_ok owns (aq_at ` set Q) S1" using p1(2) by (simp add: queue_ok_def)
        from extents_apart [OF this ne e c(1) ic] show "extent S1 x \<inter> extent S1 p = {}" .
      qed
      then show ?thesis using False p1 wt le m(1,2) by (simp add: mem)
    qed
  qed
qed

lemma enqueue_runs:
  assumes "arp_ok owns nif X0 A" "queue_ok owns (insert p X) (queued A) (arp_store A)" "waiting (arp_store A) p" "p \<notin> X"
    "i < ARP_TABLE_SIZE" "ae_state (arp_table A ! i) = ETHARP_STATE_PENDING"
  shows "runs (enqueue env i p A) (\<lambda>(e, A'). kept owns nif X A A' \<and> pb_mem (arp_store A') = pb_mem (arp_store A) \<and>
    etharp_cached_entry A' = etharp_cached_entry A \<and> leaves (X \<union> aq_p ` set (queued A')) (arp_store A) (arp_store A') \<and>
    (if e = ERR_OK
     then \<exists>q. arp_table A' = (arp_table A)[i := (arp_table A ! i)\<lparr>ae_q := q\<rparr>] \<and> map aq_p q = newest (map aq_p (ae_q (arp_table A ! i)) @ [p])
     else e = ERR_MEM \<and> arp_table A' = arp_table A))"
proof -
  let ?e = "arp_table A ! i" and ?S = "arp_store A"
  note D = arp_okD [OF assms(1)]
  have i: "i < length (arp_table A)" using assms(5) D(2) by simp
  obtain at S1 where t: "take_memory (heap_env env) SIZEOF_ETHARP_Q_ENTRY ?S = (at, S1)"
    by (cases "take_memory (heap_env env) SIZEOF_ETHARP_Q_ENTRY ?S")
  have sz: "0 < SIZEOF_ETHARP_Q_ENTRY" "SIZEOF_ETHARP_Q_ENTRY < 524276" by (simp_all add: SIZEOF_ETHARP_Q_ENTRY_def)
  have st: "store_ok owns (aq_at ` set (queued A)) ?S" using assms(2) by (simp add: queue_ok_def)
  note M = memp_malloc_ok [OF st sz t]
  have l1: "live x S1 = live x ?S" for x by (rule M(2))
  then have str: "structures S1 = structures ?S" by (simp add: structures_def)
  have w: "unicast nif (ae_ipaddr ?e) \<and> length (ae_q ?e) \<le> 3 \<and> ae_ctime ?e < ARP_MAXPENDING"
    using D(6) [OF assms(5)] by (simp add: entry_wf_pending [OF assms(6)])
  have wf: "table_wf nif ((arp_table A)[i := ?e\<lparr>ae_q := q\<rparr>])" if "length q \<le> 3" for q
    by (rule table_wf_same_address [OF D(1) assms(5)]) (use w assms(6) that in \<open>auto simp: entry_wf_pending in_use_def\<close>)
  have X: "insert p X - {p} = X" using assms(4) by auto
  show ?thesis
  proof (cases "at = 0")
    case True
    have "queue_ok owns (insert p X) (queued A) S1" using assms(2) M(3) [OF True] str by (simp add: queue_ok_def waiting_def l1)
    moreover have "single S1 p" using waiting_single [OF assms(3)] by (simp add: single_def l1)
    ultimately have f: "runs (pbuf_free (heap_env env) p S1) (\<lambda>(n, S'). queue_ok owns X (queued A) S' \<and>
        leaves (X \<union> aq_p ` set (queued A)) S1 S' \<and> pb_mem S' = pb_mem S1)"
      using single_free [of "insert p X" "queued A" S1 p] by (simp add: X)
    have eq: "enqueue env i p A = Option.bind (pbuf_free (heap_env env) p S1) (\<lambda>(n, S). Some (ERR_MEM, A\<lparr>arp_store := S\<rparr>))"
      using True by (simp add: enqueue_def t)
    show ?thesis
      unfolding eq by (rule runs_bindI [OF f])
        (use arp_ok_store [OF assms(1)] M(1) l1 in \<open>auto simp: kept_def leaves_def queued_def ERR_MEM_def ERR_OK_def\<close>)
  next
    case False
    let ?r = "\<lparr>aq_at = at, aq_p = p\<rparr>" and ?rest = "concat (map ae_q ((arp_table A)[i := emptied ?e]))"
    have m: "mset (queued A) = mset (ae_q ?e @ ?rest)" unfolding queued_def by (rule other_queues [OF i]) simp
    have q0: "queue_ok owns (insert p X) (ae_q ?e @ ?rest) ?S" using assms(2) by (simp add: queue_ok_mset [OF m])
    have B: "aq_at ` set (queued A) = aq_at ` set (ae_q ?e @ ?rest)" using mset_eq_setD [OF m] by simp
    have at: "at \<notin> aq_at ` set (ae_q ?e @ ?rest)" using M(4) [OF False] by (simp add: B)
    have "store_ok owns (insert at (aq_at ` set (ae_q ?e @ ?rest))) S1" using memp_malloc_block [OF st sz t False] by (simp add: B)
    then have q1: "queue_ok owns X ((ae_q ?e @ [?r]) @ ?rest) S1"
      using q0 at assms(3,4) str by (auto simp: queue_ok_def waiting_def l1)
    have tab: "mset (concat (map ae_q ((arp_table A)[i := ?e\<lparr>ae_q := q\<rparr>]))) = mset (q @ ?rest)" for q
      using other_queues [of i "(arp_table A)[i := ?e\<lparr>ae_q := q\<rparr>]" "emptied ?e"] i by simp
    show ?thesis
    proof (cases "length (ae_q ?e) \<ge> 3")
      case room: False
      have "enqueue env i p A = Some (ERR_OK, A\<lparr>arp_store := S1, arp_table := (arp_table A)[i := ?e\<lparr>ae_q := ae_q ?e @ [?r]\<rparr>]\<rparr>)"
        using False room by (simp add: enqueue_def t Let_def upd_entry_def)
      moreover have "queue_ok owns X (concat (map ae_q ((arp_table A)[i := ?e\<lparr>ae_q := ae_q ?e @ [?r]\<rparr>]))) S1"
        using q1 by (simp add: queue_ok_mset [OF tab])
      ultimately show ?thesis
        using wf [of "ae_q ?e @ [?r]"] room D(3) M(1) l1
        by (auto simp: kept_def arp_ok_def queued_def leaves_def newest_def intro!: exI [of _ "ae_q ?e @ [?r]"])
    next
      case over: True
      then obtain o' qs where q: "ae_q ?e = o' # qs" by (cases "ae_q ?e") auto
      let ?A = "A\<lparr>arp_store := S1, arp_table := (arp_table A)[i := ?e\<lparr>ae_q := qs @ [?r]\<rparr>]\<rparr>"
      have eq: "enqueue env i p A = Option.bind (pbuf_free (heap_env env) (aq_p o') S1) (\<lambda>(n, S).
          Some (ERR_OK, ?A\<lparr>arp_store := S\<lparr>pb_heap := mem_free (heap_env env) (aq_at o') (pb_heap S)\<rparr>\<rparr>))"
        using False over q i by (simp add: enqueue_def t Let_def upd_entry_def)
      have q2: "queue_ok owns X (o' # ((qs @ [?r]) @ ?rest)) S1" using q1 by (simp add: q)
      have "length (qs @ [?r]) \<le> 3" using w q by simp
      note wf' = wf [OF this]
      show ?thesis
        unfolding eq
      proof (rule runs_bindI [OF free_queued [OF q2]], clarify)
        fix n S2
        assume S2: "queue_ok owns X ((qs @ [?r]) @ ?rest) (S2\<lparr>pb_heap := mem_free (heap_env env) (aq_at o') (pb_heap S2)\<rparr>)"
          "leaves (X \<union> aq_p ` set ((qs @ [?r]) @ ?rest)) S1 S2" "pb_mem S2 = pb_mem S1"
        have "queue_ok owns X (concat (map ae_q ((arp_table A)[i := ?e\<lparr>ae_q := qs @ [?r]\<rparr>]))) (S2\<lparr>pb_heap := mem_free (heap_env env) (aq_at o') (pb_heap S2)\<rparr>)"
          using S2(1) by (simp only: queue_ok_mset [OF tab])
        then have "arp_ok owns nif X (?A\<lparr>arp_store := S2\<lparr>pb_heap := mem_free (heap_env env) (aq_at o') (pb_heap S2)\<rparr>\<rparr>)"
          using wf' D(3) by (simp add: arp_ok_def queued_def)
        moreover have kept_set: "set (queued (?A\<lparr>arp_store := S\<rparr>)) = set ((qs @ [?r]) @ ?rest)" for S
          using mset_eq_setD [OF tab] by (simp add: queued_def del: set_append)
        moreover have "map aq_p (qs @ [?r]) = newest (map aq_p (ae_q ?e) @ [p])" using over by (simp add: newest_def q)
        ultimately show "runs (Some (ERR_OK, ?A\<lparr>arp_store := S2\<lparr>pb_heap := mem_free (heap_env env) (aq_at o') (pb_heap S2)\<rparr>\<rparr>))
          (\<lambda>(e, A'). kept owns nif X A A' \<and> pb_mem (arp_store A') = pb_mem (arp_store A) \<and>
             etharp_cached_entry A' = etharp_cached_entry A \<and> leaves (X \<union> aq_p ` set (queued A')) (arp_store A) (arp_store A') \<and>
             (if e = ERR_OK
              then \<exists>q. arp_table A' = (arp_table A)[i := ?e\<lparr>ae_q := q\<rparr>] \<and> map aq_p q = newest (map aq_p (ae_q ?e) @ [p])
              else e = ERR_MEM \<and> arp_table A' = arp_table A))"
          using S2(2,3) M(1) l1 kept_set by (auto simp: kept_def leaves_def intro!: exI [of _ "qs @ [?r]"])
      qed
    qed
  qed
qed

section \<open>Queries and output\<close>

text \<open>A fresh entry becomes pending; one in use stays as it is.\<close>

lemma pending_ok:
  assumes "arp_ok owns nif X A" "holds_entry a (arp_table A) i" "unicast nif a"
  shows "arp_ok owns nif X (A\<lparr>arp_table := (arp_table A)[i := pending (arp_table A ! i)]\<rparr>)"
proof -
  have i: "i < ARP_TABLE_SIZE" using assms(2) by (simp add: holds_entry_def)
  have w: "entry_wf nif (arp_table A ! i)" by (rule arp_okD(6) [OF assms(1) i])
  have "table_wf nif ((arp_table A)[i := pending (arp_table A ! i)])"
  proof (rule table_wf_mark [OF arp_okD(1) [OF assms(1)] assms(2)])
    show "entry_wf nif (pending (arp_table A ! i))" using w assms(2,3)
      by (auto simp: pending_def holds_entry_def entry_wf_pending in_use_def ARP_MAXPENDING_def)
    show "ae_ipaddr (pending (arp_table A ! i)) = a" using assms(2) by (simp add: pending_def holds_entry_def)
  qed
  moreover have "map ae_q ((arp_table A)[i := pending (arp_table A ! i)]) = map ae_q (arp_table A)"
    by (rule same_queues) (simp add: pending_def)
  ultimately show ?thesis using assms(1) by (simp add: arp_ok_def queued_def)
qed

lemma take_over_on_store:
  assumes "arp_ok owns nif X A" "guest (arp_store A) q xs" "set xs \<subseteq> X" "live q (arp_store A) = Some b" "pb_type b \<noteq> PBUF_ROM"
    "SIZEOF_ETH_HDR \<le> unat (pb_tot_len b)" "i < ARP_TABLE_SIZE" "ae_state (arp_table A ! i) = ETHARP_STATE_PENDING"
  shows "runs (Option.bind (on_store (take_over env q) A) (\<lambda>(p, A). if p \<noteq> 0 then enqueue env i p A else Some (ERR_MEM, A)))
    (\<lambda>(e, A'). kept owns nif X A A')"
proof -
  have "runs (on_store (take_over env q) A) (\<lambda>(p, A'). leaves X (arp_store A) (arp_store A') \<and>
      (if p = 0 then arp_ok owns nif X A'
       else p \<notin> X \<and> queue_ok owns (insert p X) (queued A') (arp_store A') \<and> waiting (arp_store A') p \<and> arp_ok owns nif (insert p X) A' \<and>
         arp_table A' = arp_table A))"
    unfolding on_store_def runs_map
    by (rule runs_mono [OF take_over_runs [OF arp_okD(4) [OF assms(1)] assms(2-6)]])
       (use arp_ok_store [OF assms(1)] in \<open>auto simp: queued_def leaves_def split: if_splits\<close>)
  then show ?thesis
  proof (rule runs_bindI, clarify)
    fix p A1
    assume le: "leaves X (arp_store A) (arp_store A1)" and p: "if p = 0 then arp_ok owns nif X A1
       else p \<notin> X \<and> queue_ok owns (insert p X) (queued A1) (arp_store A1) \<and> waiting (arp_store A1) p \<and> arp_ok owns nif (insert p X) A1 \<and>
         arp_table A1 = arp_table A"
    show "runs (if p \<noteq> 0 then enqueue env i p A1 else Some (ERR_MEM, A1)) (\<lambda>(e, A'). kept owns nif X A A')"
    proof (cases "p = 0")
      case False
      then have "runs (enqueue env i p A1) (\<lambda>(e, A'). kept owns nif X A1 A')"
        using enqueue_runs [of "insert p X" A1 p X i] p assms(7,8) by (auto elim!: runs_mono)
      then show ?thesis using False le by (auto elim!: runs_mono intro: kept_trans)
    qed (use p le in \<open>simp add: kept_def\<close>)
  qed
qed

end

context arp_world
begin

lemma query_runs:
  assumes "arp_ok owns nif X A"
    and q: "q \<noteq> 0 \<Longrightarrow> guest (arp_store A) q xs \<and> set xs \<subseteq> X \<and> (\<exists>b. live q (arp_store A) = Some b \<and> pb_type b \<noteq> PBUF_ROM \<and>
      SIZEOF_ETH_HDR \<le> unat (pb_tot_len b))"
  shows "runs (etharp_query env nif a q A) (\<lambda>(e, A'). kept owns nif X A A')"
proof (cases "unicast nif a")
  case False
  then show ?thesis using assms(1) by (auto simp: etharp_query_def unicast_def kept_def)
next
  case uni: True
  let ?send = "\<lambda>i A. on_store (etharp_send_ip env q (nif_hwaddr nif) (ae_ethaddr (arp_table A ! i))) (A\<lparr>etharp_cached_entry := i\<rparr>)"
  let ?take = "\<lambda>i A. Option.bind (on_store (take_over env q) A) (\<lambda>(p, A). if p \<noteq> 0 then enqueue env i p A else Some (ERR_MEM, A))"
  let ?rest = "\<lambda>i. \<lambda>(result, A). if q = 0 then Some (result, A) else if is_stable (arp_table A ! i) then ?send i A
        else if ae_state (arp_table A ! i) = ETHARP_STATE_PENDING then ?take i A else Some (result, A)"
  let ?mark = "\<lambda>i A. A\<lparr>arp_table := (arp_table A)[i := pending (arp_table A ! i)]\<rparr>"
  have mark: "(if ae_state (arp_table A ! i) = ETHARP_STATE_EMPTY then upd_entry i (\<lambda>e. e\<lparr>ae_state := ETHARP_STATE_PENDING\<rparr>) A else A) = ?mark i A"
    for i and A :: "'h arp_state" by (simp add: pending_def in_use_def upd_entry_def)
  have eq: "etharp_query env nif a q A = Option.bind (find_entry env (Some a) ETHARP_FLAG_TRY_HARD A) (\<lambda>(i, A).
      if i < 0 then Some (i, A)
      else let A = ?mark (nat i) A
           in Option.bind (if ae_state (arp_table A ! nat i) = ETHARP_STATE_PENDING \<or> q = 0
                           then on_store (etharp_request env nif a) A else Some (ERR_MEM, A)) (?rest (nat i)))"
    using uni unfolding etharp_query_def Let_def mark by (simp add: unicast_def)
  have rest: "runs (?rest i (r, A2)) (\<lambda>(e, A'). kept owns nif X A A')"
    if k: "kept owns nif X A A2" and i: "i < ARP_TABLE_SIZE" for i r A2
  proof (cases "q = 0")
    case False
    then obtain b where b: "guest (arp_store A) q xs" "set xs \<subseteq> X" "live q (arp_store A) = Some b" "pb_type b \<noteq> PBUF_ROM"
      "SIZEOF_ETH_HDR \<le> unat (pb_tot_len b)" using q by blast
    have ok: "arp_ok owns nif X A2" and le: "leaves X (arp_store A) (arp_store A2)" using k by (simp_all add: kept_def)
    have qX: "q \<in> X" using b(1,2) by (elim guest_live) auto
    then have lq: "live q (arp_store A2) = Some b" using le b(3) by (simp add: leaves_def)
    have g2: "guest (arp_store A2) q xs" using b(1) guest_cong [OF leaves_subset [OF le b(2)]] by simp
    have "arp_ok owns nif X (A2\<lparr>etharp_cached_entry := i\<rparr>)" using ok i by (simp add: arp_ok_def queued_def)
    then have "runs (?send i A2) (\<lambda>(e, A'). kept owns nif X A A')"
      using send_on_store [of X "A2\<lparr>etharp_cached_entry := i\<rparr>" q "nif_hwaddr nif" "ae_ethaddr (arp_table A2 ! i)"] lq le
      by (auto simp: kept_def elim!: runs_mono intro: leaves_trans)
    moreover have "runs (?take i A2) (\<lambda>(e, A'). kept owns nif X A A')" if "ae_state (arp_table A2 ! i) = ETHARP_STATE_PENDING"
      using take_over_on_store [OF ok g2 b(2) lq b(4,5) i that] le by (auto elim!: runs_mono intro: kept_trans)
    ultimately show ?thesis using k False by simp
  qed (use k in simp)
  show ?thesis
    unfolding eq
  proof (rule runs_bindI [OF find_entry_runs [OF assms(1)]], clarify)
    fix i A1
    assume ok: "arp_ok owns nif X A1" and le: "leaves X (arp_store A) (arp_store A1)" and h: "i = ERR_MEM \<or> 0 \<le> i \<and> holds_entry a (arp_table A1) (nat i)"
    show "runs (if i < 0 then Some (i, A1)
        else let A = ?mark (nat i) A1
           in Option.bind (if ae_state (arp_table A ! nat i) = ETHARP_STATE_PENDING \<or> q = 0
                           then on_store (etharp_request env nif a) A else Some (ERR_MEM, A)) (?rest (nat i)))
       (\<lambda>(e, A'). kept owns nif X A A')"
    proof (cases "i < 0")
      case True
      then show ?thesis using ok le by (simp add: kept_def)
    next
      case False
      then have h': "holds_entry a (arp_table A1) (nat i)" "nat i < ARP_TABLE_SIZE" using h by (auto simp: ERR_MEM_def holds_entry_def)
      let ?A = "?mark (nat i) A1"
      have okA: "arp_ok owns nif X ?A" by (rule pending_ok [OF ok h'(1) uni])
      have k0: "kept owns nif X A ?A" using okA le by (simp add: kept_def)
      have "runs (if ae_state (arp_table ?A ! nat i) = ETHARP_STATE_PENDING \<or> q = 0
                  then on_store (etharp_request env nif a) ?A else Some (ERR_MEM, ?A)) (\<lambda>(e, A2). kept owns nif X A A2)"
        using request_on_store [OF okA, of a] k0 by (auto elim!: runs_mono simp: kept_def intro: leaves_trans)
      then have "runs (Option.bind (if ae_state (arp_table ?A ! nat i) = ETHARP_STATE_PENDING \<or> q = 0
                  then on_store (etharp_request env nif a) ?A else Some (ERR_MEM, ?A)) (?rest (nat i))) (\<lambda>(e, A'). kept owns nif X A A')"
        by (rule runs_bindI) (use rest h'(2) in auto)
      then show ?thesis using False by (simp only: Let_def if_False)
    qed
  qed
qed

lemma output_runs:
  assumes "arp_ok owns nif X A" "guest (arp_store A) q xs" "set xs \<subseteq> X" "live q (arp_store A) = Some b"
    "SIZEOF_ETH_HDR \<le> pb_payload b" "unat (pb_tot_len b) + SIZEOF_ETH_HDR < 65536"
  shows "runs (etharp_output env nif q a A) (\<lambda>(e, A'). arp_ok owns nif X A' \<and> leaves (X - {q}) (arp_store A) (arp_store A') \<and>
    guest (arp_store A') q xs)"
proof -
  let ?post = "\<lambda>(e :: int, A'). arp_ok owns nif X A' \<and> leaves (X - {q}) (arp_store A) (arp_store A') \<and> guest (arp_store A') q xs"
  have qX: "q \<in> X" using assms(2,3) by (elim guest_live) auto
  from header_push [OF arp_okD(4) [OF assms(1)] assms(2-6)] consider
    "pbuf_header q (of_nat SIZEOF_ETH_HDR) (arp_store A) = Some (1, arp_store A)"
  | b' where "pbuf_header q (of_nat SIZEOF_ETH_HDR) (arp_store A) = Some (0, put q b' (arp_store A))"
      "queue_ok owns X (queued A) (put q b' (arp_store A))" "leaves (X - {q}) (arp_store A) (put q b' (arp_store A))"
      "guest (put q b' (arp_store A)) q xs" "pb_type b' \<noteq> PBUF_ROM"
      "b' = b\<lparr>pb_payload := pb_payload b - 14, pb_len := pb_len b + 14, pb_tot_len := pb_tot_len b + 14\<rparr>" by blast
  then show ?thesis
  proof cases
    case 1
    then show ?thesis using assms by (simp add: etharp_output_def on_store_def)
  next
    case (2 b')
    define A1 where "A1 = A\<lparr>arp_store := put q b' (arp_store A)\<rparr>"
    have ok: "arp_ok owns nif X A1" unfolding A1_def by (rule arp_ok_store [OF assms(1) 2(2)])
    have g: "guest (arp_store A1) q xs" using 2(4) by (simp add: A1_def)
    have lq: "live q (arp_store A1) = Some b'" using assms(4) by (cases "q = 0") (simp_all add: A1_def)
    have post: "runs m ?post" if "runs m (\<lambda>(e, A'). kept owns nif X A1 A')" for m
    proof (rule runs_mono [OF that], clarify)
      fix e A' assume k: "kept owns nif X A1 A'"
      then have le: "leaves X (arp_store A1) (arp_store A')" by (simp add: kept_def)
      have "leaves (X - {q}) (arp_store A) (arp_store A')"
        using 2(3) le by (auto simp: A1_def intro: leaves_trans leaves_subset)
      moreover have "guest (arp_store A') q xs" using g guest_cong [OF leaves_subset [OF le assms(3)]] by simp
      ultimately show "arp_ok owns nif X A' \<and> leaves (X - {q}) (arp_store A) (arp_store A') \<and> guest (arp_store A') q xs"
        using k by (simp add: kept_def)
    qed
    have send: "runs (on_store (etharp_send_ip env q (nif_hwaddr nif) dst) A1) ?post" for dst
      by (rule post [OF send_on_store [OF ok]]) (simp add: lq)
    have idx: "runs (etharp_output_to_arp_index env nif q i (A1\<lparr>etharp_cached_entry := j\<rparr>)) ?post"
      if "i < ARP_TABLE_SIZE" "is_stable (arp_table A1 ! i)" "j < ARP_TABLE_SIZE" for i j
    proof (rule post)
      have "arp_ok owns nif X (A1\<lparr>etharp_cached_entry := j\<rparr>)" using ok that(3) by (simp add: arp_ok_def queued_def)
      from output_to_index_runs [OF this that(1) _ qX] show "runs (etharp_output_to_arp_index env nif q i (A1\<lparr>etharp_cached_entry := j\<rparr>)) (\<lambda>(e, A'). kept owns nif X A1 A')"
        using that(2) lq by (simp add: kept_def)
    qed
    have cached: "runs (etharp_output_to_arp_index env nif q (etharp_cached_entry A1) A1) ?post" if "is_stable (arp_table A1 ! etharp_cached_entry A1)"
      using idx [OF arp_okD(3) [OF ok] that arp_okD(3) [OF ok]] by simp
    have stable: "runs (etharp_output_to_arp_index env nif q i (A1\<lparr>etharp_cached_entry := i\<rparr>)) ?post" if "find_stable c 0 (arp_table A1) = Some i" for c i
      using find_stable_some [OF that] arp_okD(2) [OF ok] by (intro idx) auto
    have tot: "SIZEOF_ETH_HDR \<le> unat (pb_tot_len b')"
      using assms(6) by (simp add: 2(6) unat_word_ariths SIZEOF_ETH_HDR_def)
    have query: "runs (etharp_query env nif c q A1) ?post" for c
      by (rule post, rule query_runs [OF ok]) (use g assms(3) lq 2(5) tot in auto)
    have start: "etharp_output env nif q a A =
       (if ip4_addr_isbroadcast a nif then on_store (etharp_send_ip env q (nif_hwaddr nif) ethbroadcast) A1
        else if ip_addr_ismulticast a then
          on_store (etharp_send_ip env q (nif_hwaddr nif)
            [0x01, 0x00, 0x5e, ip4_addr_byte 1 a AND 0x7f, ip4_addr_byte 2 a, ip4_addr_byte 3 a]) A1
        else
          let off_link = \<not> ip_addr_netcmp a (nif_ip_addr nif) (nif_netmask nif) \<and> \<not> ip_addr_islinklocal a
          in if off_link \<and> ip_addr_isany (nif_gw nif) then Some (ERR_RTE, A1)
             else let c = (if off_link then nif_gw nif else a); cached = arp_table A1 ! etharp_cached_entry A1
                  in if is_stable cached \<and> c = ae_ipaddr cached then etharp_output_to_arp_index env nif q (etharp_cached_entry A1) A1
                     else case find_stable c 0 (arp_table A1) of
                       Some i \<Rightarrow> etharp_output_to_arp_index env nif q i (A1\<lparr>etharp_cached_entry := i\<rparr>)
                     | None \<Rightarrow> etharp_query env nif c q A1)"
      unfolding etharp_output_def on_store_def [of "pbuf_header q (of_nat SIZEOF_ETH_HDR)"] 2(1) A1_def by simp
    have "runs (Some (ERR_RTE, A1)) ?post" using post [of "Some (ERR_RTE, A1)"] ok by (simp add: kept_def)
    then show ?thesis
      unfolding start Let_def using send cached stable query by (auto split: option.split)
  qed
qed

end

end
