(* ===== verification/EtharpNet.thy ===== *)
theory EtharpNet
  imports EtharpOutput UmmSafety
begin

text \<open>
  The ARP module of a station: on umm_malloc's heap, below an IP layer that takes the datagrams
  it is given, above a driver that copies the frames it is given.  The theorems: no sequence of
  packets and ticks gets it stuck, corrupts its table or leaks memory; which entry is recycled;
  what a tick, a learned address and a frame to send do to the cache of addresses.
\<close>

section \<open>A station\<close>

text \<open>
  The device's own state \<open>r\<close> is changed by its four operations: \<open>transmit\<close> gets the bytes of a
  frame and says how it went, \<open>deliver\<close> the bytes of a datagram, \<open>declined\<close> the address of an
  ARP reply for DHCP, and \<open>recycle\<close> a receive buffer.
\<close>

record 'r device =
  transmit :: "u8 list \<Rightarrow> 'r \<Rightarrow> int \<times> 'r"
  deliver :: "u8 list \<Rightarrow> 'r \<Rightarrow> 'r"
  declined :: "u32 \<Rightarrow> 'r \<Rightarrow> 'r"
  recycle :: "u32 \<Rightarrow> 'r \<Rightarrow> 'r"

definition frame_of :: "'h pstore \<Rightarrow> nat \<Rightarrow> u8 list" where
  "frame_of S p = (case pbuf_copy_partial p 0xFFFF 0 S of Some bs \<Rightarrow> bs | None \<Rightarrow> [])"

definition device_state :: "('s \<times> 'r) pstore \<Rightarrow> 'r" where
  "device_state S = snd (pb_heap S)"

definition set_device :: "'r \<Rightarrow> ('s \<times> 'r) pstore \<Rightarrow> ('s \<times> 'r) pstore" where
  "set_device r S = S\<lparr>pb_heap := (fst (pb_heap S), r)\<rparr>"

definition station :: "nat \<Rightarrow> 'r device \<Rightarrow> (umm_state \<times> 'r) arp_env" where
  "station w d =
     \<lparr>heap_env = umm_pbuf_env (4 * w) (recycle d),
      linkoutput = (\<lambda>p S. case transmit d (frame_of S p) (device_state S) of (err, r) \<Rightarrow> (err, set_device r S)),
      ip_input = (\<lambda>p A. let S = arp_store A; S = set_device (deliver d (frame_of S p) (device_state S)) S
                        in map_option snd (on_store (pbuf_free (umm_pbuf_env (4 * w) (recycle d)) p) (A\<lparr>arp_store := S\<rparr>))),
      dhcp_arp_reply = (\<lambda>a A. let S = arp_store A in Some (A\<lparr>arp_store := set_device (declined d a (device_state S)) S\<rparr>))\<rparr>"

lemma live_device [simp]: "live x (set_device r S) = live x S" "pb_mem (set_device r S) = pb_mem S"
  "device_state (set_device r S) = r" "structures (set_device r S) = structures S"
  by (simp_all add: set_device_def device_state_def)

lemma leaves_device [simp]: "leaves X S (set_device r S') = leaves X S S'"
  by (simp add: leaves_def)

lemma umm_owns_device: "umm_owns w R (fst h, r) = umm_owns w R h"
  by (simp add: umm_owns_def)

lemma queue_ok_device [simp]: "queue_ok (umm_owns w) X Q (set_device r S) = queue_ok (umm_owns w) X Q S"
proof -
  have "store_ok (umm_owns w) B (set_device r S) = store_ok (umm_owns w) B S" for B
    by (simp add: store_ok_def) (simp add: set_device_def umm_owns_device)
  then show ?thesis by (simp add: queue_ok_def waiting_def)
qed

lemma guest_device [simp]: "guest (set_device r S) p xs = guest S p xs"
  using guest_cong [of xs S "set_device r S" p] by simp

interpretation net: arp_world "station w d" "umm_owns w" nif for w and d :: "'r device" and nif :: eth_netif
proof (unfold_locales, unfold station_def arp_env.simps, goal_cases)
  case (1 R h a n b m)
  then show ?case by (rule umm_lwip.owns_apart)
next
  case (2 R h n p h')
  then show ?case by (rule umm_lwip.malloc_ok)
next
  case (3 R h p)
  then show ?case by (rule umm_lwip.free_ok)
next
  case (4 R h e)
  then show ?case by (rule umm_lwip.recycle_ok)
next
  case (5 p S e S')
  then obtain r where "S' = set_device r S" by (auto split: prod.splits)
  then have "S' = S\<lparr>pb_heap := (fst (pb_heap S), r)\<rparr> \<and> (\<forall>R. umm_owns w R (pb_heap S) \<longrightarrow> umm_owns w R (fst (pb_heap S), r))"
    by (simp add: set_device_def umm_owns_device)
  then show ?case by blast
next
  case (6 X A p xs)
  let ?S = "set_device (deliver d (frame_of (arp_store A) p) (device_state (arp_store A))) (arp_store A)"
  have q: "queue_ok (umm_owns w) X (queued A) ?S" using arp_okD(4) [OF 6(1)] by simp
  have g: "guest ?S p xs" using 6(2) by simp
  note f = umm_lwip.guest_free [OF q, of p xs "recycle d"]
  have "runs (pbuf_free (umm_pbuf_env (4 * w) (recycle d)) p ?S) (\<lambda>(n, S). queue_ok (umm_owns w) (X - set xs) (queued A) S \<and>
      leaves (X - set xs) (arp_store A) S)"
    by (rule runs_mono [OF f]) (use guest_chain [OF g] 6(3) in \<open>auto simp: leaves_def\<close>)
  then show ?case
    unfolding Let_def runs_map on_store_def arp_state.select_convs arp_state.update_convs
    by (simp add: case_prod_beta, rule runs_mono) (use arp_ok_store [OF 6(1)] in auto)
next
  case (7 X A a)
  then show ?case using arp_ok_store [OF 7] arp_okD(4) [OF 7] by (simp add: Let_def)
qed

section \<open>Every history of a station\<close>

text \<open>A packet of one structure that holds given bytes, null when there is no memory.\<close>

definition make_packet :: "'h pbuf_env \<Rightarrow> pbuf_layer \<Rightarrow> u8 list \<Rightarrow> 'h pstore \<Rightarrow> (nat \<times> 'h pstore) option" where
  "make_packet env layer bs S =
     do { (p, S) \<leftarrow> pbuf_alloc env layer (of_nat (length bs)) PBUF_RAM S;
          (if p = 0 then Some (0, S) else do { (err, S) \<leftarrow> pbuf_take p bs (of_nat (length bs)) S; Some (p, S) }) }"

text \<open>The timer ticks, an interface goes, a datagram is sent, an address asked for, a frame received.\<close>

datatype net_event = Tick | Cleanup nat | Send "u8 list" u32 | Query u32 | Receive "u8 list"

fun net_step :: "'h arp_env \<Rightarrow> eth_netif \<Rightarrow> net_event \<Rightarrow> 'h arp_state \<Rightarrow> 'h arp_state option" where
  "net_step env nif Tick A = etharp_tmr env A"
| "net_step env nif (Cleanup n) A = etharp_cleanup_netif env n A"
| "net_step env nif (Query a) A = map_option snd (etharp_query env nif a 0 A)"
| "net_step env nif (Send bs a) A =
     do { (q, A) \<leftarrow> on_store (make_packet (heap_env env) PBUF_LINK bs) A;
          (if q = 0 then Some A else do { (err, A) \<leftarrow> etharp_output env nif q a A; drop_packet env q A }) }"
| "net_step env nif (Receive bs) A =
     do { (p, A) \<leftarrow> on_store (make_packet (heap_env env) PBUF_RAW bs) A;
          (if p = 0 then Some A else ethernet_input env nif p A) }"

fun net_run :: "'h arp_env \<Rightarrow> eth_netif \<Rightarrow> net_event list \<Rightarrow> 'h arp_state \<Rightarrow> 'h arp_state option" where
  "net_run env nif [] A = Some A"
| "net_run env nif (ev # evs) A = do { A \<leftarrow> net_step env nif ev A; net_run env nif evs A }"

text \<open>Data has bytes, and a datagram leaves room for its header in 16 bits.\<close>

fun sendable :: "net_event \<Rightarrow> bool" where
  "sendable (Send bs a) \<longleftrightarrow> bs \<noteq> [] \<and> length bs + SIZEOF_ETH_HDR < 65536"
| "sendable (Receive bs) \<longleftrightarrow> bs \<noteq> [] \<and> length bs < 65536"
| "sendable _ \<longleftrightarrow> True"

context arp_heap
begin

lemma make_packet_runs:
  assumes "queue_ok owns X Q S" "bs \<noteq> []" "length bs < 65536"
  shows "runs (make_packet (heap_env env) layer bs S) (\<lambda>(p, S'). leaves (X \<union> aq_p ` set Q) S S' \<and>
    (\<forall>y c. live y S = Some c \<longrightarrow> in_block c \<longrightarrow> data_of S' y = data_of S y) \<and>
    (if p = 0 then queue_ok owns X Q S'
     else p \<notin> X \<union> aq_p ` set Q \<and> queue_ok owns (insert p X) Q S' \<and> guest S' p [p] \<and> data_of S' p = bs \<and>
       (\<exists>b. live p S' = Some b \<and> in_block b \<and> pb_tot_len b = of_nat (length bs) \<and>
          pb_payload b = p + SIZEOF_STRUCT_PBUF + LWIP_MEM_ALIGN_SIZE (header_offset layer))))"
  unfolding make_packet_def
proof (rule runs_bindI [OF alloc_runs [OF assms(1)]], clarify)
  fix p S1
  assume le: "leaves (X \<union> aq_p ` set Q) S S1" and mem: "pb_mem S1 = pb_mem S" and p: "if p = 0 then queue_ok owns X Q S1
     else p \<notin> X \<union> aq_p ` set Q \<and> queue_ok owns (insert p X) Q S1 \<and> single S1 p \<and>
       (\<exists>b. live p S1 = Some b \<and> pb_next b = 0 \<and> pb_len b = of_nat (length bs) \<and> pb_tot_len b = of_nat (length bs) \<and>
          pb_payload b = p + SIZEOF_STRUCT_PBUF + LWIP_MEM_ALIGN_SIZE (header_offset layer))"
  have keep: "\<forall>y c. live y S = Some c \<longrightarrow> in_block c \<longrightarrow> data_of (S1\<lparr>pb_mem := m\<rparr>) y = data_of S y"
    if "\<forall>a. (p = 0 \<or> a \<notin> extent S1 p) \<longrightarrow> m a = pb_mem S1 a" for m
  proof (intro allI impI)
    fix y c assume y: "live y S = Some c" "in_block c"
    then have "y \<in> X \<union> aq_p ` set Q" using assms(1) by (auto simp: queue_ok_def structures_def)
    then have l: "live y S1 = Some c" and np: "p \<noteq> 0 \<Longrightarrow> y \<noteq> p" using le y(1) p by (auto simp: leaves_def)
    have "extent S1 y \<inter> extent S1 p = {}" if p0: "p \<noteq> 0"
    proof -
      obtain b where b: "live p S1 = Some b" "in_block b" "queue_ok owns (insert p X) Q S1" using p p0 by (auto simp: single_def)
      then have "store_ok owns (aq_at ` set Q) S1" by (simp add: queue_ok_def)
      from extents_apart [OF this np [OF p0] l y(2) b(1,2)] show ?thesis .
    qed
    then have "\<forall>a\<in>extent S1 y. m a = pb_mem S1 a" using that by (cases "p = 0") auto
    then show "data_of (S1\<lparr>pb_mem := m\<rparr>) y = data_of S y" using l y(1) mem by (auto simp: data_of_def extent_def mem_bytes_def)
  qed
  show "runs (if p = 0 then Some (0, S1) else Option.bind (pbuf_take p bs (of_nat (length bs)) S1) (\<lambda>(err, S). Some (p, S)))
     (\<lambda>(p, S'). leaves (X \<union> aq_p ` set Q) S S' \<and>
      (\<forall>y c. live y S = Some c \<longrightarrow> in_block c \<longrightarrow> data_of S' y = data_of S y) \<and>
      (if p = 0 then queue_ok owns X Q S'
       else p \<notin> X \<union> aq_p ` set Q \<and> queue_ok owns (insert p X) Q S' \<and> guest S' p [p] \<and> data_of S' p = bs \<and>
         (\<exists>b. live p S' = Some b \<and> in_block b \<and> pb_tot_len b = of_nat (length bs) \<and>
            pb_payload b = p + SIZEOF_STRUCT_PBUF + LWIP_MEM_ALIGN_SIZE (header_offset layer))))"
  proof (cases "p = 0")
    case True
    then show ?thesis using p le keep [of "pb_mem S1"] by simp
  next
    case False
    then obtain b where b: "live p S1 = Some b" "in_block b" "pb_next b = 0" "pb_len b = of_nat (length bs)" "pb_tot_len b = of_nat (length bs)"
      "pb_payload b = p + SIZEOF_STRUCT_PBUF + LWIP_MEM_ALIGN_SIZE (header_offset layer)" "single S1 p" using p by (auto simp: single_def)
    have len: "unat (of_nat (length bs) :: u16) = length bs" using assms(3) by simp
    have c: "chain S1 p [p]" using singleD [OF b(7)] by simp
    have fl: "length (flat S1 [p]) = length bs" using b(1,4) len by (simp add: data_of_def)
    obtain m where m: "take_loop p bs (of_nat (length bs)) 0 S1 = Some (S1\<lparr>pb_mem := m\<rparr>)"
      "flat (S1\<lparr>pb_mem := m\<rparr>) [p] = take (length bs) bs @ drop (length bs) (flat S1 [p])" "\<forall>a. a \<notin> extent S1 p \<longrightarrow> m a = pb_mem S1 a"
      using take_loop_spec [OF c, of "of_nat (length bs)" 0 bs] assms(3) fl len by auto
    have d: "data_of (S1\<lparr>pb_mem := m\<rparr>) p = bs" using m(2) fl by simp
    have "pbuf_take p bs (of_nat (length bs)) S1 = Some (ERR_OK, S1\<lparr>pb_mem := m\<rparr>)"
      using False b(1,5) m(1) by (simp add: pbuf_take_def)
    moreover have "guest (S1\<lparr>pb_mem := m\<rparr>) p [p]"
      using b False fl assms(2) len by (simp add: guest_def full_packet_def single_def ref_of_def) (auto simp: data_of_def mem_bytes_def)
    moreover have "\<forall>a. (p = 0 \<or> a \<notin> extent S1 p) \<longrightarrow> m a = pb_mem S1 a" using m(3) False by simp
    moreover note keep [OF this]
    ultimately show ?thesis using False p le b d by (auto simp: single_def)
  qed
qed

end

context arp_world
begin

lemma make_on_store:
  assumes "arp_ok owns nif {} A" "bs \<noteq> []" "length bs < 65536"
  shows "runs (on_store (make_packet (heap_env env) layer bs) A) (\<lambda>(p, A').
    if p = 0 then arp_ok owns nif {} A'
    else arp_ok owns nif {p} A' \<and> guest (arp_store A') p [p] \<and>
      (\<exists>b. live p (arp_store A') = Some b \<and> pb_tot_len b = of_nat (length bs) \<and> SIZEOF_ETH_HDR \<le> pb_payload b))"
  unfolding on_store_def runs_map
  by (rule runs_mono [OF make_packet_runs [OF arp_okD(4) [OF assms(1)] assms(2,3)]])
     (use arp_ok_store [OF assms(1)] in \<open>auto simp: SIZEOF_ETH_HDR_def SIZEOF_STRUCT_PBUF_def LWIP_MEM_ALIGN_SIZE_def split: if_splits\<close>)

lemma net_step_runs:
  assumes "arp_ok owns nif {} A" "sendable ev"
  shows "runs (net_step env nif ev A) (arp_ok owns nif {})"
proof (cases ev)
  case Tick
  then show ?thesis using tmr_runs [OF assms(1)] by (auto elim!: runs_mono)
next
  case (Cleanup n)
  then show ?thesis using cleanup_runs [OF assms(1), of n] by (auto elim!: runs_mono)
next
  case (Query a)
  have "runs (etharp_query env nif a 0 A) (\<lambda>(e, A'). kept owns nif {} A A')" by (rule query_runs [OF assms(1)]) simp
  then show ?thesis using Query by (auto elim!: runs_mono simp: kept_def)
next
  case (Receive bs)
  then have bs: "bs \<noteq> []" "length bs < 65536" using assms(2) by simp_all
  show ?thesis
    unfolding Receive net_step.simps
  proof (rule runs_bindI [OF make_on_store [OF assms(1) bs]], clarify)
    fix p A1
    assume p: "if p = 0 then arp_ok owns nif {} A1 else arp_ok owns nif {p} A1 \<and> guest (arp_store A1) p [p] \<and>
      (\<exists>b. live p (arp_store A1) = Some b \<and> pb_tot_len b = of_nat (length bs) \<and> SIZEOF_ETH_HDR \<le> pb_payload b)"
    show "runs (if p = 0 then Some A1 else ethernet_input env nif p A1) (arp_ok owns nif {})"
      using p ethernet_input_runs [of "{p}" A1 p "[p]"] by (auto elim!: runs_mono simp: kept_def)
  qed
next
  case (Send bs a)
  then have bs: "bs \<noteq> []" "length bs < 65536" "length bs + SIZEOF_ETH_HDR < 65536" using assms(2) by simp_all
  show ?thesis
    unfolding Send net_step.simps
  proof (rule runs_bindI [OF make_on_store [OF assms(1) bs(1,2)]], clarify)
    fix q A1
    assume q: "if q = 0 then arp_ok owns nif {} A1 else arp_ok owns nif {q} A1 \<and> guest (arp_store A1) q [q] \<and>
      (\<exists>b. live q (arp_store A1) = Some b \<and> pb_tot_len b = of_nat (length bs) \<and> SIZEOF_ETH_HDR \<le> pb_payload b)"
    show "runs (if q = 0 then Some A1 else Option.bind (etharp_output env nif q a A1) (\<lambda>(err, A). drop_packet env q A)) (arp_ok owns nif {})"
    proof (cases "q = 0")
      case False
      then obtain b where b: "arp_ok owns nif {q} A1" "guest (arp_store A1) q [q]" "live q (arp_store A1) = Some b"
        "SIZEOF_ETH_HDR \<le> pb_payload b" "pb_tot_len b = of_nat (length bs)" using q by auto
      have "unat (pb_tot_len b) + SIZEOF_ETH_HDR < 65536" using b(5) bs by simp
      then have "runs (etharp_output env nif q a A1) (\<lambda>(e, A'). arp_ok owns nif {q} A' \<and> leaves ({q} - {q}) (arp_store A1) (arp_store A') \<and>
          guest (arp_store A') q [q])"
        using output_runs [OF b(1,2) _ b(3,4)] by simp
      then have "runs (Option.bind (etharp_output env nif q a A1) (\<lambda>(err, A). drop_packet env q A)) (arp_ok owns nif {})"
      proof (rule runs_bindI, clarify)
        fix e A2 assume A2: "arp_ok owns nif {q} A2" "guest (arp_store A2) q [q]"
        have "set [q] \<subseteq> {q}" by simp
        from drop_packet_runs [OF A2 this] show "runs (drop_packet env q A2) (arp_ok owns nif {})"
          by (rule runs_mono) (simp add: kept_def)
      qed
      then show ?thesis using False by simp
    qed (use q in simp)
  qed
qed

lemma net_run_runs: "arp_ok owns nif {} A \<Longrightarrow> list_all sendable evs \<Longrightarrow> runs (net_run env nif evs A) (arp_ok owns nif {})"
proof (induction evs arbitrary: A)
  case (Cons ev evs)
  show ?case unfolding net_run.simps by (rule runs_bindI [OF net_step_runs]) (use Cons in simp_all)
qed simp

end

lemma table_wf_boot: "table_wf nif (replicate ARP_TABLE_SIZE etharp_entry_0)"
  by (auto simp: table_wf_def etharp_entry_0_def one_per_address_def in_use_def)

lemma arp_ok_boot:
  assumes "umm_run s M"
  shows "arp_ok (umm_owns w) nif {} (arp_boot \<lparr>pb_at = Map.empty, pb_mem = m, pb_heap = (s, r)\<rparr>)"
proof -
  have q: "queued (arp_boot S) = []" for S :: "(umm_state \<times> 'a) pstore"
    by (simp add: queued_def arp_boot_def etharp_entry_0_def)
  have "umm_owns w Map.empty (s, r)" using assms by (auto simp: umm_owns_def)
  then show ?thesis
    unfolding arp_ok_def q
    by (auto simp: arp_boot_def table_wf_boot queue_ok_def store_ok_def structures_def live_def data_in_blocks_def
        intro!: exI [of _ Map.empty]) (simp add: ARP_TABLE_SIZE_def)
qed


text \<open>
  A driver that takes every frame and notes it, the interfaces of a network 192.168.1.0/24, and a
  station booted on a heap of 4096 bytes.
\<close>

definition frame_log :: "u8 list list device" where
  "frame_log = \<lparr>transmit = (\<lambda>bs r. (ERR_OK, r @ [bs])), deliver = (\<lambda>bs r. r), declined = (\<lambda>a r. r), recycle = (\<lambda>e r. r)\<rparr>"

definition lan_host :: "u8 \<Rightarrow> eth_netif" where
  "lan_host n = \<lparr>nif_ip_addr = 0x0001A8C0 OR push_bit 24 (ucast n), nif_netmask = 0x00FFFFFF, nif_flags = NETIF_FLAG_ETHARP OR NETIF_FLAG_BROADCAST,
     nif_at = 1, nif_gw = 0, nif_hwaddr = [2, 0, 0, 0, 0, n]\<rparr>"

definition lan_heap :: umm_state where
  "lan_heap = umm_init \<lparr>umm_mem = (\<lambda>_. 0), umm_numblocks = 0, umm_ready = False, umm_region = 4096, umm_locks = 0\<rparr>"

lemma lan_heap_run: "umm_run lan_heap Map.empty"
  unfolding lan_heap_def by (rule run_init) simp_all

definition booted :: "(umm_state \<times> u8 list list) arp_state" where
  "booted = arp_boot \<lparr>pb_at = Map.empty, pb_mem = (\<lambda>_. 0), pb_heap = (lan_heap, [])\<rparr>"


text \<open>The states a station can reach from a boot.\<close>

definition arp_reachable :: "nat \<Rightarrow> 'r device \<Rightarrow> eth_netif \<Rightarrow> (umm_state \<times> 'r) arp_state \<Rightarrow> bool" where
  "arp_reachable w d nif A \<longleftrightarrow>
     (\<exists>s M m r evs. umm_run s M \<and> list_all sendable evs \<and>
        net_run (station w d) nif evs (arp_boot \<lparr>pb_at = Map.empty, pb_mem = m, pb_heap = (s, r)\<rparr>) = Some A)"

lemma reachable_ok: "arp_reachable w d nif A \<Longrightarrow> arp_ok (umm_owns w) nif {} A"
proof -
  assume "arp_reachable w d nif A"
  then obtain s M m r evs where run: "umm_run s M" "list_all sendable evs"
    "net_run (station w d) nif evs (arp_boot \<lparr>pb_at = Map.empty, pb_mem = m, pb_heap = (s, r)\<rparr>) = Some A"
    by (auto simp: arp_reachable_def)
  have "runs (net_run (station w d) nif evs (arp_boot \<lparr>pb_at = Map.empty, pb_mem = m, pb_heap = (s, r)\<rparr>)) (arp_ok (umm_owns w) nif {})"
    by (rule net.net_run_runs [OF arp_ok_boot [OF run(1)] run(2)])
  then show ?thesis using run(3) by simp
qed

lemma net_run_snoc: "net_run env nif (evs @ [ev]) A = Option.bind (net_run env nif evs A) (net_step env nif ev)"
  by (induction evs arbitrary: A) (auto split: Option.bind_splits)

lemma reachable_step: "arp_reachable w d nif A \<Longrightarrow> sendable ev \<Longrightarrow> net_step (station w d) nif ev A = Some A' \<Longrightarrow> arp_reachable w d nif A'"
  unfolding arp_reachable_def
proof (elim exE conjE)
  fix s M m r evs
  assume "sendable ev" "net_step (station w d) nif ev A = Some A'" "umm_run s M" "list_all sendable evs"
    "net_run (station w d) nif evs (arp_boot \<lparr>pb_at = Map.empty, pb_mem = m, pb_heap = (s, r)\<rparr>) = Some A"
  then show "\<exists>s M m r evs. umm_run s M \<and> list_all sendable evs \<and>
      net_run (station w d) nif evs (arp_boot \<lparr>pb_at = Map.empty, pb_mem = m, pb_heap = (s, r)\<rparr>) = Some A'"
    by (intro exI [of _ s] exI [of _ M] exI [of _ m] exI [of _ r] exI [of _ "evs @ [ev]"]) (simp add: net_run_snoc)
qed

lemma reachable_booted: "arp_reachable w d nif booted"
  unfolding arp_reachable_def booted_def
  by (rule exI [of _ lan_heap], rule exI [of _ Map.empty], rule exI [of _ "\<lambda>_. 0"], rule exI [of _ "[]"], rule exI [of _ "[]"]) (simp add: lan_heap_run)

end
