(* ===== verification/EtharpCache.thy ===== *)
theory EtharpCache
  imports EtharpNet
begin

text \<open>
  The abstract cache: a map from addresses to lines.  A line is resolved, with an Ethernet address
  and its age, or being resolved, with the datagrams that wait.  Which entry \<open>find_entry\<close>
  sacrifices, and what a tick does to the lines.
\<close>

section \<open>The cache a table represents\<close>

definition lookup_entry :: "u32 \<Rightarrow> etharp_entry list \<Rightarrow> etharp_entry option" where
  "lookup_entry a t = find (\<lambda>e. in_use e \<and> ae_ipaddr e = a) t"

datatype arp_line = Resolving nat "u8 list list" | Resolved nat "u8 list"

text \<open>A waiting packet is a frame whose header is not written yet, then the datagram.\<close>

definition datagram :: "'h pstore \<Rightarrow> etharp_q_entry \<Rightarrow> u8 list" where
  "datagram S r = drop SIZEOF_ETH_HDR (data_of S (aq_p r))"

definition line_of :: "'h pstore \<Rightarrow> etharp_entry \<Rightarrow> arp_line" where
  "line_of S e =
     (if is_stable e then Resolved (unat (ae_ctime e)) (ae_ethaddr e)
      else Resolving (unat (ae_ctime e)) (map (datagram S) (ae_q e)))"

definition arp_cache :: "'h arp_state \<Rightarrow> u32 \<rightharpoonup> arp_line" where
  "arp_cache A a = map_option (line_of (arp_store A)) (lookup_entry a (arp_table A))"

lemma option_eqI: "(\<And>y. x = Some y \<longleftrightarrow> x' = Some y) \<Longrightarrow> x = x'"
  by (metis not_Some_eq)

lemma lookup_entry_None: "lookup_entry a t = None \<longleftrightarrow> (\<forall>e\<in>set t. in_use e \<longrightarrow> ae_ipaddr e \<noteq> a)"
  by (auto simp: lookup_entry_def find_None_iff)

lemma one_per_address_unique:
  assumes "one_per_address t" "e \<in> set t" "e' \<in> set t" "in_use e" "in_use e'" "ae_ipaddr e = ae_ipaddr e'"
  shows "e = e'"
proof -
  obtain i j where "i < length t" "e = t ! i" "j < length t" "e' = t ! j" using assms(2,3) by (auto simp: in_set_conv_nth)
  then show ?thesis using one_per_addressD [OF assms(1), of i j] assms(4-6) by simp
qed

lemma lookup_entry_Some:
  assumes "one_per_address t"
  shows "lookup_entry a t = Some e \<longleftrightarrow> e \<in> set t \<and> in_use e \<and> ae_ipaddr e = a"
proof
  assume "lookup_entry a t = Some e"
  then show "e \<in> set t \<and> in_use e \<and> ae_ipaddr e = a" by (auto simp: lookup_entry_def find_Some_iff)
next
  assume e: "e \<in> set t \<and> in_use e \<and> ae_ipaddr e = a"
  then obtain e' where e': "lookup_entry a t = Some e'" by (cases "lookup_entry a t") (auto simp: lookup_entry_None)
  then have "e' \<in> set t \<and> in_use e' \<and> ae_ipaddr e' = a" by (auto simp: lookup_entry_def find_Some_iff)
  then show "lookup_entry a t = Some e" using one_per_address_unique [OF assms, of e' e] e e' by auto
qed

lemma lookup_entry_at: "one_per_address t \<Longrightarrow> i < length t \<Longrightarrow> in_use (t ! i) \<Longrightarrow> lookup_entry (ae_ipaddr (t ! i)) t = Some (t ! i)"
  by (simp add: lookup_entry_Some)

text \<open>Replacing an entry replaces the line for its address.\<close>

lemma lookup_entry_update:
  assumes "one_per_address t" "one_per_address (t[i := e])" "i < length t"
  shows "lookup_entry a (t[i := e]) =
    (if in_use e \<and> ae_ipaddr e = a then Some e
     else if in_use (t ! i) \<and> ae_ipaddr (t ! i) = a then None
     else lookup_entry a t)"
proof -
  have mem: "x \<in> set (t[i := e]) \<longleftrightarrow> x = e \<or> (\<exists>j<length t. j \<noteq> i \<and> x = t ! j)" for x
    using assms(3) by (fastforce simp: in_set_conv_nth nth_list_update)
  consider "in_use e \<and> ae_ipaddr e = a" | "\<not> (in_use e \<and> ae_ipaddr e = a)" "in_use (t ! i) \<and> ae_ipaddr (t ! i) = a"
    | "\<not> (in_use e \<and> ae_ipaddr e = a)" "\<not> (in_use (t ! i) \<and> ae_ipaddr (t ! i) = a)" by blast
  then show ?thesis
  proof cases
    case 1
    then show ?thesis using lookup_entry_Some [OF assms(2)] mem by simp
  next
    case 2
    have "lookup_entry a (t[i := e]) = None"
      unfolding lookup_entry_None
    proof (intro ballI impI notI)
      fix x assume x: "x \<in> set (t[i := e])" "in_use x" "ae_ipaddr x = a"
      then obtain j where "j < length t" "j \<noteq> i" "x = t ! j" using 2(1) mem by auto
      then show False using one_per_addressD [OF assms(1), of j i] x 2(2) assms(3) by simp
    qed
    then show ?thesis using 2 by auto
  next
    case 3
    have eq: "x \<in> set (t[i := e]) \<and> in_use x \<and> ae_ipaddr x = a \<longleftrightarrow> x \<in> set t \<and> in_use x \<and> ae_ipaddr x = a" for x
    proof
      assume "x \<in> set (t[i := e]) \<and> in_use x \<and> ae_ipaddr x = a"
      then show "x \<in> set t \<and> in_use x \<and> ae_ipaddr x = a" using 3(1) unfolding mem by (elim conjE disjE exE) simp_all
    next
      assume x: "x \<in> set t \<and> in_use x \<and> ae_ipaddr x = a"
      then obtain j where j: "j < length t" "x = t ! j" by (auto simp: in_set_conv_nth)
      then have "j \<noteq> i" using x 3(2) by auto
      then have "\<exists>j<length t. j \<noteq> i \<and> x = t ! j" using j by blast
      then show "x \<in> set (t[i := e]) \<and> in_use x \<and> ae_ipaddr x = a" using x mem by simp
    qed
    have "lookup_entry a (t[i := e]) = lookup_entry a t"
      by (rule option_eqI, unfold lookup_entry_Some [OF assms(1)] lookup_entry_Some [OF assms(2)]) (rule eq)
    then show ?thesis using 3 by auto
  qed
qed

lemma lookup_entry_map:
  assumes "one_per_address t" "one_per_address (map f t)" "\<And>e. e \<in> set t \<Longrightarrow> in_use (f e) \<Longrightarrow> in_use e \<and> ae_ipaddr (f e) = ae_ipaddr e"
  shows "lookup_entry a (map f t) = Option.bind (lookup_entry a t) (\<lambda>e. if in_use (f e) then Some (f e) else None)"
proof (cases "lookup_entry a t")
  case None
  then have "lookup_entry a (map f t) = None" using assms(3) by (auto simp: lookup_entry_None)
  then show ?thesis using None by simp
next
  case (Some e)
  then have e: "e \<in> set t" "in_use e" "ae_ipaddr e = a" using lookup_entry_Some [OF assms(1)] by simp_all
  show ?thesis
  proof (cases "in_use (f e)")
    case True
    then show ?thesis using Some e assms(3) lookup_entry_Some [OF assms(2), of a "f e"] by auto
  next
    case False
    have "\<not> in_use (f x) \<or> ae_ipaddr (f x) \<noteq> a" if "x \<in> set t" for x
      using assms(3) [OF that] one_per_address_unique [OF assms(1) that e(1)] e(2,3) False by auto
    then show ?thesis using Some False by (auto simp: lookup_entry_None)
  qed
qed

section \<open>Which entry is found or recycled\<close>

text \<open>
  C11. The replacement policy of the ARP table.  In every reachable state \<open>find_entry\<close> returns: the
  entry in use for the address; else \<open>ERR_MEM\<close> when only searching; else the first empty entry;
  else \<open>ERR_MEM\<close> when not allowed to recycle; else, emptied, the oldest stable entry, or if there
  is none the oldest pending one without packets, or if there is none the oldest pending one (of
  two of the same age, the later).  A new entry gets the address and age 0, every other entry
  stays, and the table, its queues and the heap stay well formed.
\<close>

theorem find_entry_choice:
  assumes "arp_reachable w d nif A"
  shows "\<exists>i A'. find_entry (station w d) (Some a) flags A = Some (i, A') \<and> found_entry a flags (arp_table A) i (arp_table A') \<and>
    arp_ok (umm_owns w) nif {} A'"
  by (rule runsE [OF net.find_entry_spec [OF reachable_ok [OF assms], of d a flags]]) auto

lemma find_entry_choice_witness:
  "\<exists>i A'. find_entry (station 1000 frame_log) (Some 0x0501A8C0) ETHARP_FLAG_TRY_HARD booted = Some (i, A') \<and>
     found_entry 0x0501A8C0 ETHARP_FLAG_TRY_HARD (arp_table booted) i (arp_table A')"
  using find_entry_choice [OF reachable_booted [of 1000 frame_log "lan_host 2"], of "0x0501A8C0" ETHARP_FLAG_TRY_HARD] by auto

section \<open>Ageing\<close>

fun age_line :: "arp_line \<Rightarrow> arp_line option" where
  "age_line (Resolving n ds) = (if n + 1 \<ge> 2 then None else Some (Resolving (n + 1) ds))"
| "age_line (Resolved n mac) = (if n + 1 \<ge> 240 then None else Some (Resolved (n + 1) mac))"

lemma datagram_cong: "live (aq_p r) S' = live (aq_p r) S \<Longrightarrow> pb_mem S' = pb_mem S \<Longrightarrow> datagram S' r = datagram S r"
  by (simp add: datagram_def data_of_def split: option.split)

lemma line_of_cong: "leaves (aq_p ` set (ae_q e)) S S' \<Longrightarrow> pb_mem S' = pb_mem S \<Longrightarrow> line_of S' e = line_of S e"
  by (auto simp: line_of_def leaves_def intro!: datagram_cong)

lemma aged_address: "in_use (aged e) \<Longrightarrow> in_use e \<and> ae_ipaddr (aged e) = ae_ipaddr e"
  by (auto simp: aged_def Let_def split: if_splits)

lemma line_of_aged:
  assumes "entry_wf nif e" "in_use e"
  shows "(if in_use (aged e) then Some (line_of S (aged e)) else None) = age_line (line_of S e)"
proof -
  have "ae_ctime e < 2 \<or> ae_ctime e < 240"
    using assms by (auto simp: in_use_cases entry_wf_pending entry_wf_stable ARP_MAXAGE_def ARP_MAXPENDING_def)
  then have c: "ae_ctime e < 240" by (auto simp: word_less_nat_alt)
  have n: "unat (ae_ctime e + 1) = unat (ae_ctime e) + 1" using c by (simp add: unat_word_ariths word_less_nat_alt)
  have le: "(240 \<le> ae_ctime e + 1) = (239 \<le> unat (ae_ctime e))" "(2 \<le> ae_ctime e + 1) = (1 \<le> unat (ae_ctime e))"
    using n by (simp_all add: word_le_nat_alt)
  show ?thesis
    using assms(2) n le
    by (cases "ae_state e") (auto simp: aged_def Let_def in_use_def line_of_def is_stable_def ARP_MAXAGE_def ARP_MAXPENDING_def emptied_def)
qed

text \<open>
  C12. A tick of the ARP timer, every 5 seconds, ages the cache.  In every reachable state
  \<open>etharp_tmr\<close> returns, and on the abstract cache it makes every line one tick older, drops the
  lines being resolved that get 2 ticks old, with the datagrams that wait, and the resolved ones
  that get 240 ticks old.
\<close>

theorem etharp_tmr_ages:
  assumes "arp_reachable w d nif A"
  shows "\<exists>A'. etharp_tmr (station w d) A = Some A' \<and> arp_reachable w d nif A' \<and> (\<forall>a. arp_cache A' a = Option.bind (arp_cache A a) age_line)"
proof -
  note ok = reachable_ok [OF assms]
  show ?thesis
  proof (rule runsE [OF net.tmr_runs [OF ok, of d]], elim conjE)
    fix A'
    assume run: "etharp_tmr (station w d) A = Some A'" and ok': "arp_ok (umm_owns w) nif {} A'"
      and le: "leaves ({} \<union> aq_p ` set (queued A')) (arp_store A) (arp_store A')" and mem: "pb_mem (arp_store A') = pb_mem (arp_store A)"
      and A': "A' = A\<lparr>arp_table := map aged (arp_table A), arp_store := arp_store A'\<rparr>"
    have t: "arp_table A' = map aged (arp_table A)" by (subst A') simp
    have wf: "one_per_address (arp_table A)" "one_per_address (map aged (arp_table A))" using arp_okD(5) [OF ok] arp_okD(5) [OF ok'] t by simp_all
    have map: "lookup_entry a (map aged (arp_table A)) = Option.bind (lookup_entry a (arp_table A)) (\<lambda>e. if in_use (aged e) then Some (aged e) else None)" for a
      by (rule lookup_entry_map [OF wf aged_address])
    have line: "line_of (arp_store A') (aged e) = line_of (arp_store A) (aged e)" if "e \<in> set (arp_table A)" for e
      by (rule line_of_cong [OF leaves_subset [OF le] mem]) (use that in \<open>auto simp: queued_def t\<close>)
    have "arp_cache A' a = Option.bind (arp_cache A a) age_line" for a
    proof (cases "lookup_entry a (arp_table A)")
      case None
      then show ?thesis by (simp add: arp_cache_def t map)
    next
      case (Some e)
      then have e: "e \<in> set (arp_table A)" "in_use e" using lookup_entry_Some [OF wf(1)] by simp_all
      have "entry_wf nif e" using arp_okD(1) [OF ok] e(1) by (simp add: table_wf_def)
      from line_of_aged [OF this e(2)] line [OF e(1)] show ?thesis
        using Some by (auto simp: arp_cache_def t map split: if_splits)
    qed
    moreover have "arp_reachable w d nif A'" by (rule reachable_step [OF assms, of Tick]) (simp_all add: run)
    ultimately show ?thesis using run by blast
  qed
qed

lemma etharp_tmr_ages_witness:
  "\<exists>A'. etharp_tmr (station 1000 frame_log) booted = Some A' \<and> (\<forall>a. arp_cache A' a = Option.bind (arp_cache booted a) age_line)"
  using etharp_tmr_ages [OF reachable_booted [of 1000 frame_log "lan_host 2"]] by auto

section \<open>Learning an address\<close>

text \<open>
  What learning that \<open>a\<close> is at \<open>mac\<close> does to the cache \<open>c\<close>, with the datagrams \<open>ds\<close> that are
  sent: the line for \<open>a\<close> becomes resolved and its datagrams go out; without a line one is made if
  that is asked for, on a full table in place of another.
\<close>

fun line_datagrams :: "arp_line \<Rightarrow> u8 list list" where
  "line_datagrams (Resolving n ds) = ds"
| "line_datagrams (Resolved n mac) = []"

definition cache_full :: "(u32 \<rightharpoonup> arp_line) \<Rightarrow> bool" where
  "cache_full c \<longleftrightarrow> card (dom c) = ARP_TABLE_SIZE"

definition learned :: "u8 \<Rightarrow> u32 \<Rightarrow> u8 list \<Rightarrow> (u32 \<rightharpoonup> arp_line) \<Rightarrow> int \<Rightarrow> u8 list list \<Rightarrow> (u32 \<rightharpoonup> arp_line) \<Rightarrow> bool" where
  "learned flags a mac c err ds c' \<longleftrightarrow>
     (case c a of
        Some line \<Rightarrow> err = ERR_OK \<and> ds = line_datagrams line \<and> c' = c(a \<mapsto> Resolved 0 mac)
      | None \<Rightarrow> ds = [] \<and>
          (if flags AND ETHARP_FLAG_FIND_ONLY \<noteq> 0 \<or> cache_full c \<and> flags AND ETHARP_FLAG_TRY_HARD = 0 then err = ERR_MEM \<and> c' = c
           else err = ERR_OK \<and>
             (if cache_full c then \<exists>v\<in>dom c. c' = (c(v := None))(a \<mapsto> Resolved 0 mac) else c' = c(a \<mapsto> Resolved 0 mac))))"

lemma dom_cache: "one_per_address (arp_table A) \<Longrightarrow> dom (arp_cache A) = ae_ipaddr ` {e \<in> set (arp_table A). in_use e}"
  by (auto simp: arp_cache_def lookup_entry_Some)

lemma cache_full_iff:
  assumes "table_wf nif (arp_table A)"
  shows "cache_full (arp_cache A) \<longleftrightarrow> (\<forall>e\<in>set (arp_table A). in_use e)"
proof -
  have t: "length (arp_table A) = ARP_TABLE_SIZE" "one_per_address (arp_table A)" using assms by (simp_all add: table_wf_def)
  have "dom (arp_cache A) = set (map ae_ipaddr (filter in_use (arp_table A)))" using dom_cache [OF t(2)] by auto
  then have "card (dom (arp_cache A)) = length (filter in_use (arp_table A))"
    using t(2) by (simp only: one_per_address_def distinct_card length_map)
  then show ?thesis using t(1) by (simp add: cache_full_def) (metis filter_id_conv length_filter_less nat_less_le)
qed

text \<open>What \<open>find_entry\<close> leaves, with its lines.\<close>

lemma found_entry_cases:
  assumes "found_entry a flags t i t'" "table_wf nif t"
  obtains (hit) e where "lookup_entry a t = Some e" "t' = t" "0 \<le> i" "nat i < length t" "t ! nat i = e" "in_use e" "ae_ipaddr e = a"
  | (none) "lookup_entry a t = None" "i = ERR_MEM" "t' = t"
      "flags AND ETHARP_FLAG_FIND_ONLY \<noteq> 0 \<or> (\<forall>e\<in>set t. in_use e) \<and> flags AND ETHARP_FLAG_TRY_HARD = 0"
  | (fresh) "lookup_entry a t = None" "0 \<le> i" "nat i < length t" "\<not> in_use (t ! nat i)" "t' = t[nat i := created a (t ! nat i)]"
      "flags AND ETHARP_FLAG_FIND_ONLY = 0"
  | (recycled) "lookup_entry a t = None" "0 \<le> i" "nat i < length t" "in_use (t ! nat i)" "t' = t[nat i := created a (emptied (t ! nat i))]"
      "flags AND ETHARP_FLAG_FIND_ONLY = 0" "flags AND ETHARP_FLAG_TRY_HARD \<noteq> 0" "\<forall>e\<in>set t. in_use e"
proof -
  have t: "length t = ARP_TABLE_SIZE" "one_per_address t" using assms(2) by (simp_all add: table_wf_def)
  show thesis
  proof (cases "\<exists>e\<in>set t. in_use e \<and> ae_ipaddr e = a")
    case True
    then have "t' = t" "0 \<le> i" "nat i < length t" "in_use (t ! nat i)" "ae_ipaddr (t ! nat i) = a" using assms(1) by (simp_all add: found_entry_def)
    then show thesis using hit lookup_entry_at [OF t(2), of "nat i"] by auto
  next
    case False
    then have no: "lookup_entry a t = None" by (auto simp: lookup_entry_None)
    show thesis
    proof (cases "flags AND ETHARP_FLAG_FIND_ONLY \<noteq> 0")
      case True
      then show thesis using none no False assms(1) unfolding found_entry_def by auto
    next
      case create: False
      show thesis
      proof (cases "\<exists>e\<in>set t. \<not> in_use e")
        case True
        then show thesis using fresh no False create assms(1) first_empty_lt [of t "nat i"] t(1) unfolding found_entry_def by auto
      next
        case full: False
        show thesis
        proof (cases "flags AND ETHARP_FLAG_TRY_HARD = 0")
          case True
          then show thesis using none no False create full assms(1) unfolding found_entry_def by auto
        next
          case hard: False
          then have f: "0 \<le> i" "t' = t[nat i := created a (emptied (t ! nat i))]"
            "if \<exists>e\<in>set t. is_stable e then oldest is_stable t (nat i)
             else if \<exists>e\<in>set t. queueless e then oldest queueless t (nat i) else oldest with_queue t (nat i)"
            using no False create full assms(1) unfolding found_entry_def by simp_all
          then have "nat i < length t" by (auto simp: oldest_def split: if_splits)
          then show thesis using recycled no create hard f full by simp
        qed
      qed
    qed
  qed
qed

lemma cache_same_datagrams:
  assumes "\<forall>r\<in>set (queued A'). datagram (arp_store A') r = datagram S r"
  shows "arp_cache A' b = map_option (line_of S) (lookup_entry b (arp_table A'))"
proof (cases "lookup_entry b (arp_table A')")
  case (Some e)
  then have "e \<in> set (arp_table A')" by (auto simp: lookup_entry_def find_Some_iff)
  then have "map (datagram (arp_store A')) (ae_q e) = map (datagram S) (ae_q e)" using assms by (auto simp: queued_def)
  then show ?thesis using Some by (simp add: arp_cache_def line_of_def)
qed (simp add: arp_cache_def)

lemma lookup_replaced:
  assumes "table_wf nif t" "table_wf nif (t[k := e])" "k < length t" "in_use e" "ae_ipaddr e = ae_ipaddr (t ! k)"
  shows "lookup_entry b (t[k := e]) = (if b = ae_ipaddr e then Some e else lookup_entry b t)"
  using lookup_entry_update [of t k e b] assms by (auto simp: table_wf_def)

lemma lookup_created:
  assumes "table_wf nif t" "table_wf nif (t[k := e])" "k < length t" "\<not> in_use e"
  shows "lookup_entry b (t[k := e]) = (if in_use (t ! k) \<and> ae_ipaddr (t ! k) = b then None else lookup_entry b t)"
  using lookup_entry_update [of t k e b] assms by (auto simp: table_wf_def)

end
