(* ===== verification/EtharpWire.thy ===== *)
theory EtharpWire
  imports EtharpCache
begin

text \<open>
  What goes over the wire: the bytes of the frames the ARP module hands to the driver, in order,
  and the cache afterwards.  The locale \<open>arp_log\<close> is a driver that takes every frame and a heap
  whose ownership also fixes the frames sent so far.
\<close>

section \<open>Frames\<close>

definition be16 :: "u16 \<Rightarrow> u8 list" where
  "be16 v = [ucast (drop_bit 8 v), ucast v]"

definition eth_frame :: "u8 list \<Rightarrow> u8 list \<Rightarrow> u16 \<Rightarrow> u8 list \<Rightarrow> u8 list" where
  "eth_frame dst src typ payload = dst @ src @ be16 typ @ payload"

lemma mem_bytes_append: "mem_bytes m a (i + n) = mem_bytes m a i @ mem_bytes m (a + i) n"
  by (rule nth_equalityI) (auto simp: mem_bytes_def nth_append)

lemma mem_bytes_put_same: "n = length bs \<Longrightarrow> mem_bytes (put_bytes m a bs) a n = bs"
  by (simp add: read_written)

lemma mem_bytes_put_other: "a + n \<le> x \<or> x + length bs \<le> a \<Longrightarrow> mem_bytes (put_bytes m x bs) a n = mem_bytes m a n"
  by (rule nth_equalityI) (auto simp: mem_bytes_def put_bytes_def)

lemma put_bytes_store16: "store16 m a v = put_bytes m a [ucast v, ucast (drop_bit 8 v)]"
  by (auto simp: store16_def put_bytes_def fun_eq_iff)

lemma put_bytes_update: "m(a := v) = put_bytes m a [v]"
  by (auto simp: put_bytes_def fun_eq_iff)

definition addr_bytes :: "u32 \<Rightarrow> u8 list" where
  "addr_bytes v = [ucast v, ucast (drop_bit 8 v), ucast (drop_bit 16 v), ucast (drop_bit 24 v)]"

lemma put_bytes_store32: "store32 m a v = put_bytes m a (addr_bytes v)"
proof
  fix x
  have "ucast (ucast v :: u16) = (ucast v :: u8)" "ucast (drop_bit 8 (ucast v :: u16)) = (ucast (drop_bit 8 v) :: u8)"
    "ucast (ucast (drop_bit 16 v) :: u16) = (ucast (drop_bit 16 v) :: u8)"
    "ucast (drop_bit 8 (ucast (drop_bit 16 v) :: u16)) = (ucast (drop_bit 24 v) :: u8)"
    by (rule bit_word_eqI; auto simp: bit_simps)+
  then show "store32 m a v x = put_bytes m a (addr_bytes v) x"
    by (auto simp: store32_def put_bytes_store16 put_bytes_def addr_bytes_def nth_Cons split: nat.splits)
qed

lemma length_addr_bytes [simp]: "length (addr_bytes v) = 4" "length (be16 t) = 2"
  by (simp_all add: addr_bytes_def be16_def)

lemma swap_bytes: "[ucast (PP_HTONS t), ucast (drop_bit 8 (PP_HTONS t))] = be16 t"
proof -
  have m: "(0xff :: u16) = mask 8" "(0xff00 :: u16) = push_bit 8 (mask 8)" by (simp_all add: mask_eq_exp_minus_1)
  have "ucast (PP_HTONS t) = (ucast (drop_bit 8 t) :: u8)" "ucast (drop_bit 8 (PP_HTONS t)) = (ucast t :: u8)"
    unfolding PP_HTONS_def m by (rule bit_word_eqI; auto simp: bit_simps)+
  then show ?thesis by (simp add: be16_def)
qed

lemma header_written:
  assumes "length dst = 6" "length src = 6" "14 \<le> n"
  shows "mem_bytes (store16 (put_bytes (put_bytes m a dst) (a + 6) src) (a + 12) (PP_HTONS t)) a n =
    eth_frame dst src t (drop 14 (mem_bytes m a n))"
proof -
  let ?m = "store16 (put_bytes (put_bytes m a dst) (a + 6) src) (a + 12) (PP_HTONS t)"
  have n: "n = 6 + (6 + (2 + (n - 14)))" using assms(3) by simp
  have "mem_bytes ?m a n = mem_bytes ?m a 6 @ mem_bytes ?m (a + 6) 6 @ mem_bytes ?m (a + 12) 2 @ mem_bytes ?m (a + 14) (n - 14)"
    by (subst n, simp only: mem_bytes_append append.assoc add.assoc) (simp add: ac_simps)
  also have "mem_bytes ?m a 6 = dst" using assms by (simp add: put_bytes_store16 mem_bytes_put_other mem_bytes_put_same)
  also have "mem_bytes ?m (a + 6) 6 = src" using assms by (simp add: put_bytes_store16 mem_bytes_put_other mem_bytes_put_same)
  also have "mem_bytes ?m (a + 12) 2 = be16 t" using assms by (simp add: put_bytes_store16 mem_bytes_put_same swap_bytes)
  also have "mem_bytes ?m (a + 14) (n - 14) = mem_bytes m (a + 14) (n - 14)"
    using assms by (simp add: put_bytes_store16 mem_bytes_put_other)
  also have "\<dots> = drop 14 (mem_bytes m a n)" using mem_bytes_part [of 14 "n - 14" n m a] assms(3) by simp
  finally show ?thesis by (simp add: eth_frame_def)
qed

section \<open>A driver that takes every frame\<close>

lemma frame_of_guest:
  assumes "guest S p xs"
  shows "frame_of S p = flat S xs"
proof -
  obtain b :: pbuf where g: "unat (pb_tot_len b) = length (flat S xs)" "chain S p xs" using assms by (rule guest_live)
  have "length (flat S xs) \<le> 65535" using g(1) by (metis unat_u16_le)
  then show ?thesis by (simp add: frame_of_def copy_partial_flat [OF g(2)])
qed

lemma waiting_guest: "waiting S p \<Longrightarrow> guest S p [p]"
  using singleD [of S p] waiting_single [of S p]
  by (cases "live p S") (auto simp: waiting_def guest_def full_packet_def ref_of_def data_of_def mem_bytes_def SIZEOF_ETH_HDR_def)

text \<open>The packets in blocks of their own are as they were, those in \<open>P\<close> apart.\<close>

definition untouched :: "nat set \<Rightarrow> 'h pstore \<Rightarrow> 'h pstore \<Rightarrow> bool" where
  "untouched P S S' \<longleftrightarrow> (\<forall>y c. y \<notin> P \<longrightarrow> live y S = Some c \<longrightarrow> in_block c \<longrightarrow> live y S' = Some c \<and> data_of S' y = data_of S y)"

lemma untouched_refl [simp]: "untouched P S S"
  by (simp add: untouched_def)

lemma untouched_trans: "untouched P S S' \<Longrightarrow> untouched P' S' S'' \<Longrightarrow> P \<subseteq> P'' \<Longrightarrow> P' \<subseteq> P'' \<Longrightarrow> untouched P'' S S''"
  unfolding untouched_def by (metis subsetD)

lemma untouched_alive:
  assumes "structures S \<subseteq> P \<union> Y" "leaves Y S S'" "pb_mem S' = pb_mem S"
  shows "untouched P S S'"
proof -
  have "y \<in> Y" if "y \<notin> P" "live y S = Some c" for y c using that assms(1) by (auto simp: structures_def)
  then show ?thesis using assms(2,3) by (auto simp: untouched_def leaves_def data_of_def split: option.split)
qed

lemma untouched_leaves:
  assumes "queue_ok owns X Q S" "leaves ((X - P) \<union> aq_p ` set Q) S S'" "pb_mem S' = pb_mem S"
  shows "untouched P S S'"
  by (rule untouched_alive [OF _ assms(2,3)]) (use assms(1) in \<open>auto simp: queue_ok_def\<close>)

lemma data_of_heap [simp]: "data_of (S\<lparr>pb_heap := h\<rparr>) x = data_of S x"
  by (simp add: data_of_def split: option.split)

lemma untouched_heap [simp]: "untouched P (S\<lparr>pb_heap := h\<rparr>) S' = untouched P S S'" "untouched P S (S'\<lparr>pb_heap := h\<rparr>) = untouched P S S'"
  by (simp_all add: untouched_def)

lemma untouched_waiting: "untouched P S S' \<Longrightarrow> waiting S p \<Longrightarrow> p \<notin> P \<Longrightarrow> waiting S' p \<and> data_of S' p = data_of S p"
  by (cases "live p S") (auto simp: untouched_def waiting_def)

lemma untouched_mono: "untouched P S S' \<Longrightarrow> P \<subseteq> P' \<Longrightarrow> untouched P' S S'"
  by (auto simp: untouched_def)

lemma queue_ok_rest: "queue_ok owns X (qs @ Q) S \<Longrightarrow> r \<in> set Q \<Longrightarrow> aq_p r \<notin> aq_p ` set qs \<and> waiting S (aq_p r)"
proof -
  assume q: "queue_ok owns X (qs @ Q) S" and r: "r \<in> set Q"
  have "aq_p ` set qs \<inter> aq_p ` set Q = {}" "\<forall>r\<in>set (qs @ Q). waiting S (aq_p r)" using q by (simp_all add: queue_ok_def)
  then show ?thesis using r by auto
qed

locale arp_log =
  fixes env :: "'h arp_env" and owns :: "u8 list list \<Rightarrow> (nat \<rightharpoonup> nat) \<Rightarrow> 'h \<Rightarrow> bool" and nif :: eth_netif
  assumes heap: "lwip_heap (heap_env env) (owns L)"
    and link: "linkoutput env p S = (e, S') \<Longrightarrow> e = ERR_OK \<and>
      (\<exists>h. S' = S\<lparr>pb_heap := h\<rparr> \<and> (\<forall>L R. owns L R (pb_heap S) \<longrightarrow> owns (L @ [frame_of S p]) R h))"

sublocale arp_log < log: arp_heap env "owns L" nif for L
  by (rule arp_heap.intro [OF heap])

context arp_log
begin

lemma link_log:
  assumes "queue_ok (owns L) X Q S" "linkoutput env p S = (e, S')"
  shows "e = ERR_OK" "queue_ok (owns (L @ [frame_of S p])) X Q S'" "live x S' = live x S" "pb_mem S' = pb_mem S"
proof -
  obtain h where h: "S' = S\<lparr>pb_heap := h\<rparr>" "\<forall>L R. owns L R (pb_heap S) \<longrightarrow> owns (L @ [frame_of S p]) R h" using link [OF assms(2)] by blast
  show "queue_ok (owns (L @ [frame_of S p])) X Q S'" using assms(1) h(2) by (auto simp: h(1) queue_ok_def store_ok_def waiting_def)
qed (use link [OF assms(2)] in auto)

text \<open>The header is written into the packet, which touches no other packet in a block of its own.\<close>

lemma send_ip_log:
  assumes "queue_ok (owns L) X Q S" "guest S p xs" "live p S = Some b" "SIZEOF_ETH_HDR \<le> unat (pb_len b)"
    "\<forall>x\<in>set xs. \<exists>c. live x S = Some c \<and> in_block c" "length dst = 6" "length src = 6"
  shows "\<exists>S'. etharp_send_ip env p src dst S = Some (ERR_OK, S') \<and>
    queue_ok (owns (L @ [eth_frame dst src ETHTYPE_IP (drop SIZEOF_ETH_HDR (flat S xs))])) X Q S' \<and> (\<forall>x. live x S' = live x S) \<and> untouched {p} S S'"
proof -
  let ?m = "store16 (put_bytes (put_bytes (pb_mem S) (pb_payload b) dst) (pb_payload b + 6) src) (pb_payload b + 12) (PP_HTONS ETHTYPE_IP)"
  let ?S = "S\<lparr>pb_mem := ?m\<rparr>"
  obtain ys where g: "xs = p # ys" "chain S p xs" using assms(2) by (rule guest_live) auto
  have len: "14 \<le> unat (pb_len b)" using assms(4) by (simp add: SIZEOF_ETH_HDR_def)
  have st: "store_ok (owns L) (aq_at ` set Q) S" using assms(1) by (simp add: queue_ok_def)
  have in_b: "in_block b" using assms(3,5) g(1) by simp
  have outside: "?m a = pb_mem S a" if "a \<notin> extent S p" for a
    using that len assms(3,6,7) by (auto simp: put_bytes_store16 put_bytes_def extent_def)
  have same: "data_of ?S y = data_of S y" if y: "y \<noteq> p" "live y S = Some c" "in_block c" for y c
  proof -
    have dj: "extent S y \<inter> extent S p = {}" by (rule log.extents_apart [OF st y(1,2,3) assms(3) in_b])
    have "mem_bytes ?m (pb_payload c) (unat (pb_len c)) = mem_bytes (pb_mem S) (pb_payload c) (unat (pb_len c))"
      by (rule mem_bytes_cong, rule outside) (use dj y(2) in \<open>auto simp: extent_def\<close>)
    then show ?thesis using y(2) by (simp add: data_of_def)
  qed
  have "data_of ?S p = eth_frame dst src ETHTYPE_IP (drop 14 (data_of S p))"
    using header_written [OF assms(6,7) len] assms(3) by (simp add: data_of_def)
  moreover have "flat ?S ys = flat S ys"
  proof (rule flat_cong)
    fix x assume x: "x \<in> set ys"
    then obtain c where c: "live x S = Some c" "in_block c" using assms(5) g(1) by auto
    have "x \<noteq> p" using x g(1) chain_distinct [OF g(2)] by auto
    then show "data_of ?S x = data_of S x" using c by (rule same)
  qed
  moreover have "14 \<le> length (data_of S p)" using len assms(3) by (simp add: data_of_def)
  ultimately have fl: "flat ?S xs = eth_frame dst src ETHTYPE_IP (drop SIZEOF_ETH_HDR (flat S xs))"
    by (simp add: g(1) eth_frame_def SIZEOF_ETH_HDR_def)
  have fr: "frame_of ?S p = flat ?S xs" using frame_of_guest [of ?S p xs] assms(2) by simp
  obtain e S' where l: "linkoutput env p ?S = (e, S')" by (cases "linkoutput env p ?S")
  have "queue_ok (owns L) X Q ?S" using assms(1) by simp
  note L = link_log [OF this l]
  have "data_of S' y = data_of ?S y" for y using L(3,4) by (simp add: data_of_def split: option.split)
  then show ?thesis using L l assms(3) same fr fl by (simp add: etharp_send_ip_def untouched_def)
qed

lemma send_queue_log:
  "ae_q (arp_table A ! i) = qs \<Longrightarrow> i < length (arp_table A) \<Longrightarrow> queue_ok (owns L) X (qs @ Q) (arp_store A) \<Longrightarrow>
   length mac = 6 \<Longrightarrow> length (nif_hwaddr nif) = 6 \<Longrightarrow>
   \<exists>A'. send_queue env nif i mac qs A = Some A' \<and>
     queue_ok (owns (L @ map (\<lambda>r. eth_frame mac (nif_hwaddr nif) ETHTYPE_IP (datagram (arp_store A) r)) qs)) X Q (arp_store A') \<and>
     A' = A\<lparr>arp_table := (arp_table A)[i := (arp_table A ! i)\<lparr>ae_q := []\<rparr>], arp_store := arp_store A'\<rparr> \<and>
     untouched (aq_p ` set qs) (arp_store A) (arp_store A')"
proof (induction qs arbitrary: A L)
  case Nil
  then have "(arp_table A)[i := (arp_table A ! i)\<lparr>ae_q := []\<rparr>] = arp_table A"
    by (cases "arp_table A ! i") (simp add: list_update_same_conv)
  then show ?case using Nil by simp
next
  case (Cons q qs)
  let ?S = "(arp_store A)\<lparr>pb_heap := mem_free (heap_env env) (aq_at q) (pb_heap (arp_store A))\<rparr>"
  let ?A1 = "\<lambda>S. A\<lparr>arp_table := (arp_table A)[i := (arp_table A ! i)\<lparr>ae_q := qs\<rparr>], arp_store := S\<rparr>"
  let ?frame = "\<lambda>r. eth_frame mac (nif_hwaddr nif) ETHTYPE_IP (datagram (arp_store A) r)"
  have q0: "queue_ok (owns L) X (q # qs @ Q) (arp_store A)" using Cons.prems(3) by simp
  have nX: "aq_p q \<notin> X" "aq_p q \<notin> aq_p ` set qs" and w: "waiting (arp_store A) (aq_p q)" "waiting ?S (aq_p q)"
    using q0 by (auto simp: queue_ok_def)
  have q1: "queue_ok (owns L) (insert (aq_p q) X) (qs @ Q) ?S" by (rule log.entry_free [OF q0])
  obtain b where b: "live (aq_p q) ?S = Some b" "SIZEOF_ETH_HDR \<le> unat (pb_len b)" "in_block b"
    using w(2) by (auto simp: waiting_def split: option.splits)
  have d: "drop SIZEOF_ETH_HDR (flat ?S [aq_p q]) = datagram (arp_store A) q" by (simp add: datagram_def)
  obtain S1 where S1: "etharp_send_ip env (aq_p q) (nif_hwaddr nif) mac ?S = Some (ERR_OK, S1)"
    "queue_ok (owns (L @ [?frame q])) (insert (aq_p q) X) (qs @ Q) S1" "\<forall>x. live x S1 = live x ?S" "untouched {aq_p q} ?S S1"
    using send_ip_log [OF q1 waiting_guest [OF w(2)] b(1,2) _ Cons.prems(4,5)] b unfolding d by auto
  have "single S1 (aq_p q)" using w(2) S1(3) waiting_single [of ?S "aq_p q"] by (simp add: single_def)
  then obtain n S2 where S2: "pbuf_free (heap_env env) (aq_p q) S1 = Some (n, S2)"
    "queue_ok (owns (L @ [?frame q])) (insert (aq_p q) X - {aq_p q}) (qs @ Q) S2"
    "leaves ((insert (aq_p q) X - {aq_p q}) \<union> aq_p ` set (qs @ Q)) S1 S2" "pb_mem S2 = pb_mem S1"
    by (rule runsE [OF log.single_free [OF S1(2) _ insertI1]]) auto
  have X: "insert (aq_p q) X - {aq_p q} = X" using nX by auto
  have "untouched {aq_p q} S1 S2" by (rule untouched_leaves [OF S1(2) S2(3,4)])
  with S1(4) have u: "untouched {aq_p q} (arp_store A) S2" by (auto intro: untouched_trans)
  have fr: "eth_frame mac (nif_hwaddr nif) ETHTYPE_IP (datagram S2 r) = ?frame r" if "r \<in> set qs" for r
  proof -
    have "aq_p r \<in> aq_p ` set qs" "waiting (arp_store A) (aq_p r)" using that q0 by (simp_all add: queue_ok_def)
    moreover from this have "aq_p r \<notin> {aq_p q}" using nX(2) by auto
    ultimately show ?thesis using untouched_waiting [OF u] by (simp add: datagram_def)
  qed
  have prems: "ae_q (arp_table (?A1 S2) ! i) = qs" "i < length (arp_table (?A1 S2))"
    "queue_ok (owns (L @ [?frame q])) X (qs @ Q) (arp_store (?A1 S2))" using Cons.prems(2) S2(2) X by simp_all
  obtain A' where A': "send_queue env nif i mac qs (?A1 S2) = Some A'"
    "queue_ok (owns ((L @ [?frame q]) @ map (\<lambda>r. eth_frame mac (nif_hwaddr nif) ETHTYPE_IP (datagram S2 r)) qs)) X Q (arp_store A')"
    "A' = (?A1 S2)\<lparr>arp_table := (arp_table (?A1 S2))[i := (arp_table (?A1 S2) ! i)\<lparr>ae_q := []\<rparr>], arp_store := arp_store A'\<rparr>"
    "untouched (aq_p ` set qs) S2 (arp_store A')"
    using Cons.IH [OF prems Cons.prems(4,5)] by auto
  have frs: "map (\<lambda>r. eth_frame mac (nif_hwaddr nif) ETHTYPE_IP (datagram S2 r)) qs = map ?frame qs" using fr by simp
  have "queue_ok (owns (L @ map ?frame (q # qs))) X Q (arp_store A')" using A'(2) unfolding frs by simp
  moreover have "send_queue env nif i mac (q # qs) A = Some A'" using S1(1) S2(1) A'(1) by (simp add: upd_entry_def Let_def)
  moreover have "A' = A\<lparr>arp_table := (arp_table A)[i := (arp_table A ! i)\<lparr>ae_q := []\<rparr>], arp_store := arp_store A'\<rparr>"
    using Cons.prems(2) by (subst A'(3)) simp
  moreover have "untouched (aq_p ` set (q # qs)) (arp_store A) (arp_store A')" by (rule untouched_trans [OF u A'(4)]) auto
  ultimately show ?case by blast
qed

definition stable_entry :: "u8 list \<Rightarrow> etharp_entry \<Rightarrow> etharp_entry" where
  "stable_entry mac e = e\<lparr>ae_state := ETHARP_STATE_STABLE, ae_ethaddr := mac, ae_ctime := 0\<rparr>"

text \<open>Marking the entry for an address stable sends what waits for it, and changes no other line.\<close>

lemma settle_log:
  assumes "arp_ok (owns L) nif X A" "holds_entry a (arp_table A) k" "unicast nif a" "length mac = 6" "length (nif_hwaddr nif) = 6"
  shows "\<exists>A'. send_queue env nif k mac (ae_q (arp_table A ! k)) (upd_entry k (stable_entry mac) A) = Some A' \<and>
    arp_ok (owns (L @ map (eth_frame mac (nif_hwaddr nif) ETHTYPE_IP) (map (datagram (arp_store A)) (ae_q (arp_table A ! k))))) nif X A' \<and>
    untouched (aq_p ` set (ae_q (arp_table A ! k))) (arp_store A) (arp_store A') \<and>
    (\<forall>b. arp_cache A' b = (if b = a then Some (Resolved 0 mac) else arp_cache A b))"
proof -
  note D = arp_okD [OF assms(1)]
  let ?t = "arp_table A" and ?q = "ae_q (arp_table A ! k)"
  let ?e = "(stable_entry mac (?t ! k))\<lparr>ae_q := []\<rparr>"
  let ?A = "upd_entry k (stable_entry mac) A"
  have k: "k < length ?t" "ae_ipaddr (?t ! k) = a" using assms(2) D(2) by (simp_all add: holds_entry_def)
  have st: "is_stable ?e" "in_use ?e" "ae_ipaddr ?e = a" using k by (simp_all add: is_stable_def in_use_def stable_entry_def)
  have wf: "table_wf nif (?t[k := ?e])"
    by (rule table_wf_mark [OF D(1) assms(2)])
      (use st assms(3,4) in \<open>simp_all add: entry_wf_stable stable_entry_def ARP_MAXAGE_def ETHARP_HWADDR_LEN_def\<close>)
  have m: "mset (queued A) = mset (?q @ concat (map ae_q (?t[k := ?e])))"
    unfolding queued_def by (rule other_queues [OF k(1)]) simp
  have q: "queue_ok (owns L) X (?q @ concat (map ae_q (?t[k := ?e]))) (arp_store A)" using D(4) by (simp add: queue_ok_mset [OF m])
  have sq: "ae_q (arp_table ?A ! k) = ?q" "k < length (arp_table ?A)" "arp_store ?A = arp_store A"
    using k(1) by (simp_all add: upd_entry_def stable_entry_def)
  from send_queue_log [OF sq(1,2) _ assms(4,5), of L X, unfolded sq(3), OF q]
  obtain A' where A': "send_queue env nif k mac ?q ?A = Some A'"
    "queue_ok (owns (L @ map (\<lambda>r. eth_frame mac (nif_hwaddr nif) ETHTYPE_IP (datagram (arp_store A) r)) ?q)) X (concat (map ae_q (?t[k := ?e]))) (arp_store A')"
    "A' = ?A\<lparr>arp_table := (arp_table ?A)[k := (arp_table ?A ! k)\<lparr>ae_q := []\<rparr>], arp_store := arp_store A'\<rparr>"
    "untouched (aq_p ` set ?q) (arp_store A) (arp_store A')" by blast
  have t: "arp_table A' = ?t[k := ?e]" "etharp_cached_entry A' = etharp_cached_entry A"
    using k(1) by (subst A'(3), simp add: upd_entry_def)+
  have Q: "queued A' = concat (map ae_q (?t[k := ?e]))" by (simp only: queued_def t(1))
  have "datagram (arp_store A') r = datagram (arp_store A) r" if r: "r \<in> set (queued A')" for r
  proof -
    have "aq_p r \<notin> aq_p ` set ?q" "waiting (arp_store A) (aq_p r)" using queue_ok_rest [OF q] r by (simp_all add: Q)
    then show ?thesis using untouched_waiting [OF A'(4)] by (simp add: datagram_def)
  qed
  then have c: "arp_cache A' b = map_option (line_of (arp_store A)) (lookup_entry b (?t[k := ?e]))" for b
    by (subst cache_same_datagrams [of A' "arp_store A"]) (simp_all add: t(1))
  have "lookup_entry b (?t[k := ?e]) = (if b = a then Some ?e else lookup_entry b ?t)" for b
    using lookup_replaced [OF D(1) wf k(1) st(2)] st(3) k(2) by simp
  then have cache: "arp_cache A' b = (if b = a then Some (Resolved 0 mac) else arp_cache A b)" for b
    using c st(1) by (simp add: arp_cache_def line_of_def stable_entry_def)
  have "arp_ok (owns (L @ map (\<lambda>r. eth_frame mac (nif_hwaddr nif) ETHTYPE_IP (datagram (arp_store A) r)) ?q)) nif X A'"
    using wf D(3) A'(2) by (simp add: arp_ok_def t Q)
  then show ?thesis using A'(1,4) cache by (simp add: comp_def)
qed

text \<open>What holds after \<open>find_entry\<close> in any case.\<close>

definition found_by :: "u8 list list \<Rightarrow> nat set \<Rightarrow> 'h arp_state \<Rightarrow> 'h arp_state \<Rightarrow> bool" where
  "found_by L X A A1 \<longleftrightarrow> arp_ok (owns L) nif X A1 \<and> untouched (aq_p ` set (queued A)) (arp_store A) (arp_store A1) \<and>
     (\<forall>r\<in>set (queued A1). datagram (arp_store A1) r = datagram (arp_store A) r) \<and> etharp_cached_entry A1 = etharp_cached_entry A \<and>
     set (queued A1) \<subseteq> set (queued A) \<and> leaves X (arp_store A) (arp_store A1)"

lemma found_byD:
  assumes "found_by L X A A1"
  shows "arp_ok (owns L) nif X A1" "untouched (aq_p ` set (queued A)) (arp_store A) (arp_store A1)"
    "\<forall>r\<in>set (queued A1). datagram (arp_store A1) r = datagram (arp_store A) r" "etharp_cached_entry A1 = etharp_cached_entry A"
    "set (queued A1) \<subseteq> set (queued A)" "leaves X (arp_store A) (arp_store A1)"
  using assms by (simp_all add: found_by_def)

lemma find_entry_log:
  assumes "arp_ok (owns L) nif X A"
  obtains i A1 where "find_entry env (Some a) flags A = Some (i, A1)" "found_by L X A A1" "found_entry a flags (arp_table A) i (arp_table A1)"
proof (rule runsE [OF log.find_entry_spec [OF assms, of a flags]], clarify)
  fix i A1
  assume f: "find_entry env (Some a) flags A = Some (i, A1)" "arp_ok (owns L) nif X A1" "set (queued A1) \<subseteq> set (queued A)"
    "found_entry a flags (arp_table A) i (arp_table A1)" "etharp_cached_entry A1 = etharp_cached_entry A"
    and le: "leaves (X \<union> aq_p ` set (queued A1)) (arp_store A) (arp_store A1)" and mem: "pb_mem (arp_store A1) = pb_mem (arp_store A)"
  have "untouched (aq_p ` set (queued A)) (arp_store A) (arp_store A1)"
    by (rule untouched_alive [OF _ le mem]) (use arp_okD(4) [OF assms] in \<open>auto simp: queue_ok_def\<close>)
  moreover have "\<forall>r\<in>set (queued A1). datagram (arp_store A1) r = datagram (arp_store A) r"
    using le mem by (auto simp: leaves_def intro!: datagram_cong)
  moreover have "leaves X (arp_store A) (arp_store A1)" using le by (rule leaves_subset) blast
  ultimately have "found_by L X A A1" using f by (simp add: found_by_def)
  then show thesis using f by (intro that)
qed

text \<open>
  The entry \<open>find_entry\<close> settles on, and the lines afterwards: a line was there; or none was made;
  or a new entry stands ready, not yet in use, perhaps at the cost of another line.
\<close>

lemma find_entry_lines:
  assumes "arp_ok (owns L) nif X A"
  obtains (hit) k A1 where "find_entry env (Some a) flags A = Some (int k, A1)" "found_by L X A A1"
      "holds_entry a (arp_table A1) k" "in_use (arp_table A1 ! k)" "arp_cache A1 = arp_cache A"
      "arp_cache A a = Some (line_of (arp_store A) (arp_table A1 ! k))"
  | (none) A1 where "find_entry env (Some a) flags A = Some (ERR_MEM, A1)" "found_by L X A A1" "arp_cache A1 = arp_cache A"
      "arp_cache A a = None" "flags AND ETHARP_FLAG_FIND_ONLY \<noteq> 0 \<or> cache_full (arp_cache A) \<and> flags AND ETHARP_FLAG_TRY_HARD = 0"
  | (made) k A1 where "find_entry env (Some a) flags A = Some (int k, A1)" "found_by L X A A1"
      "holds_entry a (arp_table A1) k" "\<not> in_use (arp_table A1 ! k)" "ae_q (arp_table A1 ! k) = []" "ae_ctime (arp_table A1 ! k) = 0"
      "arp_cache A a = None" "flags AND ETHARP_FLAG_FIND_ONLY = 0"
      "if cache_full (arp_cache A) then flags AND ETHARP_FLAG_TRY_HARD \<noteq> 0 \<and> (\<exists>v\<in>dom (arp_cache A). arp_cache A1 = (arp_cache A)(v := None))
       else arp_cache A1 = arp_cache A"
proof -
  note D = arp_okD [OF assms]
  let ?t = "arp_table A" and ?S = "arp_store A"
  obtain i A1 where f: "find_entry env (Some a) flags A = Some (i, A1)" "found_by L X A A1" "found_entry a flags ?t i (arp_table A1)"
    using assms by (rule find_entry_log)
  note D1 = arp_okD [OF found_byD(1) [OF f(2)]]
  have c1: "arp_cache A1 b = map_option (line_of ?S) (lookup_entry b (arp_table A1))" for b
    by (rule cache_same_datagrams) (use found_byD(3) [OF f(2)] in blast)
  have holds: "holds_entry a (arp_table A1) (nat i)" if "0 \<le> i"
    using log.found_entry_holds [OF f(3) D(2,5)] that by (auto simp: ERR_MEM_def)
  from f(3) D(1) show thesis
  proof (cases rule: found_entry_cases)
    case (hit e)
    have "arp_cache A1 = arp_cache A" using c1 hit(2) by (simp add: fun_eq_iff arp_cache_def)
    then show thesis using that(1) [of "nat i" A1] f(1,2) holds hit by (simp add: arp_cache_def)
  next
    case none
    have "arp_cache A1 = arp_cache A" using c1 none(3) by (simp add: fun_eq_iff arp_cache_def)
    then show thesis using that(2) [of A1] f(1,2) none cache_full_iff [OF D(1)] by (simp add: arp_cache_def)
  next
    case fresh
    have wf1: "table_wf nif (?t[nat i := created a (?t ! nat i)])" using D1(1) fresh(5) by simp
    have same: "arp_cache A1 = arp_cache A"
      using c1 fresh(4) lookup_created [OF D(1) wf1 fresh(3)] by (simp add: fun_eq_iff arp_cache_def fresh(5))
    have "entry_wf nif (?t ! nat i)" using D(1) fresh(3) by (simp add: table_wf_def)
    then have "ae_q (arp_table A1 ! nat i) = []" using fresh(3,4,5) by (simp add: in_use_def)
    moreover have "\<not> cache_full (arp_cache A)" using cache_full_iff [OF D(1)] fresh(3,4) nth_mem by blast
    ultimately show thesis using that(3) [of "nat i" A1] f(1,2) holds fresh same by (simp add: arp_cache_def)
  next
    case recycled
    let ?v = "ae_ipaddr (?t ! nat i)"
    have wf1: "table_wf nif (?t[nat i := created a (emptied (?t ! nat i))])" using D1(1) recycled(5) by simp
    have "arp_cache A1 = (arp_cache A)(?v := None)"
      using c1 recycled(4) lookup_created [OF D(1) wf1 recycled(3)] by (simp add: fun_eq_iff arp_cache_def recycled(5))
    moreover have "?v \<in> dom (arp_cache A)" using dom_cache [OF D(5)] recycled(3,4) by auto
    ultimately have v: "\<exists>v\<in>dom (arp_cache A). arp_cache A1 = (arp_cache A)(v := None)" by blast
    have "cache_full (arp_cache A)" using cache_full_iff [OF D(1)] recycled(8) by blast
    then show thesis using that(3) [of "nat i" A1] f(1,2) holds recycled v by (simp add: arp_cache_def)
  qed
qed

lemma update_log:
  assumes "arp_ok (owns L) nif X A" "unicast nif a" "length mac = 6" "length (nif_hwaddr nif) = 6"
  shows "\<exists>err ds A'. update_arp_entry env nif a mac flags A = Some (err, A') \<and>
    arp_ok (owns (L @ map (eth_frame mac (nif_hwaddr nif) ETHTYPE_IP) ds)) nif X A' \<and>
    untouched (aq_p ` set (queued A)) (arp_store A) (arp_store A') \<and> learned flags a mac (arp_cache A) err ds (arp_cache A')"
proof -
  let ?S = "arp_store A" and ?P = "aq_p ` set (queued A)"
  have settle: "\<exists>err ds A'. update_arp_entry env nif a mac flags A = Some (err, A') \<and>
      arp_ok (owns (L @ map (eth_frame mac (nif_hwaddr nif) ETHTYPE_IP) ds)) nif X A' \<and> untouched ?P ?S (arp_store A') \<and>
      learned flags a mac (arp_cache A) err ds (arp_cache A')"
    if f: "find_entry env (Some a) flags A = Some (int k, A1)" "found_by L X A A1" and h: "holds_entry a (arp_table A1) k"
      and l: "learned flags a mac (arp_cache A) ERR_OK (map (datagram ?S) (ae_q (arp_table A1 ! k))) ((arp_cache A1)(a \<mapsto> Resolved 0 mac))" for k A1
  proof -
    note F = found_byD [OF f(2)]
    have k: "k < length (arp_table A1)" using h arp_okD(2) [OF F(1)] by (simp add: holds_entry_def)
    have eq: "update_arp_entry env nif a mac flags A =
        Option.bind (send_queue env nif k mac (ae_q (arp_table A1 ! k)) (upd_entry k (stable_entry mac) A1)) (\<lambda>A. Some (ERR_OK, A))"
      using k assms(2) f(1) unfolding update_arp_entry_def stable_entry_def by (auto simp: unicast_def Let_def upd_entry_def)
    have ds: "map (datagram (arp_store A1)) (ae_q (arp_table A1 ! k)) = map (datagram ?S) (ae_q (arp_table A1 ! k))"
      using F(3) k by (auto simp: queued_def)
    have sub: "aq_p ` set (ae_q (arp_table A1 ! k)) \<subseteq> ?P" using F(5) k by (fastforce simp: queued_def)
    obtain A' where A': "send_queue env nif k mac (ae_q (arp_table A1 ! k)) (upd_entry k (stable_entry mac) A1) = Some A'"
      "arp_ok (owns (L @ map (eth_frame mac (nif_hwaddr nif) ETHTYPE_IP) (map (datagram ?S) (ae_q (arp_table A1 ! k))))) nif X A'"
      "untouched (aq_p ` set (ae_q (arp_table A1 ! k))) (arp_store A1) (arp_store A')"
      "\<forall>b. arp_cache A' b = (if b = a then Some (Resolved 0 mac) else arp_cache A1 b)"
      using settle_log [OF F(1) h assms(2-4)] unfolding ds by blast
    have "untouched ?P ?S (arp_store A')" by (rule untouched_trans [OF F(2) A'(3)]) (use sub in auto)
    moreover have "arp_cache A' = (arp_cache A1)(a \<mapsto> Resolved 0 mac)" using A'(4) by (simp add: fun_eq_iff)
    moreover have "update_arp_entry env nif a mac flags A = Some (ERR_OK, A')" using eq A'(1) by simp
    ultimately show ?thesis using A'(2) l by metis
  qed
  from assms(1) show ?thesis
  proof (cases rule: find_entry_lines [of L X A a flags])
    case (hit k A1)
    let ?e = "arp_table A1 ! k"
    have w: "entry_wf nif ?e" using arp_okD(6) [OF found_byD(1) [OF hit(2)]] hit(3) by (simp add: holds_entry_def)
    have "line_datagrams (line_of ?S ?e) = map (datagram ?S) (ae_q ?e)"
      using w by (cases "is_stable ?e") (simp_all add: line_of_def entry_wf_stable)
    then show ?thesis using hit(5,6) by (intro settle [OF hit(1-3)]) (simp add: learned_def)
  next
    case (none A1)
    have "update_arp_entry env nif a mac flags A = Some (ERR_MEM, A1)"
      using none(1) assms(2) by (simp add: update_arp_entry_def unicast_def ERR_MEM_def)
    moreover have "learned flags a mac (arp_cache A) ERR_MEM [] (arp_cache A1)" using none(3-5) by (simp add: learned_def)
    ultimately show ?thesis using found_byD(1,2) [OF none(2)] by (intro exI [of _ ERR_MEM] exI [of _ "[]"] exI [of _ A1]) simp
  next
    case (made k A1)
    show ?thesis by (rule settle [OF made(1-3)]) (use made(5,7,8,9) in \<open>auto simp: learned_def split: if_splits\<close>)
  qed
qed

end

section \<open>A station that logs its frames\<close>

definition logged :: "nat \<Rightarrow> u8 list list \<Rightarrow> (nat \<rightharpoonup> nat) \<Rightarrow> umm_state \<times> u8 list list \<Rightarrow> bool" where
  "logged w L R h \<longleftrightarrow> umm_owns w R h \<and> snd h = L"

definition frames :: "('s \<times> u8 list list) arp_state \<Rightarrow> u8 list list" where
  "frames A = device_state (arp_store A)"

lemma lwip_heap_logged: "lwip_heap (heap_env (station w frame_log)) (logged w L)"
proof (unfold_locales, unfold station_def arp_env.simps logged_def, goal_cases)
  case (1 R h a n b m)
  then show ?case using umm_lwip.owns_apart [of w R h a n b m] by simp
next
  case (2 R h n p h')
  then have "snd h' = snd h" by (auto simp: umm_pbuf_env_def split: prod.splits)
  then show ?case using 2 umm_lwip.malloc_ok [of w R h n "recycle frame_log" p h'] by auto
next
  case (3 R h p)
  then show ?case using umm_lwip.free_ok [of w R h p "recycle frame_log"] by (auto simp: umm_pbuf_env_def split: prod.splits)
next
  case (4 R h e)
  then show ?case using umm_lwip.recycle_ok [of w R h "recycle frame_log" e] by (auto simp: umm_pbuf_env_def frame_log_def split: prod.splits)
qed

interpretation wire: arp_log "station w frame_log" "logged w" nif for w and nif :: eth_netif
proof (rule arp_log.intro, goal_cases)
  case (1 L)
  show ?case by (rule lwip_heap_logged)
next
  case (2 p S e S')
  then have "e = ERR_OK" "S' = set_device (device_state S @ [frame_of S p]) S" by (simp_all add: station_def frame_log_def)
  then show ?case
    by (intro conjI exI [of _ "(fst (pb_heap S), snd (pb_heap S) @ [frame_of S p])"])
      (simp_all add: set_device_def device_state_def logged_def umm_owns_device)
qed

lemma arp_ok_logged: "arp_ok (logged w L) nif X A \<longleftrightarrow> arp_ok (umm_owns w) nif X A \<and> frames A = L"
  by (auto simp: arp_ok_def queue_ok_def store_ok_def logged_def frames_def device_state_def)

text \<open>
  C10. Learning an address.  In every reachable state, told that the unicast address \<open>a\<close> is at
  \<open>mac\<close>, \<open>update_arp_entry\<close> returns; when the cache has a line for \<open>a\<close> the line becomes resolved
  and fresh and the datagrams that waited for it are sent in order, each behind an Ethernet header
  to \<open>mac\<close>, and nothing else is sent; when it has none, nothing is sent, and a line is made if that
  is asked for, in place of another only if the table is full.  No other line changes.  For any
  other address nothing happens.
\<close>

theorem update_arp_entry_learns:
  assumes "arp_reachable w frame_log nif A" "length mac = 6" "length (nif_hwaddr nif) = 6"
  shows "\<exists>err ds A'. update_arp_entry (station w frame_log) nif a mac flags A = Some (err, A') \<and>
    (if unicast nif a
     then learned flags a mac (arp_cache A) err ds (arp_cache A') \<and> arp_ok (umm_owns w) nif {} A' \<and>
       frames A' = frames A @ map (eth_frame mac (nif_hwaddr nif) ETHTYPE_IP) ds
     else err = ERR_ARG \<and> A' = A)"
proof (cases "unicast nif a")
  case True
  have "arp_ok (logged w (frames A)) nif {} A" using reachable_ok [OF assms(1)] by (simp add: arp_ok_logged)
  from wire.update_log [OF this True assms(2,3), of flags] show ?thesis using True by (fastforce simp: arp_ok_logged)
next
  case False
  then show ?thesis by (auto simp: update_arp_entry_def unicast_def)
qed

lemma lan_unicast: "unicast (lan_host 2) 0x0501A8C0" "length (nif_hwaddr (lan_host n)) = 6"
  by (simp_all add: unicast_def lan_host_def ip_addr_isany_def ip4_addr_isbroadcast_def ip_addr_ismulticast_def PP_HTONL_def
      IPADDR_ANY_def IPADDR_BROADCAST_def IPADDR_NONE_def NETIF_FLAG_ETHARP_def NETIF_FLAG_BROADCAST_def ip_addr_netcmp_def Let_def)

lemma update_arp_entry_learns_witness:
  "\<exists>err ds A'. update_arp_entry (station 1000 frame_log) (lan_host 2) 0x0501A8C0 [2, 0, 0, 0, 0, 5] ETHARP_FLAG_TRY_HARD booted = Some (err, A') \<and>
     learned ETHARP_FLAG_TRY_HARD 0x0501A8C0 [2, 0, 0, 0, 0, 5] (arp_cache booted) err ds (arp_cache A') \<and>
     frames A' = frames booted @ map (eth_frame [2, 0, 0, 0, 0, 5] [2, 0, 0, 0, 0, 2] ETHTYPE_IP) ds"
proof -
  have "length [2, 0, 0, 0, 0, 5 :: u8] = 6" "nif_hwaddr (lan_host 2) = [2, 0, 0, 0, 0, 2]" by (simp_all add: lan_host_def)
  with update_arp_entry_learns [OF reachable_booted [of 1000 frame_log "lan_host 2"] this(1) lan_unicast(2), of "0x0501A8C0" ETHARP_FLAG_TRY_HARD]
  show ?thesis using lan_unicast(1) by auto
qed

end
