(* ===== verification/EtharpSend.thy ===== *)
theory EtharpSend
  imports EtharpWire
begin

text \<open>
  The wire format of ARP messages, what a datagram to send puts on the wire and leaves in the
  cache, and the exchange of a request and its reply between two stations.
\<close>

section \<open>ARP messages\<close>

definition arp_message :: "u16 \<Rightarrow> u8 list \<Rightarrow> u32 \<Rightarrow> u8 list \<Rightarrow> u32 \<Rightarrow> u8 list" where
  "arp_message opcode sha sip tha tip =
     be16 HWTYPE_ETHERNET @ be16 ETHTYPE_IP @ [6, 4] @ be16 opcode @ sha @ addr_bytes sip @ tha @ addr_bytes tip"

definition arp_request_frame :: "eth_netif \<Rightarrow> u32 \<Rightarrow> u8 list" where
  "arp_request_frame nif a =
     eth_frame ethbroadcast (nif_hwaddr nif) ETHTYPE_ARP (arp_message ARP_REQUEST (nif_hwaddr nif) (nif_ip_addr nif) ethzero a)"

definition arp_reply_frame :: "eth_netif \<Rightarrow> u8 list \<Rightarrow> u32 \<Rightarrow> u8 list" where
  "arp_reply_frame nif mac a =
     eth_frame mac (nif_hwaddr nif) ETHTYPE_ARP (arp_message ARP_REPLY (nif_hwaddr nif) (nif_ip_addr nif) mac a)"

lemma htons_swap: "lwip_htons v = PP_HTONS v"
  by (simp add: lwip_htons_def PP_HTONS_def)

text \<open>A frame of 42 bytes by its twelve fields.\<close>

lemma mem_bytes_fields:
  "mem_bytes m a 42 = mem_bytes m a 6 @ mem_bytes m (a + 6) 6 @ mem_bytes m (a + 12) 2 @ mem_bytes m (a + 14) 2 @
     mem_bytes m (a + 16) 2 @ mem_bytes m (a + 18) 1 @ mem_bytes m (a + 19) 1 @ mem_bytes m (a + 20) 2 @
     mem_bytes m (a + 22) 6 @ mem_bytes m (a + 28) 4 @ mem_bytes m (a + 32) 6 @ mem_bytes m (a + 38) 4"
proof -
  have "(42 :: nat) = 6 + (6 + (2 + (2 + (2 + (1 + (1 + (2 + (6 + (4 + (6 + 4))))))))))" by simp
  then show ?thesis by (simp only: mem_bytes_append append.assoc add.assoc) (simp add: add.assoc)
qed

lemma raw_frame:
  assumes "length ethsrc = 6" "length ethdst = 6" "length hwsrc = 6" "length hwdst = 6"
  shows "mem_bytes (let hdr = a + SIZEOF_ETH_HDR; m = store16 m (hdr + 6) (lwip_htons opcode);
      m = put_bytes m (hdr + 8) hwsrc; m = put_bytes m (hdr + 18) hwdst; m = put_bytes m a ethdst;
      m = put_bytes m (a + 6) ethsrc; m = store32 m (hdr + 14) ipsrc; m = store32 m (hdr + 24) ipdst;
      m = store16 m hdr (PP_HTONS HWTYPE_ETHERNET); m = store16 m (hdr + 2) (PP_HTONS ETHTYPE_IP);
      m = m(hdr + 4 := of_nat ETHARP_HWADDR_LEN); m = m(hdr + 5 := 4) in store16 m (a + 12) (PP_HTONS ETHTYPE_ARP)) a 42 =
    eth_frame ethdst ethsrc ETHTYPE_ARP (arp_message opcode hwsrc ipsrc hwdst ipdst)"
  unfolding Let_def SIZEOF_ETH_HDR_def put_bytes_update put_bytes_store16 put_bytes_store32 htons_swap swap_bytes mem_bytes_fields
  using assms
  by (simp add: ac_simps mem_bytes_put_same mem_bytes_put_other eth_frame_def arp_message_def ETHARP_HWADDR_LEN_def)

section \<open>Requests\<close>

lemma alive_untouched: "queue_ok owns X Q S \<Longrightarrow> leaves (X \<union> aq_p ` set Q) S S' \<Longrightarrow> pb_mem S' = pb_mem S \<Longrightarrow> untouched {} S S'"
  by (rule untouched_alive [of _ _ "X \<union> aq_p ` set Q"]) (auto simp: queue_ok_def)

lemma untouched_new:
  assumes "untouched {p} S S'" "queue_ok owns X Q S" "p \<notin> X \<union> aq_p ` set Q"
  shows "untouched {} S S'"
proof -
  have "p \<notin> structures S" using assms(2,3) by (simp add: queue_ok_def)
  then have "y \<noteq> p" if "live y S = Some c" for y c using that by (auto simp: structures_def)
  then show ?thesis using assms(1) by (simp add: untouched_def)
qed

context arp_log
begin

lemma untouched_write:
  assumes "queue_ok (owns L) X Q S" "single S p" "\<And>a. a \<notin> extent S p \<Longrightarrow> m a = pb_mem S a"
  shows "untouched {p} S (S\<lparr>pb_mem := m\<rparr>)"
  unfolding untouched_def
proof (intro allI impI conjI)
  fix y c assume y: "y \<notin> {p}" "live y S = Some c" "in_block c"
  obtain b where b: "live p S = Some b" "in_block b" using assms(2) by (auto simp: single_def split: option.splits)
  have "store_ok (owns L) (aq_at ` set Q) S" using assms(1) by (simp add: queue_ok_def)
  then have dj: "extent S y \<inter> extent S p = {}" using log.extents_apart [OF _ _ y(2,3) b] y(1) by blast
  have "mem_bytes m (pb_payload c) (unat (pb_len c)) = mem_bytes (pb_mem S) (pb_payload c) (unat (pb_len c))"
    by (rule mem_bytes_cong, rule assms(3)) (use dj y(2) in \<open>auto simp: extent_def\<close>)
  then show "live y (S\<lparr>pb_mem := m\<rparr>) = Some c" "data_of (S\<lparr>pb_mem := m\<rparr>) y = data_of S y" using y(2) by (simp_all add: data_of_def)
qed

text \<open>Writing into a structure of its own and freeing it touches nothing else.\<close>

lemma raw_log:
  assumes "queue_ok (owns L) X Q S" "length ethsrc = 6" "length ethdst = 6" "length hwsrc = 6" "length hwdst = 6"
  obtains (sent) S' where "etharp_raw env ethsrc ethdst hwsrc ipsrc hwdst ipdst opcode S = Some (ERR_OK, S')"
      "queue_ok (owns (L @ [eth_frame ethdst ethsrc ETHTYPE_ARP (arp_message opcode hwsrc ipsrc hwdst ipdst)])) X Q S'"
      "untouched {} S S'" "leaves (X \<union> aq_p ` set Q) S S'"
  | (no_memory) S' where "etharp_raw env ethsrc ethdst hwsrc ipsrc hwdst ipdst opcode S = Some (ERR_MEM, S')"
      "queue_ok (owns L) X Q S'" "untouched {} S S'" "leaves (X \<union> aq_p ` set Q) S S'"
proof (rule runsE [OF log.alloc_runs [OF assms(1), of PBUF_RAW "of_nat SIZEOF_ETHARP_PACKET"]], clarify)
  fix p S1
  assume al: "pbuf_alloc (heap_env env) PBUF_RAW (of_nat SIZEOF_ETHARP_PACKET) PBUF_RAM S = Some (p, S1)"
    and le: "leaves (X \<union> aq_p ` set Q) S S1" and mem: "pb_mem S1 = pb_mem S"
    and p: "if p = 0 then queue_ok (owns L) X Q S1
     else p \<notin> X \<union> aq_p ` set Q \<and> queue_ok (owns L) (insert p X) Q S1 \<and> single S1 p \<and>
       (\<exists>b. live p S1 = Some b \<and> pb_next b = 0 \<and> pb_len b = of_nat SIZEOF_ETHARP_PACKET \<and> pb_tot_len b = of_nat SIZEOF_ETHARP_PACKET \<and>
          pb_payload b = p + SIZEOF_STRUCT_PBUF + LWIP_MEM_ALIGN_SIZE (header_offset PBUF_RAW))"
  have u1: "untouched {} S S1" by (rule alive_untouched [OF assms(1) le mem])
  show thesis
  proof (cases "p = 0")
    case True
    then show thesis using no_memory [of S1] al p u1 le by (simp add: etharp_raw_def)
  next
    case False
    then obtain b where b: "live p S1 = Some b" "pb_len b = of_nat SIZEOF_ETHARP_PACKET" and q1: "p \<notin> X \<union> aq_p ` set Q"
      "queue_ok (owns L) (insert p X) Q S1" "single S1 p" using p by auto
    have len: "unat (pb_len b) = 42" using b(2) by (simp add: SIZEOF_ETHARP_PACKET_def SIZEOF_ETH_HDR_def)
    define m where "m = (let a = pb_payload b; hdr = a + SIZEOF_ETH_HDR; m = store16 (pb_mem S1) (hdr + 6) (lwip_htons opcode);
      m = put_bytes m (hdr + 8) hwsrc; m = put_bytes m (hdr + 18) hwdst; m = put_bytes m a ethdst;
      m = put_bytes m (a + 6) ethsrc; m = store32 m (hdr + 14) ipsrc; m = store32 m (hdr + 24) ipdst;
      m = store16 m hdr (PP_HTONS HWTYPE_ETHERNET); m = store16 m (hdr + 2) (PP_HTONS ETHTYPE_IP);
      m = m(hdr + 4 := of_nat ETHARP_HWADDR_LEN); m = m(hdr + 5 := 4) in store16 m (a + 12) (PP_HTONS ETHTYPE_ARP))"
    let ?S = "S1\<lparr>pb_mem := m\<rparr>" and ?frame = "eth_frame ethdst ethsrc ETHTYPE_ARP (arp_message opcode hwsrc ipsrc hwdst ipdst)"
    have outside: "m a = pb_mem S1 a" if "a \<notin> extent S1 p" for a
    proof -
      have "a < pb_payload b \<or> pb_payload b + 42 \<le> a" using that b(1) len by (auto simp: extent_def)
      then show ?thesis
        unfolding m_def Let_def put_bytes_update put_bytes_store16 put_bytes_store32 SIZEOF_ETH_HDR_def
        using assms(2-5) by (elim disjE) (simp_all add: write_outside)
    qed
    have "data_of ?S p = ?frame"
      using raw_frame [OF assms(2-5), of "pb_payload b"] b(1) len by (simp add: data_of_def m_def Let_def)
    moreover have "guest ?S p [p]" using q1(3) b len by (auto simp: guest_def full_packet_def single_def ref_of_def data_of_def mem_bytes_def)
    ultimately have fr: "frame_of ?S p = ?frame" using frame_of_guest [of ?S p "[p]"] by simp
    have u2: "untouched {p} S1 ?S" by (rule untouched_write [OF q1(2) q1(3)]) (use outside in simp)
    obtain e S2 where l: "linkoutput env p ?S = (e, S2)" by (cases "linkoutput env p ?S")
    have "queue_ok (owns L) (insert p X) Q ?S" using q1(2) by simp
    note K = link_log [OF this l, unfolded fr]
    have s2: "single S2 p" using q1(3) K(3) by (simp add: single_def)
    obtain n S3 where S3: "pbuf_free (heap_env env) p S2 = Some (n, S3)" "queue_ok (owns (L @ [?frame])) (insert p X - {p}) Q S3"
      "leaves ((insert p X - {p}) \<union> aq_p ` set Q) S2 S3" "pb_mem S3 = pb_mem S2"
      by (rule runsE [OF log.single_free [OF K(2) s2 insertI1]]) auto
    have X: "insert p X - {p} = X" using q1(1) by auto
    have "untouched {p} S2 S3" by (rule untouched_leaves [OF K(2) S3(3,4)])
    moreover have "untouched {} ?S S2" using K(3,4) by (auto simp: untouched_def data_of_def split: option.split)
    ultimately have "untouched {p} S1 S3" using u2 by (blast intro: untouched_trans)
    then have "untouched {p} S S3" using u1 by (blast intro: untouched_trans)
    then have "untouched {} S S3" by (rule untouched_new [OF _ assms(1) q1(1)])
    moreover have "leaves (X \<union> aq_p ` set Q) S S3" using le K(3) S3(3) unfolding X by (auto simp: leaves_def)
    moreover have "etharp_raw env ethsrc ethdst hwsrc ipsrc hwdst ipdst opcode S = Some (ERR_OK, S3)"
      using al False b(1) l S3(1) K(1) by (simp add: etharp_raw_def Let_def m_def)
    ultimately show thesis using sent [of S3] S3(2) by (simp add: X)
  qed
qed

end

section \<open>Sending to a resolved address\<close>

text \<open>A packet with room for its Ethernet header, in blocks of its own.\<close>

definition ready :: "'h pstore \<Rightarrow> nat \<Rightarrow> nat list \<Rightarrow> bool" where
  "ready S q xs \<longleftrightarrow> guest S q xs \<and> (\<forall>x\<in>set xs. \<exists>c. live x S = Some c \<and> in_block c) \<and>
     (\<exists>b. live q S = Some b \<and> SIZEOF_ETH_HDR \<le> unat (pb_len b))"

lemma ready_cong: "leaves (set xs) S S' \<Longrightarrow> ready S' q xs \<longleftrightarrow> ready S q xs"
proof -
  assume le: "leaves (set xs) S S'"
  have "q \<in> set xs" if "guest S q xs"
    using that guest_live [of S q xs] by (metis list.set_intros(1))
  then show ?thesis using le guest_cong [OF le] by (auto simp: ready_def leaves_def)
qed

lemma flat_untouched:
  assumes "untouched P S S'" "ready S q xs" "\<forall>x\<in>set xs. x \<notin> P"
  shows "flat S' xs = flat S xs"
proof (rule flat_cong)
  fix x assume x: "x \<in> set xs"
  then obtain c where "live x S = Some c" "in_block c" using assms(2) by (auto simp: ready_def)
  then show "data_of S' x = data_of S x" using assms(1,3) x by (simp add: untouched_def)
qed

lemma cache_untouched:
  assumes "arp_ok owns nif X A" "arp_table A' = arp_table A" "untouched P (arp_store A) (arp_store A')" "\<forall>r\<in>set (queued A). aq_p r \<notin> P"
  shows "arp_cache A' = arp_cache A"
proof
  fix b
  have Q: "queued A' = queued A" using assms(2) by (simp add: queued_def)
  have "datagram (arp_store A') r = datagram (arp_store A) r" if "r \<in> set (queued A)" for r
  proof -
    have "waiting (arp_store A) (aq_p r)" using arp_okD(4) [OF assms(1)] that by (simp add: queue_ok_def)
    then show ?thesis using untouched_waiting [OF assms(3), of "aq_p r"] that assms(4) by (simp add: datagram_def)
  qed
  then show "arp_cache A' b = arp_cache A b"
    by (subst cache_same_datagrams [of A' "arp_store A"]) (simp_all add: Q assms(2) arp_cache_def)
qed

lemma cache_same_line:
  assumes "table_wf nif (arp_table A)" "table_wf nif (arp_table A')" "i < length (arp_table A)" "arp_table A' = (arp_table A)[i := e]"
    "in_use e" "in_use (arp_table A ! i)" "ae_ipaddr e = ae_ipaddr (arp_table A ! i)" "arp_store A' = arp_store A"
    "line_of (arp_store A) e = line_of (arp_store A) (arp_table A ! i)"
  shows "arp_cache A' = arp_cache A"
proof
  fix b
  have o: "one_per_address (arp_table A)" using assms(1) by (simp add: table_wf_def)
  have "lookup_entry b ((arp_table A)[i := e]) = (if b = ae_ipaddr e then Some e else lookup_entry b (arp_table A))"
    by (rule lookup_replaced [OF assms(1) _ assms(3,5,7)]) (use assms(2,4) in simp)
  then show "arp_cache A' b = arp_cache A b"
    using lookup_entry_at [OF o assms(3,6)] assms(4,7-9) by (simp add: arp_cache_def)
qed

context arp_log
begin

lemma request_log:
  assumes "arp_ok (owns L) nif X A" "length (nif_hwaddr nif) = 6"
  obtains (result) pre err A' where "on_store (etharp_request env nif a) A = Some (err, A')" "arp_ok (owns (L @ pre)) nif X A'"
    "pre = [arp_request_frame nif a] \<and> err = ERR_OK \<or> pre = [] \<and> err = ERR_MEM"
    "A' = A\<lparr>arp_store := arp_store A'\<rparr>" "untouched {} (arp_store A) (arp_store A')" "leaves X (arp_store A) (arp_store A')"
    "arp_cache A' = arp_cache A"
proof -
  have q: "queue_ok (owns L) X (queued A) (arp_store A)" by (rule arp_okD(4) [OF assms(1)])
  have b6: "length ethbroadcast = 6" "length ethzero = 6" by (simp_all add: ethbroadcast_def ethzero_def)
  have finish: thesis if "on_store (etharp_request env nif a) A = Some (err, A\<lparr>arp_store := S'\<rparr>)" "queue_ok (owns (L @ pre)) X (queued A) S'"
    "pre = [arp_request_frame nif a] \<and> err = ERR_OK \<or> pre = [] \<and> err = ERR_MEM" "untouched {} (arp_store A) S'"
    "leaves (X \<union> aq_p ` set (queued A)) (arp_store A) S'" for pre err S'
  proof -
    have ok: "arp_ok (owns (L @ pre)) nif X (A\<lparr>arp_store := S'\<rparr>)" using assms(1) that(2) by (simp add: arp_ok_def queued_def)
    have c: "arp_cache (A\<lparr>arp_store := S'\<rparr>) = arp_cache A"
      using cache_untouched [OF assms(1), of "A\<lparr>arp_store := S'\<rparr>" "{}"] that(4) by simp
    show thesis by (rule result [OF that(1) ok that(3) _ _ _ c]) (use that(4,5) in \<open>auto simp: leaves_def\<close>)
  qed
  from q assms(2) b6(1) assms(2) b6(2) show thesis
  proof (cases rule: raw_log [of L X "queued A" "arp_store A" "nif_hwaddr nif" ethbroadcast "nif_hwaddr nif" ethzero "nif_ip_addr nif" a ARP_REQUEST])
    case (sent S')
    then show thesis by (intro finish [of ERR_OK S' "[arp_request_frame nif a]"]) (simp_all add: on_store_def etharp_request_def arp_request_frame_def)
  next
    case (no_memory S')
    then show thesis by (intro finish [of ERR_MEM S' "[]"]) (simp_all add: on_store_def etharp_request_def)
  qed
qed

lemma send_log:
  assumes "arp_ok (owns L) nif X A" "ready (arp_store A) q xs" "set xs \<subseteq> X" "length dst = 6" "length src = 6"
  shows "\<exists>A'. on_store (etharp_send_ip env q src dst) A = Some (ERR_OK, A') \<and>
    arp_ok (owns (L @ [eth_frame dst src ETHTYPE_IP (drop SIZEOF_ETH_HDR (flat (arp_store A) xs))])) nif X A' \<and>
    arp_cache A' = arp_cache A \<and> arp_table A' = arp_table A \<and> leaves X (arp_store A) (arp_store A')"
proof -
  have q: "queue_ok (owns L) X (queued A) (arp_store A)" by (rule arp_okD(4) [OF assms(1)])
  obtain b where b: "guest (arp_store A) q xs" "live q (arp_store A) = Some b" "SIZEOF_ETH_HDR \<le> unat (pb_len b)"
    "\<forall>x\<in>set xs. \<exists>c. live x (arp_store A) = Some c \<and> in_block c" using assms(2) by (auto simp: ready_def)
  obtain S' where S': "etharp_send_ip env q src dst (arp_store A) = Some (ERR_OK, S')"
    "queue_ok (owns (L @ [eth_frame dst src ETHTYPE_IP (drop SIZEOF_ETH_HDR (flat (arp_store A) xs))])) X (queued A) S'"
    "\<forall>x. live x S' = live x (arp_store A)" "untouched {q} (arp_store A) S'" using send_ip_log [OF q b(1-4) assms(4,5)] by blast
  have "q \<in> X" using guest_live [OF b(1)] assms(3) by (metis list.set_intros(1) subsetD)
  then have "\<forall>r\<in>set (queued A). aq_p r \<notin> {q}" using q by (auto simp: queue_ok_def)
  then have "arp_cache (A\<lparr>arp_store := S'\<rparr>) = arp_cache A"
    using cache_untouched [OF assms(1), of "A\<lparr>arp_store := S'\<rparr>" "{q}"] S'(4) by simp
  then show ?thesis using S' assms(1) by (simp add: on_store_def arp_ok_def queued_def leaves_def)
qed

lemma output_to_index_log:
  assumes "arp_ok (owns L) nif X A" "i < ARP_TABLE_SIZE" "is_stable (arp_table A ! i)" "ready (arp_store A) q xs" "set xs \<subseteq> X"
    "length (nif_hwaddr nif) = 6"
  shows "\<exists>A' pre. etharp_output_to_arp_index env nif q i A = Some (ERR_OK, A') \<and>
    (pre = [] \<or> pre = [arp_request_frame nif (ae_ipaddr (arp_table A ! i))] \<and> 228 \<le> unat (ae_ctime (arp_table A ! i))) \<and>
    arp_ok (owns (L @ pre @ [eth_frame (ae_ethaddr (arp_table A ! i)) (nif_hwaddr nif) ETHTYPE_IP (drop SIZEOF_ETH_HDR (flat (arp_store A) xs))])) nif X A' \<and>
    arp_cache A' = arp_cache A \<and> leaves X (arp_store A) (arp_store A')"
proof -
  let ?e = "arp_table A ! i" and ?d = "drop SIZEOF_ETH_HDR (flat (arp_store A) xs)"
  have mac: "length (ae_ethaddr ?e) = 6" using arp_okD(6) [OF assms(1,2)] assms(3) by (simp add: entry_wf_stable ETHARP_HWADDR_LEN_def)
  have i: "i < length (arp_table A)" using assms(2) arp_okD(2) [OF assms(1)] by simp
  have send: "\<exists>A'. on_store (etharp_send_ip env q (nif_hwaddr nif) (ae_ethaddr (arp_table A1 ! i))) A1 = Some (ERR_OK, A') \<and>
      arp_ok (owns (L1 @ [eth_frame (ae_ethaddr ?e) (nif_hwaddr nif) ETHTYPE_IP ?d])) nif X A' \<and> arp_cache A' = arp_cache A1 \<and> leaves X (arp_store A1) (arp_store A')"
    if "arp_ok (owns L1) nif X A1" "untouched {} (arp_store A) (arp_store A1)" "leaves X (arp_store A) (arp_store A1)"
      "ae_ethaddr (arp_table A1 ! i) = ae_ethaddr ?e" for A1 L1
  proof -
    have r: "ready (arp_store A1) q xs" using ready_cong [OF leaves_subset [OF that(3) assms(5)]] assms(4) by simp
    have "flat (arp_store A1) xs = flat (arp_store A) xs" by (rule flat_untouched [OF that(2) assms(4)]) simp
    then show ?thesis using send_log [OF that(1) r assms(5) mac assms(6)] that(4) by metis
  qed
  show ?thesis
  proof (cases "ae_state ?e = ETHARP_STATE_STABLE \<and> ae_ctime ?e \<ge> ARP_AGE_REREQUEST_USED")
    case True
    obtain pre err A1 where A1: "on_store (etharp_request env nif (ae_ipaddr ?e)) A = Some (err, A1)" "arp_ok (owns (L @ pre)) nif X A1"
      "pre = [arp_request_frame nif (ae_ipaddr ?e)] \<and> err = ERR_OK \<or> pre = [] \<and> err = ERR_MEM"
      "A1 = A\<lparr>arp_store := arp_store A1\<rparr>" "untouched {} (arp_store A) (arp_store A1)" "leaves X (arp_store A) (arp_store A1)"
      "arp_cache A1 = arp_cache A" using assms(1,6) by (rule request_log)
    have t1: "arp_table A1 = arp_table A" by (subst A1(4)) simp
    define A2 where "A2 = (if err = ERR_OK then upd_entry i (\<lambda>e. e\<lparr>ae_state := ETHARP_STATE_STABLE_REREQUESTING\<rparr>) A1 else A1)"
    have ok2: "arp_ok (owns (L @ pre)) nif X A2"
      unfolding A2_def
    proof (cases "err = ERR_OK")
      case True
      have "arp_ok (owns (L @ pre)) nif X (upd_entry i (\<lambda>e. e\<lparr>ae_state := ETHARP_STATE_STABLE_REREQUESTING\<rparr>) A1)"
      proof (rule log.mark_ok [OF A1(2) assms(2)])
        show "entry_wf nif ((arp_table A1 ! i)\<lparr>ae_state := ETHARP_STATE_STABLE_REREQUESTING\<rparr>)"
          using assms(3) arp_okD(6) [OF assms(1,2)] by (simp add: t1 entry_wf_stable is_stable_def)
      qed (use assms(3) t1 in \<open>auto simp: in_use_cases\<close>)
      then show "arp_ok (owns (L @ pre)) nif X (if err = ERR_OK then upd_entry i (\<lambda>e. e\<lparr>ae_state := ETHARP_STATE_STABLE_REREQUESTING\<rparr>) A1 else A1)"
        using True by simp
    qed (use A1(2) in simp)
    have st2: "arp_store A2 = arp_store A1" "ae_ethaddr (arp_table A2 ! i) = ae_ethaddr ?e" using i t1 by (auto simp: A2_def upd_entry_def)
    have "arp_cache A2 = arp_cache A1"
    proof (cases "err = ERR_OK")
      case True
      show ?thesis
        by (rule cache_same_line [OF arp_okD(1) [OF A1(2)] arp_okD(1) [OF ok2], of i "?e\<lparr>ae_state := ETHARP_STATE_STABLE_REREQUESTING\<rparr>"])
          (use True i t1 assms(3) in \<open>auto simp: A2_def upd_entry_def in_use_cases line_of_def is_stable_def\<close>)
    qed (simp add: A2_def)
    moreover obtain A' where A': "on_store (etharp_send_ip env q (nif_hwaddr nif) (ae_ethaddr (arp_table A2 ! i))) A2 = Some (ERR_OK, A')"
      "arp_ok (owns ((L @ pre) @ [eth_frame (ae_ethaddr ?e) (nif_hwaddr nif) ETHTYPE_IP ?d])) nif X A'" "arp_cache A' = arp_cache A2"
      "leaves X (arp_store A2) (arp_store A')" using send [OF ok2] A1(5,6) st2 by metis
    moreover have "etharp_output_to_arp_index env nif q i A = Some (ERR_OK, A')"
      using True A1(1) A'(1) unfolding etharp_output_to_arp_index_def Let_def A2_def by simp
    moreover have "228 \<le> unat (ae_ctime ?e)" using True by (simp add: ARP_AGE_REREQUEST_USED_def ARP_MAXAGE_def word_le_nat_alt)
    moreover have "leaves X (arp_store A) (arp_store A')" using A1(6) A'(4) st2(1) by (auto intro: leaves_trans)
    ultimately show ?thesis using A1(3,7) by (intro exI [of _ A'] exI [of _ pre]) auto
  next
    case False
    then have "etharp_output_to_arp_index env nif q i A = on_store (etharp_send_ip env q (nif_hwaddr nif) (ae_ethaddr ?e)) A"
      unfolding etharp_output_to_arp_index_def Let_def by (subst if_not_P [OF False]) simp
    then show ?thesis using send [OF assms(1)] by (metis append_Nil leaves_refl untouched_refl)
  qed
qed

end

section \<open>Waiting for an address\<close>

text \<open>Asking for \<open>a\<close> with the datagram \<open>d\<close> to send there: the result, the frames sent and the cache.\<close>

definition opened :: "u32 \<Rightarrow> (u32 \<rightharpoonup> arp_line) \<Rightarrow> (u32 \<rightharpoonup> arp_line) \<Rightarrow> nat \<Rightarrow> u8 list list \<Rightarrow> bool" where
  "opened a c c0 n ds \<longleftrightarrow>
     (case c a of
        Some line \<Rightarrow> c0 = c \<and> line = Resolving n ds
      | None \<Rightarrow> n = 0 \<and> ds = [] \<and> (if cache_full c then \<exists>v\<in>dom c. c0 = c(v := None) else c0 = c))"

definition queried :: "eth_netif \<Rightarrow> u32 \<Rightarrow> u8 list \<Rightarrow> (u32 \<rightharpoonup> arp_line) \<Rightarrow> int \<Rightarrow> u8 list list \<Rightarrow> (u32 \<rightharpoonup> arp_line) \<Rightarrow> bool" where
  "queried nif a d c err out c' \<longleftrightarrow>
     (if \<exists>n mac. c a = Some (Resolved n mac)
      then err = ERR_OK \<and> c' = c \<and> (\<exists>n mac. c a = Some (Resolved n mac) \<and> out = [eth_frame mac (nif_hwaddr nif) ETHTYPE_IP d])
      else (out = [] \<or> out = [arp_request_frame nif a]) \<and>
        (\<exists>c0 n ds. opened a c c0 n ds \<and>
          (err = ERR_OK \<and> c' = c0(a \<mapsto> Resolving n (newest (ds @ [d]))) \<or> err = ERR_MEM \<and> c' = c0(a \<mapsto> Resolving n ds))))"

lemma newest_map: "newest (map f xs) = map f (newest xs)"
  by (simp add: newest_def map_tl)

context arp_log
begin

lemma take_over_log:
  assumes "arp_ok (owns L) nif X A" "ready (arp_store A) q xs" "set xs \<subseteq> X"
  obtains p A1 where "on_store (take_over env q) A = Some (p, A1)" "A1 = A\<lparr>arp_store := arp_store A1\<rparr>" "untouched {} (arp_store A) (arp_store A1)"
    "leaves X (arp_store A) (arp_store A1)"
    "if p = 0 then arp_ok (owns L) nif X A1
     else p \<notin> X \<and> queue_ok (owns L) (insert p X) (queued A1) (arp_store A1) \<and> waiting (arp_store A1) p \<and>
       data_of (arp_store A1) p = flat (arp_store A) xs"
proof -
  let ?S = "arp_store A"
  have q: "queue_ok (owns L) X (queued A) ?S" by (rule arp_okD(4) [OF assms(1)])
  have g0: "guest ?S q xs" using assms(2) by (simp add: ready_def)
  then obtain b ys where g: "guest ?S q xs" "live q ?S = Some b" "xs = q # ys" "length (data_of ?S q) = unat (pb_len b)" "unat (pb_tot_len b) = length (flat ?S xs)"
    by (rule guest_live) (rule that [OF g0])
  have b: "in_block b" "SIZEOF_ETH_HDR \<le> unat (pb_len b)" "\<forall>x\<in>set xs. \<exists>c. live x ?S = Some c \<and> in_block c"
    using assms(2) g(2,3) by (auto simp: ready_def)
  have ty: "pb_type b \<noteq> PBUF_ROM" "SIZEOF_ETH_HDR \<le> unat (pb_tot_len b)" using b g(3-5) by (auto simp: in_block_def)
  show thesis
  proof (rule runsE [OF log.take_over_runs [OF q g(1) assms(3) g(2) ty]], clarify)
    fix p S1
    assume t: "take_over env q ?S = Some (p, S1)" and le: "leaves (X \<union> aq_p ` set (queued A)) ?S S1"
      and p: "if p = 0 then queue_ok (owns L) X (queued A) S1 \<and> pb_mem S1 = pb_mem ?S
        else p \<notin> X \<union> aq_p ` set (queued A) \<and> queue_ok (owns L) (insert p X) (queued A) S1 \<and> waiting S1 p \<and>
          (\<forall>a. a \<notin> extent S1 p \<longrightarrow> pb_mem S1 a = pb_mem ?S a) \<and>
          ((\<forall>x\<in>set xs. \<exists>c. live x ?S = Some c \<and> in_block c) \<longrightarrow> data_of S1 p = flat ?S xs)"
    let ?A = "A\<lparr>arp_store := S1\<rparr>"
    have u: "untouched {} ?S S1"
    proof (cases "p = 0")
      case True
      then show ?thesis using alive_untouched [OF q le] p by simp
    next
      case False
      then have p': "p \<notin> X \<union> aq_p ` set (queued A)" "queue_ok (owns L) (insert p X) (queued A) S1" "waiting S1 p"
        "\<forall>a. a \<notin> extent S1 p \<longrightarrow> pb_mem S1 a = pb_mem ?S a" using p by simp_all
      show ?thesis
        unfolding untouched_def
      proof (intro allI impI)
        fix y c assume y: "live y ?S = Some c" "in_block c"
        then have "y \<in> X \<union> aq_p ` set (queued A)" using q by (auto simp: queue_ok_def structures_def)
        then have y1: "live y S1 = Some c" "y \<noteq> p" using le y(1) p'(1) by (auto simp: leaves_def)
        obtain e where e: "live p S1 = Some e" "in_block e" using p'(3) by (auto simp: waiting_def split: option.splits)
        have "store_ok (owns L) (aq_at ` set (queued A)) S1" using p'(2) by (simp add: queue_ok_def)
        from log.extents_apart [OF this y1(2,1) y(2) e] have dj: "extent S1 y \<inter> extent S1 p = {}" .
        have "mem_bytes (pb_mem S1) (pb_payload c) (unat (pb_len c)) = mem_bytes (pb_mem ?S) (pb_payload c) (unat (pb_len c))"
          by (rule mem_bytes_cong, rule p'(4) [rule_format]) (use dj y1(1) in \<open>auto simp: extent_def\<close>)
        then show "live y S1 = Some c \<and> data_of S1 y = data_of ?S y" using y(1) y1(1) by (simp add: data_of_def)
      qed
    qed
    have Q: "queued ?A = queued A" by (simp add: queued_def)
    show thesis
      by (rule that [of p ?A]) (use t u le p b(3) assms(1) in \<open>auto simp: on_store_def Q leaves_def arp_ok_def split: if_splits\<close>)
  qed
qed

lemma wait_log:
  assumes "arp_ok (owns L) nif X A" "ready (arp_store A) q xs" "set xs \<subseteq> X" "i < ARP_TABLE_SIZE"
    "ae_state (arp_table A ! i) = ETHARP_STATE_PENDING" "line_of (arp_store A) (arp_table A ! i) = Resolving n ds"
  shows "\<exists>err A'. Option.bind (on_store (take_over env q) A) (\<lambda>(p, A). if p \<noteq> 0 then enqueue env i p A else Some (ERR_MEM, A)) = Some (err, A') \<and>
    arp_ok (owns L) nif X A' \<and> leaves X (arp_store A) (arp_store A') \<and>
    (err = ERR_OK \<and> arp_cache A' = (arp_cache A)(ae_ipaddr (arp_table A ! i) \<mapsto> Resolving n (newest (ds @ [drop SIZEOF_ETH_HDR (flat (arp_store A) xs)]))) \<or>
     err = ERR_MEM \<and> arp_cache A' = arp_cache A)"
proof -
  let ?e = "arp_table A ! i" and ?d = "drop SIZEOF_ETH_HDR (flat (arp_store A) xs)"
  have i: "i < length (arp_table A)" using assms(4) arp_okD(2) [OF assms(1)] by simp
  have use: "in_use ?e" "\<not> is_stable ?e" using assms(5) by (simp_all add: in_use_def is_stable_def)
  obtain p A1 where A1: "on_store (take_over env q) A = Some (p, A1)" "A1 = A\<lparr>arp_store := arp_store A1\<rparr>" "untouched {} (arp_store A) (arp_store A1)"
    "leaves X (arp_store A) (arp_store A1)"
    "if p = 0 then arp_ok (owns L) nif X A1
     else p \<notin> X \<and> queue_ok (owns L) (insert p X) (queued A1) (arp_store A1) \<and> waiting (arp_store A1) p \<and> data_of (arp_store A1) p = flat (arp_store A) xs"
    using assms(1-3) by (rule take_over_log)
  have t1: "arp_table A1 = arp_table A" "etharp_cached_entry A1 = etharp_cached_entry A" by (subst A1(2), simp)+
  have c1: "arp_cache A1 = arp_cache A" using cache_untouched [OF assms(1) t1(1) A1(3)] by simp
  show ?thesis
  proof (cases "p = 0")
    case True
    then show ?thesis using A1(1,4,5) c1 by simp
  next
    case False
    then have p: "p \<notin> X" "queue_ok (owns L) (insert p X) (queued A1) (arp_store A1)" "waiting (arp_store A1) p" "data_of (arp_store A1) p = flat (arp_store A) xs"
      using A1(5) by simp_all
    have ok1: "arp_ok (owns L) nif (insert p X) A1" using assms(1) p(2) t1 by (simp add: arp_ok_def)
    have st: "ae_state (arp_table A1 ! i) = ETHARP_STATE_PENDING" using assms(5) t1(1) by simp
    show ?thesis
    proof (rule runsE [OF log.enqueue_runs [OF ok1 p(2,3,1) assms(4) st]], clarify)
      fix e A'
      assume run: "enqueue env i p A1 = Some (e, A')" and k: "kept (owns L) nif X A1 A'" and mem: "pb_mem (arp_store A') = pb_mem (arp_store A1)"
        and le: "leaves (X \<union> aq_p ` set (queued A')) (arp_store A1) (arp_store A')"
        and r: "if e = ERR_OK then \<exists>q. arp_table A' = (arp_table A1)[i := (arp_table A1 ! i)\<lparr>ae_q := q\<rparr>] \<and> map aq_p q = newest (map aq_p (ae_q (arp_table A1 ! i)) @ [p])
          else e = ERR_MEM \<and> arp_table A' = arp_table A1"
      have dg: "\<forall>r\<in>set (queued A'). datagram (arp_store A') r = datagram (arp_store A1) r" using le mem by (auto simp: leaves_def intro!: datagram_cong)
      note c2 = cache_same_datagrams [OF dg]
      have res: "arp_ok (owns L) nif X A'" "leaves X (arp_store A) (arp_store A')" using k A1(4) by (auto simp: kept_def intro: leaves_trans)
      have cache: "e = ERR_OK \<and> arp_cache A' = (arp_cache A)(ae_ipaddr ?e \<mapsto> Resolving n (newest (ds @ [?d]))) \<or> e = ERR_MEM \<and> arp_cache A' = arp_cache A"
      proof (cases "e = ERR_OK")
        case True
        then obtain q' where q': "arp_table A' = (arp_table A)[i := ?e\<lparr>ae_q := q'\<rparr>]" "map aq_p q' = newest (map aq_p (ae_q ?e) @ [p])" using r t1(1) by auto
        let ?f = "\<lambda>p. drop SIZEOF_ETH_HDR (data_of (arp_store A1) p)"
        have "map (datagram (arp_store A1)) q' = map ?f (map aq_p q')" by (simp add: datagram_def)
        also have "\<dots> = newest (map ?f (map aq_p (ae_q ?e)) @ [?d])" unfolding q'(2) newest_map [symmetric] by (simp add: p(4))
        also have "map ?f (map aq_p (ae_q ?e)) = map (datagram (arp_store A1)) (ae_q ?e)" by (simp add: datagram_def)
        also have "\<dots> = ds"
        proof -
          have "lookup_entry (ae_ipaddr ?e) (arp_table A) = Some ?e" by (rule lookup_entry_at [OF arp_okD(5) [OF assms(1)] i use(1)])
          then have "line_of (arp_store A1) ?e = line_of (arp_store A) ?e" using fun_cong [OF c1, of "ae_ipaddr ?e"] by (simp add: arp_cache_def t1(1))
          then show ?thesis using assms(6) use(2) by (auto simp: line_of_def)
        qed
        finally have dq: "map (datagram (arp_store A1)) q' = newest (ds @ [?d])" .
        have wf: "table_wf nif ((arp_table A)[i := ?e\<lparr>ae_q := q'\<rparr>])" using arp_okD(1) [OF res(1)] q'(1) by simp
        have line: "line_of (arp_store A1) (?e\<lparr>ae_q := q'\<rparr>) = Resolving n (newest (ds @ [?d]))"
          using use(2) assms(6) dq by (simp add: line_of_def is_stable_def)
        have "lookup_entry b (arp_table A') = (if b = ae_ipaddr ?e then Some (?e\<lparr>ae_q := q'\<rparr>) else lookup_entry b (arp_table A))" for b
          unfolding q'(1) using lookup_replaced [OF arp_okD(1) [OF assms(1)] wf i] use(1) by (simp add: in_use_def)
        then have "arp_cache A' b = (if b = ae_ipaddr ?e then Some (Resolving n (newest (ds @ [?d]))) else arp_cache A1 b)" for b
          using c2 line by (simp add: arp_cache_def t1(1))
        then show ?thesis using True c1 by (simp add: fun_eq_iff)
      next
        case False
        then have "e = ERR_MEM" "arp_table A' = arp_table A1" using r by simp_all
        then show ?thesis using c2 c1 by (simp add: fun_eq_iff arp_cache_def)
      qed
      have "Option.bind (on_store (take_over env q) A) (\<lambda>(p, A). if p \<noteq> 0 then enqueue env i p A else Some (ERR_MEM, A)) = Some (e, A')"
        using A1(1) False run by simp
      then show ?thesis using res cache by blast
    qed
  qed
qed

end

end
