(* ===== verification/EtharpRoute.thy ===== *)
theory EtharpRoute
  imports EtharpSend
begin

text \<open>
  A datagram to send, from the choice of the next hop to the wire: at once to a broadcast,
  multicast or resolved address, else behind a request, where it waits with the newest three.
\<close>

section \<open>A query\<close>

lemma ready_guest:
  assumes "ready S q xs"
  obtains b ys where "guest S q xs" "xs = q # ys" "q \<noteq> 0" "live q S = Some b" "in_block b" "pb_type b \<noteq> PBUF_ROM"
    "SIZEOF_ETH_HDR \<le> unat (pb_tot_len b)"
proof -
  have r: "guest S q xs" "\<forall>x\<in>set xs. \<exists>c. live x S = Some c \<and> in_block c" "\<exists>b. live q S = Some b \<and> SIZEOF_ETH_HDR \<le> unat (pb_len b)"
    using assms by (simp_all add: ready_def)
  from r(1) obtain b ys where g: "xs = q # ys" "q \<noteq> 0" "live q S = Some b" "unat (pb_tot_len b) = length (flat S xs)"
    "length (data_of S q) = unat (pb_len b)" by (rule guest_live)
  then have "in_block b" "SIZEOF_ETH_HDR \<le> unat (pb_len b)" using r(2,3) by simp_all
  moreover from this have "pb_type b \<noteq> PBUF_ROM" by (auto simp: in_block_def)
  moreover have "unat (pb_len b) \<le> unat (pb_tot_len b)" using g by simp
  ultimately show thesis using that [of ys b] r(1) g by simp
qed

context arp_log
begin

text \<open>After \<open>find_entry\<close> made or found an entry that is not resolved, it is pending.\<close>

lemma pending_lines:
  assumes "arp_ok (owns L) nif X A" "holds_entry a (arp_table A) k" "unicast nif a" "\<not> is_stable (arp_table A ! k)"
    "\<not> in_use (arp_table A ! k) \<Longrightarrow> ae_q (arp_table A ! k) = [] \<and> ae_ctime (arp_table A ! k) = 0"
  defines "A' \<equiv> A\<lparr>arp_table := (arp_table A)[k := pending (arp_table A ! k)]\<rparr>"
  shows "arp_ok (owns L) nif X A'" "ae_state (arp_table A' ! k) = ETHARP_STATE_PENDING" "ae_ipaddr (arp_table A' ! k) = a"
    "\<exists>n ds. line_of (arp_store A) (arp_table A' ! k) = Resolving n ds \<and>
      (if in_use (arp_table A ! k) then arp_cache A' = arp_cache A \<and> arp_cache A a = Some (Resolving n ds)
       else n = 0 \<and> ds = [] \<and> arp_cache A' = (arp_cache A)(a \<mapsto> Resolving 0 []))"
proof -
  note D = arp_okD [OF assms(1)]
  have k: "k < ARP_TABLE_SIZE" "ae_ipaddr (arp_table A ! k) = a" using assms(2) by (simp_all add: holds_entry_def)
  then have k': "k < length (arp_table A)" using D(2) by simp
  show ok: "arp_ok (owns L) nif X A'" unfolding A'_def by (rule log.pending_ok [OF assms(1-3)])
  have at: "arp_table A' ! k = pending (arp_table A ! k)" using k' by (simp add: A'_def)
  show st: "ae_state (arp_table A' ! k) = ETHARP_STATE_PENDING" using assms(4) by (auto simp: at pending_def in_use_cases)
  show "ae_ipaddr (arp_table A' ! k) = a" using k(2) by (simp add: at pending_def)
  have ns: "\<not> is_stable (pending (arp_table A ! k))" using st by (simp add: at is_stable_def)
  show "\<exists>n ds. line_of (arp_store A) (arp_table A' ! k) = Resolving n ds \<and>
      (if in_use (arp_table A ! k) then arp_cache A' = arp_cache A \<and> arp_cache A a = Some (Resolving n ds)
       else n = 0 \<and> ds = [] \<and> arp_cache A' = (arp_cache A)(a \<mapsto> Resolving 0 []))"
  proof (cases "in_use (arp_table A ! k)")
    case True
    then have "A' = A" by (simp add: A'_def pending_def)
    moreover have "lookup_entry a (arp_table A) = Some (arp_table A ! k)" using lookup_entry_at [OF D(5) k' True] k(2) by simp
    ultimately show ?thesis using True assms(4) by (simp add: arp_cache_def line_of_def)
  next
    case False
    let ?e = "pending (arp_table A ! k)"
    have line: "line_of (arp_store A) ?e = Resolving 0 []" using assms(5) [OF False] ns by (simp add: line_of_def pending_def)
    have e: "in_use ?e" "ae_ipaddr ?e = a" using st k(2) by (simp_all add: at in_use_def pending_def)
    have wf: "one_per_address ((arp_table A)[k := ?e])" using arp_okD(5) [OF ok] by (simp add: A'_def)
    have "lookup_entry b ((arp_table A)[k := ?e]) = (if b = a then Some ?e else lookup_entry b (arp_table A))" for b
      using lookup_entry_update [OF D(5) wf k'] e False by auto
    then have "arp_cache A' = (arp_cache A)(a \<mapsto> Resolving 0 [])" using line by (simp add: fun_eq_iff arp_cache_def A'_def)
    then show ?thesis using False line by (simp add: at)
  qed
qed

end

lemma queriedI:
  "\<not> (\<exists>n mac. c a = Some (Resolved n mac)) \<Longrightarrow> out = [] \<or> out = [arp_request_frame nif a] \<Longrightarrow> opened a c c0 n ds \<Longrightarrow>
   err = ERR_OK \<and> c' = c0(a \<mapsto> Resolving n (newest (ds @ [d]))) \<or> err = ERR_MEM \<and> c' = c0(a \<mapsto> Resolving n ds) \<Longrightarrow>
   queried nif a d c err out c'"
  by (simp only: queried_def if_False) blast

text \<open>A query with a packet once its entry is known: sent at once, or queued behind a request.\<close>

lemma mark_pending:
  "(if ae_state (arp_table A ! k) = ETHARP_STATE_EMPTY then upd_entry k (\<lambda>e. e\<lparr>ae_state := ETHARP_STATE_PENDING\<rparr>) A else A) =
   A\<lparr>arp_table := (arp_table A)[k := pending (arp_table A ! k)]\<rparr>"
  by (simp add: pending_def in_use_def upd_entry_def)

lemma query_resolved:
  assumes "unicast nif a" "find_entry env (Some a) ETHARP_FLAG_TRY_HARD A = Some (int k, A1)" "q \<noteq> 0" "is_stable (arp_table A1 ! k)"
  shows "etharp_query env nif a q A =
    on_store (etharp_send_ip env q (nif_hwaddr nif) (ae_ethaddr (arp_table A1 ! k))) (A1\<lparr>etharp_cached_entry := k\<rparr>)"
  using assms unfolding etharp_query_def Let_def mark_pending
  by (auto simp: unicast_def pending_def in_use_cases is_stable_def)

lemma query_pending:
  assumes "unicast nif a" "find_entry env (Some a) ETHARP_FLAG_TRY_HARD A = Some (int k, A1)" "q \<noteq> 0"
    "A2 = A1\<lparr>arp_table := (arp_table A1)[k := pending (arp_table A1 ! k)]\<rparr>" "ae_state (arp_table A2 ! k) = ETHARP_STATE_PENDING"
    "on_store (etharp_request env nif a) A2 = Some (r, A3)" "arp_table A3 = arp_table A2"
  shows "etharp_query env nif a q A =
    Option.bind (on_store (take_over env q) A3) (\<lambda>(p, A). if p \<noteq> 0 then enqueue env k p A else Some (ERR_MEM, A))"
  using assms unfolding etharp_query_def Let_def mark_pending
  by (simp add: unicast_def is_stable_def cong: if_cong)

context arp_log
begin

lemma query_log:
  assumes "arp_ok (owns L) nif X A" "unicast nif a" "ready (arp_store A) q xs" "set xs \<subseteq> X" "length (nif_hwaddr nif) = 6"
  shows "\<exists>err out A'. etharp_query env nif a q A = Some (err, A') \<and> arp_ok (owns (L @ out)) nif X A' \<and> leaves X (arp_store A) (arp_store A') \<and>
    queried nif a (drop SIZEOF_ETH_HDR (flat (arp_store A) xs)) (arp_cache A) err out (arp_cache A')"
proof -
  let ?d = "drop SIZEOF_ETH_HDR (flat (arp_store A) xs)"
  obtain b ys where q: "q \<noteq> 0" using assms(3) by (rule ready_guest)
  have Xq: "set xs \<inter> aq_p ` set (queued A) = {}" using arp_okD(4) [OF assms(1)] assms(4) by (auto simp: queue_ok_def)
  have wait: "\<exists>err out A'. etharp_query env nif a q A = Some (err, A') \<and> arp_ok (owns (L @ out)) nif X A' \<and> leaves X (arp_store A) (arp_store A') \<and>
      (out = [] \<or> out = [arp_request_frame nif a]) \<and>
      (err = ERR_OK \<and> arp_cache A' = c0(a \<mapsto> Resolving n (newest (ds @ [?d]))) \<or> err = ERR_MEM \<and> arp_cache A' = c0(a \<mapsto> Resolving n ds))"
    if f: "find_entry env (Some a) ETHARP_FLAG_TRY_HARD A = Some (int k, A1)" "found_by L X A A1"
      and h: "holds_entry a (arp_table A1) k" "\<not> is_stable (arp_table A1 ! k)" "\<not> in_use (arp_table A1 ! k) \<Longrightarrow> ae_q (arp_table A1 ! k) = [] \<and> ae_ctime (arp_table A1 ! k) = 0"
      and c: "\<And>m es. line_of (arp_store A1) (pending (arp_table A1 ! k)) = Resolving m es \<Longrightarrow>
        if in_use (arp_table A1 ! k) then arp_cache A1 a = Some (Resolving m es) else m = 0 \<and> es = [] \<Longrightarrow> m = n \<and> es = ds \<and> (arp_cache A1)(a \<mapsto> Resolving m es) = c0(a \<mapsto> Resolving n ds)"
    for k A1 c0 n ds
  proof -
    note F = found_byD [OF f(2)]
    define A2 where "A2 = A1\<lparr>arp_table := (arp_table A1)[k := pending (arp_table A1 ! k)]\<rparr>"
    note P = pending_lines [OF F(1) h(1) assms(2) h(2,3), folded A2_def]
    have k: "k < ARP_TABLE_SIZE" "k < length (arp_table A1)" using h(1) arp_okD(2) [OF F(1)] by (simp_all add: holds_entry_def)
    have at: "arp_table A2 ! k = pending (arp_table A1 ! k)" and s2: "arp_store A2 = arp_store A1" using k(2) by (simp_all add: A2_def)
    obtain m es where l: "line_of (arp_store A1) (arp_table A2 ! k) = Resolving m es"
      "if in_use (arp_table A1 ! k) then arp_cache A2 = arp_cache A1 \<and> arp_cache A1 a = Some (Resolving m es)
       else m = 0 \<and> es = [] \<and> arp_cache A2 = (arp_cache A1)(a \<mapsto> Resolving 0 [])" using P(4) by blast
    have m: "m = n" "es = ds" "(arp_cache A1)(a \<mapsto> Resolving m es) = c0(a \<mapsto> Resolving n ds)"
      using c [of m es] l at by (auto split: if_splits)
    have c2: "arp_cache A2 = c0(a \<mapsto> Resolving n ds)" using l(2) m by (auto split: if_splits simp: fun_upd_idem)
    obtain out err1 A3 where A3: "on_store (etharp_request env nif a) A2 = Some (err1, A3)" "arp_ok (owns (L @ out)) nif X A3"
      "out = [arp_request_frame nif a] \<and> err1 = ERR_OK \<or> out = [] \<and> err1 = ERR_MEM" "A3 = A2\<lparr>arp_store := arp_store A3\<rparr>"
      "untouched {} (arp_store A2) (arp_store A3)" "leaves X (arp_store A2) (arp_store A3)" "arp_cache A3 = arp_cache A2"
      using P(1) assms(5) by (rule request_log)
    have t3: "arp_table A3 = arp_table A2" by (subst A3(4)) simp
    have le3: "leaves X (arp_store A) (arp_store A3)" using F(6) A3(6) s2 by (auto intro: leaves_trans)
    have r3: "ready (arp_store A3) q xs" using ready_cong [OF leaves_subset [OF le3 assms(4)]] assms(3) by simp
    have "untouched (aq_p ` set (queued A)) (arp_store A) (arp_store A3)" by (rule untouched_trans [OF F(2)]) (use A3(5) s2 in auto)
    from flat_untouched [OF this assms(3)] have fl: "flat (arp_store A3) xs = flat (arp_store A) xs" using Xq by auto
    have c3: "arp_cache A3 a = Some (Resolving n ds)" using A3(7) c2 by simp
    have st3: "ae_state (arp_table A3 ! k) = ETHARP_STATE_PENDING" "ae_ipaddr (arp_table A3 ! k) = a" using P(2,3) t3 by simp_all
    have "lookup_entry a (arp_table A3) = Some (arp_table A3 ! k)"
      using lookup_entry_at [OF arp_okD(5) [OF A3(2)], of k] st3 k(1) arp_okD(2) [OF A3(2)] by (simp add: in_use_def)
    then have l3: "line_of (arp_store A3) (arp_table A3 ! k) = Resolving n ds" using c3 by (simp add: arp_cache_def)
    obtain err A' where A': "Option.bind (on_store (take_over env q) A3) (\<lambda>(p, A). if p \<noteq> 0 then enqueue env k p A else Some (ERR_MEM, A)) = Some (err, A')"
      "arp_ok (owns (L @ out)) nif X A'" "leaves X (arp_store A3) (arp_store A')"
      "err = ERR_OK \<and> arp_cache A' = (arp_cache A3)(a \<mapsto> Resolving n (newest (ds @ [?d]))) \<or> err = ERR_MEM \<and> arp_cache A' = arp_cache A3"
      using wait_log [OF A3(2) r3 assms(4) k(1) st3(1) l3, unfolded st3(2) fl] by blast
    have "etharp_query env nif a q A = Some (err, A')"
      using query_pending [OF assms(2) f(1) q A2_def P(2) A3(1) t3] A'(1) by simp
    moreover have "leaves X (arp_store A) (arp_store A')" using le3 A'(3) by (rule leaves_trans)
    moreover have "err = ERR_OK \<and> arp_cache A' = c0(a \<mapsto> Resolving n (newest (ds @ [?d]))) \<or> err = ERR_MEM \<and> arp_cache A' = c0(a \<mapsto> Resolving n ds)"
      using A'(4) unfolding A3(7) c2 by auto
    ultimately show ?thesis using A'(2) A3(3) by blast
  qed
  from assms(1) show ?thesis
  proof (cases rule: find_entry_lines [of L X A a ETHARP_FLAG_TRY_HARD])
    case (hit k A1)
    note F = found_byD [OF hit(2)]
    have k: "k < ARP_TABLE_SIZE" using hit(3) by (simp add: holds_entry_def)
    have line: "line_of (arp_store A1) (arp_table A1 ! k) = line_of (arp_store A) (arp_table A1 ! k)"
      using F(3) k arp_okD(2) [OF F(1)] by (auto simp: line_of_def queued_def)
    show ?thesis
    proof (cases "is_stable (arp_table A1 ! k)")
      case True
      let ?mac = "ae_ethaddr (arp_table A1 ! k)" and ?A = "A1\<lparr>etharp_cached_entry := k\<rparr>"
      have ok: "arp_ok (owns L) nif X ?A" using F(1) k by (simp add: arp_ok_def queued_def)
      have mac: "length ?mac = 6" using arp_okD(6) [OF F(1) k] True by (simp add: entry_wf_stable ETHARP_HWADDR_LEN_def)
      have r: "ready (arp_store ?A) q xs" using ready_cong [OF leaves_subset [OF F(6) assms(4)]] assms(3) by simp
      have fl: "flat (arp_store A1) xs = flat (arp_store A) xs" using flat_untouched [OF F(2) assms(3)] Xq by auto
      have ca: "arp_cache ?A = arp_cache A1" by (simp add: fun_eq_iff arp_cache_def)
      obtain A' where A': "on_store (etharp_send_ip env q (nif_hwaddr nif) ?mac) ?A = Some (ERR_OK, A')"
        "arp_ok (owns (L @ [eth_frame ?mac (nif_hwaddr nif) ETHTYPE_IP ?d])) nif X A'" "arp_cache A' = arp_cache ?A" "leaves X (arp_store ?A) (arp_store A')"
        using send_log [OF ok r assms(4) mac assms(5)] fl by auto
      have c: "arp_cache A a = Some (Resolved (unat (ae_ctime (arp_table A1 ! k))) ?mac)" using hit(6) True by (simp add: line_of_def)
      have "queried nif a ?d (arp_cache A) ERR_OK [eth_frame ?mac (nif_hwaddr nif) ETHTYPE_IP ?d] (arp_cache A')"
        using c A'(3) ca hit(5) by (simp add: queried_def)
      moreover have "etharp_query env nif a q A = Some (ERR_OK, A')" using query_resolved [OF assms(2) hit(1) q True] A'(1) by simp
      moreover have "leaves X (arp_store A) (arp_store A')" using F(6) A'(4) by (auto intro: leaves_trans)
      ultimately show ?thesis using A'(2) by blast
    next
      case False
      obtain n ds where l: "line_of (arp_store A) (arp_table A1 ! k) = Resolving n ds" using False by (simp add: line_of_def)
      have o: "opened a (arp_cache A) (arp_cache A) n ds" using hit(6) l by (simp add: opened_def)
      have nr: "\<not> (\<exists>n mac. arp_cache A a = Some (Resolved n mac))" using hit(6) l by simp
      have eq: "pending (arp_table A1 ! k) = arp_table A1 ! k" using hit(4) by (simp add: pending_def)
      obtain err out A' where A': "etharp_query env nif a q A = Some (err, A')" "arp_ok (owns (L @ out)) nif X A'" "leaves X (arp_store A) (arp_store A')"
        "out = [] \<or> out = [arp_request_frame nif a]"
        "err = ERR_OK \<and> arp_cache A' = (arp_cache A)(a \<mapsto> Resolving n (newest (ds @ [?d]))) \<or> err = ERR_MEM \<and> arp_cache A' = (arp_cache A)(a \<mapsto> Resolving n ds)"
        using wait [OF hit(1-3) False, of n ds "arp_cache A"] hit(4,5) line l by (auto simp: eq)
      show ?thesis using queriedI [OF nr A'(4) o A'(5)] A'(1-3) by blast
    qed
  next
    case (none A1)
    then show ?thesis by (simp add: ETHARP_FLAG_TRY_HARD_def ETHARP_FLAG_FIND_ONLY_def)
  next
    case (made k A1)
    have ns: "\<not> is_stable (arp_table A1 ! k)" "\<not> in_use (arp_table A1 ! k) \<Longrightarrow> ae_q (arp_table A1 ! k) = [] \<and> ae_ctime (arp_table A1 ! k) = 0"
      using made(4-6) by (auto simp: in_use_cases)
    have o: "opened a (arp_cache A) (arp_cache A1) 0 []" using made(7,9) by (simp add: opened_def split: if_splits)
    have nr: "\<not> (\<exists>n mac. arp_cache A a = Some (Resolved n mac))" using made(7) by simp
    obtain err out A' where A': "etharp_query env nif a q A = Some (err, A')" "arp_ok (owns (L @ out)) nif X A'" "leaves X (arp_store A) (arp_store A')"
      "out = [] \<or> out = [arp_request_frame nif a]"
      "err = ERR_OK \<and> arp_cache A' = (arp_cache A1)(a \<mapsto> Resolving 0 (newest ([] @ [?d]))) \<or> err = ERR_MEM \<and> arp_cache A' = (arp_cache A1)(a \<mapsto> Resolving 0 [])"
      using wait [OF made(1-3) ns, of 0 "[]" "arp_cache A1"] made(4) by auto
    have "queried nif a ?d (arp_cache A) err out (arp_cache A')" by (rule queriedI [OF nr A'(4) o A'(5)])
    then show ?thesis using A'(1-3) by blast
  qed
qed

end

section \<open>Output\<close>

definition next_hop :: "eth_netif \<Rightarrow> u32 \<Rightarrow> u32 option" where
  "next_hop nif a =
     (if ip_addr_netcmp a (nif_ip_addr nif) (nif_netmask nif) \<or> ip_addr_islinklocal a then Some a
      else if ip_addr_isany (nif_gw nif) then None else Some (nif_gw nif))"

definition multicast_mac :: "u32 \<Rightarrow> u8 list" where
  "multicast_mac a = [0x01, 0x00, 0x5e, ip4_addr_byte 1 a AND 0x7f, ip4_addr_byte 2 a, ip4_addr_byte 3 a]"

text \<open>
  What \<open>etharp_output\<close> promises of a datagram \<open>d\<close> for address \<open>a\<close>, with the cache \<open>c\<close>: its result,
  the frames on the wire and the cache afterwards.  A resolved line from its 228th tick on is
  refreshed by a request that goes ahead of the frame.
\<close>

definition forwarded :: "eth_netif \<Rightarrow> u32 \<Rightarrow> u8 list \<Rightarrow> (u32 \<rightharpoonup> arp_line) \<Rightarrow> int \<Rightarrow> u8 list list \<Rightarrow> (u32 \<rightharpoonup> arp_line) \<Rightarrow> bool" where
  "forwarded nif a d c err out c' \<longleftrightarrow>
     (let frame = (\<lambda>mac. eth_frame mac (nif_hwaddr nif) ETHTYPE_IP d) in
      if ip4_addr_isbroadcast a nif then err = ERR_OK \<and> out = [frame ethbroadcast] \<and> c' = c
      else if ip_addr_ismulticast a then err = ERR_OK \<and> out = [frame (multicast_mac a)] \<and> c' = c
      else case next_hop nif a of
        None \<Rightarrow> err = ERR_RTE \<and> out = [] \<and> c' = c
      | Some hop \<Rightarrow>
          if \<not> unicast nif hop then err = ERR_ARG \<and> out = [] \<and> c' = c
          else case c hop of
            Some (Resolved n mac) \<Rightarrow> err = ERR_OK \<and> c' = c \<and> (out = [frame mac] \<or> 228 \<le> n \<and> out = [arp_request_frame nif hop, frame mac])
          | _ \<Rightarrow> queried nif hop d c err out c')"

lemma etharp_output_next_hop:
  "etharp_output env nif q a A =
     do { (failed, A) \<leftarrow> on_store (pbuf_header q (of_nat SIZEOF_ETH_HDR)) A;
          (if failed \<noteq> 0 then Some (ERR_BUF, A)
           else if ip4_addr_isbroadcast a nif then on_store (etharp_send_ip env q (nif_hwaddr nif) ethbroadcast) A
           else if ip_addr_ismulticast a then on_store (etharp_send_ip env q (nif_hwaddr nif) (multicast_mac a)) A
           else case next_hop nif a of
             None \<Rightarrow> Some (ERR_RTE, A)
           | Some hop \<Rightarrow> let cached = arp_table A ! etharp_cached_entry A in
               if is_stable cached \<and> hop = ae_ipaddr cached then etharp_output_to_arp_index env nif q (etharp_cached_entry A) A
               else case find_stable hop 0 (arp_table A) of
                 Some i \<Rightarrow> etharp_output_to_arp_index env nif q i (A\<lparr>etharp_cached_entry := i\<rparr>)
               | None \<Rightarrow> etharp_query env nif hop q A) }"
  unfolding etharp_output_def next_hop_def multicast_mac_def Let_def
  by (cases "ip_addr_netcmp a (nif_ip_addr nif) (nif_netmask nif)"; cases "ip_addr_islinklocal a"; cases "ip_addr_isany (nif_gw nif)")
    (simp_all only: if_True if_False simp_thms option.case)

context arp_log
begin

lemma route_log:
  assumes "arp_ok (owns L) nif X A" "ready (arp_store A) q xs" "set xs \<subseteq> X" "length (nif_hwaddr nif) = 6"
  shows "\<exists>err out A'. (let cached = arp_table A ! etharp_cached_entry A in
      if is_stable cached \<and> a = ae_ipaddr cached then etharp_output_to_arp_index env nif q (etharp_cached_entry A) A
      else case find_stable a 0 (arp_table A) of
        Some i \<Rightarrow> etharp_output_to_arp_index env nif q i (A\<lparr>etharp_cached_entry := i\<rparr>)
      | None \<Rightarrow> etharp_query env nif a q A) = Some (err, A') \<and>
    arp_ok (owns (L @ out)) nif X A' \<and> leaves X (arp_store A) (arp_store A') \<and>
    (if \<not> unicast nif a then err = ERR_ARG \<and> out = [] \<and> arp_cache A' = arp_cache A
     else case arp_cache A a of
       Some (Resolved n mac) \<Rightarrow> err = ERR_OK \<and> arp_cache A' = arp_cache A \<and>
         (out = [eth_frame mac (nif_hwaddr nif) ETHTYPE_IP (drop SIZEOF_ETH_HDR (flat (arp_store A) xs))] \<or>
          228 \<le> n \<and> out = [arp_request_frame nif a, eth_frame mac (nif_hwaddr nif) ETHTYPE_IP (drop SIZEOF_ETH_HDR (flat (arp_store A) xs))])
     | _ \<Rightarrow> queried nif a (drop SIZEOF_ETH_HDR (flat (arp_store A) xs)) (arp_cache A) err out (arp_cache A'))"
    (is "\<exists>err out A'. ?run = Some (err, A') \<and> _ \<and> _ \<and> ?spec err out A'")
proof -
  note D = arp_okD [OF assms(1)]
  let ?d = "drop SIZEOF_ETH_HDR (flat (arp_store A) xs)"
  have hit: "\<exists>err out A'. etharp_output_to_arp_index env nif q i A1 = Some (err, A') \<and> arp_ok (owns (L @ out)) nif X A' \<and>
      leaves X (arp_store A) (arp_store A') \<and> ?spec err out A'"
    if "i < ARP_TABLE_SIZE" "is_stable (arp_table A ! i)" "ae_ipaddr (arp_table A ! i) = a" "A1 = A \<or> A1 = A\<lparr>etharp_cached_entry := i\<rparr>" for i A1
  proof -
    note T = that
    let ?e = "arp_table A ! i"
    have A1: "arp_table A1 = arp_table A" "arp_store A1 = arp_store A" using T(4) by auto
    have ok1: "arp_ok (owns L) nif X A1" using assms(1) T(1,4) by (auto simp: arp_ok_def queued_def)
    have c1: "arp_cache A1 = arp_cache A" by (simp add: fun_eq_iff arp_cache_def A1)
    have uni: "unicast nif a" using D(6) [OF T(1)] T(2,3) by (simp add: entry_wf_stable)
    have "lookup_entry a (arp_table A) = Some ?e" using lookup_entry_at [OF D(5), of i] T(1-3) D(2) by (auto simp: in_use_cases)
    then have c: "arp_cache A a = Some (Resolved (unat (ae_ctime ?e)) (ae_ethaddr ?e))" using T(2) by (simp add: arp_cache_def line_of_def)
    obtain A' pre where A': "etharp_output_to_arp_index env nif q i A1 = Some (ERR_OK, A')"
      "pre = [] \<or> pre = [arp_request_frame nif a] \<and> 228 \<le> unat (ae_ctime ?e)"
      "arp_ok (owns (L @ pre @ [eth_frame (ae_ethaddr ?e) (nif_hwaddr nif) ETHTYPE_IP ?d])) nif X A'" "arp_cache A' = arp_cache A"
      "leaves X (arp_store A) (arp_store A')"
      using output_to_index_log [OF ok1 T(1) _ _ assms(3,4), of q] T(2,3) assms(2) unfolding A1 c1 by auto
    have "?spec ERR_OK (pre @ [eth_frame (ae_ethaddr ?e) (nif_hwaddr nif) ETHTYPE_IP ?d]) A'" using uni c A'(2,4) by auto
    then show ?thesis using A'(1,3,5) by blast
  qed
  show ?thesis
  proof (cases "is_stable (arp_table A ! etharp_cached_entry A) \<and> a = ae_ipaddr (arp_table A ! etharp_cached_entry A)")
    case True
    then have eq: "?run = etharp_output_to_arp_index env nif q (etharp_cached_entry A) A" by (simp add: Let_def)
    show ?thesis unfolding eq by (rule hit [OF D(3)]) (use True in auto)
  next
    case nc: False
    show ?thesis
    proof (cases "find_stable a 0 (arp_table A)")
      case (Some i)
      have eq: "?run = etharp_output_to_arp_index env nif q i (A\<lparr>etharp_cached_entry := i\<rparr>)"
        unfolding Let_def by (subst if_not_P [OF nc]) (simp add: Some)
      show ?thesis unfolding eq by (rule hit) (use find_stable_some [OF Some] D(2) in auto)
    next
      case None
      have nr: "\<not> (\<exists>n mac. arp_cache A a = Some (Resolved n mac))"
        using find_stable_none [OF None] lookup_entry_Some [OF D(5)] by (auto simp: arp_cache_def line_of_def split: if_splits)
      have eq: "?run = etharp_query env nif a q A" unfolding Let_def by (subst if_not_P [OF nc]) (simp add: None)
      show ?thesis
      proof (cases "unicast nif a")
        case True
        obtain err out A' where A': "etharp_query env nif a q A = Some (err, A')" "arp_ok (owns (L @ out)) nif X A'" "leaves X (arp_store A) (arp_store A')"
          "queried nif a ?d (arp_cache A) err out (arp_cache A')" using query_log [OF assms(1) True assms(2-4)] by blast
        moreover have "?spec err out A'" using True nr A'(4) by (auto split: option.split arp_line.split)
        ultimately show ?thesis unfolding eq by blast
      next
        case False
        then have "etharp_query env nif a q A = Some (ERR_ARG, A)" by (auto simp: etharp_query_def unicast_def)
        then show ?thesis unfolding eq using False assms(1) by (intro exI [of _ ERR_ARG] exI [of _ "[]"] exI [of _ A]) simp
      qed
    qed
  qed
qed

end

context arp_log
begin

lemma output_log:
  assumes "arp_ok (owns L) nif X A" "guest (arp_store A) q xs" "set xs \<subseteq> X" "\<forall>x\<in>set xs. \<exists>c. live x (arp_store A) = Some c \<and> in_block c"
    "live q (arp_store A) = Some b" "q + SIZEOF_STRUCT_PBUF + EP_OFFSET + SIZEOF_ETH_HDR \<le> pb_payload b" "unat (pb_tot_len b) + SIZEOF_ETH_HDR < 65536"
    "length (nif_hwaddr nif) = 6"
  shows "\<exists>err out A'. etharp_output env nif q a A = Some (err, A') \<and> arp_ok (owns (L @ out)) nif X A' \<and>
    leaves (X - {q}) (arp_store A) (arp_store A') \<and> forwarded nif a (flat (arp_store A) xs) (arp_cache A) err out (arp_cache A')"
proof -
  let ?S = "arp_store A"
  have Q: "queue_ok (owns L) X (queued A) ?S" by (rule arp_okD(4) [OF assms(1)])
  obtain b0 ys where g: "xs = q # ys" "q \<noteq> 0" "live q ?S = Some b0" "chain ?S q xs" "length (data_of ?S q) = unat (pb_len b0)"
    "unat (pb_tot_len b0) = length (flat ?S xs)" using assms(2) by (rule guest_live)
  then have b0: "b0 = b" using assms(5) by simp
  have inb: "in_block b" using assms(4,5) g(1) by simp
  let ?b = "b\<lparr>pb_payload := pb_payload b - 14, pb_len := pb_len b + 14, pb_tot_len := pb_tot_len b + 14\<rparr>"
  let ?S1 = "put q ?b ?S"
  have "SIZEOF_ETH_HDR \<le> pb_payload b" using assms(6) by simp
  from log.header_push [OF Q assms(2,3,5) this assms(7)]
  have push: "pbuf_header q (of_nat SIZEOF_ETH_HDR) ?S = Some (1, ?S) \<or>
    pbuf_header q (of_nat SIZEOF_ETH_HDR) ?S = Some (0, ?S1) \<and> queue_ok (owns L) X (queued A) ?S1 \<and> leaves (X - {q}) ?S ?S1 \<and> guest ?S1 q xs" by auto
  moreover have "pbuf_header q (of_nat SIZEOF_ETH_HDR) ?S \<noteq> Some (1, ?S)"
    using inb assms(5,6) g(2) by (auto simp: pbuf_header_def SIZEOF_ETH_HDR_def Let_def in_block_def)
  ultimately have S1: "pbuf_header q (of_nat SIZEOF_ETH_HDR) ?S = Some (0, ?S1)" "queue_ok (owns L) X (queued A) ?S1"
    "leaves (X - {q}) ?S ?S1" "guest ?S1 q xs" by auto
  let ?A = "A\<lparr>arp_store := ?S1\<rparr>"
  have le14: "unat (pb_len b + 14) = unat (pb_len b) + 14"
    using assms(7) g(1,5,6) b0 by (simp add: unat_word_ariths SIZEOF_ETH_HDR_def)
  have lq: "live q ?S1 = Some ?b" using g(2) by simp
  have other: "live x ?S1 = live x ?S" if "x \<noteq> q" for x using that by simp
  have r: "ready ?S1 q xs" using S1(4) assms(4) inb lq le14 other by (force simp: ready_def in_block_def SIZEOF_ETH_HDR_def)
  have "data_of ?S1 q = mem_bytes (pb_mem ?S) (pb_payload b - 14) 14 @ data_of ?S q"
  proof -
    have "pb_payload b - 14 + 14 = pb_payload b" using assms(6) by (simp add: SIZEOF_ETH_HDR_def)
    then show ?thesis
      using lq assms(5) le14 mem_bytes_append [of "pb_mem ?S" "pb_payload b - 14" 14 "unat (pb_len b)"] by (simp add: data_of_def add.commute)
  qed
  moreover have "flat ?S1 ys = flat ?S ys"
    by (rule flat_cong) (use chain_distinct [OF g(4)] g(1) in \<open>auto simp: data_of_def split: option.split\<close>)
  ultimately have fl: "drop SIZEOF_ETH_HDR (flat ?S1 xs) = flat ?S xs" by (simp add: g(1) SIZEOF_ETH_HDR_def)
  have okA: "arp_ok (owns L) nif X ?A" using assms(1) S1(2) by (simp add: arp_ok_def queued_def)
  have uq: "untouched {q} ?S ?S1" by (auto simp: untouched_def data_of_def split: option.split)
  have "q \<in> X" using g(1) assms(3) by simp
  then have "\<forall>r\<in>set (queued A). aq_p r \<notin> {q}" using Q by (auto simp: queue_ok_def)
  then have cA: "arp_cache ?A = arp_cache A" using cache_untouched [OF assms(1), of ?A "{q}"] uq by simp
  have fin: ?thesis if "etharp_output env nif q a A = Some (err, A')" "arp_ok (owns (L @ out)) nif X A'" "leaves X (arp_store ?A) (arp_store A')"
    "forwarded nif a (flat ?S xs) (arp_cache A) err out (arp_cache A')" for err out A'
    using that S1(3) by (auto intro!: exI intro: leaves_trans leaves_subset)
  have send: "\<exists>A'. on_store (etharp_send_ip env q (nif_hwaddr nif) mac) ?A = Some (ERR_OK, A') \<and>
      arp_ok (owns (L @ [eth_frame mac (nif_hwaddr nif) ETHTYPE_IP (flat ?S xs)])) nif X A' \<and> arp_cache A' = arp_cache A \<and> leaves X (arp_store ?A) (arp_store A')"
    if "length mac = 6" for mac
    using send_log [OF okA _ assms(3) that assms(8), of q] r fl cA by auto
  have head: "etharp_output env nif q a A =
      (if ip4_addr_isbroadcast a nif then on_store (etharp_send_ip env q (nif_hwaddr nif) ethbroadcast) ?A
       else if ip_addr_ismulticast a then on_store (etharp_send_ip env q (nif_hwaddr nif) (multicast_mac a)) ?A
       else case next_hop nif a of
         None \<Rightarrow> Some (ERR_RTE, ?A)
       | Some hop \<Rightarrow> let cached = arp_table ?A ! etharp_cached_entry ?A in
           if is_stable cached \<and> hop = ae_ipaddr cached then etharp_output_to_arp_index env nif q (etharp_cached_entry ?A) ?A
           else case find_stable hop 0 (arp_table ?A) of
             Some i \<Rightarrow> etharp_output_to_arp_index env nif q i (?A\<lparr>etharp_cached_entry := i\<rparr>)
           | None \<Rightarrow> etharp_query env nif hop q ?A)"
    unfolding etharp_output_next_hop on_store_def [of "pbuf_header q (of_nat SIZEOF_ETH_HDR)"] S1(1) Let_def
    by (simp only: option.case option.map prod.case refl not_True_eq_False if_False Option.bind.simps)
  show ?thesis
  proof (cases "ip4_addr_isbroadcast a nif \<or> ip_addr_ismulticast a")
    case True
    define mac where "mac = (if ip4_addr_isbroadcast a nif then ethbroadcast else multicast_mac a)"
    have "length mac = 6" by (simp add: mac_def ethbroadcast_def multicast_mac_def)
    then obtain A' where A': "on_store (etharp_send_ip env q (nif_hwaddr nif) mac) ?A = Some (ERR_OK, A')"
      "arp_ok (owns (L @ [eth_frame mac (nif_hwaddr nif) ETHTYPE_IP (flat ?S xs)])) nif X A'" "arp_cache A' = arp_cache A"
      "leaves X (arp_store ?A) (arp_store A')" using send by blast
    show ?thesis by (rule fin [OF _ A'(2,4)]) (use True A'(1,3) in \<open>auto simp: head mac_def forwarded_def\<close>)
  next
    case nobm: False
    show ?thesis
    proof (cases "next_hop nif a")
      case None
      show ?thesis
        by (rule fin [of ERR_RTE ?A "[]"]) (use nobm None okA cA in \<open>simp_all add: head forwarded_def\<close>)
    next
      case (Some hop)
      obtain err out A' where A': "(let cached = arp_table ?A ! etharp_cached_entry ?A in
          if is_stable cached \<and> hop = ae_ipaddr cached then etharp_output_to_arp_index env nif q (etharp_cached_entry ?A) ?A
          else case find_stable hop 0 (arp_table ?A) of
            Some i \<Rightarrow> etharp_output_to_arp_index env nif q i (?A\<lparr>etharp_cached_entry := i\<rparr>)
          | None \<Rightarrow> etharp_query env nif hop q ?A) = Some (err, A')" "arp_ok (owns (L @ out)) nif X A'" "leaves X (arp_store ?A) (arp_store A')"
        and sp: "if \<not> unicast nif hop then err = ERR_ARG \<and> out = [] \<and> arp_cache A' = arp_cache ?A
         else case arp_cache ?A hop of
           Some (Resolved n mac) \<Rightarrow> err = ERR_OK \<and> arp_cache A' = arp_cache ?A \<and>
             (out = [eth_frame mac (nif_hwaddr nif) ETHTYPE_IP (drop SIZEOF_ETH_HDR (flat (arp_store ?A) xs))] \<or>
              228 \<le> n \<and> out = [arp_request_frame nif hop, eth_frame mac (nif_hwaddr nif) ETHTYPE_IP (drop SIZEOF_ETH_HDR (flat (arp_store ?A) xs))])
         | _ \<Rightarrow> queried nif hop (drop SIZEOF_ETH_HDR (flat (arp_store ?A) xs)) (arp_cache ?A) err out (arp_cache A')"
        using route_log [OF okA _ assms(3,8), of q hop] r by auto
      have fl': "drop SIZEOF_ETH_HDR (flat (arp_store ?A) xs) = flat ?S xs" using fl by simp
      have run: "etharp_output env nif q a A = Some (err, A')" unfolding head using nobm Some A'(1) by simp
      show ?thesis
        by (rule fin [OF run A'(2,3)]) (use nobm Some sp [unfolded fl' cA] in \<open>simp add: forwarded_def Let_def\<close>)
    qed
  qed
qed

end

section \<open>Sending a datagram\<close>

lemma make_packet_log:
  assumes "arp_ok (umm_owns w) nif {} A" "bs \<noteq> []" "length bs < 65536"
    "on_store (make_packet (heap_env (station w frame_log)) layer bs) A = Some (q, A1)" "q \<noteq> 0"
  shows "arp_ok (logged w (frames A)) nif {q} A1" "arp_cache A1 = arp_cache A" "guest (arp_store A1) q [q]" "data_of (arp_store A1) q = bs"
    "\<exists>b. live q (arp_store A1) = Some b \<and> in_block b \<and> pb_tot_len b = of_nat (length bs) \<and>
       pb_payload b = q + SIZEOF_STRUCT_PBUF + LWIP_MEM_ALIGN_SIZE (header_offset layer)"
proof -
  have ok: "arp_ok (logged w (frames A)) nif {} A" using assms(1) by (simp add: arp_ok_logged)
  obtain S where S: "make_packet (heap_env (station w frame_log)) layer bs (arp_store A) = Some (q, S)" "A1 = A\<lparr>arp_store := S\<rparr>"
    using assms(4) by (auto simp: on_store_def)
  note Q = arp_okD(4) [OF ok]
  have P: "leaves (aq_p ` set (queued A)) (arp_store A) S" "q \<notin> aq_p ` set (queued A)" "queue_ok (logged w (frames A)) {q} (queued A) S"
    "guest S q [q]" "data_of S q = bs" "\<exists>b. live q S = Some b \<and> in_block b \<and> pb_tot_len b = of_nat (length bs) \<and>
       pb_payload b = q + SIZEOF_STRUCT_PBUF + LWIP_MEM_ALIGN_SIZE (header_offset layer)"
    and data: "\<forall>y c. live y (arp_store A) = Some c \<longrightarrow> in_block c \<longrightarrow> data_of S y = data_of (arp_store A) y"
    using wire.log.make_packet_runs [OF Q assms(2,3), of layer] S(1) assms(5) by auto
  have "y \<in> aq_p ` set (queued A)" if "live y (arp_store A) = Some c" for y c using Q that by (auto simp: queue_ok_def structures_def)
  then have same: "untouched {} (arp_store A) S" using P(1) data unfolding untouched_def leaves_def by metis
  have "arp_ok (logged w (frames A)) nif {q} A1" using ok P(3) by (simp add: S(2) arp_ok_def queued_def)
  moreover have "arp_cache A1 = arp_cache A" using cache_untouched [OF ok, of A1 "{}"] same by (simp add: S(2))
  ultimately show "arp_ok (logged w (frames A)) nif {q} A1" "arp_cache A1 = arp_cache A" "guest (arp_store A1) q [q]" "data_of (arp_store A1) q = bs"
    "\<exists>b. live q (arp_store A1) = Some b \<and> in_block b \<and> pb_tot_len b = of_nat (length bs) \<and>
       pb_payload b = q + SIZEOF_STRUCT_PBUF + LWIP_MEM_ALIGN_SIZE (header_offset layer)"
    using P(4-6) by (simp_all add: S(2))
qed


lemma booted_packet: "\<exists>q A1. on_store (make_packet (heap_env (station w frame_log)) PBUF_LINK [1, 2, 3]) booted = Some (q, A1) \<and> q \<noteq> 0"
proof -
  let ?env = "heap_env (station w frame_log)" and ?S = "arp_store booted"
  have ok: "umm_request_ok 76" "blocks_needed 76 = 10" by (simp_all add: umm_request_ok_def blocks_needed_def)
  have "umm_last lan_heap = 511" by (simp add: lan_heap_def umm_last_def umm_init_def umm_num_blocks_def umm_block_size_def)
  then have free: "free_run (umm_last lan_heap) Map.empty 1 10" by (simp only: free_run_empty)
  have "umm_rep lan_heap Map.empty" using umm_run_rep [OF lan_heap_run] by simp
  then obtain s' c where "umm_malloc lan_heap 76 = Returns s' (UMM_DATA c)"
    using ok(1) by (cases rule: do_malloc_spec) (use free ok(2) in \<open>auto simp: umm_malloc_def\<close>)
  then obtain q h where m: "mem_malloc ?env 76 (lan_heap, []) = (q, h)" "q \<noteq> 0"
    by (auto simp: station_def umm_pbuf_env_def umm_mem_malloc_def pvPortMalloc_def UMM_DATA_off)
  have "LWIP_MEM_ALIGN_SIZE (SIZEOF_STRUCT_PBUF + header_offset PBUF_LINK) + LWIP_MEM_ALIGN_SIZE (unat (of_nat (length [1, 2, 3 :: u8]) :: u16)) = 76"
    by (simp add: LWIP_MEM_ALIGN_SIZE_def SIZEOF_STRUCT_PBUF_def header_offset_def PBUF_LINK_HLEN_def EP_OFFSET_def)
  then obtain S1 where al: "pbuf_alloc ?env PBUF_LINK (of_nat (length [1, 2, 3 :: u8])) PBUF_RAM ?S = Some (q, S1)"
    using m by (simp add: pbuf_alloc_def take_memory_def Let_def booted_def arp_boot_def)
  have "arp_ok (umm_owns w) (lan_host 2) {} booted" by (rule reachable_ok [OF reachable_booted [of w frame_log]])
  from net.make_on_store [OF this, of "[1, 2, 3]" frame_log PBUF_LINK]
  obtain r where r: "on_store (make_packet ?env PBUF_LINK [1, 2, 3]) booted = Some r"
    by (rule runsE) simp_all
  have "fst r = q" using r m(2) unfolding on_store_def make_packet_def al by (auto split: Option.bind_splits)
  then show ?thesis using r m(2) by (cases r) auto
qed


end
