(* ===== verification/Ip.thy ===== *)
theory Ip
  imports Etharp InetChksum
begin

text \<open>
  The IP layer and ICMP, tools/sdk/lwip/src/core/ipv4/ip.c and icmp.c, in the configuration of
  lwipopts.h: no forwarding, no fragments, options accepted and, for IGMP, sent; no loopback.
  The interfaces are records told apart by their address \<open>nif_at\<close>; their \<open>output\<close>, the SDK's
  \<open>eagle_lwip_getif\<close> and the protocols above (raw, UDP, TCP, IGMP) are arguments, which act on
  the whole state, because they may call back into the stack.  A header is its address in the
  packet memory.
\<close>

section \<open>Constants and headers\<close>

definition IP_HLEN :: nat where "IP_HLEN = 20"
definition IP_PROTO_ICMP :: u8 where "IP_PROTO_ICMP = 1"
definition IP_PROTO_IGMP :: u8 where "IP_PROTO_IGMP = 2"
definition IP_PROTO_UDP :: u8 where "IP_PROTO_UDP = 17"
definition IP_PROTO_TCP :: u8 where "IP_PROTO_TCP = 6"
definition IP_MF :: u16 where "IP_MF = 0x2000"
definition IP_OFFMASK :: u16 where "IP_OFFMASK = 0x1fff"
definition IP_DEFAULT_TTL :: u8 where "IP_DEFAULT_TTL = 128"
definition ICMP_TTL :: u8 where "ICMP_TTL = IP_DEFAULT_TTL"
definition DHCP_CLIENT_PORT :: u16 where "DHCP_CLIENT_PORT = 68"
definition NETIF_FLAG_UP :: u8 where "NETIF_FLAG_UP = 0x01"
definition NETIF_FLAG_IGMP :: u8 where "NETIF_FLAG_IGMP = 0x80"

definition ICMP_ER :: u8 where "ICMP_ER = 0"
definition ICMP_DUR :: u8 where "ICMP_DUR = 3"
definition ICMP_ECHO :: u8 where "ICMP_ECHO = 8"
definition ICMP_DUR_PROTO :: u8 where "ICMP_DUR_PROTO = 2"
definition SIZEOF_ICMP_ECHO_HDR :: nat where "SIZEOF_ICMP_ECHO_HDR = 8"
definition ICMP_DEST_UNREACH_DATASIZE :: nat where "ICMP_DEST_UNREACH_DATASIZE = 8"

definition netif_is_up :: "eth_netif \<Rightarrow> bool" where
  "netif_is_up n \<longleftrightarrow> nif_flags n AND NETIF_FLAG_UP \<noteq> 0"

definition IPH_V :: "memory \<Rightarrow> nat \<Rightarrow> u16" where "IPH_V m hdr = drop_bit 12 (lwip_htons (load16 m hdr))"
definition IPH_HL :: "memory \<Rightarrow> nat \<Rightarrow> u16" where "IPH_HL m hdr = drop_bit 8 (lwip_htons (load16 m hdr)) AND 0x0f"
definition IPH_LEN :: "memory \<Rightarrow> nat \<Rightarrow> u16" where "IPH_LEN m hdr = load16 m (hdr + 2)"
definition IPH_OFFSET :: "memory \<Rightarrow> nat \<Rightarrow> u16" where "IPH_OFFSET m hdr = load16 m (hdr + 6)"
definition IPH_PROTO :: "memory \<Rightarrow> nat \<Rightarrow> u8" where "IPH_PROTO m hdr = m (hdr + 9)"
definition iphdr_src :: "memory \<Rightarrow> nat \<Rightarrow> u32" where "iphdr_src m hdr = load32 m (hdr + 12)"
definition iphdr_dest :: "memory \<Rightarrow> nat \<Rightarrow> u32" where "iphdr_dest m hdr = load32 m (hdr + 16)"

definition LWIP_MAKE_U16 :: "u32 \<Rightarrow> u32 \<Rightarrow> u32" where "LWIP_MAKE_U16 a b = push_bit 8 a OR b"

definition lwip_chksum_at :: "memory \<Rightarrow> nat \<Rightarrow> nat \<Rightarrow> u16" where
  "lwip_chksum_at m a n = inet_chksum lwip_standard_chksum2 a (mem_bytes m a n)"

section \<open>State and surroundings\<close>

text \<open>The variables of ip.c; a null interface or header is \<open>None\<close>.\<close>

record ip_vars =
  current_netif :: "nat option"
  current_header :: "nat option"
  current_iphdr_src :: u32
  current_iphdr_dest :: u32
  ip_id :: u16

text \<open>They lie beside the heap, before the device's own state \<open>'r\<close>.\<close>

type_synonym ('s, 'r) ip_state = "('s \<times> ip_vars \<times> 'r) arp_state"

definition ip_of :: "('s, 'r) ip_state \<Rightarrow> ip_vars" where
  "ip_of A = fst (snd (pb_heap (arp_store A)))"

definition upd_ip :: "(ip_vars \<Rightarrow> ip_vars) \<Rightarrow> ('s, 'r) ip_state \<Rightarrow> ('s, 'r) ip_state" where
  "upd_ip f A = (case pb_heap (arp_store A) of (s, v, r) \<Rightarrow> A\<lparr>arp_store := (arp_store A)\<lparr>pb_heap := (s, f v, r)\<rparr>\<rparr>)"

definition upd_mem :: "(memory \<Rightarrow> memory) \<Rightarrow> 'h arp_state \<Rightarrow> 'h arp_state" where
  "upd_mem f A = A\<lparr>arp_store := (arp_store A)\<lparr>pb_mem := f (pb_mem (arp_store A))\<rparr>\<rparr>"

record 'h ip_env =
  ip_heap :: "'h pbuf_env"
  netif_list :: "eth_netif list"
  netif_default :: "eth_netif option"
  eagle_lwip_getif_0 :: "nat option"
  netif_output :: "eth_netif \<Rightarrow> nat \<Rightarrow> u32 \<Rightarrow> 'h arp_state \<Rightarrow> (int \<times> 'h arp_state) option"
  igmp_lookfor_group :: "eth_netif \<Rightarrow> u32 \<Rightarrow> 'h arp_state \<Rightarrow> bool"
  raw_input :: "nat \<Rightarrow> eth_netif \<Rightarrow> 'h arp_state \<Rightarrow> (u8 \<times> 'h arp_state) option"
  udp_input :: "nat \<Rightarrow> eth_netif \<Rightarrow> 'h arp_state \<Rightarrow> 'h arp_state option"
  tcp_input :: "nat \<Rightarrow> eth_netif \<Rightarrow> 'h arp_state \<Rightarrow> 'h arp_state option"
  igmp_input :: "nat \<Rightarrow> eth_netif \<Rightarrow> u32 \<Rightarrow> 'h arp_state \<Rightarrow> 'h arp_state option"

section \<open>Routes\<close>

definition default_route :: "'h ip_env \<Rightarrow> eth_netif option" where
  "default_route env = (case netif_default env of None \<Rightarrow> None | Some n \<Rightarrow> if netif_is_up n then Some n else None)"

definition ip_route :: "'h ip_env \<Rightarrow> u32 \<Rightarrow> eth_netif option" where
  "ip_route env dest =
     (case find (\<lambda>n. netif_is_up n \<and> ip_addr_netcmp dest (nif_ip_addr n) (nif_netmask n)) (netif_list env) of
        Some n \<Rightarrow> Some n
      | None \<Rightarrow>
          case find (\<lambda>n. netif_is_up n \<and> \<not> ip4_addr_isbroadcast dest n \<and> Some (nif_at n) = eagle_lwip_getif_0 env) (netif_list env) of
            Some n \<Rightarrow> Some n
          | None \<Rightarrow> default_route env)"

definition ip_router :: "'h ip_env \<Rightarrow> u32 \<Rightarrow> u32 \<Rightarrow> eth_netif option" where
  "ip_router env dest source =
     (case find (\<lambda>n. netif_is_up n \<and> (ip_addr_netcmp dest (nif_ip_addr n) (nif_netmask n) \<or>
                                       ip_addr_netcmp source (nif_ip_addr n) (nif_netmask n))) (netif_list env) of
        Some n \<Rightarrow> Some n
      | None \<Rightarrow> default_route env)"

section \<open>Output\<close>

text \<open>The halfwords of the options are added up as they lie in memory.\<close>

fun add_halves :: "memory \<Rightarrow> nat \<Rightarrow> nat \<Rightarrow> u32 \<Rightarrow> u32" where
  "add_halves m a 0 s = s"
| "add_halves m a (Suc n) s = add_halves m (a + 2) n (s + ucast (load16 m a))"

text \<open>The header's fields and the checksum that is summed up while they are written.\<close>

definition write_ip_header :: "nat \<Rightarrow> u32 \<Rightarrow> u32 \<Rightarrow> u8 \<Rightarrow> u8 \<Rightarrow> u8 \<Rightarrow> nat \<Rightarrow> u16 \<Rightarrow> u16 \<Rightarrow> u32 \<Rightarrow> memory \<Rightarrow> memory" where
  "write_ip_header iphdr src dest ttl tos proto ip_hlen tot_len ident chk_sum m =
     (let m = m(iphdr + 8 := ttl, iphdr + 9 := proto);
          chk_sum = chk_sum + LWIP_MAKE_U16 (ucast proto) (ucast ttl);
          m = store32 m (iphdr + 16) dest;
          chk_sum = chk_sum + (dest AND 0xFFFF);
          chk_sum = chk_sum + drop_bit 16 dest;
          v_hl_tos = lwip_htons (push_bit 12 4 OR push_bit 8 (of_nat (ip_hlen div 4)) OR ucast tos);
          m = store16 m iphdr v_hl_tos;
          chk_sum = chk_sum + ucast v_hl_tos;
          m = store16 m (iphdr + 2) (lwip_htons tot_len);
          chk_sum = chk_sum + ucast (lwip_htons tot_len);
          m = store16 m (iphdr + 6) 0;
          m = store16 m (iphdr + 4) (lwip_htons ident);
          chk_sum = chk_sum + ucast (lwip_htons ident);
          m = store32 m (iphdr + 12) src;
          chk_sum = chk_sum + (src AND 0xFFFF);
          chk_sum = chk_sum + drop_bit 16 src;
          chk_sum = drop_bit 16 chk_sum + (chk_sum AND 0xFFFF);
          chk_sum = drop_bit 16 chk_sum + chk_sum;
          chk_sum = NOT chk_sum
      in store16 m (iphdr + 10) (ucast chk_sum))"

text \<open>
  \<open>dest = None\<close> is \<open>IP_HDRINCL\<close>: the packet has its header.  The result of a failed \<open>pbuf_header\<close> is
  \<open>ERR_BUF\<close>.
\<close>

definition ip_output_if_opt ::
  "('s \<times> ip_vars \<times> 'r) ip_env \<Rightarrow> nat \<Rightarrow> u32 option \<Rightarrow> u32 option \<Rightarrow> u8 \<Rightarrow> u8 \<Rightarrow> u8 \<Rightarrow> eth_netif \<Rightarrow> u8 list \<Rightarrow> ('s, 'r) ip_state
   \<Rightarrow> (int \<times> ('s, 'r) ip_state) option" where
  "ip_output_if_opt env p src dest ttl tos proto nif ip_options A =
     (case dest of
        None \<Rightarrow> do { b \<leftarrow> live p (arp_store A); netif_output env nif p (iphdr_dest (pb_mem (arp_store A)) (pb_payload b)) A }
      | Some dest \<Rightarrow>
          let optlen = length ip_options; aligned = (optlen + 3) div 4 * 4 in
          do { (failed, A) \<leftarrow> (if optlen = 0 then Some (0, A) else on_store (pbuf_header p (of_nat aligned)) A);
               (if failed \<noteq> 0 then Some (ERR_BUF, A)
                else do {
                  b \<leftarrow> live p (arp_store A);
                  let A = upd_mem (\<lambda>m. put_bytes m (pb_payload b) (ip_options @ replicate (aligned - optlen) 0)) A;
                  let chk_sum = add_halves (pb_mem (arp_store A)) (pb_payload b) (aligned div 2) 0;
                  (failed, A) \<leftarrow> on_store (pbuf_header p (of_nat IP_HLEN)) A;
                  (if failed \<noteq> 0 then Some (ERR_BUF, A)
                   else do {
                     b \<leftarrow> live p (arp_store A);
                     let from = (case src of None \<Rightarrow> nif_ip_addr nif | Some a \<Rightarrow> if ip_addr_isany a then nif_ip_addr nif else a);
                     let ident = ip_id (ip_of A);
                     let A = upd_mem (write_ip_header (pb_payload b) from dest ttl tos proto (IP_HLEN + aligned) (pb_tot_len b) ident chk_sum) A;
                     netif_output env nif p dest (upd_ip (\<lambda>v. v\<lparr>ip_id := ident + 1\<rparr>) A) }) }) })"

definition ip_output_if ::
  "('s \<times> ip_vars \<times> 'r) ip_env \<Rightarrow> nat \<Rightarrow> u32 option \<Rightarrow> u32 option \<Rightarrow> u8 \<Rightarrow> u8 \<Rightarrow> u8 \<Rightarrow> eth_netif \<Rightarrow> ('s, 'r) ip_state
   \<Rightarrow> (int \<times> ('s, 'r) ip_state) option" where
  "ip_output_if env p src dest ttl tos proto nif A = ip_output_if_opt env p src dest ttl tos proto nif [] A"

definition ip_output ::
  "('s \<times> ip_vars \<times> 'r) ip_env \<Rightarrow> nat \<Rightarrow> u32 option \<Rightarrow> u32 \<Rightarrow> u8 \<Rightarrow> u8 \<Rightarrow> u8 \<Rightarrow> ('s, 'r) ip_state \<Rightarrow> (int \<times> ('s, 'r) ip_state) option" where
  "ip_output env p src dest ttl tos proto A =
     (case ip_route env dest of None \<Rightarrow> Some (ERR_RTE, A) | Some nif \<Rightarrow> ip_output_if env p src (Some dest) ttl tos proto nif A)"

section \<open>ICMP\<close>

text \<open>The chain of a packet as the checksum reads it.\<close>

partial_function (option) chk_chain :: "nat \<Rightarrow> 'h pstore \<Rightarrow> chk_pbuf list option" where
  "chk_chain q S =
     (if q = 0 then Some []
      else do { b \<leftarrow> live q S;
                qs \<leftarrow> chk_chain (pb_next b) S;
                Some (\<lparr>chk_payload = pb_payload b, chk_bytes = mem_bytes (pb_mem S) (pb_payload b) (unat (pb_len b))\<rparr> # qs) })"

definition free_packet :: "'h ip_env \<Rightarrow> nat \<Rightarrow> 'h arp_state \<Rightarrow> 'h arp_state option" where
  "free_packet env p A = map_option snd (on_store (pbuf_free (ip_heap env) p) A)"

definition icmp_send_response ::
  "('s \<times> ip_vars \<times> 'r) ip_env \<Rightarrow> nat \<Rightarrow> u8 \<Rightarrow> u8 \<Rightarrow> ('s, 'r) ip_state \<Rightarrow> ('s, 'r) ip_state option" where
  "icmp_send_response env p type cd A =
     do { (q, A) \<leftarrow> on_store (pbuf_alloc (ip_heap env) PBUF_IP
            (of_nat (SIZEOF_ICMP_ECHO_HDR + IP_HLEN + ICMP_DEST_UNREACH_DATASIZE)) PBUF_RAM) A;
          (if q = 0 then Some A
           else do {
             b \<leftarrow> live p (arp_store A);
             c \<leftarrow> live q (arp_store A);
             let iphdr = pb_payload b;
             let icmphdr = pb_payload c;
             let m = (pb_mem (arp_store A))(icmphdr := type, icmphdr + 1 := cd);
             let m = store16 m (icmphdr + 4) 0;
             let m = store16 m (icmphdr + 6) 0;
             let m = memmove m (icmphdr + SIZEOF_ICMP_ECHO_HDR) iphdr (IP_HLEN + ICMP_DEST_UNREACH_DATASIZE);
             let m = store16 m (icmphdr + 2) 0;
             let m = store16 m (icmphdr + 2) (lwip_chksum_at m icmphdr (unat (pb_len c)));
             (err, A) \<leftarrow> ip_output env q None (iphdr_src m iphdr) ICMP_TTL 0 IP_PROTO_ICMP (upd_mem (\<lambda>_. m) A);
             free_packet env q A }) }"

definition icmp_dest_unreach ::
  "('s \<times> ip_vars \<times> 'r) ip_env \<Rightarrow> nat \<Rightarrow> u8 \<Rightarrow> ('s, 'r) ip_state \<Rightarrow> ('s, 'r) ip_state option" where
  "icmp_dest_unreach env p t A = icmp_send_response env p ICMP_DUR t A"

text \<open>
  The echo request's packet, or a copy of it, with room for the link header and the payload at
  the ICMP header, with the address of its IP header; null when the packet is dropped.
\<close>

definition icmp_room ::
  "('s \<times> ip_vars \<times> 'r) ip_env \<Rightarrow> nat \<Rightarrow> nat \<Rightarrow> u16 \<Rightarrow> ('s, 'r) ip_state \<Rightarrow> ((nat \<times> nat) \<times> ('s, 'r) ip_state) option" where
  "icmp_room env p iphdr hlen A =
     do { (failed, A) \<leftarrow> on_store (pbuf_header p (of_nat (PBUF_IP_HLEN + PBUF_LINK_HLEN))) A;
          (if failed \<noteq> 0 then do {
             (failed, A) \<leftarrow> on_store (pbuf_header p hlen) A;
             (if failed \<noteq> 0 then Some ((0, 0), A)
              else do {
                b \<leftarrow> live p (arp_store A);
                (r, A) \<leftarrow> on_store (pbuf_alloc (ip_heap env) PBUF_LINK (pb_tot_len b) PBUF_RAM) A;
                (if r = 0 then Some ((0, 0), A)
                 else do {
                   (err, A) \<leftarrow> on_store (pbuf_copy r p) A;
                   (if err \<noteq> ERR_OK then Some ((0, 0), A)
                    else do {
                      c \<leftarrow> live r (arp_store A);
                      (failed, A) \<leftarrow> on_store (pbuf_header r (- hlen)) A;
                      (if failed \<noteq> 0 then Some ((0, 0), A)
                       else do { A \<leftarrow> free_packet env p A; Some ((r, pb_payload c), A) }) }) }) }) }
           else do {
             (failed, A) \<leftarrow> on_store (pbuf_header p (- of_nat (PBUF_IP_HLEN + PBUF_LINK_HLEN))) A;
             Some (if failed \<noteq> 0 then (0, 0) else (p, iphdr), A) }) }"

text \<open>The request becomes the reply in place.\<close>

definition echo_reply :: "ip_vars \<Rightarrow> nat \<Rightarrow> nat \<Rightarrow> memory \<Rightarrow> memory" where
  "echo_reply v iphdr iecho m =
     (let m = store32 m (iphdr + 12) (current_iphdr_dest v);
          m = store32 m (iphdr + 16) (current_iphdr_src v);
          m = m(iecho := ICMP_ER);
          chksum = load16 m (iecho + 2);
          m = store16 m (iecho + 2)
                (if chksum \<ge> PP_HTONS (0xffff - push_bit 8 (ucast ICMP_ECHO)) then chksum + (PP_HTONS (push_bit 8 (ucast ICMP_ECHO)) + 1)
                 else chksum + PP_HTONS (push_bit 8 (ucast ICMP_ECHO)));
          m = m(iphdr + 8 := ICMP_TTL);
          m = store16 m (iphdr + 10) 0
      in store16 m (iphdr + 10) (lwip_chksum_at m iphdr IP_HLEN))"

definition icmp_echo ::
  "('s \<times> ip_vars \<times> 'r) ip_env \<Rightarrow> eth_netif \<Rightarrow> nat \<Rightarrow> nat \<Rightarrow> u16 \<Rightarrow> ('s, 'r) ip_state \<Rightarrow> ('s, 'r) ip_state option" where
  "icmp_echo env inp p iphdr hlen A =
     do { let v = ip_of A;
          b \<leftarrow> live p (arp_store A);
          (if ip_addr_ismulticast (current_iphdr_dest v) \<or> ip4_addr_isbroadcast (current_iphdr_dest v) inp then free_packet env p A
           else if unat (pb_tot_len b) < SIZEOF_ICMP_ECHO_HDR then free_packet env p A
           else do {
             qs \<leftarrow> chk_chain p (arp_store A);
             (if inet_chksum_pbuf lwip_standard_chksum2 qs \<noteq> 0 then free_packet env p A
              else do {
                ((r, iphdr), A) \<leftarrow> icmp_room env p iphdr hlen A;
                (if r = 0 then free_packet env p A
                 else do {
                   c \<leftarrow> live r (arp_store A);
                   let A = upd_mem (echo_reply v iphdr (pb_payload c)) A;
                   (failed, A) \<leftarrow> on_store (pbuf_header r hlen) A;
                   A \<leftarrow> (if failed \<noteq> 0 then Some A
                         else map_option snd (ip_output_if env r (Some (current_iphdr_dest v)) None ICMP_TTL 0 IP_PROTO_ICMP inp A));
                   free_packet env r A }) }) }) }"

definition icmp_input ::
  "('s \<times> ip_vars \<times> 'r) ip_env \<Rightarrow> eth_netif \<Rightarrow> nat \<Rightarrow> ('s, 'r) ip_state \<Rightarrow> ('s, 'r) ip_state option" where
  "icmp_input env inp p A =
     do { b \<leftarrow> live p (arp_store A);
          let iphdr = pb_payload b;
          let hlen = IPH_HL (pb_mem (arp_store A)) iphdr * 4;
          (failed, A) \<leftarrow> on_store (pbuf_header p (- hlen)) A;
          b \<leftarrow> live p (arp_store A);
          (if failed \<noteq> 0 \<or> pb_tot_len b < 4 then free_packet env p A
           else if pb_mem (arp_store A) (pb_payload b) = ICMP_ECHO then icmp_echo env inp p iphdr hlen A
           else free_packet env p A) }"

section \<open>Input\<close>

text \<open>The walk over the interface list, which skips the receiving interface.\<close>

fun next_netif :: "(eth_netif \<Rightarrow> bool) \<Rightarrow> eth_netif \<Rightarrow> eth_netif list \<Rightarrow> eth_netif option" where
  "next_netif accepts inp [] = None"
| "next_netif accepts inp [n] = (if nif_at n = nif_at inp then None else if accepts n then Some n else None)"
| "next_netif accepts inp (n # n' # ns) =
     (if nif_at n = nif_at inp then if accepts n' then Some n' else next_netif accepts inp ns
      else if accepts n then Some n else next_netif accepts inp (n' # ns))"

definition accepted_by :: "u32 \<Rightarrow> eth_netif \<Rightarrow> bool" where
  "accepted_by dest n \<longleftrightarrow> netif_is_up n \<and> \<not> ip_addr_isany (nif_ip_addr n) \<and> (dest = nif_ip_addr n \<or> ip4_addr_isbroadcast dest n)"

text \<open>The interface a packet is for.\<close>

definition ip_match :: "'h ip_env \<Rightarrow> eth_netif \<Rightarrow> u32 \<Rightarrow> 'h arp_state \<Rightarrow> eth_netif option" where
  "ip_match env inp dest A =
     (if ip_addr_ismulticast dest then
        (if nif_flags inp AND NETIF_FLAG_IGMP \<noteq> 0 \<and> igmp_lookfor_group env inp dest A then Some inp else None)
      else if accepted_by dest inp then Some inp
      else next_netif (accepted_by dest) inp (netif_list env))"

text \<open>Handing the packet to the protocol above.\<close>

definition ip_deliver ::
  "('s \<times> ip_vars \<times> 'r) ip_env \<Rightarrow> eth_netif \<Rightarrow> nat \<Rightarrow> nat \<Rightarrow> ('s, 'r) ip_state \<Rightarrow> ('s, 'r) ip_state option" where
  "ip_deliver env inp p iphdr A =
     do { (eaten, A) \<leftarrow> raw_input env p inp A;
          (if eaten \<noteq> 0 then Some A
           else let proto = IPH_PROTO (pb_mem (arp_store A)) iphdr; dest = current_iphdr_dest (ip_of A)
           in if proto = IP_PROTO_UDP then udp_input env p inp A
           else if proto = IP_PROTO_TCP then tcp_input env p inp A
           else if proto = IP_PROTO_ICMP then icmp_input env inp p A
           else if proto = IP_PROTO_IGMP then igmp_input env p inp dest A
           else do {
             A \<leftarrow> (if \<not> ip4_addr_isbroadcast dest inp \<and> \<not> ip_addr_ismulticast dest
                   then do { S \<leftarrow> modify p (\<lambda>b. b\<lparr>pb_payload := iphdr\<rparr>) (arp_store A);
                             icmp_dest_unreach env p ICMP_DUR_PROTO (A\<lparr>arp_store := S\<rparr>) }
                   else Some A);
             free_packet env p A }) }"

definition ip_input_packet ::
  "('s \<times> ip_vars \<times> 'r) ip_env \<Rightarrow> eth_netif \<Rightarrow> nat \<Rightarrow> ('s, 'r) ip_state \<Rightarrow> ('s, 'r) ip_state option" where
  "ip_input_packet env inp p A =
     do { b \<leftarrow> live p (arp_store A);
          let m = pb_mem (arp_store A);
          let iphdr = pb_payload b;
          let hlen = IPH_HL m iphdr * 4;
          let iphdr_len = lwip_htons (IPH_LEN m iphdr);
          (if IPH_V m iphdr \<noteq> 4 then free_packet env p A
           else if hlen > pb_len b \<or> iphdr_len > pb_tot_len b then free_packet env p A
           else if lwip_chksum_at m iphdr (unat hlen) \<noteq> 0 then free_packet env p A
           else do {
             S \<leftarrow> pbuf_realloc (ip_heap env) p iphdr_len (arp_store A);
             let m = pb_mem S;
             let dest = iphdr_dest m iphdr;
             let src = iphdr_src m iphdr;
             let A = upd_ip (\<lambda>v. v\<lparr>current_iphdr_dest := dest, current_iphdr_src := src\<rparr>) (A\<lparr>arp_store := S\<rparr>);
             let netif = ip_match env inp dest A;
             let for_dhcp = (netif = None \<and> IPH_PROTO m iphdr = IP_PROTO_UDP \<and>
               load16 m (iphdr + unat hlen + 2) = PP_HTONS DHCP_CLIENT_PORT);
             (if \<not> for_dhcp \<and> \<not> ip_addr_isany src \<and> (ip4_addr_isbroadcast src inp \<or> ip_addr_ismulticast src) then free_packet env p A
              else if netif = None \<and> \<not> for_dhcp then free_packet env p A
              else if IPH_OFFSET m iphdr AND PP_HTONS (IP_OFFMASK OR IP_MF) \<noteq> 0 then free_packet env p A
              else do {
                A \<leftarrow> ip_deliver env inp p iphdr
                  (upd_ip (\<lambda>v. v\<lparr>current_netif := Some (nif_at inp), current_header := Some iphdr\<rparr>) A);
                Some (upd_ip (\<lambda>v. v\<lparr>current_netif := None, current_header := None,
                  current_iphdr_src := IPADDR_ANY, current_iphdr_dest := IPADDR_ANY\<rparr>) A) }) }) }"

end
