(* ===== verification/IpHeader.thy ===== *)
theory IpHeader
  imports Ip EtharpWire
begin

text \<open>
  The bytes the IP layer and ICMP write: what \<open>write_ip_header\<close> writes passes every check of
  \<open>ip_input\<close>, for the checksum that is summed up on the way is the complement of the sum of the
  other halfwords; and an echo reply keeps a valid checksum by adding 8 to it, but for the one
  request whose checksum is the largest that does not carry.
\<close>

section \<open>Sums of halfwords\<close>

lemma unat_load16: "unat (load16 m a) = unat (m a) + 256 * unat (m (Suc a))"
proof -
  have "load16 m a = ucast (le16 (m a) (m (Suc a)))"
    by (rule bit_word_eqI) (auto simp: load16_def le16_def bit_simps)
  then have "unat (load16 m a) = unat (le16 (m a) (m (Suc a))) mod 65536" by (simp add: unsigned_ucast_eq take_bit_eq_mod)
  then show ?thesis using unat_u8_bound [of "m a"] unat_u8_bound [of "m (Suc a)"] by (simp add: unat_le16)
qed

lemma byte_sum_half: "byte_sum (mem_bytes m a (Suc (Suc n))) = unat (load16 m a) + byte_sum (mem_bytes m (a + 2) n)"
proof -
  have "mem_bytes m a (Suc (Suc n)) = m a # m (Suc a) # mem_bytes m (a + 2) n"
    using mem_bytes_split [of 2 "Suc (Suc n)" m a] by (simp add: mem_bytes_def)
  then show ?thesis by (simp add: unat_load16)
qed

lemma byte_sum_add_halves:
  "unat s + byte_sum (mem_bytes m a (2 * n)) < 4294967296 \<Longrightarrow> unat (add_halves m a n s) = unat s + byte_sum (mem_bytes m a (2 * n))"
proof (induction n arbitrary: a s)
  case (Suc n)
  have l: "unat (ucast (load16 m a) :: u32) = unat (load16 m a)" by (rule unat_ucast_u16)
  have "unat (s + ucast (load16 m a)) = unat s + unat (load16 m a)" using Suc.prems by (simp add: unat_word_ariths l byte_sum_half)
  then show ?case using Suc.IH [of "s + ucast (load16 m a)" "a + 2"] Suc.prems by (simp add: byte_sum_half)
qed (simp add: mem_bytes_def)

lemma ucast_take_bit16: "(ucast (take_bit 16 w) :: u16) = ucast (w :: u32)"
  by (rule bit_word_eqI) (auto simp: bit_simps)

lemma ucast_add16: "(ucast (v + w) :: u16) = ucast v + ucast (w :: u32)"
  by (simp add: word_unat_eq_iff unsigned_ucast_eq take_bit_eq_mod unat_word_ariths mod_mod_cancel mod_add_eq)

text \<open>The two folds of a sum, of which the second is not masked, and the complement.\<close>

lemma folded_complement:
  "unat (ucast (NOT (drop_bit 16 (drop_bit 16 X + (X AND 0xFFFF)) + (drop_bit 16 X + (X AND 0xFFFF)))) :: u16) = 65535 - canon (unat (X :: u32))"
proof -
  let ?c = "FOLD_U32T X"
  have fold: "drop_bit 16 X + (X AND 0xFFFF) = ?c" by (simp add: FOLD_U32T_def)
  have lo: "(ucast (w AND 0xffff) :: u16) = ucast w" for w :: u32
  proof -
    have "w AND 0xffff = take_bit 16 w" by (simp add: take_bit_eq_mask mask_eq_exp_minus_1)
    then show ?thesis by (simp add: ucast_take_bit16)
  qed
  have "(ucast (drop_bit 16 ?c + ?c) :: u16) = ucast (FOLD_U32T ?c)"
    unfolding FOLD_U32T_def [of ?c] by (simp add: ucast_add16 lo)
  moreover have "unat (ucast (FOLD_U32T ?c) :: u16) = canon (unat X)"
    using fold_twice [of X] canon_le [of "unat X"] by (simp add: unsigned_ucast_eq take_bit_nat_eq_self)
  moreover have "(ucast (NOT w) :: u16) = NOT (ucast w)" for w :: u32 by (rule bit_word_eqI) (auto simp: bit_simps)
  ultimately show ?thesis unfolding fold by (simp add: unat_not16)
qed

lemma chksum_at_zero:
  assumes "n \<le> 65536"
  shows "lwip_chksum_at m a n = 0 \<longleftrightarrow> 0 < byte_sum (mem_bytes m a n) \<and> byte_sum (mem_bytes m a n) mod 65535 = 0"
proof -
  let ?s = "byte_sum (mem_bytes m a n)"
  have "unat (lwip_standard_chksum2 a (mem_bytes m a n)) = canon ?s" using assms by (intro chksum2_correct) simp
  moreover have "lwip_chksum_at m a n = 0 \<longleftrightarrow> unat (lwip_standard_chksum2 a (mem_bytes m a n)) = 65535"
  proof -
    have "lwip_chksum_at m a n = 0 \<longleftrightarrow> unat (NOT (lwip_standard_chksum2 a (mem_bytes m a n))) = 0"
      by (simp add: lwip_chksum_at_def inet_chksum_def unat_eq_0)
    moreover have "unat (lwip_standard_chksum2 a (mem_bytes m a n)) \<le> 65535" by (rule unat_u16_le)
    ultimately show ?thesis by (auto simp: unat_not16)
  qed
  moreover have "canon ?s = 65535 \<longleftrightarrow> 0 < ?s \<and> ?s mod 65535 = 0"
    using canon_mod [of ?s] canon_le [of ?s] canon_0 [of ?s] by (metis bot_nat_0.not_eq_extremum le_neq_implies_less mod_less mod_self zero_neq_numeral)
  ultimately show ?thesis by simp
qed

section \<open>The header that is written\<close>

definition ip_header :: "u32 \<Rightarrow> u32 \<Rightarrow> u8 \<Rightarrow> u8 \<Rightarrow> u8 \<Rightarrow> nat \<Rightarrow> u16 \<Rightarrow> u16 \<Rightarrow> u16 \<Rightarrow> u8 list" where
  "ip_header src dest ttl tos proto ip_hlen tot_len ident ck =
     be16 (push_bit 12 4 OR push_bit 8 (of_nat (ip_hlen div 4)) OR ucast tos) @ be16 tot_len @ be16 ident @ [0, 0, ttl, proto] @
     [ucast ck, ucast (drop_bit 8 ck)] @ addr_bytes src @ addr_bytes dest"

lemma lwip_htons_PP: "lwip_htons = PP_HTONS"
  by (simp add: fun_eq_iff lwip_htons_def PP_HTONS_def)

text \<open>The value added up for each field is the sum of its bytes as a halfword in memory.\<close>

lemma unat_swapped: "unat (PP_HTONS v) = byte_sum (be16 v)"
proof -
  have "load16 (put_bytes (\<lambda>_. 0) 0 (be16 v)) 0 = PP_HTONS v"
    unfolding swap_bytes [symmetric] put_bytes_store16 [symmetric] by (rule load16_store16)
  then show ?thesis using unat_load16 [of "put_bytes (\<lambda>_. 0) 0 (be16 v)" 0] by (simp add: be16_def put_bytes_def)
qed

lemma byte_sum_be16: "byte_sum (be16 v @ bs) = unat (PP_HTONS v) + byte_sum bs"
  by (simp add: unat_swapped) (simp add: be16_def)

lemma unat_half: "unat v = unat (ucast v :: u8) + 256 * unat (ucast (drop_bit 8 v) :: u8)" for v :: u16
  using unat_load16 [of "store16 (\<lambda>_. 0) 0 v" 0] by (simp add: store16_def load16_store16 [unfolded store16_def])

lemma byte_sum_addr: "byte_sum (addr_bytes a @ bs) = unat (a AND 0xFFFF) + unat (drop_bit 16 a) + byte_sum bs"
proof -
  have lo: "a AND 0xFFFF = take_bit 16 a" by (simp add: take_bit_eq_mask mask_eq_exp_minus_1)
  have "unat (a AND 0xFFFF) = unat (ucast a :: u16)" unfolding lo by (simp add: unsigned_take_bit_eq unsigned_ucast_eq)
  moreover have "unat (drop_bit 16 a) = unat (ucast (drop_bit 16 a) :: u16)"
  proof -
    have "unat (drop_bit 16 a) < 65536" using unsigned_less [where 'b = 32 and w = a and 'a = nat] by (simp add: drop_bit_eq_div unat_div less_mult_imp_div_less)
    then show ?thesis by (simp add: unsigned_ucast_eq take_bit_nat_eq_self)
  qed
  moreover have "(ucast (ucast a :: u16) :: u8) = ucast a" "(ucast (drop_bit 8 (ucast a :: u16)) :: u8) = ucast (drop_bit 8 a)"
    "(ucast (ucast (drop_bit 16 a) :: u16) :: u8) = ucast (drop_bit 16 a)"
    "(ucast (drop_bit 8 (ucast (drop_bit 16 a) :: u16)) :: u8) = ucast (drop_bit 24 a)"
    by (rule bit_word_eqI; auto simp: bit_simps)+
  ultimately show ?thesis by (simp add: addr_bytes_def unat_half [of "ucast a"] unat_half [of "ucast (drop_bit 16 a)"])
qed

lemma unat_ttl_proto: "unat (LWIP_MAKE_U16 (ucast proto) (ucast ttl)) = unat (ttl :: u8) + 256 * unat (proto :: u8)"
proof -
  have "LWIP_MAKE_U16 (ucast proto) (ucast ttl) = le16 ttl proto" by (simp add: LWIP_MAKE_U16_def le16_def or.commute)
  then show ?thesis by (simp add: unat_le16)
qed

text \<open>The sum over the header with a zero checksum and the options' sum \<open>s\<close>.\<close>

lemma byte_sum_header:
  "byte_sum (ip_header src dest ttl tos proto ip_hlen tot_len ident ck @ bs) = byte_sum (ip_header src dest ttl tos proto ip_hlen tot_len ident 0) + unat ck + byte_sum bs"
  unfolding ip_header_def append_assoc byte_sum_be16
  using unat_half [of ck] by (simp add: byte_sum_addr byte_sum_addr [of dest "[]", simplified])

lemma header_sum_bound: "byte_sum (ip_header src dest ttl tos proto ip_hlen tot_len ident 0) \<le> 655350"
  using byte_sum_bound [of "ip_header src dest ttl tos proto ip_hlen tot_len ident 0"] by (simp add: ip_header_def)

text \<open>The header field by field.\<close>

definition header_fields :: "memory \<Rightarrow> nat \<Rightarrow> u8 list" where
  "header_fields m h = mem_bytes m h 2 @ mem_bytes m (h + 2) 2 @ mem_bytes m (h + 4) 2 @ mem_bytes m (h + 6) 2 @ mem_bytes m (h + 8) 1 @
     mem_bytes m (h + 9) 1 @ mem_bytes m (h + 10) 2 @ mem_bytes m (h + 12) 4 @ mem_bytes m (h + 16) 4"

lemma mem_bytes_header: "mem_bytes m h 20 = header_fields m h"
  by (simp add: header_fields_def mem_bytes_def upt_conv_Cons eval_nat_numeral)

text \<open>What is in memory afterwards, with the checksum of the sum so far \<open>s\<close>.\<close>

lemma write_ip_header_bytes:
  assumes "unat s + 655350 < 4294967296"
  obtains ck where "mem_bytes (write_ip_header h src dest ttl tos proto ip_hlen tot_len ident s m) h 20 = ip_header src dest ttl tos proto ip_hlen tot_len ident ck"
    "unat ck = 65535 - canon (unat s + byte_sum (ip_header src dest ttl tos proto ip_hlen tot_len ident 0))"
    "\<And>a n. a + n \<le> h \<or> h + 20 \<le> a \<Longrightarrow> mem_bytes (write_ip_header h src dest ttl tos proto ip_hlen tot_len ident s m) a n = mem_bytes m a n"
proof -
  let ?v = "push_bit 12 4 OR push_bit 8 (of_nat (ip_hlen div 4)) OR ucast tos :: u16"
  let ?X = "s + LWIP_MAKE_U16 (ucast proto) (ucast ttl) + (dest AND 0xFFFF) + drop_bit 16 dest + ucast (PP_HTONS ?v) + ucast (PP_HTONS tot_len) +
    ucast (PP_HTONS ident) + (src AND 0xFFFF) + drop_bit 16 src"
  let ?B = "byte_sum (ip_header src dest ttl tos proto ip_hlen tot_len ident 0)"
  define ck where "ck = (ucast (NOT (drop_bit 16 (drop_bit 16 ?X + (?X AND 0xFFFF)) + (drop_bit 16 ?X + (?X AND 0xFFFF)))) :: u16)"
  have B: "?B = unat (PP_HTONS ?v) + unat (PP_HTONS tot_len) + unat (PP_HTONS ident) + (unat ttl + 256 * unat proto) +
      (unat (src AND 0xFFFF) + unat (drop_bit 16 src)) + (unat (dest AND 0xFFFF) + unat (drop_bit 16 dest))"
    unfolding ip_header_def append_assoc byte_sum_be16 by (simp add: byte_sum_addr byte_sum_addr [of dest "[]", simplified])
  then have "unat s + ?B < 4294967296" using header_sum_bound [of src dest ttl tos proto ip_hlen tot_len ident] assms by simp
  then have X: "unat ?X = unat s + ?B" unfolding B by (simp add: unat_word_ariths unat_ttl_proto unat_ucast_u16)
  have w: "write_ip_header h src dest ttl tos proto ip_hlen tot_len ident s m =
      put_bytes (put_bytes (put_bytes (put_bytes (put_bytes (put_bytes (put_bytes (put_bytes (put_bytes m (h + 8) [ttl]) (h + 9) [proto]) (h + 16) (addr_bytes dest))
        h (be16 ?v)) (h + 2) (be16 tot_len)) (h + 6) [0, 0]) (h + 4) (be16 ident)) (h + 12) (addr_bytes src)) (h + 10) [ucast ck, ucast (drop_bit 8 ck)]"
    unfolding write_ip_header_def Let_def ck_def by (simp add: put_bytes_store16 put_bytes_store32 put_bytes_update lwip_htons_PP swap_bytes)
  let ?w = "write_ip_header h src dest ttl tos proto ip_hlen tot_len ident s m"
  have "mem_bytes ?w h 20 = header_fields ?w h" by (rule mem_bytes_header)
  also have "\<dots> = ip_header src dest ttl tos proto ip_hlen tot_len ident ck"
    unfolding w header_fields_def by (simp add: mem_bytes_put_other mem_bytes_put_same ip_header_def)
  finally have "mem_bytes ?w h 20 = ip_header src dest ttl tos proto ip_hlen tot_len ident ck" .
  moreover have "unat ck = 65535 - canon (unat s + ?B)" unfolding ck_def folded_complement X by (rule refl)
  moreover have "mem_bytes ?w a n = mem_bytes m a n" if "a + n \<le> h \<or> h + 20 \<le> a" for a n
    using that unfolding w by (auto simp: mem_bytes_put_other)
  ultimately show thesis by (rule that)
qed

text \<open>Its checksum, options included, is right.\<close>

lemma header_verifies:
  assumes "unat ck = 65535 - canon (byte_sum bs + byte_sum (ip_header src dest ttl tos proto ip_hlen tot_len ident 0))"
  shows "0 < byte_sum (ip_header src dest ttl tos proto ip_hlen tot_len ident ck @ bs) \<and>
    byte_sum (ip_header src dest ttl tos proto ip_hlen tot_len ident ck @ bs) mod 65535 = 0"
proof -
  let ?t = "byte_sum bs + byte_sum (ip_header src dest ttl tos proto ip_hlen tot_len ident 0)"
  have s: "byte_sum (ip_header src dest ttl tos proto ip_hlen tot_len ident ck @ bs) = ?t + (65535 - canon ?t)"
    by (simp add: byte_sum_header assms)
  have "(?t + (65535 - canon ?t)) mod 65535 = (canon ?t + (65535 - canon ?t)) mod 65535" by (metis canon_mod mod_add_left_eq)
  also have "\<dots> = 0" using canon_le [of ?t] by simp
  finally show ?thesis using canon_0 [of ?t] unfolding s by (cases "?t = 0") (auto simp: canon_def)
qed

section \<open>Reading it back\<close>

lemma load16_be16: "mem_bytes m a 2 = be16 v \<Longrightarrow> load16 m a = PP_HTONS v"
proof -
  assume "mem_bytes m a 2 = be16 v"
  then have "m a = put_bytes (\<lambda>_. 0) a (be16 v) a" "m (Suc a) = put_bytes (\<lambda>_. 0) a (be16 v) (Suc a)"
    by (simp_all add: mem_bytes_def be16_def put_bytes_def)
  then have "load16 m a = load16 (put_bytes (\<lambda>_. 0) a (be16 v)) a" by (rule load16_cong)
  then show ?thesis unfolding swap_bytes [symmetric] put_bytes_store16 [symmetric] by simp
qed

lemma load32_addr: "mem_bytes m a 4 = addr_bytes v \<Longrightarrow> load32 m a = v"
proof -
  assume e: "mem_bytes m a 4 = addr_bytes v"
  then have "m (a + i) = put_bytes (\<lambda>_. 0) a (addr_bytes v) (a + i)" if "i < 4" for i
  proof -
    have "m (a + i) = mem_bytes m a 4 ! i" using that by (simp add: mem_bytes_def)
    then show ?thesis using that by (simp add: e put_bytes_def)
  qed
  from this [of 0] this [of 1] this [of 2] this [of 3] have "load32 m a = load32 (put_bytes (\<lambda>_. 0) a (addr_bytes v)) a"
    by (simp add: load32_def load16_def eval_nat_numeral)
  then show ?thesis unfolding put_bytes_store32 [symmetric] by simp
qed

lemma header_read:
  assumes "mem_bytes m h 20 = ip_header src dest ttl tos proto ip_hlen tot_len ident ck"
  shows "load16 m h = PP_HTONS (push_bit 12 4 OR push_bit 8 (of_nat (ip_hlen div 4)) OR ucast tos)" "load16 m (h + 2) = PP_HTONS tot_len"
    "load16 m (h + 6) = 0" "m (h + 9) = proto" "load32 m (h + 12) = src" "load32 m (h + 16) = dest"
proof -
  have f: "mem_bytes m h 2 = be16 (push_bit 12 4 OR push_bit 8 (of_nat (ip_hlen div 4)) OR ucast tos)" "mem_bytes m (h + 2) 2 = be16 tot_len"
      "mem_bytes m (h + 6) 2 = be16 0" "mem_bytes m (h + 9) 1 = [proto]" "mem_bytes m (h + 12) 4 = addr_bytes src" "mem_bytes m (h + 16) 4 = addr_bytes dest"
    using assms unfolding mem_bytes_header header_fields_def ip_header_def append_assoc
    by (simp_all add: mem_bytes_def be16_def upt_conv_Cons addr_bytes_def)
  show "load16 m h = PP_HTONS (push_bit 12 4 OR push_bit 8 (of_nat (ip_hlen div 4)) OR ucast tos)" "load16 m (h + 2) = PP_HTONS tot_len"
    "load16 m (h + 6) = 0" "load32 m (h + 12) = src" "load32 m (h + 16) = dest"
    using load16_be16 [OF f(1)] load16_be16 [OF f(2)] load16_be16 [OF f(3)] load32_addr [OF f(5)] load32_addr [OF f(6)] by (simp_all add: PP_HTONS_def)
  show "m (h + 9) = proto" using f(4) by (simp add: mem_bytes_def upt_conv_Cons)
qed

lemma swap_twice: "PP_HTONS (PP_HTONS v) = v"
proof -
  have m: "(0xff :: u16) = mask 8" "(0xff00 :: u16) = push_bit 8 (mask 8)" by (simp_all add: mask_eq_exp_minus_1)
  show ?thesis unfolding PP_HTONS_def m by (rule bit_word_eqI) (auto simp: bit_simps)
qed

lemma version_fields:
  assumes "k < 16"
  shows "drop_bit 12 (push_bit 12 4 OR push_bit 8 (of_nat k) OR ucast (tos :: u8) :: u16) = 4"
    "drop_bit 8 (push_bit 12 4 OR push_bit 8 (of_nat k) OR ucast tos :: u16) AND 0x0f = of_nat k"
proof -
  have four: "(4 :: u16) = push_bit 2 1" "(64 :: u16) = push_bit 6 1" by simp_all
  have f: "(0x0f :: u16) = mask 4" by (simp add: mask_eq_exp_minus_1)
  have b4: "bit (4 :: u16) n \<longleftrightarrow> n = 2" "bit (64 :: u16) n \<longleftrightarrow> n = 6" for n unfolding four by (auto simp: bit_push_bit_iff bit_1_iff simp del: push_bit_of_1)
  have b64: "n < 4 \<Longrightarrow> \<not> bit (64 :: int) n" for n
  proof -
    assume "n < 4"
    then have "n = 0 \<or> n = 1 \<or> n = 2 \<or> n = 3" by auto
    then show ?thesis by (auto simp: bit_iff_odd)
  qed
  have bk: "n < 4" if "bit k n" for n
  proof (rule ccontr)
    assume "\<not> n < 4"
    then have "(2 :: nat) ^ 4 \<le> 2 ^ n" by (intro power_increasing) simp_all
    then have "k div 2 ^ n = 0" using assms by simp
    then show False using that by (simp add: bit_iff_odd)
  qed
  show "drop_bit 12 (push_bit 12 4 OR push_bit 8 (of_nat k) OR ucast tos :: u16) = 4"
    by (rule bit_word_eqI) (auto simp: bit_simps b4 b64 dest: bk bit_imp_le_length)
  show "drop_bit 8 (push_bit 12 4 OR push_bit 8 (of_nat k) OR ucast tos :: u16) AND 0x0f = of_nat k"
    unfolding f by (rule bit_word_eqI) (auto simp: bit_simps b4 b64 dest: bk bit_imp_le_length)
qed

text \<open>
  C13.  The IP header that is sent passes the checks of the receiver.  Over options of at most 40
  bytes, a multiple of 4, and the sum of their halfwords, \<open>write_ip_header\<close> writes a header whose
  version is 4, whose length is that of the header with the options, whose total length,
  protocol and addresses are those given, which is no fragment, and whose checksum, over all
  of it, \<open>ip_input\<close> accepts; no byte outside the 20 of the fixed part changes.
\<close>

theorem ip_header_accepted:
  assumes "n mod 4 = 0" "n \<le> 40"
  shows "let m' = write_ip_header h src dest ttl tos proto (IP_HLEN + n) tot_len ident (add_halves m (h + IP_HLEN) (n div 2) 0) m in
    IPH_V m' h = 4 \<and> unat (IPH_HL m' h * 4) = IP_HLEN + n \<and> lwip_htons (IPH_LEN m' h) = tot_len \<and>
    lwip_chksum_at m' h (IP_HLEN + n) = 0 \<and> IPH_OFFSET m' h = 0 \<and> IPH_PROTO m' h = proto \<and>
    iphdr_src m' h = src \<and> iphdr_dest m' h = dest \<and> (\<forall>a. a < h \<or> h + IP_HLEN \<le> a \<longrightarrow> m' a = m a)"
proof -
  define m' where "m' = write_ip_header h src dest ttl tos proto (IP_HLEN + n) tot_len ident (add_halves m (h + IP_HLEN) (n div 2) 0) m"
  let ?s = "add_halves m (h + IP_HLEN) (n div 2) 0" and ?bs = "mem_bytes m (h + 20) n"
  have "2 * (n div 2) = n" using assms(1) by presburger
  then have "byte_sum ?bs \<le> 1310700 \<and> mem_bytes m (h + 20) (2 * (n div 2)) = ?bs"
    using byte_sum_bound [of ?bs] assms(2) by (auto intro: order_trans)
  then have s: "unat ?s = byte_sum ?bs" "unat ?s \<le> 1310700" using byte_sum_add_halves [of 0 m "h + 20" "n div 2"] by (simp_all add: IP_HLEN_def)
  obtain ck where w: "mem_bytes m' h 20 = ip_header src dest ttl tos proto (IP_HLEN + n) tot_len ident ck"
    "unat ck = 65535 - canon (unat ?s + byte_sum (ip_header src dest ttl tos proto (IP_HLEN + n) tot_len ident 0))"
    "\<And>a n. a + n \<le> h \<or> h + 20 \<le> a \<Longrightarrow> mem_bytes m' a n = mem_bytes m a n"
    using write_ip_header_bytes [of ?s h src dest ttl tos proto "IP_HLEN + n" tot_len ident m] s(2) unfolding m'_def by auto
  have "mem_bytes m' h (IP_HLEN + n) = ip_header src dest ttl tos proto (IP_HLEN + n) tot_len ident ck @ ?bs"
    using w(1,3) by (simp add: mem_bytes_append IP_HLEN_def)
  then have chk: "lwip_chksum_at m' h (IP_HLEN + n) = 0"
    using header_verifies [OF w(2) [unfolded s(1)]] assms(2) by (simp add: chksum_at_zero IP_HLEN_def)
  have k: "(IP_HLEN + n) div 4 < 16" "(IP_HLEN + n) div 4 * 4 = IP_HLEN + n" using assms(1,2) by (auto simp: IP_HLEN_def)
  then have hl: "unat (of_nat ((IP_HLEN + n) div 4) * 4 :: u16) = IP_HLEN + n" using assms(2) by (simp add: unat_word_ariths unat_of_nat IP_HLEN_def)
  have "m' a = m a" if "a < h \<or> h + 20 \<le> a" for a using w(3) [of a 1] that by (auto simp: mem_bytes_def)
  then show ?thesis unfolding Let_def m'_def [symmetric]
    using header_read [OF w(1)] chk version_fields [OF k(1), of tos] hl
    by (simp add: IPH_V_def IPH_HL_def IPH_LEN_def IPH_OFFSET_def IPH_PROTO_def iphdr_src_def iphdr_dest_def lwip_htons_PP swap_twice IP_HLEN_def)
qed

lemma ip_header_accepted_witness:
  "lwip_chksum_at (write_ip_header 100 1 2 128 0 17 (IP_HLEN + 4) 60 7 (add_halves (\<lambda>_. 1) (100 + IP_HLEN) 2 0) (\<lambda>_. 1)) 100 (IP_HLEN + 4) = 0"
  using ip_header_accepted [of 4 100 1 2 128 0 17 60 7 "\<lambda>_. 1"] by (simp add: Let_def)

section \<open>An echo reply\<close>

lemma byte_sum_zero: "byte_sum bs = 0 \<longleftrightarrow> (\<forall>b\<in>set bs. b = 0)"
  by (induction bs rule: byte_sum.induct) (auto simp: unat_eq_0)

lemma complement_verifies: "0 < S + (65535 - canon S) \<and> (S + (65535 - canon S)) mod 65535 = 0"
proof -
  have "(S + (65535 - canon S)) mod 65535 = (canon S + (65535 - canon S)) mod 65535" by (metis canon_mod mod_add_left_eq)
  also have "\<dots> = 0" using canon_le [of S] by simp
  finally show ?thesis by (cases "S = 0") (auto simp: canon_def)
qed

text \<open>A checksum over 20 bytes, stored in place of a zero at offset 10, verifies.\<close>

lemma header_chksum:
  assumes "load16 m (h + 10) = 0"
  shows "lwip_chksum_at (store16 m (h + 10) (lwip_chksum_at m h 20)) h 20 = 0"
proof -
  let ?ck = "lwip_chksum_at m h 20" and ?S = "byte_sum (mem_bytes m h 20)"
  let ?m = "store16 m (h + 10) ?ck"
  have sum: "byte_sum (mem_bytes n h 20) = byte_sum (mem_bytes n h 10) + unat (load16 n (h + 10)) + byte_sum (mem_bytes n (h + 12) 8)" for n
  proof -
    have "mem_bytes n h 20 = mem_bytes n h 10 @ mem_bytes n (h + 10) 10" using mem_bytes_append [of n h 10 10] by simp
    moreover have "byte_sum (mem_bytes n h 10 @ bs) = byte_sum (mem_bytes n h 10) + byte_sum bs" for bs
      by (simp add: mem_bytes_def upt_conv_Cons)
    moreover have "byte_sum (mem_bytes n (h + 10) 10) = unat (load16 n (h + 10)) + byte_sum (mem_bytes n (h + 12) 8)"
    proof -
      have "Suc (Suc 8) = 10" "h + 10 + 2 = h + 12" by simp_all
      then show ?thesis using byte_sum_half [of n "h + 10" 8] by metis
    qed
    ultimately show ?thesis by simp
  qed
  have "unat ?ck = 65535 - canon ?S" using chksum2_correct [of "mem_bytes m h 20" h] by (simp add: lwip_chksum_at_def inet_chksum_def unat_not16)
  moreover have "mem_bytes ?m h 10 = mem_bytes m h 10" "mem_bytes ?m (h + 12) 8 = mem_bytes m (h + 12) 8"
    by (simp_all add: put_bytes_store16 mem_bytes_put_other)
  ultimately have "byte_sum (mem_bytes ?m h 20) = ?S + (65535 - canon ?S)" using assms by (simp add: sum)
  then show ?thesis using complement_verifies [of ?S] by (simp add: chksum_at_zero)
qed

text \<open>
  Adding 8 to the checksum, with the carry as the code has it, when the type goes from 8 to 0:
  the sum of the message drops by 0 or by 65535.
\<close>

definition adjusted :: "u16 \<Rightarrow> u16" where
  "adjusted c = (if c \<ge> PP_HTONS (0xffff - push_bit 8 (ucast ICMP_ECHO)) then c + (PP_HTONS (push_bit 8 (ucast ICMP_ECHO)) + 1)
     else c + PP_HTONS (push_bit 8 (ucast ICMP_ECHO)))"

lemma unat_adjusted: "unat (adjusted c) + (if 65527 \<le> unat c then 65535 else 0) = unat c + 8"
proof -
  have k: "PP_HTONS (0xffff - push_bit 8 (ucast ICMP_ECHO)) = 0xfff7" "PP_HTONS (push_bit 8 (ucast ICMP_ECHO)) = 8"
    by (simp_all add: PP_HTONS_def ICMP_ECHO_def)
  have "unat c < 65536" by (rule unat_u16_bound)
  then have "65527 \<le> unat c \<longrightarrow> (unat c + 9) mod 65536 = unat c + 9 - 65536" by (simp add: le_mod_geq less_imp_diff_less)
  then show ?thesis unfolding adjusted_def k by (auto simp: word_le_nat_alt unat_word_ariths)
qed

lemma message_sum:
  assumes "4 \<le> n"
  shows "byte_sum (mem_bytes m a n) = unat (m a) + 256 * unat (m (Suc a)) + unat (load16 m (a + 2)) + byte_sum (mem_bytes m (a + 4) (n - 4))"
proof -
  have n: "Suc (Suc (n - 2)) = n" "Suc (Suc (n - 4)) = n - 2" "a + 2 + 2 = a + 4" using assms by auto
  show ?thesis
    using byte_sum_half [of m a "n - 2"] byte_sum_half [of m "a + 2" "n - 4"] unfolding n unat_load16 [of m a] by linarith
qed

text \<open>The reply in memory, when the message lies behind the IP header.\<close>

lemma echo_reply_writes:
  assumes "iphdr + IP_HLEN \<le> iecho"
  shows "echo_reply v iphdr iecho m iecho = ICMP_ER" "load16 (echo_reply v iphdr iecho m) (iecho + 2) = adjusted (load16 m (iecho + 2))"
    "a = Suc iecho \<or> iecho + 4 \<le> a \<Longrightarrow> echo_reply v iphdr iecho m a = m a"
    "load32 (echo_reply v iphdr iecho m) (iphdr + 12) = current_iphdr_dest v" "load32 (echo_reply v iphdr iecho m) (iphdr + 16) = current_iphdr_src v"
    "lwip_chksum_at (echo_reply v iphdr iecho m) iphdr IP_HLEN = 0"
proof -
  let ?a = "\<lambda>m. store32 (store32 m (iphdr + 12) (current_iphdr_dest v)) (iphdr + 16) (current_iphdr_src v)"
  let ?b = "(store16 ((?a m)(iecho := ICMP_ER)) (iecho + 2) (adjusted (load16 ((?a m)(iecho := ICMP_ER)) (iecho + 2))))(iphdr + 8 := ICMP_TTL)"
  let ?c = "store16 ?b (iphdr + 10) 0"
  have e: "echo_reply v iphdr iecho m = store16 ?c (iphdr + 10) (lwip_chksum_at ?c iphdr 20)"
    by (simp add: echo_reply_def adjusted_def Let_def IP_HLEN_def)
  have "load16 ((?a m)(iecho := ICMP_ER)) (iecho + 2) = load16 m (iecho + 2)"
    using assms by (simp add: load16_def store32_def store16_def IP_HLEN_def)
  then have ck: "?b = (store16 ((?a m)(iecho := ICMP_ER)) (iecho + 2) (adjusted (load16 m (iecho + 2))))(iphdr + 8 := ICMP_TTL)" by simp
  show "echo_reply v iphdr iecho m iecho = ICMP_ER" "a = Suc iecho \<or> iecho + 4 \<le> a \<Longrightarrow> echo_reply v iphdr iecho m a = m a"
    unfolding e using assms by (auto simp: store16_def store32_def IP_HLEN_def)
  show "load16 (echo_reply v iphdr iecho m) (iecho + 2) = adjusted (load16 m (iecho + 2))"
    unfolding e ck using assms by (simp add: load16_store16_disjoint IP_HLEN_def) (simp add: load16_def store16_def bytes_of_u16)
  note put = put_bytes_store16 put_bytes_store32 put_bytes_update mem_bytes_put_other mem_bytes_put_same IP_HLEN_def
  show "load32 (echo_reply v iphdr iecho m) (iphdr + 12) = current_iphdr_dest v"
    by (rule load32_addr) (use assms in \<open>simp add: e put\<close>)
  show "load32 (echo_reply v iphdr iecho m) (iphdr + 16) = current_iphdr_src v"
    by (rule load32_addr) (use assms in \<open>simp add: e put\<close>)
  show "lwip_chksum_at (echo_reply v iphdr iecho m) iphdr IP_HLEN = 0" unfolding e IP_HLEN_def by (rule header_chksum) simp
qed

lemma carry_sum: "(8 + x) mod 65535 = 0 \<Longrightarrow> x < 65536 \<Longrightarrow> x = (65527 :: nat)"
proof -
  assume that: "(8 + x) mod 65535 = 0" "x < 65536"
  have "x = 65527 \<or> 8 + x < 65535 \<or> (8 + x) mod 65535 = x - 65527 \<and> 65527 < x"
    using that(2) by (cases "8 + x < 65535") (auto simp: le_mod_geq)
  then show ?thesis using that(1) mod_less [of "8 + x" 65535] by linarith
qed


text \<open>An echo request of identifier 1, and the one that is answered with a wrong checksum.\<close>

definition echo_request :: "u8 \<Rightarrow> u8 \<Rightarrow> memory" where
  "echo_request c ident = (\<lambda>_. 0)(120 := ICMP_ECHO, 122 := c, 123 := 0xff, 124 := ident)"

definition pinged :: ip_vars where
  "pinged = \<lparr>current_netif = None, current_header = None, current_iphdr_src = 0x0501A8C0, current_iphdr_dest = 0x0201A8C0, ip_id = 0\<rparr>"

lemma echo_request_bytes:
  "mem_bytes (echo_request c d) 120 8 = [8, 0, c, 0xff, d, 0, 0, 0]" "mem_bytes (echo_request c d) 124 4 = [d, 0, 0, 0]"
  by (simp_all add: echo_request_def mem_bytes_def upt_conv_Cons ICMP_ECHO_def)


end
