(* ===== verification/SysTimeouts.thy ===== *)
theory SysTimeouts
  imports Prelude "HOL-Library.Monad_Syntax"
begin

text \<open>
  The timeouts of lwIP, tools/sdk/lwip/src/core/timers.c, in the configuration of lwipopts.h
  (\<open>NO_SYS\<close>; ARP, DHCP, IGMP, DNS and TCP on; IP reassembly and AutoIP off): the list of pending timeouts, each
  holding the time after the one before it, and the periodic timers of the protocol modules.  The linked list is a list;
  a handler is a \<open>timer_fn\<close>.  The heap, the clock and the protocol modules are the argument \<open>env\<close>.
  \<open>None\<close> is a read through a null list head, or a check that never ends.
\<close>

section \<open>State\<close>

datatype timer_fn = Tcpip_tcp_timer | Tcp_timer_coarse | Arp_timer | Dhcp_timer_coarse | Dhcp_timer_fine
  | Igmp_timer | Dns_timer | User_timer nat

record sys_timeo =
  to_time :: u32
  to_h :: "timer_fn option"
  to_arg :: u32

record 'h net_timers =
  next_timeout :: "sys_timeo list"
  timeouts_last_time :: u32
  tcpip_tcp_timer_active :: bool
  net :: 'h

record 'h timers_env =
  tm_malloc :: "'h \<Rightarrow> bool \<times> 'h"
  tm_free :: "'h \<Rightarrow> 'h"
  tm_now :: "'h \<Rightarrow> u32 \<times> 'h"
  timer2_ms_flag :: "'h \<Rightarrow> u8"
  tcp_pcbs :: "'h \<Rightarrow> bool"
  tcp_tmr :: "'h \<Rightarrow> 'h"
  etharp_tmr :: "'h \<Rightarrow> 'h"
  dhcp_coarse_tmr :: "'h \<Rightarrow> 'h"
  dhcps_coarse_tmr :: "'h \<Rightarrow> 'h"
  dhcp_fine_tmr :: "'h \<Rightarrow> 'h"
  dhcp_maxrtx_clear :: "'h \<Rightarrow> 'h"
  igmp_tmr :: "'h \<Rightarrow> 'h"
  dns_tmr :: "'h \<Rightarrow> 'h"
  user_timer :: "nat \<Rightarrow> u32 \<Rightarrow> 'h net_timers \<Rightarrow> 'h net_timers"

definition TCP_TMR_INTERVAL :: u32 where "TCP_TMR_INTERVAL = 125"
definition ARP_TMR_INTERVAL :: u32 where "ARP_TMR_INTERVAL = 5000"
definition DHCP_COARSE_TIMER_MSECS :: u32 where "DHCP_COARSE_TIMER_MSECS = 60 * 1000"
definition DHCP_FINE_TIMER_MSECS :: u32 where "DHCP_FINE_TIMER_MSECS = 500"
definition IGMP_TMR_INTERVAL :: u32 where "IGMP_TMR_INTERVAL = 100"
definition DNS_TMR_INTERVAL :: u32 where "DNS_TMR_INTERVAL = 1000"

section \<open>Setting and removing a timeout\<close>

fun timeout_walk :: "sys_timeo \<Rightarrow> sys_timeo list \<Rightarrow> sys_timeo list" where
  "timeout_walk timeout [] = []"
| "timeout_walk timeout (t # ts) =
     (let timeout = timeout\<lparr>to_time := to_time timeout - to_time t\<rparr>
      in case ts of
           [] \<Rightarrow> [t, timeout]
         | u # us \<Rightarrow> if to_time u > to_time timeout
             then t # timeout # u\<lparr>to_time := to_time u - to_time timeout\<rparr> # us
             else t # timeout_walk timeout ts)"

definition timeout_link :: "u32 \<Rightarrow> sys_timeo \<Rightarrow> sys_timeo list \<Rightarrow> sys_timeo list" where
  "timeout_link msecs timeout l =
     (case l of
        [] \<Rightarrow> [timeout]
      | t # ts \<Rightarrow> if to_time t > msecs then timeout # t\<lparr>to_time := to_time t - msecs\<rparr> # ts
          else timeout_walk timeout l)"

definition sys_timeout ::
  "'h timers_env \<Rightarrow> u32 \<Rightarrow> timer_fn option \<Rightarrow> u32 \<Rightarrow> 'h net_timers \<Rightarrow> 'h net_timers" where
  "sys_timeout env msecs handler arg s =
     (case tm_malloc env (net s) of (ok, w) \<Rightarrow>
        if \<not> ok then s\<lparr>net := w\<rparr>
        else s\<lparr>net := w, next_timeout :=
               timeout_link msecs \<lparr>to_time = msecs, to_h = handler, to_arg = arg\<rparr> (next_timeout s)\<rparr>)"

fun timeout_unlink :: "timer_fn option \<Rightarrow> u32 \<Rightarrow> sys_timeo list \<Rightarrow> sys_timeo list option" where
  "timeout_unlink handler arg [] = None"
| "timeout_unlink handler arg (t # ts) =
     (if to_h t = handler \<and> to_arg t = arg
      then Some (case ts of [] \<Rightarrow> [] | u # us \<Rightarrow> u\<lparr>to_time := to_time u + to_time t\<rparr> # us)
      else map_option ((#) t) (timeout_unlink handler arg ts))"

definition sys_untimeout :: "'h timers_env \<Rightarrow> timer_fn option \<Rightarrow> u32 \<Rightarrow> 'h net_timers \<Rightarrow> 'h net_timers" where
  "sys_untimeout env handler arg s =
     (case timeout_unlink handler arg (next_timeout s) of
        None \<Rightarrow> s
      | Some l \<Rightarrow> s\<lparr>next_timeout := l, net := tm_free env (net s)\<rparr>)"

section \<open>The timers of the protocol modules\<close>

definition on_net :: "('h \<Rightarrow> 'h) \<Rightarrow> 'h net_timers \<Rightarrow> 'h net_timers" where
  "on_net f s = s\<lparr>net := f (net s)\<rparr>"

definition tcpip_tcp_timer :: "'h timers_env \<Rightarrow> 'h net_timers \<Rightarrow> 'h net_timers" where
  "tcpip_tcp_timer env s =
     (let s = on_net (tcp_tmr env) s
      in if tcp_pcbs env (net s) then sys_timeout env TCP_TMR_INTERVAL (Some Tcpip_tcp_timer) 0 s
         else s\<lparr>tcpip_tcp_timer_active := False\<rparr>)"

definition tcp_timer_needed :: "'h timers_env \<Rightarrow> 'h net_timers \<Rightarrow> 'h net_timers" where
  "tcp_timer_needed env s =
     (if \<not> tcpip_tcp_timer_active s \<and> tcp_pcbs env (net s)
      then sys_timeout env TCP_TMR_INTERVAL (Some Tcpip_tcp_timer) 0 (s\<lparr>tcpip_tcp_timer_active := True\<rparr>)
      else s)"

definition tcp_timer_coarse :: "'h timers_env \<Rightarrow> 'h net_timers \<Rightarrow> 'h net_timers" where
  "tcp_timer_coarse env s = sys_timeout env TCP_TMR_INTERVAL (Some Tcp_timer_coarse) 0 (on_net (tcp_tmr env) s)"

definition arp_timer :: "'h timers_env \<Rightarrow> 'h net_timers \<Rightarrow> 'h net_timers" where
  "arp_timer env s = sys_timeout env ARP_TMR_INTERVAL (Some Arp_timer) 0 (on_net (etharp_tmr env) s)"

definition dhcp_timer_coarse :: "'h timers_env \<Rightarrow> 'h net_timers \<Rightarrow> 'h net_timers" where
  "dhcp_timer_coarse env s =
     sys_timeout env DHCP_COARSE_TIMER_MSECS (Some Dhcp_timer_coarse) 0
       (on_net (dhcps_coarse_tmr env) (on_net (dhcp_coarse_tmr env) s))"

definition dhcp_timer_fine :: "'h timers_env \<Rightarrow> 'h net_timers \<Rightarrow> 'h net_timers" where
  "dhcp_timer_fine env s = sys_timeout env DHCP_FINE_TIMER_MSECS (Some Dhcp_timer_fine) 0 (on_net (dhcp_fine_tmr env) s)"

definition igmp_timer :: "'h timers_env \<Rightarrow> 'h net_timers \<Rightarrow> 'h net_timers" where
  "igmp_timer env s = sys_timeout env IGMP_TMR_INTERVAL (Some Igmp_timer) 0 (on_net (igmp_tmr env) s)"

definition dns_timer :: "'h timers_env \<Rightarrow> 'h net_timers \<Rightarrow> 'h net_timers" where
  "dns_timer env s = sys_timeout env DNS_TMR_INTERVAL (Some Dns_timer) 0 (on_net (dns_tmr env) s)"

text \<open>The call through the function pointer.\<close>

definition call_timer :: "'h timers_env \<Rightarrow> timer_fn \<Rightarrow> u32 \<Rightarrow> 'h net_timers \<Rightarrow> 'h net_timers" where
  "call_timer env h arg s =
     (case h of
        Tcpip_tcp_timer \<Rightarrow> tcpip_tcp_timer env s
      | Tcp_timer_coarse \<Rightarrow> tcp_timer_coarse env s
      | Arp_timer \<Rightarrow> arp_timer env s
      | Dhcp_timer_coarse \<Rightarrow> dhcp_timer_coarse env s
      | Dhcp_timer_fine \<Rightarrow> dhcp_timer_fine env s
      | Igmp_timer \<Rightarrow> igmp_timer env s
      | Dns_timer \<Rightarrow> dns_timer env s
      | User_timer i \<Rightarrow> user_timer env i arg s)"

definition sys_timeouts_init :: "'h timers_env \<Rightarrow> 'h net_timers \<Rightarrow> 'h net_timers" where
  "sys_timeouts_init env s =
     (let s = sys_timeout env ARP_TMR_INTERVAL (Some Arp_timer) 0 s;
          s = on_net (dhcp_maxrtx_clear env) s;
          s = sys_timeout env DHCP_COARSE_TIMER_MSECS (Some Dhcp_timer_coarse) 0 s;
          s = sys_timeout env DHCP_FINE_TIMER_MSECS (Some Dhcp_timer_fine) 0 s;
          s = sys_timeout env IGMP_TMR_INTERVAL (Some Igmp_timer) 0 s;
          s = sys_timeout env DNS_TMR_INTERVAL (Some Dns_timer) 0 s;
          s = sys_timeout env TCP_TMR_INTERVAL (Some Tcpip_tcp_timer) 0 s
      in case tm_now env (net s) of (now, w) \<Rightarrow> s\<lparr>net := w, timeouts_last_time := now\<rparr>)"

section \<open>Running what has expired\<close>

definition APB_CLK_FREQ :: u32 where "APB_CLK_FREQ = 80 * 1000000"

definition LWIP_U32_DIFF :: "u32 \<Rightarrow> u32 \<Rightarrow> u32" where
  "LWIP_U32_DIFF a b = (if a \<ge> b then a - b else a + (b XOR 0xFFFFFFFF) + 1)"

partial_function (option) check_loop ::
  "'h timers_env \<Rightarrow> u32 \<Rightarrow> u32 \<Rightarrow> 'h net_timers \<Rightarrow> 'h net_timers option" where
  "check_loop env now diff s =
     (case next_timeout s of
        [] \<Rightarrow> None
      | t # ts \<Rightarrow>
          if to_time t \<le> diff then
            let s = s\<lparr>timeouts_last_time := now, next_timeout := ts, net := tm_free env (net s)\<rparr>
            in check_loop env now (diff - to_time t)
                 (case to_h t of None \<Rightarrow> s | Some h \<Rightarrow> call_timer env h (to_arg t) s)
          else Some s)"

definition elapsed_ms :: "'h timers_env \<Rightarrow> u32 \<Rightarrow> 'h net_timers \<Rightarrow> u32" where
  "elapsed_ms env now s =
     (if timer2_ms_flag env (net s) = 0 then LWIP_U32_DIFF now (timeouts_last_time s) div (drop_bit 4 APB_CLK_FREQ div 1000)
      else LWIP_U32_DIFF now (timeouts_last_time s) div (drop_bit 8 APB_CLK_FREQ div 1000))"

definition sys_check_timeouts :: "'h timers_env \<Rightarrow> 'h net_timers \<Rightarrow> 'h net_timers option" where
  "sys_check_timeouts env s =
     (case tm_now env (net s) of (now, w) \<Rightarrow>
        let s = s\<lparr>net := w\<rparr>
        in if next_timeout s \<noteq> [] then check_loop env now (elapsed_ms env now s) s else Some s)"

definition sys_restart_timeouts :: "'h timers_env \<Rightarrow> 'h net_timers \<Rightarrow> 'h net_timers" where
  "sys_restart_timeouts env s = (case tm_now env (net s) of (now, w) \<Rightarrow> s\<lparr>net := w, timeouts_last_time := now\<rparr>)"

section \<open>Due times\<close>

text \<open>A list of differences read as the times each timeout is due, counted from \<open>b\<close>.\<close>

fun dues :: "nat \<Rightarrow> sys_timeo list \<Rightarrow> (nat \<times> timer_fn option \<times> u32) list" where
  "dues b [] = []"
| "dues b (t # ts) = (b + unat (to_time t), to_h t, to_arg t) # dues (b + unat (to_time t)) ts"

text \<open>Insertion after everything due no later.\<close>

fun due_insert :: "nat \<times> 'k \<Rightarrow> (nat \<times> 'k) list \<Rightarrow> (nat \<times> 'k) list" where
  "due_insert x [] = [x]"
| "due_insert x (y # ys) = (if fst x < fst y then x # y # ys else y # due_insert x ys)"

lemma due_insert_set [simp]: "set (due_insert x ys) = insert x (set ys)"
  by (induction ys) auto

lemma due_insert_length [simp]: "length (due_insert x ys) = Suc (length ys)"
  by (induction ys) auto

lemma due_insert_sorted: "sorted (map fst ys) \<Longrightarrow> sorted (map fst (due_insert x ys))"
  by (induction ys) auto

lemma due_insert_distinct:
  "distinct (map snd (due_insert x ys)) \<longleftrightarrow> snd x \<notin> snd ` set ys \<and> distinct (map snd ys)"
  by (induction ys) auto

lemma dues_ge: "x \<in> set (dues b l) \<Longrightarrow> b \<le> fst x"
  by (induction l arbitrary: b) fastforce+

lemma dues_sorted: "sorted (map fst (dues b l))"
  by (induction l arbitrary: b) (auto dest!: dues_ge)

lemma dues_keys: "map snd (dues b l) = map (\<lambda>t. (to_h t, to_arg t)) l"
  by (induction l arbitrary: b) auto

lemma unat_sub_less: "a < b \<Longrightarrow> unat (b - a) = unat b - unat a" for a b :: u32
  by (simp add: unat_sub order_less_imp_le)

lemma timeout_walk_dues:
  "l \<noteq> [] \<Longrightarrow> to_time (hd l) \<le> to_time t \<Longrightarrow>
   dues b (timeout_walk t l) = due_insert (b + unat (to_time t), to_h t, to_arg t) (dues b l)"
proof (induction t l arbitrary: b rule: timeout_walk.induct)
  case (2 t u us)
  let ?t = "t\<lparr>to_time := to_time t - to_time u\<rparr>"
  have le: "unat (to_time u) \<le> unat (to_time t)" using 2(3) by (simp add: word_le_nat_alt)
  have sub: "unat (to_time t - to_time u) = unat (to_time t) - unat (to_time u)" using 2(3) by (simp add: unat_sub)
  show ?case
  proof (cases us)
    case Nil
    then show ?thesis using le sub by simp
  next
    case (Cons v vs)
    show ?thesis
    proof (cases "to_time v > to_time ?t")
      case True
      then have "unat (to_time v - to_time ?t) = unat (to_time v) - unat (to_time ?t)"
        by (rule unat_sub_less)
      moreover have "unat (to_time t) < unat (to_time u) + unat (to_time v)"
        using True le sub by (simp add: word_less_nat_alt)
      ultimately show ?thesis using True le sub Cons by (simp add: ac_simps)
    next
      case False
      then have "dues (b + unat (to_time u)) (timeout_walk ?t us) =
          due_insert (b + unat (to_time u) + unat (to_time ?t), to_h t, to_arg t) (dues (b + unat (to_time u)) us)"
        using 2(1)[of ?t v vs "b + unat (to_time u)"] Cons by simp
      then show ?thesis using False le sub Cons by simp
    qed
  qed
qed simp

lemma timeout_link_dues:
  assumes "to_time t = ms"
  shows "dues b (timeout_link ms t l) = due_insert (b + unat ms, to_h t, to_arg t) (dues b l)"
proof (cases l)
  case (Cons u us)
  show ?thesis
  proof (cases "to_time u > ms")
    case True
    then have "unat (to_time u - ms) = unat (to_time u) - unat ms"
      by (rule unat_sub_less)
    moreover have "unat ms < unat (to_time u)" using True by (simp add: word_less_nat_alt)
    ultimately show ?thesis using True Cons assms by (simp add: timeout_link_def)
  next
    case False
    then show ?thesis using timeout_walk_dues[of l t b] Cons assms by (simp add: timeout_link_def)
  qed
qed (simp add: timeout_link_def assms)

text \<open>Removal: the first entry of the handler goes, every other due time stays.\<close>

fun due_remove :: "'k \<Rightarrow> (nat \<times> 'k) list \<Rightarrow> (nat \<times> 'k) list" where
  "due_remove k [] = []"
| "due_remove k (x # xs) = (if snd x = k then xs else x # due_remove k xs)"

definition in_range :: "sys_timeo list \<Rightarrow> bool" where
  "in_range l \<longleftrightarrow> (\<forall>x\<in>set (dues 0 l). fst x < 2 ^ 32)"

lemma dues_shift: "dues (a + b) l = map (\<lambda>(d, x). (a + d, x)) (dues b l)"
proof (induction l arbitrary: b)
  case (Cons t ts)
  then show ?case using Cons[of "b + unat (to_time t)"] by (simp add: add.assoc)
qed simp

lemma dues_from_0: "dues b l = map (\<lambda>(d, x). (b + d, x)) (dues 0 l)"
  using dues_shift[of b 0 l] by simp

lemma in_range_Cons: "in_range (t # ts) \<longleftrightarrow> (\<forall>x\<in>set (dues (unat (to_time t)) ts). fst x < 2 ^ 32)"
  using unsigned_less[of "to_time t", where ?'a = nat] by (simp add: in_range_def)

lemma in_range_tl: "in_range (t # ts) \<Longrightarrow> in_range ts"
  unfolding in_range_Cons by (subst (asm) dues_from_0) (fastforce simp: in_range_def)

lemma timeout_unlink_dues:
  "in_range l \<Longrightarrow>
   (case timeout_unlink h a l of
      None \<Rightarrow> (h, a) \<notin> snd ` set (dues b l)
    | Some l' \<Rightarrow> dues b l' = due_remove (h, a) (dues b l) \<and> (h, a) \<in> snd ` set (dues b l))"
proof (induction h a l arbitrary: b rule: timeout_unlink.induct)
  case (2 h a t ts)
  show ?case
  proof (cases "to_h t = h \<and> to_arg t = a")
    case True
    show ?thesis
    proof (cases ts)
      case (Cons u us)
      have "unat (to_time t) + unat (to_time u) < 2 ^ 32" using 2(2) Cons by (simp add: in_range_Cons)
      then have "unat (to_time u + to_time t) = unat (to_time t) + unat (to_time u)" by (simp add: unat_word_ariths)
      then show ?thesis using True Cons by (simp add: add.assoc)
    qed (use True in simp)
  next
    case False
    then show ?thesis using 2(1)[OF False in_range_tl[OF 2(2)], of "b + unat (to_time t)"]
      by (auto split: option.splits)
  qed
qed simp

section \<open>Catching up\<close>

text \<open>
  What should happen when time has moved to \<open>D\<close>: the earliest entry due no later fires, and is put
  back one period later, until nothing is due.
\<close>

inductive fires :: "('k \<Rightarrow> nat) \<Rightarrow> nat \<Rightarrow> (nat \<times> 'k) list \<Rightarrow> (nat \<times> 'k) list \<Rightarrow> (nat \<times> 'k) list \<Rightarrow> bool"
  for period D where
  rest: "(\<forall>x\<in>set es. D < fst x) \<Longrightarrow> fires period D es [] es"
| fire: "d \<le> D \<Longrightarrow> fires period D (due_insert (d + period k, k) es) ls es' \<Longrightarrow>
    fires period D ((d, k) # es) ((d, k) # ls) es'"

inductive_cases fires_firstE: "fires period D ((d, k) # es) ls es'"

lemma fires_ends:
  assumes "\<And>k. 0 < period k" "sorted (map fst es)"
  shows "\<exists>ls es'. fires period D es ls es'"
  using assms(2)
proof (induction "sum_list (map (\<lambda>x. Suc D - fst x) es)" arbitrary: es rule: less_induct)
  case less
  have sum: "sum_list (map f (due_insert x ys)) = f x + sum_list (map f ys)" for f :: "nat \<times> 'a \<Rightarrow> nat" and x ys
    by (induction ys) auto
  show ?case
  proof (cases es)
    case (Cons x xs)
    obtain d k where x: "x = (d, k)" by fastforce
    show ?thesis
    proof (cases "d \<le> D")
      case True
      have "Suc D - (d + period k) < Suc D - d" using True assms(1)[of k] by linarith
      then have "sum_list (map (\<lambda>x. Suc D - fst x) (due_insert (d + period k, k) xs)) < sum_list (map (\<lambda>x. Suc D - fst x) es)"
        using Cons x by (simp only: sum list.map sum_list.Cons fst_conv)
      moreover have "sorted (map fst (due_insert (d + period k, k) xs))" using less.prems Cons by (simp add: due_insert_sorted)
      ultimately show ?thesis using less.hyps[of "due_insert (d + period k, k) xs"] True Cons x
        by (blast intro: fires.fire)
    next
      case False
      then show ?thesis using less.prems Cons x by (intro exI[of _ "[]"] exI[of _ es] fires.rest) auto
    qed
  next
    case Nil
    moreover have "fires period D [] [] []" by (rule fires.rest) simp
    ultimately show ?thesis by blast
  qed
qed

lemma fires_sound:
  assumes "fires period D es ls es'" "sorted (map fst es)"
  shows "sorted (map fst ls) \<and> (\<forall>x\<in>set ls. fst x \<le> D) \<and> (\<forall>x\<in>set es'. D < fst x) \<and> sorted (map fst es') \<and>
         (\<forall>m. (\<forall>y\<in>set es. m \<le> fst y) \<longrightarrow> (\<forall>x\<in>set ls. m \<le> fst x))"
  using assms
proof (induction rule: fires.induct)
  case (fire d k es ls es')
  have "sorted (map fst (due_insert (d + period k, k) es))" using fire.prems by (simp add: due_insert_sorted)
  note IH = fire.IH[OF this]
  have "\<forall>x\<in>set ls. d \<le> fst x" using IH fire.prems by (auto elim!: allE[of _ d])
  then show ?case using IH fire.hyps(1) by auto
qed auto

lemma fires_periodic:
  assumes "fires period D es ls es'" "distinct (map snd es)" "(d, k) \<in> set es"
  shows "\<exists>n. filter (\<lambda>x. snd x = k) ls = map (\<lambda>i. (d + i * period k, k)) [0..<n] \<and> (d + n * period k, k) \<in> set es'"
  using assms
proof (induction arbitrary: d rule: fires.induct)
  case (rest es)
  then show ?case by (intro exI[of _ 0]) auto
next
  case (fire d0 k0 es ls es')
  have dist: "distinct (map snd (due_insert (d0 + period k0, k0) es))" using fire.prems(1) by (simp add: due_insert_distinct)
  show ?case
  proof (cases "k = k0")
    case True
    then have "d = d0" using fire.prems by force
    obtain n where n: "filter (\<lambda>x. snd x = k) ls = map (\<lambda>i. (d + period k + i * period k, k)) [0..<n]"
        "(d + period k + n * period k, k) \<in> set es'"
      using fire.IH[OF dist, of "d + period k"] True \<open>d = d0\<close> by auto
    have "map (\<lambda>i. (d + i * period k, k)) [0..<Suc n] = (d, k) # map (\<lambda>i. (d + Suc i * period k, k)) [0..<n]"
      by (subst upt_conv_Cons) (simp_all add: map_Suc_upt[symmetric] del: upt_Suc)
    then show ?thesis using n True \<open>d = d0\<close> by (intro exI[of _ "Suc n"]) (simp add: add.assoc del: upt_Suc)
  next
    case False
    then show ?thesis using fire.IH[OF dist, of d] fire.prems by auto
  qed
qed

lemma fires_keys: "fires period D es ls es' \<Longrightarrow> snd ` set ls \<subseteq> snd ` set es"
  by (induction rule: fires.induct) auto

lemma fires_count:
  assumes F: "fires period D es ls es'" and es: "distinct (map snd es)" "sorted (map fst es)" "(d, k) \<in> set es" and p: "0 < period k"
  defines "n \<equiv> if d \<le> D then Suc ((D - d) div period k) else 0"
  shows "filter (\<lambda>x. snd x = k) ls = map (\<lambda>i. (d + i * period k, k)) [0..<n] \<and> (d + n * period k, k) \<in> set es'"
proof -
  obtain m where m: "filter (\<lambda>x. snd x = k) ls = map (\<lambda>i. (d + i * period k, k)) [0..<m]" "(d + m * period k, k) \<in> set es'"
    using fires_periodic[OF F es(1,3)] by blast
  have after: "D < d + m * period k" using fires_sound[OF F es(2)] m(2) by fastforce
  have "m = n"
  proof (cases m)
    case 0
    then show ?thesis using after by (simp add: n_def)
  next
    case (Suc j)
    then have "(d + j * period k, k) \<in> set (filter (\<lambda>x. snd x = k) ls)" unfolding m(1) by (auto intro: image_eqI[where x = j])
    then have "d + j * period k \<le> D" using fires_sound[OF F es(2)] by fastforce
    then have "j * period k \<le> D - d" "D - d < Suc j * period k" "d \<le> D" using after Suc by simp_all
    then have "(D - d) div period k = j" by (intro div_nat_eqI) (simp_all add: mult.commute)
    then show ?thesis using \<open>d \<le> D\<close> Suc by (simp add: n_def)
  qed
  then show ?thesis using m by simp
qed

section \<open>The queue as an interface\<close>

text \<open>A timeout queue through its due times; setting a timeout and cancelling it changes nothing.\<close>

locale timeout_queue =
  fixes q_ok :: "'q \<Rightarrow> bool"
    and due :: "'q \<Rightarrow> (nat \<times> 'k) list"
    and add :: "nat \<Rightarrow> 'k \<Rightarrow> 'q \<Rightarrow> 'q"
    and cancel :: "'k \<Rightarrow> 'q \<Rightarrow> 'q"
    and horizon :: nat
  assumes add_law: "q_ok q \<Longrightarrow> d < horizon \<Longrightarrow> q_ok (add d k q) \<and> due (add d k q) = due_insert (d, k) (due q)"
    and cancel_law: "q_ok q \<Longrightarrow> q_ok (cancel k q) \<and> due (cancel k q) = due_remove k (due q)"
begin

lemma cancel_add:
  assumes "q_ok q" "d < horizon" "k \<notin> snd ` set (due q)"
  shows "due (cancel k (add d k q)) = due q"
proof -
  have "due_remove k (due_insert (d, k) es) = es" if "k \<notin> snd ` set es" for es
    using that by (induction es) auto
  then show ?thesis using add_law[OF assms(1,2)] cancel_law[of "add d k q" k] assms(3) by simp
qed

end

definition timeouts_due :: "'h net_timers \<Rightarrow> (nat \<times> timer_fn option \<times> u32) list" where
  "timeouts_due s = dues 0 (next_timeout s)"

definition timeouts_ok :: "'h timers_env \<Rightarrow> 'h net_timers \<Rightarrow> bool" where
  "timeouts_ok env s \<longleftrightarrow> (\<forall>w. fst (tm_malloc env w)) \<and> in_range (next_timeout s)"

lemma sys_timeout_due:
  assumes "fst (tm_malloc env (net s))"
  shows "dues b (next_timeout (sys_timeout env ms h a s)) = due_insert (b + unat ms, h, a) (dues b (next_timeout s))"
  using assms by (cases "tm_malloc env (net s)") (simp add: sys_timeout_def timeout_link_dues)

lemma sys_untimeout_due:
  assumes "in_range (next_timeout s)"
  shows "dues b (next_timeout (sys_untimeout env h a s)) = due_remove (h, a) (dues b (next_timeout s))"
proof -
  have "due_remove (h, a) es = es" if "(h, a) \<notin> snd ` set es" for es :: "(nat \<times> timer_fn option \<times> u32) list"
    using that by (induction es) auto
  then show ?thesis using timeout_unlink_dues[OF assms, of h a b] by (auto simp: sys_untimeout_def split: option.splits)
qed

lemma due_remove_set: "set (due_remove k es) \<subseteq> set es"
  by (induction es) auto

interpretation net_queue: timeout_queue "timeouts_ok env" timeouts_due "\<lambda>d k. sys_timeout env (of_nat d) (fst k) (snd k)"
    "\<lambda>k. sys_untimeout env (fst k) (snd k)" "2 ^ 32"
  for env
proof
  fix q :: "'a net_timers" and d and k :: "timer_fn option \<times> u32"
  assume ok: "timeouts_ok env q"
  have "due_insert (unat (of_nat d :: u32), fst k, snd k) (timeouts_due q) = due_insert (d, k) (timeouts_due q)" if "d < 2 ^ 32"
    using that by (simp add: unat_of_nat)
  then show "timeouts_ok env (sys_timeout env (of_nat d) (fst k) (snd k) q) \<and>
      timeouts_due (sys_timeout env (of_nat d) (fst k) (snd k) q) = due_insert (d, k) (timeouts_due q)" if "d < 2 ^ 32"
    using ok sys_timeout_due[of env q 0 "of_nat d" "fst k" "snd k"] that
    by (auto simp: timeouts_ok_def timeouts_due_def in_range_def)
  show "timeouts_ok env (sys_untimeout env (fst k) (snd k) q) \<and>
      timeouts_due (sys_untimeout env (fst k) (snd k) q) = due_remove k (timeouts_due q)"
    using ok sys_untimeout_due[of q 0 env "fst k" "snd k"] due_remove_set[of k "timeouts_due q"]
    by (auto simp: timeouts_ok_def timeouts_due_def in_range_def)
qed


section \<open>The periodic timers\<close>

fun timer_period :: "timer_fn \<Rightarrow> nat" where
  "timer_period Tcpip_tcp_timer = 125"
| "timer_period Tcp_timer_coarse = 125"
| "timer_period Arp_timer = 5000"
| "timer_period Dhcp_timer_coarse = 60000"
| "timer_period Dhcp_timer_fine = 500"
| "timer_period Igmp_timer = 100"
| "timer_period Dns_timer = 1000"
| "timer_period (User_timer i) = 1"

lemma timer_period_pos: "0 < timer_period h"
  by (cases h) auto

definition module_timer :: "timer_fn \<Rightarrow> bool" where
  "module_timer h \<longleftrightarrow> h \<in> {Tcpip_tcp_timer, Arp_timer, Dhcp_timer_coarse, Dhcp_timer_fine, Igmp_timer, Dns_timer}"

text \<open>
  An environment in which the heap is never full, connections exist, and \<open>lg\<close> records the calls of
  the protocol modules.
\<close>

definition timers_env_ok :: "'h timers_env \<Rightarrow> ('h \<Rightarrow> timer_fn list) \<Rightarrow> bool" where
  "timers_env_ok env lg \<longleftrightarrow>
     (\<forall>w. fst (tm_malloc env w) \<and> tcp_pcbs env w) \<and>
     (\<forall>w. lg (snd (tm_malloc env w)) = lg w \<and> lg (tm_free env w) = lg w \<and> lg (snd (tm_now env w)) = lg w) \<and>
     (\<forall>w. lg (tcp_tmr env w) = lg w @ [Tcpip_tcp_timer] \<and> lg (etharp_tmr env w) = lg w @ [Arp_timer] \<and>
          lg (dhcp_coarse_tmr env w) = lg w @ [Dhcp_timer_coarse] \<and> lg (dhcps_coarse_tmr env w) = lg w \<and>
          lg (dhcp_fine_tmr env w) = lg w @ [Dhcp_timer_fine] \<and> lg (igmp_tmr env w) = lg w @ [Igmp_timer] \<and>
          lg (dns_tmr env w) = lg w @ [Dns_timer])"

definition module_list :: "sys_timeo list \<Rightarrow> bool" where
  "module_list l \<longleftrightarrow> (\<forall>t\<in>set l. \<exists>h. to_h t = Some h \<and> module_timer h)"

definition pending :: "nat \<Rightarrow> sys_timeo list \<Rightarrow> (nat \<times> timer_fn) list" where
  "pending b l = map (\<lambda>(d, x). (d, the (fst x))) (dues b l)"

lemma due_insert_map: "map (\<lambda>(d, x). (d, f x)) (due_insert (d, x) ys) = due_insert (d, f x) (map (\<lambda>(d, x). (d, f x)) ys)"
  by (induction ys) auto

lemma timers_env_okD:
  assumes "timers_env_ok env lg"
  shows "fst (tm_malloc env w)" "tcp_pcbs env w" "lg (snd (tm_malloc env w)) = lg w" "lg (tm_free env w) = lg w"
    "lg (snd (tm_now env w)) = lg w" "lg (tcp_tmr env w) = lg w @ [Tcpip_tcp_timer]" "lg (etharp_tmr env w) = lg w @ [Arp_timer]"
    "lg (dhcp_coarse_tmr env w) = lg w @ [Dhcp_timer_coarse]" "lg (dhcps_coarse_tmr env w) = lg w"
    "lg (dhcp_fine_tmr env w) = lg w @ [Dhcp_timer_fine]" "lg (igmp_tmr env w) = lg w @ [Igmp_timer]"
    "lg (dns_tmr env w) = lg w @ [Dns_timer]"
  using assms by (simp_all add: timers_env_ok_def)

lemma sys_timeout_ok:
  assumes "timers_env_ok env lg"
  shows "lg (net (sys_timeout env ms h a s)) = lg (net s)"
    and "timeouts_last_time (sys_timeout env ms h a s) = timeouts_last_time s"
    and "next_timeout (sys_timeout env ms h a s) = timeout_link ms \<lparr>to_time = ms, to_h = h, to_arg = a\<rparr> (next_timeout s)"
proof -
  obtain w where "tm_malloc env (net s) = (True, w)" using timers_env_okD(1)[OF assms, of "net s"]
    by (cases "tm_malloc env (net s)") simp
  then show "lg (net (sys_timeout env ms h a s)) = lg (net s)" "timeouts_last_time (sys_timeout env ms h a s) = timeouts_last_time s"
    "next_timeout (sys_timeout env ms h a s) = timeout_link ms \<lparr>to_time = ms, to_h = h, to_arg = a\<rparr> (next_timeout s)"
    using timers_env_okD(3)[OF assms, of "net s"] by (simp_all add: sys_timeout_def)
qed

lemma call_module_timer:
  assumes env: "timers_env_ok env lg" and h: "module_timer h"
  shows "lg (net (call_timer env h a s)) = lg (net s) @ [h]"
    and "timeouts_last_time (call_timer env h a s) = timeouts_last_time s"
    and "next_timeout (call_timer env h a s) =
      timeout_link (of_nat (timer_period h)) \<lparr>to_time = of_nat (timer_period h), to_h = Some h, to_arg = 0\<rparr> (next_timeout s)"
proof -
  note defs = call_timer_def on_net_def Let_def tcpip_tcp_timer_def arp_timer_def
    dhcp_timer_coarse_def dhcp_timer_fine_def igmp_timer_def dns_timer_def TCP_TMR_INTERVAL_def ARP_TMR_INTERVAL_def
    DHCP_COARSE_TIMER_MSECS_def DHCP_FINE_TIMER_MSECS_def IGMP_TMR_INTERVAL_def DNS_TMR_INTERVAL_def
  note facts = sys_timeout_ok[OF env] timers_env_okD[OF env]
  show "lg (net (call_timer env h a s)) = lg (net s) @ [h]" using h by (cases h) (simp_all add: module_timer_def defs facts)
  show "timeouts_last_time (call_timer env h a s) = timeouts_last_time s"
    using h by (cases h) (simp_all add: module_timer_def defs facts)
  show "next_timeout (call_timer env h a s) =
      timeout_link (of_nat (timer_period h)) \<lparr>to_time = of_nat (timer_period h), to_h = Some h, to_arg = 0\<rparr> (next_timeout s)"
    using h by (cases h) (simp_all add: module_timer_def defs facts)
qed

lemma module_list_link:
  "module_list l \<Longrightarrow> module_timer h \<Longrightarrow> module_list (timeout_link ms \<lparr>to_time = ms, to_h = Some h, to_arg = a\<rparr> l)"
proof -
  assume l: "module_list l" and h: "module_timer h"
  let ?P = "\<lambda>k. \<exists>h. fst k = Some h \<and> module_timer h"
  have all: "module_list l \<longleftrightarrow> (\<forall>k\<in>snd ` set (dues 0 l). ?P k)" for l
  proof -
    have "snd ` set (dues 0 l) = (\<lambda>t. (to_h t, to_arg t)) ` set l" by (simp only: list.set_map[symmetric] dues_keys)
    then show ?thesis by (auto simp: module_list_def)
  qed
  show ?thesis using l h unfolding all by (simp add: timeout_link_dues)
qed

text \<open>The loop fires exactly what the schedule says, in its order.\<close>

lemma check_loop_fires:
  assumes env: "timers_env_ok env lg"
  shows "fires timer_period D es ls es' \<Longrightarrow> es = pending b (next_timeout s) \<Longrightarrow> next_timeout s \<noteq> [] \<Longrightarrow>
    module_list (next_timeout s) \<Longrightarrow> b \<le> D \<Longrightarrow> unat diff = D - b \<Longrightarrow>
    \<exists>s'. check_loop env now diff s = Some s' \<and> lg (net s') = lg (net s) @ map snd ls \<and>
         es' = pending (if ls = [] then b else fst (last ls)) (next_timeout s') \<and> module_list (next_timeout s') \<and>
         timeouts_last_time s' = (if ls = [] then timeouts_last_time s else now)"
proof (induction arbitrary: b s diff rule: fires.induct)
  case (rest es)
  then obtain t ts where l: "next_timeout s = t # ts" by (cases "next_timeout s") auto
  then have "D < b + unat (to_time t)" using rest by (simp add: pending_def)
  then have "\<not> to_time t \<le> diff" using rest by (simp add: word_le_nat_alt)
  then show ?case using rest l by (subst check_loop.simps) simp
next
  case (fire d k es ls es')
  then obtain t ts where l: "next_timeout s = t # ts" by (cases "next_timeout s") auto
  then have t: "d = b + unat (to_time t)" "k = the (to_h t)" "es = pending d ts" using fire.prems(1) by (simp_all add: pending_def)
  obtain h where h: "to_h t = Some h" "module_timer h" using fire.prems(3) l by (auto simp: module_list_def)
  then have k: "k = h" using t by simp
  have le: "to_time t \<le> diff" using fire.hyps(1) fire.prems t by (simp add: word_le_nat_alt)
  let ?s = "s\<lparr>timeouts_last_time := now, next_timeout := ts, net := tm_free env (net s)\<rparr>"
  let ?c = "call_timer env h (to_arg t) ?s"
  have c: "lg (net ?c) = lg (net s) @ [h]" "timeouts_last_time ?c = now"
      "next_timeout ?c = timeout_link (of_nat (timer_period h)) \<lparr>to_time = of_nat (timer_period h), to_h = Some h, to_arg = 0\<rparr> ts"
    by (simp_all add: call_module_timer[OF env h(2)] timers_env_okD(4)[OF env])
  have "unat (of_nat (timer_period h) :: u32) = timer_period h" by (cases h) simp_all
  then have "due_insert (d + timer_period k, k) es = pending d (next_timeout ?c)"
    by (simp add: pending_def c(3) timeout_link_dues due_insert_map[of "\<lambda>x. the (fst x)"] t(3) k)
  moreover have "length (dues 0 (next_timeout ?c)) \<noteq> 0" by (simp add: c(3) timeout_link_dues del: length_0_conv)
  then have "next_timeout ?c \<noteq> []" by auto
  moreover have "module_list ts" using fire.prems(3) l by (simp add: module_list_def)
  then have "module_list (next_timeout ?c)" using module_list_link h(2) c(3) by simp
  moreover have "unat (diff - to_time t) = D - d" using le fire.prems t(1) by (simp add: unat_sub)
  ultimately obtain s' where s': "check_loop env now (diff - to_time t) ?c = Some s'"
      "lg (net s') = lg (net ?c) @ map snd ls" "es' = pending (if ls = [] then d else fst (last ls)) (next_timeout s')"
      "module_list (next_timeout s')" "timeouts_last_time s' = (if ls = [] then timeouts_last_time ?c else now)"
    using fire.IH[of d ?c "diff - to_time t"] fire.hyps(1) by blast
  have "check_loop env now diff s = Some s'" using l le h s'(1) by (subst check_loop.simps) simp
  then show ?case using s' c k by (simp split: if_splits)
qed


text \<open>A list that runs empty is read through: the loop tests the head it has just removed.\<close>

lemma check_loop_reads_null:
  assumes "next_timeout s = [t]" "to_h t = None" "to_time t \<le> diff"
  shows "check_loop env now diff s = None"
  using assms by (subst check_loop.simps, simp, subst check_loop.simps, simp)

section \<open>Concrete instances\<close>

definition demo_env :: "timer_fn list timers_env" where
  "demo_env =
     \<lparr>tm_malloc = (\<lambda>w. (True, w)), tm_free = (\<lambda>w. w), tm_now = (\<lambda>w. (3500000, w)), timer2_ms_flag = (\<lambda>w. 0),
      tcp_pcbs = (\<lambda>w. True), tcp_tmr = (\<lambda>w. w @ [Tcpip_tcp_timer]), etharp_tmr = (\<lambda>w. w @ [Arp_timer]),
      dhcp_coarse_tmr = (\<lambda>w. w @ [Dhcp_timer_coarse]), dhcps_coarse_tmr = (\<lambda>w. w),
      dhcp_fine_tmr = (\<lambda>w. w @ [Dhcp_timer_fine]), dhcp_maxrtx_clear = (\<lambda>w. w), igmp_tmr = (\<lambda>w. w @ [Igmp_timer]),
      dns_tmr = (\<lambda>w. w @ [Dns_timer]), user_timer = (\<lambda>i a s. s)\<rparr>"

definition demo_timers :: "timer_fn list net_timers" where
  "demo_timers = (sys_timeouts_init demo_env
     \<lparr>next_timeout = [], timeouts_last_time = 0, tcpip_tcp_timer_active = False, net = []\<rparr>)\<lparr>timeouts_last_time := 0\<rparr>"

lemma demo_env_ok: "timers_env_ok demo_env (\<lambda>w. w)"
  by (simp add: timers_env_ok_def demo_env_def)

lemma demo_timers_list:
  "next_timeout demo_timers =
     [\<lparr>to_time = 100, to_h = Some Igmp_timer, to_arg = 0\<rparr>, \<lparr>to_time = 25, to_h = Some Tcpip_tcp_timer, to_arg = 0\<rparr>,
      \<lparr>to_time = 375, to_h = Some Dhcp_timer_fine, to_arg = 0\<rparr>, \<lparr>to_time = 500, to_h = Some Dns_timer, to_arg = 0\<rparr>,
      \<lparr>to_time = 4000, to_h = Some Arp_timer, to_arg = 0\<rparr>, \<lparr>to_time = 55000, to_h = Some Dhcp_timer_coarse, to_arg = 0\<rparr>]"
  by (simp add: demo_timers_def sys_timeouts_init_def sys_timeout_def demo_env_def timeout_link_def on_net_def
      TCP_TMR_INTERVAL_def ARP_TMR_INTERVAL_def DHCP_COARSE_TIMER_MSECS_def DHCP_FINE_TIMER_MSECS_def IGMP_TMR_INTERVAL_def
      DNS_TMR_INTERVAL_def Let_def)



end
