(* ===== verification/Spec2Isabelle.thy ===== *)
theory Spec2Isabelle
  imports UmmChecks Base64 InetChksum Eboot Uart Twi Noniso Wiring I2s Clock Sha1 EtharpRoute IpHeader SysTimeouts
begin

text \<open>
  A verification library for the C code of the ESP8266 Arduino core that this repository carries
  under src/libs/Arduino-master.  The rest of the repository is sketches and libraries in C++,
  display drivers and data; the core is the part that is system software: every sketch runs on its heap,
  its serial driver, its timers and pins, its network stack and its boot loader.  Paths below
  are relative to src/libs/Arduino-master.

  \<^bold>\<open>The program's parts.\<close>  The boot loader (bootloaders/eboot) runs first: it reads a command an
  earlier run of the application left in RTC memory, copies a new firmware image over the old
  one in flash if told to, and jumps to it.  The application's core
  (cores/esp8266) then offers the heap, the serial ports, two-wire transfers, pins, pin interrupts,
  PWM, pulse and shift timing, I2S audio and the clock; its interrupt handlers share state with the functions the
  sketch calls.  The network stack (tools/sdk/lwip) keeps packets in chains of buffers taken from
  the heap through the SDK's allocation functions (cores/esp8266/heap.c), computes checksums over those chains, resolves
  the next hop of a datagram by ARP while the datagram waits in a queue, and runs its timeouts.  libb64 and the Hash library serve the
  application (HTTP authentication, web-socket handshakes).

  \<^bold>\<open>Theories.\<close>
  \<^item> Prelude: machine integers (\<open>u8\<close>, \<open>u16\<close>, \<open>u32\<close> are words of that width, C's \<open>int\<close> is 32 bits),
    byte memory with little-endian loads and stores, the C memory functions, and the collection
    \<open>mem_laws\<close>.
  \<^item> UmmBlocks, UmmMalloc: cores/esp8266/umm_malloc/umm_malloc.c on the bytes of the heap, macro by macro
    and function by function.  UmmLinks reads the links as numbers and states the
    well-formedness of the two chains they form; UmmAlloc abstracts to the map from allocated
    blocks to lengths and states the interface \<open>allocator\<close>; UmmRefine shows that each operation
    on bytes computes the operation on links; UmmFrame which bytes it leaves alone; UmmSpec,
    UmmRealloc the contracts; UmmClient the interface \<open>heap_allocator\<close> and the runs \<open>umm_run\<close> of
    a client; UmmSafety, UmmInfo, UmmChecks the theorems over all runs, the accounting walk and the
    debug-build checks.
  \<^item> Base64: cores/esp8266/libb64.  InetChksum: core/ipv4/inet_chksum.c and core/def.c of lwIP.
    IpAddr: core/ipv4/ip_addr.c.  Pbuf and PbufCopy: core/pbuf.c.  SysTimeouts: core/timers.c.
  \<^item> LwipHeap: cores/esp8266/heap.c, which puts lwIP's packets on umm_malloc's heap, and the interface
    \<open>lwip_heap\<close> of what the packet code relies on, interpreted on umm_malloc.
  \<^item> Etharp: netif/etharp.c, function by function.  EtharpTable: the table of entries and its
    well-formedness.  EtharpSafe, EtharpCalls, EtharpPackets, EtharpOutput: the interfaces \<open>arp_heap\<close> (packets
    in blocks of the heap) and \<open>arp_world\<close> (with a driver, an IP layer and DHCP that keep it so), and
    in them that each operation runs and keeps the invariant \<open>arp_ok\<close>.  EtharpNet: a station,
    that is these operations on umm_malloc's heap above any device, its histories, and what holds
    after each.  EtharpCache: the table as a map from addresses to lines (\<open>arp_cache\<close>), which entry is recycled, and what a
    tick does to the map.  EtharpWire, EtharpSend, EtharpRoute: over a driver that logs
    its frames (\<open>arp_log\<close>), what learning an address and sending a datagram do to the map and the log.
  \<^item> EbootCommand: the RTC message, both copies of the file.  Eboot: bootloaders/eboot/eboot.c, flash.c and
    core_esp8266_flash_utils.c.
  \<^item> Uart: cores/esp8266/uart.c.  Gpio: the registers of esp8266_peri.h.  Twi: core_esp8266_si2c.c.
    Timer: core_esp8266_timer.c.  Pwm: core_esp8266_wiring_pwm.c.  Pins: core_esp8266_wiring_digital.c and
    analogWrite.  Wiring: core_esp8266_wiring_shift.c and core_esp8266_wiring_pulse.c.
    Clock: core_esp8266_wiring.c and time.c.  I2s: core_esp8266_i2s.c.  Noniso: the integer conversions of core_esp8266_noniso.c.
  \<^item> Sha1: libraries/Hash/src/sha1/sha1.c.

  \<^bold>\<open>How state and operations correspond.\<close>  A C struct is a record with the struct's fields (prefixed where
  HOL would confuse them); file-scope variables are the fields of a state record of the component; a
  function takes that record and returns it changed, with its result.  Definitions keep the C names; a
  loop is a definition of its own named after the function.  Memory
  is a function from addresses to bytes where layout or aliasing matters (heap, packet data, RTC memory,
  flash), and a list where only the order of elements does.
  \<open>None\<close> stands for what C leaves undefined or what does not return: an access outside an
  array or outside allocated memory, a division by zero, a loop that never ends.  Each theorem about a
  \<open>partial_function\<close> therefore states that the result is \<open>Some\<close>, so that returning is part of the claim.

  \<^bold>\<open>Code that is not in the repository\<close> is an argument: \<open>spi\<close> (the ROM's flash routines), \<open>dev\<close>
  (the UART's registers and the SDK), \<open>g\<close> and \<open>soc\<close> (pin registers, interrupt
  controller, cycle counter), \<open>sdk\<close> (clock and network time), \<open>irq\<close> (the interrupts that arrive while the
  I2S code waits), \<open>env\<close> (the C heap below
  lwIP, the recycling of receive buffers, and around ARP the driver's \<open>linkoutput\<close>, the IP layer's \<open>ip_input\<close> and
  DHCP's \<open>dhcp_arp_reply\<close>).  A \<open>station\<close> fixes the last three from a \<open>device\<close>, any
  functions of its own state: the driver copies the frame it is given before it returns, the IP layer reads the datagram and
  frees the packet, and recycling a receive buffer acts on the SDK's state alone; \<open>w\<close> is the word address at which the linker
  puts the heap.  What a theorem needs of them is a named hypothesis, and its
  witness instantiates it with concrete functions.

  \<^bold>\<open>What the theorems show.\<close>
  \<^item> Heap: memory safety over all client runs, the contracts of malloc, calloc, realloc and free,
    coalescing, exact accounting, soundness of the integrity check, detection of overruns by poisoning.  Two
    interfaces state the contract once: the byte model is shown to refine the
    link model, and both are interpreted on the code's operations.
  \<^item> Codecs: base64 and \<open>ltoa\<close> and IPv4 text round trips, SHA-1 in pieces equal to
    FIPS 180 of the whole, the agreement of three checksum implementations and their independence from how a packet is cut.
  \<^item> Boot: the copy and erase loops end and change exactly what they should; \<open>main\<close> always ends; a
    command survives the reset and a damaged one is rejected.
  \<^item> Drivers: the serial ring is a bounded FIFO for every interleaving with the interrupt handler; the lines
    the two-wire master drives decode to the transfer asked for; a PWM period has the duty asked for; the pin
    dispatcher runs exactly the handlers due; \<open>millis\<close> stays within a stated drift.
    The I2S ring plays what was written, in order.
  \<^item> Packets: release by reference count, copying in and out across buffers, and joining.
  \<^item> Timeouts: the queue of relative times is a sorted queue of absolute ones, and a late check runs
    exactly what is due.
  \<^item> ARP: no history of ticks, sends, queries and received frames of any content gets the module stuck, corrupts its
    table or leaks a packet; which entry is recycled; how the cache ages; an address that is learned releases the queued datagrams
    in order; a datagram goes to the right hop or waits behind a request.  The heap below is umm_malloc's, so these
    theorems rest on those of the heap, packet and ARP theories together.

  \<^bold>\<open>Bounds and fuel.\<close>  No definition takes fuel: loops are structural, have a measure, or are
  \<open>partial_function (option)\<close>.  Heap sizes are bounded by the 15-bit block numbers (at most 32768
  blocks of 8 bytes); packet lengths are 16 bits wide and wrap as in C.

  \<^bold>\<open>Not modelled\<close>, and why.  SPIFFS and lwIP's other protocol modules (IP, UDP, TCP, DHCP, DNS and so on) are the
  large parts still open; ARP's view of IP and DHCP is the argument \<open>env\<close>.  lwIP's IP fragments, AutoIP, memory
  pools and socket layer are compiled out by lwipopts.h.  The GDB stub, the stack switch and the crash report need the processor's
  registers; \<open>dtostrf\<close> its floating point.  The remaining files are data tables, one-line
  forwards, C++ wrappers, and device tables of the display library.
\<close>

end
